(* ===== verification/LZO_Prelude.thy ===== *)
theory LZO_Prelude
  imports Main "HOL-Library.Word" "HOL-Library.Code_Target_Numeral"
begin

unbundle bit_operations_syntax

text \<open>
  Shared vocabulary of the development: the C integer types the LZO library uses, the
  library's status codes, the bit arithmetic of its byte formats and the list lemmas that
  describe an LZ77 copy.

  \<^item> \<open>lzo_byte\<close> is an 8-bit word.  \<open>lzo_uint\<close> values are natural numbers; where an
    addition of the source can leave the 64-bit range the wrap-around is written out with
    \<open>uadd\<close> (the model is the LP64 build, \<open>LZO_SIZEOF_LZO_UINT = 8\<close>).
  \<^item> Pointers into a buffer are indices into the list that models the buffer.
\<close>

section \<open>Integer types\<close>

type_synonym byte = "8 word"
type_synonym u16 = "16 word"
type_synonym u32 = "32 word"
type_synonym u64 = "64 word"

definition LZO_BYTE :: "nat \<Rightarrow> byte" where
  "LZO_BYTE x = of_nat x"

definition LZO_UINT_RANGE :: nat where
  "LZO_UINT_RANGE = 2 ^ 64"

definition uadd :: "nat \<Rightarrow> nat \<Rightarrow> nat" where
  "uadd a b = (a + b) mod LZO_UINT_RANGE"

named_theorems bits "conversion of the formats' shifts and masks to arithmetic"

lemma unat_LZO_BYTE [simp]: "unat (LZO_BYTE x) = x mod 256"
  by (simp add: LZO_BYTE_def unat_of_nat)

lemma LZO_BYTE_unat [simp]: "LZO_BYTE (unat b) = b"
  by (simp add: LZO_BYTE_def)

lemma unat_byte_less [simp]: "unat (b :: byte) < 256"
  using unsigned_less [of b, where ?'a = nat] by simp

lemma unat_byte_le [simp]: "unat (b :: byte) \<le> 255"
  using unat_byte_less [of b] by linarith

lemma LZO_BYTE_inject: "a < 256 \<Longrightarrow> b < 256 \<Longrightarrow> LZO_BYTE a = LZO_BYTE b \<longleftrightarrow> a = b"
  by (metis mod_less unat_LZO_BYTE)

lemma uadd_small [simp]: "a + b < LZO_UINT_RANGE \<Longrightarrow> uadd a b = a + b"
  by (simp add: uadd_def)

lemma uadd_less [simp]: "uadd a b < LZO_UINT_RANGE"
  by (simp add: uadd_def LZO_UINT_RANGE_def)

section \<open>Shifts and masks\<close>

lemma and_3 [bits]: "(n :: nat) AND 3 = n mod 4"
  using take_bit_eq_mask [of 2 n] by (simp add: take_bit_eq_mod mask_eq_exp_minus_1)

lemma and_7 [bits]: "(n :: nat) AND 7 = n mod 8"
  using take_bit_eq_mask [of 3 n] by (simp add: take_bit_eq_mod mask_eq_exp_minus_1)

lemma and_31 [bits]: "(n :: nat) AND 31 = n mod 32"
  using take_bit_eq_mask [of 5 n] by (simp add: take_bit_eq_mod mask_eq_exp_minus_1)

lemma and_63 [bits]: "(n :: nat) AND 63 = n mod 64"
  using take_bit_eq_mask [of 6 n] by (simp add: take_bit_eq_mod mask_eq_exp_minus_1)

lemma and_16383 [bits]: "(n :: nat) AND 16383 = n mod 16384"
  using take_bit_eq_mask [of 14 n] by (simp add: take_bit_eq_mod mask_eq_exp_minus_1)

lemma and_8 [bits]: "(n :: nat) AND 8 = 8 * (n div 8 mod 2)"
proof (rule bit_eqI)
  fix m
  have 8: "bit (8 :: nat) m \<longleftrightarrow> m = 3" for m
    using bit_exp_iff [where ?'a = nat, of 3 m] by auto
  have "bit n 3 \<longleftrightarrow> odd (n div 8)"
    by (simp add: bit_iff_odd)
  then show "bit (n AND 8) m = bit (8 * (n div 8 mod 2)) m"
    by (cases "odd (n div 8)") (auto simp: bit_and_iff 8 odd_iff_mod_2_eq_one)
qed

lemma or_disjoint:
  fixes a b :: nat
  assumes "b < 2 ^ n"
  shows "a * 2 ^ n OR b = a * 2 ^ n + b"
proof -
  have "\<not> bit b m" if "n \<le> m" for m
    using assms that by (metis bit_take_bit_iff leD take_bit_nat_eq_self_iff)
  then have "push_bit n a AND b = 0"
    by (intro bit_eqI) (auto simp: bit_simps)
  then show ?thesis
    using disjunctive_add_eq_or by (metis push_bit_eq_mult)
qed

lemma byte_or_low:
  assumes "unat (b :: byte) mod 4 = 0" and "r < 4"
  shows "unat (b OR LZO_BYTE r) = unat b + r"
proof -
  define q where "q = unat b div 4"
  have "unat b = q * 2 ^ 2"
    using assms(1) by (simp add: q_def) presburger
  then show ?thesis
    using assms(2) by (simp add: unsigned_or_eq or_disjoint [of r 2 q, simplified])
qed

section \<open>Lists as buffers\<close>

text \<open>
  \<open>at xs i bs\<close>: the bytes \<open>bs\<close> stand at position \<open>i\<close> of the buffer \<open>xs\<close>.
\<close>

definition at :: "'a list \<Rightarrow> nat \<Rightarrow> 'a list \<Rightarrow> bool" where
  "at xs i bs \<longleftrightarrow> i + length bs \<le> length xs \<and> take (length bs) (drop i xs) = bs"

lemma at_Nil [simp]: "at xs i [] \<longleftrightarrow> i \<le> length xs"
  by (simp add: at_def)

lemma at_bound: "at xs i bs \<Longrightarrow> i + length bs \<le> length xs"
  by (simp add: at_def)

lemma at_nth: "at xs i bs \<Longrightarrow> k < length bs \<Longrightarrow> xs ! (i + k) = bs ! k"
  by (metis at_def add_leD1 le_add1 nth_drop nth_take)

lemma at_Cons: "at xs i (b # bs) \<longleftrightarrow> i < length xs \<and> xs ! i = b \<and> at xs (Suc i) bs"
proof (cases "i < length xs")
  case True
  then show ?thesis
    by (auto simp: at_def Cons_nth_drop_Suc [symmetric])
qed (auto simp: at_def)

lemma at_append: "at xs i (as @ bs) \<longleftrightarrow> at xs i as \<and> at xs (i + length as) bs"
  by (induction as arbitrary: i) (auto simp: at_Cons at_bound dest: at_bound)

lemma at_take: "at xs i bs \<Longrightarrow> take (length bs) (drop i xs) = bs"
  by (simp add: at_def)

lemma at_self: "at (as @ bs @ cs) (length as) bs"
  by (simp add: at_def)

text \<open>
  \<open>lz_copy off n out\<close> is the copy \<open>do *op++ = *m_pos++; while (--n)\<close> with
  \<open>m_pos = op - off\<close>: bytes just written are read again when \<open>off < n\<close>.
\<close>

primrec lz_copy :: "nat \<Rightarrow> nat \<Rightarrow> 'a list \<Rightarrow> 'a list" where
  "lz_copy off 0 out = out"
| "lz_copy off (Suc n) out = lz_copy off n (out @ [out ! (length out - off)])"

lemma length_lz_copy [simp]: "length (lz_copy off n out) = length out + n"
  by (induction n arbitrary: out) auto

lemma lz_copy_add: "lz_copy off (m + n) out = lz_copy off n (lz_copy off m out)"
  by (induction m arbitrary: out) auto

text \<open>Where the source repeats itself at distance \<open>off\<close>, the copy reproduces it.\<close>

lemma lz_copy_prefix:
  assumes "0 < off" "off \<le> k" "k + n \<le> length src"
    and "\<And>i. i < n \<Longrightarrow> src ! (k + i) = src ! (k + i - off)"
  shows "lz_copy off n (take k src) = take (k + n) src"
  using assms
proof (induction n arbitrary: k)
  case 0
  then show ?case by simp
next
  case (Suc n)
  have "take k src ! (length (take k src) - off) = src ! k"
    using Suc.prems(1-3) Suc.prems(4) [of 0] by simp
  then have "take k src @ [take k src ! (length (take k src) - off)] = take (Suc k) src"
    using Suc.prems(3) by (simp add: take_Suc_conv_app_nth)
  moreover have "lz_copy off n (take (Suc k) src) = take (Suc k + n) src"
    using Suc.prems(1-3) Suc.prems(4) [of "Suc _"] by (intro Suc.IH) auto
  ultimately show ?case by simp
qed

end
