(* ===== verification/LZO_Machine.thy ===== *)
theory LZO_Machine
  imports LZO_Prelude
begin

text \<open>
  The machine the decompressors of the library run on: an input buffer with a read pointer
  \<open>ip\<close>, an output buffer of fixed capacity with a write pointer \<open>op\<close>, the overrun tests of
  \<open>src/app/lzo/src/lzo1_d.ch\<close>, and results that tell a return of the C function from an access
  outside a buffer.

  \<^item> A decompressor is a control-flow graph: its C labels are the constructors of a datatype,
    a basic block maps a machine state to \<open>Run l s\<close> (jump to label \<open>l\<close>), \<open>Return e out\<close>
    (the C function returns status \<open>e\<close> with \<open>out[0 .. *out_len - 1] = out\<close>) or \<open>Fault\<close>
    (a read or write outside the buffers, or a failed \<open>assert\<close>).
  \<^item> Blocks are written in continuation style, one primitive per C expression, so that every
    read of \<open>*ip\<close>, every write of \<open>*op\<close> and every test is a branch of the model.
  \<^item> The lemmas are the closed forms of the copy loops, the rules by which a predicate on results
    is propagated through a block, and the two relations between results used later
    (\<open>agrees\<close>: equal up to an overrun error).
\<close>

section \<open>Status codes\<close>

datatype lzo_status =
    LZO_E_OK | LZO_E_ERROR | LZO_E_OUT_OF_MEMORY | LZO_E_NOT_COMPRESSIBLE
  | LZO_E_INPUT_OVERRUN | LZO_E_OUTPUT_OVERRUN | LZO_E_LOOKBEHIND_OVERRUN
  | LZO_E_EOF_NOT_FOUND | LZO_E_INPUT_NOT_CONSUMED | LZO_E_NOT_YET_IMPLEMENTED
  | LZO_E_INVALID_ARGUMENT | LZO_E_INVALID_ALIGNMENT | LZO_E_OUTPUT_NOT_CONSUMED
  | LZO_E_INTERNAL_ERROR

fun status_code :: "lzo_status \<Rightarrow> int" where
  "status_code LZO_E_OK = 0"
| "status_code LZO_E_ERROR = -1"
| "status_code LZO_E_OUT_OF_MEMORY = -2"
| "status_code LZO_E_NOT_COMPRESSIBLE = -3"
| "status_code LZO_E_INPUT_OVERRUN = -4"
| "status_code LZO_E_OUTPUT_OVERRUN = -5"
| "status_code LZO_E_LOOKBEHIND_OVERRUN = -6"
| "status_code LZO_E_EOF_NOT_FOUND = -7"
| "status_code LZO_E_INPUT_NOT_CONSUMED = -8"
| "status_code LZO_E_NOT_YET_IMPLEMENTED = -9"
| "status_code LZO_E_INVALID_ARGUMENT = -10"
| "status_code LZO_E_INVALID_ALIGNMENT = -11"
| "status_code LZO_E_OUTPUT_NOT_CONSUMED = -12"
| "status_code LZO_E_INTERNAL_ERROR = -99"

lemma status_code_inject: "status_code a = status_code b \<longleftrightarrow> a = b"
  by (cases a; cases b) auto

text \<open>Callers compare codes as integers (\<open>r != LZO_E_OK\<close>, \<open>r < 0\<close>).\<close>

instantiation lzo_status :: linorder
begin

definition less_eq_lzo_status :: "lzo_status \<Rightarrow> lzo_status \<Rightarrow> bool" where
  "less_eq_lzo_status a b \<longleftrightarrow> status_code a \<le> status_code b"

definition less_lzo_status :: "lzo_status \<Rightarrow> lzo_status \<Rightarrow> bool" where
  "less_lzo_status a b \<longleftrightarrow> status_code a < status_code b"

instance
  by intro_classes (auto simp: less_eq_lzo_status_def less_lzo_status_def status_code_inject)

end

lemma status_nonpos: "(e :: lzo_status) \<le> LZO_E_OK"
  by (cases e) (auto simp: less_eq_lzo_status_def)

definition overrun_errors :: "lzo_status set" where
  "overrun_errors = {LZO_E_INPUT_OVERRUN, LZO_E_OUTPUT_OVERRUN, LZO_E_LOOKBEHIND_OVERRUN}"

section \<open>State and results\<close>

text \<open>
  The environment of a call: the input \<open>in[0 .. in_len - 1]\<close>, the size of the memory behind
  \<open>out\<close> (on entry \<open>*out_len\<close>, the distance \<open>op_end - out\<close>) and which of the tests
  \<open>LZO_TEST_OVERRUN_INPUT\<close>, \<open>LZO_TEST_OVERRUN_OUTPUT\<close>, \<open>LZO_TEST_OVERRUN_LOOKBEHIND\<close> are compiled in.
  \<open>d_debug\<close> is a build with \<open>LZO_DEBUG\<close>, the only one in which \<open>assert\<close> is active
  (\<open>src/app/lzo/src/lzo_conf.h\<close> defines \<open>NDEBUG\<close> otherwise).
\<close>

record dec_env =
  d_in :: "byte list"
  d_cap :: nat
  d_test_ip :: bool
  d_test_op :: bool
  d_test_lb :: bool
  d_debug :: bool

text \<open>
  \<open>d_ip = ip - in\<close>; \<open>d_out\<close> holds the bytes written so far, \<open>op - out = length d_out\<close>.
  \<open>d_last\<close> is the variable \<open>last_m_off\<close>, which only the LZO1Z format has.
\<close>

record dec_state =
  d_ip :: nat
  d_out :: "byte list"
  d_last :: nat

datatype 'l dec_result =
    Run 'l dec_state
  | Return lzo_status "byte list"
  | Fault

section \<open>Primitives\<close>

definition NEED_IP :: "dec_env \<Rightarrow> nat \<Rightarrow> dec_state \<Rightarrow> 'l dec_result \<Rightarrow> 'l dec_result" where
  "NEED_IP E x s k =
     (if d_test_ip E \<and> length (d_in E) - d_ip s < x
      then Return LZO_E_INPUT_OVERRUN (d_out s) else k)"

definition NEED_OP :: "dec_env \<Rightarrow> nat \<Rightarrow> dec_state \<Rightarrow> 'l dec_result \<Rightarrow> 'l dec_result" where
  "NEED_OP E x s k =
     (if d_test_op E \<and> d_cap E - length (d_out s) < x
      then Return LZO_E_OUTPUT_OVERRUN (d_out s) else k)"

definition TEST_LB :: "dec_env \<Rightarrow> int \<Rightarrow> dec_state \<Rightarrow> 'l dec_result \<Rightarrow> 'l dec_result" where
  "TEST_LB E m_pos s k =
     (if d_test_lb E \<and> (m_pos < 0 \<or> m_pos \<ge> int (length (d_out s)))
      then Return LZO_E_LOOKBEHIND_OVERRUN (d_out s) else k)"

definition TEST_IV :: "dec_env \<Rightarrow> nat \<Rightarrow> dec_state \<Rightarrow> 'l dec_result \<Rightarrow> 'l dec_result" where
  "TEST_IV E x s k =
     (if d_test_ip E \<and> x > LZO_UINT_RANGE - 511
      then Return LZO_E_INPUT_OVERRUN (d_out s) else k)"

definition TEST_OV :: "dec_env \<Rightarrow> nat \<Rightarrow> dec_state \<Rightarrow> 'l dec_result \<Rightarrow> 'l dec_result" where
  "TEST_OV E x s k =
     (if d_test_op E \<and> x > LZO_UINT_RANGE - 511
      then Return LZO_E_OUTPUT_OVERRUN (d_out s) else k)"

text \<open>\<open>assert(c)\<close>: a failed assertion aborts the program.\<close>

definition c_assert :: "dec_env \<Rightarrow> bool \<Rightarrow> 'l dec_result \<Rightarrow> 'l dec_result" where
  "c_assert E c k = (if d_debug E \<and> \<not> c then Fault else k)"

text \<open>\<open>ip[i]\<close>, and \<open>*ip++\<close>\<close>

definition peek_ip :: "dec_env \<Rightarrow> nat \<Rightarrow> dec_state \<Rightarrow> (nat \<Rightarrow> 'l dec_result) \<Rightarrow> 'l dec_result" where
  "peek_ip E i s k =
     (if d_ip s + i < length (d_in E) then k (unat (d_in E ! (d_ip s + i))) else Fault)"

definition next_ip ::
    "dec_env \<Rightarrow> dec_state \<Rightarrow> (nat \<Rightarrow> dec_state \<Rightarrow> 'l dec_result) \<Rightarrow> 'l dec_result" where
  "next_ip E s k = peek_ip E 0 s (\<lambda>b. k b (s\<lparr>d_ip := d_ip s + 1\<rparr>))"

text \<open>\<open>*op++ = b\<close>\<close>

definition put_op ::
    "dec_env \<Rightarrow> byte \<Rightarrow> dec_state \<Rightarrow> (dec_state \<Rightarrow> 'l dec_result) \<Rightarrow> 'l dec_result" where
  "put_op E b s k =
     (if length (d_out s) < d_cap E then k (s\<lparr>d_out := d_out s @ [b]\<rparr>) else Fault)"

text \<open>\<open>do *op++ = *ip++; while (--n > 0)\<close> for \<open>n > 0\<close>\<close>

primrec copy_lits ::
    "dec_env \<Rightarrow> nat \<Rightarrow> dec_state \<Rightarrow> (dec_state \<Rightarrow> 'l dec_result) \<Rightarrow> 'l dec_result" where
  "copy_lits E 0 s k = k s"
| "copy_lits E (Suc n) s k =
     next_ip E s (\<lambda>b s. put_op E (LZO_BYTE b) s (\<lambda>s. copy_lits E n s k))"

text \<open>\<open>do *op++ = *m_pos++; while (--n > 0)\<close> for \<open>n > 0\<close>; \<open>m_pos\<close> is relative to \<open>out\<close>\<close>

primrec copy_match ::
    "dec_env \<Rightarrow> nat \<Rightarrow> int \<Rightarrow> dec_state \<Rightarrow> (dec_state \<Rightarrow> 'l dec_result) \<Rightarrow> 'l dec_result" where
  "copy_match E 0 m_pos s k = k s"
| "copy_match E (Suc n) m_pos s k =
     (if 0 \<le> m_pos \<and> m_pos < int (length (d_out s))
      then put_op E (d_out s ! nat m_pos) s (\<lambda>s. copy_match E n (m_pos + 1) s k)
      else Fault)"

text \<open>
  The loops themselves: with \<open>n = 0\<close> the test \<open>--n > 0\<close> wraps around, so the loop runs
  \<open>2 ^ 64\<close> times and leaves every buffer.
\<close>

definition do_copy_lits ::
    "dec_env \<Rightarrow> nat \<Rightarrow> dec_state \<Rightarrow> (dec_state \<Rightarrow> 'l dec_result) \<Rightarrow> 'l dec_result" where
  "do_copy_lits E n s k = (if n = 0 then Fault else copy_lits E n s k)"

definition do_copy_match ::
    "dec_env \<Rightarrow> nat \<Rightarrow> int \<Rightarrow> dec_state \<Rightarrow> (dec_state \<Rightarrow> 'l dec_result) \<Rightarrow> 'l dec_result" where
  "do_copy_match E n m_pos s k = (if n = 0 then Fault else copy_match E n m_pos s k)"

section \<open>Closed forms of the copy loops\<close>

text \<open>Both pointers stay within (or one past) their buffers.\<close>

definition dec_wf :: "dec_env \<Rightarrow> dec_state \<Rightarrow> bool" where
  "dec_wf E s \<longleftrightarrow> d_ip s \<le> length (d_in E) \<and> length (d_out s) \<le> d_cap E"

lemma copy_lits_closed:
  "dec_wf E s \<Longrightarrow> copy_lits E n s k =
     (if d_ip s + n \<le> length (d_in E) \<and> length (d_out s) + n \<le> d_cap E
      then k (s\<lparr>d_ip := d_ip s + n, d_out := d_out s @ take n (drop (d_ip s) (d_in E))\<rparr>)
      else Fault)"
proof (induction n arbitrary: s)
  case 0
  then show ?case by (cases s) (simp add: dec_wf_def)
next
  case (Suc n)
  show ?case
  proof (cases "d_ip s < length (d_in E) \<and> length (d_out s) < d_cap E")
    case True
    then have "take (Suc n) (drop (d_ip s) (d_in E)) =
        d_in E ! d_ip s # take n (drop (Suc (d_ip s)) (d_in E))"
      by (simp add: Cons_nth_drop_Suc [symmetric])
    with True Suc.prems show ?thesis
      by (simp add: next_ip_def peek_ip_def put_op_def Suc.IH dec_wf_def)
  next
    case False
    then show ?thesis
      by (auto simp: next_ip_def peek_ip_def put_op_def)
  qed
qed

lemma copy_match_closed:
  assumes "length (d_out s) \<le> d_cap E" "0 < n"
  shows "copy_match E n m_pos s k =
     (if 0 \<le> m_pos \<and> m_pos < int (length (d_out s)) \<and> length (d_out s) + n \<le> d_cap E
      then k (s\<lparr>d_out := lz_copy (length (d_out s) - nat m_pos) n (d_out s)\<rparr>)
      else Fault)"
  using assms
proof (induction n arbitrary: s m_pos)
  case 0
  then show ?case by simp
next
  case (Suc n)
  have off: "Suc (length (d_out s)) - nat (m_pos + 1) = length (d_out s) - nat m_pos"
    if "0 \<le> m_pos" using that by (simp add: nat_add_distrib)
  show ?case
  proof (cases "0 \<le> m_pos \<and> m_pos < int (length (d_out s)) \<and> length (d_out s) < d_cap E")
    case True
    then have "length (d_out s) - (length (d_out s) - nat m_pos) = nat m_pos"
      by (simp add: nat_le_iff less_imp_le)
    with True Suc show ?thesis
      by (cases "n = 0") (auto simp: put_op_def off)
  next
    case False
    then show ?thesis by (auto simp: put_op_def)
  qed
qed

lemma copy_match_add:
  "copy_match E (m + n) m_pos s k = copy_match E m m_pos s (\<lambda>s. copy_match E n (m_pos + int m) s k)"
  by (induction m arbitrary: m_pos s) (simp_all add: put_op_def algebra_simps)

lemmas dec_prims =
  NEED_IP_def NEED_OP_def TEST_LB_def TEST_IV_def TEST_OV_def c_assert_def
  peek_ip_def next_ip_def put_op_def do_copy_lits_def do_copy_match_def

section \<open>Removing the overrun tests\<close>

text \<open>
  \<open>untested E\<close> is the build without \<open>LZO_TEST_OVERRUN\<close>.  A tested run either reports an
  overrun or takes exactly the steps of the untested one.
\<close>

definition untested :: "dec_env \<Rightarrow> dec_env" where
  "untested E = E\<lparr>d_test_ip := False, d_test_op := False, d_test_lb := False\<rparr>"

lemma untested_simps [simp]:
  "d_in (untested E) = d_in E" "d_cap (untested E) = d_cap E"
  "d_test_ip (untested E) = False" "d_test_op (untested E) = False"
  "d_test_lb (untested E) = False" "d_debug (untested E) = d_debug E"
  by (simp_all add: untested_def)

definition agrees :: "'l dec_result \<Rightarrow> 'l dec_result \<Rightarrow> bool" where
  "agrees r r' \<longleftrightarrow> r = r' \<or> (\<exists>e out. r = Return e out \<and> e \<in> overrun_errors)"

named_theorems agree "tested and untested primitives agree"

lemma agrees_refl [simp, agree]: "agrees r r"
  by (simp add: agrees_def)

lemma agrees_error: "e \<in> overrun_errors \<Longrightarrow> agrees (Return e out) r"
  by (auto simp: agrees_def)

lemma agrees_NEED_IP [agree]: "agrees k k' \<Longrightarrow> agrees (NEED_IP E x s k) (NEED_IP (untested E) x s k')"
  by (simp add: NEED_IP_def agrees_error overrun_errors_def)

lemma agrees_NEED_OP [agree]: "agrees k k' \<Longrightarrow> agrees (NEED_OP E x s k) (NEED_OP (untested E) x s k')"
  by (simp add: NEED_OP_def agrees_error overrun_errors_def)

lemma agrees_TEST_LB [agree]: "agrees k k' \<Longrightarrow> agrees (TEST_LB E m s k) (TEST_LB (untested E) m s k')"
  by (simp add: TEST_LB_def agrees_error overrun_errors_def)

lemma agrees_TEST_IV [agree]: "agrees k k' \<Longrightarrow> agrees (TEST_IV E x s k) (TEST_IV (untested E) x s k')"
  by (simp add: TEST_IV_def agrees_error overrun_errors_def)

lemma agrees_TEST_OV [agree]: "agrees k k' \<Longrightarrow> agrees (TEST_OV E x s k) (TEST_OV (untested E) x s k')"
  by (simp add: TEST_OV_def agrees_error overrun_errors_def)

lemma agrees_c_assert [agree]: "agrees k k' \<Longrightarrow> agrees (c_assert E c k) (c_assert (untested E) c k')"
  by (simp add: c_assert_def)

lemma agrees_peek_ip [agree]:
  "(\<And>b. agrees (k b) (k' b)) \<Longrightarrow> agrees (peek_ip E i s k) (peek_ip (untested E) i s k')"
  by (simp add: peek_ip_def)

lemma agrees_next_ip [agree]:
  "(\<And>b s. agrees (k b s) (k' b s)) \<Longrightarrow> agrees (next_ip E s k) (next_ip (untested E) s k')"
  by (simp add: next_ip_def agrees_peek_ip)

lemma agrees_put_op [agree]:
  "(\<And>s. agrees (k s) (k' s)) \<Longrightarrow> agrees (put_op E b s k) (put_op (untested E) b s k')"
  by (simp add: put_op_def)

lemma agrees_copy_lits [agree]:
  "(\<And>s. agrees (k s) (k' s)) \<Longrightarrow> agrees (copy_lits E n s k) (copy_lits (untested E) n s k')"
  by (induction n arbitrary: s) (auto intro!: agree)

lemma agrees_copy_match [agree]:
  "(\<And>s. agrees (k s) (k' s)) \<Longrightarrow>
     agrees (copy_match E n m_pos s k) (copy_match (untested E) n m_pos s k')"
  by (induction n arbitrary: s m_pos) (auto intro!: agree)

lemma agrees_do_copy_lits [agree]:
  "(\<And>s. agrees (k s) (k' s)) \<Longrightarrow> agrees (do_copy_lits E n s k) (do_copy_lits (untested E) n s k')"
  by (simp add: do_copy_lits_def agrees_copy_lits)

lemma agrees_do_copy_match [agree]:
  "(\<And>s. agrees (k s) (k' s)) \<Longrightarrow>
     agrees (do_copy_match E n m_pos s k) (do_copy_match (untested E) n m_pos s k')"
  by (simp add: do_copy_match_def agrees_copy_match)

lemma agrees_if [agree]:
  "(c \<Longrightarrow> agrees a a') \<Longrightarrow> (\<not> c \<Longrightarrow> agrees b b') \<Longrightarrow>
     agrees (if c then a else b) (if c then a' else b')"
  by simp

lemma agrees_Let [agree]: "(\<And>x. agrees (f x) (f' x)) \<Longrightarrow> agrees (Let x f) (Let x f')"
  by simp

section \<open>Progress of the read pointer\<close>

text \<open>
  \<open>ahead E Q i r\<close>: if \<open>r\<close> is a jump, its label satisfies \<open>Q\<close>, and the read pointer is at \<open>i\<close>
  or further and still within the input.  With \<open>i\<close> past the pointer at the start of the block
  this is why the machines stop.
\<close>

definition ahead :: "dec_env \<Rightarrow> ('l \<Rightarrow> bool) \<Rightarrow> nat \<Rightarrow> 'l dec_result \<Rightarrow> bool" where
  "ahead E Q i r \<longleftrightarrow>
     (\<forall>l s. r = Run l s \<longrightarrow> Q l \<and> i \<le> d_ip s \<and> d_ip s \<le> length (d_in E))"

named_theorems prog "progress of the primitives"

lemma ahead_Run [simp]: "ahead E Q i (Run l s) \<longleftrightarrow> Q l \<and> i \<le> d_ip s \<and> d_ip s \<le> length (d_in E)"
  by (simp add: ahead_def)

lemma ahead_Return [simp]: "ahead E Q i (Return e out)"
  by (simp add: ahead_def)

lemma ahead_Fault [simp]: "ahead E Q i Fault"
  by (simp add: ahead_def)

lemma ahead_NEED_IP [prog]: "ahead E Q i k \<Longrightarrow> ahead E Q i (NEED_IP E x s k)"
  by (simp add: NEED_IP_def)

lemma ahead_NEED_OP [prog]: "ahead E Q i k \<Longrightarrow> ahead E Q i (NEED_OP E x s k)"
  by (simp add: NEED_OP_def)

lemma ahead_TEST_LB [prog]: "ahead E Q i k \<Longrightarrow> ahead E Q i (TEST_LB E m s k)"
  by (simp add: TEST_LB_def)

lemma ahead_TEST_IV [prog]: "ahead E Q i k \<Longrightarrow> ahead E Q i (TEST_IV E x s k)"
  by (simp add: TEST_IV_def)

lemma ahead_TEST_OV [prog]: "ahead E Q i k \<Longrightarrow> ahead E Q i (TEST_OV E x s k)"
  by (simp add: TEST_OV_def)

lemma ahead_c_assert [prog]: "ahead E Q i k \<Longrightarrow> ahead E Q i (c_assert E c k)"
  by (simp add: c_assert_def)

lemma ahead_peek_ip [prog]:
  "(\<And>b. d_ip s + j < length (d_in E) \<Longrightarrow> ahead E Q i (k b)) \<Longrightarrow> ahead E Q i (peek_ip E j s k)"
  by (simp add: peek_ip_def)

lemma ahead_next_ip [prog]:
  "(\<And>b s'. d_ip s < d_ip s' \<Longrightarrow> d_ip s' \<le> length (d_in E) \<Longrightarrow> ahead E Q i (k b s')) \<Longrightarrow>
     ahead E Q i (next_ip E s k)"
  by (simp add: next_ip_def peek_ip_def)

lemma ahead_put_op [prog]:
  "(\<And>s'. d_ip s' = d_ip s \<Longrightarrow> ahead E Q i (k s')) \<Longrightarrow> ahead E Q i (put_op E b s k)"
  by (simp add: put_op_def)

lemma ahead_copy_lits [prog]:
  "(\<And>s'. d_ip s \<le> d_ip s' \<Longrightarrow> d_ip s \<le> length (d_in E) \<longrightarrow> d_ip s' \<le> length (d_in E) \<Longrightarrow>
      ahead E Q i (k s')) \<Longrightarrow> ahead E Q i (copy_lits E n s k)"
proof (induction n arbitrary: s)
  case (Suc n)
  have "ahead E Q i (copy_lits E n s' k)"
    if "d_ip s < d_ip s'" "d_ip s' \<le> length (d_in E)" for s'
    using that by (intro Suc.IH Suc.prems) auto
  then show ?case
    by (auto intro!: ahead_next_ip ahead_put_op)
qed auto

lemma ahead_copy_match [prog]:
  "(\<And>s'. d_ip s' = d_ip s \<Longrightarrow> ahead E Q i (k s')) \<Longrightarrow> ahead E Q i (copy_match E n m_pos s k)"
proof (induction n arbitrary: s m_pos)
  case (Suc n)
  then show ?case
    by (auto intro!: ahead_put_op Suc.IH)
qed auto

lemma ahead_do_copy_lits [prog]:
  "(\<And>s'. d_ip s \<le> d_ip s' \<Longrightarrow> d_ip s \<le> length (d_in E) \<longrightarrow> d_ip s' \<le> length (d_in E) \<Longrightarrow>
      ahead E Q i (k s')) \<Longrightarrow> ahead E Q i (do_copy_lits E n s k)"
  by (simp add: do_copy_lits_def ahead_copy_lits)

lemma ahead_do_copy_match [prog]:
  "(\<And>s'. d_ip s' = d_ip s \<Longrightarrow> ahead E Q i (k s')) \<Longrightarrow> ahead E Q i (do_copy_match E n m_pos s k)"
  by (simp add: do_copy_match_def ahead_copy_match)

lemma ahead_if [prog]:
  "(c \<Longrightarrow> ahead E Q i a) \<Longrightarrow> (\<not> c \<Longrightarrow> ahead E Q i b) \<Longrightarrow> ahead E Q i (if c then a else b)"
  by simp

lemma ahead_Let [prog]: "(\<And>x. y = x \<Longrightarrow> ahead E Q i (f x)) \<Longrightarrow> ahead E Q i (Let y f)"
  by simp

section \<open>Memory safety\<close>

text \<open>
  \<open>safe E I r\<close>: \<open>r\<close> is not a fault, a return has written at most the capacity, and a jump
  establishes the label invariant \<open>I\<close>.  The rules below are the weakest preconditions of the
  primitives in a build with all overrun tests.
\<close>

definition safe :: "dec_env \<Rightarrow> ('l \<Rightarrow> dec_state \<Rightarrow> bool) \<Rightarrow> 'l dec_result \<Rightarrow> bool" where
  "safe E I r \<longleftrightarrow> (case r of Run l s \<Rightarrow> I l s | Return e out \<Rightarrow> length out \<le> d_cap E | Fault \<Rightarrow> False)"

lemma safe_simps [simp]:
  "safe E I (Run l s) \<longleftrightarrow> I l s"
  "safe E I (Return e out) \<longleftrightarrow> length out \<le> d_cap E"
  "\<not> safe E I Fault"
  by (simp_all add: safe_def)

definition all_tests :: "dec_env \<Rightarrow> bool" where
  "all_tests E \<longleftrightarrow> d_test_ip E \<and> d_test_op E \<and> d_test_lb E"

named_theorems wp "weakest preconditions of the primitives for memory safety"

lemma safe_NEED_IP [wp]:
  "all_tests E \<Longrightarrow> dec_wf E s \<Longrightarrow> (x \<le> length (d_in E) - d_ip s \<Longrightarrow> safe E I k) \<Longrightarrow>
     safe E I (NEED_IP E x s k)"
  by (auto simp: NEED_IP_def all_tests_def dec_wf_def)

lemma safe_NEED_OP [wp]:
  "all_tests E \<Longrightarrow> dec_wf E s \<Longrightarrow> (x \<le> d_cap E - length (d_out s) \<Longrightarrow> safe E I k) \<Longrightarrow>
     safe E I (NEED_OP E x s k)"
  by (auto simp: NEED_OP_def all_tests_def dec_wf_def)

lemma safe_TEST_LB [wp]:
  "all_tests E \<Longrightarrow> dec_wf E s \<Longrightarrow>
     (0 \<le> m_pos \<Longrightarrow> m_pos < int (length (d_out s)) \<Longrightarrow> safe E I k) \<Longrightarrow>
     safe E I (TEST_LB E m_pos s k)"
  by (auto simp: TEST_LB_def all_tests_def dec_wf_def)

lemma safe_TEST_IV [wp]:
  "all_tests E \<Longrightarrow> dec_wf E s \<Longrightarrow> (x \<le> LZO_UINT_RANGE - 511 \<Longrightarrow> safe E I k) \<Longrightarrow>
     safe E I (TEST_IV E x s k)"
  by (auto simp: TEST_IV_def all_tests_def dec_wf_def)

lemma safe_TEST_OV [wp]:
  "all_tests E \<Longrightarrow> dec_wf E s \<Longrightarrow> (x \<le> LZO_UINT_RANGE - 511 \<Longrightarrow> safe E I k) \<Longrightarrow>
     safe E I (TEST_OV E x s k)"
  by (auto simp: TEST_OV_def all_tests_def dec_wf_def)

lemma safe_c_assert [wp]: "(d_debug E \<Longrightarrow> c) \<Longrightarrow> safe E I k \<Longrightarrow> safe E I (c_assert E c k)"
  by (auto simp: c_assert_def)

lemma safe_peek_ip [wp]:
  "d_ip s + j < length (d_in E) \<Longrightarrow> (\<And>b. b < 256 \<Longrightarrow> safe E I (k b)) \<Longrightarrow>
     safe E I (peek_ip E j s k)"
  by (simp add: peek_ip_def)

lemma safe_next_ip [wp]:
  "d_ip s < length (d_in E) \<Longrightarrow> (\<And>b. b < 256 \<Longrightarrow> safe E I (k b (s\<lparr>d_ip := d_ip s + 1\<rparr>))) \<Longrightarrow>
     safe E I (next_ip E s k)"
  by (simp add: next_ip_def peek_ip_def)

lemma safe_put_op [wp]:
  "length (d_out s) < d_cap E \<Longrightarrow> safe E I (k (s\<lparr>d_out := d_out s @ [b]\<rparr>)) \<Longrightarrow>
     safe E I (put_op E b s k)"
  by (simp add: put_op_def)

lemma safe_copy_lits [wp]:
  assumes "d_ip s + n \<le> length (d_in E)" "length (d_out s) + n \<le> d_cap E"
    and "\<And>out. length out = length (d_out s) + n \<Longrightarrow>
           safe E I (k (s\<lparr>d_ip := d_ip s + n, d_out := out\<rparr>))"
  shows "safe E I (copy_lits E n s k)"
  using assms by (subst copy_lits_closed) (auto simp: dec_wf_def)

lemma safe_do_copy_lits [wp]:
  assumes "0 < n" "d_ip s + n \<le> length (d_in E)" "length (d_out s) + n \<le> d_cap E"
    and "\<And>out. length out = length (d_out s) + n \<Longrightarrow>
           safe E I (k (s\<lparr>d_ip := d_ip s + n, d_out := out\<rparr>))"
  shows "safe E I (do_copy_lits E n s k)"
  using assms by (simp add: do_copy_lits_def safe_copy_lits)

lemma safe_copy_match [wp]:
  assumes "0 < n" "0 \<le> m_pos" "m_pos < int (length (d_out s))" "length (d_out s) + n \<le> d_cap E"
    and "\<And>out. length out = length (d_out s) + n \<Longrightarrow> safe E I (k (s\<lparr>d_out := out\<rparr>))"
  shows "safe E I (copy_match E n m_pos s k)"
  using assms by (subst copy_match_closed) auto

lemma safe_do_copy_match [wp]:
  assumes "0 < n" "0 \<le> m_pos" "m_pos < int (length (d_out s))" "length (d_out s) + n \<le> d_cap E"
    and "\<And>out. length out = length (d_out s) + n \<Longrightarrow> safe E I (k (s\<lparr>d_out := out\<rparr>))"
  shows "safe E I (do_copy_match E n m_pos s k)"
  using assms by (simp add: do_copy_match_def safe_copy_match)

lemma safe_if [wp]:
  "(c \<Longrightarrow> safe E I a) \<Longrightarrow> (\<not> c \<Longrightarrow> safe E I b) \<Longrightarrow> safe E I (if c then a else b)"
  by simp

lemma safe_Let [wp]: "(\<And>x. x = y \<Longrightarrow> safe E I (f x)) \<Longrightarrow> safe E I (Let y f)"
  by simp

end
