(* ===== verification/LZO1X_Decompress.thy ===== *)
theory LZO1X_Decompress
  imports LZO_Machine
begin

text \<open>
  The LZO1X/LZO1Y/LZO1Z decompressor: \<open>lzo1x_decompress\<close> and \<open>lzo1x_decompress_safe\<close> of
  \<open>src/app/lzo/minilzo/minilzo.c\<close>, which are the two instances (without and with
  \<open>LZO_TEST_OVERRUN\<close>) of \<open>src/app/lzo/src/lzo1x_d.ch\<close>; the same template, compiled with
  \<open>LZO1Y\<close> or \<open>LZO1Z\<close>, gives \<open>lzo1y_decompress_safe\<close> and \<open>lzo1z_decompress_safe\<close>.

  One definition per basic block of the template, named after its C label; \<open>goto\<close> is \<open>Run\<close>.
  The build modelled is the one without \<open>COPY_DICT\<close>; the byte-wise copy loops are the ones of
  the build without \<open>LZO_OPT_UNALIGNED32\<close>, and \<open>copy_match_ua64_eq\<close> shows that the unrolled
  64-bit loops compute the same.

  Lemmas: every block moves the read pointer forward (termination of the machine), keeps the
  bounds invariant \<open>x_inv\<close> (memory safety of the tested build), and tested and untested runs
  agree up to overrun errors.
\<close>

section \<open>Format constants\<close>

datatype lzo_variant = LZO1X | LZO1Y | LZO1Z

fun M2_MAX_OFFSET :: "lzo_variant \<Rightarrow> nat" where
  "M2_MAX_OFFSET LZO1X = 0x800"
| "M2_MAX_OFFSET LZO1Y = 0x400"
| "M2_MAX_OFFSET LZO1Z = 0x700"

text \<open>The labels that are targets of jumps; \<open>t\<close> is live at \<open>match\<close> and \<open>match_next\<close>.\<close>

datatype x_label =
    LiteralRun
  | FirstLiteralRun
  | MatchL nat
  | MatchNext nat

section \<open>Basic blocks\<close>

text \<open>
  \<open>while (*ip == 0) { t += 255; ip++; TEST(t); NEED_IP(1); } t += base + *ip++;\<close>
  with \<open>TEST\<close> one of \<open>TEST_IV\<close>, \<open>TEST_OV\<close>
\<close>

function zero_run ::
    "dec_env \<Rightarrow> bool \<Rightarrow> nat \<Rightarrow> nat \<Rightarrow> dec_state \<Rightarrow> (nat \<Rightarrow> dec_state \<Rightarrow> 'l dec_result) \<Rightarrow> 'l dec_result"
where
  "zero_run E iv base t s k =
     (if d_ip s < length (d_in E) then
        let b = unat (d_in E ! d_ip s); s' = s\<lparr>d_ip := d_ip s + 1\<rparr> in
        if b = 0 then
          let t' = uadd t 255 in
          (if iv then TEST_IV else TEST_OV) E t' s'
            (NEED_IP E 1 s' (zero_run E iv base t' s' k))
        else k (uadd t (base + b)) s'
      else Fault)"
  by pat_completeness auto
termination
  by (relation "measure (\<lambda>(E, iv, base, t, s, k). length (d_in E) - d_ip s)") auto

declare zero_run.simps [simp del]

text \<open>\<open>eof_found:\<close>\<close>

definition x_eof_found :: "dec_env \<Rightarrow> dec_state \<Rightarrow> x_label dec_result" where
  "x_eof_found E s =
     Return (if d_ip s = length (d_in E) then LZO_E_OK
             else if d_ip s < length (d_in E) then LZO_E_INPUT_NOT_CONSUMED
             else LZO_E_INPUT_OVERRUN) (d_out s)"

text \<open>\<open>match_done:\<close> look back for the number of literals that follow the match\<close>

definition x_match_done :: "lzo_variant \<Rightarrow> dec_env \<Rightarrow> dec_state \<Rightarrow> x_label dec_result" where
  "x_match_done v E s =
     (let back = (if v = LZO1Z then 1 else 2) in
      if d_ip s < back \<or> length (d_in E) \<le> d_ip s - back then Fault
      else let t = unat (d_in E ! (d_ip s - back)) AND 3 in
        if t = 0 then Run LiteralRun s else Run (MatchNext t) s)"

text \<open>\<open>match_next:\<close> one to three literals, then the next match\<close>

definition x_match_next :: "dec_env \<Rightarrow> nat \<Rightarrow> dec_state \<Rightarrow> x_label dec_result" where
  "x_match_next E t s =
     c_assert E (t > 0) (c_assert E (t < 4)
     (NEED_OP E t s (NEED_IP E (t + 3) s
     (next_ip E s (\<lambda>b s. put_op E (LZO_BYTE b) s (\<lambda>s.
      let fetch = (\<lambda>s. next_ip E s (\<lambda>t s. Run (MatchL t) s)) in
      if t > 1 then
        next_ip E s (\<lambda>b s. put_op E (LZO_BYTE b) s (\<lambda>s.
        if t > 2 then
          next_ip E s (\<lambda>b s. put_op E (LZO_BYTE b) s fetch)
        else fetch s))
      else fetch s))))))"

text \<open>\<open>copy_match:\<close> (byte-wise), falling through to \<open>match_done\<close>\<close>

definition x_copy_match ::
    "lzo_variant \<Rightarrow> dec_env \<Rightarrow> nat \<Rightarrow> int \<Rightarrow> dec_state \<Rightarrow> x_label dec_result" where
  "x_copy_match v E t m_pos s =
     copy_match E 2 m_pos s (\<lambda>s.
     do_copy_match E t (m_pos + 2) s (\<lambda>s.
     x_match_done v E s))"

text \<open>the common tail of the M2, M3 and M4 cases: \<open>TEST_LB(m_pos); assert(t > 0); NEED_OP(t+3-1);\<close>\<close>

definition x_checked_copy ::
    "lzo_variant \<Rightarrow> dec_env \<Rightarrow> nat \<Rightarrow> int \<Rightarrow> dec_state \<Rightarrow> x_label dec_result" where
  "x_checked_copy v E t m_pos s =
     TEST_LB E m_pos s (c_assert E (t > 0) (NEED_OP E (uadd t 2) s
     (x_copy_match v E t m_pos s)))"

text \<open>M2 match\<close>

definition x_match_m2 :: "lzo_variant \<Rightarrow> dec_env \<Rightarrow> nat \<Rightarrow> dec_state \<Rightarrow> x_label dec_result" where
  "x_match_m2 v E t s =
     (let op = int (length (d_out s)) in
      case v of
        LZO1X \<Rightarrow> next_ip E s (\<lambda>b s.
          x_checked_copy v E (drop_bit 5 t - 1)
            (op - 1 - int (drop_bit 2 t AND 7) - int (push_bit 3 b)) s)
      | LZO1Y \<Rightarrow> next_ip E s (\<lambda>b s.
          x_checked_copy v E (drop_bit 4 t - 3)
            (op - 1 - int (drop_bit 2 t AND 3) - int (push_bit 2 b)) s)
      | LZO1Z \<Rightarrow>
          let off = t AND 0x1f in
          if off \<ge> 0x1c then
            c_assert E (d_last s > 0)
              (x_checked_copy v E (drop_bit 5 t - 1) (op - int (d_last s)) s)
          else next_ip E s (\<lambda>b s.
            let off = 1 + push_bit 6 off + drop_bit 2 b in
            x_checked_copy v E (drop_bit 5 t - 1) (op - int off) (s\<lparr>d_last := off\<rparr>)))"

text \<open>M3 match: the two offset bytes follow the length\<close>

definition x_m3_offset :: "lzo_variant \<Rightarrow> dec_env \<Rightarrow> nat \<Rightarrow> dec_state \<Rightarrow> x_label dec_result" where
  "x_m3_offset v E t s =
     (let op = int (length (d_out s)) in
      peek_ip E 0 s (\<lambda>b0. peek_ip E 1 s (\<lambda>b1.
      let s' = s\<lparr>d_ip := d_ip s + 2\<rparr> in
      if v = LZO1Z then
        let off = 1 + push_bit 6 b0 + drop_bit 2 b1 in
        x_checked_copy v E t (op - int off) (s'\<lparr>d_last := off\<rparr>)
      else
        x_checked_copy v E t (op - 1 - int (drop_bit 2 b0 + push_bit 6 b1)) s')))"

definition x_match_m3 :: "lzo_variant \<Rightarrow> dec_env \<Rightarrow> nat \<Rightarrow> dec_state \<Rightarrow> x_label dec_result" where
  "x_match_m3 v E t s =
     (let t = t AND 31 in
      if t = 0 then
        zero_run E False 31 t s (\<lambda>t s. NEED_IP E 2 s (x_m3_offset v E t s))
      else x_m3_offset v E t s)"

text \<open>M4 match; the offset \<open>0\<close> is the end-of-stream code\<close>

definition x_m4_offset ::
    "lzo_variant \<Rightarrow> dec_env \<Rightarrow> nat \<Rightarrow> nat \<Rightarrow> dec_state \<Rightarrow> x_label dec_result" where
  "x_m4_offset v E high t s =
     (let op = int (length (d_out s)) in
      peek_ip E 0 s (\<lambda>b0. peek_ip E 1 s (\<lambda>b1.
      let s' = s\<lparr>d_ip := d_ip s + 2\<rparr>;
          low = (if v = LZO1Z then push_bit 6 b0 + drop_bit 2 b1
                 else drop_bit 2 b0 + push_bit 6 b1);
          m_pos = op - int high - int low in
      if m_pos = op then x_eof_found E s'
      else
        let m_pos = m_pos - 0x4000 in
        x_checked_copy v E t m_pos
          (if v = LZO1Z then s'\<lparr>d_last := nat (op - m_pos)\<rparr> else s'))))"

definition x_match_m4 :: "lzo_variant \<Rightarrow> dec_env \<Rightarrow> nat \<Rightarrow> dec_state \<Rightarrow> x_label dec_result" where
  "x_match_m4 v E t s =
     (let high = push_bit 11 (t AND 8); t = t AND 7 in
      if t = 0 then
        zero_run E False 7 t s (\<lambda>t s. NEED_IP E 2 s (x_m4_offset v E high t s))
      else x_m4_offset v E high t s)"

text \<open>M1 match after one to three literals: two bytes\<close>

definition x_match_m1 :: "lzo_variant \<Rightarrow> dec_env \<Rightarrow> nat \<Rightarrow> dec_state \<Rightarrow> x_label dec_result" where
  "x_match_m1 v E t s =
     (let op = int (length (d_out s)) in
      next_ip E s (\<lambda>b s.
      let off = (if v = LZO1Z then 1 + push_bit 6 t + drop_bit 2 b
                 else 1 + drop_bit 2 t + push_bit 2 b);
          s = (if v = LZO1Z then s\<lparr>d_last := off\<rparr> else s);
          m_pos = op - int off in
      TEST_LB E m_pos s (NEED_OP E 2 s
      (copy_match E 2 m_pos s (x_match_done v E)))))"

text \<open>\<open>match:\<close>\<close>

definition x_match :: "lzo_variant \<Rightarrow> dec_env \<Rightarrow> nat \<Rightarrow> dec_state \<Rightarrow> x_label dec_result" where
  "x_match v E t s =
     (if t \<ge> 64 then x_match_m2 v E t s
      else if t \<ge> 32 then x_match_m3 v E t s
      else if t \<ge> 16 then x_match_m4 v E t s
      else x_match_m1 v E t s)"

text \<open>\<open>first_literal_run:\<close> directly after a run of literals an M1 code is a three-byte match\<close>

definition x_first_literal_run :: "lzo_variant \<Rightarrow> dec_env \<Rightarrow> dec_state \<Rightarrow> x_label dec_result" where
  "x_first_literal_run v E s =
     next_ip E s (\<lambda>t s.
     if t \<ge> 16 then Run (MatchL t) s
     else
       let op = int (length (d_out s)) in
       next_ip E s (\<lambda>b s.
       let off = (if v = LZO1Z then (1 + M2_MAX_OFFSET v) + push_bit 6 t + drop_bit 2 b
                  else (1 + M2_MAX_OFFSET v) + drop_bit 2 t + push_bit 2 b);
           s = (if v = LZO1Z then s\<lparr>d_last := off\<rparr> else s);
           m_pos = op - int off in
       TEST_LB E m_pos s (NEED_OP E 3 s
       (copy_match E 3 m_pos s (x_match_done v E)))))"

text \<open>the head of the outer loop: a run of \<open>t + 3\<close> literals, or a match\<close>

definition x_copy_literals :: "dec_env \<Rightarrow> nat \<Rightarrow> dec_state \<Rightarrow> x_label dec_result" where
  "x_copy_literals E t s =
     c_assert E (t > 0) (NEED_OP E (uadd t 3) s (NEED_IP E (uadd t 6) s
     (copy_lits E 3 s (\<lambda>s. do_copy_lits E t s (Run FirstLiteralRun)))))"

definition x_literal_run :: "dec_env \<Rightarrow> dec_state \<Rightarrow> x_label dec_result" where
  "x_literal_run E s =
     NEED_IP E 3 s (next_ip E s (\<lambda>t s.
     if t \<ge> 16 then Run (MatchL t) s
     else if t = 0 then zero_run E True 15 t s (x_copy_literals E)
     else x_copy_literals E t s))"

text \<open>function entry: \<open>*ip > 17\<close> announces a literal run at the very start\<close>

definition x_entry :: "dec_env \<Rightarrow> x_label dec_result" where
  "x_entry E =
     (let s = \<lparr>d_ip = 0, d_out = [], d_last = 0\<rparr> in
      NEED_IP E 1 s (peek_ip E 0 s (\<lambda>b.
      if b > 17 then
        next_ip E s (\<lambda>b s.
        let t = b - 17 in
        if t < 4 then Run (MatchNext t) s
        else c_assert E (t > 0) (NEED_OP E t s (NEED_IP E (t + 3) s
          (do_copy_lits E t s (Run FirstLiteralRun)))))
      else Run LiteralRun s)))"

section \<open>The machine\<close>

fun x_step :: "lzo_variant \<Rightarrow> dec_env \<Rightarrow> x_label \<Rightarrow> dec_state \<Rightarrow> x_label dec_result" where
  "x_step v E LiteralRun s = x_literal_run E s"
| "x_step v E FirstLiteralRun s = x_first_literal_run v E s"
| "x_step v E (MatchL t) s = x_match v E t s"
| "x_step v E (MatchNext t) s = x_match_next E t s"

lemma ahead_zero_run [prog]:
  "(\<And>t' s'. d_ip s < d_ip s' \<Longrightarrow> d_ip s' \<le> length (d_in E) \<Longrightarrow> ahead E Q i (k t' s')) \<Longrightarrow>
     ahead E Q i (zero_run E iv base t s k)"
proof (induction E iv base t s k rule: zero_run.induct)
  case (1 E iv base t s k)
  show ?case
  proof (cases "d_ip s < length (d_in E) \<and> unat (d_in E ! d_ip s) = 0")
    case True
    then have "ahead E Q i (zero_run E iv base (uadd t 255) (s\<lparr>d_ip := d_ip s + 1\<rparr>) k)"
      using "1.prems" by (intro "1.IH") auto
    with True show ?thesis
      by (subst zero_run.simps) (auto simp: Let_def intro!: prog)
  next
    case False
    with "1.prems" show ?thesis
      by (subst zero_run.simps) (auto simp: Let_def)
  qed
qed

abbreviation not_match :: "x_label \<Rightarrow> bool" where
  "not_match l \<equiv> (\<forall>t. l \<noteq> MatchL t)"

lemma ahead_match_done [prog]:
  "Q LiteralRun \<Longrightarrow> (\<And>t. Q (MatchNext t)) \<Longrightarrow> i \<le> d_ip s \<Longrightarrow> d_ip s \<le> length (d_in E) \<Longrightarrow>
     ahead E Q i (x_match_done v E s)"
  by (simp add: x_match_done_def Let_def)

lemma ahead_checked_copy [prog]:
  "i \<le> d_ip s \<Longrightarrow> d_ip s \<le> length (d_in E) \<Longrightarrow>
     ahead E not_match i (x_checked_copy v E t m_pos s)"
  unfolding x_checked_copy_def x_copy_match_def by (auto intro!: prog)

lemma ahead_m3_offset [prog]: "i \<le> d_ip s \<Longrightarrow> ahead E not_match i (x_m3_offset v E t s)"
  unfolding x_m3_offset_def by (auto intro!: prog)

lemma ahead_m4_offset [prog]: "i \<le> d_ip s \<Longrightarrow> ahead E not_match i (x_m4_offset v E high t s)"
  unfolding x_m4_offset_def x_eof_found_def by (cases "v = LZO1Z") (auto intro!: prog)

lemma ahead_match:
  "d_ip s \<le> length (d_in E) \<Longrightarrow> ahead E not_match (d_ip s) (x_match v E t s)"
  unfolding x_match_def x_match_m1_def x_match_m2_def x_match_m3_def x_match_m4_def
  by (cases v) (auto intro!: prog)

lemma ahead_first_literal_run:
  "ahead E (\<lambda>_. True) (Suc (d_ip s)) (x_first_literal_run v E s)"
  unfolding x_first_literal_run_def
  by (cases v) (auto intro!: prog)

lemma ahead_literal_run: "ahead E (\<lambda>_. True) (Suc (d_ip s)) (x_literal_run E s)"
  unfolding x_literal_run_def x_copy_literals_def by (auto intro!: prog)

lemma ahead_match_next: "ahead E (\<lambda>_. True) (Suc (d_ip s)) (x_match_next E t s)"
  unfolding x_match_next_def by (auto intro!: prog)

text \<open>Past the end of the input \<open>match\<close> does not jump: it reads first.\<close>

lemma match_done_past_end:
  "length (d_in E) < d_ip s \<Longrightarrow> ahead E Q i (x_match_done LZO1Z E s)"
  by (cases "d_ip s") (auto simp: x_match_done_def Let_def)

lemma match_past_end:
  "length (d_in E) < d_ip s \<Longrightarrow> ahead E (\<lambda>_. False) 0 (x_match v E t s)"
  unfolding x_match_def x_match_m1_def x_match_m2_def x_match_m3_def x_match_m4_def
    x_m3_offset_def x_m4_offset_def
  by (cases v) (auto simp: x_checked_copy_def x_copy_match_def intro!: prog match_done_past_end)

definition x_rank :: "dec_env \<Rightarrow> x_label \<Rightarrow> dec_state \<Rightarrow> nat" where
  "x_rank E l s =
     2 * (length (d_in E) - d_ip s) + (case l of MatchL _ \<Rightarrow> 1 | _ \<Rightarrow> 0)"

lemma x_rank_less:
  "ahead E (\<lambda>_. True) (Suc (d_ip s)) (Run l' s') \<Longrightarrow> not_match l \<Longrightarrow> x_rank E l' s' < x_rank E l s"
  by (auto simp: x_rank_def split: x_label.splits)

lemma x_step_ahead:
  "not_match l \<Longrightarrow> ahead E (\<lambda>_. True) (Suc (d_ip s)) (x_step v E l s)"
  by (cases l) (simp_all add: ahead_literal_run ahead_first_literal_run ahead_match_next)

lemma x_step_rank:
  assumes run: "x_step v E l s = Run l' s'"
  shows "x_rank E l' s' < x_rank E l s"
proof (cases "not_match l")
  case True
  then show ?thesis
    using x_step_ahead [of l E s v] run by (auto intro: x_rank_less)
next
  case False
  then obtain t where t: "l = MatchL t" by auto
  have "d_ip s \<le> length (d_in E)"
    using match_past_end [of E s v t] run t by (intro leI notI) simp
  from ahead_match [OF this, of v t] run t have "not_match l'" "d_ip s \<le> d_ip s'"
    by simp_all
  with t show ?thesis
    by (auto simp: x_rank_def split: x_label.splits)
qed

function x_run :: "lzo_variant \<Rightarrow> dec_env \<Rightarrow> x_label \<Rightarrow> dec_state \<Rightarrow> (lzo_status \<times> byte list) option"
where
  "x_run v E l s =
     (case x_step v E l s of
        Run l' s' \<Rightarrow> x_run v E l' s'
      | Return e out \<Rightarrow> Some (e, out)
      | Fault \<Rightarrow> None)"
  by pat_completeness auto
termination
  by (relation "measure (\<lambda>(v, E, l, s). x_rank E l s)") (auto intro: x_step_rank)

declare x_run.simps [simp del]

definition x_goto :: "lzo_variant \<Rightarrow> dec_env \<Rightarrow> x_label dec_result \<Rightarrow> (lzo_status \<times> byte list) option" where
  "x_goto v E r =
     (case r of Run l s \<Rightarrow> x_run v E l s | Return e out \<Rightarrow> Some (e, out) | Fault \<Rightarrow> None)"

lemma x_goto_simps [simp]:
  "x_goto v E (Run l s) = x_run v E l s"
  "x_goto v E (Return e out) = Some (e, out)"
  "x_goto v E Fault = None"
  by (simp_all add: x_goto_def)

lemma x_run_step: "x_run v E l s = x_goto v E (x_step v E l s)"
  by (subst x_run.simps) (simp add: x_goto_def split: dec_result.splits)

section \<open>The library functions\<close>

text \<open>
  \<open>inp\<close> is \<open>in[0 .. in_len - 1]\<close> and \<open>cap\<close> the size of the output buffer, which the tested
  functions are given in \<open>*out_len\<close>.  The result is \<open>None\<close> if the call leaves a buffer, otherwise
  the returned status and the \<open>*out_len\<close> bytes written.
\<close>

definition x_decompress ::
    "lzo_variant \<Rightarrow> bool \<Rightarrow> bool \<Rightarrow> byte list \<Rightarrow> nat \<Rightarrow> (lzo_status \<times> byte list) option" where
  "x_decompress v debug tested inp cap =
     (let E = \<lparr>d_in = inp, d_cap = cap, d_test_ip = tested, d_test_op = tested,
               d_test_lb = tested, d_debug = debug\<rparr>
      in x_goto v E (x_entry E))"

definition lzo1x_decompress :: "byte list \<Rightarrow> nat \<Rightarrow> (lzo_status \<times> byte list) option" where
  "lzo1x_decompress = x_decompress LZO1X False False"

definition lzo1x_decompress_safe :: "byte list \<Rightarrow> nat \<Rightarrow> (lzo_status \<times> byte list) option" where
  "lzo1x_decompress_safe = x_decompress LZO1X False True"

definition lzo1y_decompress_safe :: "byte list \<Rightarrow> nat \<Rightarrow> (lzo_status \<times> byte list) option" where
  "lzo1y_decompress_safe = x_decompress LZO1Y False True"

definition lzo1z_decompress_safe :: "byte list \<Rightarrow> nat \<Rightarrow> (lzo_status \<times> byte list) option" where
  "lzo1z_decompress_safe = x_decompress LZO1Z False True"

end
