(* ===== verification/LZO_Memops.thy ===== *)
theory LZO_Memops
  imports LZO_Prelude "HOL-Library.Monad_Syntax"
begin

text \<open>
  The memory operations of \<open>src/app/lzo/minilzo/minilzo.c\<close>: the \<open>LZO_MEMOPS_*\<close> accessors
  (\<open>UA_GET_LE32\<close>, \<open>UA_COPY8\<close>, \<open>UA_COPYN\<close> are their aliases) and the library's own \<open>lzo_memcmp\<close>,
  \<open>lzo_memcpy\<close>, \<open>lzo_memmove\<close> and \<open>lzo_memset\<close>.

  Memory is one byte array; a pointer is an index into it, so that overlapping operands are
  expressible.  An access outside the array is \<open>None\<close>.  \<open>ua_cfg\<close> selects the build: no unaligned
  access, \<open>LZO_OPT_UNALIGNED32\<close>, or \<open>LZO_OPT_UNALIGNED64\<close>.

  Lemmas: little-endian round trips; a block copy and a byte-wise copy agree when the
  destination does not run into the source; \<open>COPYN\<close> and \<open>lzo_memmove\<close> move the block.
\<close>

section \<open>Bytes and blocks\<close>

datatype ua_cfg = NO_UNALIGNED | UNALIGNED32 | UNALIGNED64

definition rd :: "byte list \<Rightarrow> nat \<Rightarrow> byte option" where
  "rd m i = (if i < length m then Some (m ! i) else None)"

definition wr :: "byte list \<Rightarrow> nat \<Rightarrow> byte \<Rightarrow> byte list option" where
  "wr m i b = (if i < length m then Some (m[i := b]) else None)"

definition load :: "nat \<Rightarrow> byte list \<Rightarrow> nat \<Rightarrow> byte list option" where
  "load n m p = (if p + n \<le> length m then Some (take n (drop p m)) else None)"

definition store :: "byte list \<Rightarrow> nat \<Rightarrow> byte list \<Rightarrow> byte list option" where
  "store m p bs =
     (if p + length bs \<le> length m
      then Some (take p m @ bs @ drop (p + length bs) m) else None)"

text \<open>\<open>LZO_MEMOPS_SETn(dd, cc)\<close>: \<open>n\<close> byte stores\<close>

primrec memops_set :: "nat \<Rightarrow> byte list \<Rightarrow> nat \<Rightarrow> nat \<Rightarrow> byte list option" where
  "memops_set 0 m dd cc = Some m"
| "memops_set (Suc n) m dd cc = do { m \<leftarrow> wr m dd (LZO_BYTE cc); memops_set n m (dd + 1) cc }"

text \<open>\<open>LZO_MEMOPS_MOVEn(dd, ss)\<close>: \<open>d[0] = s[0]; d[1] = s[1]; ...\<close>, one byte after the other\<close>

primrec memops_move :: "nat \<Rightarrow> byte list \<Rightarrow> nat \<Rightarrow> nat \<Rightarrow> byte list option" where
  "memops_move 0 m dd ss = Some m"
| "memops_move (Suc n) m dd ss =
     do { b \<leftarrow> rd m ss; m \<leftarrow> wr m dd b; memops_move n m (dd + 1) (ss + 1) }"

text \<open>an assignment through a wide pointer: one load, then one store\<close>

definition memops_wide :: "nat \<Rightarrow> byte list \<Rightarrow> nat \<Rightarrow> nat \<Rightarrow> byte list option" where
  "memops_wide n m dd ss = do { bs \<leftarrow> load n m ss; store m dd bs }"

definition COPY4 :: "ua_cfg \<Rightarrow> byte list \<Rightarrow> nat \<Rightarrow> nat \<Rightarrow> byte list option" where
  "COPY4 c m dd ss = (if c = NO_UNALIGNED then memops_move 4 m dd ss else memops_wide 4 m dd ss)"

definition COPY8 :: "ua_cfg \<Rightarrow> byte list \<Rightarrow> nat \<Rightarrow> nat \<Rightarrow> byte list option" where
  "COPY8 c m dd ss =
     (case c of
        UNALIGNED64 \<Rightarrow> memops_wide 8 m dd ss
      | UNALIGNED32 \<Rightarrow> do { m \<leftarrow> COPY4 c m dd ss; COPY4 c m (dd + 4) (ss + 4) }
      | NO_UNALIGNED \<Rightarrow> memops_move 8 m dd ss)"

text \<open>\<open>while (n >= 8) { COPY8(d, s); d += 8; s += 8; n -= 8; } if (n >= 4) ...; if (n > 0) do ... \<close>\<close>

fun COPYN :: "ua_cfg \<Rightarrow> byte list \<Rightarrow> nat \<Rightarrow> nat \<Rightarrow> nat \<Rightarrow> byte list option" where
  "COPYN c m dd ss n =
     (if n \<ge> 8 then do { m \<leftarrow> COPY8 c m dd ss; COPYN c m (dd + 8) (ss + 8) (n - 8) }
      else if n \<ge> 4 then do { m \<leftarrow> COPY4 c m dd ss; memops_move (n - 4) m (dd + 4) (ss + 4) }
      else memops_move n m dd ss)"

declare COPYN.simps [simp del]

section \<open>Little-endian access\<close>

text \<open>\<open>s[0] | (s[1] << 8) | (s[2] << 16) | ...\<close>, and the bytes of a little-endian store\<close>

primrec get_le :: "byte list \<Rightarrow> 'a::len word" where
  "get_le [] = 0"
| "get_le (b # bs) = ucast b OR push_bit 8 (get_le bs)"

primrec put_le :: "nat \<Rightarrow> 'a::len word \<Rightarrow> byte list" where
  "put_le 0 v = []"
| "put_le (Suc n) v = ucast (v AND 0xff) # put_le n (drop_bit 8 v)"

definition get_le16 :: "byte list \<Rightarrow> nat \<Rightarrow> u16 option" where
  "get_le16 m ss = map_option get_le (load 2 m ss)"

definition get_le32 :: "byte list \<Rightarrow> nat \<Rightarrow> u32 option" where
  "get_le32 m ss = map_option get_le (load 4 m ss)"

definition get_le64 :: "byte list \<Rightarrow> nat \<Rightarrow> u64 option" where
  "get_le64 m ss = map_option get_le (load 8 m ss)"

definition put_le16 :: "byte list \<Rightarrow> nat \<Rightarrow> u16 \<Rightarrow> byte list option" where
  "put_le16 m dd v = store m dd (put_le 2 v)"

definition put_le32 :: "byte list \<Rightarrow> nat \<Rightarrow> u32 \<Rightarrow> byte list option" where
  "put_le32 m dd v = store m dd (put_le 4 v)"

lemma length_put_le [simp]: "length (put_le n v) = n"
  by (induction n arbitrary: v) auto

lemma byte_div: "(8 + j) div 8 = Suc (j div 8)"
  by simp

lemma byte_mask: "(0xff :: 'a::len word) = mask 8"
  by (simp add: mask_eq_exp_minus_1)

lemma bit_get_le:
  "bit (get_le bs :: 'a::len word) i \<longleftrightarrow>
     i < LENGTH('a) \<and> i < 8 * length bs \<and> bit (bs ! (i div 8)) (i mod 8)"
proof (induction bs arbitrary: i)
  case (Cons b bs)
  show ?case
  proof (cases "i < 8")
    case True
    then show ?thesis
      by (auto simp: bit_simps)
  next
    case False
    then obtain j where "i = 8 + j" by (metis le_Suc_ex not_less)
    then show ?thesis
      using bit_imp_le_length [of b i] by (auto simp: bit_simps Cons byte_div)
  qed
qed simp

lemma drop_get_le:
  assumes "8 * Suc (length bs) \<le> LENGTH('a)"
  shows "drop_bit 8 (get_le (b # bs) :: 'a::len word) = get_le bs"
  using assms by (intro bit_eqI) (auto simp: bit_get_le bit_drop_bit_eq byte_div simp del: get_le.simps)

lemma low_get_le:
  "8 \<le> LENGTH('a) \<Longrightarrow> ucast ((get_le (b # bs) :: 'a::len word) AND 0xff) = b"
  unfolding byte_mask
  by (rule bit_word_eqI)
    (use bit_imp_le_length [of b] in
      \<open>auto simp: bit_simps bit_get_le bit_mask_iff simp del: get_le.simps\<close>)

lemma put_get_le:
  "8 * length bs \<le> LENGTH('a) \<Longrightarrow> put_le (length bs) (get_le bs :: 'a::len word) = bs"
proof (induction bs)
  case (Cons b bs)
  then have "drop_bit 8 (get_le (b # bs) :: 'a word) = get_le bs"
    by (intro drop_get_le) simp
  moreover have "ucast ((get_le (b # bs) :: 'a word) AND 0xff) = b"
    using Cons.prems by (intro low_get_le) simp
  ultimately show ?case
    using Cons by (simp del: get_le.simps)
qed simp

lemma get_put_le: "get_le (put_le n v) = (take_bit (8 * n) v :: 'a::len word)"
proof (induction n arbitrary: v)
  case (Suc n)
  have "get_le (put_le (Suc n) v) =
      (ucast (ucast (v AND 0xff) :: byte) :: 'a word) OR push_bit 8 (take_bit (8 * n) (drop_bit 8 v))"
    by (simp add: Suc)
  also have "\<dots> = take_bit (8 * Suc n) v"
    unfolding byte_mask
    by (rule bit_word_eqI)
      (auto simp: bit_simps bit_mask_iff, metis le_add_diff_inverse linorder_not_less)
  finally show ?case .
qed simp

lemma get_le_inject:
  assumes "length as = length bs" "8 * length bs \<le> LENGTH('a)"
  shows "(get_le as :: 'a::len word) = get_le bs \<longleftrightarrow> as = bs"
  using put_get_le [of as, where ?'a = 'a] put_get_le [of bs, where ?'a = 'a] assms by metis

lemma get_le_xor:
  "length as = length bs \<Longrightarrow>
     (get_le as :: 'a::len word) XOR get_le bs = get_le (map2 (XOR) as bs)"
  by (rule bit_word_eqI) (auto simp: bit_simps bit_get_le nth_map)

lemma load_Some: "load n m p = Some bs \<longleftrightarrow> p + n \<le> length m \<and> bs = take n (drop p m)"
  by (auto simp: load_def)

lemma length_store: "store m p bs = Some m' \<Longrightarrow> length m' = length m"
  by (auto simp: store_def split: if_splits)

lemma load_store: "store m p bs = Some m' \<Longrightarrow> load (length bs) m' p = Some bs"
  by (auto simp: store_def load_def split: if_splits)

lemma get_put_le16: "put_le16 m dd v = Some m' \<Longrightarrow> get_le16 m' dd = Some v"
  using load_store [of m dd "put_le 2 v" m'] by (simp add: put_le16_def get_le16_def get_put_le take_bit_word_eq_self)

lemma get_put_le32: "put_le32 m dd v = Some m' \<Longrightarrow> get_le32 m' dd = Some v"
  using load_store [of m dd "put_le 4 v" m'] by (simp add: put_le32_def get_le32_def get_put_le take_bit_word_eq_self)

section \<open>Block copies\<close>

text \<open>\<open>blit m dd ss n\<close> is the array after \<open>m[dd .. dd+n-1]\<close> got the old \<open>m[ss .. ss+n-1]\<close>.\<close>

definition blit :: "byte list \<Rightarrow> nat \<Rightarrow> nat \<Rightarrow> nat \<Rightarrow> byte list" where
  "blit m dd ss n = map (\<lambda>i. if dd \<le> i \<and> i < dd + n then m ! (ss + (i - dd)) else m ! i) [0..<length m]"

lemma length_blit [simp]: "length (blit m dd ss n) = length m"
  by (simp add: blit_def)

lemma nth_blit [simp]:
  "i < length m \<Longrightarrow> blit m dd ss n ! i = (if dd \<le> i \<and> i < dd + n then m ! (ss + (i - dd)) else m ! i)"
  by (simp add: blit_def)

lemma blit_0 [simp]: "blit m dd ss 0 = m"
  by (rule nth_equalityI) auto

definition inside :: "byte list \<Rightarrow> nat \<Rightarrow> nat \<Rightarrow> nat \<Rightarrow> bool" where
  "inside m dd ss n \<longleftrightarrow> dd + n \<le> length m \<and> ss + n \<le> length m"

text \<open>the destination does not run into source bytes that are still to be read\<close>

definition forward_ok :: "nat \<Rightarrow> nat \<Rightarrow> nat \<Rightarrow> bool" where
  "forward_ok dd ss n \<longleftrightarrow> dd \<le> ss \<or> ss + n \<le> dd"

lemma blit_add:
  assumes "forward_ok dd ss (a + b)" "inside m dd ss (a + b)"
  shows "blit (blit m dd ss a) (dd + a) (ss + a) b = blit m dd ss (a + b)"
  using assms by (intro nth_equalityI) (auto simp: forward_ok_def inside_def)

lemma wide_eq_blit:
  "memops_wide n m dd ss = (if inside m dd ss n then Some (blit m dd ss n) else None)"
proof -
  have "take dd m @ take n (drop ss m) @ drop (dd + n) m = blit m dd ss n" if "inside m dd ss n"
  proof -
    have "length (take n (drop ss m)) = n" "length (take dd m) = dd"
      using that by (auto simp: inside_def)
    with that show ?thesis
      by (intro nth_equalityI) (auto simp: inside_def nth_append)
  qed
  then show ?thesis
    by (auto simp: memops_wide_def load_def store_def inside_def)
qed

lemma move_eq_blit:
  assumes "forward_ok dd ss n" "inside m dd ss n"
  shows "memops_move n m dd ss = Some (blit m dd ss n)"
  using assms
proof (induction n arbitrary: m dd ss)
  case (Suc n)
  have one: "m[dd := m ! ss] = blit m dd ss 1"
    using Suc.prems by (intro nth_equalityI) (auto simp: inside_def nth_list_update)
  have "memops_move n (blit m dd ss 1) (dd + 1) (ss + 1) =
      Some (blit (blit m dd ss 1) (dd + 1) (ss + 1) n)"
    using Suc.prems by (intro Suc.IH) (auto simp: forward_ok_def inside_def)
  then show ?case
    using Suc.prems blit_add [of dd ss 1 n m, unfolded plus_1_eq_Suc]
    by (simp add: rd_def wr_def one inside_def flip: One_nat_def)
qed simp

lemma copy4_eq_blit:
  "forward_ok dd ss 4 \<Longrightarrow> inside m dd ss 4 \<Longrightarrow> COPY4 c m dd ss = Some (blit m dd ss 4)"
  by (simp add: COPY4_def move_eq_blit wide_eq_blit)

lemma forward_ok_add:
  "forward_ok dd ss (a + b) \<Longrightarrow> forward_ok dd ss a \<and> forward_ok (dd + a) (ss + a) b"
  by (auto simp: forward_ok_def)

lemma inside_add:
  "inside m dd ss (a + b) \<Longrightarrow> inside m dd ss a \<and> inside (blit m dd ss a) (dd + a) (ss + a) b"
  by (auto simp: inside_def)

lemma copy8_eq_blit:
  assumes "forward_ok dd ss 8" "inside m dd ss 8"
  shows "COPY8 c m dd ss = Some (blit m dd ss 8)"
proof (cases c)
  case UNALIGNED32
  have "forward_ok dd ss (4 + 4)" "inside m dd ss (4 + 4)"
    using assms by simp_all
  from forward_ok_add [OF this(1)] inside_add [OF this(2)] blit_add [OF this] show ?thesis
    by (simp add: COPY8_def UNALIGNED32 copy4_eq_blit)
qed (use assms in \<open>simp_all add: COPY8_def move_eq_blit wide_eq_blit\<close>)

lemma copyn_eq_blit:
  assumes "forward_ok dd ss n" "inside m dd ss n"
  shows "COPYN c m dd ss n = Some (blit m dd ss n)"
  using assms
proof (induction c m dd ss n rule: COPYN.induct)
  case (1 c m dd ss n)
  consider (8) k where "n = 8 + k" | (4) k where "n = 4 + k" "n < 8" | (0) "n < 4"
    by (metis le_Suc_ex not_less)
  then show ?case
  proof cases
    case 8
    with 1 forward_ok_add [of dd ss 8 k] inside_add [of m dd ss 8 k] blit_add [of dd ss 8 k m]
    show ?thesis
      by (subst COPYN.simps) (simp add: copy8_eq_blit)
  next
    case 4
    with 1 forward_ok_add [of dd ss 4 k] inside_add [of m dd ss 4 k] blit_add [of dd ss 4 k m]
    show ?thesis
      by (subst COPYN.simps) (simp add: copy4_eq_blit move_eq_blit)
  qed (use 1 in \<open>simp add: COPYN.simps [of _ _ _ _ n] move_eq_blit\<close>)
qed

section \<open>The library's string functions\<close>

text \<open>\<open>lzo_memcmp\<close>: the difference of the first two bytes that differ\<close>

fun lzo_memcmp :: "byte list \<Rightarrow> nat \<Rightarrow> nat \<Rightarrow> nat \<Rightarrow> int option" where
  "lzo_memcmp m p1 p2 0 = Some 0"
| "lzo_memcmp m p1 p2 (Suc len) =
     do { a \<leftarrow> rd m p1; b \<leftarrow> rd m p2;
          let d = uint a - uint b in
          if d \<noteq> 0 then Some d else lzo_memcmp m (p1 + 1) (p2 + 1) len }"

definition lzo_memcpy :: "byte list \<Rightarrow> nat \<Rightarrow> nat \<Rightarrow> nat \<Rightarrow> byte list option" where
  "lzo_memcpy m p1 p2 len = (if \<not> len > 0 \<or> p1 = p2 then Some m else memops_move len m p1 p2)"

text \<open>\<open>do *--p1 = *--p2; while (--len > 0)\<close>\<close>

primrec move_down :: "nat \<Rightarrow> byte list \<Rightarrow> nat \<Rightarrow> nat \<Rightarrow> byte list option" where
  "move_down 0 m p1 p2 = Some m"
| "move_down (Suc n) m p1 p2 =
     do { b \<leftarrow> rd m (p2 - 1); m \<leftarrow> wr m (p1 - 1) b; move_down n m (p1 - 1) (p2 - 1) }"

definition lzo_memmove :: "byte list \<Rightarrow> nat \<Rightarrow> nat \<Rightarrow> nat \<Rightarrow> byte list option" where
  "lzo_memmove m p1 p2 len =
     (if \<not> len > 0 \<or> p1 = p2 then Some m
      else if p1 < p2 then memops_move len m p1 p2
      else move_down len m (p1 + len) (p2 + len))"

definition lzo_memset :: "byte list \<Rightarrow> nat \<Rightarrow> int \<Rightarrow> nat \<Rightarrow> byte list option" where
  "lzo_memset m s cc len = memops_set len m s (unat (word_of_int cc :: byte))"

lemma move_down_eq_blit:
  assumes "p2 \<le> p1" "inside m p1 p2 n"
  shows "move_down n m (p1 + n) (p2 + n) = Some (blit m p1 p2 n)"
  using assms
proof (induction n arbitrary: m)
  case (Suc n)
  let ?m = "m[p1 + n := m ! (p2 + n)]"
  have "move_down n ?m (p1 + n) (p2 + n) = Some (blit ?m p1 p2 n)"
    using Suc.prems by (intro Suc.IH) (auto simp: inside_def)
  moreover have "blit ?m p1 p2 n = blit m p1 p2 (Suc n)"
    using Suc.prems by (intro nth_equalityI) (auto simp: inside_def nth_list_update less_Suc_eq)
  ultimately show ?case
    using Suc.prems by (simp add: rd_def wr_def inside_def)
qed simp

lemma blit_same: "blit m p p n = m"
  by (rule nth_equalityI) auto

theorem memmove_blit:
  "inside m p1 p2 len \<Longrightarrow> lzo_memmove m p1 p2 len = Some (blit m p1 p2 len)"
  by (auto simp: lzo_memmove_def blit_same move_eq_blit forward_ok_def move_down_eq_blit)

theorem memcpy_blit:
  "inside m p1 p2 len \<Longrightarrow> forward_ok p1 p2 len \<Longrightarrow> lzo_memcpy m p1 p2 len = Some (blit m p1 p2 len)"
  by (auto simp: lzo_memcpy_def blit_same move_eq_blit)

lemma memops_set_closed:
  "dd + n \<le> length m \<Longrightarrow>
     memops_set n m dd cc = Some (take dd m @ replicate n (LZO_BYTE cc) @ drop (dd + n) m)"
proof (induction n arbitrary: m dd)
  case (Suc n)
  have "take (Suc dd) (m[dd := c]) = take dd m @ [c]" for c
    using Suc.prems by (simp add: take_Suc_conv_app_nth)
  with Suc show ?case
    by (simp add: wr_def)
qed simp

theorem memset_fills:
  "s + len \<le> length m \<Longrightarrow>
     lzo_memset m s cc len = Some (take s m @ replicate len (word_of_int cc) @ drop (s + len) m)"
  by (simp add: lzo_memset_def memops_set_closed)

lemma memcmp_cases:
  assumes "p1 + len \<le> length m" "p2 + len \<le> length m"
  obtains (eq) "lzo_memcmp m p1 p2 len = Some 0" "take len (drop p1 m) = take len (drop p2 m)"
    | (diff) k where "k < len" "take k (drop p1 m) = take k (drop p2 m)"
        "m ! (p1 + k) \<noteq> m ! (p2 + k)"
        "lzo_memcmp m p1 p2 len = Some (uint (m ! (p1 + k)) - uint (m ! (p2 + k)))"
  using assms
proof (induction len arbitrary: p1 p2 thesis)
  case (Suc n)
  have dr: "drop p1 m = m ! p1 # drop (Suc p1) m" "drop p2 m = m ! p2 # drop (Suc p2) m"
    using Suc.prems by (simp_all add: Cons_nth_drop_Suc)
  show ?case
  proof (cases "m ! p1 = m ! p2")
    case True
    then have rec: "lzo_memcmp m p1 p2 (Suc n) = lzo_memcmp m (Suc p1) (Suc p2) n"
      using Suc.prems by (simp add: rd_def)
    show ?thesis
    proof (rule Suc.IH [of "Suc p1" "Suc p2"])
      fix k
      assume k: "k < n" "take k (drop (Suc p1) m) = take k (drop (Suc p2) m)"
        "m ! (Suc p1 + k) \<noteq> m ! (Suc p2 + k)"
        "lzo_memcmp m (Suc p1) (Suc p2) n = Some (uint (m ! (Suc p1 + k)) - uint (m ! (Suc p2 + k)))"
      then show ?thesis
        using True rec dr by (intro Suc.prems(2) [of "Suc k"]) simp_all
    qed (use True rec dr Suc.prems in \<open>auto intro!: Suc.prems(1)\<close>)
  next
    case False
    then have "uint (m ! p1) \<noteq> uint (m ! p2)"
      by (simp add: word_uint_eq_iff)
    with False show ?thesis
      using Suc.prems(3,4) by (intro Suc.prems(2) [of 0]) (auto simp: rd_def)
  qed
qed auto

theorem memcmp_equal:
  assumes "p1 + len \<le> length m" "p2 + len \<le> length m"
  shows "lzo_memcmp m p1 p2 len = Some 0 \<longleftrightarrow> take len (drop p1 m) = take len (drop p2 m)"
  using assms
proof (cases rule: memcmp_cases)
  case (diff k)
  then have "take len (drop p1 m) ! k \<noteq> take len (drop p2 m) ! k"
    using assms by simp
  then have "take len (drop p1 m) \<noteq> take len (drop p2 m)"
    by metis
  then show ?thesis
    using diff(3,4) by (simp add: word_uint_eq_iff)
qed simp

end
