(* ===== verification/LZO1X_Compress.thy ===== *)
theory LZO1X_Compress
  imports LZO1X_Decompress LZO_Memops
begin

text \<open>
  The fast LZO1X and LZO1Y compressors: \<open>lzo1x_1_compress\<close> and its static \<open>do_compress\<close>
  (\<open>src/app/lzo/minilzo/minilzo.c\<close>, the expansion of \<open>src/app/lzo/src/lzo1x_c.ch\<close>).

  The build modelled is the deterministic one (\<open>LZO_DICT_USE_PTR = 0\<close>, 16-bit dictionary
  entries).  The three ways to extend a match (bytes, \<open>LZO_OPT_UNALIGNED32\<close>,
  \<open>LZO_OPT_UNALIGNED64\<close>, little endian, without the bit-scan intrinsics) are all modelled;
  literals are copied byte by byte.

  Positions \<open>ip\<close>, \<open>ii\<close>, \<open>m_pos\<close> are indices into the whole source \<open>src\<close>; \<open>bs\<close> is the start of
  the current block (the C argument \<open>in\<close> of \<open>do_compress\<close>).  \<open>op\<close> is the output written so far.
  \<open>None\<close> is an access outside \<open>src\<close>, or a change of \<open>op[-2]\<close> before \<open>op\<close> holds two bytes.  The
  output array has no capacity here: \<open>LZO1X_Roundtrip\<close> bounds what is written.
\<close>

section \<open>Format constants\<close>

fun M2_MAX_LEN :: "lzo_variant \<Rightarrow> nat" where
  "M2_MAX_LEN LZO1X = 8"
| "M2_MAX_LEN LZO1Y = 14"
| "M2_MAX_LEN LZO1Z = 8"

definition M3_MAX_OFFSET :: nat where "M3_MAX_OFFSET = 0x4000"
definition M4_MAX_OFFSET :: nat where "M4_MAX_OFFSET = 0xbfff"
definition M3_MAX_LEN :: nat where "M3_MAX_LEN = 33"
definition M4_MAX_LEN :: nat where "M4_MAX_LEN = 9"
definition M3_MARKER :: nat where "M3_MARKER = 32"
definition M4_MARKER :: nat where "M4_MARKER = 16"

lemmas x_consts =
  M3_MAX_OFFSET_def M4_MAX_OFFSET_def M3_MAX_LEN_def M4_MAX_LEN_def M3_MARKER_def M4_MARKER_def

section \<open>The dictionary and the search for a match\<close>

text \<open>\<open>lzo_dict_t\<close> is a 16-bit offset from the start of the block; \<open>D_BITS\<close> is 14.\<close>

type_synonym dict = "nat \<Rightarrow> u16"

definition DINDEX :: "u32 \<Rightarrow> nat" where
  "DINDEX dv = unat (drop_bit (32 - 14) (0x1824429d * dv) AND 0x3fff)"

text \<open>
  The loop from \<open>next:\<close> through \<open>literal:\<close> back to \<open>next:\<close>.  \<open>Some None\<close> is the \<open>break\<close> at
  \<open>ip >= ip_end\<close>; otherwise the position of the match, its source and the dictionary.
\<close>

function c_next ::
    "byte list \<Rightarrow> nat \<Rightarrow> nat \<Rightarrow> nat \<Rightarrow> nat \<Rightarrow> dict \<Rightarrow> (nat \<times> nat \<times> dict) option option" where
  "c_next src bs ip_end ii ip dict =
     (if ip \<ge> ip_end then Some None
      else do {
        dv \<leftarrow> get_le32 src ip;
        let dindex = DINDEX dv;
        let m_pos = bs + unat (dict dindex);
        let dict = dict(dindex := of_nat (ip - bs));
        mv \<leftarrow> get_le32 src m_pos;
        if dv \<noteq> mv then c_next src bs ip_end ii (ip + 1 + drop_bit 5 (ip - ii)) dict
        else Some (Some (ip, m_pos, dict))
      })"
  by pat_completeness auto
termination
  by (relation "measure (\<lambda>(src, bs, ip_end, ii, ip, dict). ip_end - ip)") auto

declare c_next.simps [simp del]

section \<open>The length of a match\<close>

text \<open>\<open>k\<close> times \<open>m_len += 1; if (ip[m_len] != m_pos[m_len]) break;\<close>\<close>

primrec cmp_steps :: "nat \<Rightarrow> byte list \<Rightarrow> nat \<Rightarrow> nat \<Rightarrow> nat \<Rightarrow> (nat \<times> bool) option" where
  "cmp_steps 0 src ip m_pos m_len = Some (m_len, True)"
| "cmp_steps (Suc k) src ip m_pos m_len =
     do {
       a \<leftarrow> rd src (ip + (m_len + 1));
       b \<leftarrow> rd src (m_pos + (m_len + 1));
       if a \<noteq> b then Some (m_len + 1, False) else cmp_steps k src ip m_pos (m_len + 1)
     }"

lemma cmp_steps_ge: "cmp_steps k src ip m_pos m_len = Some (m, c) \<Longrightarrow> m_len \<le> m"
  by (induction k arbitrary: m_len) (auto split: if_splits bind_splits, fastforce)

function ml_bytes_loop :: "byte list \<Rightarrow> nat \<Rightarrow> nat \<Rightarrow> nat \<Rightarrow> nat \<Rightarrow> nat option" where
  "ml_bytes_loop src ip m_pos ip_end m_len =
     (case cmp_steps 7 src ip m_pos m_len of
        None \<Rightarrow> None
      | Some (m, False) \<Rightarrow> Some m
      | Some (m, True) \<Rightarrow>
          if ip + (m + 1) \<ge> ip_end then Some (m + 1)
          else do {
            a \<leftarrow> rd src (ip + (m + 1));
            b \<leftarrow> rd src (m_pos + (m + 1));
            if a = b then ml_bytes_loop src ip m_pos ip_end (m + 1) else Some (m + 1)
          })"
  by pat_completeness auto
termination
  by (relation "measure (\<lambda>(src, ip, m_pos, ip_end, m_len). ip_end - (ip + m_len))")
    (auto dest: cmp_steps_ge)

declare ml_bytes_loop.simps [simp del]

definition ml_bytes :: "byte list \<Rightarrow> nat \<Rightarrow> nat \<Rightarrow> nat \<Rightarrow> nat option" where
  "ml_bytes src ip m_pos ip_end =
     do {
       a \<leftarrow> rd src (ip + 4);
       b \<leftarrow> rd src (m_pos + 4);
       if a = b then ml_bytes_loop src ip m_pos ip_end 4 else Some 4
     }"

text \<open>\<open>if ((v & UCHAR_MAX) == 0) do { v >>= CHAR_BIT; m_len += 1; } while ((v & UCHAR_MAX) == 0);\<close>
  for the nonzero \<open>v\<close> this is reached with\<close>

function zero_bytes :: "'a::len word \<Rightarrow> nat \<Rightarrow> nat" where
  "zero_bytes v m_len =
     (if v \<noteq> 0 \<and> v AND 0xff = 0 then zero_bytes (drop_bit 8 v) (m_len + 1) else m_len)"
  by pat_completeness auto
termination
proof (relation "measure (\<lambda>(v, m_len). unat v)")
  fix v :: "'a word" and m_len :: nat
  assume "v \<noteq> 0 \<and> v AND 0xff = 0"
  then have "unat v > 0"
    by (simp add: unat_gt_0)
  then have "unat v div 2 ^ 8 < unat v"
    by (intro div_less_dividend) simp_all
  moreover have "unat (drop_bit 8 v) = unat v div 2 ^ 8"
    by (metis unat_drop_bit_eq drop_bit_eq_div)
  ultimately show "((drop_bit 8 v, m_len + 1), (v, m_len)) \<in> measure (\<lambda>(v, m_len). unat v)"
    by simp
qed simp

declare zero_bytes.simps [simp del]

text \<open>\<open>UA_GET_NE32(ip + m_len) ^ UA_GET_NE32(m_pos + m_len)\<close> and its 64-bit sibling\<close>

definition xor32 :: "byte list \<Rightarrow> nat \<Rightarrow> nat \<Rightarrow> u32 option" where
  "xor32 src p q = do { a \<leftarrow> get_le32 src p; b \<leftarrow> get_le32 src q; Some (a XOR b) }"

definition xor64 :: "byte list \<Rightarrow> nat \<Rightarrow> nat \<Rightarrow> u64 option" where
  "xor64 src p q = do { a \<leftarrow> get_le64 src p; b \<leftarrow> get_le64 src q; Some (a XOR b) }"

function ml_ua32_loop :: "byte list \<Rightarrow> nat \<Rightarrow> nat \<Rightarrow> nat \<Rightarrow> nat \<Rightarrow> nat option" where
  "ml_ua32_loop src ip m_pos ip_end m_len =
     do {
       v \<leftarrow> xor32 src (ip + (m_len + 4)) (m_pos + (m_len + 4));
       if v \<noteq> 0 then Some (zero_bytes v (m_len + 4))
       else do {
         v \<leftarrow> xor32 src (ip + (m_len + 8)) (m_pos + (m_len + 8));
         if ip + (m_len + 8) \<ge> ip_end then Some (m_len + 8)
         else if v = 0 then ml_ua32_loop src ip m_pos ip_end (m_len + 8)
         else Some (zero_bytes v (m_len + 8))
       }
     }"
  by pat_completeness auto
termination
  by (relation "measure (\<lambda>(src, ip, m_pos, ip_end, m_len). ip_end - (ip + m_len))") auto

declare ml_ua32_loop.simps [simp del]

definition ml_ua32 :: "byte list \<Rightarrow> nat \<Rightarrow> nat \<Rightarrow> nat \<Rightarrow> nat option" where
  "ml_ua32 src ip m_pos ip_end =
     do {
       v \<leftarrow> xor32 src (ip + 4) (m_pos + 4);
       if v = 0 then ml_ua32_loop src ip m_pos ip_end 4 else Some (zero_bytes v 4)
     }"

function ml_ua64_loop :: "byte list \<Rightarrow> nat \<Rightarrow> nat \<Rightarrow> nat \<Rightarrow> nat \<Rightarrow> nat option" where
  "ml_ua64_loop src ip m_pos ip_end m_len =
     do {
       v \<leftarrow> xor64 src (ip + (m_len + 8)) (m_pos + (m_len + 8));
       if ip + (m_len + 8) \<ge> ip_end then Some (m_len + 8)
       else if v = 0 then ml_ua64_loop src ip m_pos ip_end (m_len + 8)
       else Some (zero_bytes v (m_len + 8))
     }"
  by pat_completeness auto
termination
  by (relation "measure (\<lambda>(src, ip, m_pos, ip_end, m_len). ip_end - (ip + m_len))") auto

declare ml_ua64_loop.simps [simp del]

definition ml_ua64 :: "byte list \<Rightarrow> nat \<Rightarrow> nat \<Rightarrow> nat \<Rightarrow> nat option" where
  "ml_ua64 src ip m_pos ip_end =
     do {
       v \<leftarrow> xor64 src (ip + 4) (m_pos + 4);
       if v = 0 then ml_ua64_loop src ip m_pos ip_end 4 else Some (zero_bytes v 4)
     }"

fun match_len :: "ua_cfg \<Rightarrow> byte list \<Rightarrow> nat \<Rightarrow> nat \<Rightarrow> nat \<Rightarrow> nat option" where
  "match_len NO_UNALIGNED = ml_bytes"
| "match_len UNALIGNED32 = ml_ua32"
| "match_len UNALIGNED64 = ml_ua64"

section \<open>Emitting literals and matches\<close>

text \<open>\<open>op[-2] = LZO_BYTE(op[-2] | t)\<close>\<close>

definition patch_op :: "byte list \<Rightarrow> nat \<Rightarrow> byte list option" where
  "patch_op op t =
     (if 2 \<le> length op
      then Some (op[length op - 2 := op ! (length op - 2) OR LZO_BYTE t]) else None)"

text \<open>\<open>while (tt > 255) { tt -= 255; *op++ = 0; } *op++ = LZO_BYTE(tt);\<close>\<close>

fun long_run :: "nat \<Rightarrow> byte list" where
  "long_run tt = (if tt > 255 then 0 # long_run (tt - 255) else [LZO_BYTE tt])"

declare long_run.simps [simp del]

text \<open>the code of a run of \<open>t > 3\<close> literals; \<open>t > 18\<close> makes the \<open>assert(tt > 0)\<close> of the source true\<close>

definition run_code :: "nat \<Rightarrow> byte list" where
  "run_code t = (if t \<le> 18 then [LZO_BYTE (t - 3)] else 0 # long_run (t - 18))"

definition emit_literals :: "byte list \<Rightarrow> nat \<Rightarrow> nat \<Rightarrow> byte list \<Rightarrow> byte list option" where
  "emit_literals src ii t op =
     (if t \<noteq> 0 then
        do {
          op \<leftarrow> (if t \<le> 3 then patch_op op t else Some (op @ run_code t));
          ls \<leftarrow> load t src ii;
          Some (op @ ls)
        }
      else Some op)"

text \<open>\<open>*op++ = LZO_BYTE(m_off << 2); *op++ = LZO_BYTE(m_off >> 6);\<close>\<close>

definition offset_code :: "nat \<Rightarrow> byte list" where
  "offset_code m_off = [LZO_BYTE (push_bit 2 m_off), LZO_BYTE (drop_bit 6 m_off)]"

definition emit_m2 :: "lzo_variant \<Rightarrow> nat \<Rightarrow> nat \<Rightarrow> byte list" where
  "emit_m2 v m_len m_off =
     (let m_off = m_off - 1 in
      case v of
        LZO1X \<Rightarrow> [LZO_BYTE (push_bit 5 (m_len - 1) OR push_bit 2 (m_off AND 7)),
                  LZO_BYTE (drop_bit 3 m_off)]
      | LZO1Y \<Rightarrow> [LZO_BYTE (push_bit 4 (m_len + 1) OR push_bit 2 (m_off AND 3)),
                  LZO_BYTE (drop_bit 2 m_off)]
      | LZO1Z \<Rightarrow> [])"

definition emit_m3 :: "nat \<Rightarrow> nat \<Rightarrow> byte list" where
  "emit_m3 m_len m_off =
     (let m_off = m_off - 1 in
      (if m_len \<le> M3_MAX_LEN then [LZO_BYTE (M3_MARKER OR (m_len - 2))]
       else LZO_BYTE (M3_MARKER OR 0) # long_run (m_len - M3_MAX_LEN))
      @ offset_code m_off)"

definition emit_m4 :: "nat \<Rightarrow> nat \<Rightarrow> byte list" where
  "emit_m4 m_len m_off =
     (let m_off = m_off - 0x4000; high = drop_bit 11 m_off AND 8 in
      (if m_len \<le> M4_MAX_LEN then [LZO_BYTE (M4_MARKER OR high OR (m_len - 2))]
       else LZO_BYTE (M4_MARKER OR high) # long_run (m_len - M4_MAX_LEN))
      @ offset_code m_off)"

definition emit_match :: "lzo_variant \<Rightarrow> nat \<Rightarrow> nat \<Rightarrow> byte list" where
  "emit_match v m_len m_off =
     (if m_len \<le> M2_MAX_LEN v \<and> m_off \<le> M2_MAX_OFFSET v then emit_m2 v m_len m_off
      else if m_off \<le> M3_MAX_OFFSET then emit_m3 m_len m_off
      else emit_m4 m_len m_off)"

section \<open>The compressor\<close>

lemma c_next_bounds:
  "c_next src bs ip_end ii ip dict = Some (Some (ip', m_pos, dict')) \<Longrightarrow> ip \<le> ip' \<and> ip' < ip_end"
proof (induction "ip_end - ip" arbitrary: ip dict rule: less_induct)
  case less
  note IH = less.hyps [of "Suc (ip + drop_bit 5 (ip - ii))"]
  from less.prems show ?case
    by (subst (asm) c_next.simps)
      (auto simp: Let_def split: if_splits bind_splits dest!: IH [rotated])
qed

lemma zero_bytes_ge: "m_len \<le> zero_bytes v m_len"
proof (induction v m_len rule: zero_bytes.induct)
  case (1 v m_len)
  then show ?case by (subst zero_bytes.simps) auto
qed

lemma match_len_pos:
  assumes "match_len c src ip m_pos ip_end = Some m"
  shows "0 < m"
proof -
  have 1: "m_len \<le> m" if "ml_bytes_loop src ip m_pos ip_end m_len = Some m" for m_len
    using that
  proof (induction "ip_end - (ip + m_len)" arbitrary: m_len rule: less_induct)
    case less
    note IH = less.hyps [of "Suc _"]
    from less.prems show ?case
      by (subst (asm) ml_bytes_loop.simps)
        (auto split: if_splits bind_splits option.splits bool.splits
          dest!: cmp_steps_ge IH [rotated])
  qed
  have 2: "m_len \<le> m" if "ml_ua32_loop src ip m_pos ip_end m_len = Some m" for m_len
    using that
  proof (induction "ip_end - (ip + m_len)" arbitrary: m_len rule: less_induct)
    case less
    note IH = less.hyps [of "m_len + 8"]
    from less.prems show ?case
      using zero_bytes_ge [of "m_len + 4"] zero_bytes_ge [of "m_len + 8"]
      by (subst (asm) ml_ua32_loop.simps)
        (auto split: if_splits bind_splits dest: add_leD1 dest!: IH [rotated])
  qed
  have 3: "m_len \<le> m" if "ml_ua64_loop src ip m_pos ip_end m_len = Some m" for m_len
    using that
  proof (induction "ip_end - (ip + m_len)" arbitrary: m_len rule: less_induct)
    case less
    note IH = less.hyps [of "m_len + 8"]
    from less.prems show ?case
      using zero_bytes_ge [of "m_len + 8"]
      by (subst (asm) ml_ua64_loop.simps)
        (auto split: if_splits bind_splits dest: add_leD1 dest!: IH [rotated])
  qed
  have "4 \<le> m"
    using assms 1 [of 4] 2 [of 4] 3 [of 4]
    by (cases c) (auto simp: zero_bytes_ge ml_bytes_def ml_ua32_def ml_ua64_def split: if_splits bind_splits)
  then show ?thesis by simp
qed

text \<open>
  The main loop of \<open>do_compress\<close>, entered at \<open>next:\<close>.  The result is the output and the position
  \<open>ii - ti\<close> of the literals not yet emitted.
\<close>

function c_loop ::
    "ua_cfg \<Rightarrow> lzo_variant \<Rightarrow> byte list \<Rightarrow> nat \<Rightarrow> nat \<Rightarrow> nat \<Rightarrow> nat \<Rightarrow> byte list \<Rightarrow> nat \<Rightarrow> dict \<Rightarrow>
     (byte list \<times> nat) option" where
  "c_loop c v src bs ip_end ip ii op ti dict =
     (case c_next src bs ip_end ii ip dict of
        None \<Rightarrow> None
      | Some None \<Rightarrow> Some (op, ii - ti)
      | Some (Some (ip', m_pos, dict)) \<Rightarrow>
          (case emit_literals src (ii - ti) (ip' - (ii - ti)) op of
             None \<Rightarrow> None
           | Some op \<Rightarrow>
               (case match_len c src ip' m_pos ip_end of
                  None \<Rightarrow> None
                | Some m_len \<Rightarrow>
                    c_loop c v src bs ip_end (ip' + m_len) (ip' + m_len)
                      (op @ emit_match v m_len (ip' - m_pos)) 0 dict)))"
  by pat_completeness auto
termination
  by (relation "measure (\<lambda>(c, v, src, bs, ip_end, ip, _). ip_end - ip)")
    (auto dest!: c_next_bounds match_len_pos)

declare c_loop.simps [simp del]

text \<open>
  \<open>do_compress(in, in_len, out, out_len, ti, wrkmem)\<close> with \<open>in = src + bs\<close>; control enters the
  loop above \<open>literal:\<close>.  It returns the output and \<open>in_end - (ii - ti)\<close>.
\<close>

definition do_compress ::
    "ua_cfg \<Rightarrow> lzo_variant \<Rightarrow> byte list \<Rightarrow> nat \<Rightarrow> nat \<Rightarrow> byte list \<Rightarrow> nat \<Rightarrow> dict \<Rightarrow>
     (byte list \<times> nat) option" where
  "do_compress c v src bs in_len op ti dict =
     (let in_end = bs + in_len; ip_end = bs + in_len - 20; ii = bs;
          ip = bs + (if ti < 4 then 4 - ti else 0);
          ip = ip + 1 + drop_bit 5 (ip - ii)
      in map_option (\<lambda>(op, i). (op, in_end - i)) (c_loop c v src bs ip_end ip ii op ti dict))"

text \<open>
  The block loop of \<open>lzo1x_1_compress\<close>; \<open>l\<close> bytes are left, \<open>addr\<close> is the address of \<open>in\<close>.  The
  result is the output and the number \<open>t + l\<close> of pending literals.
\<close>

function c_blocks ::
    "ua_cfg \<Rightarrow> lzo_variant \<Rightarrow> nat \<Rightarrow> byte list \<Rightarrow> nat \<Rightarrow> byte list \<Rightarrow> nat \<Rightarrow> (byte list \<times> nat) option" where
  "c_blocks c v addr src l op t =
     (if l > 20 then
        let ip = length src - l;
            ll = min l 49152;
            ll_end = uadd (uadd addr ip) ll;
            e = uadd ll_end (drop_bit 5 (uadd t ll))
        in if e \<le> ll_end \<or> e \<le> uadd (uadd addr ip) ll then Some (op, t + l)
           else (case do_compress c v src ip ll op t (\<lambda>_. 0) of
                   None \<Rightarrow> None
                 | Some (op, t) \<Rightarrow> c_blocks c v addr src (l - ll) op t)
      else Some (op, t + l))"
  by pat_completeness auto
termination
  by (relation "measure (\<lambda>(c, v, addr, src, l, op, t). l)") auto

declare c_blocks.simps [simp del]

text \<open>the last literals and the end-of-stream code\<close>

definition c_finish :: "byte list \<Rightarrow> byte list \<Rightarrow> nat \<Rightarrow> byte list option" where
  "c_finish src op t =
     do {
       op \<leftarrow> (if t > 0 then
          do {
            op \<leftarrow> (if op = [] \<and> t \<le> 238 then Some (op @ [LZO_BYTE (17 + t)])
                   else if t \<le> 3 then patch_op op t
                   else Some (op @ run_code t));
            ls \<leftarrow> load t src (length src - t);
            Some (op @ ls)
          }
        else Some op);
       Some (op @ [LZO_BYTE (M4_MARKER OR 1), 0, 0])
     }"

definition x_1_compress :: "ua_cfg \<Rightarrow> lzo_variant \<Rightarrow> nat \<Rightarrow> byte list \<Rightarrow> (lzo_status \<times> byte list) option" where
  "x_1_compress c v addr src =
     do {
       (op, t) \<leftarrow> c_blocks c v addr src (length src) [] 0;
       out \<leftarrow> c_finish src op t;
       Some (LZO_E_OK, out)
     }"

definition lzo1x_1_compress :: "ua_cfg \<Rightarrow> nat \<Rightarrow> byte list \<Rightarrow> (lzo_status \<times> byte list) option" where
  "lzo1x_1_compress c = x_1_compress c LZO1X"

definition lzo1y_1_compress :: "ua_cfg \<Rightarrow> nat \<Rightarrow> byte list \<Rightarrow> (lzo_status \<times> byte list) option" where
  "lzo1y_1_compress c = x_1_compress c LZO1Y"

end
