(* ===== verification/LZO1X_Matchlen.thy ===== *)
theory LZO1X_Matchlen
  imports LZO1X_Compress
begin

text \<open>
  The three ways in which \<open>do_compress\<close> extends a match (\<open>ml_bytes\<close>, \<open>ml_ua32\<close>, \<open>ml_ua64\<close> of
  \<open>LZO1X_Compress\<close>) against one specification: look at blocks of eight bytes, stop inside the
  first block that differs, at its first difference, or at the first block boundary at or beyond
  \<open>ip_end\<close>.  The locale \<open>match_extension\<close> is what the compressor relies on.
\<close>

section \<open>Specification\<close>

text \<open>the number of leading positions at which two lists agree\<close>

fun lcp :: "'a list \<Rightarrow> 'a list \<Rightarrow> nat" where
  "lcp (a # as) (b # bs) = (if a = b then Suc (lcp as bs) else 0)"
| "lcp _ _ = 0"

lemma lcp_le: "lcp as bs \<le> length as" "lcp as bs \<le> length bs"
  by (induction as bs rule: lcp.induct) auto

lemma lcp_nth: "i < lcp as bs \<Longrightarrow> as ! i = bs ! i"
  by (induction as bs arbitrary: i rule: lcp.induct) (auto simp: nth_Cons split: nat.splits if_splits)

lemma lcp_eq_length: "length as = length bs \<Longrightarrow> lcp as bs = length bs \<longleftrightarrow> as = bs"
  by (induction as bs rule: lcp.induct) auto

lemma lcp_append:
  "length as = length bs \<Longrightarrow>
     lcp (as @ as') (bs @ bs') = (if as = bs then length bs + lcp as' bs' else lcp as bs)"
  by (induction as bs rule: lcp.induct) auto

definition chunk :: "nat \<Rightarrow> 'a list \<Rightarrow> nat \<Rightarrow> 'a list" where
  "chunk n xs p = take n (drop p xs)"

lemma chunk_0 [simp]: "chunk 0 xs p = []"
  by (simp add: chunk_def)

lemma chunk_Suc: "p < length xs \<Longrightarrow> chunk (Suc n) xs p = xs ! p # chunk n xs (Suc p)"
  by (simp add: chunk_def Cons_nth_drop_Suc [symmetric])

lemma chunk_add: "chunk (a + b) xs p = chunk a xs p @ chunk b xs (p + a)"
  by (simp add: chunk_def take_add add.commute)

lemma length_chunk [simp]: "p + n \<le> length xs \<Longrightarrow> length (chunk n xs p) = n"
  by (simp add: chunk_def)

lemma nth_chunk: "p + n \<le> length xs \<Longrightarrow> i < n \<Longrightarrow> chunk n xs p ! i = xs ! (p + i)"
  by (simp add: chunk_def)

function ml_spec :: "byte list \<Rightarrow> nat \<Rightarrow> nat \<Rightarrow> nat \<Rightarrow> nat \<Rightarrow> nat" where
  "ml_spec src ip m_pos ip_end m_len =
     (let k = lcp (chunk 8 src (ip + m_len)) (chunk 8 src (m_pos + m_len)) in
      if k < 8 then m_len + k
      else if ip + m_len + 8 \<ge> ip_end then m_len + 8
      else ml_spec src ip m_pos ip_end (m_len + 8))"
  by pat_completeness auto
termination
  by (relation "measure (\<lambda>(src, ip, m_pos, ip_end, m_len). ip_end - (ip + m_len))") auto

declare ml_spec.simps [simp del]

lemma ml_spec_bounds:
  "ip + m_len \<le> ip_end + 8 \<Longrightarrow>
     m_len \<le> ml_spec src ip m_pos ip_end m_len \<and> ip + ml_spec src ip m_pos ip_end m_len \<le> ip_end + 16"
proof (induction src ip m_pos ip_end m_len rule: ml_spec.induct)
  case (1 src ip m_pos ip_end m_len)
  show ?case
    using "1.IH" [OF refl] "1.prems"
    by (subst (1 2) ml_spec.simps) (auto simp: Let_def)
qed

lemma ml_spec_equal:
  assumes "m_pos < ip" "ip + m_len \<le> ip_end + 8" "ip_end + 16 \<le> length src"
    and "\<And>i. i < m_len \<Longrightarrow> src ! (ip + i) = src ! (m_pos + i)"
    and "i < ml_spec src ip m_pos ip_end m_len"
  shows "src ! (ip + i) = src ! (m_pos + i)"
  using assms
proof (induction src ip m_pos ip_end m_len rule: ml_spec.induct)
  case (1 src ip m_pos ip_end m_len)
  let ?k = "lcp (chunk 8 src (ip + m_len)) (chunk 8 src (m_pos + m_len))"
  have step: "src ! (ip + j) = src ! (m_pos + j)" if "j < m_len + ?k" for j
  proof (cases "j < m_len")
    case False
    then obtain d where d: "j = m_len + d" by (metis le_add_diff_inverse not_less)
    with that have "d < ?k" by simp
    moreover from this have "d < 8"
      using lcp_le(1) [of "chunk 8 src (ip + m_len)" "chunk 8 src (m_pos + m_len)"]
      by (simp add: chunk_def)
    ultimately show ?thesis
      using lcp_nth [of d "chunk 8 src (ip + m_len)"] "1.prems"(1-3) d
      by (simp add: nth_chunk add.assoc)
  qed (use "1.prems"(4) in simp)
  show ?case
  proof (cases "?k < 8 \<or> ip + m_len + 8 \<ge> ip_end")
    case True
    then have "i < m_len + ?k"
      using "1.prems"(5) by (subst (asm) ml_spec.simps) (auto simp: Let_def split: if_splits)
    then show ?thesis by (rule step)
  next
    case False
    have "src ! (ip + i) = src ! (m_pos + i)" if "i < m_len + 8" for i
      using False that by (intro step) simp
    moreover have "i < ml_spec src ip m_pos ip_end (m_len + 8)"
      using False "1.prems"(5) by (subst (asm) ml_spec.simps) simp
    ultimately show ?thesis
      using False "1.prems"(1-3) by (intro "1.IH" [OF refl]) auto
  qed
qed

section \<open>The byte-wise loop\<close>

lemma cmp_steps_eq:
  assumes "ip + m + Suc k \<le> length src" "m_pos \<le> ip"
  shows "cmp_steps k src ip m_pos m =
    (let j = lcp (chunk k src (ip + Suc m)) (chunk k src (m_pos + Suc m))
     in Some (if j < k then (m + Suc j, False) else (m + k, True)))"
  using assms
proof (induction k arbitrary: m)
  case (Suc k)
  have "cmp_steps k src ip m_pos (Suc m) =
    (let j = lcp (chunk k src (ip + Suc (Suc m))) (chunk k src (m_pos + Suc (Suc m)))
     in Some (if j < k then (Suc m + Suc j, False) else (Suc m + k, True)))"
    using Suc.prems by (intro Suc.IH) simp_all
  with Suc.prems show ?case
    by (auto simp: chunk_Suc rd_def Let_def)
qed simp

lemma ml_bytes_loop_eq:
  assumes "m_pos < ip" "ip + m \<le> ip_end + 8" "ip_end + 20 \<le> length src"
    and "src ! (ip + m) = src ! (m_pos + m)"
  shows "ml_bytes_loop src ip m_pos ip_end m = Some (ml_spec src ip m_pos ip_end m)"
  using assms
proof (induction "ip_end - (ip + m)" arbitrary: m rule: less_induct)
  case less
  let ?j = "lcp (chunk 7 src (ip + Suc m)) (chunk 7 src (m_pos + Suc m))"
  have k: "lcp (chunk 8 src (ip + m)) (chunk 8 src (m_pos + m)) = Suc ?j"
    using less.prems chunk_Suc [of _ src 7] by simp
  have j: "?j \<le> 7"
    using lcp_le(1) [of "chunk 7 src (ip + Suc m)" "chunk 7 src (m_pos + Suc m)"]
    by (simp add: chunk_def)
  have steps: "cmp_steps 7 src ip m_pos m = Some (if ?j < 7 then (m + Suc ?j, False) else (m + 7, True))"
    using less.prems by (subst cmp_steps_eq) (simp_all add: Let_def)
  show ?case
  proof (cases "?j < 7 \<or> ip + m + 8 \<ge> ip_end")
    case True
    then show ?thesis
      using j by (subst ml_bytes_loop.simps, subst ml_spec.simps) (auto simp: steps k Let_def)
  next
    case False
    then have 7: "?j = 7" "ip + m + 8 < ip_end" using j by auto
    have rds: "rd src (ip + (m + 8)) = Some (src ! (ip + (m + 8)))"
      "rd src (m_pos + (m + 8)) = Some (src ! (m_pos + (m + 8)))"
      using less.prems 7 by (auto simp: rd_def)
    have spec: "ml_spec src ip m_pos ip_end m = ml_spec src ip m_pos ip_end (m + 8)"
      using 7 by (subst ml_spec.simps) (simp add: k Let_def)
    have loop: "ml_bytes_loop src ip m_pos ip_end m =
      (if src ! (ip + (m + 8)) = src ! (m_pos + (m + 8)) then ml_bytes_loop src ip m_pos ip_end (m + 8)
       else Some (m + 8))"
    proof -
      have "m + 7 + 1 = m + 8" "cmp_steps 7 src ip m_pos m = Some (m + 7, True)"
        "(ip + (m + 8) \<ge> ip_end) = False"
        using 7 steps by simp_all
      then show ?thesis
        using rds by (subst ml_bytes_loop.simps)
          (simp only: option.case prod.case bool.case bind.bind_lunit if_False)
    qed
    show ?thesis
    proof (cases "src ! (ip + (m + 8)) = src ! (m_pos + (m + 8))")
      case True
      then show ?thesis
        using less.prems 7 by (simp add: loop spec less.hyps)
    next
      case False
      have "lcp (chunk 8 src (ip + (m + 8))) (chunk 8 src (m_pos + (m + 8))) = 0"
        using False less.prems 7 chunk_Suc [of _ src 7] by simp
      then show ?thesis
        using False by (simp add: loop spec) (subst ml_spec.simps, simp)
    qed
  qed
qed

lemma ml_bytes_eq:
  assumes "m_pos < ip" "ip < ip_end" "ip_end + 20 \<le> length src"
  shows "ml_bytes src ip m_pos ip_end = Some (ml_spec src ip m_pos ip_end 4)"
proof (cases "src ! (ip + 4) = src ! (m_pos + 4)")
  case True
  then show ?thesis
    using assms by (simp add: ml_bytes_def rd_def ml_bytes_loop_eq)
next
  case False
  have "lcp (chunk 8 src (ip + 4)) (chunk 8 src (m_pos + 4)) = 0"
    using False assms chunk_Suc [of _ src 7] by simp
  then show ?thesis
    using False assms by (subst ml_spec.simps) (simp add: ml_bytes_def rd_def)
qed

section \<open>The word-wise loops\<close>

lemma get_le_0: "8 * length xs \<le> LENGTH('a) \<Longrightarrow> (get_le xs :: 'a::len word) = 0 \<longleftrightarrow> (\<forall>x\<in>set xs. x = 0)"
  using get_le_inject [of xs "replicate (length xs) 0", where ?'a = 'a]
proof -
  assume len: "8 * length xs \<le> LENGTH('a)"
  have "get_le (replicate n 0) = (0 :: 'a word)" for n
    by (induction n) auto
  then have "(get_le xs :: 'a word) = 0 \<longleftrightarrow> xs = replicate (length xs) 0"
    using get_le_inject [of xs "replicate (length xs) 0", where ?'a = 'a] len by simp
  then show ?thesis
    by (metis in_set_replicate replicate_length_same)
qed

lemma zero_bytes_get_le:
  assumes "8 * length xs \<le> LENGTH('a)" "\<exists>x\<in>set xs. x \<noteq> 0"
  shows "zero_bytes (get_le xs :: 'a::len word) m = m + length (takeWhile (\<lambda>x. x = 0) xs)"
  using assms
proof (induction xs arbitrary: m)
  case (Cons x xs)
  let ?v = "get_le (x # xs) :: 'a word"
  have nz: "?v \<noteq> 0"
    using get_le_0 [of "x # xs", where ?'a = 'a] Cons.prems by auto
  have low: "?v AND 0xff = 0 \<longleftrightarrow> x = 0"
  proof
    assume "?v AND 0xff = 0"
    then have "(ucast (?v AND 0xff) :: byte) = 0"
      by (simp del: get_le.simps)
    then show "x = 0"
      using low_get_le [of x xs, where ?'a = 'a] Cons.prems(1) by (simp del: get_le.simps)
  next
    assume "x = 0"
    then show "?v AND 0xff = 0"
      unfolding byte_mask by (intro bit_word_eqI) (auto simp: bit_simps bit_mask_iff)
  qed
  have dr: "drop_bit 8 ?v = get_le xs"
    using Cons.prems(1) by (intro drop_get_le) simp
  show ?case
  proof (cases "x = 0")
    case True
    then have "zero_bytes (get_le xs :: 'a word) (m + 1) =
        m + 1 + length (takeWhile (\<lambda>x. x = 0) xs)"
      using Cons.prems by (intro Cons.IH) simp_all
    then show ?thesis
      using nz low dr True by (subst zero_bytes.simps) (simp del: get_le.simps)
  next
    case False
    then show ?thesis
      using low by (subst zero_bytes.simps) (simp del: get_le.simps)
  qed
qed simp

lemma byte_xor_0: "(a :: byte) XOR b = 0 \<longleftrightarrow> a = b"
  by (auto simp: bit_eq_iff bit_xor_iff)

lemma xor_lcp:
  "length as = length bs \<Longrightarrow> length (takeWhile (\<lambda>x. x = 0) (map2 (XOR) as bs)) = lcp as (bs :: byte list)"
  by (induction as bs rule: list_induct2) (auto simp: byte_xor_0)

lemma xor_ne: "length as = length bs \<Longrightarrow>
   (\<exists>x\<in>set (map2 (XOR) as bs). x \<noteq> 0) \<longleftrightarrow> as \<noteq> (bs :: byte list)"
  by (induction as bs rule: list_induct2) (auto simp: byte_xor_0)

lemma get_le_xor_chunk:
  fixes v :: "'a::len word"
  assumes "v = get_le as XOR get_le bs" "length as = length bs" "8 * length bs \<le> LENGTH('a)"
  shows "v = 0 \<longleftrightarrow> as = bs" "as \<noteq> bs \<Longrightarrow> zero_bytes v m = m + lcp as bs"
  using assms xor_ne [of as bs] xor_lcp [of as bs]
    zero_bytes_get_le [of "map2 (XOR) as bs", where ?'a = 'a]
  by (auto simp: get_le_xor get_le_0)

lemma xor32_chunk:
  assumes "p + 4 \<le> length src" "q + 4 \<le> length src"
  obtains v where "xor32 src p q = Some v" "v = 0 \<longleftrightarrow> chunk 4 src p = chunk 4 src q"
    "\<And>m. v \<noteq> 0 \<Longrightarrow> zero_bytes v m = m + lcp (chunk 4 src p) (chunk 4 src q)"
proof
  show "xor32 src p q = Some (get_le (chunk 4 src p) XOR get_le (chunk 4 src q))"
    using assms by (simp add: xor32_def get_le32_def load_def chunk_def)
qed (use assms get_le_xor_chunk [OF refl, of "chunk 4 src p" "chunk 4 src q", where ?'a = 32] in auto)

lemma xor64_chunk:
  assumes "p + 8 \<le> length src" "q + 8 \<le> length src"
  obtains v where "xor64 src p q = Some v" "v = 0 \<longleftrightarrow> chunk 8 src p = chunk 8 src q"
    "\<And>m. v \<noteq> 0 \<Longrightarrow> zero_bytes v m = m + lcp (chunk 8 src p) (chunk 8 src q)"
proof
  show "xor64 src p q = Some (get_le (chunk 8 src p) XOR get_le (chunk 8 src q))"
    using assms by (simp add: xor64_def get_le64_def load_def chunk_def)
qed (use assms get_le_xor_chunk [OF refl, of "chunk 8 src p" "chunk 8 src q", where ?'a = 64] in auto)

lemma lcp_chunk_8: "q + n \<le> length src \<Longrightarrow> p + n \<le> length src \<Longrightarrow>
   (lcp (chunk n src p) (chunk n src q) = n) = (chunk n src p = chunk n src q) \<and>
   lcp (chunk n src p) (chunk n src q) \<le> n"
  using lcp_eq_length [of "chunk n src p" "chunk n src q"] lcp_le [of "chunk n src p" "chunk n src q"]
  by simp

lemma ml_ua64_loop_eq:
  assumes "m_pos < ip" "ip + m < ip_end + 4" "ip_end + 20 \<le> length src"
    and "chunk 8 src (ip + m) = chunk 8 src (m_pos + m)"
  shows "ml_ua64_loop src ip m_pos ip_end m = Some (ml_spec src ip m_pos ip_end m)"
  using assms
proof (induction "ip_end - (ip + m)" arbitrary: m rule: less_induct)
  case less
  obtain v where v: "xor64 src (ip + (m + 8)) (m_pos + (m + 8)) = Some v"
    "v = 0 \<longleftrightarrow> chunk 8 src (ip + (m + 8)) = chunk 8 src (m_pos + (m + 8))"
    "\<And>m'. v \<noteq> 0 \<Longrightarrow> zero_bytes v m' = m' + lcp (chunk 8 src (ip + (m + 8))) (chunk 8 src (m_pos + (m + 8)))"
    using less.prems by (elim xor64_chunk [rotated 2]) auto
  have k: "lcp (chunk 8 src (ip + m)) (chunk 8 src (m_pos + m)) = 8"
    using less.prems lcp_chunk_8 [of "m_pos + m" 8 src "ip + m"] by simp
  have spec: "ml_spec src ip m_pos ip_end m =
      (if ip + (m + 8) \<ge> ip_end then m + 8 else ml_spec src ip m_pos ip_end (m + 8))"
    by (subst ml_spec.simps) (simp add: k add.assoc)
  show ?case
  proof (cases "v = 0 \<or> ip + (m + 8) \<ge> ip_end")
    case True
    with less.prems v show ?thesis
      by (subst ml_ua64_loop.simps) (auto simp: spec intro!: less.hyps)
  next
    case False
    moreover have "ml_spec src ip m_pos ip_end (m + 8) = zero_bytes v (m + 8)"
      using False less.prems v(2) lcp_chunk_8 [of "m_pos + (m + 8)" 8 src "ip + (m + 8)"]
      by (subst ml_spec.simps) (auto simp: v(3) Let_def)
    ultimately show ?thesis
      by (subst ml_ua64_loop.simps) (simp add: v(1) spec)
  qed
qed

lemma ml_ua64_eq:
  assumes "m_pos < ip" "ip < ip_end" "ip_end + 20 \<le> length src"
  shows "ml_ua64 src ip m_pos ip_end = Some (ml_spec src ip m_pos ip_end 4)"
proof -
  obtain v where v: "xor64 src (ip + 4) (m_pos + 4) = Some v"
    "v = 0 \<longleftrightarrow> chunk 8 src (ip + 4) = chunk 8 src (m_pos + 4)"
    "\<And>m'. v \<noteq> 0 \<Longrightarrow> zero_bytes v m' = m' + lcp (chunk 8 src (ip + 4)) (chunk 8 src (m_pos + 4))"
    using assms by (elim xor64_chunk [rotated 2]) auto
  show ?thesis
  proof (cases "v = 0")
    case True
    then show ?thesis
      using assms v by (simp add: ml_ua64_def ml_ua64_loop_eq)
  next
    case False
    moreover have "ml_spec src ip m_pos ip_end 4 = zero_bytes v 4"
      using False assms v(2) lcp_chunk_8 [of "m_pos + 4" 8 src "ip + 4"]
      by (subst ml_spec.simps) (auto simp: v(3) Let_def)
    ultimately show ?thesis
      by (simp add: ml_ua64_def v(1))
  qed
qed

lemma ml_ua32_loop_eq:
  assumes "m_pos < ip" "ip + m < ip_end + 4" "ip_end + 20 \<le> length src"
    and "chunk 4 src (ip + m) = chunk 4 src (m_pos + m)"
  shows "ml_ua32_loop src ip m_pos ip_end m = Some (ml_spec src ip m_pos ip_end m)"
  using assms
proof (induction "ip_end - (ip + m)" arbitrary: m rule: less_induct)
  case less
  obtain v where v: "xor32 src (ip + (m + 4)) (m_pos + (m + 4)) = Some v"
    "v = 0 \<longleftrightarrow> chunk 4 src (ip + (m + 4)) = chunk 4 src (m_pos + (m + 4))"
    "\<And>m'. v \<noteq> 0 \<Longrightarrow> zero_bytes v m' = m' + lcp (chunk 4 src (ip + (m + 4))) (chunk 4 src (m_pos + (m + 4)))"
    using less.prems by (elim xor32_chunk [rotated 2]) auto
  obtain w where w: "xor32 src (ip + (m + 8)) (m_pos + (m + 8)) = Some w"
    "w = 0 \<longleftrightarrow> chunk 4 src (ip + (m + 8)) = chunk 4 src (m_pos + (m + 8))"
    "\<And>m'. w \<noteq> 0 \<Longrightarrow> zero_bytes w m' = m' + lcp (chunk 4 src (ip + (m + 8))) (chunk 4 src (m_pos + (m + 8)))"
    using less.prems by (elim xor32_chunk [rotated 2]) auto
  have k: "lcp (chunk 8 src (ip + m)) (chunk 8 src (m_pos + m)) =
      4 + lcp (chunk 4 src (ip + (m + 4))) (chunk 4 src (m_pos + (m + 4)))"
    using less.prems chunk_add [of 4 4 src "ip + m"] chunk_add [of 4 4 src "m_pos + m"]
    by (simp add: lcp_append add.assoc)
  note le4 = lcp_chunk_8 [of "m_pos + (m + 4)" 4 src "ip + (m + 4)"]
  show ?case
  proof (cases "v = 0")
    case False
    then have "ml_spec src ip m_pos ip_end m = zero_bytes v (m + 4)"
      using less.prems v(2) le4 by (subst ml_spec.simps) (auto simp: k v(3) Let_def)
    with False show ?thesis
      by (subst ml_ua32_loop.simps) (simp add: v(1))
  next
    case v0: True
    then have spec: "ml_spec src ip m_pos ip_end m =
        (if ip + (m + 8) \<ge> ip_end then m + 8 else ml_spec src ip m_pos ip_end (m + 8))"
      using less.prems v(2) le4 by (subst ml_spec.simps) (simp add: k add.assoc)
    show ?thesis
    proof (cases "w = 0 \<or> ip + (m + 8) \<ge> ip_end")
      case True
      with less.prems v0 v(1) w show ?thesis
        by (subst ml_ua32_loop.simps) (auto simp: spec intro!: less.hyps)
    next
      case False
      have "lcp (chunk 8 src (ip + (m + 8))) (chunk 8 src (m_pos + (m + 8))) =
          lcp (chunk 4 src (ip + (m + 8))) (chunk 4 src (m_pos + (m + 8)))"
        using False less.prems w(2) chunk_add [of 4 4 src "ip + (m + 8)"]
          chunk_add [of 4 4 src "m_pos + (m + 8)"]
        by (simp add: lcp_append)
      then have "ml_spec src ip m_pos ip_end (m + 8) = zero_bytes w (m + 8)"
        using False less.prems lcp_chunk_8 [of "m_pos + (m + 8)" 4 src "ip + (m + 8)"]
        by (subst ml_spec.simps) (simp add: w(3) Let_def)
      with False v0 show ?thesis
        by (subst ml_ua32_loop.simps) (simp add: v(1) w(1) spec)
    qed
  qed
qed

lemma ml_ua32_eq:
  assumes "m_pos < ip" "ip < ip_end" "ip_end + 20 \<le> length src"
  shows "ml_ua32 src ip m_pos ip_end = Some (ml_spec src ip m_pos ip_end 4)"
proof -
  obtain v where v: "xor32 src (ip + 4) (m_pos + 4) = Some v"
    "v = 0 \<longleftrightarrow> chunk 4 src (ip + 4) = chunk 4 src (m_pos + 4)"
    "\<And>m'. v \<noteq> 0 \<Longrightarrow> zero_bytes v m' = m' + lcp (chunk 4 src (ip + 4)) (chunk 4 src (m_pos + 4))"
    using assms by (elim xor32_chunk [rotated 2]) auto
  show ?thesis
  proof (cases "v = 0")
    case True
    then show ?thesis
      using assms v by (simp add: ml_ua32_def ml_ua32_loop_eq)
  next
    case False
    have "lcp (chunk 8 src (ip + 4)) (chunk 8 src (m_pos + 4)) =
        lcp (chunk 4 src (ip + 4)) (chunk 4 src (m_pos + 4))"
      using False assms v(2) chunk_add [of 4 4 src "ip + 4"] chunk_add [of 4 4 src "m_pos + 4"]
      by (simp add: lcp_append)
    then have "ml_spec src ip m_pos ip_end 4 = zero_bytes v 4"
      using False assms lcp_chunk_8 [of "m_pos + 4" 4 src "ip + 4"]
      by (subst ml_spec.simps) (simp add: v(3) Let_def)
    with False show ?thesis
      by (simp add: ml_ua32_def v(1))
  qed
qed

section \<open>What the compressor relies on\<close>

lemma match_len_eq:
  "m_pos < ip \<Longrightarrow> ip < ip_end \<Longrightarrow> ip_end + 20 \<le> length src \<Longrightarrow>
     match_len c src ip m_pos ip_end = Some (ml_spec src ip m_pos ip_end 4)"
  by (cases c) (simp_all add: ml_bytes_eq ml_ua32_eq ml_ua64_eq)

text \<open>
  The contract: for a pair of positions with four equal bytes the extension returns a length of
  at least four that stays inside the block and over which the two regions are equal.
\<close>

locale match_extension =
  fixes extend :: "byte list \<Rightarrow> nat \<Rightarrow> nat \<Rightarrow> nat \<Rightarrow> nat option"
  assumes extends:
    "\<lbrakk>m_pos < ip; ip < ip_end; ip_end + 20 \<le> length src; chunk 4 src ip = chunk 4 src m_pos\<rbrakk> \<Longrightarrow>
     \<exists>m. extend src ip m_pos ip_end = Some m \<and> 4 \<le> m \<and> ip + m \<le> ip_end + 20 \<and>
         (\<forall>i<m. src ! (ip + i) = src ! (m_pos + i))"
begin

lemma extend_copies:
  assumes "m_pos < ip" "ip < ip_end" "ip_end + 20 \<le> length src"
    "chunk 4 src ip = chunk 4 src m_pos"
  obtains m where "extend src ip m_pos ip_end = Some m" "4 \<le> m" "ip + m \<le> ip_end + 20"
    "lz_copy (ip - m_pos) m (take ip src) = take (ip + m) src"
proof -
  obtain m where m: "extend src ip m_pos ip_end = Some m" "4 \<le> m" "ip + m \<le> ip_end + 20"
    and eq: "\<forall>i<m. src ! (ip + i) = src ! (m_pos + i)"
    using extends [OF assms] by auto
  have "lz_copy (ip - m_pos) m (take ip src) = take (ip + m) src"
  proof (rule lz_copy_prefix)
    fix i assume "i < m"
    with eq have "src ! (ip + i) = src ! (m_pos + i)" by simp
    then show "src ! (ip + i) = src ! (ip + i - (ip - m_pos))"
      using assms(1) by (simp add: add.commute)
  qed (use assms m in auto)
  with m show thesis by (rule that)
qed

end

interpretation extension: match_extension "match_len c" for c
proof
  fix src :: "byte list" and ip m_pos ip_end
  assume a: "m_pos < ip" "ip < ip_end" "ip_end + 20 \<le> length src"
    "chunk 4 src ip = chunk 4 src m_pos"
  have 4: "src ! (ip + i) = src ! (m_pos + i)" if "i < 4" for i
  proof -
    have "chunk 4 src ip ! i = chunk 4 src m_pos ! i"
      by (simp only: a(4))
    then show ?thesis
      using that a(1-3) by (simp add: nth_chunk)
  qed
  show "\<exists>m. match_len c src ip m_pos ip_end = Some m \<and> 4 \<le> m \<and> ip + m \<le> ip_end + 20 \<and>
         (\<forall>i<m. src ! (ip + i) = src ! (m_pos + i))"
    using a 4 ml_spec_bounds [of ip 4 ip_end src m_pos] ml_spec_equal [of m_pos ip 4 ip_end src]
    by (auto simp: match_len_eq)
qed

end
