(* ===== verification/LZO1X_Safety.thy ===== *)
theory LZO1X_Safety
  imports LZO1X_Decompress
begin

text \<open>
  Memory safety of the decompressors of \<open>LZO1X_Decompress\<close> and the equivalences between their
  builds.

  \<^item> \<open>x_inv\<close> is the invariant of the labels of the \<open>_safe\<close> build: both pointers are within
    their buffers and the look-back of \<open>match_done\<close> stays inside the input.  Every block keeps
    it, so a run neither faults nor writes beyond the capacity.
  \<^item> Block by block, the tested build agrees with the untested one up to overrun errors.
  \<^item> The 64-bit copy loops of \<open>LZO_OPT_UNALIGNED64\<close> copy what the byte loops copy.
\<close>

section \<open>The bounds invariant\<close>

definition x_inv :: "lzo_variant \<Rightarrow> dec_env \<Rightarrow> x_label \<Rightarrow> dec_state \<Rightarrow> bool" where
  "x_inv v E l s \<longleftrightarrow> dec_wf E s \<and>
     (case l of
        LiteralRun \<Rightarrow> True
      | FirstLiteralRun \<Rightarrow> d_ip s + 3 \<le> length (d_in E)
      | MatchL t \<Rightarrow> t < 256 \<and> 1 \<le> d_ip s \<and> d_ip s + 2 \<le> length (d_in E)
      | MatchNext t \<Rightarrow> 0 < t \<and> t < 4)"

lemma LZO_UINT_RANGE_eq: "LZO_UINT_RANGE = 18446744073709551616"
  by (simp add: LZO_UINT_RANGE_def)

lemma safe_zero_run [wp]:
  assumes "all_tests E" "dec_wf E s" "d_ip s < length (d_in E)" "t \<le> LZO_UINT_RANGE - 511" "0 < base" "base < 256"
    and "\<And>t' s'. \<lbrakk>0 < t'; t' \<le> LZO_UINT_RANGE - 256 + base; d_ip s < d_ip s';
            d_ip s' \<le> length (d_in E); d_out s' = d_out s; d_last s' = d_last s\<rbrakk> \<Longrightarrow> safe E I (k t' s')"
  shows "safe E I (zero_run E iv base t s k)"
  using assms
proof (induction E iv base t s k rule: zero_run.induct)
  case (1 E iv base t s k)
  have t255: "uadd t 255 = t + 255"
    using "1.prems"(4) by (simp add: LZO_UINT_RANGE_def)
  define s' where "s' = s\<lparr>d_ip := Suc (d_ip s)\<rparr>"
  have s': "dec_wf E s'" "d_ip s' = d_ip s + 1" "d_out s' = d_out s" "d_last s' = d_last s"
    using "1.prems"(2,3) by (auto simp: s'_def dec_wf_def)
  show ?case
  proof (cases "unat (d_in E ! d_ip s) = 0")
    case True
    have rec: "safe E I (zero_run E iv base (t + 255) s' k)"
      if "t + 255 \<le> LZO_UINT_RANGE - 511" "1 \<le> length (d_in E) - d_ip s'"
      using "1.IH" [OF "1.prems"(3) refl refl] that "1.prems" True s'
      by (auto simp: t255 s'_def)
    then show ?thesis
      using "1.prems"(1,3) True s'
      by (subst zero_run.simps) (auto simp: Let_def t255 simp flip: s'_def intro!: wp)
  next
    case False
    have "uadd t (base + unat (d_in E ! d_ip s)) = t + (base + unat (d_in E ! d_ip s))"
      using "1.prems"(4,6) unat_byte_le [of "d_in E ! d_ip s"] LZO_UINT_RANGE_eq
      by (intro uadd_small) linarith
    moreover have "safe E I (k (t + (base + unat (d_in E ! d_ip s))) s')"
      using "1.prems"(3-6) s' unat_byte_le [of "d_in E ! d_ip s"] LZO_UINT_RANGE_eq
      by (intro "1.prems"(7)) (auto simp del: unat_byte_le unat_byte_less)
    ultimately show ?thesis
      using False "1.prems"(3)
      by (subst zero_run.simps) (auto simp: Let_def simp flip: s'_def)
  qed
qed

lemma safe_match_done [wp]:
  "dec_wf E s \<Longrightarrow> 2 \<le> d_ip s \<or> v = LZO1Z \<and> 1 \<le> d_ip s \<Longrightarrow> safe E (x_inv v E) (x_match_done v E s)"
  by (auto simp: x_match_done_def Let_def x_inv_def dec_wf_def bits)

lemma safe_checked_copy [wp]:
  assumes "all_tests E" "dec_wf E s" "0 < t" "t \<le> LZO_UINT_RANGE - 200"
    and "2 \<le> d_ip s \<or> v = LZO1Z \<and> 1 \<le> d_ip s"
  shows "safe E (x_inv v E) (x_checked_copy v E t m_pos s)"
proof -
  have "uadd t 2 = t + 2"
    using assms(4) by (intro uadd_small) (simp add: LZO_UINT_RANGE_def)
  with assms show ?thesis
    unfolding x_checked_copy_def x_copy_match_def
    by (auto intro!: wp simp: dec_wf_def)
qed

lemma safe_match_m1:
  "all_tests E \<Longrightarrow> x_inv v E (MatchL t) s \<Longrightarrow> safe E (x_inv v E) (x_match_m1 v E t s)"
  unfolding x_match_m1_def
  by (cases v) (auto intro!: wp simp: x_inv_def dec_wf_def)

lemma safe_match_m2:
  "all_tests E \<Longrightarrow> x_inv v E (MatchL t) s \<Longrightarrow> 64 \<le> t \<Longrightarrow> d_debug E \<longrightarrow> v \<noteq> LZO1Z \<Longrightarrow>
     safe E (x_inv v E) (x_match_m2 v E t s)"
  unfolding x_match_m2_def
  by (cases v) (auto intro!: wp simp: x_inv_def dec_wf_def drop_bit_eq_div LZO_UINT_RANGE_def)

lemma safe_m3_offset [wp]:
  "all_tests E \<Longrightarrow> dec_wf E s \<Longrightarrow> 0 < t \<Longrightarrow> t \<le> LZO_UINT_RANGE - 200 \<Longrightarrow> d_ip s + 2 \<le> length (d_in E) \<Longrightarrow>
     safe E (x_inv v E) (x_m3_offset v E t s)"
  unfolding x_m3_offset_def
  by (auto intro!: wp simp: dec_wf_def)

lemma safe_m4_offset [wp]:
  "all_tests E \<Longrightarrow> dec_wf E s \<Longrightarrow> 0 < t \<Longrightarrow> t \<le> LZO_UINT_RANGE - 200 \<Longrightarrow> d_ip s + 2 \<le> length (d_in E) \<Longrightarrow>
     safe E (x_inv v E) (x_m4_offset v E high t s)"
  unfolding x_m4_offset_def
  by (cases "v = LZO1Z") (auto intro!: wp simp: dec_wf_def x_eof_found_def)

lemma safe_match_m3:
  "all_tests E \<Longrightarrow> x_inv v E (MatchL t) s \<Longrightarrow> safe E (x_inv v E) (x_match_m3 v E t s)"
  unfolding x_match_m3_def
  by (auto intro!: wp simp: x_inv_def dec_wf_def bits LZO_UINT_RANGE_def)

lemma safe_match_m4:
  "all_tests E \<Longrightarrow> x_inv v E (MatchL t) s \<Longrightarrow> safe E (x_inv v E) (x_match_m4 v E t s)"
  unfolding x_match_m4_def
  by (auto intro!: wp simp: x_inv_def dec_wf_def bits LZO_UINT_RANGE_def)


lemma safe_match:
  assumes "all_tests E" "x_inv v E (MatchL t) s" "d_debug E \<longrightarrow> v \<noteq> LZO1Z"
  shows "safe E (x_inv v E) (x_match v E t s)"
  using assms safe_match_m1 safe_match_m2 safe_match_m3 safe_match_m4
  by (simp add: x_match_def)

lemma safe_match_next:
  "all_tests E \<Longrightarrow> x_inv v E (MatchNext t) s \<Longrightarrow> safe E (x_inv v E) (x_match_next E t s)"
  unfolding x_match_next_def
  by (auto intro!: wp simp: x_inv_def dec_wf_def)

lemma safe_first_literal_run:
  "all_tests E \<Longrightarrow> x_inv v E FirstLiteralRun s \<Longrightarrow> safe E (x_inv v E) (x_first_literal_run v E s)"
  unfolding x_first_literal_run_def
  by (cases v) (auto intro!: wp simp: x_inv_def dec_wf_def)

lemma safe_copy_literals [wp]:
  assumes "all_tests E" "dec_wf E s" "0 < t" "t \<le> LZO_UINT_RANGE - 200"
  shows "safe E (x_inv v E) (x_copy_literals E t s)"
proof -
  have "uadd t 3 = t + 3" "uadd t 6 = t + 6"
    using assms(4) LZO_UINT_RANGE_eq by (intro uadd_small; linarith)+
  with assms show ?thesis
    unfolding x_copy_literals_def
    by (auto intro!: wp simp: x_inv_def dec_wf_def)
qed

lemma safe_literal_run:
  "all_tests E \<Longrightarrow> x_inv v E LiteralRun s \<Longrightarrow> safe E (x_inv v E) (x_literal_run E s)"
  unfolding x_literal_run_def
  by (auto intro!: wp simp: x_inv_def dec_wf_def LZO_UINT_RANGE_eq)

lemma safe_entry: "all_tests E \<Longrightarrow> safe E (x_inv v E) (x_entry E)"
  unfolding x_entry_def next_ip_def peek_ip_def
  by (auto intro!: wp simp: x_inv_def dec_wf_def Suc_le_eq)

lemma safe_step:
  "all_tests E \<Longrightarrow> d_debug E \<longrightarrow> v \<noteq> LZO1Z \<Longrightarrow> x_inv v E l s \<Longrightarrow> safe E (x_inv v E) (x_step v E l s)"
  by (cases l) (simp_all add: safe_match safe_match_next safe_first_literal_run safe_literal_run)

lemma safe_run:
  assumes "all_tests E" "d_debug E \<longrightarrow> v \<noteq> LZO1Z" "x_inv v E l s"
  shows "\<exists>e out. x_run v E l s = Some (e, out) \<and> length out \<le> d_cap E"
  using assms
proof (induction v E l s rule: x_run.induct)
  case (1 v E l s)
  note safe = safe_step [OF "1.prems"]
  show ?case
  proof (cases "x_step v E l s")
    case (Run l' s')
    with safe "1.IH" [OF Run] "1.prems" show ?thesis
      by (simp add: x_run_step)
  qed (use safe in \<open>simp_all add: x_run_step\<close>)
qed

section \<open>Tested and untested builds\<close>

lemma agrees_zero_run [agree]:
  "(\<And>t s. agrees (k t s) (k' t s)) \<Longrightarrow>
     agrees (zero_run E iv base t s k) (zero_run (untested E) iv base t s k')"
proof (induction E iv base t s k rule: zero_run.induct)
  case (1 E iv base t s k)
  show ?case
  proof (cases "d_ip s < length (d_in E) \<and> unat (d_in E ! d_ip s) = 0")
    case True
    then have "agrees (zero_run E iv base (uadd t 255) (s\<lparr>d_ip := d_ip s + 1\<rparr>) k)
        (zero_run (untested E) iv base (uadd t 255) (s\<lparr>d_ip := d_ip s + 1\<rparr>) k')"
      using "1.prems" by (intro "1.IH") auto
    with True show ?thesis
      by (cases iv) (auto simp: zero_run.simps [of _ _ base t s] Let_def intro!: agree)
  next
    case False
    with "1.prems" show ?thesis
      by (auto simp: zero_run.simps [of _ iv base t s] Let_def)
  qed
qed

lemma match_done_untested [simp]: "x_match_done v (untested E) s = x_match_done v E s"
  by (simp add: x_match_done_def)

lemma agrees_checked_copy [agree]:
  "agrees (x_checked_copy v E t m_pos s) (x_checked_copy v (untested E) t m_pos s)"
  unfolding x_checked_copy_def x_copy_match_def by (auto intro!: agree)

lemma agrees_m3_offset [agree]: "agrees (x_m3_offset v E t s) (x_m3_offset v (untested E) t s)"
  unfolding x_m3_offset_def by (auto intro!: agree)

lemma agrees_m4_offset [agree]:
  "agrees (x_m4_offset v E high t s) (x_m4_offset v (untested E) high t s)"
  unfolding x_m4_offset_def by (auto simp: x_eof_found_def intro!: agree)

lemma agrees_match: "agrees (x_match v E t s) (x_match v (untested E) t s)"
  unfolding x_match_def x_match_m1_def x_match_m2_def x_match_m3_def x_match_m4_def
  by (cases v) (auto intro!: agree)

lemma agrees_match_next: "agrees (x_match_next E t s) (x_match_next (untested E) t s)"
  unfolding x_match_next_def by (auto intro!: agree)

lemma agrees_first_literal_run:
  "agrees (x_first_literal_run v E s) (x_first_literal_run v (untested E) s)"
  unfolding x_first_literal_run_def by (cases v) (auto intro!: agree)

lemma agrees_literal_run: "agrees (x_literal_run E s) (x_literal_run (untested E) s)"
  unfolding x_literal_run_def x_copy_literals_def by (auto intro!: agree)

lemma agrees_entry: "agrees (x_entry E) (x_entry (untested E))"
  unfolding x_entry_def Let_def by (auto intro!: agree)

lemma agrees_step: "agrees (x_step v E l s) (x_step v (untested E) l s)"
  by (cases l) (simp_all add: agrees_match agrees_match_next agrees_first_literal_run agrees_literal_run)

lemma run_agrees:
  "x_run v E l s = Some (e, out) \<Longrightarrow> e \<notin> overrun_errors \<Longrightarrow>
     x_run v (untested E) l s = Some (e, out)"
proof (induction v E l s rule: x_run.induct)
  case (1 v E l s)
  have eq: "x_step v (untested E) l s = x_step v E l s"
    using agrees_step [of v E l s] "1.prems" by (auto simp: agrees_def x_run_step)
  show ?case
  proof (cases "x_step v E l s")
    case (Run l' s')
    with "1.IH" [OF Run] "1.prems" eq show ?thesis
      by (simp add: x_run_step [of _ _ l s])
  qed (use "1.prems" eq in \<open>simp_all add: x_run_step [of _ _ l s]\<close>)
qed

lemma goto_agrees:
  assumes "agrees r r'" "x_goto v E r = Some (e, out)" "e \<notin> overrun_errors"
  shows "x_goto v (untested E) r' = Some (e, out)"
  using assms by (cases r) (auto simp: agrees_def run_agrees)

section \<open>The unrolled copy loops\<close>

text \<open>
  \<open>UA_COPY8(op, m_pos); op += 8; m_pos += 8;\<close> and its 4-byte sibling: one \<open>n\<close>-byte load and
  store.  The load reads initialised output only if \<open>m_pos + n \<le> op\<close>.
\<close>

definition ua_copy_match ::
    "dec_env \<Rightarrow> nat \<Rightarrow> int \<Rightarrow> dec_state \<Rightarrow> (int \<Rightarrow> dec_state \<Rightarrow> 'l dec_result) \<Rightarrow> 'l dec_result" where
  "ua_copy_match E n m_pos s k =
     (if 0 \<le> m_pos \<and> m_pos + int n \<le> int (length (d_out s)) \<and> length (d_out s) + n \<le> d_cap E
      then k (m_pos + int n)
        (s\<lparr>d_out := d_out s @ take n (drop (nat m_pos) (d_out s))\<rparr>)
      else Fault)"

text \<open>\<open>if (t >= 8) do { UA_COPY8; t -= 8; } while (t >= 8);\<close>\<close>

fun ua_copy8_loop ::
    "dec_env \<Rightarrow> nat \<Rightarrow> int \<Rightarrow> dec_state \<Rightarrow> (nat \<Rightarrow> int \<Rightarrow> dec_state \<Rightarrow> 'l dec_result) \<Rightarrow> 'l dec_result"
where
  "ua_copy8_loop E t m_pos s k =
     (if t \<ge> 8 then ua_copy_match E 8 m_pos s (\<lambda>m_pos s. ua_copy8_loop E (t - 8) m_pos s k)
      else k t m_pos s)"

declare ua_copy8_loop.simps [simp del]

text \<open>\<open>if (t > 0) { *op++ = m_pos[0]; if (t > 1) { *op++ = m_pos[1]; if (t > 2) *op++ = m_pos[2]; } }\<close>\<close>

definition ua_tail ::
    "dec_env \<Rightarrow> nat \<Rightarrow> int \<Rightarrow> dec_state \<Rightarrow> (dec_state \<Rightarrow> 'l dec_result) \<Rightarrow> 'l dec_result" where
  "ua_tail E t m_pos s k =
     (if t > 0 then copy_match E 1 m_pos s (\<lambda>s.
        if t > 1 then copy_match E 1 (m_pos + 1) s (\<lambda>s.
          if t > 2 then copy_match E 1 (m_pos + 2) s k else k s)
        else k s)
      else k s)"

definition x_copy_match_ua64 ::
    "lzo_variant \<Rightarrow> dec_env \<Rightarrow> nat \<Rightarrow> int \<Rightarrow> dec_state \<Rightarrow> x_label dec_result" where
  "x_copy_match_ua64 v E t m_pos s =
     (if int (length (d_out s)) - m_pos \<ge> 8 then
        ua_copy8_loop E (uadd t 2) m_pos s (\<lambda>t m_pos s.
        if t \<ge> 4 then
          ua_copy_match E 4 m_pos s (\<lambda>m_pos s. ua_tail E (t - 4) m_pos s (x_match_done v E))
        else ua_tail E t m_pos s (x_match_done v E))
      else x_copy_match v E t m_pos s)"

lemma lz_copy_block:
  "n \<le> off \<Longrightarrow> off \<le> length out \<Longrightarrow> lz_copy off n out = out @ take n (drop (length out - off) out)"
proof (induction n)
  case (Suc n)
  have "lz_copy off (Suc n) out = lz_copy off 1 (lz_copy off n out)"
    using lz_copy_add [of off n 1 out] by simp
  also have "\<dots> = (out @ take n (drop (length out - off) out)) @ [out ! (length out + n - off)]"
    using Suc by (simp add: nth_append)
  also have "\<dots> = out @ take (Suc n) (drop (length out - off) out)"
    using Suc.prems by (simp add: take_Suc_conv_app_nth add.commute)
  finally show ?case .
qed simp

lemma ua_copy_match_eq:
  assumes "0 < n" "0 \<le> m_pos" "int n \<le> int (length (d_out s)) - m_pos" "length (d_out s) \<le> d_cap E"
  shows "ua_copy_match E n m_pos s k = copy_match E n m_pos s (k (m_pos + int n))"
proof -
  let ?o = "d_out s" and ?off = "length (d_out s) - nat m_pos"
  have "lz_copy ?off n ?o = ?o @ take n (drop (nat m_pos) ?o)"
    using assms lz_copy_block [of n ?off ?o] by (simp add: nat_le_iff le_diff_conv2)
  with assms show ?thesis
    by (simp add: ua_copy_match_def copy_match_closed)
qed


lemma copy_match_cong:
  assumes "\<And>out. length out = length (d_out s) + n \<Longrightarrow> length out \<le> d_cap E \<Longrightarrow>
             k (s\<lparr>d_out := out\<rparr>) = k' (s\<lparr>d_out := out\<rparr>)"
    and "0 < n" "length (d_out s) \<le> d_cap E"
  shows "copy_match E n m_pos s k = copy_match E n m_pos s k'"
  using assms by (simp add: copy_match_closed)

lemma ua_copy8_loop_eq:
  assumes "0 \<le> m_pos" "8 \<le> int (length (d_out s)) - m_pos" "length (d_out s) \<le> d_cap E"
  shows "ua_copy8_loop E t m_pos s k =
    copy_match E (t - t mod 8) m_pos s (\<lambda>s. k (t mod 8) (m_pos + int (t - t mod 8)) s)"
  using assms
proof (induction E t m_pos s k rule: ua_copy8_loop.induct)
  case (1 E t m_pos s k)
  show ?case
  proof (cases "t \<ge> 8")
    case True
    define n where "n = t - 8"
    from True have t: "t - t mod 8 = 8 + (n - n mod 8)" "t mod 8 = n mod 8"
      by (simp_all add: n_def le_mod_geq)
    let ?k' = "\<lambda>s. k (n mod 8) (m_pos + 8 + int (n - n mod 8)) s"
    have "ua_copy8_loop E t m_pos s k =
        copy_match E 8 m_pos s (\<lambda>s. ua_copy8_loop E n (m_pos + 8) s k)"
      using True "1.prems" by (simp add: ua_copy8_loop.simps [of E t] ua_copy_match_eq n_def)
    also have "\<dots> = copy_match E 8 m_pos s (\<lambda>s. copy_match E (n - n mod 8) (m_pos + 8) s ?k')"
      using "1.prems" by (intro copy_match_cong "1.IH" [OF True, folded n_def]) auto
    also have "\<dots> = copy_match E (t - t mod 8) m_pos s ?k'"
      unfolding t(1) copy_match_add by simp
    finally have "ua_copy8_loop E t m_pos s k = copy_match E (t - t mod 8) m_pos s ?k'" .
    moreover have "m_pos + 8 + int (n - n mod 8) = m_pos + int (t - t mod 8)"
      unfolding t(1) by simp
    ultimately show ?thesis
      by (simp only: t(2))
  next
    case False
    then show ?thesis by (simp add: ua_copy8_loop.simps [of E t])
  qed
qed

lemma ua_tail_eq: "t < 4 \<Longrightarrow> ua_tail E t m_pos s k = copy_match E t m_pos s k"
  using copy_match_add [of E 1 1 m_pos s] copy_match_add [of E 1 2 m_pos s]
    copy_match_add [of E 1 1 "m_pos + 1"]
  by (auto simp: ua_tail_def numeral_eq_Suc less_Suc_eq add.commute cong: if_cong)

lemma ua_rest_eq:
  assumes "r < 8" "0 \<le> p" "8 \<le> int (length (d_out s)) - p" "length (d_out s) \<le> d_cap E"
  shows "(if r \<ge> 4 then ua_copy_match E 4 p s (\<lambda>p s. ua_tail E (r - 4) p s k) else ua_tail E r p s k) =
    copy_match E r p s k"
proof (cases "4 \<le> r")
  case True
  have "copy_match E r p s k = copy_match E 4 p s (\<lambda>s. copy_match E (r - 4) (p + int 4) s k)"
    using copy_match_add [of E 4 "r - 4" p s k] True by simp
  with True assms show ?thesis
    by (simp add: ua_copy_match_eq ua_tail_eq)
next
  case False
  then show ?thesis by (simp add: ua_tail_eq)
qed

theorem copy_match_ua64_eq:
  assumes "0 < t" "t + 2 < LZO_UINT_RANGE" "0 \<le> m_pos" "length (d_out s) \<le> d_cap E"
  shows "x_copy_match_ua64 v E t m_pos s = x_copy_match v E t m_pos s"
proof (cases "int (length (d_out s)) - m_pos \<ge> 8")
  case True
  define n where "n = t + 2"
  define q where "q = n - n mod 8"
  let ?k = "x_match_done v E"
  have n: "n = q + n mod 8" "n mod 8 < 8" "uadd t 2 = n"
    using assms(2) by (simp_all add: q_def n_def)
  have "x_copy_match_ua64 v E t m_pos s = copy_match E q m_pos s (\<lambda>s.
      if n mod 8 \<ge> 4 then ua_copy_match E 4 (m_pos + int q) s (\<lambda>p s. ua_tail E (n mod 8 - 4) p s ?k)
      else ua_tail E (n mod 8) (m_pos + int q) s ?k)"
    using True assms(3,4)
    by (simp add: x_copy_match_ua64_def n(3) ua_copy8_loop_eq flip: q_def del: of_nat_diff)
  also have "\<dots> = copy_match E q m_pos s (\<lambda>s. copy_match E (n mod 8) (m_pos + int q) s ?k)"
  proof (cases "q = 0")
    case 0: True
    then show ?thesis
      using ua_rest_eq [OF n(2), of "m_pos + int q"] True assms(3,4)
      by (simp only: copy_match.simps) auto
  next
    case False
    with True assms(3,4) n(2) show ?thesis
      by (intro copy_match_cong ua_rest_eq) auto
  qed
  also have "\<dots> = copy_match E n m_pos s ?k"
    using copy_match_add [of E q "n mod 8" m_pos s] n(1) by metis
  also have "\<dots> = x_copy_match v E t m_pos s"
    unfolding n_def add.commute [of t 2] copy_match_add x_copy_match_def do_copy_match_def
    using assms(1) by simp
  finally show ?thesis .
next
  case False
  then show ?thesis by (simp add: x_copy_match_ua64_def)
qed

section \<open>Properties\<close>

lemma decompress_no_fault:
  assumes "debug \<longrightarrow> v \<noteq> LZO1Z"
  shows "\<exists>e out. x_decompress v debug True inp cap = Some (e, out) \<and> length out \<le> cap"
proof -
  define E where "E = \<lparr>d_in = inp, d_cap = cap, d_test_ip = True, d_test_op = True,
    d_test_lb = True, d_debug = debug\<rparr>"
  have E: "all_tests E" "d_debug E \<longrightarrow> v \<noteq> LZO1Z" "d_cap E = cap"
    using assms by (simp_all add: E_def all_tests_def)
  have "safe E (x_inv v E) (x_entry E)"
    using E(1) by (rule safe_entry)
  then have "\<exists>e out. x_goto v E (x_entry E) = Some (e, out) \<and> length out \<le> d_cap E"
    using safe_run [OF E(1,2)] by (cases "x_entry E") auto
  then show ?thesis
    by (simp add: x_decompress_def E_def [symmetric] E(3))
qed

text \<open>
  C2. Memory safety of \<open>lzo1x_decompress_safe\<close>, \<open>lzo1y_decompress_safe\<close> and
  \<open>lzo1z_decompress_safe\<close>: whatever the input bytes are, and whatever the capacity passed in
  \<open>*out_len\<close>, the call returns a status, never reads outside \<open>in[0 .. in_len - 1]\<close> or before the
  start of \<open>out\<close>, and writes at most \<open>*out_len\<close> bytes.
\<close>

theorem lzo_decompress_safe_in_bounds:
  "\<exists>e out. x_decompress v False True inp cap = Some (e, out) \<and> length out \<le> cap"
  by (rule decompress_no_fault) simp

text \<open>
  C6. The overrun tests of \<open>lzo1x_d.ch\<close> only reject: when the tested decompressor returns
  anything but an overrun error, the untested one (\<open>lzo1x_decompress\<close>) returns the same status and
  the same bytes.
\<close>

theorem lzo_decompress_tests_only_reject:
  assumes "x_decompress v debug True inp cap = Some (e, out)" and "e \<notin> overrun_errors"
  shows "x_decompress v debug False inp cap = Some (e, out)"
proof -
  define E where "E = \<lparr>d_in = inp, d_cap = cap, d_test_ip = True, d_test_op = True,
    d_test_lb = True, d_debug = debug\<rparr>"
  have "x_goto v (untested E) (x_entry (untested E)) = Some (e, out)"
    using assms by (intro goto_agrees [OF agrees_entry]) (simp_all add: x_decompress_def E_def Let_def)
  then show ?thesis
    by (simp add: x_decompress_def E_def untested_def Let_def)
qed

lemma lzo_decompress_tests_only_reject_witness:
  "lzo1x_decompress [18, 65, 17, 0, 0] 1 = Some (LZO_E_OK, [65])"
proof -
  have "x_decompress LZO1X False True [18, 65, 17, 0, 0] 1 = Some (LZO_E_OK, [65])"
    by code_simp
  from lzo_decompress_tests_only_reject [OF this] show ?thesis
    by (simp add: overrun_errors_def lzo1x_decompress_def)
qed

text \<open>
  The unrolled match copy of \<open>LZO_OPT_UNALIGNED64\<close> (8-byte and 4-byte copies when the match
  lies at least 8 bytes back, then up to three single bytes) leaves the same machine state, or
  the same fault, as the byte-wise copy loop.
\<close>

theorem lzo1x_copy_match_ua64:
  assumes "0 < t" "t + 2 < LZO_UINT_RANGE" "0 \<le> m_pos" "length (d_out s) \<le> d_cap E"
  shows "x_copy_match_ua64 v E t m_pos s = x_copy_match v E t m_pos s"
  using assms by (rule copy_match_ua64_eq)


text \<open>
  In a build with \<open>LZO_DEBUG\<close> the assertion \<open>assert(last_m_off > 0)\<close> of the LZO1Z template
  is not implied by the tests before it: a ten-byte input reaches it with \<open>last_m_off == 0\<close> and
  aborts \<open>lzo1z_decompress_safe\<close>, while the release build of the same function returns
  \<open>LZO_E_LOOKBEHIND_OVERRUN\<close> and the debug builds of the LZO1X and LZO1Y functions never abort.
\<close>

lemma lzo1z_debug_assert_reachable:
  "x_decompress LZO1Z True True [21, 1, 2, 3, 4, 0x7c, 0, 17, 0, 0] 64 = None
   \<and> lzo1z_decompress_safe [21, 1, 2, 3, 4, 0x7c, 0, 17, 0, 0] 64
       = Some (LZO_E_LOOKBEHIND_OVERRUN, [1, 2, 3, 4])
   \<and> x_decompress LZO1X True True inp cap \<noteq> None
   \<and> x_decompress LZO1Y True True inp cap \<noteq> None"
proof -
  have "x_decompress LZO1Z True True [21, 1, 2, 3, 4, 0x7c, 0, 17, 0, 0] 64 = None"
    by code_simp
  moreover have "lzo1z_decompress_safe [21, 1, 2, 3, 4, 0x7c, 0, 17, 0, 0] 64
       = Some (LZO_E_LOOKBEHIND_OVERRUN, [1, 2, 3, 4])"
    by code_simp
  ultimately show ?thesis
    using decompress_no_fault [of True LZO1X inp cap] decompress_no_fault [of True LZO1Y inp cap]
    by auto
qed

end
