(* ===== verification/LZO_Codec.thy ===== *)
theory LZO_Codec
  imports LZO_Machine
begin

text \<open>
  The contract of the library's block compressors, as the callers in \<open>src/app/lzo/examples\<close> use
  it: \<open>compress\<close> takes the source and yields a status and the compressed block, \<open>decompress\<close>
  takes a block and the capacity of the output buffer, \<open>worst\<close> is the documented size of the
  output buffer of the compressor, \<open>max_len\<close> the largest source.
\<close>

text \<open>the library's documented output size, and the largest object C allows\<close>

definition x_worst :: "nat \<Rightarrow> nat" where
  "x_worst n = n + n div 16 + 64 + 3"

definition MAX_OBJECT :: nat where
  "MAX_OBJECT = 2 ^ 63 - 1"

locale block_codec =
  fixes compress :: "byte list \<Rightarrow> (lzo_status \<times> byte list) option"
    and decompress :: "byte list \<Rightarrow> nat \<Rightarrow> (lzo_status \<times> byte list) option"
    and worst :: "nat \<Rightarrow> nat"
    and max_len :: nat
  assumes compresses:
    "length src \<le> max_len \<Longrightarrow>
       \<exists>out. compress src = Some (LZO_E_OK, out) \<and> length out \<le> worst (length src)"
  and restores:
    "\<lbrakk>length src \<le> max_len; compress src = Some (LZO_E_OK, out); length src \<le> cap\<rbrakk> \<Longrightarrow>
       decompress out cap = Some (LZO_E_OK, src)"
begin

lemma round_trip:
  assumes "length src \<le> max_len" "length src \<le> cap"
  obtains out where "compress src = Some (LZO_E_OK, out)" "length out \<le> worst (length src)"
    "decompress out cap = Some (LZO_E_OK, src)"
proof -
  obtain out where out: "compress src = Some (LZO_E_OK, out)" "length out \<le> worst (length src)"
    using compresses [OF assms(1)] by auto
  from out restores [OF assms(1) out(1) assms(2)] show thesis
    by (rule that)
qed

lemma compress_inject:
  assumes "length a \<le> max_len" "length b \<le> max_len" "compress a = compress b"
  shows "a = b"
proof -
  define cap where "cap = max (length a) (length b)"
  have cap: "length a \<le> cap" "length b \<le> cap"
    by (simp_all add: cap_def)
  obtain out where out: "compress a = Some (LZO_E_OK, out)"
    and len: "length out \<le> worst (length a)" and a: "decompress out cap = Some (LZO_E_OK, a)"
    by (rule round_trip [OF assms(1) cap(1)])
  have "compress b = Some (LZO_E_OK, out)"
    using out unfolding assms(3) .
  from restores [OF assms(2) this cap(2)] a show ?thesis
    by simp
qed

end

end
