(* ===== verification/LZO_Stream.thy ===== *)
theory LZO_Stream
  imports LZO_Machine LZO_Memops
begin

text \<open>
  How a decompressor reads what a compressor wrote: the primitives of \<open>LZO_Machine\<close> on an input that
  holds known bytes at the read pointer, and \<open>decodes\<close>, the effect of one code on the rest of a run,
  which composes along a stream of codes.
\<close>

section \<open>Passing the tests\<close>

named_theorems passes "conditions under which a test of the decompressor lets the run go on"

lemma pass_NEED_IP [passes]: "d_ip s + x \<le> length (d_in E) \<Longrightarrow> NEED_IP E x s k = k"
  by (auto simp: NEED_IP_def)

lemma pass_NEED_OP [passes]: "length (d_out s) + x \<le> d_cap E \<Longrightarrow> NEED_OP E x s k = k"
  by (auto simp: NEED_OP_def)

lemma pass_TEST_LB [passes]:
  "0 < off \<Longrightarrow> off \<le> length (d_out s) \<Longrightarrow> TEST_LB E (int (length (d_out s)) - int off) s k = k"
  by (simp add: TEST_LB_def)

lemma pass_c_assert [passes]: "c \<Longrightarrow> c_assert E c k = k"
  by (simp add: c_assert_def)

lemma pass_TEST_IV [passes]: "x \<le> LZO_UINT_RANGE - 511 \<Longrightarrow> TEST_IV E x s k = k"
  by (simp add: TEST_IV_def)

lemma pass_TEST_OV [passes]: "x \<le> LZO_UINT_RANGE - 511 \<Longrightarrow> TEST_OV E x s k = k"
  by (simp add: TEST_OV_def)

lemma next_ip_at:
  "at (d_in E) (d_ip s) (b # bs) \<Longrightarrow> next_ip E s k = k (unat b) (s\<lparr>d_ip := d_ip s + 1\<rparr>)"
  by (simp add: next_ip_def peek_ip_def at_Cons)

lemma peek_ip_at:
  "at (d_in E) (d_ip s) bs \<Longrightarrow> i < length bs \<Longrightarrow> peek_ip E i s k = k (unat (bs ! i))"
  using at_nth [of "d_in E" "d_ip s" bs i] at_bound [of "d_in E" "d_ip s" bs]
  by (simp add: peek_ip_def)

lemma put_op_pass: "length (d_out s) < d_cap E \<Longrightarrow> put_op E b s k = k (s\<lparr>d_out := d_out s @ [b]\<rparr>)"
  by (simp add: put_op_def)

lemma copy_lits_add: "copy_lits E (m + n) s k = copy_lits E m s (\<lambda>s. copy_lits E n s k)"
  by (induction m arbitrary: s) (simp_all add: next_ip_def peek_ip_def put_op_def)

lemma copy_lits_at:
  assumes "at (d_in E) (d_ip s) ls" "length (d_out s) + length ls \<le> d_cap E"
  shows "copy_lits E (length ls) s k =
    k (s\<lparr>d_ip := d_ip s + length ls, d_out := d_out s @ ls\<rparr>)"
proof -
  have "dec_wf E s" "d_ip s + length ls \<le> length (d_in E)"
    using assms at_bound [OF assms(1)] by (auto simp: dec_wf_def)
  then show ?thesis
    using assms by (simp add: copy_lits_closed at_take)
qed

section \<open>Codes and their effect\<close>

definition slice :: "nat \<Rightarrow> byte list \<Rightarrow> nat \<Rightarrow> byte list" where
  "slice t src i = take t (drop i src)"

lemma length_slice: "i + t \<le> length src \<Longrightarrow> length (slice t src i) = t"
  by (simp add: slice_def)

lemma take_slice: "take i src @ slice t src i = take (i + t) src"
  by (simp add: slice_def take_add)

lemma load_slice: "load n src i = Some ls \<longleftrightarrow> i + n \<le> length src \<and> ls = slice n src i"
  by (simp add: load_Some slice_def)

lemma load_ok: "i + n \<le> length src \<Longrightarrow> load n src i = Some (slice n src i)"
  by (simp add: load_slice)

lemma slice_add: "slice (m + n) src i = slice m src i @ slice n src (i + m)"
  by (simp add: slice_def take_add add.commute)

abbreviation dst :: "nat \<Rightarrow> byte list \<Rightarrow> dec_state" where
  "dst ip out \<equiv> \<lparr>d_ip = ip, d_out = out, d_last = 0\<rparr>"

text \<open>
  \<open>decodes run code out out'\<close>: at \<open>code\<close> in the input and with \<open>out\<close> in the output buffer, the run goes
  on behind \<open>code\<close> with \<open>out'\<close>.
\<close>

definition decodes ::
    "(dec_env \<Rightarrow> dec_state \<Rightarrow> 'r) \<Rightarrow> byte list \<Rightarrow> byte list \<Rightarrow> byte list \<Rightarrow> bool" where
  "decodes run code out out' \<longleftrightarrow> length out \<le> length out' \<and>
     (\<forall>E ip. at (d_in E) ip code \<longrightarrow> length out' \<le> d_cap E \<longrightarrow>
        run E (dst ip out) = run E (dst (ip + length code) out'))"

lemma decodes_Nil [simp]: "decodes run [] out out"
  by (simp add: decodes_def)

lemma decodes_append:
  "decodes run a out out' \<Longrightarrow> decodes run b out' out'' \<Longrightarrow> decodes run (a @ b) out out''"
  by (auto simp: decodes_def at_append add.assoc)

lemma decodes_run:
  "decodes run code out out' \<Longrightarrow> at (d_in E) ip code \<Longrightarrow> length out' \<le> d_cap E \<Longrightarrow>
     run E (dst ip out) = run E (dst (ip + length code) out')"
  by (simp add: decodes_def)

end
