(* ===== verification/LZO1X_Roundtrip.thy ===== *)
theory LZO1X_Roundtrip
  imports LZO1X_Matchlen LZO1X_Safety LZO_Codec LZO_Stream
begin

text \<open>
  The decompressor inverts the compressor.  \<open>x_prefix v op pre\<close> is the invariant of the
  compressor's output: fed with any input that starts with \<open>op\<close>, even after the last match code
  got its literal count patched in, the decompressor arrives at \<open>match_done\<close> just behind \<open>op\<close>
  with \<open>pre\<close> in its output buffer.  The emitters of \<open>LZO1X_Compress\<close> extend it, and the
  end-of-stream code turns it into \<open>LZO_E_OK\<close>.
\<close>

section \<open>Long runs\<close>

lemma zero_run_long:
  assumes "at (d_in E) (d_ip s) (long_run n)" "0 < n" "t + base + n + 511 \<le> LZO_UINT_RANGE"
  shows "zero_run E iv base t s k =
    k (t + (base + n)) (s\<lparr>d_ip := d_ip s + length (long_run n)\<rparr>)"
  using assms
proof (induction n arbitrary: t s rule: long_run.induct)
  case (1 n)
  show ?case
  proof (cases "n > 255")
    case True
    have run: "long_run n = 0 # long_run (n - 255)"
      using True by (subst long_run.simps) simp
    have at: "d_ip s < length (d_in E)" "d_in E ! d_ip s = 0"
      "at (d_in E) (Suc (d_ip s)) (long_run (n - 255))"
      using "1.prems"(1) by (simp_all add: run at_Cons)
    then have "Suc (d_ip s) < length (d_in E)"
      by (subst (asm) long_run.simps) (auto simp: at_Cons split: if_splits)
    moreover have "uadd t 255 = t + 255"
      using "1.prems"(3) True by (intro uadd_small) simp
    moreover have "zero_run E iv base (t + 255) (s\<lparr>d_ip := d_ip s + 1\<rparr>) k =
        k (t + 255 + (base + (n - 255))) (s\<lparr>d_ip := d_ip s + 1, d_ip := d_ip s + 1 + length (long_run (n - 255))\<rparr>)"
      using True at "1.prems"(3) by (subst "1.IH") simp_all
    ultimately show ?thesis
      using at(1,2) True "1.prems"(3)
      by (subst zero_run.simps) (simp add: Let_def passes run)
  next
    case False
    have run: "long_run n = [LZO_BYTE n]"
      using False by (subst long_run.simps) simp
    have "uadd t (base + n) = t + (base + n)"
      using "1.prems"(3) by (intro uadd_small) simp
    with False "1.prems"(1,2) show ?thesis
      by (subst zero_run.simps) (auto simp: Let_def run at_Cons add.assoc)
  qed
qed

section \<open>Copying a match\<close>

lemma checked_copy_pass:
  assumes "0 < off" "off \<le> length (d_out s)" "3 \<le> n" "length (d_out s) + n \<le> d_cap E"
    "n < LZO_UINT_RANGE"
  shows "x_checked_copy v E (n - 2) (int (length (d_out s)) - int off) s =
    x_match_done v E (s\<lparr>d_out := lz_copy off n (d_out s)\<rparr>)"
proof -
  let ?m = "int (length (d_out s)) - int off"
  have n: "uadd (n - 2) 2 = n" "0 < n - 2" "2 + (n - 2) = n"
    using assms(3,5) by simp_all
  have off: "length (d_out s) - nat ?m = off"
    using assms(2) by simp
  have "x_copy_match v E (n - 2) ?m s = copy_match E n ?m s (x_match_done v E)"
    unfolding x_copy_match_def do_copy_match_def
    using copy_match_add [of E 2 "n - 2" ?m s "x_match_done v E", unfolded n(3)] n(2) by simp
  also have "\<dots> = x_match_done v E (s\<lparr>d_out := lz_copy off n (d_out s)\<rparr>)"
    using assms off by (simp add: copy_match_closed)
  finally show ?thesis
    unfolding x_checked_copy_def using assms by (simp add: passes n(1))
qed

section \<open>Decoding the match codes\<close>

lemma or_mult: "(b :: nat) < 2 ^ n \<Longrightarrow> push_bit n a OR b = a * 2 ^ n + b"
  by (simp add: push_bit_eq_mult or_disjoint)

lemma m2_byte_x:
  "3 \<le> m \<Longrightarrow> m \<le> 8 \<Longrightarrow>
     unat (LZO_BYTE (push_bit 5 (m - 1) OR push_bit 2 (x AND 7))) = (m - 1) * 32 + x mod 8 * 4"
  by (simp add: bits push_bit_eq_mult [of 2] or_mult)

lemma m2_byte_y:
  "3 \<le> m \<Longrightarrow> m \<le> 14 \<Longrightarrow>
     unat (LZO_BYTE (push_bit 4 (m + 1) OR push_bit 2 (x AND 3))) = (m + 1) * 16 + x mod 4 * 4"
  by (simp add: bits push_bit_eq_mult [of 2] or_mult)

text \<open>what every match code offers to the literals that may follow it\<close>

definition patched :: "byte list \<Rightarrow> nat \<Rightarrow> byte list" where
  "patched bs r = bs[length bs - 2 := bs ! (length bs - 2) OR LZO_BYTE r]"

lemma length_patched [simp]: "length (patched bs r) = length bs"
  by (simp add: patched_def)

definition patchable :: "byte list \<Rightarrow> bool" where
  "patchable bs \<longleftrightarrow> 2 \<le> length bs \<and> unat (bs ! (length bs - 2)) mod 4 = 0"

lemma patched_0 [simp]: "patched bs 0 = bs"
  by (simp add: patched_def LZO_BYTE_def)

lemma patched_append: "2 \<le> length cs \<Longrightarrow> patched (bs @ cs) r = bs @ patched cs r"
  by (auto simp: patched_def nth_append list_update_append)

lemma patchable_append: "2 \<le> length cs \<Longrightarrow> patchable (bs @ cs) = patchable cs"
  by (auto simp: patchable_def nth_append)

lemma offset_code_patched:
  "patched (xs @ offset_code o') r = xs @ [LZO_BYTE (push_bit 2 o') OR LZO_BYTE r, LZO_BYTE (drop_bit 6 o')]"
  by (simp add: patched_append offset_code_def) (simp add: patched_def)

lemmas patched_offset = offset_code_patched [of "[]", simplified]
  offset_code_patched [of "[x]" for x, simplified] offset_code_patched [of "x # xs" for x xs, simplified]

lemma patched_two: "patched [x, y] r = [x OR LZO_BYTE r, y]"
  by (simp add: patched_def)

lemma offset_code_patchable: "patchable (xs @ offset_code off)"
proof -
  have "off * 4 mod 256 mod 4 = (0 :: nat)"
    by (simp add: mod_mod_cancel)
  then show ?thesis
    by (simp add: patchable_def offset_code_def nth_append push_bit_eq_mult)
qed

text \<open>the two offset bytes of M3 and M4, read back: \<open>(ip[0] >> 2) + (ip[1] << 6)\<close>\<close>

lemma offset_bytes:
  assumes "r < 4"
  shows "drop_bit 2 (unat (LZO_BYTE (push_bit 2 off) OR LZO_BYTE r)) +
    push_bit 6 (unat (LZO_BYTE (drop_bit 6 off))) = off mod 16384"
proof -
  have "off * 4 mod 256 mod 4 = (0 :: nat)"
    by (simp add: mod_mod_cancel)
  then have "unat (LZO_BYTE (push_bit 2 off) OR LZO_BYTE r) = off * 4 mod 256 + r"
    using assms by (subst byte_or_low) (simp_all add: push_bit_eq_mult)
  moreover have "(off * 4 mod 256 + r) div 4 = off mod 64"
    using assms by (simp add: div_add1_eq mod_mult_mult2 [of off 4 64, simplified])
  moreover have "off div 64 mod 256 * 64 + off mod 64 = off mod 16384"
    using mod_mult2_eq [of off 64 256] by simp
  ultimately show ?thesis
    by (simp add: drop_bit_eq_div push_bit_eq_mult)
qed

lemma m2_fields_x:
  fixes n r q :: nat
  assumes "r < 4" "0 < n"
  defines "u \<equiv> (n - 1) * 32 + q mod 8 * 4 + r"
  shows "u div 4 mod 8 = q mod 8" "u div 32 = n - 1"
proof -
  have u: "u = (8 * (n - 1) + q mod 8) * 4 + r"
    by (simp add: u_def algebra_simps)
  have 4: "u div 4 = 8 * (n - 1) + q mod 8"
    using assms(1) unfolding u by simp
  then show "u div 4 mod 8 = q mod 8"
    by simp
  show "u div 32 = n - 1"
    using div_mult2_eq [of u 4 8] unfolding 4 by simp
qed

lemma m2_fields_y:
  fixes n r q :: nat
  assumes "r < 4"
  defines "u \<equiv> (n + 1) * 16 + q mod 4 * 4 + r"
  shows "u div 4 mod 4 = q mod 4" "u div 16 = n + 1"
proof -
  have u: "u = (4 * (n + 1) + q mod 4) * 4 + r"
    by (simp add: u_def algebra_simps)
  have 4: "u div 4 = 4 * (n + 1) + q mod 4"
    using assms(1) unfolding u by (simp del: mult_Suc_right)
  then show "u div 4 mod 4 = q mod 4"
    by (simp del: mult_Suc_right)
  show "u div 16 = n + 1"
    using div_mult2_eq [of u 4 4] unfolding 4 by (simp del: mult_Suc_right)
qed

lemma m2_split:
  fixes q k :: nat
  assumes "0 < off"
  shows "int p - 1 - int ((off - 1) mod k) - int ((off - 1) div k * k) = int p - int off"
proof -
  have "(off - 1) mod k + (off - 1) div k * k = off - 1"
    by simp
  then show ?thesis
    using assms by linarith
qed

lemma decode_m2_x:
  assumes len: "4 \<le> n" "n \<le> 8" and off: "0 < off" "off \<le> 0x800"
    and code: "patched (emit_m2 LZO1X n off) r = b # bs" "r < 4"
    and buf: "at (d_in E) (d_ip s) bs" "off \<le> length (d_out s)" "length (d_out s) + n \<le> d_cap E"
  shows "x_match LZO1X E (unat b) s =
      x_match_done LZO1X E (s\<lparr>d_ip := d_ip s + length bs, d_out := lz_copy off n (d_out s)\<rparr>)"
    and "patchable (emit_m2 LZO1X n off)" and "16 \<le> unat b"
proof -
  let ?c = "LZO_BYTE (push_bit 5 (n - 1) OR push_bit 2 (off - 1 AND 7))"
  let ?d = "LZO_BYTE (drop_bit 3 (off - 1))"
  have c: "unat ?c = (n - 1) * 32 + (off - 1) mod 8 * 4"
    using len m2_byte_x [of n "off - 1"] by simp
  have c4: "unat ?c mod 4 = 0"
    unfolding c by presburger
  have b: "b = ?c OR LZO_BYTE r" "bs = [?d]"
    using code(1) by (simp_all add: emit_m2_def Let_def patched_two)
  have ub: "unat b = (n - 1) * 32 + (off - 1) mod 8 * 4 + r"
    unfolding b(1) byte_or_low [OF c4 code(2)] c ..
  have ud: "unat ?d = (off - 1) div 8"
    using off by (simp add: drop_bit_eq_div)
  have "64 \<le> unat b"
    unfolding ub using len(1) by simp
  have e: "unat b div 4 mod 8 = (off - 1) mod 8" "unat b div 32 - 1 = n - 2"
    using m2_fields_x [OF code(2), of n "off - 1"] len(1) unfolding ub
    by (simp_all add: numeral_2_eq_2)
  from \<open>64 \<le> unat b\<close> have "x_match LZO1X E (unat b) s = x_checked_copy LZO1X E (unat b div 32 - 1)
      (int (length (d_out s)) - 1 - int (unat b div 4 mod 8) - int (unat ?d * 8)) (s\<lparr>d_ip := d_ip s + 1\<rparr>)"
    using buf(1) unfolding b(2)
    by (simp only: x_match_def x_match_m2_def if_True Let_def lzo_variant.case next_ip_at
      drop_bit_eq_div push_bit_eq_mult bits) simp
  also have "\<dots> = x_checked_copy LZO1X E (n - 2) (int (length (d_out s)) - int off) (s\<lparr>d_ip := d_ip s + 1\<rparr>)"
    unfolding e ud m2_split [OF off(1)] ..
  also have "\<dots> = x_match_done LZO1X E (s\<lparr>d_ip := d_ip s + length bs, d_out := lz_copy off n (d_out s)\<rparr>)"
    using len off buf checked_copy_pass [of off "s\<lparr>d_ip := d_ip s + 1\<rparr>" n E LZO1X]
    by (simp add: b(2) LZO_UINT_RANGE_def)
  finally show "x_match LZO1X E (unat b) s =
      x_match_done LZO1X E (s\<lparr>d_ip := d_ip s + length bs, d_out := lz_copy off n (d_out s)\<rparr>)" .
  show "patchable (emit_m2 LZO1X n off)"
    using c4 by (simp add: patchable_def emit_m2_def Let_def)
  show "16 \<le> unat b"
    using \<open>64 \<le> unat b\<close> by simp
qed

lemma decode_m2_y:
  assumes len: "4 \<le> n" "n \<le> 14" and off: "0 < off" "off \<le> 0x400"
    and code: "patched (emit_m2 LZO1Y n off) r = b # bs" "r < 4"
    and buf: "at (d_in E) (d_ip s) bs" "off \<le> length (d_out s)" "length (d_out s) + n \<le> d_cap E"
  shows "x_match LZO1Y E (unat b) s =
      x_match_done LZO1Y E (s\<lparr>d_ip := d_ip s + length bs, d_out := lz_copy off n (d_out s)\<rparr>)"
    and "patchable (emit_m2 LZO1Y n off)" and "16 \<le> unat b"
proof -
  let ?c = "LZO_BYTE (push_bit 4 (n + 1) OR push_bit 2 (off - 1 AND 3))"
  let ?d = "LZO_BYTE (drop_bit 2 (off - 1))"
  have c: "unat ?c = (n + 1) * 16 + (off - 1) mod 4 * 4"
    using len m2_byte_y [of n "off - 1"] by simp
  have c4: "unat ?c mod 4 = 0"
    unfolding c by presburger
  have b: "b = ?c OR LZO_BYTE r" "bs = [?d]"
    using code(1) by (simp_all add: emit_m2_def Let_def patched_two)
  have ub: "unat b = (n + 1) * 16 + (off - 1) mod 4 * 4 + r"
    unfolding b(1) byte_or_low [OF c4 code(2)] c ..
  have ud: "unat ?d = (off - 1) div 4"
    using off by (simp add: drop_bit_eq_div)
  have "64 \<le> unat b"
    unfolding ub using len(1) by simp
  have e: "unat b div 4 mod 4 = (off - 1) mod 4" "unat b div 16 - 3 = n - 2"
    using m2_fields_y [OF code(2), of n "off - 1"] len(1) unfolding ub by simp_all
  from \<open>64 \<le> unat b\<close> have "x_match LZO1Y E (unat b) s = x_checked_copy LZO1Y E (unat b div 16 - 3)
      (int (length (d_out s)) - 1 - int (unat b div 4 mod 4) - int (unat ?d * 4)) (s\<lparr>d_ip := d_ip s + 1\<rparr>)"
    using buf(1) unfolding b(2)
    by (simp only: x_match_def x_match_m2_def if_True Let_def lzo_variant.case next_ip_at
      drop_bit_eq_div push_bit_eq_mult bits) simp
  also have "\<dots> = x_checked_copy LZO1Y E (n - 2) (int (length (d_out s)) - int off) (s\<lparr>d_ip := d_ip s + 1\<rparr>)"
    unfolding e ud m2_split [OF off(1)] ..
  also have "\<dots> = x_match_done LZO1Y E (s\<lparr>d_ip := d_ip s + length bs, d_out := lz_copy off n (d_out s)\<rparr>)"
    using len off buf checked_copy_pass [of off "s\<lparr>d_ip := d_ip s + 1\<rparr>" n E LZO1Y]
    by (simp add: b(2) LZO_UINT_RANGE_def)
  finally show "x_match LZO1Y E (unat b) s =
      x_match_done LZO1Y E (s\<lparr>d_ip := d_ip s + length bs, d_out := lz_copy off n (d_out s)\<rparr>)" .
  show "patchable (emit_m2 LZO1Y n off)"
    using c4 by (simp add: patchable_def emit_m2_def Let_def)
  show "16 \<le> unat b"
    using \<open>64 \<le> unat b\<close> by simp
qed

lemma decode_m2:
  assumes v: "v \<noteq> LZO1Z" and len: "4 \<le> n" "n \<le> M2_MAX_LEN v" and off: "0 < off" "off \<le> M2_MAX_OFFSET v"
    and code: "patched (emit_m2 v n off) r = b # bs" "r < 4"
    and buf: "at (d_in E) (d_ip s) bs" "off \<le> length (d_out s)" "length (d_out s) + n \<le> d_cap E"
  shows "x_match v E (unat b) s =
      x_match_done v E (s\<lparr>d_ip := d_ip s + length bs, d_out := lz_copy off n (d_out s)\<rparr>)"
    and "patchable (emit_m2 v n off)" and "16 \<le> unat b"
proof -
  have "x_match v E (unat b) s =
      x_match_done v E (s\<lparr>d_ip := d_ip s + length bs, d_out := lz_copy off n (d_out s)\<rparr>)
    \<and> patchable (emit_m2 v n off) \<and> 16 \<le> unat b"
  proof (cases v)
    case LZO1X
    with len off code buf show ?thesis
      using decode_m2_x [of n off r b bs E s] by simp
  next
    case LZO1Y
    with len off code buf show ?thesis
      using decode_m2_y [of n off r b bs E s] by simp
  qed (use v in simp)
  then show "x_match v E (unat b) s =
      x_match_done v E (s\<lparr>d_ip := d_ip s + length bs, d_out := lz_copy off n (d_out s)\<rparr>)"
    "patchable (emit_m2 v n off)" "16 \<le> unat b"
    by auto
qed

lemma long_run_nonempty [simp]: "long_run n \<noteq> []"
  by (subst long_run.simps) simp

lemma m3_offset_decode:
  assumes v: "v \<noteq> LZO1Z" and off: "0 < off" "off \<le> 0x4000" "off \<le> length (d_out s)" and r: "r < 4"
    and buf: "at (d_in E) (d_ip s) [LZO_BYTE (push_bit 2 (off - 1)) OR LZO_BYTE r, LZO_BYTE (drop_bit 6 (off - 1))]"
      "3 \<le> n" "length (d_out s) + n \<le> d_cap E" "n < LZO_UINT_RANGE"
  shows "x_m3_offset v E (n - 2) s =
      x_match_done v E (s\<lparr>d_ip := d_ip s + 2, d_out := lz_copy off n (d_out s)\<rparr>)"
proof -
  define b0 where "b0 = unat (LZO_BYTE (push_bit 2 (off - 1)) OR LZO_BYTE r)"
  define b1 where "b1 = unat (LZO_BYTE (drop_bit 6 (off - 1)))"
  have "drop_bit 2 b0 + push_bit 6 b1 = (off - 1) mod 16384"
    unfolding b0_def b1_def using r by (rule offset_bytes)
  then have o': "int (length (d_out s)) - 1 - int (drop_bit 2 b0 + push_bit 6 b1) =
      int (length (d_out s)) - int off"
    using off(1,2) by simp
  have "x_m3_offset v E (n - 2) s =
      x_checked_copy v E (n - 2) (int (length (d_out s)) - 1 - int (drop_bit 2 b0 + push_bit 6 b1))
        (s\<lparr>d_ip := d_ip s + 2\<rparr>)"
    using v by (simp add: x_m3_offset_def peek_ip_at [OF buf(1)] Let_def b0_def b1_def)
  also have "\<dots> = x_match_done v E (s\<lparr>d_ip := d_ip s + 2, d_out := lz_copy off n (d_out s)\<rparr>)"
    unfolding o' using checked_copy_pass [of off "s\<lparr>d_ip := d_ip s + 2\<rparr>" n E v] off buf by simp
  finally show ?thesis .
qed

lemma m4_offset_decode:
  assumes v: "v \<noteq> LZO1Z" and off: "0x4000 < off" "off \<le> 0xbfff" "off \<le> length (d_out s)" and r: "r < 4"
    and buf: "at (d_in E) (d_ip s) [LZO_BYTE (push_bit 2 (off - 0x4000)) OR LZO_BYTE r, LZO_BYTE (drop_bit 6 (off - 0x4000))]"
      "3 \<le> n" "length (d_out s) + n \<le> d_cap E" "n < LZO_UINT_RANGE"
    and high: "high = (off - 0x4000) div 0x4000 * 0x4000"
  shows "x_m4_offset v E high (n - 2) s =
      x_match_done v E (s\<lparr>d_ip := d_ip s + 2, d_out := lz_copy off n (d_out s)\<rparr>)"
proof -
  define b0 where "b0 = unat (LZO_BYTE (push_bit 2 (off - 0x4000)) OR LZO_BYTE r)"
  define b1 where "b1 = unat (LZO_BYTE (drop_bit 6 (off - 0x4000)))"
  have p: "peek_ip E 0 s k = k b0" "peek_ip E 1 s k = k b1" for k :: "nat \<Rightarrow> x_label dec_result"
    using peek_ip_at [OF buf(1), of 0] peek_ip_at [OF buf(1), of 1] by (simp_all add: b0_def b1_def)
  define m where "m = int (length (d_out s)) - int high - int (drop_bit 2 b0 + push_bit 6 b1)"
  have "drop_bit 2 b0 + push_bit 6 b1 = (off - 0x4000) mod 16384"
    unfolding b0_def b1_def using r by (rule offset_bytes)
  then have "high + (drop_bit 2 b0 + push_bit 6 b1) = off - 0x4000"
    unfolding high using div_mult_mod_eq [of "off - 0x4000" "0x4000"] by simp
  then have m: "m - 0x4000 = int (length (d_out s)) - int off" "m \<noteq> int (length (d_out s))"
    using off(1) by (simp_all add: m_def)
  have "x_m4_offset v E high (n - 2) s =
      (if m = int (length (d_out s)) then x_eof_found E (s\<lparr>d_ip := d_ip s + 2\<rparr>)
       else x_checked_copy v E (n - 2) (m - 0x4000) (s\<lparr>d_ip := d_ip s + 2\<rparr>))"
    unfolding x_m4_offset_def Let_def p m_def by (simp only: v if_False)
  also have "\<dots> = x_match_done v E (s\<lparr>d_ip := d_ip s + 2, d_out := lz_copy off n (d_out s)\<rparr>)"
    using m checked_copy_pass [of off "s\<lparr>d_ip := d_ip s + 2\<rparr>" n E v] off buf by simp
  finally show ?thesis .
qed

lemma marker_or: "(x :: nat) < 32 \<Longrightarrow> 32 OR x = 32 + x"
  using or_disjoint [of x 5 1] by simp

lemma decode_m3:
  assumes v: "v \<noteq> LZO1Z" and n: "4 \<le> n" "n + 1000 \<le> LZO_UINT_RANGE"
    and off: "0 < off" "off \<le> 0x4000"
    and code: "patched (emit_m3 n off) r = b # bs" "r < 4"
    and buf: "at (d_in E) (d_ip s) bs" "off \<le> length (d_out s)" "length (d_out s) + n \<le> d_cap E"
  shows "x_match v E (unat b) s =
      x_match_done v E (s\<lparr>d_ip := d_ip s + length bs, d_out := lz_copy off n (d_out s)\<rparr>)"
    and "patchable (emit_m3 n off)" and "16 \<le> unat b"
proof -
  let ?o = "[LZO_BYTE (push_bit 2 (off - 1)) OR LZO_BYTE r, LZO_BYTE (drop_bit 6 (off - 1))]"
  show "patchable (emit_m3 n off)"
    by (simp only: emit_m3_def Let_def offset_code_patchable)
  have n': "3 \<le> n" "n < LZO_UINT_RANGE" using n by simp_all
  have goal: "x_match v E (unat b) s =
      x_match_done v E (s\<lparr>d_ip := d_ip s + length bs, d_out := lz_copy off n (d_out s)\<rparr>)
    \<and> 16 \<le> unat b"
  proof (cases "n \<le> 33")
    case True
    have b: "b = LZO_BYTE (32 + (n - 2))" "bs = ?o"
      using code(1) True marker_or [of "n - 2"] n(1)
      by (simp_all add: emit_m3_def x_consts patched_offset Let_def)
    have ub: "unat b = 32 + (n - 2)"
      using True n(1) by (simp add: b(1))
    have "x_m3_offset v E (n - 2) s =
        x_match_done v E (s\<lparr>d_ip := d_ip s + 2, d_out := lz_copy off n (d_out s)\<rparr>)"
      using v off buf n' code(2) by (intro m3_offset_decode) (simp_all add: b(2))
    moreover have "unat b mod 32 = n - 2"
      using True n(1) mod_add_self1 [of 32 "n - 2"] unfolding ub by simp
    ultimately show ?thesis
      using True n(1) by (simp add: x_match_def ub x_match_m3_def bits b(2))
  next
    case False
    have b: "b = LZO_BYTE 32" "bs = long_run (n - 33) @ ?o"
      using code(1) False offset_code_patched [of "LZO_BYTE 32 # long_run (n - 33)" "off - 1" r]
      by (simp_all add: emit_m3_def x_consts Let_def)
    let ?s = "s\<lparr>d_ip := d_ip s + length (long_run (n - 33))\<rparr>"
    have at: "at (d_in E) (d_ip s) (long_run (n - 33))" "at (d_in E) (d_ip ?s) ?o"
      using buf(1) by (simp_all add: b(2) at_append)
    have "x_m3_offset v E (n - 2) ?s =
        x_match_done v E (?s\<lparr>d_ip := d_ip ?s + 2, d_out := lz_copy off n (d_out ?s)\<rparr>)"
      using v off buf n' code(2) at by (intro m3_offset_decode) simp_all
    moreover have "31 + (n - 33) = n - 2"
      using False by simp
    ultimately show ?thesis
      using at_bound [OF at(2)] False n(2)
      by (simp add: x_match_def b x_match_m3_def bits zero_run_long [OF at(1)] passes add.assoc)
  qed
  then show "x_match v E (unat b) s =
      x_match_done v E (s\<lparr>d_ip := d_ip s + length bs, d_out := lz_copy off n (d_out s)\<rparr>)"
    "16 \<le> unat b" by auto
qed

lemma m4_high:
  "off - 0x4000 \<le> 0x7fff \<Longrightarrow> drop_bit 11 (off - 0x4000) AND 8 = 8 * ((off - 0x4000) div 0x4000)"
  for off :: nat
proof -
  assume a: "off - 0x4000 \<le> 0x7fff"
  have "(off - 0x4000) div 2048 div 8 = (off - 0x4000) div 0x4000"
    using div_mult2_eq [of "off - 0x4000" 2048 8] by simp
  moreover have "(off - 0x4000) div 0x4000 < 2"
    using a by (simp add: less_mult_imp_div_less)
  ultimately show ?thesis
    by (simp add: bits drop_bit_eq_div)
qed

lemma m4_marker:
  fixes h :: nat
  assumes "h < 2" "x < 8"
  shows "16 OR 8 * h OR x = 16 + 8 * h + x"
proof -
  have "16 OR 8 * h = 16 + 8 * h"
    using or_disjoint [of "8 * h" 4 1] assms(1) by simp
  moreover have "(2 + h) * 2 ^ 3 OR x = (2 + h) * 2 ^ 3 + x"
    using assms(2) by (intro or_disjoint) simp
  ultimately show ?thesis
    by (simp add: or.assoc [symmetric] algebra_simps)
qed

lemma m4_fields:
  fixes h :: nat
  assumes "h < 2" "x < 8"
  shows "(16 + 8 * h + x) AND 8 = 8 * h" "(16 + 8 * h + x) AND 7 = x"
proof -
  have "(16 + 8 * h + x) div 8 = 2 + h" "(16 + 8 * h + x) mod 8 = x"
    using assms(2) by (simp_all add: div_add1_eq mod_add_eq [symmetric])
  then show "(16 + 8 * h + x) AND 8 = 8 * h" "(16 + 8 * h + x) AND 7 = x"
    using assms(1) unfolding bits by simp_all
qed

lemma decode_m4:
  assumes v: "v \<noteq> LZO1Z" and n: "4 \<le> n" "n + 1000 \<le> LZO_UINT_RANGE"
    and off: "0x4000 < off" "off \<le> 0xbfff"
    and code: "patched (emit_m4 n off) r = b # bs" "r < 4"
    and buf: "at (d_in E) (d_ip s) bs" "off \<le> length (d_out s)" "length (d_out s) + n \<le> d_cap E"
  shows "x_match v E (unat b) s =
      x_match_done v E (s\<lparr>d_ip := d_ip s + length bs, d_out := lz_copy off n (d_out s)\<rparr>)"
    and "patchable (emit_m4 n off)" and "16 \<le> unat b"
proof -
  define o' where "o' = off - 0x4000"
  define h where "h = o' div 0x4000"
  let ?o = "[LZO_BYTE (push_bit 2 o') OR LZO_BYTE r, LZO_BYTE (drop_bit 6 o')]"
  have h: "h < 2" "drop_bit 11 o' AND 8 = 8 * h"
    using off m4_high [of off] by (simp_all add: h_def o'_def less_mult_imp_div_less)
  have high: "push_bit 11 (8 * h) = o' div 0x4000 * 0x4000"
    by (simp add: h_def push_bit_eq_mult)
  show "patchable (emit_m4 n off)"
    by (simp only: emit_m4_def Let_def offset_code_patchable)
  have n': "3 \<le> n" "n < LZO_UINT_RANGE" using n by simp_all
  note dec = m4_offset_decode [OF v off, of _ r E n "push_bit 11 (8 * h)", folded o'_def, OF _ code(2) _ n'(1) _ n'(2) high]
  have goal: "x_match v E (unat b) s =
      x_match_done v E (s\<lparr>d_ip := d_ip s + length bs, d_out := lz_copy off n (d_out s)\<rparr>)
    \<and> 16 \<le> unat b"
  proof (cases "n \<le> 9")
    case True
    have b: "b = LZO_BYTE (16 + 8 * h + (n - 2))" "bs = ?o"
      using code(1) True m4_marker [OF h(1), of "n - 2"] n(1)
      by (simp_all add: emit_m4_def x_consts patched_offset Let_def h(2) flip: o'_def)
    have ub: "unat b = 16 + 8 * h + (n - 2)"
      using True n(1) h(1) by (simp add: b(1))
    have t: "unat b AND 8 = 8 * h" "unat b AND 7 = n - 2"
      using m4_fields [OF h(1), of "n - 2"] True n(1) unfolding ub by simp_all
    have "x_m4_offset v E (push_bit 11 (8 * h)) (n - 2) s =
        x_match_done v E (s\<lparr>d_ip := d_ip s + 2, d_out := lz_copy off n (d_out s)\<rparr>)"
      using buf unfolding b(2) by (intro dec)
    moreover have "x_match v E (unat b) s = x_m4_offset v E (push_bit 11 (8 * h)) (n - 2) s"
      unfolding x_match_def x_match_m4_def Let_def t using True n(1) h(1) by (simp add: ub)
    ultimately show ?thesis
      by (simp add: b(2) ub)
  next
    case False
    have b: "b = LZO_BYTE (16 + 8 * h)" "bs = long_run (n - 9) @ ?o"
      using code(1) False m4_marker [OF h(1), of 0]
        offset_code_patched [of "LZO_BYTE (16 + 8 * h) # long_run (n - 9)" o' r]
      by (simp_all add: emit_m4_def x_consts Let_def h(2) flip: o'_def)
    have ub: "unat b = 16 + 8 * h"
      using h(1) by (simp add: b(1))
    have t: "unat b AND 8 = 8 * h" "unat b AND 7 = 0"
      using m4_fields [OF h(1), of 0] unfolding ub by simp_all
    let ?s = "s\<lparr>d_ip := d_ip s + length (long_run (n - 9))\<rparr>"
    have at: "at (d_in E) (d_ip s) (long_run (n - 9))" "at (d_in E) (d_ip ?s) ?o"
      using buf(1) by (simp_all add: b(2) at_append)
    have "7 + (n - 9) = n - 2"
      using False by simp
    then have "x_match v E (unat b) s = NEED_IP E 2 ?s (x_m4_offset v E (push_bit 11 (8 * h)) (n - 2) ?s)"
      unfolding x_match_def x_match_m4_def Let_def t using False n(2) h(1)
      by (simp add: ub zero_run_long [OF at(1)])
    also have "\<dots> = x_m4_offset v E (push_bit 11 (8 * h)) (n - 2) ?s"
      using at_bound [OF at(2)] by (intro passes) simp
    also have "\<dots> = x_match_done v E (?s\<lparr>d_ip := d_ip ?s + 2, d_out := lz_copy off n (d_out ?s)\<rparr>)"
      using buf(2,3) at(2) by (intro dec) simp_all
    finally show ?thesis
      by (simp add: b(2) ub add.assoc)
  qed
  then show "x_match v E (unat b) s =
      x_match_done v E (s\<lparr>d_ip := d_ip s + length bs, d_out := lz_copy off n (d_out s)\<rparr>)"
    "16 \<le> unat b" by auto
qed

lemma decode_match:
  assumes v: "v \<noteq> LZO1Z" and n: "4 \<le> n" "n + 1000 \<le> LZO_UINT_RANGE"
    and off: "0 < off" "off \<le> 0xbfff"
    and code: "patched (emit_match v n off) r = b # bs" "r < 4"
    and buf: "at (d_in E) (d_ip s) bs" "off \<le> length (d_out s)" "length (d_out s) + n \<le> d_cap E"
  shows "x_match v E (unat b) s =
      x_match_done v E (s\<lparr>d_ip := d_ip s + length bs, d_out := lz_copy off n (d_out s)\<rparr>)"
    and "patchable (emit_match v n off)" and "16 \<le> unat b"
proof -
  consider (m2) "n \<le> M2_MAX_LEN v" "off \<le> M2_MAX_OFFSET v" "emit_match v n off = emit_m2 v n off"
    | (m3) "off \<le> 0x4000" "emit_match v n off = emit_m3 n off"
    | (m4) "0x4000 < off" "emit_match v n off = emit_m4 n off"
    by (metis emit_match_def M3_MAX_OFFSET_def not_le)
  then have "x_match v E (unat b) s =
      x_match_done v E (s\<lparr>d_ip := d_ip s + length bs, d_out := lz_copy off n (d_out s)\<rparr>)
    \<and> patchable (emit_match v n off) \<and> 16 \<le> unat b"
  proof cases
    case m2
    with decode_m2 [OF v n(1) m2(1) off(1) m2(2) _ code(2) buf] code(1) show ?thesis by simp
  next
    case m3
    with decode_m3 [OF v n off(1) m3(1) _ code(2) buf] code(1) show ?thesis by simp
  next
    case m4
    with decode_m4 [OF v n m4(1) off(2) _ code(2) buf] code(1) show ?thesis by simp
  qed
  then show "x_match v E (unat b) s =
      x_match_done v E (s\<lparr>d_ip := d_ip s + length bs, d_out := lz_copy off n (d_out s)\<rparr>)"
    "patchable (emit_match v n off)" "16 \<le> unat b"
    by auto
qed

section \<open>The invariant of the compressor's output\<close>

definition x_prefix :: "lzo_variant \<Rightarrow> byte list \<Rightarrow> byte list \<Rightarrow> bool" where
  "x_prefix v op pre \<longleftrightarrow>
     (if op = [] then pre = []
      else patchable op \<and>
        (\<forall>r E. r < 4 \<longrightarrow> at (d_in E) 0 (patched op r) \<longrightarrow> length op + 3 \<le> length (d_in E) \<longrightarrow>
           length pre \<le> d_cap E \<longrightarrow>
           x_goto v E (x_entry E) = x_goto v E (x_match_done v E (dst (length op) pre))))"

lemma unat_or_low:
  assumes "unat (b :: byte) mod 4 = 0" "r < 4"
  shows "unat (b OR LZO_BYTE r) mod 4 = r"
  using byte_or_low [OF assms] assms by simp presburger

lemma match_done_patched:
  assumes "v \<noteq> LZO1Z" "patchable op" "r < 4" "at (d_in E) 0 (patched op r)" "d_ip s = length op"
  shows "x_match_done v E s = (if r = 0 then Run LiteralRun s else Run (MatchNext r) s)"
proof -
  have len: "2 \<le> length op" "length op \<le> length (d_in E)"
    using assms(2) at_bound [OF assms(4)] by (simp_all add: patchable_def)
  have "d_in E ! (length op - 2) = patched op r ! (length op - 2)"
    using at_nth [OF assms(4), of "length op - 2"] len by simp
  also have "\<dots> = op ! (length op - 2) OR LZO_BYTE r"
    using len by (simp add: patched_def)
  finally have "unat (d_in E ! (length op - 2)) AND 3 = r"
    using assms(2,3) by (simp add: bits unat_or_low patchable_def)
  moreover have "\<not> length (d_in E) \<le> length op - 2"
    using len by linarith
  ultimately show ?thesis
    using assms(1,5) len by (simp add: x_match_done_def Let_def)
qed

lemma decode_literal_run:
  assumes t: "length ls = t" "4 \<le> t" "t + 1000 \<le> LZO_UINT_RANGE" and b: "16 \<le> unat b"
    and buf: "at (d_in E) (d_ip s) (run_code t @ ls @ [b])"
      "d_ip s + length (run_code t) + t + 3 \<le> length (d_in E)" "length (d_out s) + t \<le> d_cap E"
  shows "x_goto v E (x_literal_run E s) = x_goto v E (x_match v E (unat b)
    (s\<lparr>d_ip := d_ip s + length (run_code t) + t + 1, d_out := d_out s @ ls\<rparr>))"
proof -
  let ?s = "s\<lparr>d_ip := d_ip s + length (run_code t)\<rparr>"
  let ?s' = "?s\<lparr>d_ip := d_ip ?s + t, d_out := d_out s @ ls\<rparr>"
  have at: "at (d_in E) (d_ip s) (run_code t)" "at (d_in E) (d_ip ?s) ls" "at (d_in E) (d_ip ?s') [b]"
    using buf(1) t(1) by (simp_all add: at_append add.assoc)
  have u: "uadd (t - 3) 3 = t" "uadd (t - 3) 6 = t + 3" "3 + (t - 3) = t"
    using t by simp_all
  have "x_copy_literals E (t - 3) ?s = copy_lits E 3 ?s (\<lambda>s. copy_lits E (t - 3) s (Run FirstLiteralRun))"
    using t buf unfolding x_copy_literals_def do_copy_lits_def by (simp add: passes u)
  also have "\<dots> = Run FirstLiteralRun ?s'"
    using copy_lits_at [OF at(2)] buf(3) t(1) unfolding copy_lits_add [symmetric] u(3)
    by simp
  finally have copy: "x_copy_literals E (t - 3) ?s = Run FirstLiteralRun ?s'" .
  have "x_literal_run E s = Run FirstLiteralRun ?s'"
  proof (cases "t \<le> 18")
    case True
    then have code: "run_code t = [LZO_BYTE (t - 3)]"
      by (simp add: run_code_def)
    have "\<not> 16 \<le> t - 3" "t - 3 \<noteq> 0" "t - 3 < 256"
      using True t(2) by simp_all
    then have "x_literal_run E s = x_copy_literals E (t - 3) ?s"
      using at(1) buf(2) unfolding x_literal_run_def code
      by (simp add: passes next_ip_at)
    then show ?thesis
      by (simp only: copy)
  next
    case False
    then have code: "run_code t = 0 # long_run (t - 18)"
      by (simp add: run_code_def)
    let ?s1 = "s\<lparr>d_ip := d_ip s + 1\<rparr>"
    have at1: "at (d_in E) (d_ip ?s1) (long_run (t - 18))"
      using at(1) by (simp add: code at_Cons)
    have z: "zero_run E True 15 0 ?s1 (x_copy_literals E) =
        x_copy_literals E (0 + (15 + (t - 18))) (?s1\<lparr>d_ip := d_ip ?s1 + length (long_run (t - 18))\<rparr>)"
      using False t(3) by (intro zero_run_long [OF at1]) simp_all
    have "0 + (15 + (t - 18)) = t - 3"
      using False by simp
    with z have "zero_run E True 15 0 ?s1 (x_copy_literals E) = x_copy_literals E (t - 3) ?s"
      by (simp add: code)
    then have "x_literal_run E s = x_copy_literals E (t - 3) ?s"
      using at(1) buf(2) unfolding x_literal_run_def code
      by (simp add: passes next_ip_at)
    then show ?thesis
      by (simp only: copy)
  qed
  moreover have "x_first_literal_run v E ?s' = Run (MatchL (unat b)) (?s'\<lparr>d_ip := d_ip ?s' + 1\<rparr>)"
    using b unfolding x_first_literal_run_def next_ip_at [OF at(3)] by simp
  ultimately show ?thesis
    by (cases s) (simp add: x_run_step)
qed

lemma decode_match_next:
  assumes t: "length ls = t" "0 < t" "t < 4"
    and buf: "at (d_in E) (d_ip s) (ls @ [b])" "d_ip s + t + 3 \<le> length (d_in E)"
      "length (d_out s) + t \<le> d_cap E"
  shows "x_match_next E t s = Run (MatchL (unat b)) (s\<lparr>d_ip := d_ip s + t + 1, d_out := d_out s @ ls\<rparr>)"
proof -
  obtain x y z where "ls = [x] \<or> ls = [x, y] \<or> ls = [x, y, z]"
    using t by (auto simp: less_Suc_eq numeral_eq_Suc length_Suc_conv)
  with t buf show ?thesis
    unfolding x_match_next_def
    by (cases s) (auto simp: passes next_ip_def peek_ip_def put_op_pass at_Cons)
qed

lemma emit_literals_cases:
  assumes "emit_literals src ii t op = Some op1"
  obtains (none) "t = 0" "op1 = op"
    | (few) "0 < t" "t \<le> 3" "2 \<le> length op" "ii + t \<le> length src" "op1 = patched op t @ slice t src ii"
    | (run) "4 \<le> t" "ii + t \<le> length src" "op1 = op @ run_code t @ slice t src ii"
  using assms
  by (auto simp: emit_literals_def patch_op_def patched_def slice_def load_Some
      split: if_splits bind_splits)

lemma run_code_head: "run_code t = c # cs \<Longrightarrow> unat c \<le> 15"
  by (auto simp: run_code_def split: if_splits)

lemma run_code_nonempty: "\<exists>c cs. run_code t = c # cs"
  by (simp add: run_code_def)

lemma decode_literals:
  assumes v: "v \<noteq> LZO1Z" and pre: "x_prefix v op pre" and t: "op = [] \<Longrightarrow> 4 \<le> t" "t + 1000 \<le> LZO_UINT_RANGE"
    and emit: "emit_literals src ii t op = Some op1" and b: "16 \<le> unat b"
    and buf: "at (d_in E) 0 (op1 @ [b])" "length op1 + 3 \<le> length (d_in E)" "length pre + t \<le> d_cap E"
  shows "x_goto v E (x_entry E) =
    x_goto v E (x_match v E (unat b) (dst (length op1 + 1) (pre @ slice t src ii)))"
proof -
  have arrive: "x_goto v E (x_entry E) =
      x_goto v E (if r = 0 then Run LiteralRun (dst (length op) pre) else Run (MatchNext r) (dst (length op) pre))"
    if "r < 4" "at (d_in E) 0 (patched op r)" "op \<noteq> []" "length op \<le> length op1" for r
  proof -
    have "patchable op" "x_goto v E (x_entry E) = x_goto v E (x_match_done v E (dst (length op) pre))"
      using pre that buf by (auto simp: x_prefix_def)
    then show ?thesis
      using match_done_patched [OF v _ that(1,2), of "dst (length op) pre"] by simp
  qed
  from emit show ?thesis
  proof (cases rule: emit_literals_cases)
    case none
    with t(1) have op: "op \<noteq> []" by auto
    have at: "at (d_in E) 0 (patched op 0)" "at (d_in E) (length op) [b]"
      using buf(1) none by (simp_all add: at_append)
    have "x_literal_run E (dst (length op) pre) = Run (MatchL (unat b)) (dst (length op + 1) pre)"
      unfolding x_literal_run_def using b buf(2) at(2) none
      by (simp add: passes next_ip_at)
    then show ?thesis
      using arrive [OF _ at(1) op] none by (simp add: x_run_step slice_def)
  next
    case few
    then have op: "op \<noteq> []" by auto
    have ls: "length (slice t src ii) = t"
      using few by (simp add: slice_def)
    have at: "at (d_in E) 0 (patched op t)" "at (d_in E) (length op) (slice t src ii @ [b])"
      using buf(1) few by (simp_all add: at_append)
    have "x_match_next E t (dst (length op) pre) =
        Run (MatchL (unat b)) (dst (length op + t + 1) (pre @ slice t src ii))"
      using ls few at(2) buf by (subst decode_match_next) simp_all
    then show ?thesis
      using arrive [OF _ at(1) op] few ls by (simp add: x_run_step)
  next
    case run
    have ls: "length (slice t src ii) = t"
      using run by (simp add: slice_def)
    have at: "at (d_in E) 0 op" "at (d_in E) (length op) (run_code t @ slice t src ii @ [b])"
      using buf(1) run by (simp_all add: at_append add.assoc)
    have "x_goto v E (x_entry E) = x_goto v E (x_literal_run E (dst (length op) pre))"
    proof (cases "op = []")
      case True
      obtain c cs where c: "run_code t = c # cs" "unat c \<le> 15"
        using run_code_nonempty [of t] run_code_head by blast
      have "x_entry E = Run LiteralRun (dst 0 [])"
        using at(2) c(2) buf(2) unfolding x_entry_def
        by (simp add: True c(1) at_Cons passes peek_ip_def)
      then show ?thesis
        using pre True by (simp add: x_prefix_def x_run_step)
    next
      case False
      then show ?thesis
        using arrive [of 0] at(1) run by (simp add: x_run_step)
    qed
    also have "\<dots> = x_goto v E (x_match v E (unat b) (dst (length op1 + 1) (pre @ slice t src ii)))"
      using decode_literal_run [OF ls run(1) t(2) b, of E "dst (length op) pre"] at(2) buf run ls
      by (simp add: add.assoc)
    finally show ?thesis .
  qed
qed

lemma emit_match_code:
  assumes "v \<noteq> LZO1Z" "4 \<le> n" "n + 1000 \<le> LZO_UINT_RANGE" "0 < off" "off \<le> 0xbfff" "r < 4"
  obtains b bs where "patched (emit_match v n off) r = b # bs" "16 \<le> unat b"
    "patchable (emit_match v n off)"
proof -
  have "length (emit_match v n off) \<noteq> 0"
    using assms(1) by (cases v) (simp_all add: emit_match_def emit_m2_def emit_m3_def emit_m4_def Let_def offset_code_def)
  then obtain b bs where code: "patched (emit_match v n off) r = b # bs"
    by (metis length_0_conv length_patched neq_Nil_conv)
  let ?E = "\<lparr>d_in = bs, d_cap = off + n, d_test_ip = True, d_test_op = True, d_test_lb = True, d_debug = False\<rparr>"
  have "at (d_in ?E) (d_ip (dst 0 (replicate off 0))) bs"
    by (simp add: at_def)
  with decode_match [OF assms(1-5) code assms(6), of ?E "dst 0 (replicate off 0)"] code show thesis
    by (intro that) simp_all
qed

lemma prefix_match:
  assumes v: "v \<noteq> LZO1Z" and pre: "x_prefix v op pre" and t: "op = [] \<Longrightarrow> 4 \<le> t" "t + 1000 \<le> LZO_UINT_RANGE"
    and emit: "emit_literals src ii t op = Some op1"
    and n: "4 \<le> n" "n + 1000 \<le> LZO_UINT_RANGE"
    and off: "0 < off" "off \<le> 0xbfff" "off \<le> length pre + t"
    and ii: "ii + t \<le> length src"
  shows "x_prefix v (op1 @ emit_match v n off) (lz_copy off n (pre @ slice t src ii))"
proof -
  let ?code = "emit_match v n off"
  have ok: "patchable ?code"
    by (rule emit_match_code [OF v n off(1,2), of 0]) simp_all
  then have 2: "2 \<le> length ?code"
    by (simp add: patchable_def)
  have ls: "length (slice t src ii) = t"
    using ii by (simp add: slice_def)
  have "x_goto v E (x_entry E) = x_goto v E (x_match_done v E
      (dst (length (op1 @ ?code)) (lz_copy off n (pre @ slice t src ii))))"
    if r: "r < 4" and at: "at (d_in E) 0 (patched (op1 @ ?code) r)"
      and len: "length (op1 @ ?code) + 3 \<le> length (d_in E)"
      and cap: "length (lz_copy off n (pre @ slice t src ii)) \<le> d_cap E" for r E
  proof -
    obtain b bs where code: "patched ?code r = b # bs" "16 \<le> unat b"
      by (rule emit_match_code [OF v n off(1,2) r])
    have lbs: "length ?code = Suc (length bs)"
      using arg_cong [OF code(1), of length] by simp
    have at': "at (d_in E) 0 (op1 @ [b])" "at (d_in E) (length op1 + 1) bs"
      using at 2 code(1) at_append [of "d_in E" 0 "op1 @ [b]" bs] by (simp_all add: patched_append)
    have "x_goto v E (x_entry E) =
        x_goto v E (x_match v E (unat b) (dst (length op1 + 1) (pre @ slice t src ii)))"
      using len cap ls by (intro decode_literals [OF v pre t emit code(2) at'(1)]) simp_all
    also have "x_match v E (unat b) (dst (length op1 + 1) (pre @ slice t src ii)) =
        x_match_done v E (dst (length (op1 @ ?code)) (lz_copy off n (pre @ slice t src ii)))"
      using decode_match(1) [OF v n off(1,2) code(1) r, of E "dst (length op1 + 1) (pre @ slice t src ii)"]
        at'(2) off(3) cap ls lbs by simp
    finally show ?thesis .
  qed
  then show ?thesis
    using ok 2 by (auto simp: x_prefix_def patchable_append)
qed

section \<open>The end of the stream\<close>

definition end_code :: "byte list" where
  "end_code = [LZO_BYTE (M4_MARKER OR 1), 0, 0]"

lemma end_code_eq: "end_code = [17, 0, 0]"
  by (simp add: end_code_def M4_MARKER_def LZO_BYTE_def)

definition finished :: "dec_env \<Rightarrow> nat \<Rightarrow> lzo_status" where
  "finished E n = (if length (d_in E) = n then LZO_E_OK else LZO_E_INPUT_NOT_CONSUMED)"

lemma decode_end:
  assumes "v \<noteq> LZO1Z" "at (d_in E) (d_ip s) [0, 0]"
  shows "x_match v E 17 s = Return (finished E (d_ip s + 2)) (d_out s)"
  using assms at_bound [OF assms(2)]
  by (auto simp: x_match_def x_match_m4_def x_m4_offset_def bits Let_def at_Cons peek_ip_def
      x_eof_found_def finished_def)

lemma decode_first_literals:
  assumes t: "0 < t" "t \<le> 238" "length ls = t"
    and buf: "at (d_in E) 0 (LZO_BYTE (17 + t) # ls @ [b])" "t + 4 \<le> length (d_in E)" "t \<le> d_cap E"
    and b: "16 \<le> unat b"
  shows "x_goto v E (x_entry E) = x_goto v E (x_match v E (unat b) (dst (t + 2) ls))"
proof -
  let ?s = "dst 1 []"
  have at0: "at (d_in E) 0 (LZO_BYTE (17 + t) # ls @ [b])" and at: "at (d_in E) 1 (ls @ [b])"
    using buf(1) by (simp_all add: at_Cons)
  have at2: "at (d_in E) (t + 1) [b]"
    using at t(3) by (simp add: at_append add.commute)
  have u: "unat (LZO_BYTE (17 + t)) = 17 + t"
    using t(2) by simp
  have entry: "x_entry E = (if t < 4 then Run (MatchNext t) ?s
      else do_copy_lits E t ?s (Run FirstLiteralRun))"
    using t buf(2,3) at0 u unfolding x_entry_def Let_def
    by (simp add: peek_ip_def next_ip_def at_Cons passes)
  show ?thesis
  proof (cases "t < 4")
    case True
    then have "x_match_next E t ?s = Run (MatchL (unat b)) (dst (t + 2) ls)"
      using t at buf(2,3) by (subst decode_match_next [of ls]) simp_all
    with True show ?thesis
      by (simp add: entry x_run_step)
  next
    case False
    have "do_copy_lits E t ?s (Run FirstLiteralRun) = Run FirstLiteralRun (dst (t + 1) ls)"
      using copy_lits_at [of E ?s ls] at t buf(3) by (simp add: do_copy_lits_def at_append)
    moreover have "x_first_literal_run v E (dst (t + 1) ls) = Run (MatchL (unat b)) (dst (t + 2) ls)"
      using b at2 by (simp add: x_first_literal_run_def next_ip_at)
    ultimately show ?thesis
      using False by (simp add: entry x_run_step)
  qed
qed

lemma c_finish_emit:
  assumes "op \<noteq> [] \<or> t = 0 \<or> 238 < t" "t \<le> length src"
  shows "c_finish src op t = map_option (\<lambda>op. op @ end_code) (emit_literals src (length src - t) t op)"
  using assms
  by (auto simp: c_finish_def emit_literals_def end_code_def map_option_case split: bind_splits option.splits)

lemma decode_finish:
  assumes v: "v \<noteq> LZO1Z" and pre: "x_prefix v op (take (length src - t) src)"
    and t: "t \<le> length src" "length src + 1000 \<le> LZO_UINT_RANGE"
  obtains out where "c_finish src op t = Some out"
    "\<And>E. at (d_in E) 0 out \<Longrightarrow> length src \<le> d_cap E \<Longrightarrow>
       x_goto v E (x_entry E) = Some (finished E (length out), src)"
proof -
  let ?ii = "length src - t"
  have src: "take ?ii src @ slice t src ?ii = src" "length (take ?ii src) + t = length src"
    using t(1) by (simp_all add: slice_def)
  have u17: "unat (17 :: byte) = 17" by simp
  consider (first) "op = []" "0 < t" "t \<le> 238" | (empty) "op = []" "t = 0"
    | (more) "op \<noteq> [] \<or> 238 < t" by force
  then show thesis
  proof cases
    case first
    then have "?ii = 0"
      using pre by (auto simp: x_prefix_def)
    then have n: "t = length src" "slice t src ?ii = src"
      using t(1) src by (simp_all add: slice_def)
    show thesis
    proof (rule that)
      show "c_finish src op t = Some (LZO_BYTE (17 + t) # src @ end_code)"
        using first n by (simp add: c_finish_def load_def end_code_def)
      fix E :: dec_env
      assume E: "at (d_in E) 0 (LZO_BYTE (17 + t) # src @ end_code)" "length src \<le> d_cap E"
      have "x_goto v E (x_entry E) = x_goto v E (x_match v E (unat (17 :: byte)) (dst (t + 2) src))"
        using first n E at_bound [OF E(1)]
        by (intro decode_first_literals) (simp_all add: end_code_eq at_Cons at_append)
      moreover have "at (d_in E) (t + 2) [0, 0]"
        using E(1) n by (simp add: end_code_eq at_Cons at_append)
      ultimately show "x_goto v E (x_entry E) =
          Some (finished E (length (LZO_BYTE (17 + t) # src @ end_code)), src)"
        using v n by (simp add: decode_end end_code_eq)
    qed
  next
    case empty
    then have n: "src = []"
      using pre t(1) by (simp add: x_prefix_def)
    show thesis
    proof (rule that)
      show "c_finish src op t = Some end_code"
        using empty by (simp add: c_finish_def end_code_def)
      fix E :: dec_env
      assume E: "at (d_in E) 0 end_code" "length src \<le> d_cap E"
      then have "x_entry E = Run LiteralRun (dst 0 [])"
        "x_literal_run E (dst 0 []) = Run (MatchL 17) (dst 1 [])"
        using at_bound [OF E(1)] unfolding x_entry_def x_literal_run_def
        by (simp_all add: passes end_code_eq at_Cons next_ip_def peek_ip_def)
      moreover have "x_match v E 17 (dst 1 []) = Return (finished E (Suc (Suc (Suc 0)))) []"
        using decode_end [of v E "dst 1 []"] v E(1) by (simp add: end_code_eq at_Cons)
      ultimately show "x_goto v E (x_entry E) = Some (finished E (length end_code), src)"
        using n by (simp add: x_run_step end_code_eq)
    qed
  next
    case more
    have "\<exists>op1. emit_literals src ?ii t op = Some op1"
      using pre t(1) more by (auto simp: emit_literals_def load_def patch_op_def x_prefix_def patchable_def)
    then obtain op1 where op1: "emit_literals src ?ii t op = Some op1" ..
    show thesis
    proof (rule that)
      show "c_finish src op t = Some (op1 @ end_code)"
        using more t(1) by (subst c_finish_emit) (auto simp: op1)
      fix E :: dec_env
      assume E: "at (d_in E) 0 (op1 @ end_code)" "length src \<le> d_cap E"
      have "x_goto v E (x_entry E) =
          x_goto v E (x_match v E (unat (17 :: byte)) (dst (length op1 + 1) (take ?ii src @ slice t src ?ii)))"
        using more t src E at_bound [OF E(1)]
        by (intro decode_literals [OF v pre _ _ op1])
          (auto simp: end_code_eq at_append at_Cons)
      moreover have "at (d_in E) (length op1 + 1) [0, 0]"
        using E(1) by (simp add: end_code_eq at_Cons at_append)
      ultimately show "x_goto v E (x_entry E) = Some (finished E (length (op1 @ end_code)), src)"
        using v src(1) by (simp add: decode_end end_code_eq)
    qed
  qed
qed

section \<open>The size of the codes\<close>

lemma length_long_run: "length (long_run n) \<le> n div 255 + 1"
proof (induction n rule: long_run.induct)
  case (1 n)
  then show ?case
    by (subst long_run.simps) (auto simp: le_div_geq)
qed

lemma long_run_mult: "255 * length (long_run n) \<le> n + 255"
proof -
  have "255 * (n div 255) \<le> n" by simp
  then show ?thesis
    using length_long_run [of n] by linarith
qed

lemma length_run_code: "4 \<le> t \<Longrightarrow> 16 * length (run_code t) \<le> t + 16"
proof (cases "t \<le> 18")
  case False
  have 1: "255 * length (long_run (t - 18)) \<le> t - 18 + 255"
    by (rule long_run_mult)
  show ?thesis
  proof (cases "t - 18 \<le> 255")
    case True
    then have "length (long_run (t - 18)) = 1"
      by (subst long_run.simps) simp
    with False show ?thesis by (simp add: run_code_def)
  next
    case big: False
    with 1 False show ?thesis by (simp add: run_code_def)
  qed
qed (simp add: run_code_def)

lemma length_emit_match: "4 \<le> n \<Longrightarrow> length (emit_match v n off) < n"
proof -
  assume n: "4 \<le> n"
  have "length (emit_m2 v n off) < n"
    using n by (cases v) (simp_all add: emit_m2_def Let_def)
  moreover have "length (emit_m3 n off) < n"
    using n long_run_mult [of "n - 33"] by (auto simp: emit_m3_def Let_def offset_code_def x_consts)
  moreover have "length (emit_m4 n off) < n"
    using n long_run_mult [of "n - 9"] by (auto simp: emit_m4_def Let_def offset_code_def x_consts)
  ultimately show ?thesis
    by (simp add: emit_match_def)
qed

lemma length_emit_literals:
  assumes "emit_literals src ii t op = Some op1"
  shows "16 * length op1 \<le> 16 * length op + 17 * t + 16"
  using assms by (cases rule: emit_literals_cases) (use length_run_code [of t] in \<open>auto simp: slice_def\<close>)

section \<open>The search keeps the dictionary inside the block\<close>

lemma get_le32_chunk: "p + 4 \<le> length src \<Longrightarrow> get_le32 src p = Some (get_le (chunk 4 src p))"
  by (simp add: get_le32_def load_def chunk_def)

lemma get_le32_chunk_eq:
  "p + 4 \<le> length src \<Longrightarrow> q + 4 \<le> length src \<Longrightarrow>
     get_le32 src p = get_le32 src q \<longleftrightarrow> chunk 4 src p = chunk 4 src q"
  by (simp add: get_le32_chunk get_le_inject)

lemma c_next_ok:
  assumes "\<And>i. bs + unat (dict i) < ip" "ip_end \<le> bs + 65536" "ip_end + 20 \<le> length src"
  obtains (stop) "c_next src bs ip_end ii ip dict = Some None"
    | (found) ip' m_pos dict' where "c_next src bs ip_end ii ip dict = Some (Some (ip', m_pos, dict'))"
        "ip \<le> ip'" "ip' < ip_end" "bs \<le> m_pos" "m_pos < ip'" "chunk 4 src ip' = chunk 4 src m_pos"
        "\<And>i. bs + unat (dict' i) \<le> ip'"
  using assms
proof (induction "ip_end - ip" arbitrary: ip dict thesis rule: less_induct)
  case less
  show ?case
  proof (cases "ip \<ge> ip_end")
    case True
    then show ?thesis
      by (intro less.prems(1)) (subst c_next.simps, simp)
  next
    case False
    define g where "g = (get_le (chunk 4 src ip) :: u32)"
    define di where "di = DINDEX g"
    define m_pos where "m_pos = bs + unat (dict di)"
    define dict' where "dict' = dict(di := of_nat (ip - bs))"
    have m: "m_pos < ip" "bs \<le> m_pos" "bs < ip"
      using less.prems(3) [of di] by (simp_all add: m_pos_def)
    have "unat (of_nat (ip - bs) :: u16) = ip - bs"
      using False less.prems(4) m(3) by (simp add: unat_of_nat del: of_nat_diff)
    then have dict': "bs + unat (dict' i) \<le> ip" for i
      using less.prems(3) [of i] m(3) by (simp add: dict'_def)
    have nxt: "c_next src bs ip_end ii ip dict =
        (if chunk 4 src ip \<noteq> chunk 4 src m_pos
         then c_next src bs ip_end ii (ip + 1 + drop_bit 5 (ip - ii)) dict'
         else Some (Some (ip, m_pos, dict')))"
    proof -
      have "get_le32 src ip = Some g" "get_le32 src m_pos = Some (get_le (chunk 4 src m_pos))"
        "g = get_le (chunk 4 src m_pos) \<longleftrightarrow> chunk 4 src ip = chunk 4 src m_pos"
        using False less.prems(5) m(1) by (simp_all add: get_le32_chunk get_le_inject g_def)
      then show ?thesis
        using False by (subst c_next.simps) (simp add: Let_def flip: di_def m_pos_def dict'_def)
    qed
    show ?thesis
    proof (cases "chunk 4 src ip = chunk 4 src m_pos")
      case True
      then show ?thesis
        using nxt dict' m False by (intro less.prems(2) [of ip m_pos dict']) auto
    next
      case ne: False
      let ?ip = "ip + 1 + drop_bit 5 (ip - ii)"
      show ?thesis
      proof (rule less.hyps [of ?ip dict'])
        show "ip_end - ?ip < ip_end - ip" using False by simp
        show "bs + unat (dict' i) < ?ip" for i
          using dict' [of i] by simp
      next
        fix ip' m_pos' dict''
        assume "c_next src bs ip_end ii ?ip dict' = Some (Some (ip', m_pos', dict''))" "?ip \<le> ip'"
          "ip' < ip_end" "bs \<le> m_pos'" "m_pos' < ip'" "chunk 4 src ip' = chunk 4 src m_pos'"
          "\<And>i. bs + unat (dict'' i) \<le> ip'"
        then show ?thesis
          using nxt ne by (intro less.prems(2) [of ip' m_pos' dict'']) auto
      qed (use nxt ne less.prems in auto)
    qed
  qed
qed

section \<open>The compressor keeps the invariant\<close>

text \<open>\<open>op\<close> encodes the first \<open>i\<close> bytes of the source, with at most one extra byte in sixteen\<close>

definition c_inv :: "lzo_variant \<Rightarrow> byte list \<Rightarrow> byte list \<Rightarrow> nat \<Rightarrow> bool" where
  "c_inv v src op i \<longleftrightarrow>
     x_prefix v op (take i src) \<and> i \<le> length src \<and> 16 * length op \<le> 17 * i"

lemma c_inv_match:
  assumes v: "v \<noteq> LZO1Z" and len: "length src + 2000 \<le> LZO_UINT_RANGE"
    and inv: "c_inv v src op i" "i \<le> ip" "op = [] \<Longrightarrow> i + 4 \<le> ip"
    and m: "m_pos < ip" "ip \<le> m_pos + 0xbfff" "4 \<le> n" "ip + n \<le> length src"
    and copy: "lz_copy (ip - m_pos) n (take ip src) = take (ip + n) src"
  obtains op1 where "emit_literals src i (ip - i) op = Some op1"
    "c_inv v src (op1 @ emit_match v n (ip - m_pos)) (ip + n)"
proof -
  have "\<exists>op1. emit_literals src i (ip - i) op = Some op1"
    using inv m
    by (auto simp: emit_literals_def load_def patch_op_def c_inv_def x_prefix_def patchable_def
        split: if_splits)
  then obtain op1 where op1: "emit_literals src i (ip - i) op = Some op1" ..
  have src: "take i src @ slice (ip - i) src i = take ip src"
    using take_add [of i "ip - i" src] inv(2) by (simp add: slice_def)
  have "x_prefix v (op1 @ emit_match v n (ip - m_pos)) (lz_copy (ip - m_pos) n (take i src @ slice (ip - i) src i))"
    using v inv op1 m len by (intro prefix_match) (auto simp: c_inv_def)
  then have "x_prefix v (op1 @ emit_match v n (ip - m_pos)) (take (ip + n) src)"
    unfolding src copy .
  moreover have "16 * length (op1 @ emit_match v n (ip - m_pos)) \<le> 17 * (ip + n)"
  proof -
    have "16 * length op \<le> 17 * i" "i + (ip - i) = ip"
      using inv by (simp_all add: c_inv_def)
    moreover define e where "e = length (emit_match v n (ip - m_pos))"
    moreover define d where "d = ip - i"
    ultimately show ?thesis
      using length_emit_literals [OF op1] length_emit_match [OF m(3), of v "ip - m_pos"]
      by simp
  qed
  ultimately show thesis
    using m(4) by (intro that [OF op1]) (simp add: c_inv_def)
qed

lemma c_loop_ok:
  assumes v: "v \<noteq> LZO1Z" and len: "length src + 2000 \<le> LZO_UINT_RANGE"
    and "c_inv v src op (ii - ti)" "ti \<le> ii" "ii \<le> ip" "op = [] \<Longrightarrow> ii - ti + 4 \<le> ip"
    and "\<And>i. bs + unat (dict i) < ip"
    and blk: "ip_end + 20 \<le> length src" "ip_end + 20 \<le> bs + 49152"
    and "ii \<le> ip_end + 20"
  obtains op' i where "c_loop c v src bs ip_end ip ii op ti dict = Some (op', i)"
    "c_inv v src op' i" "i \<le> ip_end + 20"
  using assms(3-7,10)
proof (induction "ip_end - ip" arbitrary: ip ii op ti dict thesis rule: less_induct)
  case less
  show ?case
  proof (rule c_next_ok [of bs dict ip ip_end src ii, OF less.prems(6) _ blk(1)])
    assume "c_next src bs ip_end ii ip dict = Some None"
    then have "c_loop c v src bs ip_end ip ii op ti dict = Some (op, ii - ti)"
      by (subst c_loop.simps) simp
    then show ?thesis
      using less.prems(2,7) by (intro less.prems(1) [of op "ii - ti"]) auto
  next
    fix ip' m_pos dict'
    assume nx: "c_next src bs ip_end ii ip dict = Some (Some (ip', m_pos, dict'))"
      and m: "ip \<le> ip'" "ip' < ip_end" "bs \<le> m_pos" "m_pos < ip'" "chunk 4 src ip' = chunk 4 src m_pos"
        "\<And>i. bs + unat (dict' i) \<le> ip'"
    obtain n where n: "match_len c src ip' m_pos ip_end = Some n" "4 \<le> n" "ip' + n \<le> ip_end + 20"
      "lz_copy (ip' - m_pos) n (take ip' src) = take (ip' + n) src"
      using extension.extend_copies [OF m(4,2) blk(1) m(5)] by blast
    obtain op1 where op1: "emit_literals src (ii - ti) (ip' - (ii - ti)) op = Some op1"
      "c_inv v src (op1 @ emit_match v n (ip' - m_pos)) (ip' + n)"
    proof (rule c_inv_match [OF v len less.prems(2) _ _ m(4) _ n(2) _ n(4)])
      show "op = [] \<Longrightarrow> ii - ti + 4 \<le> ip'" using less.prems(5) m(1) by simp
    qed (use less.prems(3,4) m n blk in auto)
    have step: "c_loop c v src bs ip_end ip ii op ti dict =
        c_loop c v src bs ip_end (ip' + n) (ip' + n) (op1 @ emit_match v n (ip' - m_pos)) 0 dict'"
      by (subst c_loop.simps) (simp add: nx op1 n)
    have ne: "op1 @ emit_match v n (ip' - m_pos) \<noteq> []"
      using op1(2) m n(2) blk by (auto simp: c_inv_def x_prefix_def)
    show ?thesis
    proof (rule less.hyps [of "ip' + n" "ip' + n" "op1 @ emit_match v n (ip' - m_pos)" 0 dict'])
      show "ip_end - (ip' + n) < ip_end - ip" using m n by simp
      show "bs + unat (dict' i) < ip' + n" for i using m(6) [of i] n(2) by simp
    qed (use less.prems(1) op1(2) n ne step in auto)
  qed (use blk in simp)
qed

lemma do_compress_ok:
  assumes v: "v \<noteq> LZO1Z" and len: "length src + 2000 \<le> LZO_UINT_RANGE"
    and inv: "c_inv v src op (bs - ti)" "ti \<le> bs"
    and blk: "20 < n" "n \<le> 49152" "bs + n \<le> length src"
  obtains op' t where "do_compress c v src bs n op ti (\<lambda>_. 0) = Some (op', t)"
    "t \<le> bs + n" "c_inv v src op' (bs + n - t)"
proof -
  let ?ip = "bs + (if ti < 4 then 4 - ti else 0)"
  let ?ip1 = "?ip + 1 + drop_bit 5 (?ip - bs)"
  obtain op' i where r: "c_loop c v src bs (bs + n - 20) ?ip1 bs op ti (\<lambda>_. 0) = Some (op', i)"
    "c_inv v src op' i" "i \<le> bs + n"
    by (rule c_loop_ok [OF v len inv, of ?ip1 bs "\<lambda>_. 0" "bs + n - 20"]) (use inv blk in auto)
  show thesis
    using r by (intro that [of op' "bs + n - i"]) (simp_all add: do_compress_def Let_def)
qed

lemma c_blocks_ok:
  assumes v: "v \<noteq> LZO1Z" and len: "length src + 2000 \<le> LZO_UINT_RANGE"
    and "c_inv v src op (length src - l - t)" "t \<le> length src - l" "l \<le> length src"
  obtains op' t' where "c_blocks c v addr src l op t = Some (op', t')"
    "t' \<le> length src" "c_inv v src op' (length src - t')"
  using assms(3-5)
proof (induction l arbitrary: op t thesis rule: less_induct)
  case (less l)
  define ll where "ll = min l 49152"
  let ?ip = "length src - l"
  have "c_blocks c v addr src l op t = Some (op, t + l) \<or> 20 < l \<and> c_blocks c v addr src l op t =
        (case do_compress c v src ?ip ll op t (\<lambda>_. 0) of None \<Rightarrow> None
         | Some (op, t) \<Rightarrow> c_blocks c v addr src (l - ll) op t)"
    unfolding c_blocks.simps [of c v addr src l op t] by (simp add: Let_def flip: ll_def)
  then consider (stop) "c_blocks c v addr src l op t = Some (op, t + l)"
    | (step) "20 < l" "c_blocks c v addr src l op t =
        (case do_compress c v src ?ip ll op t (\<lambda>_. 0) of None \<Rightarrow> None
         | Some (op, t) \<Rightarrow> c_blocks c v addr src (l - ll) op t)"
    by blast
  then show ?case
  proof cases
    case stop
    moreover have "length src - (t + l) = ?ip - t"
      by simp
    ultimately show ?thesis
      using less.prems(2-4) by (intro less.prems(1) [of op "t + l"]) simp_all
  next
    case step
    then have ll: "20 < ll" "ll \<le> 49152" "ll \<le> l" "?ip + ll = length src - (l - ll)"
      using less.prems(4) by (simp_all add: ll_def)
    obtain op' t' where r: "do_compress c v src ?ip ll op t (\<lambda>_. 0) = Some (op', t')"
      "t' \<le> ?ip + ll" "c_inv v src op' (?ip + ll - t')"
      by (rule do_compress_ok [OF v len less.prems(2,3) ll(1,2)]) (use ll less.prems(4) in auto)
    show ?thesis
    proof (rule less.IH [of "l - ll" op' t'])
      show "l - ll < l" using ll by simp
    qed (use less.prems(1,4) step(2) r ll in simp_all)
  qed
qed

lemma c_finish_length:
  assumes "c_finish src op t = Some out" "t \<le> length src"
  shows "16 * length out \<le> 16 * length op + 17 * t + 64"
proof (cases "op = [] \<and> 0 < t \<and> t \<le> 238")
  case True
  with assms show ?thesis
    by (auto simp: c_finish_def load_def split: if_splits)
next
  case False
  then have "c_finish src op t = map_option (\<lambda>op. op @ end_code) (emit_literals src (length src - t) t op)"
    using assms(2) by (intro c_finish_emit) auto
  with assms(1) show ?thesis
    using length_emit_literals [of src "length src - t" t op] by (auto simp: end_code_def)
qed

lemma x_1_compress_ok:
  assumes v: "v \<noteq> LZO1Z" and len: "length src + 2000 \<le> LZO_UINT_RANGE"
  obtains out where "x_1_compress c v addr src = Some (LZO_E_OK, out)"
    "16 * length out \<le> 17 * length src + 64"
    "\<And>E. at (d_in E) 0 out \<Longrightarrow> length src \<le> d_cap E \<Longrightarrow>
       x_goto v E (x_entry E) = Some (finished E (length out), src)"
proof -
  have "c_inv v src [] (length src - length src - 0)"
    by (simp add: c_inv_def x_prefix_def)
  then obtain op t where b: "c_blocks c v addr src (length src) [] 0 = Some (op, t)"
    "t \<le> length src" "c_inv v src op (length src - t)"
    by (rule c_blocks_ok [OF v len]) simp_all
  then have "x_prefix v op (take (length src - t) src)" "16 * length op \<le> 17 * (length src - t)"
    by (simp_all add: c_inv_def)
  moreover from this(1) obtain out where out: "c_finish src op t = Some out"
    "\<And>E. at (d_in E) 0 out \<Longrightarrow> length src \<le> d_cap E \<Longrightarrow>
       x_goto v E (x_entry E) = Some (finished E (length out), src)"
    by (rule decode_finish [OF v _ b(2)]) (use len in simp_all)
  ultimately show thesis
    using b(1,2) c_finish_length [OF out(1) b(2)]
    by (intro that [OF _ _ out(2)]) (simp_all add: x_1_compress_def)
qed

section \<open>All builds compress alike\<close>

lemma c_loop_build:
  assumes "\<And>i. bs + unat (dict i) < ip" "ip_end + 20 \<le> length src" "ip_end + 20 \<le> bs + 49152"
  shows "c_loop c v src bs ip_end ip ii op ti dict = c_loop c' v src bs ip_end ip ii op ti dict"
  using assms
proof (induction "ip_end - ip" arbitrary: ip ii op ti dict rule: less_induct)
  case less
  show ?case
  proof (rule c_next_ok [of bs dict ip ip_end src ii, OF less.prems(1) _ less.prems(2)])
    assume "c_next src bs ip_end ii ip dict = Some None"
    then show ?thesis
      unfolding c_loop.simps [of _ _ _ _ _ ip] by simp
  next
    fix ip' m_pos dict'
    assume nx: "c_next src bs ip_end ii ip dict = Some (Some (ip', m_pos, dict'))"
      and m: "ip \<le> ip'" "ip' < ip_end" "m_pos < ip'" "\<And>i. bs + unat (dict' i) \<le> ip'"
    let ?n = "ml_spec src ip' m_pos ip_end 4"
    have len: "match_len d src ip' m_pos ip_end = Some ?n" for d
      using m less.prems by (intro match_len_eq) simp_all
    have n: "4 \<le> ?n"
      using ml_spec_bounds [of ip' 4 ip_end src m_pos] m(2) by simp
    have dict': "bs + unat (dict' i) < ip' + ?n" for i
      using m(4) [of i] n by simp
    have "c_loop c v src bs ip_end (ip' + ?n) (ip' + ?n) op' 0 dict' =
        c_loop c' v src bs ip_end (ip' + ?n) (ip' + ?n) op' 0 dict'" for op'
      using m n less.prems dict' by (intro less.hyps) simp_all
    then show ?thesis
      unfolding c_loop.simps [of _ _ _ _ _ ip] nx by (simp add: len split: option.splits)
  qed (use less.prems in simp)
qed

lemma do_compress_build:
  assumes "20 < n" "n \<le> 49152" "bs + n \<le> length src"
  shows "do_compress c v src bs n op ti (\<lambda>_. 0) = do_compress c' v src bs n op ti (\<lambda>_. 0)"
  unfolding do_compress_def Let_def using assms
  by (intro arg_cong [where f = "map_option _"] c_loop_build) auto

lemma c_blocks_build:
  "l \<le> length src \<Longrightarrow> c_blocks c v addr src l op t = c_blocks c' v addr src l op t"
proof (induction l arbitrary: op t rule: less_induct)
  case (less l)
  define ll where "ll = min l 49152"
  show ?case
  proof (cases "20 < l")
    case True
    then have ll: "20 < ll" "ll \<le> 49152" "ll \<le> l"
      by (simp_all add: ll_def)
    have "do_compress c v src (length src - l) ll op t (\<lambda>_. 0) =
        do_compress c' v src (length src - l) ll op t (\<lambda>_. 0)"
      using ll less.prems by (intro do_compress_build) simp_all
    moreover have "c_blocks c v addr src (l - ll) op t = c_blocks c' v addr src (l - ll) op t" for op t
      using ll less.prems by (intro less.IH) simp_all
    ultimately show ?thesis
      unfolding c_blocks.simps [of _ _ _ _ l]
      by (simp add: Let_def split: option.splits flip: ll_def)
  next
    case False
    then show ?thesis
      unfolding c_blocks.simps [of _ _ _ _ l] by simp
  qed
qed

lemma x_1_compress_build: "x_1_compress c v addr src = x_1_compress c' v addr src"
  unfolding x_1_compress_def by (simp only: c_blocks_build [of "length src" src c v addr _ _ c'])

section \<open>The codec contract\<close>

lemma decompress_at:
  assumes "\<And>E. at (d_in E) 0 out \<Longrightarrow> n \<le> d_cap E \<Longrightarrow> x_goto v E (x_entry E) = Some (finished E (length out), src)"
    and "n \<le> cap"
  shows "x_decompress v debug tested (out @ rest) cap =
    Some (if rest = [] then LZO_E_OK else LZO_E_INPUT_NOT_CONSUMED, src)"
  using assms by (simp add: x_decompress_def Let_def finished_def at_def)

lemma x_codec:
  assumes "v \<noteq> LZO1Z" "length src \<le> MAX_OBJECT"
  obtains out where "x_1_compress c v addr src = Some (LZO_E_OK, out)"
    "length out \<le> length src + length src div 16 + 4"
    "\<And>debug tested rest cap. length src \<le> cap \<Longrightarrow>
       x_decompress v debug tested (out @ rest) cap =
         Some (if rest = [] then LZO_E_OK else LZO_E_INPUT_NOT_CONSUMED, src)"
proof -
  have "length src + 2000 \<le> LZO_UINT_RANGE"
    using assms(2) by (simp add: MAX_OBJECT_def LZO_UINT_RANGE_def)
  from x_1_compress_ok [OF assms(1) this] obtain out where
    out: "x_1_compress c v addr src = Some (LZO_E_OK, out)" "16 * length out \<le> 17 * length src + 64"
    "\<And>E. at (d_in E) 0 out \<Longrightarrow> length src \<le> d_cap E \<Longrightarrow>
       x_goto v E (x_entry E) = Some (finished E (length out), src)"
    by metis
  from out(2) have "length out \<le> length src + length src div 16 + 4"
    by linarith
  with out(1) decompress_at [OF out(3)] show thesis
    by (intro that)
qed

interpretation lzo1x: block_codec "lzo1x_1_compress c addr" lzo1x_decompress_safe x_worst MAX_OBJECT
  for c addr
proof
  fix src :: "byte list"
  assume len: "length src \<le> MAX_OBJECT"
  obtain out where out: "x_1_compress c LZO1X addr src = Some (LZO_E_OK, out)"
    "length out \<le> length src + length src div 16 + 4"
    "\<And>debug tested rest cap. length src \<le> cap \<Longrightarrow>
       x_decompress LZO1X debug tested (out @ rest) cap =
         Some (if rest = [] then LZO_E_OK else LZO_E_INPUT_NOT_CONSUMED, src)"
    by (rule x_codec [of LZO1X src, OF _ len]) auto
  show "\<exists>out. lzo1x_1_compress c addr src = Some (LZO_E_OK, out) \<and> length out \<le> x_worst (length src)"
    using out(1,2) by (simp add: lzo1x_1_compress_def x_worst_def)
  fix out' cap
  assume "lzo1x_1_compress c addr src = Some (LZO_E_OK, out')" "length src \<le> cap"
  with out(1) out(3) [of cap False True "[]"] show "lzo1x_decompress_safe out' cap = Some (LZO_E_OK, src)"
    by (simp add: lzo1x_1_compress_def lzo1x_decompress_safe_def)
qed

interpretation lzo1y: block_codec "lzo1y_1_compress c addr" lzo1y_decompress_safe x_worst MAX_OBJECT
  for c addr
proof
  fix src :: "byte list"
  assume len: "length src \<le> MAX_OBJECT"
  obtain out where out: "x_1_compress c LZO1Y addr src = Some (LZO_E_OK, out)"
    "length out \<le> length src + length src div 16 + 4"
    "\<And>debug tested rest cap. length src \<le> cap \<Longrightarrow>
       x_decompress LZO1Y debug tested (out @ rest) cap =
         Some (if rest = [] then LZO_E_OK else LZO_E_INPUT_NOT_CONSUMED, src)"
    by (rule x_codec [of LZO1Y src, OF _ len]) auto
  show "\<exists>out. lzo1y_1_compress c addr src = Some (LZO_E_OK, out) \<and> length out \<le> x_worst (length src)"
    using out(1,2) by (simp add: lzo1y_1_compress_def x_worst_def)
  fix out' cap
  assume "lzo1y_1_compress c addr src = Some (LZO_E_OK, out')" "length src \<le> cap"
  with out(1) out(3) [of cap False True "[]"] show "lzo1y_decompress_safe out' cap = Some (LZO_E_OK, src)"
    by (simp add: lzo1y_1_compress_def lzo1y_decompress_safe_def)
qed

end
