(* ===== verification/LZO_Dict.thy ===== *)
theory LZO_Dict
  imports LZO_Memops
begin

text \<open>
  The dictionary of the fast compressors, \<open>src/app/lzo/src/lzo_dict.h\<close>, in the build of
  \<open>src/app/lzo/src/lzo_conf.h\<close>: \<open>LZO_DICT_USE_PTR\<close>, incremental hash A, depth \<open>DD_BITS = 0\<close>.

  \<^item> \<open>lzo_xint\<close> is a 64-bit word, so is a pointer; \<open>base\<close> is the address of the source \<open>in\<close>, and
    \<open>DENTRY base ip\<close> the pointer to its byte \<open>ip\<close>.
  \<^item> \<open>dict\<close> maps an index to the pointer stored there; \<open>NULL\<close> is \<open>0\<close>.  \<open>m_index base m_pos\<close> is the
    index of the byte \<open>m_pos\<close> points to; reading behind the source is \<open>None\<close>.
  \<^item> \<open>check_det\<close> and \<open>check_non_det\<close> are \<open>LZO_CHECK_MPOS_DET\<close> and \<open>LZO_CHECK_MPOS_NON_DET\<close>: \<open>None\<close> when
    the macro is true (no usable match), otherwise the offset it assigns to \<open>m_off\<close>.

  Lemmas: an accepted entry points to a byte of the source in front of \<open>ip\<close>, at most \<open>max_offset\<close>
  away.  For \<open>check_det\<close> this needs that the dictionary holds nothing but earlier positions; for
  \<open>check_non_det\<close> it holds for any contents of an uninitialised dictionary.
\<close>

section \<open>Hash values\<close>

type_synonym lzo_dict = "nat \<Rightarrow> u64"

definition rdx :: "byte list \<Rightarrow> nat \<Rightarrow> u64 option" where
  "rdx src p = map_option ucast (rd src p)"

definition DMUL :: "u64 \<Rightarrow> u64 \<Rightarrow> u64" where
  "DMUL a b = a * b"

text \<open>\<open>_DV_A(p,5)\<close>, \<open>DX2(p,s1,s2)\<close> and \<open>DX3(p,s1,s2,s3)\<close>\<close>

definition DV_A :: "byte list \<Rightarrow> nat \<Rightarrow> u64 option" where
  "DV_A src p = do {
     a \<leftarrow> rdx src p; b \<leftarrow> rdx src (p + 1); c \<leftarrow> rdx src (p + 2);
     Some (push_bit 5 (push_bit 5 a XOR b) XOR c) }"

definition DX2 :: "byte list \<Rightarrow> nat \<Rightarrow> nat \<Rightarrow> nat \<Rightarrow> u64 option" where
  "DX2 src p s1 s2 = do {
     c \<leftarrow> rdx src (p + 2); b \<leftarrow> rdx src (p + 1); a \<leftarrow> rdx src p;
     Some (push_bit s1 (push_bit s2 c XOR b) XOR a) }"

definition DX3 :: "byte list \<Rightarrow> nat \<Rightarrow> nat \<Rightarrow> nat \<Rightarrow> nat \<Rightarrow> u64 option" where
  "DX3 src p s1 s2 s3 = do { v \<leftarrow> DX2 src (p + 1) s2 s3; a \<leftarrow> rdx src p; Some (push_bit s1 v XOR a) }"

definition DVAL_FIRST :: "byte list \<Rightarrow> nat \<Rightarrow> u64 option" where
  "DVAL_FIRST src p = DV_A src p"

text \<open>\<open>dv ^= p[-1] << (2*5); dv = (dv << 5) ^ p[2]\<close>\<close>

definition DVAL_NEXT :: "byte list \<Rightarrow> u64 \<Rightarrow> nat \<Rightarrow> u64 option" where
  "DVAL_NEXT src dv p =
     (if p = 0 then None
      else do { a \<leftarrow> rdx src (p - 1); c \<leftarrow> rdx src (p + 2);
                Some (push_bit 5 (dv XOR push_bit 10 a) XOR c) })"

text \<open>\<open>DINDEX(dv,p)\<close> with \<open>d_bits\<close> the \<open>D_BITS\<close> of the compressor\<close>

definition D_MASK :: "nat \<Rightarrow> u64" where
  "D_MASK d_bits = mask d_bits"

definition DINDEX_A :: "nat \<Rightarrow> u64 \<Rightarrow> nat" where
  "DINDEX_A d_bits dv = unat (drop_bit 5 (DMUL 0x9f5f dv) AND D_MASK d_bits)"

text \<open>\<open>D_INDEX1\<close> and \<open>D_INDEX2\<close> of LZO1 and LZO1A\<close>

definition D_INDEX1 :: "nat \<Rightarrow> byte list \<Rightarrow> nat \<Rightarrow> u64 option" where
  "D_INDEX1 d_bits src p = do { v \<leftarrow> DX2 src p 5 5; Some (drop_bit 5 (DMUL 0x21 v) AND D_MASK d_bits) }"

definition D_INDEX2 :: "nat \<Rightarrow> u64 \<Rightarrow> u64" where
  "D_INDEX2 d_bits d = d XOR D_MASK d_bits"

lemma rdx_Some [simp]: "p < length src \<Longrightarrow> rdx src p = Some (ucast (src ! p))"
  by (simp add: rdx_def rd_def)

lemma DV_A_Some: "p + 2 < length src \<Longrightarrow> \<exists>v. DV_A src p = Some v"
  by (simp add: DV_A_def)

lemma DVAL_FIRST_Some: "p + 2 < length src \<Longrightarrow> \<exists>v. DVAL_FIRST src p = Some v"
  by (simp add: DVAL_FIRST_def DV_A_Some)

lemma DX2_Some: "p + 2 < length src \<Longrightarrow> \<exists>v. DX2 src p s1 s2 = Some v"
  by (simp add: DX2_def)

lemma DX3_Some: "p + 3 < length src \<Longrightarrow> \<exists>v. DX3 src p s1 s2 s3 = Some v"
  using DX2_Some [of "p + 1" src s2 s3] by (auto simp: DX3_def)

lemma DVAL_NEXT_Some: "0 < p \<Longrightarrow> p + 2 < length src \<Longrightarrow> \<exists>v. DVAL_NEXT src dv p = Some v"
  by (simp add: DVAL_NEXT_def)

lemma D_INDEX1_Some: "p + 2 < length src \<Longrightarrow> \<exists>d. D_INDEX1 d_bits src p = Some d"
  using DX2_Some [of p src 5 5] by (auto simp: D_INDEX1_def)

text \<open>every index is below \<open>D_SIZE\<close>\<close>

lemma masked_less: "d_bits < 64 \<Longrightarrow> unat (d AND D_MASK d_bits) < 2 ^ d_bits"
proof -
  assume "d_bits < 64"
  have "unat (take_bit d_bits d) < 2 ^ d_bits"
    unfolding unsigned_take_bit_eq by (rule take_bit_nat_less_exp)
  then show ?thesis
    by (simp add: D_MASK_def take_bit_eq_mask)
qed

lemma DINDEX_A_less: "d_bits < 64 \<Longrightarrow> DINDEX_A d_bits dv < 2 ^ d_bits"
  by (simp add: DINDEX_A_def masked_less)

lemma D_INDEX1_less: "d_bits < 64 \<Longrightarrow> D_INDEX1 d_bits src p = Some d \<Longrightarrow> unat d < 2 ^ d_bits"
  by (auto simp: D_INDEX1_def masked_less split: bind_splits)

lemma masked_absorb: "unat d < 2 ^ d_bits \<Longrightarrow> d_bits < 64 \<Longrightarrow> d AND D_MASK d_bits = d"
  unfolding D_MASK_def take_bit_eq_mask [symmetric] word_unat_eq_iff unsigned_take_bit_eq
  by (rule take_bit_nat_eq_self)

lemma D_INDEX2_less: "d_bits < 64 \<Longrightarrow> unat d < 2 ^ d_bits \<Longrightarrow> unat (D_INDEX2 d_bits d) < 2 ^ d_bits"
proof -
  assume b: "d_bits < 64" and d: "unat d < 2 ^ d_bits"
  have "D_INDEX2 d_bits d = D_INDEX2 d_bits d AND D_MASK d_bits"
    unfolding D_INDEX2_def using masked_absorb [OF d b]
    by (metis and.idem bit.conj_xor_distrib2)
  with masked_less [OF b] show ?thesis
    by metis
qed

section \<open>Entries and the test for a match\<close>

definition DENTRY :: "u64 \<Rightarrow> nat \<Rightarrow> u64" where
  "DENTRY base p = base + of_nat p"

definition NULL :: u64 where
  "NULL = 0"

definition m_index :: "u64 \<Rightarrow> u64 \<Rightarrow> nat" where
  "m_index base m_pos = unat (m_pos - base)"

definition check_det :: "u64 \<Rightarrow> nat \<Rightarrow> nat \<Rightarrow> u64 \<Rightarrow> nat option" where
  "check_det base max_offset ip m_pos =
     (if m_pos = NULL then None
      else let m_off = unat (DENTRY base ip - m_pos) in
        if m_off > max_offset then None else Some m_off)"

definition check_non_det :: "u64 \<Rightarrow> nat \<Rightarrow> nat \<Rightarrow> u64 \<Rightarrow> nat option" where
  "check_non_det base max_offset ip m_pos =
     (if m_pos < base then None
      else let m_off = unat (DENTRY base ip - m_pos) in
        if m_off = 0 \<or> m_off > max_offset then None else Some m_off)"

text \<open>\<open>m_pos[0] == ip[0] && m_pos[1] == ip[1] && m_pos[2] == ip[2]\<close>, left to right\<close>

fun same_bytes :: "nat \<Rightarrow> byte list \<Rightarrow> nat \<Rightarrow> nat \<Rightarrow> bool option" where
  "same_bytes 0 src m ip = Some True"
| "same_bytes (Suc n) src m ip = do {
     a \<leftarrow> rd src m; b \<leftarrow> rd src ip;
     if a = b then same_bytes n src (m + 1) (ip + 1) else Some False }"

lemma same_bytes_eq:
  "m \<le> ip \<Longrightarrow> ip + n \<le> length src \<Longrightarrow>
     same_bytes n src m ip = Some (\<forall>i<n. src ! (ip + i) = src ! (m + i))"
proof (induction n arbitrary: m ip)
  case (Suc n)
  have "(\<forall>i<Suc n. src ! (ip + i) = src ! (m + i)) \<longleftrightarrow>
      src ! ip = src ! m \<and> (\<forall>i<n. src ! (ip + 1 + i) = src ! (m + 1 + i))"
    by (auto simp: less_Suc_eq_0_disj)
  moreover have "same_bytes n src (m + 1) (ip + 1) = Some (\<forall>i<n. src ! (ip + 1 + i) = src ! (m + 1 + i))"
    using Suc.prems by (intro Suc.IH) auto
  ultimately show ?case
    using Suc.prems by (simp add: rd_def eq_commute)
qed simp

text \<open>the contents of a dictionary that was zeroed and has been updated with positions before \<open>ip\<close>\<close>

definition dict_before :: "u64 \<Rightarrow> lzo_dict \<Rightarrow> nat \<Rightarrow> bool" where
  "dict_before base dict ip \<longleftrightarrow> (\<forall>i. dict i = NULL \<or> (\<exists>p < ip. dict i = DENTRY base p))"

lemma dict_before_empty [simp]: "dict_before base (\<lambda>_. NULL) ip"
  by (simp add: dict_before_def)

lemma dict_before_update: "dict_before base dict ip \<Longrightarrow> p < ip' \<Longrightarrow> ip \<le> ip' \<Longrightarrow>
    dict_before base (dict(i := DENTRY base p)) ip'"
  unfolding dict_before_def by (metis fun_upd_apply order.strict_trans2)

lemma dict_before_mono: "dict_before base dict ip \<Longrightarrow> ip \<le> ip' \<Longrightarrow> dict_before base dict ip'"
  unfolding dict_before_def by (metis order.strict_trans2)

text \<open>what an accepted entry is\<close>

definition usable :: "u64 \<Rightarrow> nat \<Rightarrow> nat \<Rightarrow> u64 \<Rightarrow> nat \<Rightarrow> bool" where
  "usable base max_offset ip m_pos off \<longleftrightarrow>
     0 < off \<and> off \<le> max_offset \<and> off \<le> ip \<and> m_index base m_pos = ip - off"

lemma unat_small: "p < 2 ^ 64 \<Longrightarrow> unat (of_nat p :: u64) = p"
  by (simp add: unat_of_nat)

lemma entry_diff: "p \<le> ip \<Longrightarrow> ip < 2 ^ 64 \<Longrightarrow> unat (DENTRY base ip - DENTRY base p) = ip - p"
  using unat_small [of "ip - p"] by (simp add: DENTRY_def of_nat_diff)

lemma entry_index: "p < 2 ^ 64 \<Longrightarrow> m_index base (DENTRY base p) = p"
  by (simp add: m_index_def DENTRY_def unat_small)

lemma check_det_usable:
  assumes "check_det base max_offset ip (dict i) = Some off" "dict_before base dict ip" "ip < 2 ^ 64"
  shows "usable base max_offset ip (dict i) off"
proof -
  have "dict i \<noteq> NULL"
    using assms(1) by (auto simp: check_det_def)
  then obtain p where p: "p < ip" "dict i = DENTRY base p"
    using assms(2) unfolding dict_before_def by blast
  with assms show ?thesis
    using entry_diff [of p ip base] entry_index [of p base]
    by (auto simp: usable_def check_det_def Let_def split: if_splits)
qed

lemma check_non_det_usable:
  assumes "check_non_det base max_offset ip m_pos = Some off" "max_offset \<le> unat base" "ip < 2 ^ 64"
  shows "usable base max_offset ip m_pos off"
proof -
  have ge: "unat base \<le> unat m_pos" and off: "off = unat (DENTRY base ip - m_pos)" "0 < off" "off \<le> max_offset"
    using assms(1) by (auto simp: check_non_det_def Let_def word_less_nat_alt split: if_splits)
  define i where "i = m_index base m_pos"
  have i: "i = unat m_pos - unat base"
    using ge by (simp add: i_def m_index_def unat_sub word_le_nat_alt)
  have "DENTRY base ip - m_pos + (m_pos - base) = of_nat ip"
    by (simp add: DENTRY_def)
  then have "(off + i) mod 2 ^ 64 = ip"
    unfolding off(1) i_def m_index_def using unat_small [OF assms(3)]
      unat_word_ariths(1) [of "DENTRY base ip - m_pos" "m_pos - base"] by simp
  moreover have "off + i < 2 ^ 64"
    using off(3) assms(2) i unsigned_less [of m_pos, where ?'a = nat] ge by simp
  ultimately have "off + i = ip"
    by simp
  then show ?thesis
    using off by (auto simp: usable_def i_def)
qed

end
