(* ===== verification/LZO1_Codec.thy ===== *)
theory LZO1_Codec
  imports LZO_Machine LZO_Dict
begin

text \<open>
  The LZO1 codec, \<open>src/app/lzo/src/lzo1.c\<close>: \<open>lzo1_decompress\<close>, \<open>store_run\<close>, \<open>do_compress\<close> and
  \<open>lzo1_compress\<close>.

  \<^item> The file can be compiled with \<open>RBITS\<close> 3 to 5 and \<open>CLEVEL\<close> 1 to 9; the model has them as the
    parameters \<open>rb\<close> and \<open>cl\<close>.  \<open>lzo1_compress\<close> and \<open>lzo1_decompress\<close> are the default LZO1-5/1.
  \<^item> The decompressor is one iteration \<open>lzo1_step\<close> of its \<open>while\<close> loop on the machine of
    \<open>LZO_Machine\<close>.  It makes no tests, so a malformed block is a \<open>Fault\<close>.
  \<^item> The compressor works on indices into the source; \<open>None\<close> is a read outside of it.  \<open>base\<close> is the
    address of the source, which the dictionary of \<open>LZO_Dict\<close> holds pointers to.

  Lemmas: every iteration consumes input, every match is at least three bytes long, so both
  loops end.
\<close>

section \<open>Format constants\<close>

definition R0MIN :: "nat \<Rightarrow> nat" where "R0MIN rb = 2 ^ rb"
definition R0MAX :: "nat \<Rightarrow> nat" where "R0MAX rb = R0MIN rb + 255"
definition R0FAST :: "nat \<Rightarrow> nat" where "R0FAST rb = R0MAX rb - R0MAX rb mod 8"
definition OMASK :: "nat \<Rightarrow> nat" where "OMASK rb = 2 ^ rb - 1"
definition MSIZE :: "nat \<Rightarrow> nat" where "MSIZE rb = 2 ^ (8 - rb)"
definition THRESHOLD :: nat where "THRESHOLD = 2"
definition MIN_MATCH :: nat where "MIN_MATCH = 3"
definition MAX_MATCH_SHORT :: "nat \<Rightarrow> nat" where "MAX_MATCH_SHORT rb = THRESHOLD + (MSIZE rb - 2)"
definition MIN_MATCH_LONG :: "nat \<Rightarrow> nat" where "MIN_MATCH_LONG rb = MAX_MATCH_SHORT rb + 1"
definition MAX_MATCH_LONG :: "nat \<Rightarrow> nat" where "MAX_MATCH_LONG rb = MIN_MATCH_LONG rb + 255"
definition MAX_OFFSET :: "nat \<Rightarrow> nat" where "MAX_OFFSET rb = 2 ^ (8 + rb)"
definition DVAL_LEN :: nat where "DVAL_LEN = 3"
definition DBITS :: "nat \<Rightarrow> nat" where "DBITS rb = 8 + rb"

lemmas lzo1_consts =
  R0MIN_def R0MAX_def R0FAST_def OMASK_def MSIZE_def THRESHOLD_def MIN_MATCH_def
  MAX_MATCH_SHORT_def MIN_MATCH_LONG_def MAX_MATCH_LONG_def MAX_OFFSET_def DVAL_LEN_def DBITS_def

text \<open>\<open>lzo1_info(&rbits, &clevel)\<close>: the values stored and the size of the work memory\<close>

definition lzo1_info :: "nat \<Rightarrow> nat \<Rightarrow> nat \<times> nat \<times> nat" where
  "lzo1_info rb cl = (rb, cl, 2 ^ DBITS rb * 8)"

section \<open>Decompression\<close>

text \<open>\<open>lzo_uint tt = 256; do tt <<= 1; while (--t > 0);\<close>\<close>

fun r0_long :: "nat \<Rightarrow> nat \<Rightarrow> nat" where
  "r0_long t tt = (let tt = push_bit 1 tt in if t - 1 > 0 then r0_long (t - 1) tt else tt)"

declare r0_long.simps [simp del]

definition lzo1_literals :: "nat \<Rightarrow> dec_env \<Rightarrow> nat \<Rightarrow> dec_state \<Rightarrow> unit dec_result" where
  "lzo1_literals rb E t s =
     (if t = 0 then
        next_ip E s (\<lambda>t s.
        if t \<ge> R0FAST rb - R0MIN rb then
          let t = t - (R0FAST rb - R0MIN rb) in
          copy_lits E (if t = 0 then R0FAST rb else r0_long t 256) s (Run ())
        else do_copy_lits E (t + R0MIN rb) s (Run ()))
      else do_copy_lits E t s (Run ()))"

definition lzo1_match :: "nat \<Rightarrow> dec_env \<Rightarrow> nat \<Rightarrow> dec_state \<Rightarrow> unit dec_result" where
  "lzo1_match rb E t s =
     next_ip E s (\<lambda>b s.
     let op = int (length (d_out s));
         m_pos = op - 1 - int (t AND OMASK rb OR push_bit rb b);
         copy = (\<lambda>tt s.
           c_assert E (m_pos \<ge> 0) (c_assert E (m_pos < op)
           (copy_match E 2 m_pos s (\<lambda>s.
            do_copy_match E tt (m_pos + 2) s (Run ())))))
     in if t \<ge> push_bit rb (MSIZE rb - 1) then
          next_ip E s (\<lambda>b s. copy (MIN_MATCH_LONG rb - THRESHOLD + b) s)
        else copy (drop_bit rb t) s)"

definition lzo1_step :: "nat \<Rightarrow> dec_env \<Rightarrow> dec_state \<Rightarrow> unit dec_result" where
  "lzo1_step rb E s =
     next_ip E s (\<lambda>t s. if t < R0MIN rb then lzo1_literals rb E t s else lzo1_match rb E t s)"

lemma lzo1_step_ahead: "ahead E (\<lambda>_. True) (Suc (d_ip s)) (lzo1_step rb E s)"
  unfolding lzo1_step_def lzo1_literals_def lzo1_match_def Let_def by (auto intro!: prog)

function lzo1_loop :: "nat \<Rightarrow> dec_env \<Rightarrow> dec_state \<Rightarrow> (lzo_status \<times> byte list) option" where
  "lzo1_loop rb E s =
     (if d_ip s < length (d_in E) then
        (case lzo1_step rb E s of
           Run _ s \<Rightarrow> lzo1_loop rb E s
         | Return e out \<Rightarrow> Some (e, out)
         | Fault \<Rightarrow> None)
      else Some (if d_ip s = length (d_in E) then LZO_E_OK else LZO_E_INPUT_OVERRUN, d_out s))"
  by pat_completeness auto
termination
proof (relation "measure (\<lambda>(rb, E, s). length (d_in E) - d_ip s)")
  fix rb E s l s'
  assume "d_ip s < length (d_in E)" "lzo1_step rb E s = Run l s'"
  then show "((rb, E, s'), rb, E, s) \<in> measure (\<lambda>(rb, E, s). length (d_in E) - d_ip s)"
    using lzo1_step_ahead [of E s rb] by (simp add: diff_less_mono2)
qed simp

declare lzo1_loop.simps [simp del]

definition untested_env :: "bool \<Rightarrow> byte list \<Rightarrow> nat \<Rightarrow> dec_env" where
  "untested_env debug inp cap = \<lparr>d_in = inp, d_cap = cap, d_test_ip = False, d_test_op = False,
     d_test_lb = False, d_debug = debug\<rparr>"

definition lzo1_decompress_rb :: "nat \<Rightarrow> bool \<Rightarrow> byte list \<Rightarrow> nat \<Rightarrow> (lzo_status \<times> byte list) option" where
  "lzo1_decompress_rb rb debug inp cap =
     lzo1_loop rb (untested_env debug inp cap) \<lparr>d_ip = 0, d_out = [], d_last = 0\<rparr>"

definition lzo1_decompress :: "byte list \<Rightarrow> nat \<Rightarrow> (lzo_status \<times> byte list) option" where
  "lzo1_decompress = lzo1_decompress_rb 5 False"

section \<open>Coding a literal run\<close>

text \<open>\<open>do { while (r_len >= (256u << r_bits)) ...; } while (--r_bits > 0)\<close>\<close>

function store_big ::
    "nat \<Rightarrow> nat \<Rightarrow> byte list \<Rightarrow> nat \<Rightarrow> nat \<Rightarrow> byte list \<Rightarrow> (nat \<times> nat \<times> byte list) option" where
  "store_big rb r_bits src ii r_len op =
     (if r_bits = 0 then Some (ii, r_len, op)
      else let n = push_bit r_bits 256 in
        if r_len \<ge> n then do {
          ls \<leftarrow> load n src ii;
          store_big rb r_bits src (ii + n) (r_len - n)
            (op @ [0, LZO_BYTE (R0FAST rb - R0MIN rb + r_bits)] @ ls) }
        else store_big rb (r_bits - 1) src ii r_len op)"
  by pat_completeness auto
termination
  by (relation "measures [\<lambda>(rb, r_bits, src, ii, r_len, op). r_bits, \<lambda>(rb, r_bits, src, ii, r_len, op). r_len]")
    (auto simp: push_bit_eq_mult intro!: diff_less intro: less_le_trans [rotated])

declare store_big.simps [simp del]

text \<open>\<open>while (r_len >= R0FAST) ...\<close>\<close>

lemma R0FAST_pos: "0 < R0FAST rb"
proof -
  have "R0MAX rb mod 8 < 8" by simp
  then have "R0MAX rb mod 8 < R0MAX rb"
    unfolding R0MAX_def by linarith
  then show ?thesis by (simp add: R0FAST_def)
qed

function store_fast :: "nat \<Rightarrow> byte list \<Rightarrow> nat \<Rightarrow> nat \<Rightarrow> byte list \<Rightarrow> (nat \<times> nat \<times> byte list) option" where
  "store_fast rb src ii r_len op =
     (if r_len \<ge> R0FAST rb then do {
        ls \<leftarrow> load (R0FAST rb) src ii;
        store_fast rb src (ii + R0FAST rb) (r_len - R0FAST rb)
          (op @ [0, LZO_BYTE (R0FAST rb - R0MIN rb)] @ ls) }
      else Some (ii, r_len, op))"
  by pat_completeness auto
termination
  by (relation "measure (\<lambda>(rb, src, ii, r_len, op). r_len)") (auto intro!: diff_less R0FAST_pos intro: less_le_trans [OF R0FAST_pos])

declare store_fast.simps [simp del]

definition store_rest :: "nat \<Rightarrow> byte list \<Rightarrow> nat \<Rightarrow> nat \<Rightarrow> byte list \<Rightarrow> byte list option" where
  "store_rest rb src ii r_len op =
     (if r_len \<ge> R0MIN rb then do {
        ls \<leftarrow> load r_len src ii; Some (op @ [0, LZO_BYTE (r_len - R0MIN rb)] @ ls) }
      else if r_len > 0 then do {
        ls \<leftarrow> load r_len src ii; Some (op @ [LZO_BYTE r_len] @ ls) }
      else Some op)"

definition store_run :: "nat \<Rightarrow> byte list \<Rightarrow> nat \<Rightarrow> nat \<Rightarrow> byte list \<Rightarrow> byte list option" where
  "store_run rb src ii r_len op = do {
     (ii, r_len, op) \<leftarrow>
       (if r_len \<ge> 512 then store_big rb 7 src ii r_len op else Some (ii, r_len, op));
     (ii, r_len, op) \<leftarrow> store_fast rb src ii r_len op;
     store_rest rb src ii r_len op }"

section \<open>Finding and extending a match\<close>

text \<open>
  The search at one position: the dictionary index that \<open>UPDATE_I\<close> will write to, and the
  offset of a match of three bytes if there is one.
\<close>

definition try_entry ::
    "(nat \<Rightarrow> u64 \<Rightarrow> nat option) \<Rightarrow> u64 \<Rightarrow> byte list \<Rightarrow> nat \<Rightarrow> u64 \<Rightarrow> nat option option" where
  "try_entry check base src ip m_pos =
     (case check ip m_pos of
        None \<Rightarrow> Some None
      | Some m_off \<Rightarrow> do {
          eq \<leftarrow> same_bytes 3 src (m_index base m_pos) ip;
          Some (if eq then Some m_off else None) })"

definition lzo1_find ::
    "(nat \<Rightarrow> u64 \<Rightarrow> nat option) \<Rightarrow> nat \<Rightarrow> u64 \<Rightarrow> byte list \<Rightarrow> nat \<Rightarrow> lzo_dict \<Rightarrow> (nat \<times> nat option) option" where
  "lzo1_find check d_bits base src ip dict = do {
     d \<leftarrow> D_INDEX1 d_bits src ip;
     if check ip (dict (unat d)) = None then Some (unat d, None)
     else do {
       m \<leftarrow> try_entry check base src ip (dict (unat d));
       if m \<noteq> None then Some (unat d, m)
       else do {
         let d = D_INDEX2 d_bits d;
         m \<leftarrow> try_entry check base src ip (dict (unat d));
         Some (unat d, m) } } }"

text \<open>\<open>PS || PS || ...\<close> with \<open>PS\<close> being \<open>*m_pos++ != *ip++\<close>: the new \<open>ip\<close>, and whether all were equal\<close>

primrec ps_steps :: "nat \<Rightarrow> byte list \<Rightarrow> nat \<Rightarrow> nat \<Rightarrow> (nat \<times> bool) option" where
  "ps_steps 0 src m_pos ip = Some (ip, True)"
| "ps_steps (Suc k) src m_pos ip = do {
     a \<leftarrow> rd src m_pos; b \<leftarrow> rd src ip;
     if a \<noteq> b then Some (ip + 1, False) else ps_steps k src (m_pos + 1) (ip + 1) }"

text \<open>\<open>while (ip < end && *m_pos == *ip) { m_pos++; ip++; }\<close>\<close>

function extend_to :: "nat \<Rightarrow> byte list \<Rightarrow> nat \<Rightarrow> nat \<Rightarrow> nat option" where
  "extend_to e src m_pos ip =
     (if ip < e then do {
        a \<leftarrow> rd src m_pos; b \<leftarrow> rd src ip;
        if a = b then extend_to e src (m_pos + 1) (ip + 1) else Some ip }
      else Some ip)"
  by pat_completeness auto
termination
  by (relation "measure (\<lambda>(e, src, m_pos, ip). e - ip)") auto

declare extend_to.simps [simp del]

definition short_code :: "nat \<Rightarrow> nat \<Rightarrow> nat \<Rightarrow> byte list" where
  "short_code rb m_len m_off =
     (let m_off = m_off - 1 in
      [LZO_BYTE (push_bit rb (m_len - THRESHOLD) OR (m_off AND OMASK rb)), LZO_BYTE (drop_bit rb m_off)])"

definition long_code :: "nat \<Rightarrow> nat \<Rightarrow> nat \<Rightarrow> byte list" where
  "long_code rb m_len m_off =
     (let m_off = m_off - 1 in
      [LZO_BYTE (push_bit rb (MSIZE rb - 1) OR (m_off AND OMASK rb)), LZO_BYTE (drop_bit rb m_off),
       LZO_BYTE (m_len - MIN_MATCH_LONG rb)])"

text \<open>the match of length three at \<open>ip\<close> extended: \<open>(short, m_len)\<close>\<close>

definition lzo1_extend :: "nat \<Rightarrow> byte list \<Rightarrow> nat \<Rightarrow> nat \<Rightarrow> (bool \<times> nat) option" where
  "lzo1_extend rb src m_pos ip = do {
     let in_end = length src - DVAL_LEN;
     (p, all) \<leftarrow> ps_steps (MIN_MATCH_LONG rb - MIN_MATCH) src (m_pos + 3) (ip + MIN_MATCH);
     if \<not> all then Some (True, p - 1 - ip)
     else do {
       let e = (if in_end - p \<le> MAX_MATCH_LONG rb - MIN_MATCH_LONG rb then in_end
                else p + (MAX_MATCH_LONG rb - MIN_MATCH_LONG rb));
       q \<leftarrow> extend_to e src (m_pos + (p - ip)) p;
       Some (False, q - ip) } }"

section \<open>Inserting phrases into the dictionary\<close>

text \<open>\<open>DI\<close>, \<open>k\<close> times: \<open>++ii; DVAL_NEXT(dv,ii); UPDATE_D(dict,0,dv,ii,in);\<close>\<close>

primrec insert_di ::
    "nat \<Rightarrow> nat \<Rightarrow> u64 \<Rightarrow> byte list \<Rightarrow> nat \<Rightarrow> u64 \<Rightarrow> lzo_dict \<Rightarrow> (u64 \<times> lzo_dict) option" where
  "insert_di 0 d_bits base src ii dv dict = Some (dv, dict)"
| "insert_di (Suc k) d_bits base src ii dv dict = do {
     dv \<leftarrow> DVAL_NEXT src dv (ii + 1);
     insert_di k d_bits base src (ii + 1) dv (dict(DINDEX_A d_bits dv := DENTRY base (ii + 1))) }"

text \<open>\<open>None\<close>: the whole match is inserted; otherwise the number of \<open>DI\<close>s\<close>

definition short_inserts :: "nat \<Rightarrow> nat \<Rightarrow> nat option" where
  "short_inserts rb cl =
     (if cl = 9 \<or> (cl \<ge> 7 \<and> 8 - rb \<le> 4) \<or> (cl \<ge> 5 \<and> 8 - rb \<le> 3) then None
      else Some (if cl \<ge> 3 then 2 else if cl \<ge> 2 then 1 else 0))"

definition long_inserts :: "nat \<Rightarrow> nat option" where
  "long_inserts cl =
     (if cl = 9 then None
      else Some (if cl \<ge> 8 then 8 else if cl \<ge> 7 then 7 else if cl \<ge> 6 then 6 else if cl \<ge> 5 then 4
                 else if cl \<ge> 4 then 3 else if cl \<ge> 3 then 2 else if cl \<ge> 2 then 1 else 0))"

definition insert_match ::
    "nat option \<Rightarrow> nat \<Rightarrow> u64 \<Rightarrow> byte list \<Rightarrow> nat \<Rightarrow> nat \<Rightarrow> u64 \<Rightarrow> lzo_dict \<Rightarrow> (u64 \<times> lzo_dict) option" where
  "insert_match mode d_bits base src ii ip dv dict =
     (case mode of
        None \<Rightarrow> do {
          (dv, dict) \<leftarrow> insert_di (ip - ii - 1) d_bits base src ii dv dict;
          dv \<leftarrow> DVAL_NEXT src dv ip;
          Some (dv, dict) }
      | Some k \<Rightarrow> do {
          (dv, dict) \<leftarrow> insert_di k d_bits base src ii dv dict;
          dv \<leftarrow> DVAL_FIRST src ip;
          Some (dv, dict) })"

section \<open>Compression\<close>

lemma ps_steps_ge: "ps_steps k src m_pos ip = Some (p, a) \<Longrightarrow> ip \<le> p \<and> (\<not> a \<longrightarrow> ip < p)"
  by (induction k arbitrary: m_pos ip) (fastforce split: if_splits bind_splits)+

lemma extend_to_ge: "extend_to e src m_pos ip = Some q \<Longrightarrow> ip \<le> q"
proof (induction "e - ip" arbitrary: m_pos ip rule: less_induct)
  case less
  note IH = less.hyps [of "Suc ip" "Suc m_pos"]
  from less.prems show ?case
    by (subst (asm) extend_to.simps) (auto split: if_splits bind_splits dest!: IH [rotated])
qed

lemma lzo1_extend_ge: "lzo1_extend rb src m_pos ip = Some (short, m_len) \<Longrightarrow> 3 \<le> m_len"
  by (auto simp: lzo1_extend_def Let_def MIN_MATCH_def split: if_splits bind_splits
      dest!: ps_steps_ge extend_to_ge)

text \<open>the literals in front of a match; short runs are copied inline\<close>

definition lzo1_literal_run :: "nat \<Rightarrow> byte list \<Rightarrow> nat \<Rightarrow> nat \<Rightarrow> byte list \<Rightarrow> byte list option" where
  "lzo1_literal_run rb src ii t op =
     (if t > 0 then
        if t < R0MIN rb then do { ls \<leftarrow> load t src ii; Some (op @ [LZO_BYTE t] @ ls) }
        else store_run rb src ii t op
      else Some op)"

function lzo1_c_loop ::
    "nat \<Rightarrow> nat \<Rightarrow> u64 \<Rightarrow> byte list \<Rightarrow> nat \<Rightarrow> nat \<Rightarrow> byte list \<Rightarrow> u64 \<Rightarrow> lzo_dict \<Rightarrow> (byte list \<times> nat) option" where
  "lzo1_c_loop rb cl base src ip ii op dv dict =
     (let ip_end = length src - DVAL_LEN - MIN_MATCH_LONG rb in
      case lzo1_find (check_det base (MAX_OFFSET rb)) (DBITS rb) base src ip dict of
        None \<Rightarrow> None
      | Some (d, m) \<Rightarrow>
          let dict = dict(d := DENTRY base ip) in
          case m of
            None \<Rightarrow> if ip + 1 \<ge> ip_end then Some (op, ii)
                    else lzo1_c_loop rb cl base src (ip + 1) ii op dv dict
          | Some m_off \<Rightarrow>
              case lzo1_literal_run rb src ii (ip - ii) op of
                None \<Rightarrow> None
              | Some op \<Rightarrow>
                  case lzo1_extend rb src (ip - m_off) ip of
                    None \<Rightarrow> None
                  | Some (short, m_len) \<Rightarrow>
                      let op = op @ (if short then short_code rb m_len m_off else long_code rb m_len m_off);
                          mode = (if short then short_inserts rb cl else long_inserts cl) in
                      case insert_match mode (DBITS rb) base src ip (ip + m_len) dv dict of
                        None \<Rightarrow> None
                      | Some (dv, dict) \<Rightarrow>
                          if ip + m_len < ip_end
                          then lzo1_c_loop rb cl base src (ip + m_len) (ip + m_len) op dv dict
                          else Some (op, ip + m_len))"
  by pat_completeness auto
termination
  by (relation "measure (\<lambda>(rb, cl, base, src, ip, _). length src - DVAL_LEN - MIN_MATCH_LONG rb - ip)")
    (auto dest: lzo1_extend_ge)

declare lzo1_c_loop.simps [simp del]

definition lzo1_do_compress :: "nat \<Rightarrow> nat \<Rightarrow> u64 \<Rightarrow> byte list \<Rightarrow> (lzo_status \<times> byte list) option" where
  "lzo1_do_compress rb cl base src = do {
     (op, ii) \<leftarrow>
       (if length src \<le> MIN_MATCH_LONG rb + DVAL_LEN + 1 then Some ([], 0)
        else do {
          dv \<leftarrow> DVAL_FIRST src 0;
          let dict = (\<lambda>_. NULL)(DINDEX_A (DBITS rb) dv := DENTRY base 0);
          dv \<leftarrow> DVAL_NEXT src dv 1;
          lzo1_c_loop rb cl base src 1 0 [] dv dict });
     op \<leftarrow> (if length src - ii > 0 then store_run rb src ii (length src - ii) op else Some op);
     Some (LZO_E_OK, op) }"

definition lzo1_compress_rb :: "nat \<Rightarrow> nat \<Rightarrow> u64 \<Rightarrow> byte list \<Rightarrow> (lzo_status \<times> byte list) option" where
  "lzo1_compress_rb rb cl base src =
     (if length src = 0 then Some (LZO_E_OK, [])
      else if length src \<le> MIN_MATCH_LONG rb + DVAL_LEN + 1 then
        map_option (\<lambda>op. (LZO_E_OK, op)) (store_run rb src 0 (length src) [])
      else lzo1_do_compress rb cl base src)"

definition lzo1_compress :: "u64 \<Rightarrow> byte list \<Rightarrow> (lzo_status \<times> byte list) option" where
  "lzo1_compress = lzo1_compress_rb 5 1"

end
