(* ===== verification/LZO1_Roundtrip.thy ===== *)
theory LZO1_Roundtrip
  imports LZO1_Codec LZO_Stream LZO_Codec
begin

text \<open>
  The LZO1 decompressor inverts the LZO1 compressor, for every \<open>RBITS\<close> and \<open>CLEVEL\<close> and every place of
  the source in memory.  Each code the compressor emits is shown to have its effect (\<open>decodes\<close>) on the
  \<open>while\<close> loop of the decompressor; \<open>lzo1_inv\<close> is the invariant of the compressor's output.

  The lemmas on \<open>lzo1_find\<close>, \<open>lzo1_extend\<close> and \<open>insert_match\<close> say that no byte outside the source is
  read, that what is coded is a copy of earlier bytes, and that the dictionary only holds positions
  the compressor has passed.
\<close>

section \<open>The constants\<close>

definition rbits :: "nat \<Rightarrow> bool" where
  "rbits rb \<longleftrightarrow> 3 \<le> rb \<and> rb \<le> 5"

lemma rbits_cases: "rbits rb \<Longrightarrow> rb = 3 \<or> rb = 4 \<or> rb = 5"
  by (auto simp: rbits_def)

lemma R0FAST_eq: "rbits rb \<Longrightarrow> R0FAST rb = R0MIN rb + 248"
  by (drule rbits_cases) (auto simp: lzo1_consts)

lemma rbits_sizes:
  assumes "rbits rb"
  shows "MSIZE rb * R0MIN rb = 256" "8 \<le> R0MIN rb" "R0MIN rb \<le> 32" "8 \<le> MSIZE rb" "MSIZE rb \<le> 32"
    "MAX_OFFSET rb = 256 * R0MIN rb" "MAX_MATCH_SHORT rb = MSIZE rb" "MIN_MATCH_LONG rb = MSIZE rb + 1"
  using rbits_cases [OF assms] by (auto simp: lzo1_consts)

lemma omask: "rbits rb \<Longrightarrow> x AND OMASK rb = x mod R0MIN rb"
  by (simp add: OMASK_def R0MIN_def take_bit_eq_mod [symmetric] take_bit_eq_mask mask_eq_exp_minus_1)

lemma r0_long_eq: "0 < t \<Longrightarrow> r0_long t tt = push_bit t tt"
proof (induction t tt rule: r0_long.induct)
  case (1 t tt)
  show ?case
  proof (cases "1 < t")
    case True
    then have "r0_long t tt = push_bit (t - 1) (push_bit 1 tt)"
      using "1.IH" [OF refl] by (subst r0_long.simps) (simp add: Let_def)
    also have "\<dots> = push_bit (t - 1 + 1) tt"
      unfolding push_bit_push_bit ..
    finally show ?thesis
      using True by simp
  next
    case False
    with "1.prems" have "t = 1" by simp
    then show ?thesis by (subst r0_long.simps) simp
  qed
qed

section \<open>Decoding the codes\<close>

lemma lzo1_loop_step:
  "at (d_in E) (d_ip s) (b # bs) \<Longrightarrow> lzo1_step rb E s = Run () s' \<Longrightarrow>
     lzo1_loop rb E s = lzo1_loop rb E s'"
  by (subst lzo1_loop.simps) (simp add: at_Cons)

lemma lzo1_decode_lits:
  assumes "\<And>E ip. at (d_in E) ip (code @ ls) \<Longrightarrow>
     lzo1_step rb E (dst ip out) = copy_lits E (length ls) (dst (ip + length code) out) (Run ())"
    and "code \<noteq> []"
  shows "decodes (lzo1_loop rb) (code @ ls) out (out @ ls)"
  unfolding decodes_def
proof (intro conjI allI impI)
  fix E :: dec_env and ip
  assume a: "at (d_in E) ip (code @ ls)" and cap: "length (out @ ls) \<le> d_cap E"
  obtain b bs where code: "code = b # bs"
    using assms(2) by (cases code) auto
  have "lzo1_step rb E (dst ip out) = Run () (dst (ip + length (code @ ls)) (out @ ls))"
    using a cap copy_lits_at [of E "dst (ip + length code) out" ls "Run ()"]
    unfolding assms(1) [OF a] by (simp add: at_append add.assoc)
  then show "lzo1_loop rb E (dst ip out) = lzo1_loop rb E (dst (ip + length (code @ ls)) (out @ ls))"
    using a code by (intro lzo1_loop_step) (auto simp: code)
qed simp

lemma lzo1_decode_run:
  assumes "rbits rb" "0 < length ls" "length ls < R0MIN rb"
  shows "decodes (lzo1_loop rb) ([LZO_BYTE (length ls)] @ ls) out (out @ ls)"
  using assms rbits_sizes [OF assms(1)]
  by (intro lzo1_decode_lits) (auto simp: lzo1_step_def lzo1_literals_def next_ip_def peek_ip_def at_Cons do_copy_lits_def)

lemma decode_r0:
  assumes "rbits rb" "length ls = R0MIN rb + t" "t < 248"
  shows "decodes (lzo1_loop rb) ([0, LZO_BYTE t] @ ls) out (out @ ls)"
  using assms rbits_sizes [OF assms(1)]
  by (intro lzo1_decode_lits)
    (auto simp: lzo1_step_def lzo1_literals_def next_ip_def peek_ip_def at_Cons do_copy_lits_def
      R0FAST_eq add.commute)

lemma decode_r0_long:
  assumes "rbits rb" "r \<le> 7" "length ls = (if r = 0 then R0FAST rb else push_bit r 256)"
  shows "decodes (lzo1_loop rb) ([0, LZO_BYTE (R0FAST rb - R0MIN rb + r)] @ ls) out (out @ ls)"
  using assms rbits_sizes [OF assms(1)]
  by (intro lzo1_decode_lits)
    (auto simp: lzo1_step_def lzo1_literals_def next_ip_def peek_ip_def at_Cons R0FAST_eq Let_def r0_long_eq)

lemma lzo1_decode_match:
  assumes "\<And>E ip. at (d_in E) ip (b # code) \<Longrightarrow> length out \<le> d_cap E \<Longrightarrow>
     lzo1_step rb E (dst ip out) = copy_match E 2 (int (length out) - int off) (dst (ip + length (b # code)) out)
       (\<lambda>s. do_copy_match E (n - 2) (int (length out) - int off + 2) s (Run ()))"
    and off: "0 < off" "off \<le> length out" and n: "3 \<le> n"
  shows "decodes (lzo1_loop rb) (b # code) out (lz_copy off n out)"
  unfolding decodes_def
proof (intro conjI allI impI)
  fix E :: dec_env and ip
  let ?m = "int (length out) - int off" and ?s = "dst (ip + length (b # code)) out"
  have n2: "2 + (n - 2) = n" using n by simp
  have nat_off: "length out - nat ?m = off" using off by simp
  assume a: "at (d_in E) ip (b # code)" and cap: "length (lz_copy off n out) \<le> d_cap E"
  have "lzo1_step rb E (dst ip out) = copy_match E n ?m ?s (Run ())"
    using assms(1) [OF a] cap n copy_match_add [of E 2 "n - 2" ?m ?s "Run ()", unfolded n2]
    by (simp add: do_copy_match_def del: copy_match.simps)
  also have "\<dots> = Run () (?s\<lparr>d_out := lz_copy off n out\<rparr>)"
    using cap off n nat_off by (subst copy_match_closed) auto
  finally show "lzo1_loop rb E (dst ip out) = lzo1_loop rb E (dst (ip + length (b # code)) (lz_copy off n out))"
    using a by (intro lzo1_loop_step) auto
qed simp

lemma match_byte:
  assumes "rbits rb" "a < MSIZE rb"
  shows "push_bit rb a OR (x AND OMASK rb) = a * R0MIN rb + x mod R0MIN rb"
    and "a * R0MIN rb + x mod R0MIN rb < 256"
proof -
  show "push_bit rb a OR (x AND OMASK rb) = a * R0MIN rb + x mod R0MIN rb"
    unfolding omask [OF assms(1)]
    using or_disjoint [of "x mod R0MIN rb" rb a] by (simp add: push_bit_eq_mult R0MIN_def)
  have "x mod R0MIN rb < R0MIN rb"
    using rbits_sizes(2) [OF assms(1)] by simp
  then have "a * R0MIN rb + x mod R0MIN rb < (a + 1) * R0MIN rb"
    by (simp add: algebra_simps)
  also have "\<dots> \<le> MSIZE rb * R0MIN rb"
    using assms(2) by (intro mult_le_mono1) simp
  finally show "a * R0MIN rb + x mod R0MIN rb < 256"
    using rbits_sizes(1) [OF assms(1)] by simp
qed

lemma match_offset:
  assumes "rbits rb" "0 < off" "off \<le> MAX_OFFSET rb" "t mod R0MIN rb = (off - 1) mod R0MIN rb"
  shows "int p - 1 - int (t AND OMASK rb OR push_bit rb (unat (LZO_BYTE (drop_bit rb (off - 1))))) = int p - int off"
proof -
  have r: "0 < R0MIN rb" using rbits_sizes(2) [OF assms(1)] by simp
  have "(off - 1) div R0MIN rb < 256"
    using assms(2,3) rbits_sizes(6) [OF assms(1)] r by (simp add: less_mult_imp_div_less)
  then have b: "unat (LZO_BYTE (drop_bit rb (off - 1))) = (off - 1) div R0MIN rb"
    by (simp add: drop_bit_eq_div R0MIN_def)
  have "t AND OMASK rb OR push_bit rb ((off - 1) div R0MIN rb) =
      (off - 1) div R0MIN rb * R0MIN rb + (off - 1) mod R0MIN rb"
    unfolding omask [OF assms(1)] assms(4) or.commute [of "_ mod _"]
    using or_disjoint [of "(off - 1) mod R0MIN rb" rb "(off - 1) div R0MIN rb"] r
    by (simp add: push_bit_eq_mult R0MIN_def)
  also have "\<dots> = off - 1" by simp
  finally show ?thesis
    unfolding b using assms(2) by simp
qed

lemma lzo1_step_short:
  assumes "at (d_in E) ip [x, y]" "R0MIN rb \<le> unat x" "unat x < push_bit rb (MSIZE rb - 1)"
    and m: "int (length out) - 1 - int (unat x AND OMASK rb OR push_bit rb (unat y)) = int (length out) - int off"
    and off: "0 < off" "off \<le> length out"
  shows "lzo1_step rb E (dst ip out) = copy_match E 2 (int (length out) - int off) (dst (ip + 2) out)
       (\<lambda>s. do_copy_match E (drop_bit rb (unat x)) (int (length out) - int off + 2) s (Run ()))"
proof -
  have e: "ip < length (d_in E)" "d_in E ! ip = x" "Suc ip < length (d_in E)" "d_in E ! Suc ip = y"
    using assms(1) by (simp_all add: at_Cons)
  have "(unat x AND OMASK rb OR push_bit rb (unat y)) < length out"
    using m off by linarith
  then show ?thesis
    using e assms(2,3) off
    by (simp add: lzo1_step_def lzo1_match_def next_ip_def peek_ip_def m Let_def c_assert_def del: copy_match.simps)
qed

lemma lzo1_step_long:
  assumes "at (d_in E) ip [x, y, z]" "R0MIN rb \<le> unat x" "push_bit rb (MSIZE rb - 1) \<le> unat x"
    and m: "int (length out) - 1 - int (unat x AND OMASK rb OR push_bit rb (unat y)) = int (length out) - int off"
    and off: "0 < off" "off \<le> length out"
  shows "lzo1_step rb E (dst ip out) = copy_match E 2 (int (length out) - int off) (dst (ip + 3) out)
       (\<lambda>s. do_copy_match E (MIN_MATCH_LONG rb - THRESHOLD + unat z) (int (length out) - int off + 2) s (Run ()))"
proof -
  have e: "ip < length (d_in E)" "d_in E ! ip = x" "Suc ip < length (d_in E)" "d_in E ! Suc ip = y"
    "Suc (Suc ip) < length (d_in E)" "d_in E ! Suc (Suc ip) = z"
    using assms(1) by (simp_all add: at_Cons)
  have "(unat x AND OMASK rb OR push_bit rb (unat y)) < length out"
    using m off by linarith
  then show ?thesis
    using e assms(2,3) off
    by (simp add: lzo1_step_def lzo1_match_def next_ip_def peek_ip_def m Let_def c_assert_def numeral_3_eq_3 del: copy_match.simps)
qed

lemma match_byte_fields:
  fixes a x rb :: nat
  assumes "rbits rb" "a < MSIZE rb"
  defines "t \<equiv> unat (LZO_BYTE (push_bit rb a OR (x AND OMASK rb)))"
  shows "t mod R0MIN rb = x mod R0MIN rb" "drop_bit rb t = a" "0 < a \<Longrightarrow> R0MIN rb \<le> t"
    "t < push_bit rb (a + 1)" "push_bit rb a \<le> t"
proof -
  have r: "0 < R0MIN rb" using rbits_sizes(2) [OF assms(1)] by simp
  have t: "t = a * R0MIN rb + x mod R0MIN rb"
    using match_byte [OF assms(1,2), of x] by (simp add: t_def)
  show "t mod R0MIN rb = x mod R0MIN rb" "drop_bit rb t = a"
    using r by (simp_all add: t drop_bit_eq_div R0MIN_def [symmetric])
  show "push_bit rb a \<le> t"
    by (simp add: t push_bit_eq_mult R0MIN_def)
  have "R0MIN rb \<le> a * R0MIN rb" if "0 < a"
    using that mult_le_mono1 [of 1 a "R0MIN rb"] by simp
  then show "R0MIN rb \<le> t" if "0 < a"
    using that by (simp add: t trans_le_add1)
  show "t < push_bit rb (a + 1)"
    using r by (simp add: t push_bit_eq_mult R0MIN_def [symmetric])
qed

lemma decode_short:
  assumes rb: "rbits rb" and n: "3 \<le> n" "n \<le> MAX_MATCH_SHORT rb"
    and off: "0 < off" "off \<le> MAX_OFFSET rb" "off \<le> length out"
  shows "decodes (lzo1_loop rb) (short_code rb n off) out (lz_copy off n out)"
proof -
  note sz = rbits_sizes [OF rb]
  have lt: "n - 2 < MSIZE rb" "n - 2 + 1 \<le> MSIZE rb - 1" "0 < n - 2" using n sz by simp_all
  note t = match_byte_fields [OF rb lt(1), of "off - 1"]
  have "push_bit rb (n - 2 + 1) \<le> push_bit rb (MSIZE rb - 1)"
    unfolding push_bit_eq_mult using lt(2) by (rule mult_le_mono1)
  note t2 = less_le_trans [OF t(4) this]
  note m = match_offset [OF rb off(1,2) t(1)]
  show ?thesis
    unfolding short_code_def Let_def THRESHOLD_def
    using lzo1_step_short [OF _ t(3) [OF lt(3)] t2 m off(1,3)] t(2) off n
    by (intro lzo1_decode_match) (simp_all del: copy_match.simps)
qed

lemma decode_long:
  assumes rb: "rbits rb" and n: "MIN_MATCH_LONG rb \<le> n" "n \<le> MAX_MATCH_LONG rb"
    and off: "0 < off" "off \<le> MAX_OFFSET rb" "off \<le> length out"
  shows "decodes (lzo1_loop rb) (long_code rb n off) out (lz_copy off n out)"
proof -
  note sz = rbits_sizes [OF rb]
  have lt: "MSIZE rb - 1 < MSIZE rb" "0 < MSIZE rb - 1" using sz by simp_all
  note t = match_byte_fields [OF rb lt(1), of "off - 1"]
  note m = match_offset [OF rb off(1,2) t(1)]
  have z: "MIN_MATCH_LONG rb - THRESHOLD + unat (LZO_BYTE (n - MIN_MATCH_LONG rb)) = n - 2" "3 \<le> n"
    using n sz by (simp_all add: MAX_MATCH_LONG_def THRESHOLD_def)
  show ?thesis
    unfolding long_code_def Let_def
    using lzo1_step_long [OF _ t(3) [OF lt(2)] t(5) m off(1,3)] z off
    by (intro lzo1_decode_match) (simp_all add: numeral_3_eq_3 del: copy_match.simps)
qed

section \<open>Storing a literal run\<close>

text \<open>\<open>stored rb src ii t code\<close>: the code of the \<open>t\<close> literals at \<open>ii\<close>, and what it costs\<close>

definition stored :: "nat \<Rightarrow> byte list \<Rightarrow> nat \<Rightarrow> nat \<Rightarrow> byte list \<Rightarrow> bool" where
  "stored rb src ii t code \<longleftrightarrow> ii + t \<le> length src
     \<and> (\<forall>out. decodes (lzo1_loop rb) code out (out @ slice t src ii))"

lemma stored_0 [simp]: "ii \<le> length src \<Longrightarrow> stored rb src ii 0 []"
  by (simp add: stored_def slice_def)

lemma stored_append:
  "stored rb src ii m a \<Longrightarrow> stored rb src (ii + m) n b \<Longrightarrow> stored rb src ii (m + n) (a @ b)"
  unfolding stored_def slice_add by (metis add.assoc append.assoc decodes_append)

lemma stored_code:
  assumes "ii + t \<le> length src"
    and "\<And>ls out. length ls = t \<Longrightarrow> decodes (lzo1_loop rb) (code @ ls) out (out @ ls)"
  shows "stored rb src ii t (code @ slice t src ii)"
  using assms by (simp add: stored_def length_slice)


lemma store_big_ok:
  assumes "rbits rb" "r \<le> 7" "ii + n \<le> length src"
  shows "\<exists>m code. store_big rb r src ii n op = Some (ii + m, n - m, op @ code) \<and> m \<le> n
    \<and> stored rb src ii m code \<and> 128 * length code \<le> 129 * m"
  using assms
proof (induction rb r src ii n op rule: store_big.induct)
  case (1 rb r src ii n op)
  let ?k = "push_bit r (256 :: nat)"
  consider "r = 0" | (big) "0 < r" "?k \<le> n" | (small) "0 < r" "\<not> ?k \<le> n" by linarith
  then show ?case
  proof cases
    assume "r = 0"
    then show ?thesis
      using "1.prems" by (subst store_big.simps) (auto intro!: exI [of _ "[]"] exI [of _ 0])
  next
    case small
    then show ?thesis
      using "1.IH"(2) [of ?k] "1.prems" by (subst store_big.simps) (simp add: Let_def)
  next
    case big
    have k: "512 \<le> ?k"
      using big(1) by (cases r) (simp_all add: push_bit_eq_mult)
    let ?c = "[0, LZO_BYTE (R0FAST rb - R0MIN rb + r)] @ slice ?k src ii"
    obtain m code where m: "store_big rb r src (ii + ?k) (n - ?k) (op @ ?c) = Some (ii + ?k + m, n - ?k - m, (op @ ?c) @ code)"
      "m \<le> n - ?k" "stored rb src (ii + ?k) m code" "128 * length code \<le> 129 * m"
      using "1.IH"(1) [of ?k "slice ?k src ii"] big "1.prems" by (auto simp: load_slice)
    have "stored rb src ii ?k ?c"
      using "1.prems" big by (intro stored_code decode_r0_long) auto
    note s = stored_append [OF this m(3)]
    have "128 * length (?c @ code) \<le> 129 * (?k + m)"
      using m(4) k "1.prems"(3) big by (simp add: length_slice)
    moreover have "store_big rb r src ii n op = Some (ii + (?k + m), n - (?k + m), op @ ?c @ code)"
      using big "1.prems"(3) m(1) by (subst store_big.simps) (simp add: Let_def load_ok add.assoc)
    ultimately show ?thesis
      using s m(2) big by (intro exI [of _ "?k + m"] exI [of _ "?c @ code"]) auto
  qed
qed

lemma store_fast_ok:
  assumes "rbits rb" "ii + n \<le> length src"
  shows "\<exists>m code. store_fast rb src ii n op = Some (ii + m, n - m, op @ code) \<and> m \<le> n
    \<and> n - m < R0FAST rb \<and> stored rb src ii m code \<and> 128 * length code \<le> 129 * m"
  using assms
proof (induction rb src ii n op rule: store_fast.induct)
  case (1 rb src ii n op)
  let ?k = "R0FAST rb"
  show ?case
  proof (cases "?k \<le> n")
    case False
    then show ?thesis
      using "1.prems" by (subst store_fast.simps) (auto intro!: exI [of _ "[]"] exI [of _ 0])
  next
    case True
    have k: "256 \<le> ?k"
      using rbits_sizes(2) [OF "1.prems"(1)] R0FAST_eq [OF "1.prems"(1)] by simp
    let ?c = "[0, LZO_BYTE (R0FAST rb - R0MIN rb)] @ slice ?k src ii"
    obtain m code where m: "store_fast rb src (ii + ?k) (n - ?k) (op @ ?c) = Some (ii + ?k + m, n - ?k - m, (op @ ?c) @ code)"
      "m \<le> n - ?k" "n - ?k - m < ?k" "stored rb src (ii + ?k) m code" "128 * length code \<le> 129 * m"
      using "1.IH" [of "slice ?k src ii"] True "1.prems" by (auto simp: load_slice)
    have "stored rb src ii ?k ?c"
      using "1.prems" True decode_r0_long [of rb 0] by (intro stored_code) auto
    note s = stored_append [OF this m(4)]
    have "128 * length (?c @ code) \<le> 129 * (?k + m)"
      using m(5) k "1.prems"(2) True by (simp add: length_slice)
    moreover have "store_fast rb src ii n op = Some (ii + (?k + m), n - (?k + m), op @ ?c @ code)"
      using True "1.prems"(2) m(1) by (subst store_fast.simps) (simp add: load_ok add.assoc)
    ultimately show ?thesis
      using s m(2,3) True by (intro exI [of _ "?k + m"] exI [of _ "?c @ code"]) auto
  qed
qed

lemma store_fast_none: "\<not> R0FAST rb \<le> n \<Longrightarrow> store_fast rb src ii n op = Some (ii, n, op)"
  by (subst store_fast.simps) simp

lemma store_rest_ok:
  assumes "rbits rb" "ii + n \<le> length src" "n < R0FAST rb"
  shows "\<exists>code. store_rest rb src ii n op = Some (op @ code) \<and> stored rb src ii n code
    \<and> length code \<le> n + 2 \<and> (n < R0MIN rb \<longrightarrow> length code \<le> n + 1)"
proof -
  consider (long) "R0MIN rb \<le> n" | (short) "0 < n" "n < R0MIN rb" | (none) "n = 0" by linarith
  then show ?thesis
  proof cases
    case long
    have "stored rb src ii n ([0, LZO_BYTE (n - R0MIN rb)] @ slice n src ii)"
      using assms long R0FAST_eq [OF assms(1)] by (intro stored_code decode_r0) auto
    with long assms show ?thesis
      by (simp add: store_rest_def load_ok length_slice)
  next
    case short
    have "stored rb src ii n ([LZO_BYTE n] @ slice n src ii)"
      using assms short lzo1_decode_run [of rb] by (intro stored_code) auto
    with short assms show ?thesis
      by (simp add: store_rest_def load_ok length_slice)
  next
    case none
    have "0 < R0MIN rb" by (simp add: R0MIN_def)
    with none assms show ?thesis
      by (simp add: store_rest_def)
  qed
qed

lemma store_run_ok:
  assumes "rbits rb" "ii + n \<le> length src"
  obtains code where "store_run rb src ii n op = Some (op @ code)" "stored rb src ii n code"
    "128 * length code \<le> 129 * n + 256" "n < R0MIN rb \<longrightarrow> length code \<le> n + 1"
proof -
  obtain m1 c1 where 1: "(if n \<ge> 512 then store_big rb 7 src ii n op else Some (ii, n, op)) =
      Some (ii + m1, n - m1, op @ c1)" "m1 \<le> n" "stored rb src ii m1 c1" "128 * length c1 \<le> 129 * m1"
      "n < 512 \<longrightarrow> c1 = [] \<and> m1 = 0"
  proof (cases "n \<ge> 512")
    case True
    with that store_big_ok [OF assms(1) _ assms(2), of 7 op] show thesis by auto
  next
    case False
    with that [of 0 "[]"] assms(2) show thesis by simp
  qed
  have "ii + m1 + (n - m1) \<le> length src" using 1(2) assms(2) by simp
  from store_fast_ok [OF assms(1) this, of "op @ c1"] obtain m2 c2 where
    2: "store_fast rb src (ii + m1) (n - m1) (op @ c1) = Some (ii + m1 + m2, n - m1 - m2, (op @ c1) @ c2)"
      "m2 \<le> n - m1" "n - m1 - m2 < R0FAST rb" "stored rb src (ii + m1) m2 c2" "128 * length c2 \<le> 129 * m2"
    by blast
  have "ii + m1 + m2 + (n - m1 - m2) \<le> length src" using 1(2) 2(2) assms(2) by simp
  from store_rest_ok [OF assms(1) this 2(3), of "(op @ c1) @ c2"] obtain c3 where
    3: "store_rest rb src (ii + m1 + m2) (n - m1 - m2) ((op @ c1) @ c2) = Some (((op @ c1) @ c2) @ c3)"
      "stored rb src (ii + m1 + m2) (n - m1 - m2) c3" "length c3 \<le> n - m1 - m2 + 2"
      "n - m1 - m2 < R0MIN rb \<longrightarrow> length c3 \<le> n - m1 - m2 + 1"
    by blast
  show thesis
  proof (rule that [of "c1 @ c2 @ c3"])
    have "store_run rb src ii n op = Some (((op @ c1) @ c2) @ c3)"
      by (simp only: store_run_def 1(1) 2(1) 3(1) bind.bind_lunit prod.case)
    then show "store_run rb src ii n op = Some (op @ c1 @ c2 @ c3)"
      by (simp only: append_assoc)
    have "m1 + (m2 + (n - m1 - m2)) = n" using 1(2) 2(2) by simp
    then show "stored rb src ii n (c1 @ c2 @ c3)"
      using stored_append [OF 1(3) stored_append [OF 2(4) 3(2)]] by metis
    show "128 * length (c1 @ c2 @ c3) \<le> 129 * n + 256"
    proof -
      have "length (c1 @ c2 @ c3) = length c1 + length c2 + length c3" by simp
      moreover have "m1 + m2 + (n - m1 - m2) = n" using 1(2) 2(2) by simp
      ultimately show ?thesis
        using 1(4) 2(5) 3(3) by linarith
    qed
    have "m2 = 0 \<and> c2 = []" if "n < R0MIN rb"
    proof -
      have "\<not> n - m1 \<ge> R0FAST rb" using that R0FAST_eq [OF assms(1)] by simp
      from 2(1) [unfolded store_fast_none [OF this]] show ?thesis by simp
    qed
    then show "n < R0MIN rb \<longrightarrow> length (c1 @ c2 @ c3) \<le> n + 1"
      using 1(5) 3(4) rbits_sizes(3) [OF assms(1)] by force
  qed
qed

section \<open>Finding and extending a match\<close>

lemma try_entry_ok:
  assumes "ip + 3 \<le> length src" "\<And>off. check ip m_pos = Some off \<Longrightarrow> usable base M ip m_pos off"
  shows "\<exists>m. try_entry check base src ip m_pos = Some m \<and>
    (\<forall>off. m = Some off \<longrightarrow> 0 < off \<and> off \<le> M \<and> off \<le> ip \<and> (\<forall>i<3. src ! (ip + i) = src ! (ip - off + i)))"
proof (cases "check ip m_pos")
  case (Some off)
  from assms(2) [OF this] have u: "0 < off" "off \<le> M" "off \<le> ip" "m_index base m_pos = ip - off"
    by (simp_all add: usable_def)
  then show ?thesis
    using Some same_bytes_eq [of "ip - off" ip 3 src] assms(1) by (simp add: try_entry_def)
qed (simp add: try_entry_def)

lemma lzo1_find_ok:
  assumes "ip + 3 \<le> length src"
    and "\<forall>i off. check ip (dict i) = Some off \<longrightarrow> usable base M ip (dict i) off"
  obtains (none) d where "lzo1_find check d_bits base src ip dict = Some (d, None)"
    | (match) d off where "lzo1_find check d_bits base src ip dict = Some (d, Some off)"
        "0 < off" "off \<le> M" "off \<le> ip" "\<forall>i<3. src ! (ip + i) = src ! (ip - off + i)"
proof -
  obtain d where d: "D_INDEX1 d_bits src ip = Some d"
    using D_INDEX1_Some [of ip src d_bits] assms(1) by auto
  obtain m1 where m1: "try_entry check base src ip (dict (unat d)) = Some m1"
    "\<forall>off. m1 = Some off \<longrightarrow> 0 < off \<and> off \<le> M \<and> off \<le> ip \<and> (\<forall>i<3. src ! (ip + i) = src ! (ip - off + i))"
    using try_entry_ok [OF assms(1), of check "dict (unat d)" base M] assms(2) by blast
  obtain m2 where m2: "try_entry check base src ip (dict (unat (D_INDEX2 d_bits d))) = Some m2"
    "\<forall>off. m2 = Some off \<longrightarrow> 0 < off \<and> off \<le> M \<and> off \<le> ip \<and> (\<forall>i<3. src ! (ip + i) = src ! (ip - off + i))"
    using try_entry_ok [OF assms(1), of check "dict (unat (D_INDEX2 d_bits d))" base M] assms(2) by blast
  consider "check ip (dict (unat d)) = None" | off where "m1 = Some off" "check ip (dict (unat d)) \<noteq> None"
    | "m1 = None" "check ip (dict (unat d)) \<noteq> None"
    by (cases m1) auto
  then show thesis
  proof cases
    case 1
    with d none show thesis by (simp add: lzo1_find_def)
  next
    case 2
    with d m1 match show thesis by (simp add: lzo1_find_def)
  next
    case 3
    with d m1 m2 match none show thesis by (cases m2) (simp_all add: lzo1_find_def Let_def)
  qed
qed

lemma ps_steps_ok:
  "m \<le> ip \<Longrightarrow> ip + k \<le> length src \<Longrightarrow> \<exists>p a. ps_steps k src m ip = Some (p, a)
     \<and> (if a then p = ip + k \<and> (\<forall>i<k. src ! (ip + i) = src ! (m + i))
        else ip < p \<and> p \<le> ip + k \<and> (\<forall>i<p - 1 - ip. src ! (ip + i) = src ! (m + i)))"
proof (induction k arbitrary: m ip)
  case (Suc k)
  show ?case
  proof (cases "src ! m = src ! ip")
    case True
    obtain p a where p: "ps_steps k src (m + 1) (ip + 1) = Some (p, a)"
      "if a then p = ip + 1 + k \<and> (\<forall>i<k. src ! (ip + 1 + i) = src ! (m + 1 + i))
        else ip + 1 < p \<and> p \<le> ip + 1 + k \<and> (\<forall>i<p - 1 - (ip + 1). src ! (ip + 1 + i) = src ! (m + 1 + i))"
      using Suc.IH [of "m + 1" "ip + 1"] Suc.prems by auto
    have *: "src ! (ip + i) = src ! (m + i)" if "i < Suc j" "\<forall>i<j. src ! (ip + 1 + i) = src ! (m + 1 + i)" for i j
      using that True by (cases i) auto
    have "p - 1 - ip = Suc (p - 1 - (ip + 1))" if "\<not> a"
      using p(2) that by auto
    with p * show ?thesis
      using True Suc.prems by (cases a) (auto simp: rd_def)
  next
    case False
    with Suc.prems show ?thesis
      by (intro exI [of _ "ip + 1"] exI [of _ False]) (simp add: rd_def)
  qed
qed (intro exI [of _ "_ :: nat"] exI [of _ True], simp)

lemma extend_to_ok:
  "m \<le> ip \<Longrightarrow> e \<le> length src \<Longrightarrow> ip \<le> e \<Longrightarrow> \<exists>q. extend_to e src m ip = Some q \<and> ip \<le> q \<and> q \<le> e
     \<and> (\<forall>i<q - ip. src ! (ip + i) = src ! (m + i))"
proof (induction "e - ip" arbitrary: m ip rule: less_induct)
  case less
  show ?case
  proof (cases "ip < e \<and> src ! m = src ! ip")
    case True
    obtain q where q: "extend_to e src (m + 1) (ip + 1) = Some q" "ip + 1 \<le> q" "q \<le> e"
      "\<forall>i<q - (ip + 1). src ! (ip + 1 + i) = src ! (m + 1 + i)"
      using less.hyps [of "ip + 1" "m + 1"] less.prems True by (auto simp: diff_less_mono2)
    have "src ! (ip + i) = src ! (m + i)" if "i < q - ip" for i
      using that q(4) True by (cases i) auto
    with q True less.prems show ?thesis
      by (subst extend_to.simps) (auto simp: rd_def)
  next
    case False
    with less.prems show ?thesis
      by (subst extend_to.simps) (auto simp: rd_def)
  qed
qed

lemma copy_of_equal:
  assumes "0 < off" "off \<le> ip" "ip + n \<le> length src" "\<forall>i<n. src ! (ip + i) = src ! (ip - off + i)"
  shows "lz_copy off n (take ip src) = take (ip + n) src"
  using assms by (intro lz_copy_prefix) auto

lemma equal_join:
  "(\<forall>i<a. P i) \<Longrightarrow> (\<forall>i<b. P (a + i)) \<Longrightarrow> \<forall>i<a + b. P i" for a b :: nat
  by (metis add_diff_inverse_nat nat_add_left_cancel_less)

lemma lzo1_extend_ok:
  assumes rb: "rbits rb" and off: "0 < off" "off \<le> ip"
    and ip: "ip + DVAL_LEN + MIN_MATCH_LONG rb < length src"
    and eq: "\<forall>i<3. src ! (ip + i) = src ! (ip - off + i)"
  obtains short n where "lzo1_extend rb src (ip - off) ip = Some (short, n)"
    "3 \<le> n" "short \<Longrightarrow> n \<le> MAX_MATCH_SHORT rb" "\<not> short \<Longrightarrow> MIN_MATCH_LONG rb \<le> n \<and> n \<le> MAX_MATCH_LONG rb"
    "ip + n + DVAL_LEN \<le> length src" "lz_copy off n (take ip src) = take (ip + n) src"
proof -
  note sz = rbits_sizes [OF rb]
  define k where "k = MIN_MATCH_LONG rb - MIN_MATCH"
  have k: "MIN_MATCH_LONG rb = k + 3" using sz by (simp add: k_def MIN_MATCH_def)
  obtain p a where p: "ps_steps k src (ip - off + 3) (ip + 3) = Some (p, a)"
    "if a then p = ip + 3 + k \<and> (\<forall>i<k. src ! (ip + 3 + i) = src ! (ip - off + 3 + i))
     else ip + 3 < p \<and> p \<le> ip + 3 + k \<and> (\<forall>i<p - 1 - (ip + 3). src ! (ip + 3 + i) = src ! (ip - off + 3 + i))"
    using ps_steps_ok [of "ip - off + 3" "ip + 3" k src] ip k by auto
  let ?P = "\<lambda>i. src ! (ip + i) = src ! (ip - off + i)"
  show thesis
  proof (cases a)
    case False
    define n where "n = p - 1 - ip"
    have n: "n = 3 + (p - 1 - (ip + 3))" "n \<le> k + 2" using p(2) False by (auto simp: n_def)
    have "\<forall>i<3 + (p - 1 - (ip + 3)). ?P i"
      using eq p(2) False by (intro equal_join) (simp_all add: add.assoc)
    then have all: "\<forall>i<n. ?P i" by (simp add: n(1))
    show thesis
    proof (rule that [of True n])
      show "lzo1_extend rb src (ip - off) ip = Some (True, n)"
        using p(1) False
        by (simp add: lzo1_extend_def Let_def k_def [unfolded MIN_MATCH_def, symmetric] MIN_MATCH_def n_def)
      show "lz_copy off n (take ip src) = take (ip + n) src"
        using off ip n(2) k all by (intro copy_of_equal) auto
    qed (use n k ip sz in auto)
  next
    case True
    then have pe: "p = ip + 3 + k" using p(2) by simp
    define e where "e = (if length src - DVAL_LEN - p \<le> MAX_MATCH_LONG rb - MIN_MATCH_LONG rb
       then length src - DVAL_LEN else p + (MAX_MATCH_LONG rb - MIN_MATCH_LONG rb))"
    have e: "p \<le> e" "e \<le> length src - DVAL_LEN" "e \<le> p + 255"
      using ip k by (auto simp: e_def pe MAX_MATCH_LONG_def)
    have "e \<le> length src" using e(2) by simp
    then obtain q where q: "extend_to e src (ip - off + (p - ip)) p = Some q" "p \<le> q" "q \<le> e"
      "\<forall>i<q - p. src ! (p + i) = src ! (ip - off + (p - ip) + i)"
      using extend_to_ok [of "ip - off + (p - ip)" p e src] e by (auto simp: pe)
    define n where "n = q - ip"
    have n: "n = 3 + k + (q - p)" "q = ip + n" using q(2) by (auto simp: n_def pe)
    have "\<forall>i<3 + k. ?P i"
      using eq p(2) True by (intro equal_join) (simp_all add: add.assoc)
    then have "\<forall>i<3 + k + (q - p). ?P i"
      using q(4) by (intro equal_join) (simp_all add: pe add.assoc)
    then have all: "\<forall>i<n. ?P i" by (simp add: n(1))
    show thesis
    proof (rule that [of False n])
      show "lzo1_extend rb src (ip - off) ip = Some (False, n)"
        using p(1) q(1) [unfolded e_def] True
        by (simp add: lzo1_extend_def k_def [unfolded MIN_MATCH_def, symmetric] MIN_MATCH_def Let_def n_def
            split: if_splits)
      show len: "ip + n + DVAL_LEN \<le> length src"
        using e(2) q(3) n(2) ip by simp
      then show "lz_copy off n (take ip src) = take (ip + n) src"
        using off all by (intro copy_of_equal) auto
      show "MIN_MATCH_LONG rb \<le> n \<and> n \<le> MAX_MATCH_LONG rb"
        using n e(3) q(2,3) k by (auto simp: MAX_MATCH_LONG_def pe)
    qed (use n in auto)
  qed
qed

section \<open>Inserting phrases\<close>

lemma insert_di_ok:
  "ii + k + 2 < length src \<Longrightarrow> dict_before base dict (ii + 1) \<Longrightarrow>
     \<exists>dv' dict'. insert_di k d_bits base src ii dv dict = Some (dv', dict') \<and> dict_before base dict' (ii + k + 1)"
proof (induction k arbitrary: ii dv dict)
  case (Suc k)
  obtain v where v: "DVAL_NEXT src dv (ii + 1) = Some v"
    using DVAL_NEXT_Some [of "ii + 1" src dv] Suc.prems(1) by auto
  have "dict_before base (dict(DINDEX_A d_bits v := DENTRY base (ii + 1))) (ii + 1 + 1)"
    using Suc.prems(2) by (intro dict_before_update) auto
  with Suc.IH [of "ii + 1" "dict(DINDEX_A d_bits v := DENTRY base (ii + 1))" v] Suc.prems(1) v
  show ?case by (simp del: fun_upd_apply fun_upd_def)
qed simp

lemma insert_match_ok:
  assumes "ii + n + 2 < length src" "dict_before base dict (ii + 1)" "0 < n" "\<And>k. mode = Some k \<Longrightarrow> k < n"
  obtains dv' dict' where "insert_match mode d_bits base src ii (ii + n) dv dict = Some (dv', dict')"
    "dict_before base dict' (ii + n)"
proof -
  define k where "k = (case mode of None \<Rightarrow> n - 1 | Some k \<Rightarrow> k)"
  have k: "k < n" using assms(3,4) by (auto simp: k_def split: option.split)
  obtain dv1 dict1 where 1: "insert_di k d_bits base src ii dv dict = Some (dv1, dict1)"
    "dict_before base dict1 (ii + k + 1)"
    using insert_di_ok [of ii k src base dict d_bits dv] assms k by auto
  obtain v where v: "DVAL_NEXT src dv1 (ii + n) = Some v"
    using DVAL_NEXT_Some [of "ii + n" src dv1] assms by auto
  obtain w where w: "DVAL_FIRST src (ii + n) = Some w"
    using DVAL_FIRST_Some [of "ii + n" src] assms by auto
  show thesis
  proof (rule that [of "if mode = None then v else w" dict1])
    show "insert_match mode d_bits base src ii (ii + n) dv dict = Some (if mode = None then v else w, dict1)"
      using 1(1) v w by (cases mode) (simp_all add: insert_match_def k_def)
    show "dict_before base dict1 (ii + n)"
      by (rule dict_before_mono [OF 1(2)]) (use k in simp)
  qed
qed

lemma short_inserts_less: "short_inserts rb cl = Some k \<Longrightarrow> k < 3"
  by (auto simp: short_inserts_def split: if_splits)

lemma long_inserts_less: "rbits rb \<Longrightarrow> long_inserts cl = Some k \<Longrightarrow> k < MIN_MATCH_LONG rb"
  using rbits_sizes(4,8) [of rb] by (auto simp: long_inserts_def split: if_splits)

section \<open>The compressor\<close>

text \<open>\<open>K rb\<close>: short runs of literals cost one byte in \<open>K rb\<close> at most\<close>

definition K :: "nat \<Rightarrow> nat" where
  "K rb = (if rb = 3 then 8 else 16)"

definition lzo1_inv :: "nat \<Rightarrow> byte list \<Rightarrow> byte list \<Rightarrow> nat \<Rightarrow> bool" where
  "lzo1_inv rb src op ii \<longleftrightarrow>
     decodes (lzo1_loop rb) op [] (take ii src) \<and> ii \<le> length src \<and> K rb * length op \<le> (K rb + 1) * ii"

lemma lzo1_literal_run_ok:
  assumes "rbits rb" "ii + t \<le> length src"
  obtains code where "lzo1_literal_run rb src ii t op = Some (op @ code)" "stored rb src ii t code"
    "t = 0 \<Longrightarrow> code = []" "length code \<le> t + 1 \<or> R0MIN rb \<le> t \<and> 128 * length code \<le> 129 * t + 256"
proof -
  consider (none) "t = 0" | (short) "0 < t" "t < R0MIN rb" | (long) "0 < t" "R0MIN rb \<le> t" by linarith
  then show thesis
  proof cases
    case none
    with that [of "[]"] assms(2) show thesis by (simp add: lzo1_literal_run_def)
  next
    case short
    have "stored rb src ii t ([LZO_BYTE t] @ slice t src ii)"
      using assms short lzo1_decode_run [of rb] by (intro stored_code) auto
    with that [of "LZO_BYTE t # slice t src ii"] short assms(2) show thesis
      by (simp add: lzo1_literal_run_def load_ok length_slice)
  next
    case long
    obtain code where "store_run rb src ii t op = Some (op @ code)" "stored rb src ii t code"
      "128 * length code \<le> 129 * t + 256"
      by (rule store_run_ok [OF assms])
    with that [of code] long show thesis by (simp add: lzo1_literal_run_def)
  qed
qed

lemma run_match_cost:
  assumes "rbits rb" "length c \<le> t + 1 \<or> R0MIN rb \<le> t \<and> 128 * length c \<le> 129 * t + 256"
    and "length m + 1 \<le> n" "3 \<le> n"
  shows "K rb * length (c @ m) \<le> (K rb + 1) * (t + n)"
proof (cases "length c \<le> t + 1")
  case True
  then have "length (c @ m) \<le> t + n" using assms(3) by simp
  then show ?thesis by (rule mult_le_mono [OF le_add1])
next
  case False
  then have t: "R0MIN rb \<le> t" "128 * length c \<le> 129 * t + 256" using assms(2) by auto
  show ?thesis
  proof (cases "rb = 3")
    case True
    with t assms(3,4) show ?thesis by (simp add: K_def R0MIN_def)
  next
    case False
    then have "16 \<le> R0MIN rb"
      using rbits_cases [OF assms(1)] by (auto simp: R0MIN_def)
    with t assms(3,4) False show ?thesis by (simp add: K_def)
  qed
qed

lemma lzo1_inv_step:
  assumes rb: "rbits rb" and inv: "lzo1_inv rb src op ii" and ip: "ii \<le> ip" "ip + n \<le> length src"
    and c: "stored rb src ii (ip - ii) c"
      "length c \<le> ip - ii + 1 \<or> R0MIN rb \<le> ip - ii \<and> 128 * length c \<le> 129 * (ip - ii) + 256"
    and m: "decodes (lzo1_loop rb) m (take ip src) (take (ip + n) src)" "length m + 1 \<le> n" "3 \<le> n"
  shows "lzo1_inv rb src (op @ c @ m) (ip + n)"
proof -
  have "take ii src @ slice (ip - ii) src ii = take ip src"
    using ip(1) by (simp add: take_slice)
  then have "decodes (lzo1_loop rb) c (take ii src) (take ip src)"
    using c(1) unfolding stored_def by metis
  then have "decodes (lzo1_loop rb) (op @ c @ m) [] (take (ip + n) src)"
    using inv m(1) unfolding lzo1_inv_def by (intro decodes_append [of _ op _ "take ii src"]
        decodes_append [of _ c _ "take ip src"]) auto
  moreover have "K rb * length (c @ m) \<le> (K rb + 1) * (ip - ii + n)"
    by (rule run_match_cost [OF rb c(2) m(2,3)])
  moreover have "ii + (ip - ii + n) = ip + n" using ip(1) by simp
  ultimately show ?thesis
    using inv ip(2) unfolding lzo1_inv_def length_append [of op]
    by (metis add_le_mono distrib_left)
qed

lemma lzo1_c_loop_ok:
  assumes rb: "rbits rb"
    and "lzo1_inv rb src op ii" "ii \<le> ip" "ip + DVAL_LEN + MIN_MATCH_LONG rb < length src"
    and "dict_before base dict ip" and size: "length src < 2 ^ 64"
  obtains op' ii' where "lzo1_c_loop rb cl base src ip ii op dv dict = Some (op', ii')"
    "lzo1_inv rb src op' ii'"
  using assms(2-5)
proof (induction "length src - ip" arbitrary: ip ii op dv dict thesis rule: less_induct)
  case less
  note sz = rbits_sizes [OF rb]
  have ip: "ip < 2 ^ 64" "ip + 3 \<le> length src" and ip_end: "ip < length src - DVAL_LEN - MIN_MATCH_LONG rb"
    using less.prems(4) size sz by (simp_all add: DVAL_LEN_def)
  have use: "\<forall>i off. check_det base (MAX_OFFSET rb) ip (dict i) = Some off \<longrightarrow>
      usable base (MAX_OFFSET rb) ip (dict i) off"
    using check_det_usable [OF _ less.prems(5) ip(1)] by blast
  show ?case
  proof (cases rule: lzo1_find_ok [where d_bits = "DBITS rb" and check = "check_det base (MAX_OFFSET rb)" and dict = dict,
        OF ip(2) use, case_names none match])
    case (none d)
    let ?dict = "dict(d := DENTRY base ip)"
    have d: "dict_before base ?dict (ip + 1)"
      using less.prems(5) by (rule dict_before_update) auto
    have step: "lzo1_c_loop rb cl base src ip ii op dv dict =
      (if ip + 1 \<ge> length src - DVAL_LEN - MIN_MATCH_LONG rb then Some (op, ii)
       else lzo1_c_loop rb cl base src (ip + 1) ii op dv ?dict)"
      using none by (subst lzo1_c_loop.simps) (simp add: Let_def del: fun_upd_apply)
    show thesis
    proof (cases "ip + 1 \<ge> length src - DVAL_LEN - MIN_MATCH_LONG rb")
      case True
      with step less.prems(1,2) show thesis by simp
    next
      case False
      then have lt: "length src - (ip + 1) < length src - ip" "ii \<le> ip + 1"
        "ip + 1 + DVAL_LEN + MIN_MATCH_LONG rb < length src"
        using less.prems(3) by simp_all
      show thesis
        by (rule less.hyps [OF lt(1) _ less.prems(2) lt(2,3) d])
          (use step False less.prems(1) in \<open>simp del: fun_upd_apply\<close>)
    qed
  next
    case (match d off)
    let ?dict = "dict(d := DENTRY base ip)"
    have d: "dict_before base ?dict (ip + 1)"
      using less.prems(5) by (rule dict_before_update) auto
    have "ii + (ip - ii) \<le> length src" using less.prems(3) ip by simp
    from lzo1_literal_run_ok [OF rb this, of op] obtain c where
      c: "lzo1_literal_run rb src ii (ip - ii) op = Some (op @ c)" "stored rb src ii (ip - ii) c"
        "length c \<le> ip - ii + 1 \<or> R0MIN rb \<le> ip - ii \<and> 128 * length c \<le> 129 * (ip - ii) + 256"
      by blast
    obtain short n where x: "lzo1_extend rb src (ip - off) ip = Some (short, n)"
      "3 \<le> n" "short \<Longrightarrow> n \<le> MAX_MATCH_SHORT rb" "\<not> short \<Longrightarrow> MIN_MATCH_LONG rb \<le> n \<and> n \<le> MAX_MATCH_LONG rb"
      "ip + n + DVAL_LEN \<le> length src" "lz_copy off n (take ip src) = take (ip + n) src"
      by (rule lzo1_extend_ok [OF rb match(2,4) less.prems(4) match(5)]) blast
    define m where "m = (if short then short_code rb n off else long_code rb n off)"
    have off: "off \<le> length (take ip src)" using match(4) ip by simp
    have m: "decodes (lzo1_loop rb) m (take ip src) (take (ip + n) src)" "length m + 1 \<le> n"
    proof -
      show "decodes (lzo1_loop rb) m (take ip src) (take (ip + n) src)"
        unfolding m_def x(6) [symmetric]
        using decode_short [OF rb x(2) x(3) match(2,3) off] decode_long [OF rb _ _ match(2,3) off] x(4) by auto
      show "length m + 1 \<le> n"
        using x(2,4) sz by (cases short) (auto simp: m_def short_code_def long_code_def Let_def)
    qed
    define mode where "mode = (if short then short_inserts rb cl else long_inserts cl)"
    have mode: "k < n" if "mode = Some k" for k
      using that short_inserts_less [of rb cl k] long_inserts_less [OF rb, of cl k] x(2,4)
      by (auto simp: mode_def split: if_splits)
    have lim: "ip + n + 2 < length src" using x(5) by (simp add: DVAL_LEN_def)
    obtain dv' dict' where i: "insert_match mode (DBITS rb) base src ip (ip + n) dv ?dict = Some (dv', dict')"
      "dict_before base dict' (ip + n)"
      by (rule insert_match_ok [OF lim d _ mode]) (use x(2) in auto)
    have inv: "lzo1_inv rb src (op @ c @ m) (ip + n)"
      by (rule lzo1_inv_step [OF rb less.prems(2,3) _ c(2,3) m x(2)]) (use lim in simp)
    have step: "lzo1_c_loop rb cl base src ip ii op dv dict =
      (if ip + n < length src - DVAL_LEN - MIN_MATCH_LONG rb
       then lzo1_c_loop rb cl base src (ip + n) (ip + n) (op @ c @ m) dv' dict'
       else Some (op @ c @ m, ip + n))"
      using match(1) c(1) x(1) i(1)
      by (subst lzo1_c_loop.simps) (simp add: Let_def m_def [symmetric] mode_def [symmetric] del: fun_upd_apply)
    show thesis
    proof (cases "ip + n < length src - DVAL_LEN - MIN_MATCH_LONG rb")
      case True
      then have lt: "length src - (ip + n) < length src - ip" "ip + n \<le> ip + n"
        "ip + n + DVAL_LEN + MIN_MATCH_LONG rb < length src"
        using x(2) by simp_all
      show thesis
        by (rule less.hyps [OF lt(1) _ inv lt(2,3) i(2)]) (use step True less.prems(1) in simp)
    next
      case False
      with step inv less.prems(1) show thesis by simp
    qed
  qed
qed

lemma lzo1_compress_ok:
  assumes rb: "rbits rb" and size: "length src < 2 ^ 64"
  obtains op where "lzo1_compress_rb rb cl base src = Some (LZO_E_OK, op)"
    "decodes (lzo1_loop rb) op [] src" "length op \<le> length src + length src div K rb + 2"
proof -
  note result = that
  have bound: "length (op @ c) \<le> length src + length src div K rb + 2"
    if "K rb * length op \<le> (K rb + 1) * ii" "ii \<le> length src" "128 * length c \<le> 129 * (length src - ii) + 256" for op c :: "byte list" and ii
  proof -
    have "K rb * length (op @ c) \<le> (K rb + 1) * length src + 2 * K rb"
      using that by (auto simp: K_def)
    moreover have "8 * x \<le> 9 * n + 16 \<Longrightarrow> x \<le> n + n div 8 + 2" "16 * x \<le> 17 * n + 32 \<Longrightarrow> x \<le> n + n div 16 + 2" for x n :: nat
      by arith+
    ultimately show ?thesis by (cases "rb = 3") (simp_all add: K_def)
  qed
  have finish: thesis
    if inv: "lzo1_inv rb src op ii" and r: "\<And>op'. store_run rb src ii (length src - ii) op = Some op' \<Longrightarrow> ii < length src \<Longrightarrow>
        lzo1_compress_rb rb cl base src = Some (LZO_E_OK, op')"
      "ii = length src \<Longrightarrow> lzo1_compress_rb rb cl base src = Some (LZO_E_OK, op)" for op ii
  proof (cases "ii < length src")
    case True
    then have "ii + (length src - ii) \<le> length src" by simp
    from store_run_ok [OF rb this, of op] obtain c where c: "store_run rb src ii (length src - ii) op = Some (op @ c)"
      "stored rb src ii (length src - ii) c" "128 * length c \<le> 129 * (length src - ii) + 256"
      by blast
    have "take ii src @ slice (length src - ii) src ii = src"
      using True by (simp add: take_slice)
    then have "decodes (lzo1_loop rb) (op @ c) [] src"
      using inv c(2) unfolding lzo1_inv_def stored_def by (metis decodes_append)
    with result [of "op @ c"] r(1) [OF c(1) True] bound [OF _ _ c(3), where op = op] inv show thesis
      by (auto simp: lzo1_inv_def)
  next
    case False
    then have "ii = length src" using inv by (simp add: lzo1_inv_def)
    with result [of op] r(2) bound [where op = op and ii = ii and c = "[]"] inv show thesis
      by (auto simp: lzo1_inv_def)
  qed
  have zero: "lzo1_inv rb src [] 0" by (simp add: lzo1_inv_def)
  show thesis
  proof (cases "length src \<le> MIN_MATCH_LONG rb + DVAL_LEN + 1")
    case True
    show thesis
      by (rule finish [OF zero]) (use True in \<open>auto simp: lzo1_compress_rb_def\<close>)
  next
    case False
    then have len: "1 + DVAL_LEN + MIN_MATCH_LONG rb < length src" "4 < length src"
      by (simp_all add: DVAL_LEN_def)
    obtain v where v: "DVAL_FIRST src 0 = Some v" using DVAL_FIRST_Some [of 0 src] len by auto
    obtain w where w: "DVAL_NEXT src v 1 = Some w" using DVAL_NEXT_Some [of 1 src v] len by auto
    let ?dict = "(\<lambda>_. NULL)(DINDEX_A (DBITS rb) v := DENTRY base 0)"
    have d: "dict_before base ?dict 1"
      by (rule dict_before_update [of _ _ 0]) simp_all
    obtain op ii where l: "lzo1_c_loop rb cl base src 1 0 [] w ?dict = Some (op, ii)" "lzo1_inv rb src op ii"
      by (rule lzo1_c_loop_ok [OF rb zero _ len(1) d size]) auto
    show thesis
      by (rule finish [OF l(2)])
        (use False v w l(1) in \<open>auto simp: lzo1_compress_rb_def lzo1_do_compress_def Let_def simp del: fun_upd_apply\<close>)
  qed
qed

section \<open>The codec contract\<close>

lemma lzo1_decode_all:
  assumes "decodes (lzo1_loop rb) op [] src" "length src \<le> cap"
  shows "lzo1_decompress_rb rb debug op cap = Some (LZO_E_OK, src)"
proof -
  let ?E = "untested_env debug op cap"
  have E: "d_in ?E = op" "d_cap ?E = cap"
    by (simp_all add: untested_env_def)
  then have "lzo1_loop rb ?E (dst 0 []) = lzo1_loop rb ?E (dst (length op) src)"
    using decodes_run [OF assms(1), of ?E 0] assms(2) by (simp add: at_def)
  also have "\<dots> = Some (LZO_E_OK, src)"
    by (subst lzo1_loop.simps) (simp add: E)
  finally show ?thesis
    by (simp add: lzo1_decompress_rb_def)
qed

lemma lzo1_codec:
  assumes "rbits rb" "length src \<le> MAX_OBJECT"
  obtains out where "lzo1_compress_rb rb cl base src = Some (LZO_E_OK, out)"
    "length out \<le> length src + length src div K rb + 2"
    "\<And>cap debug. length src \<le> cap \<Longrightarrow> lzo1_decompress_rb rb debug out cap = Some (LZO_E_OK, src)"
proof -
  have "length src < 2 ^ 64"
    using assms(2) by (simp add: MAX_OBJECT_def)
  then obtain out where out: "lzo1_compress_rb rb cl base src = Some (LZO_E_OK, out)"
    "decodes (lzo1_loop rb) out [] src" "length out \<le> length src + length src div K rb + 2"
    by (rule lzo1_compress_ok [OF assms(1)])
  show thesis
    by (rule that [OF out(1,3)]) (rule lzo1_decode_all [OF out(2)])
qed

interpretation lzo1: block_codec "lzo1_compress base" lzo1_decompress x_worst MAX_OBJECT
  for base
proof
  fix src :: "byte list"
  assume len: "length src \<le> MAX_OBJECT"
  have "rbits 5" by (simp add: rbits_def)
  then obtain out where
    "lzo1_compress_rb 5 1 base src = Some (LZO_E_OK, out)" "length out \<le> length src + length src div K 5 + 2"
    and d: "\<And>cap debug. length src \<le> cap \<Longrightarrow> lzo1_decompress_rb 5 debug out cap = Some (LZO_E_OK, src)"
    by (rule lzo1_codec [OF _ len]) blast
  then have out: "lzo1_compress base src = Some (LZO_E_OK, out)" "length out \<le> length src + length src div 16 + 2"
    "\<And>cap. length src \<le> cap \<Longrightarrow> lzo1_decompress out cap = Some (LZO_E_OK, src)"
    using d by (simp_all only: lzo1_compress_def lzo1_decompress_def K_def) simp_all
  then show "\<exists>out. lzo1_compress base src = Some (LZO_E_OK, out) \<and> length out \<le> x_worst (length src)"
    by (auto simp: x_worst_def)
  show "lzo1_decompress out cap = Some (LZO_E_OK, src)"
    if "lzo1_compress base src = Some (LZO_E_OK, out)" "length src \<le> cap" for out cap
    using that out by simp
qed

text \<open>
  C8. Round trip of LZO1 for every \<open>RBITS\<close> from 3 to 5, every compression level and every address of
  the source: \<open>lzo1_compress\<close> returns \<open>LZO_E_OK\<close> without reading outside its source, expands it by at
  most 1/16 (1/8 with \<open>RBITS\<close> 3) and two bytes, and \<open>lzo1_decompress\<close> gives back the source; in a
  debug build none of its assertions fails on the way.
\<close>

theorem lzo1_roundtrip:
  assumes "3 \<le> rb" "rb \<le> 5" "length src \<le> MAX_OBJECT" "length src \<le> cap"
  shows "\<exists>out. lzo1_compress_rb rb cl base src = Some (LZO_E_OK, out)
    \<and> length out \<le> length src + length src div (if rb = 3 then 8 else 16) + 2
    \<and> lzo1_decompress_rb rb debug out cap = Some (LZO_E_OK, src)"
proof -
  have "rbits rb" using assms(1,2) by (simp add: rbits_def)
  then obtain out where out: "lzo1_compress_rb rb cl base src = Some (LZO_E_OK, out)"
    "length out \<le> length src + length src div K rb + 2"
    "\<And>cap debug. length src \<le> cap \<Longrightarrow> lzo1_decompress_rb rb debug out cap = Some (LZO_E_OK, src)"
    by (rule lzo1_codec [OF _ assms(3)]) blast
  show ?thesis
    using out(1,2) out(3) [OF assms(4)] by (simp add: K_def)
qed

lemma lzo1_roundtrip_witness:
  "\<exists>out. lzo1_compress_rb 4 9 4096 (replicate 60 7) = Some (LZO_E_OK, out)
    \<and> length out \<le> 65 \<and> lzo1_decompress_rb 4 True out 60 = Some (LZO_E_OK, replicate 60 7)"
  using lzo1_roundtrip [of 4 "replicate 60 7" 60 9 4096 True] by (simp add: MAX_OBJECT_def)

end
