(* ===== verification/Convert_UTF.thy ===== *)
theory Convert_UTF
  imports LZO_Prelude "HOL-Library.Monad_Syntax"
begin

text \<open>
  The Unicode converters of \<open>src/app/breakpad/src/common/convert_UTF.c\<close>: \<open>ConvertUTF32toUTF16\<close>,
  \<open>ConvertUTF16toUTF32\<close>, \<open>ConvertUTF16toUTF8\<close>, \<open>ConvertUTF8toUTF16\<close>, \<open>ConvertUTF32toUTF8\<close>,
  \<open>ConvertUTF8toUTF32\<close>, \<open>isLegalUTF8\<close> and \<open>isLegalUTF8Sequence\<close>.

  \<^item> \<open>UTF32\<close> is \<open>unsigned long\<close>, 64 bits wide in the LP64 build.
  \<^item> Each function is a loop over the source; its body is a definition \<open><from>to<to>_body\<close> of the
    code unit \<open>x\<close> at \<open>source\<close>, the units \<open>rest\<close> behind it, the target written so far and \<open>result\<close>.
    \<open>Continue k out r\<close> goes on behind \<open>x\<close> and \<open>k\<close> more units; \<open>Break out r\<close> is a \<open>break\<close>, before
    which the code always moves \<open>source\<close> back to \<open>x\<close>.  The value of a call is the returned result,
    the source that is left (\<open>*sourceStart\<close>) and the target written (up to \<open>*targetStart\<close>);
    \<open>cap\<close> is \<open>targetEnd - *targetStart\<close>.
  \<^item> Every access is checked: \<open>None\<close> is a read at or behind \<open>sourceEnd\<close> (\<open>unit_at\<close>, \<open>units\<close>), a write
    at or behind \<open>targetEnd\<close> (\<open>write_on\<close>), or a \<open>source\<close> moved past \<open>sourceEnd\<close> (\<open>conv_loop\<close>).
  \<^item> \<open>enc8\<close>, \<open>enc16\<close> and \<open>enc32\<close> are the reference encodings of a Unicode scalar value.  The locale
    \<open>transcoder\<close> says what a body owes to them, and is interpreted for all six converters.
\<close>

type_synonym utf8 = "8 word"
type_synonym utf16 = "16 word"
type_synonym utf32 = "64 word"

datatype ConversionResult = conversionOK | sourceExhausted | targetExhausted | sourceIllegal
datatype ConversionFlags = strictConversion | lenientConversion

definition UNI_REPLACEMENT_CHAR :: utf32 where "UNI_REPLACEMENT_CHAR = 0xFFFD"
definition UNI_MAX_BMP :: utf32 where "UNI_MAX_BMP = 0xFFFF"
definition UNI_MAX_UTF16 :: utf32 where "UNI_MAX_UTF16 = 0x10FFFF"
definition UNI_MAX_LEGAL_UTF32 :: utf32 where "UNI_MAX_LEGAL_UTF32 = 0x10FFFF"
definition UNI_SUR_HIGH_START :: utf32 where "UNI_SUR_HIGH_START = 0xD800"
definition UNI_SUR_HIGH_END :: utf32 where "UNI_SUR_HIGH_END = 0xDBFF"
definition UNI_SUR_LOW_START :: utf32 where "UNI_SUR_LOW_START = 0xDC00"
definition UNI_SUR_LOW_END :: utf32 where "UNI_SUR_LOW_END = 0xDFFF"
definition halfBase :: utf32 where "halfBase = 0x10000"
definition halfMask :: utf32 where "halfMask = 0x3FF"
definition halfShift :: nat where "halfShift = 10"

lemmas uni_consts =
  UNI_REPLACEMENT_CHAR_def UNI_MAX_BMP_def UNI_MAX_UTF16_def UNI_MAX_LEGAL_UTF32_def
  UNI_SUR_HIGH_START_def UNI_SUR_HIGH_END_def UNI_SUR_LOW_START_def UNI_SUR_LOW_END_def
  halfBase_def halfMask_def halfShift_def

section \<open>The conversion loop\<close>

datatype 't conv_step = Continue nat "'t list" ConversionResult | Break "'t list" ConversionResult

definition unit_at :: "'s list \<Rightarrow> nat \<Rightarrow> 's option" where
  "unit_at source i = (if i < length source then Some (source ! i) else None)"

definition units :: "'s list \<Rightarrow> nat \<Rightarrow> 's list option" where
  "units source n = (if n \<le> length source then Some (take n source) else None)"

text \<open>The units \<open>new\<close> are written at \<open>target\<close>, and the loop goes on.\<close>

definition write_on :: "nat \<Rightarrow> nat \<Rightarrow> 't list \<Rightarrow> 't list \<Rightarrow> ConversionResult \<Rightarrow> 't conv_step option" where
  "write_on cap k out new result =
     (if length out + length new \<le> cap then Some (Continue k (out @ new) result) else None)"

function conv_loop ::
    "('s \<Rightarrow> 's list \<Rightarrow> 't list \<Rightarrow> ConversionResult \<Rightarrow> 't conv_step option) \<Rightarrow> 's list \<Rightarrow> 't list \<Rightarrow>
     ConversionResult \<Rightarrow> (ConversionResult \<times> 's list \<times> 't list) option" where
  "conv_loop body [] out r = Some (r, [], out)"
| "conv_loop body (x # rest) out r =
     (case body x rest out r of
        None \<Rightarrow> None
      | Some (Break out r) \<Rightarrow> Some (r, x # rest, out)
      | Some (Continue k out r) \<Rightarrow>
          if k \<le> length rest then conv_loop body (drop k rest) out r else None)"
  by pat_completeness auto
termination
  by (relation "measure (\<lambda>(body, xs, out, r). length xs)") auto

section \<open>UTF-32 and UTF-16\<close>

definition UTF32toUTF16_body ::
    "ConversionFlags \<Rightarrow> nat \<Rightarrow> utf32 \<Rightarrow> utf32 list \<Rightarrow> utf16 list \<Rightarrow> ConversionResult \<Rightarrow> utf16 conv_step option" where
  "UTF32toUTF16_body flags cap ch rest out result =
     (if length out \<ge> cap then Some (Break out targetExhausted)
      else if ch \<le> UNI_MAX_BMP then
        if ch \<ge> UNI_SUR_HIGH_START \<and> ch \<le> UNI_SUR_LOW_END then
          if flags = strictConversion then Some (Break out sourceIllegal)
          else write_on cap 0 out [ucast UNI_REPLACEMENT_CHAR] result
        else write_on cap 0 out [ucast ch] result
      else if ch > UNI_MAX_LEGAL_UTF32 then
        if flags = strictConversion then Some (Continue 0 out sourceIllegal)
        else write_on cap 0 out [ucast UNI_REPLACEMENT_CHAR] result
      else if length out + 1 \<ge> cap then Some (Break out targetExhausted)
      else
        let ch = ch - halfBase in
        write_on cap 0 out [ucast (drop_bit halfShift ch + UNI_SUR_HIGH_START),
                           ucast ((ch AND halfMask) + UNI_SUR_LOW_START)] result)"

definition ConvertUTF32toUTF16 ::
    "utf32 list \<Rightarrow> nat \<Rightarrow> ConversionFlags \<Rightarrow> (ConversionResult \<times> utf32 list \<times> utf16 list) option" where
  "ConvertUTF32toUTF16 source cap flags =
     conv_loop (UTF32toUTF16_body flags cap) source [] conversionOK"

text \<open>
  The head of the two loops that read UTF-16: \<open>Inl\<close> is a \<open>break\<close> with the result, \<open>Inr (ch, k)\<close>
  the character and the number of units read behind the first one.
\<close>

definition read_UTF16 ::
    "ConversionFlags \<Rightarrow> utf16 \<Rightarrow> utf16 list \<Rightarrow> (ConversionResult + utf32 \<times> nat) option" where
  "read_UTF16 flags x rest =
     (let ch = ucast x :: utf32 in
      if ch \<ge> UNI_SUR_HIGH_START \<and> ch \<le> UNI_SUR_HIGH_END then
        if length rest > 0 then do {
          y \<leftarrow> unit_at rest 0;
          let ch2 = (ucast y :: utf32);
          Some
            (if ch2 \<ge> UNI_SUR_LOW_START \<and> ch2 \<le> UNI_SUR_LOW_END then
               Inr (push_bit halfShift (ch - UNI_SUR_HIGH_START) + (ch2 - UNI_SUR_LOW_START) + halfBase, 1)
             else if flags = strictConversion then Inl sourceIllegal
             else Inr (ch, 0))
        }
        else Some (Inl sourceExhausted)
      else if flags = strictConversion \<and> ch \<ge> UNI_SUR_LOW_START \<and> ch \<le> UNI_SUR_LOW_END then
        Some (Inl sourceIllegal)
      else Some (Inr (ch, 0)))"

definition UTF16toUTF32_body ::
    "ConversionFlags \<Rightarrow> nat \<Rightarrow> utf16 \<Rightarrow> utf16 list \<Rightarrow> utf32 list \<Rightarrow> ConversionResult \<Rightarrow> utf32 conv_step option" where
  "UTF16toUTF32_body flags cap x rest out result =
     (case read_UTF16 flags x rest of
        None \<Rightarrow> None
      | Some (Inl r) \<Rightarrow> Some (Break out r)
      | Some (Inr (ch, k)) \<Rightarrow>
          if length out \<ge> cap then Some (Break out targetExhausted)
          else write_on cap k out [ch] result)"

definition ConvertUTF16toUTF32 ::
    "utf16 list \<Rightarrow> nat \<Rightarrow> ConversionFlags \<Rightarrow> (ConversionResult \<times> utf16 list \<times> utf32 list) option" where
  "ConvertUTF16toUTF32 source cap flags =
     conv_loop (UTF16toUTF32_body flags cap) source [] conversionOK"

section \<open>Writing UTF-8\<close>

definition firstByteMark :: "nat \<Rightarrow> utf8" where
  "firstByteMark n = [0x00, 0x00, 0xC0, 0xE0, 0xF0, 0xF8, 0xFC] ! n"

text \<open>the fall-through \<open>switch (bytesToWrite)\<close>: the last byte is written first\<close>

fun write_UTF8 :: "nat \<Rightarrow> nat \<Rightarrow> utf32 \<Rightarrow> utf8 list \<Rightarrow> utf8 list" where
  "write_UTF8 bytesToWrite k ch acc =
     (if k > 1 then
        write_UTF8 bytesToWrite (k - 1) (drop_bit 6 ch) (ucast ((ch OR 0x80) AND 0xBF) # acc)
      else ucast (ch OR ucast (firstByteMark bytesToWrite)) # acc)"

declare write_UTF8.simps [simp del]

definition UTF16toUTF8_body ::
    "ConversionFlags \<Rightarrow> nat \<Rightarrow> utf16 \<Rightarrow> utf16 list \<Rightarrow> utf8 list \<Rightarrow> ConversionResult \<Rightarrow> utf8 conv_step option" where
  "UTF16toUTF8_body flags cap x rest out result =
     (case read_UTF16 flags x rest of
        None \<Rightarrow> None
      | Some (Inl r) \<Rightarrow> Some (Break out r)
      | Some (Inr (ch, k)) \<Rightarrow>
          let (bytesToWrite, ch) =
            (if ch < 0x80 then (1, ch) else if ch < 0x800 then (2, ch)
             else if ch < 0x10000 then (3, ch) else if ch < 0x110000 then (4, ch)
             else (3, UNI_REPLACEMENT_CHAR))
          in if length out + bytesToWrite > cap then Some (Break out targetExhausted)
             else write_on cap k out (write_UTF8 bytesToWrite bytesToWrite ch []) result)"

definition ConvertUTF16toUTF8 ::
    "utf16 list \<Rightarrow> nat \<Rightarrow> ConversionFlags \<Rightarrow> (ConversionResult \<times> utf16 list \<times> utf8 list) option" where
  "ConvertUTF16toUTF8 source cap flags =
     conv_loop (UTF16toUTF8_body flags cap) source [] conversionOK"

definition UTF32toUTF8_body ::
    "ConversionFlags \<Rightarrow> nat \<Rightarrow> utf32 \<Rightarrow> utf32 list \<Rightarrow> utf8 list \<Rightarrow> ConversionResult \<Rightarrow> utf8 conv_step option" where
  "UTF32toUTF8_body flags cap ch rest out result =
     (if flags = strictConversion \<and> ch \<ge> UNI_SUR_HIGH_START \<and> ch \<le> UNI_SUR_LOW_END then
        Some (Break out sourceIllegal)
      else
        let (bytesToWrite, ch, result) =
          (if ch < 0x80 then (1, ch, result) else if ch < 0x800 then (2, ch, result)
           else if ch < 0x10000 then (3, ch, result)
           else if ch \<le> UNI_MAX_LEGAL_UTF32 then (4, ch, result)
           else (3, UNI_REPLACEMENT_CHAR, sourceIllegal))
        in if length out + bytesToWrite > cap then Some (Break out targetExhausted)
           else write_on cap 0 out (write_UTF8 bytesToWrite bytesToWrite ch []) result)"

definition ConvertUTF32toUTF8 ::
    "utf32 list \<Rightarrow> nat \<Rightarrow> ConversionFlags \<Rightarrow> (ConversionResult \<times> utf32 list \<times> utf8 list) option" where
  "ConvertUTF32toUTF8 source cap flags =
     conv_loop (UTF32toUTF8_body flags cap) source [] conversionOK"

section \<open>Reading UTF-8\<close>

definition trailingBytesForUTF8 :: "utf8 \<Rightarrow> nat" where
  "trailingBytesForUTF8 b =
     (replicate 192 0 @ replicate 32 1 @ replicate 16 2 @ replicate 8 3 @ replicate 4 4 @ replicate 4 5)
       ! unat b"

definition offsetsFromUTF8 :: "nat \<Rightarrow> utf32" where
  "offsetsFromUTF8 n = [0x00000000, 0x00003080, 0x000E2080, 0x03C82080, 0xFA082080, 0x82082080] ! n"

text \<open>
  \<open>isLegalUTF8(source, length)\<close> with the fall-through \<open>switch (length)\<close>, which reads from the last byte
  down
\<close>

definition trails :: "utf8 list \<Rightarrow> nat \<Rightarrow> bool option" where
  "trails source i = do { a \<leftarrow> unit_at source i; Some (\<not> (a < 0x80 \<or> a > 0xBF)) }"

definition second_byte_ok :: "utf8 \<Rightarrow> utf8 \<Rightarrow> bool" where
  "second_byte_ok lead a \<longleftrightarrow> \<not> (a > 0xBF \<or>
     (if lead = 0xE0 then a < 0xA0
      else if lead = 0xED then a > 0x9F
      else if lead = 0xF0 then a < 0x90
      else if lead = 0xF4 then a > 0x8F
      else a < 0x80))"

definition isLegalUTF8 :: "utf8 list \<Rightarrow> nat \<Rightarrow> bool option" where
  "isLegalUTF8 source len =
     (if \<not> (1 \<le> len \<and> len \<le> 4) then Some False
      else do {
        case4 \<leftarrow> (if len \<ge> 4 then trails source 3 else Some True);
        if \<not> case4 then Some False else do {
        case3 \<leftarrow> (if len \<ge> 3 then trails source 2 else Some True);
        if \<not> case3 then Some False else do {
        lead \<leftarrow> unit_at source 0;
        case2 \<leftarrow> (if len \<ge> 2 then do { a \<leftarrow> unit_at source 1; Some (second_byte_ok lead a) } else Some True);
        if \<not> case2 then Some False
        else Some (\<not> (lead \<ge> 0x80 \<and> lead < 0xC2) \<and> \<not> lead > 0xF4) }}})"

text \<open>The first byte is read before its presence is checked.\<close>

definition isLegalUTF8Sequence :: "utf8 list \<Rightarrow> bool option" where
  "isLegalUTF8Sequence source = do {
     lead \<leftarrow> unit_at source 0;
     let len = trailingBytesForUTF8 lead + 1;
     if len > length source then Some False else isLegalUTF8 source len
   }"

text \<open>the fall-through \<open>switch (extraBytesToRead)\<close>: \<open>ch += *source++; ch <<= 6;\<close> and a last \<open>ch += *source++\<close>\<close>

fun add_UTF8 :: "utf8 list \<Rightarrow> utf32 \<Rightarrow> utf32" where
  "add_UTF8 [] ch = ch"
| "add_UTF8 [b] ch = ch + ucast b"
| "add_UTF8 (b # bs) ch = add_UTF8 bs (push_bit 6 (ch + ucast b))"

definition read_UTF8 :: "utf8 \<Rightarrow> utf8 list \<Rightarrow> (ConversionResult + utf32 \<times> nat) option" where
  "read_UTF8 x rest =
     (let extra = trailingBytesForUTF8 x in
      if extra \<ge> Suc (length rest) then Some (Inl sourceExhausted)
      else do {
        legal \<leftarrow> isLegalUTF8 (x # rest) (extra + 1);
        if \<not> legal then Some (Inl sourceIllegal)
        else do {
          bytes \<leftarrow> units (x # rest) (extra + 1);
          Some (Inr (add_UTF8 bytes 0 - offsetsFromUTF8 extra, extra))
        }
      })"

definition UTF8toUTF16_body ::
    "ConversionFlags \<Rightarrow> nat \<Rightarrow> utf8 \<Rightarrow> utf8 list \<Rightarrow> utf16 list \<Rightarrow> ConversionResult \<Rightarrow> utf16 conv_step option" where
  "UTF8toUTF16_body flags cap x rest out result =
     (case read_UTF8 x rest of
        None \<Rightarrow> None
      | Some (Inl r) \<Rightarrow> Some (Break out r)
      | Some (Inr (ch, k)) \<Rightarrow>
          if length out \<ge> cap then Some (Break out targetExhausted)
          else if ch \<le> UNI_MAX_BMP then
            if ch \<ge> UNI_SUR_HIGH_START \<and> ch \<le> UNI_SUR_LOW_END then
              if flags = strictConversion then Some (Break out sourceIllegal)
              else write_on cap k out [ucast UNI_REPLACEMENT_CHAR] result
            else write_on cap k out [ucast ch] result
          else if ch > UNI_MAX_UTF16 then
            if flags = strictConversion then Some (Break out sourceIllegal)
            else write_on cap k out [ucast UNI_REPLACEMENT_CHAR] result
          else if length out + 1 \<ge> cap then Some (Break out targetExhausted)
          else
            let ch = ch - halfBase in
            write_on cap k out [ucast (drop_bit halfShift ch + UNI_SUR_HIGH_START),
                               ucast ((ch AND halfMask) + UNI_SUR_LOW_START)] result)"

definition ConvertUTF8toUTF16 ::
    "utf8 list \<Rightarrow> nat \<Rightarrow> ConversionFlags \<Rightarrow> (ConversionResult \<times> utf8 list \<times> utf16 list) option" where
  "ConvertUTF8toUTF16 source cap flags =
     conv_loop (UTF8toUTF16_body flags cap) source [] conversionOK"

definition UTF8toUTF32_body ::
    "ConversionFlags \<Rightarrow> nat \<Rightarrow> utf8 \<Rightarrow> utf8 list \<Rightarrow> utf32 list \<Rightarrow> ConversionResult \<Rightarrow> utf32 conv_step option" where
  "UTF8toUTF32_body flags cap x rest out result =
     (case read_UTF8 x rest of
        None \<Rightarrow> None
      | Some (Inl r) \<Rightarrow> Some (Break out r)
      | Some (Inr (ch, k)) \<Rightarrow>
          if length out \<ge> cap then Some (Break out targetExhausted)
          else if ch \<le> UNI_MAX_LEGAL_UTF32 then
            if ch \<ge> UNI_SUR_HIGH_START \<and> ch \<le> UNI_SUR_LOW_END then
              if flags = strictConversion then Some (Break out sourceIllegal)
              else write_on cap k out [UNI_REPLACEMENT_CHAR] result
            else write_on cap k out [ch] result
          else write_on cap k out [UNI_REPLACEMENT_CHAR] sourceIllegal)"

definition ConvertUTF8toUTF32 ::
    "utf8 list \<Rightarrow> nat \<Rightarrow> ConversionFlags \<Rightarrow> (ConversionResult \<times> utf8 list \<times> utf32 list) option" where
  "ConvertUTF8toUTF32 source cap flags =
     conv_loop (UTF8toUTF32_body flags cap) source [] conversionOK"

end
