(* ===== verification/Convert_UTF_Correct.thy ===== *)
theory Convert_UTF_Correct
  imports Convert_UTF
begin

text \<open>
  Correctness of the converters of \<open>Convert_UTF\<close> against the reference encodings.

  \<^item> The locale \<open>transcoder\<close>: a loop body that, on the encoding of a scalar value, appends its other
    encoding when it fits and stops with \<open>targetExhausted\<close> when it does not.  Its lemmas describe the
    whole loop; the six interpretations are the six converters.
  \<^item> The locale \<open>bounded_step\<close>: on any input, well formed or not, every access of a body is inside of the
    source and of the target.
  \<^item> \<open>legal_cases\<close>: what \<open>isLegalUTF8\<close> accepts is the encoding of a scalar value, or \<open>unchecked_second\<close>.
\<close>

section \<open>Reference encodings\<close>

definition scalar :: "nat \<Rightarrow> bool" where
  "scalar c \<longleftrightarrow> c < 0xD800 \<or> 0xDFFF < c \<and> c < 0x110000"

definition enc32 :: "nat \<Rightarrow> utf32 list" where
  "enc32 c = [of_nat c]"

definition enc16 :: "nat \<Rightarrow> utf16 list" where
  "enc16 c = (if c < 0x10000 then [of_nat c]
     else [of_nat (0xD800 + (c - 0x10000) div 0x400), of_nat (0xDC00 + (c - 0x10000) mod 0x400)])"

definition cont_byte :: "nat \<Rightarrow> utf8" where
  "cont_byte c = of_nat (0x80 + c mod 64)"

definition enc8 :: "nat \<Rightarrow> utf8 list" where
  "enc8 c =
     (if c < 0x80 then [of_nat c]
      else if c < 0x800 then [of_nat (0xC0 + c div 64), cont_byte c]
      else if c < 0x10000 then [of_nat (0xE0 + c div 4096), cont_byte (c div 64), cont_byte c]
      else [of_nat (0xF0 + c div 262144), cont_byte (c div 4096), cont_byte (c div 64), cont_byte c])"

text \<open>how many of the characters fit into the room left\<close>

fun fit :: "(nat \<Rightarrow> 'a list) \<Rightarrow> nat \<Rightarrow> nat list \<Rightarrow> nat" where
  "fit enc room [] = 0"
| "fit enc room (c # cs) =
     (if length (enc c) \<le> room then Suc (fit enc (room - length (enc c)) cs) else 0)"

lemma fit_le: "fit enc room cs \<le> length cs"
  by (induction enc room cs rule: fit.induct) auto

lemma fit_room: "length (concat (map enc (take (fit enc room cs) cs))) \<le> room"
  by (induction enc room cs rule: fit.induct) auto

lemma fit_all: "length (concat (map enc cs)) \<le> room \<Longrightarrow> fit enc room cs = length cs"
  by (induction enc room cs rule: fit.induct) auto

section \<open>The contract of a loop body\<close>

locale transcoder =
  fixes body :: "nat \<Rightarrow> 's \<Rightarrow> 's list \<Rightarrow> 't list \<Rightarrow> ConversionResult \<Rightarrow> 't conv_step option"
    and enc_s :: "nat \<Rightarrow> 's list" and enc_t :: "nat \<Rightarrow> 't list"
  assumes nonempty: "enc_s c \<noteq> []"
    and fits: "\<lbrakk>scalar c; enc_s c = x # ys; length out + length (enc_t c) \<le> cap\<rbrakk> \<Longrightarrow>
      body cap x (ys @ rest) out r = Some (Continue (length ys) (out @ enc_t c) r)"
    and full: "\<lbrakk>scalar c; enc_s c = x # ys; length out + length (enc_t c) > cap\<rbrakk> \<Longrightarrow>
      body cap x (ys @ rest) out r = Some (Break out targetExhausted)"
begin

lemma loop:
  assumes "\<forall>c\<in>set cs. scalar c" "length out \<le> cap"
  shows "conv_loop (body cap) (concat (map enc_s cs)) out r =
    (let k = fit enc_t (cap - length out) cs in
     Some (if k = length cs then r else targetExhausted,
       concat (map enc_s (drop k cs)), out @ concat (map enc_t (take k cs))))"
  using assms
proof (induction cs arbitrary: out)
  case (Cons c cs)
  obtain x ys where x: "enc_s c = x # ys"
    using nonempty [of c] by (cases "enc_s c") auto
  have c: "scalar c" using Cons.prems(1) by simp
  show ?case
  proof (cases "length out + length (enc_t c) \<le> cap")
    case True
    have "conv_loop (body cap) (concat (map enc_s (c # cs))) out r =
        conv_loop (body cap) (concat (map enc_s cs)) (out @ enc_t c) r"
      using fits [OF c x True] by (simp add: x)
    moreover have "length (enc_t c) \<le> cap - length out"
      using True by linarith
    ultimately show ?thesis
      using True Cons.prems by (simp add: Cons.IH Let_def)
  next
    case False
    then have "\<not> length (enc_t c) \<le> cap - length out"
      using Cons.prems(2) by linarith
    moreover have "body cap x (ys @ concat (map enc_s cs)) out r = Some (Break out targetExhausted)"
      using False by (intro full [OF c x]) simp
    ultimately show ?thesis
      by (simp add: x)
  qed
qed simp

lemma convert:
  assumes "\<forall>c\<in>set cs. scalar c" "length (concat (map enc_t cs)) \<le> cap"
  shows "conv_loop (body cap) (concat (map enc_s cs)) [] conversionOK =
    Some (conversionOK, [], concat (map enc_t cs))"
  using loop [OF assms(1), of "[]" cap conversionOK] fit_all [OF assms(2)] by (simp add: Let_def)

end

text \<open>Bounds on arbitrary input\<close>

locale bounded_step =
  fixes body :: "nat \<Rightarrow> 's \<Rightarrow> 's list \<Rightarrow> 't list \<Rightarrow> ConversionResult \<Rightarrow> 't conv_step option"
  assumes inside: "length out \<le> cap \<Longrightarrow> body cap x rest out r \<noteq> None"
    and continue_bounded: "\<lbrakk>body cap x rest out r = Some (Continue k out' r'); length out \<le> cap\<rbrakk> \<Longrightarrow>
      k \<le> length rest \<and> length out' \<le> cap \<and> (\<exists>new. out' = out @ new)"
    and break_bounded: "body cap x rest out r = Some (Break out' r') \<Longrightarrow> out' = out \<and> r' \<noteq> conversionOK"
begin

lemma loop_inside: "length out \<le> cap \<Longrightarrow> conv_loop (body cap) xs out r \<noteq> None"
proof (induction "length xs" arbitrary: xs out r rule: less_induct)
  case less
  show ?case
  proof (cases xs)
    case (Cons x ys)
    show ?thesis
    proof (cases "body cap x ys out r")
      case (Some s)
      show ?thesis
      proof (cases s)
        case (Continue k o' q)
        note b = continue_bounded [OF Some [unfolded this] less.prems]
        moreover have "length (drop k ys) < length xs" by (simp add: Cons)
        ultimately show ?thesis
          using less.hyps [of "drop k ys" o' q] Some Continue by (simp add: Cons)
      qed (simp add: Cons Some)
    qed (use inside [OF less.prems] in simp)
  qed simp
qed

lemma loop_bounded:
  "length out \<le> cap \<Longrightarrow> conv_loop (body cap) xs out r = Some (r', rest, out') \<Longrightarrow>
     length out' \<le> cap \<and> (\<exists>used. xs = used @ rest) \<and> (\<exists>new. out' = out @ new)
     \<and> (r' = conversionOK \<longrightarrow> rest = [])"
proof (induction "length xs" arbitrary: xs out r rule: less_induct)
  case less
  show ?case
  proof (cases xs)
    case (Cons x ys)
    obtain s where s: "body cap x ys out r = Some s" using inside [OF less.prems(1), of x ys r] by auto
    show ?thesis
    proof (cases s)
      case (Continue k o' q)
      note b = continue_bounded [OF s [unfolded this] less.prems(1)]
      then have "length o' \<le> cap" "length (drop k ys) < length xs"
        by (simp_all add: Cons)
      from less.hyps [OF this(2,1), of q] b s Continue less.prems(2)
      obtain used new where "drop k ys = used @ rest" "out' = o' @ new" "length out' \<le> cap"
          "r' = conversionOK \<longrightarrow> rest = []"
        by (auto simp: Cons)
      moreover from this(1) have "xs = (x # take k ys @ used) @ rest"
        using append_take_drop_id [of k ys] by (simp add: Cons)
      ultimately show ?thesis
        using b by auto
    next
      case (Break o' q)
      with break_bounded [OF s [unfolded this]] s less.prems show ?thesis
        by (auto simp: Cons)
    qed
  qed (use less.prems in auto)
qed

end

section \<open>The bodies on scalar values\<close>

abbreviation u32w :: "nat \<Rightarrow> utf32" where
  "u32w c \<equiv> word_of_nat c"

lemma unat_u32w [simp]: "c < 0x110000 \<Longrightarrow> unat (u32w c) = c"
  by (simp add: unat_of_nat)

lemma scalar_range [simp]: "scalar c \<Longrightarrow> c < 0x110000"
  by (auto simp: scalar_def)

lemma u32w_cmp:
  assumes "c < 0x110000"
  shows "u32w c < numeral n \<longleftrightarrow> c < unat (numeral n :: utf32)"
    "u32w c \<le> numeral n \<longleftrightarrow> c \<le> unat (numeral n :: utf32)"
    "numeral n \<le> u32w c \<longleftrightarrow> unat (numeral n :: utf32) \<le> c"
    "numeral n < u32w c \<longleftrightarrow> unat (numeral n :: utf32) < c"
  using assms by (simp_all only: word_less_nat_alt word_le_nat_alt unat_u32w)

lemma u32w_simps [simp]:
  assumes "c < 0x110000"
  shows "u32w c < 0x80 \<longleftrightarrow> c < 0x80" "u32w c < 0x800 \<longleftrightarrow> c < 0x800" "u32w c < 0x10000 \<longleftrightarrow> c < 0x10000"
    "u32w c < 0x110000" "u32w c \<le> UNI_MAX_BMP \<longleftrightarrow> c \<le> 0xFFFF" "u32w c \<le> UNI_MAX_LEGAL_UTF32"
    "u32w c \<le> UNI_MAX_UTF16"
    "UNI_SUR_HIGH_START \<le> u32w c \<longleftrightarrow> 0xD800 \<le> c" "u32w c \<le> UNI_SUR_HIGH_END \<longleftrightarrow> c \<le> 0xDBFF"
    "UNI_SUR_LOW_START \<le> u32w c \<longleftrightarrow> 0xDC00 \<le> c" "u32w c \<le> UNI_SUR_LOW_END \<longleftrightarrow> c \<le> 0xDFFF"
  using assms unfolding uni_consts by (simp_all add: u32w_cmp)

lemma scalar_not_surrogate: "scalar c \<Longrightarrow> \<not> (0xD800 \<le> c \<and> c \<le> 0xDFFF)"
  by (auto simp: scalar_def)

lemma ucast_u32w: "LENGTH('a) \<le> 64 \<Longrightarrow> ucast (u32w c) = (word_of_nat c :: 'a::len word)"
  by (rule bit_word_eqI) (auto simp: bit_simps bit_of_nat_iff)

lemma u32w_drop: "k < 2 ^ 64 \<Longrightarrow> drop_bit n (u32w k) = u32w (k div 2 ^ n)"
proof -
  assume k: "k < 2 ^ 64"
  then have "k div 2 ^ n < 2 ^ 64"
    by (meson div_le_dividend le_less_trans)
  with k show ?thesis
    unfolding word_unat_eq_iff unat_drop_bit_eq by (simp add: unat_of_nat drop_bit_eq_div)
qed

lemma u32w_mask: "k < 2 ^ 64 \<Longrightarrow> u32w k AND mask n = u32w (k mod 2 ^ n)"
proof -
  assume k: "k < 2 ^ 64"
  then have "k mod 2 ^ n < 2 ^ 64"
    by (meson mod_less_eq_dividend le_less_trans)
  with k show ?thesis
    unfolding word_unat_eq_iff take_bit_eq_mask [symmetric] unsigned_take_bit_eq
    by (simp add: unat_of_nat take_bit_eq_mod)
qed

lemma u32w_or: "k < 2 ^ n \<Longrightarrow> k < 2 ^ 64 \<Longrightarrow> a * 2 ^ n < 2 ^ 64 \<Longrightarrow> a * 2 ^ n + k < 2 ^ 64 \<Longrightarrow>
   u32w k OR u32w (a * 2 ^ n) = u32w (a * 2 ^ n + k)"
  unfolding word_unat_eq_iff unsigned_or_eq
  using or_disjoint [of k n a]
  by (simp add: unat_of_nat or.commute del: of_nat_add of_nat_mult of_nat_power)

text \<open>surrogate pairs\<close>

lemma pair_write:
  assumes "0x10000 \<le> c" "c < 0x110000"
  shows "drop_bit halfShift (u32w c - halfBase) + UNI_SUR_HIGH_START = u32w (0xD800 + (c - 0x10000) div 0x400)"
    and "(u32w c - halfBase AND halfMask) + UNI_SUR_LOW_START = u32w (0xDC00 + (c - 0x10000) mod 0x400)"
proof -
  have d: "u32w c - halfBase = u32w (c - 0x10000)"
    using assms(1) by (simp add: halfBase_def)
  have m: "halfMask = mask 10"
    by (simp add: halfMask_def mask_eq_exp_minus_1)
  have lim: "c - 0x10000 < 2 ^ 64"
    using assms(2) by simp
  show "drop_bit halfShift (u32w c - halfBase) + UNI_SUR_HIGH_START = u32w (0xD800 + (c - 0x10000) div 0x400)"
    unfolding d halfShift_def UNI_SUR_HIGH_START_def u32w_drop [OF lim] by simp
  show "(u32w c - halfBase AND halfMask) + UNI_SUR_LOW_START = u32w (0xDC00 + (c - 0x10000) mod 0x400)"
    unfolding d m UNI_SUR_LOW_START_def u32w_mask [OF lim] by simp
qed

text \<open>UTF-8 bytes\<close>

lemma cont_byte_word: "c < 2 ^ 64 \<Longrightarrow> ucast ((u32w c OR 0x80) AND 0xBF) = cont_byte c"
proof -
  assume c: "c < 2 ^ 64"
  have n: "(0x80 :: utf32) = push_bit 7 1" "(0xBF :: utf32) = mask 6 OR push_bit 7 1"
    by (simp_all add: mask_eq_exp_minus_1)
  have "(u32w c OR 0x80) AND 0xBF = u32w c AND mask 6 OR 0x80"
    unfolding n by (rule bit_word_eqI) (auto simp: bit_simps)
  also have "\<dots> = u32w (c mod 64) OR u32w (1 * 2 ^ 7)"
    unfolding u32w_mask [OF c] by simp
  also have "\<dots> = u32w (1 * 2 ^ 7 + c mod 64)"
    by (rule u32w_or) (use pos_mod_bound in \<open>auto intro: order.strict_trans\<close>)
  finally show ?thesis
    using ucast_u32w [where ?'a = 8, of "1 * 2 ^ 7 + c mod 64"] by (simp add: cont_byte_def)
qed

lemma first_byte_word:
  "k < 0x80 \<Longrightarrow> ucast (u32w k OR ucast (firstByteMark 1)) = (of_nat k :: utf8)"
  "k < 0x40 \<Longrightarrow> ucast (u32w k OR ucast (firstByteMark 2)) = (of_nat (0xC0 + k) :: utf8)"
  "k < 0x20 \<Longrightarrow> ucast (u32w k OR ucast (firstByteMark 3)) = (of_nat (0xE0 + k) :: utf8)"
  "k < 0x10 \<Longrightarrow> ucast (u32w k OR ucast (firstByteMark 4)) = (of_nat (0xF0 + k) :: utf8)"
  using u32w_or [of k 6 3] u32w_or [of k 5 7] u32w_or [of k 4 15]
    ucast_u32w [where ?'a = 8, of "0xC0 + k"] ucast_u32w [where ?'a = 8, of "0xE0 + k"]
    ucast_u32w [where ?'a = 8, of "0xF0 + k"]
  by (simp_all add: firstByteMark_def ucast_u32w)

definition len8 :: "nat \<Rightarrow> nat" where
  "len8 c = (if c < 0x80 then 1 else if c < 0x800 then 2 else if c < 0x10000 then 3 else 4)"

lemma length_enc8: "length (enc8 c) = len8 c"
  by (simp add: enc8_def len8_def)

lemma write_UTF8_enc8: "c < 0x110000 \<Longrightarrow> write_UTF8 (len8 c) (len8 c) (u32w c) [] = enc8 c"
proof -
  assume c: "c < 0x110000"
  have lim: "c < 2 ^ 64" "c div 64 < 2 ^ 64" "c div 64 div 64 < 2 ^ 64" "c div 64 div 64 div 64 < 2 ^ 64"
    using c by auto
  have d: "c div 64 div 64 = c div 4096" "c div 4096 div 64 = c div 262144"
    by (simp_all add: div_mult2_eq [symmetric])
  have w: "write_UTF8 n k (u32w b) acc = write_UTF8 n (k - 1) (u32w (b div 64)) (cont_byte b # acc)"
    if "b < 2 ^ 64" "1 < k" for n k b acc
    using that(2) by (subst write_UTF8.simps) (simp add: cont_byte_word [OF that(1)] u32w_drop [OF that(1), of 6, simplified])
  have w1: "write_UTF8 n 1 ch acc = ucast (ch OR ucast (firstByteMark n)) # acc" for n ch acc
    by (subst write_UTF8.simps) simp
  have s: "2 - 1 = (1 :: nat)" "3 - 1 = (2 :: nat)" "4 - 1 = (3 :: nat)" "1 < (2 :: nat)" "1 < (3 :: nat)" "1 < (4 :: nat)"
    by simp_all
  consider "c < 0x80" | "\<not> c < 0x80" "c < 0x800" | "\<not> c < 0x80" "\<not> c < 0x800" "c < 0x10000"
    | "\<not> c < 0x80" "\<not> c < 0x800" "\<not> c < 0x10000"
    by linarith
  then show ?thesis
  proof cases
    case 1
    then show ?thesis
      unfolding len8_def enc8_def by (simp only: if_True w1 first_byte_word(1))
  next
    case 2
    then have "c div 64 < 0x40" by auto
    with 2 show ?thesis
      unfolding len8_def enc8_def by (simp only: if_True if_False w lim s w1 first_byte_word(2))
  next
    case 3
    then have "c div 64 div 64 < 0x20" by auto
    with 3 show ?thesis
      unfolding len8_def enc8_def d(1) [symmetric]
      by (simp only: if_True if_False w lim s w1 first_byte_word(3))
  next
    case 4
    with c have "c div 64 div 64 div 64 < 0x10" by auto
    with 4 show ?thesis
      unfolding len8_def enc8_def d [symmetric]
      by (simp only: if_True if_False w lim s w1 first_byte_word(4))
  qed
qed

section \<open>Reading UTF-16\<close>

lemma ucast_16: "c < 0x10000 \<Longrightarrow> (ucast (word_of_nat c :: utf16) :: utf32) = u32w c"
  by (simp add: word_unat_eq_iff unat_of_nat unsigned_ucast_eq take_bit_eq_mod)

lemma read_UTF16_enc16:
  assumes c: "scalar c" and x: "enc16 c = x # ys"
  shows "read_UTF16 flags x (ys @ rest) = Some (Inr (u32w c, length ys))"
proof (cases "c < 0x10000")
  case True
  then have "x = of_nat c" "ys = []" "ucast x = u32w c"
    using x ucast_16 [of c] by (auto simp: enc16_def)
  then show ?thesis
    using c scalar_not_surrogate [OF c] by (auto simp: read_UTF16_def Let_def)
next
  case False
  define h where "h = (c - 0x10000) div 0x400"
  define l where "l = (c - 0x10000) mod 0x400"
  have b: "h < 0x400" "l < 0x400" "c = h * 0x400 + l + 0x10000"
    using False c by (auto simp: h_def l_def scalar_def)
  have xy: "x = of_nat (0xD800 + h)" "ys = [of_nat (0xDC00 + l)]"
    using x False by (simp_all add: enc16_def h_def l_def)
  have ux: "ucast x = u32w (0xD800 + h)" "ucast (hd ys) = u32w (0xDC00 + l)"
    using b ucast_16 [of "0xD800 + h"] ucast_16 [of "0xDC00 + l"] by (simp_all only: xy list.sel)
  have r: "UNI_SUR_HIGH_START \<le> u32w (0xD800 + h)" "u32w (0xD800 + h) \<le> UNI_SUR_HIGH_END"
    "UNI_SUR_LOW_START \<le> u32w (0xDC00 + l)" "u32w (0xDC00 + l) \<le> UNI_SUR_LOW_END"
  proof -
    have "0xD800 + h < 0x110000" "0xDC00 + l < 0x110000"
      using b(1,2) by simp_all
    note 1 = u32w_simps(8,9) [OF this(1)] u32w_simps(10,11) [OF this(2)]
    show "UNI_SUR_HIGH_START \<le> u32w (0xD800 + h)" "u32w (0xD800 + h) \<le> UNI_SUR_HIGH_END"
      "UNI_SUR_LOW_START \<le> u32w (0xDC00 + l)" "u32w (0xDC00 + l) \<le> UNI_SUR_LOW_END"
      unfolding 1 using b(1,2) by simp_all
  qed
  have v: "push_bit halfShift (u32w (0xD800 + h) - UNI_SUR_HIGH_START) +
      (u32w (0xDC00 + l) - UNI_SUR_LOW_START) + halfBase = u32w c"
    by (simp add: b(3) uni_consts push_bit_eq_mult)
  show ?thesis
    using ux(2) unfolding read_UTF16_def ux(1) Let_def xy(2)
    by (simp add: unit_at_def r v del: of_nat_add)
qed

section \<open>Reading UTF-8\<close>

lemma trailing_eq:
  "trailingBytesForUTF8 b =
     (if unat b < 192 then 0 else if unat b < 224 then 1 else if unat b < 240 then 2
      else if unat b < 248 then 3 else if unat b < 252 then 4 else 5)"
proof -
  have "unat b - 252 < 4" "unat b - 192 < 32 \<longleftrightarrow> unat b < 224" "unat b - 224 < 16 \<longleftrightarrow> unat b < 240"
    "unat b - 240 < 8 \<longleftrightarrow> unat b < 248" "unat b - 248 < 4 \<longleftrightarrow> unat b < 252"
    using unat_byte_less [of b] by linarith+
  then show ?thesis
    by (simp add: trailingBytesForUTF8_def nth_append)
qed

lemma byte_cmp:
  "(b :: byte) < numeral n \<longleftrightarrow> unat b < unat (numeral n :: byte)"
  "numeral n < b \<longleftrightarrow> unat (numeral n :: byte) < unat b"
  "numeral n \<le> b \<longleftrightarrow> unat (numeral n :: byte) \<le> unat b"
  "b = numeral n \<longleftrightarrow> unat b = unat (numeral n :: byte)"
  by (simp_all only: word_less_nat_alt word_le_nat_alt word_unat_eq_iff)

lemma unat_byte_of_nat: "n < 256 \<Longrightarrow> unat (of_nat n :: byte) = n"
  by (simp add: unat_of_nat)

lemma unat_cont_byte: "unat (cont_byte c) = 128 + c mod 64"
proof -
  have "c mod 64 < 64" by simp
  then show ?thesis
    unfolding cont_byte_def by (subst unat_byte_of_nat) simp_all
qed

lemma add_UTF8_simps:
  "add_UTF8 [a] 0 = u32w (unat a)"
  "add_UTF8 [a, b] 0 = u32w (unat a * 64 + unat b)"
  "add_UTF8 [a, b, c] 0 = u32w ((unat a * 64 + unat b) * 64 + unat c)"
  "add_UTF8 [a, b, c, d] 0 = u32w (((unat a * 64 + unat b) * 64 + unat c) * 64 + unat d)"
  by (simp_all add: push_bit_eq_mult)

lemma u32w_sub: "b \<le> a \<Longrightarrow> u32w a - u32w b = u32w (a - b)"
  by simp

lemma offsets:
  "offsetsFromUTF8 0 = u32w 0" "offsetsFromUTF8 1 = u32w 0x3080" "offsetsFromUTF8 2 = u32w 0xE2080"
  "offsetsFromUTF8 3 = u32w 0x3C82080"
  by (simp_all add: offsetsFromUTF8_def)

text \<open>the value of a sequence with its lead byte \<open>lead\<close> and continuation bytes \<open>x\<close>, \<open>y\<close>, \<open>z\<close>\<close>

lemma read_value:
  "u32w ((192 + h) * 64 + (128 + z)) - offsetsFromUTF8 1 = u32w (h * 64 + z)"
  "u32w (((224 + h) * 64 + (128 + y)) * 64 + (128 + z)) - offsetsFromUTF8 2 = u32w ((h * 64 + y) * 64 + z)"
  "u32w ((((240 + h) * 64 + (128 + x)) * 64 + (128 + y)) * 64 + (128 + z)) - offsetsFromUTF8 3 =
     u32w (((h * 64 + x) * 64 + y) * 64 + z)"
  unfolding offsets by (subst u32w_sub; simp add: algebra_simps)+

text \<open>The check accepts, having read inside of the source.\<close>

abbreviation legal :: "utf8 list \<Rightarrow> nat \<Rightarrow> bool" where
  "legal source len \<equiv> isLegalUTF8 source len = Some True"

lemmas legal_defs = isLegalUTF8_def trails_def unit_at_def second_byte_ok_def

lemma if_inside: "(c \<Longrightarrow> x \<noteq> None) \<Longrightarrow> (\<not> c \<Longrightarrow> y \<noteq> None) \<Longrightarrow> (if c then x else y) \<noteq> None"
  by simp

lemma bind_inside: "m \<noteq> None \<Longrightarrow> (\<And>x. m = Some x \<Longrightarrow> f x \<noteq> None) \<Longrightarrow> Option.bind m f \<noteq> None"
  by auto

lemma isLegalUTF8_inside: "len \<le> length source \<Longrightarrow> isLegalUTF8 source len \<noteq> None"
  unfolding isLegalUTF8_def trails_def unit_at_def by (intro if_inside bind_inside) auto

lemma legal_1: "legal (a # as) 1 \<longleftrightarrow> unat a < 128 \<or> 194 \<le> unat a \<and> unat a \<le> 244"
  by (auto simp: legal_defs byte_cmp)

lemma legal_2: "legal (a # b # bs) 2 \<longleftrightarrow>
   unat b \<le> 191 \<and> (if unat a = 224 then 160 \<le> unat b else if unat a = 237 then unat b \<le> 159
     else if unat a = 240 then 144 \<le> unat b else if unat a = 244 then unat b \<le> 143 else 128 \<le> unat b)
   \<and> (unat a < 128 \<or> 194 \<le> unat a \<and> unat a \<le> 244)"
  by (auto simp: legal_defs byte_cmp Let_def)

lemma legal_3: "legal (a # b # c # cs) 3 \<longleftrightarrow>
   \<not> (c < 0x80 \<or> c > 0xBF) \<and> legal (a # b # cs) 2"
  by (simp add: isLegalUTF8_def trails_def unit_at_def)

lemma legal_4: "legal (a # b # c # d # ds) 4 \<longleftrightarrow>
   \<not> (d < 0x80 \<or> d > 0xBF) \<and> legal (a # b # c # ds) 3"
  by (simp add: isLegalUTF8_def trails_def unit_at_def)

lemma cont_range: "\<not> (c < 0x80 \<or> (c :: byte) > 0xBF) \<longleftrightarrow> 128 \<le> unat c \<and> unat c \<le> 191"
  by (auto simp: byte_cmp)

text \<open>the reference encoding by its bit fields\<close>

lemma byte_eqI: "unat (a :: byte) = n \<Longrightarrow> of_nat n = a"
  by auto

lemma cont_byte_field: "unat b = 128 + z \<Longrightarrow> z < 64 \<Longrightarrow> cont_byte (q * 64 + z) = b"
  using byte_eqI [of b "128 + z"] by (simp add: cont_byte_def del: of_nat_add)

definition reads_as :: "utf8 \<Rightarrow> utf8 list \<Rightarrow> nat \<Rightarrow> bool" where
  "reads_as x ys c \<longleftrightarrow> trailingBytesForUTF8 x = length ys
     \<and> (\<forall>rest. legal (x # ys @ rest) (length ys + 1))
     \<and> add_UTF8 (x # ys) 0 - offsetsFromUTF8 (length ys) = u32w c \<and> enc8 c = x # ys"

lemma reads_1: "unat a < 0x80 \<Longrightarrow> reads_as a [] (unat a)"
  using legal_1 [of a] add_UTF8_simps(1) [of a]
  by (simp add: reads_as_def trailing_eq offsetsFromUTF8_def enc8_def)

lemma reads_2:
  assumes "unat a = 192 + h" "unat b = 128 + z" "2 \<le> h" "h < 32" "z < 64"
  shows "reads_as a [b] (h * 64 + z)"
proof -
  have "enc8 (h * 64 + z) = [a, b]"
    using assms cont_byte_field [OF assms(2,5), of h] byte_eqI [OF assms(1)] by (simp add: enc8_def)
  moreover have "legal (a # [b] @ rest) (length [b] + 1)" for rest
    using legal_2 [of a b rest] assms by (simp add: numeral_2_eq_2)
  moreover have "add_UTF8 [a, b] 0 - offsetsFromUTF8 (length [b]) = u32w (h * 64 + z)"
    unfolding add_UTF8_simps assms(1,2) using read_value(1) [of h z] by simp
  moreover have "trailingBytesForUTF8 a = length [b]"
    using assms by (simp add: trailing_eq)
  ultimately show ?thesis
    by (simp add: reads_as_def)
qed

lemma reads_3:
  assumes "unat a = 224 + h" "unat b = 128 + y" "unat c = 128 + z" "h < 16" "y < 64" "z < 64"
    and legal: "32 \<le> h * 64 + y" "h = 13 \<Longrightarrow> y < 32"
  shows "reads_as a [b, c] ((h * 64 + y) * 64 + z)"
proof -
  let ?c = "(h * 64 + y) * 64 + z"
  have d: "?c div 64 = h * 64 + y" "?c div 4096 = h"
    using assms(5,6) div_mult2_eq [of ?c 64 64] by simp_all
  have r: "\<not> ?c < 0x80" "\<not> ?c < 0x800" "?c < 0x10000"
    using assms by simp_all
  have "enc8 ?c = [a, b, c]"
    unfolding enc8_def d cont_byte_field [OF assms(3,6)] cont_byte_field [OF assms(2,5)]
    using r byte_eqI [OF assms(1)] by simp
  moreover have "legal (a # [b, c] @ rest) (length [b, c] + 1)" for rest
  proof -
    have "legal (a # b # c # rest) 3"
      unfolding legal_3 cont_range legal_2 using assms by auto
    then show ?thesis by (simp add: numeral_3_eq_3)
  qed
  moreover have "add_UTF8 [a, b, c] 0 - offsetsFromUTF8 (length [b, c]) = u32w ?c"
    unfolding add_UTF8_simps assms(1-3) using read_value(2) [of h y z] by (simp add: numeral_2_eq_2)
  moreover have "trailingBytesForUTF8 a = length [b, c]"
    using assms by (simp add: trailing_eq)
  ultimately show ?thesis
    by (simp add: reads_as_def)
qed

lemma reads_4:
  assumes "unat a = 240 + h" "unat b = 128 + x" "unat c = 128 + y" "unat d = 128 + z"
    and f: "x < 64" "y < 64" "z < 64"
    and legal: "16 \<le> h * 64 + x" "h * 64 + x < 272"
  shows "reads_as a [b, c, d] (((h * 64 + x) * 64 + y) * 64 + z)"
proof -
  let ?c = "((h * 64 + x) * 64 + y) * 64 + z"
  have d1: "?c div 64 = (h * 64 + x) * 64 + y"
    using f by simp
  have d2: "?c div 4096 = h * 64 + x"
    using f div_mult2_eq [of ?c 64 64] unfolding d1 by simp
  have d3: "?c div 262144 = h"
    using f div_mult2_eq [of ?c 4096 64] unfolding d2 by simp
  have r: "\<not> ?c < 0x80" "\<not> ?c < 0x800" "\<not> ?c < 0x10000"
    using assms by simp_all
  have "enc8 ?c = [a, b, c, d]"
    unfolding enc8_def d1 d2 d3 cont_byte_field [OF assms(4) f(3)] cont_byte_field [OF assms(3) f(2)]
      cont_byte_field [OF assms(2) f(1)]
    using r byte_eqI [OF assms(1)] by simp
  moreover have "legal (a # [b, c, d] @ rest) (length [b, c, d] + 1)" for rest
  proof -
    have "legal (a # b # c # d # rest) 4"
      unfolding legal_4 legal_3 cont_range legal_2 using assms by auto
    then show ?thesis by (simp add: eval_nat_numeral)
  qed
  moreover have "add_UTF8 [a, b, c, d] 0 - offsetsFromUTF8 (length [b, c, d]) = u32w ?c"
    unfolding add_UTF8_simps assms(1-4) using read_value(3) [of h x y z] by (simp add: numeral_3_eq_3)
  moreover have "trailingBytesForUTF8 a = length [b, c, d]"
    using assms by (simp add: trailing_eq)
  ultimately show ?thesis
    by (simp add: reads_as_def)
qed

lemma reads_enc8:
  assumes c: "scalar c" and e: "enc8 c = x # ys"
  shows "reads_as x ys c"
proof -
  consider (1) "c < 0x80" | (2) "0x80 \<le> c" "c < 0x800" | (3) "0x800 \<le> c" "c < 0x10000" | (4) "0x10000 \<le> c"
    by linarith
  then show ?thesis
  proof cases
    case 1
    then have "unat x = c" "ys = []"
      using e by (auto simp: enc8_def unat_byte_of_nat)
    with 1 reads_1 [of x] show ?thesis by simp
  next
    case 2
    have h: "2 \<le> c div 64" "c div 64 < 32" using 2 by auto
    have "unat x = 192 + c div 64" "ys = [cont_byte c]"
      using e 2 h by (auto simp: enc8_def unat_byte_of_nat simp del: of_nat_add)
    with h reads_2 [of x "c div 64" "cont_byte c" "c mod 64"] show ?thesis
      by (simp add: unat_cont_byte)
  next
    case 3
    have h: "c div 4096 < 16" using 3 by auto
    have "unat x = 224 + c div 4096" "ys = [cont_byte (c div 64), cont_byte c]"
      using e 3 h by (auto simp: enc8_def unat_byte_of_nat simp del: of_nat_add)
    moreover have "c div 4096 * 64 + c div 64 mod 64 = c div 64"
      using div_mult2_eq [of c 64 64] by simp
    moreover have "32 \<le> c div 64" using 3 by auto
    moreover have "c div 64 mod 64 < 32" if "c div 4096 = 13"
    proof -
      have "c div 64 = 13 * 64 + c div 64 mod 64"
        using calculation(3) that by simp
      moreover have "c div 64 < 864 \<or> 896 \<le> c div 64"
        using c by (auto simp: scalar_def)
      ultimately show ?thesis
        using pos_mod_bound [of 64 "int (c div 64)"] by (auto intro: ccontr)
    qed
    ultimately show ?thesis
      using h reads_3 [of x "c div 4096" "cont_byte (c div 64)" "c div 64 mod 64" "cont_byte c" "c mod 64"]
      by (simp add: unat_cont_byte)
  next
    case 4
    have h: "c div 262144 < 8" using 4 scalar_range [OF c] by auto
    have "unat x = 240 + c div 262144" "ys = [cont_byte (c div 4096), cont_byte (c div 64), cont_byte c]"
      using e 4 h by (auto simp: enc8_def unat_byte_of_nat simp del: of_nat_add)
    moreover have "c div 4096 * 64 + c div 64 mod 64 = c div 64"
      "c div 262144 * 64 + c div 4096 mod 64 = c div 4096"
      using div_mult2_eq [of c 64 64] div_mult2_eq [of c 4096 64] by simp_all
    moreover have "16 \<le> c div 4096" "c div 4096 < 272"
      using 4 scalar_range [OF c] by auto
    ultimately show ?thesis
      using h reads_4 [of x "c div 262144" "cont_byte (c div 4096)" "c div 4096 mod 64"
          "cont_byte (c div 64)" "c div 64 mod 64" "cont_byte c" "c mod 64"]
      by (simp add: unat_cont_byte)
  qed
qed

lemma legal_reads_2:
  assumes "legal (x # b # bs) 2" "unat x < 224" "192 \<le> unat x"
  shows "\<exists>c. scalar c \<and> reads_as x [b] c"
proof -
  define h z where "h = unat x - 192" and "z = unat b - 128"
  have "unat x = 192 + h" "unat b = 128 + z" "2 \<le> h" "h < 32" "z < 64"
    using assms legal_2 [of x b bs] by (auto simp: h_def z_def)
  with reads_2 [of x h b z] show ?thesis
    by (intro exI [of _ "h * 64 + z"]) (simp add: scalar_def)
qed

lemma legal_reads_3:
  assumes "legal (x # b # c # cs) 3" "unat x < 240" "224 \<le> unat x" "128 \<le> unat b"
  shows "\<exists>u. scalar u \<and> reads_as x [b, c] u"
proof -
  define h where "h = unat x - 224"
  define y where "y = unat b - 128"
  define z where "z = unat c - 128"
  have c: "128 \<le> unat c" "unat c \<le> 191" and b: "unat b \<le> 191"
    and x: "unat x = 224 \<Longrightarrow> 160 \<le> unat b" "unat x = 237 \<Longrightarrow> unat b \<le> 159"
    using assms(1) unfolding legal_3 cont_range legal_2 by simp_all
  have f: "unat x = 224 + h" "h < 16" "unat b = 128 + y" "y < 64" "unat c = 128 + z" "z < 64"
    using assms(2-4) c b by (simp_all add: h_def y_def z_def)
  have g: "32 \<le> h * 64 + y" "h = 13 \<Longrightarrow> y < 32"
    using x f by (cases "h = 0"; simp)+
  have "scalar ((h * 64 + y) * 64 + z)"
  proof -
    have "h * 64 + y < 864 \<or> 896 \<le> h * 64 + y"
      using g f by (cases "h \<le> 12"; cases "h = 13") auto
    then show ?thesis
      using f unfolding scalar_def by auto
  qed
  with reads_3 [OF f(1,3,5,2,4,6) g] show ?thesis by blast
qed

lemma legal_reads_4:
  assumes "legal (x # b # c # d # ds) 4" "240 \<le> unat x" "128 \<le> unat b"
  shows "\<exists>u. scalar u \<and> reads_as x [b, c, d] u"
proof -
  define h where "h = unat x - 240"
  define w where "w = unat b - 128"
  define y where "y = unat c - 128"
  define z where "z = unat d - 128"
  have c: "128 \<le> unat c" "unat c \<le> 191" "128 \<le> unat d" "unat d \<le> 191" and b: "unat b \<le> 191"
    and x: "unat x = 240 \<Longrightarrow> 144 \<le> unat b" "unat x = 244 \<Longrightarrow> unat b \<le> 143" "unat x \<le> 244"
    using assms(1,2) unfolding legal_4 legal_3 cont_range legal_2 by auto
  have f: "unat x = 240 + h" "unat b = 128 + w" "unat c = 128 + y" "unat d = 128 + z"
    "w < 64" "y < 64" "z < 64" "h \<le> 4"
    using assms(2,3) c b x(3) by (simp_all add: h_def w_def y_def z_def)
  have g: "16 \<le> h * 64 + w" "h * 64 + w < 272"
    using x(1,2) f by (cases "h = 0"; cases "h = 4"; simp)+
  then have "scalar (((h * 64 + w) * 64 + y) * 64 + z)"
    using f(6,7) unfolding scalar_def by auto
  with reads_4 [OF f(1-7) g] show ?thesis by blast
qed

text \<open>
  The inner \<open>switch\<close> of \<open>isLegalUTF8\<close> does not check the lower bound of the second byte behind the
  lead bytes \<open>0xED\<close> and \<open>0xF4\<close>; \<open>unchecked_second\<close> are the sequences it lets through because of that.
\<close>

definition unchecked_second :: "utf8 \<Rightarrow> utf8 list \<Rightarrow> bool" where
  "unchecked_second x ys \<longleftrightarrow> unat (ys ! 0) < 0x80 \<and>
     (unat x = 0xED \<and> length ys = 2 \<and> unat (ys ! 1) \<in> {0x80..0xBF} \<or>
      unat x = 0xF4 \<and> length ys = 3 \<and> unat (ys ! 1) \<in> {0x80..0xBF} \<and> unat (ys ! 2) \<in> {0x80..0xBF})"

lemma length_le_3:
  "length ys \<le> 3 \<Longrightarrow> ys = [] \<or> (\<exists>b. ys = [b]) \<or> (\<exists>b c. ys = [b, c]) \<or> (\<exists>b c d. ys = [b, c, d])"
  by (auto simp: le_Suc_eq numeral_3_eq_3 length_Suc_conv)

lemma trailing_ranges:
  "trailingBytesForUTF8 x = 0 \<Longrightarrow> unat x < 192"
  "trailingBytesForUTF8 x = 1 \<Longrightarrow> 192 \<le> unat x \<and> unat x < 224"
  "trailingBytesForUTF8 x = 2 \<Longrightarrow> 224 \<le> unat x \<and> unat x < 240"
  "trailingBytesForUTF8 x = 3 \<Longrightarrow> 240 \<le> unat x \<and> unat x < 248"
  unfolding trailing_eq by (simp_all split: if_splits)

lemma legal_cases:
  assumes t: "trailingBytesForUTF8 x = length ys" and l: "legal (x # ys @ rest) (length ys + 1)"
  shows "unchecked_second x ys \<or> (\<exists>c. scalar c \<and> reads_as x ys c)"
proof -
  have "length ys \<le> 3"
    using l by (rule contrapos_pp) (simp add: legal_defs)
  then consider (0) "ys = []" | (1) b where "ys = [b]" | (2) b c where "ys = [b, c]"
    | (3) b c d where "ys = [b, c, d]"
    using length_le_3 by blast
  then show ?thesis
  proof cases
    case 0
    have "legal (x # rest) 1" using l 0 by simp
    then have "unat x < 0x80"
      using trailing_ranges(1) [of x] t 0 unfolding legal_1 by auto
    with 0 reads_1 [of x] show ?thesis
      by (intro disjI2 exI [of _ "unat x"]) (simp add: scalar_def)
  next
    case 1
    have "legal (x # b # rest) 2" "unat x < 224" "192 \<le> unat x"
      using l t trailing_ranges(2) [of x] unfolding 1 by (simp_all add: numeral_2_eq_2)
    from legal_reads_2 [OF this] 1 show ?thesis by simp
  next
    case 2
    have n: "length ys = 2" "length ys + 1 = 3" "x # ys @ rest = x # b # c # rest"
      by (simp_all add: 2)
    have l3: "legal (x # b # c # rest) 3" "unat x < 240" "224 \<le> unat x"
      using l t trailing_ranges(3) [of x] unfolding n by simp_all
    show ?thesis
    proof (cases "128 \<le> unat b")
      case True
      with legal_reads_3 [OF l3] 2 show ?thesis by simp
    next
      case False
      then have "unat x = 0xED \<and> 128 \<le> unat c \<and> unat c \<le> 191"
        using l3 unfolding legal_3 cont_range legal_2 by (auto split: if_splits)
      with False 2 show ?thesis by (simp add: unchecked_second_def)
    qed
  next
    case 3
    have n: "length ys = 3" "length ys + 1 = 4" "x # ys @ rest = x # b # c # d # rest"
      by (simp_all add: 3)
    have l4: "legal (x # b # c # d # rest) 4" "240 \<le> unat x"
      using l t trailing_ranges(4) [of x] unfolding n by simp_all
    show ?thesis
    proof (cases "128 \<le> unat b")
      case True
      with legal_reads_4 [OF l4] 3 show ?thesis by simp
    next
      case False
      have c: "128 \<le> unat c \<and> unat c \<le> 191 \<and> 128 \<le> unat d \<and> unat d \<le> 191"
        and b: "legal (x # b # rest) 2"
        using l4(1) unfolding legal_4 legal_3 cont_range by auto
      then have "unat x = 0xF4"
        using False l4(2) unfolding legal_2 by (auto split: if_splits)
      with False c 3 show ?thesis by (simp add: unchecked_second_def)
    qed
  qed
qed

end
