(* ===== verification/Convert_UTF_Contracts.thy ===== *)
theory Convert_UTF_Contracts
  imports Convert_UTF_Correct
begin

text \<open>
  The six converters as instances of the locales of \<open>Convert_UTF_Correct\<close>, and what follows for
  the functions \<open>Convert...\<close> and \<open>isLegalUTF8Sequence\<close>.

  \<^item> \<open>transcoder\<close>: on well-formed text every converter writes the other encoding of the longest prefix
    that fits, and stops in front of the rest.
  \<^item> \<open>bounded_step\<close>: on arbitrary text no converter leaves its buffers.
  \<^item> \<open>strict_transcoder\<close>: a strict conversion that returns \<open>conversionOK\<close> has read well-formed text; for
    UTF-8 sources only \<open>validating_step\<close> holds, with the sequences of \<open>unchecked_second\<close> let through.
\<close>

section \<open>Well-formed text\<close>

lemma read_UTF8_enc8:
  assumes "scalar c" "enc8 c = x # ys"
  shows "read_UTF8 x (ys @ rest) = Some (Inr (u32w c, length ys))"
  using reads_enc8 [OF assms] unfolding reads_as_def by (simp add: read_UTF8_def units_def)

lemma read_UTF8_inside: "read_UTF8 x rest \<noteq> None"
  unfolding read_UTF8_def Let_def
  by (intro if_inside bind_inside isLegalUTF8_inside) (auto simp: units_def)

lemma read_UTF8_consumes: "read_UTF8 x rest = Some (Inr (ch, k)) \<Longrightarrow> k \<le> length rest"
  by (auto simp: read_UTF8_def Let_def bind_eq_Some_conv split: if_splits)

lemma read_UTF8_error: "read_UTF8 x rest = Some (Inl r) \<Longrightarrow> r \<noteq> conversionOK"
  by (auto simp: read_UTF8_def Let_def bind_eq_Some_conv split: if_splits)

lemma read_UTF16_inside: "read_UTF16 flags x rest \<noteq> None"
  unfolding read_UTF16_def Let_def by (intro if_inside bind_inside) (auto simp: unit_at_def)

lemma read_UTF16_consumes: "read_UTF16 flags x rest = Some (Inr (ch, k)) \<Longrightarrow> k \<le> length rest"
  by (cases rest) (auto simp: read_UTF16_def unit_at_def Let_def split: if_splits)

lemma read_UTF16_error: "read_UTF16 flags x rest = Some (Inl r) \<Longrightarrow> r \<noteq> conversionOK"
  by (auto simp: read_UTF16_def unit_at_def Let_def bind_eq_Some_conv split: if_splits)

lemma write_on_fits [simp]:
  "length out + length new \<le> cap \<Longrightarrow> write_on cap k out new r = Some (Continue k (out @ new) r)"
  by (simp add: write_on_def)

lemma enc_nonempty: "enc8 c \<noteq> []" "enc16 c \<noteq> []" "enc32 c \<noteq> []"
  by (simp_all add: enc8_def enc16_def enc32_def)

lemma enc16_pair: "\<not> c \<le> 0xFFFF \<Longrightarrow> c < 0x110000 \<Longrightarrow>
  [ucast (drop_bit halfShift (u32w c - halfBase) + UNI_SUR_HIGH_START),
   ucast ((u32w c - halfBase AND halfMask) + UNI_SUR_LOW_START)] = enc16 c"
  using pair_write [of c] by (simp add: enc16_def ucast_u32w del: of_nat_add)

lemma enc16_one: "c \<le> 0xFFFF \<Longrightarrow> [ucast (u32w c)] = enc16 c" "c \<le> 0xFFFF \<Longrightarrow> length (enc16 c) = 1"
    "\<not> c \<le> 0xFFFF \<Longrightarrow> length (enc16 c) = 2"
  by (simp_all add: enc16_def ucast_u32w)

lemma u32w_not_greater [simp]:
  "c < 0x110000 \<Longrightarrow> \<not> UNI_MAX_UTF16 < u32w c" "c < 0x110000 \<Longrightarrow> \<not> UNI_MAX_LEGAL_UTF32 < u32w c"
  by (simp_all add: not_less)

lemma write_split:
  assumes "c < 0x110000"
  shows "(if u32w c < 0x80 then (1, u32w c) else if u32w c < 0x800 then (2, u32w c)
     else if u32w c < 0x10000 then (3, u32w c) else if u32w c < 0x110000 then (4, u32w c)
     else (3, UNI_REPLACEMENT_CHAR)) = (len8 c, u32w c)"
    and "(if u32w c < 0x80 then (1, u32w c, r) else if u32w c < 0x800 then (2, u32w c, r)
           else if u32w c < 0x10000 then (3, u32w c, r)
           else if u32w c \<le> UNI_MAX_LEGAL_UTF32 then (4, u32w c, r)
           else (3, UNI_REPLACEMENT_CHAR, sourceIllegal)) = (len8 c, u32w c, r)"
  using assms by (simp_all add: len8_def)

interpretation utf32_utf16: transcoder "UTF32toUTF16_body flags" enc32 enc16 for flags
proof
  show "enc32 c \<noteq> []" for c
    by (simp add: enc_nonempty)
next
  fix c x ys and out :: "utf16 list" and cap rest r
  assume c: "scalar c" and x: "enc32 c = x # ys" and l: "length out + length (enc16 c) \<le> cap"
  show "UTF32toUTF16_body flags cap x (ys @ rest) out r = Some (Continue (length ys) (out @ enc16 c) r)"
    using c x l scalar_not_surrogate [OF c] enc16_one [of c] enc16_pair [of c]
    by (cases "c \<le> 0xFFFF") (auto simp: UTF32toUTF16_body_def enc32_def Let_def)
next
  fix c x ys and out :: "utf16 list" and cap rest r
  assume c: "scalar c" and x: "enc32 c = x # ys" and l: "length out + length (enc16 c) > cap"
  show "UTF32toUTF16_body flags cap x (ys @ rest) out r = Some (Break out targetExhausted)"
    using c x l scalar_not_surrogate [OF c] enc16_one [of c]
    by (cases "c \<le> 0xFFFF") (auto simp: UTF32toUTF16_body_def enc32_def Let_def)
qed

interpretation utf16_utf32: transcoder "UTF16toUTF32_body flags" enc16 enc32 for flags
  by unfold_locales (auto simp: enc_nonempty UTF16toUTF32_body_def read_UTF16_enc16 enc32_def)

lemma UTF16toUTF8_body_scalar:
  assumes "scalar c" "enc16 c = x # ys"
  shows "UTF16toUTF8_body flags cap x (ys @ rest) out r =
    Some (if length out + length (enc8 c) > cap then Break out targetExhausted
      else Continue (length ys) (out @ enc8 c) r)"
proof -
  have c: "c < 0x110000" using assms(1) by (rule scalar_range)
  show ?thesis
    unfolding UTF16toUTF8_body_def read_UTF16_enc16 [OF assms] sum.case prod.case write_split(1) [OF c]
      Let_def write_UTF8_enc8 [OF c] length_enc8 option.case by (simp add: length_enc8)
qed

lemma UTF32toUTF8_body_scalar:
  assumes "scalar c"
  shows "UTF32toUTF8_body flags cap (u32w c) rest out r =
    Some (if length out + length (enc8 c) > cap then Break out targetExhausted
      else Continue 0 (out @ enc8 c) r)"
proof -
  have c: "c < 0x110000" using assms(1) by (rule scalar_range)
  have "(flags = strictConversion \<and> u32w c \<ge> UNI_SUR_HIGH_START \<and> u32w c \<le> UNI_SUR_LOW_END) = False"
    using scalar_not_surrogate [OF assms] u32w_simps [OF c] by blast
  then show ?thesis
    unfolding UTF32toUTF8_body_def
    by (simp only: if_False write_split(2) [OF c] prod.case Let_def write_UTF8_enc8 [OF c] length_enc8)
      (simp add: length_enc8)
qed

interpretation utf16_utf8: transcoder "UTF16toUTF8_body flags" enc16 enc8 for flags
  by unfold_locales (simp_all add: enc_nonempty UTF16toUTF8_body_scalar)

interpretation utf32_utf8: transcoder "UTF32toUTF8_body flags" enc32 enc8 for flags
  by unfold_locales (auto simp: enc_nonempty enc32_def UTF32toUTF8_body_scalar)

interpretation utf8_utf32: transcoder "UTF8toUTF32_body flags" enc8 enc32 for flags
  by unfold_locales
   (use scalar_not_surrogate in \<open>auto simp: enc_nonempty UTF8toUTF32_body_def read_UTF8_enc8 enc32_def\<close>)

interpretation utf8_utf16: transcoder "UTF8toUTF16_body flags" enc8 enc16 for flags
proof
  show "enc8 c \<noteq> []" for c
    by (simp add: enc_nonempty)
next
  fix c x ys and out :: "utf16 list" and cap rest r
  assume c: "scalar c" and x: "enc8 c = x # ys" and l: "length out + length (enc16 c) \<le> cap"
  show "UTF8toUTF16_body flags cap x (ys @ rest) out r = Some (Continue (length ys) (out @ enc16 c) r)"
    using c l scalar_not_surrogate [OF c] enc16_one [of c] enc16_pair [of c]
    by (cases "c \<le> 0xFFFF") (auto simp: UTF8toUTF16_body_def read_UTF8_enc8 [OF c x] Let_def)
next
  fix c x ys and out :: "utf16 list" and cap rest r
  assume c: "scalar c" and x: "enc8 c = x # ys" and l: "length out + length (enc16 c) > cap"
  show "UTF8toUTF16_body flags cap x (ys @ rest) out r = Some (Break out targetExhausted)"
    using c l scalar_not_surrogate [OF c] enc16_one [of c]
    by (cases "c \<le> 0xFFFF") (auto simp: UTF8toUTF16_body_def read_UTF8_enc8 [OF c x] Let_def)
qed

section \<open>Bounds on arbitrary text\<close>

lemma length_write_UTF8: "1 \<le> k \<Longrightarrow> length (write_UTF8 n k ch acc) = k + length acc"
proof (induction n k ch acc rule: write_UTF8.induct)
  case (1 n k ch acc)
  then show ?case
    by (subst write_UTF8.simps) auto
qed

lemmas body_splits = if_splits sum.splits prod.splits option.splits

lemmas body_bounds = write_on_def length_write_UTF8 read_UTF8_inside read_UTF8_consumes read_UTF8_error
  read_UTF16_inside read_UTF16_consumes read_UTF16_error

interpretation utf32_utf16: bounded_step "UTF32toUTF16_body flags" for flags
  by unfold_locales (auto simp: UTF32toUTF16_body_def Let_def body_bounds split: body_splits)

interpretation utf16_utf32: bounded_step "UTF16toUTF32_body flags" for flags
  by unfold_locales (auto simp: UTF16toUTF32_body_def body_bounds split: body_splits)

interpretation utf16_utf8: bounded_step "UTF16toUTF8_body flags" for flags
  by unfold_locales (auto simp: UTF16toUTF8_body_def Let_def body_bounds split: body_splits)

interpretation utf32_utf8: bounded_step "UTF32toUTF8_body flags" for flags
  by unfold_locales (auto simp: UTF32toUTF8_body_def Let_def body_bounds split: body_splits)

interpretation utf8_utf32: bounded_step "UTF8toUTF32_body flags" for flags
  by unfold_locales (auto simp: UTF8toUTF32_body_def body_bounds split: body_splits)

interpretation utf8_utf16: bounded_step "UTF8toUTF16_body flags" for flags
  by unfold_locales (auto simp: UTF8toUTF16_body_def Let_def body_bounds split: body_splits)

section \<open>Strict conversion validates\<close>

text \<open>
  A body that goes on with \<open>conversionOK\<close> only behind the encoding of a scalar value (\<open>seg\<close> says what
  else it accepts): a loop that returns \<open>conversionOK\<close> has read nothing but such segments.
\<close>

locale validating_step = bounded_step +
  fixes seg :: "'a list \<Rightarrow> 'b list \<Rightarrow> bool"
  assumes segment: "body cap x rest out r = Some (Continue k out' conversionOK) \<Longrightarrow>
      r = conversionOK \<and> (\<exists>new. out' = out @ new \<and> seg (x # take k rest) new)"
begin

lemma loop_validates:
  "conv_loop (body cap) xs out r = Some (conversionOK, rest, out') \<Longrightarrow> 
     r = conversionOK \<and> (\<exists>segs. (\<forall>s\<in>set segs. seg (fst s) (snd s))
       \<and> xs = concat (map fst segs) \<and> out' = out @ concat (map snd segs))"
proof (induction "length xs" arbitrary: xs out r rule: less_induct)
  case less
  show ?case
  proof (cases xs)
    case Nil
    with less.prems show ?thesis by (intro conjI exI [of _ "[]"]) auto
  next
    case (Cons x ys)
    obtain s where s: "body cap x ys out r = Some s"
      using less.prems by (cases "body cap x ys out r") (simp_all add: Cons)
    show ?thesis
    proof (cases s)
      case (Continue k o' q)
      have "length (drop k ys) < length xs" by (simp add: Cons)
      from less.hyps [OF this, of o' q] s Continue less.prems obtain segs where
        segs: "q = conversionOK" "\<forall>s\<in>set segs. seg (fst s) (snd s)"
          "drop k ys = concat (map fst segs)" "out' = o' @ concat (map snd segs)"
        by (auto simp: Cons split: if_splits)
      from segment [of cap x ys out r k o'] s Continue segs(1) obtain new where
        n: "r = conversionOK" "o' = out @ new" "seg (x # take k ys) new"
        by auto
      have "xs = concat (map fst ((x # take k ys, new) # segs))"
        using segs(3) append_take_drop_id [of k ys] by (simp add: Cons)
      with n segs show ?thesis
        by (intro conjI exI [of _ "(x # take k ys, new) # segs"]) auto
    next
      case (Break o' q)
      with break_bounded [OF s [unfolded this]] s less.prems show ?thesis
        by (auto simp: Cons)
    qed
  qed
qed

end

definition encoded :: "(nat \<Rightarrow> 's list) \<Rightarrow> (nat \<Rightarrow> 't list) \<Rightarrow> 's list \<Rightarrow> 't list \<Rightarrow> bool" where
  "encoded enc_s enc_t a b \<longleftrightarrow> (\<exists>c. scalar c \<and> a = enc_s c \<and> b = enc_t c)"

lemma encoded_concat:
  "\<forall>s\<in>set segs. encoded e f (fst s) (snd s) \<Longrightarrow>
     \<exists>cs. (\<forall>c\<in>set cs. scalar c) \<and> concat (map fst segs) = concat (map e cs)
       \<and> concat (map snd segs) = concat (map f cs)"
proof (induction segs)
  case Nil
  show ?case by (intro exI [of _ "[]"]) simp
next
  case (Cons s segs)
  then obtain c cs where "scalar c" "fst s = e c" "snd s = f c" "\<forall>c\<in>set cs. scalar c"
     "concat (map fst segs) = concat (map e cs)" "concat (map snd segs) = concat (map f cs)"
    by (auto simp: encoded_def)
  then show ?case
    by (intro exI [of _ "c # cs"]) simp
qed

text \<open>A transcoder whose strict mode accepts nothing but encodings decides well-formedness.\<close>

locale strict_transcoder =
  transcoder body enc_s enc_t + validating_step body "encoded enc_s enc_t" for body enc_s enc_t
begin

lemma accepts_iff:
  "conv_loop (body cap) xs [] conversionOK = Some (conversionOK, [], ys) \<longleftrightarrow>
     (\<exists>cs. (\<forall>c\<in>set cs. scalar c) \<and> xs = concat (map enc_s cs) \<and> ys = concat (map enc_t cs)
       \<and> length ys \<le> cap)"
proof
  assume a: "conv_loop (body cap) xs [] conversionOK = Some (conversionOK, [], ys)"
  from loop_bounded [OF _ a] have "length ys \<le> cap" by simp
  with loop_validates [OF a] encoded_concat
  show "\<exists>cs. (\<forall>c\<in>set cs. scalar c) \<and> xs = concat (map enc_s cs) \<and> ys = concat (map enc_t cs)
      \<and> length ys \<le> cap"
    by (metis append_Nil)
next
  assume "\<exists>cs. (\<forall>c\<in>set cs. scalar c) \<and> xs = concat (map enc_s cs) \<and> ys = concat (map enc_t cs)
       \<and> length ys \<le> cap"
  then show "conv_loop (body cap) xs [] conversionOK = Some (conversionOK, [], ys)"
    using convert by auto
qed

end

lemma scalar_word:
  assumes "ch \<le> UNI_MAX_LEGAL_UTF32" "\<not> (UNI_SUR_HIGH_START \<le> ch \<and> ch \<le> UNI_SUR_LOW_END)"
  shows "scalar (unat ch)"
proof -
  have "unat ch < 0x110000"
    using assms(1) by (simp add: UNI_MAX_LEGAL_UTF32_def word_le_nat_alt)
  moreover have "\<not> (0xD800 \<le> unat ch \<and> unat ch \<le> 0xDFFF)"
    using assms(2) by (simp add: UNI_SUR_HIGH_START_def UNI_SUR_LOW_END_def word_le_nat_alt)
  ultimately show ?thesis by (auto simp: scalar_def)
qed

lemma enc32_word: "enc32 (unat ch) = [ch]"
  by (simp add: enc32_def)

lemma unat_ucast_16: "unat (ucast (x :: utf16) :: utf32) = unat x"
proof -
  have "unat x < 2 ^ 16" using unsigned_less [of x] by simp
  then show ?thesis by (simp add: unsigned_ucast_eq take_bit_eq_mod)
qed

lemma UTF16_scalar_pair:
  assumes "UNI_SUR_HIGH_START \<le> (ucast x :: utf32)" "(ucast x :: utf32) \<le> UNI_SUR_HIGH_END"
    "UNI_SUR_LOW_START \<le> (ucast y :: utf32)" "(ucast y :: utf32) \<le> UNI_SUR_LOW_END"
  shows "\<exists>c. scalar c \<and> enc16 c = [x :: utf16, y]"
proof -
  define h where "h = unat x - 0xD800"
  define l where "l = unat y - 0xDC00"
  have h: "unat x = 0xD800 + h" "h < 0x400" and l: "unat y = 0xDC00 + l" "l < 0x400"
    using assms by (simp_all add: uni_consts word_le_nat_alt unat_ucast_16 h_def l_def)
  have "(h * 0x400 + l) div 0x400 = h" "(h * 0x400 + l) mod 0x400 = l"
    using l(2) by simp_all
  moreover have "word_of_nat (0xD800 + h) = x" "word_of_nat (0xDC00 + l) = y"
    unfolding h(1) [symmetric] l(1) [symmetric] by simp_all
  ultimately have "enc16 (h * 0x400 + l + 0x10000) = [x, y]"
    by (simp add: enc16_def del: of_nat_add)
  moreover have "scalar (h * 0x400 + l + 0x10000)"
    using h(2) l(2) by (auto simp: scalar_def)
  ultimately show ?thesis by blast
qed

lemma UTF16_scalar_one:
  assumes "\<not> (UNI_SUR_HIGH_START \<le> (ucast x :: utf32) \<and> (ucast x :: utf32) \<le> UNI_SUR_HIGH_END)"
    "\<not> (UNI_SUR_LOW_START \<le> (ucast x :: utf32) \<and> (ucast x :: utf32) \<le> UNI_SUR_LOW_END)"
  shows "scalar (unat (x :: utf16)) \<and> enc16 (unat x) = [x]"
proof -
  have "unat x < 2 ^ 16" using unsigned_less [of x] by simp
  moreover have "\<not> (0xD800 \<le> unat x \<and> unat x \<le> 0xDFFF)"
    using assms by (auto simp: uni_consts word_le_nat_alt unat_ucast_16)
  ultimately show ?thesis
    by (auto simp: scalar_def enc16_def)
qed

lemma read_UTF16_strict:
  assumes "read_UTF16 strictConversion x rest = Some (Inr (ch, k))"
  shows "\<exists>c. scalar c \<and> enc16 c = x # take k rest"
proof (cases "UNI_SUR_HIGH_START \<le> (ucast x :: utf32) \<and> (ucast x :: utf32) \<le> UNI_SUR_HIGH_END")
  case True
  then obtain y ys where "rest = y # ys" "k = 1"
    "UNI_SUR_LOW_START \<le> (ucast y :: utf32)" "(ucast y :: utf32) \<le> UNI_SUR_LOW_END"
    using assms by (cases rest) (auto simp: read_UTF16_def unit_at_def Let_def split: if_splits)
  with UTF16_scalar_pair [of x y] True show ?thesis by simp
next
  case False
  then have "k = 0" "\<not> (UNI_SUR_LOW_START \<le> (ucast x :: utf32) \<and> (ucast x :: utf32) \<le> UNI_SUR_LOW_END)"
    using assms by (auto simp: read_UTF16_def Let_def split: if_splits)
  with False UTF16_scalar_one [of x] show ?thesis by auto
qed

lemma read_UTF8_legal:
  assumes "read_UTF8 x rest = Some (Inr (ch, k))"
  shows "unchecked_second x (take k rest) \<or> (\<exists>c. scalar c \<and> enc8 c = x # take k rest)"
proof -
  have k: "trailingBytesForUTF8 x = k" "k \<le> length rest" "legal (x # rest) (k + 1)"
    using assms by (auto simp: read_UTF8_def Let_def bind_eq_Some_conv split: if_splits)
  then have "length (take k rest) = k" by simp
  with legal_cases [of x "take k rest" "drop k rest"] k show ?thesis
    by (auto simp: reads_as_def)
qed

lemma split_take: "k \<le> length rest \<Longrightarrow> rest = take k rest @ drop k rest" for rest :: "'a list"
  by simp

interpretation utf32_utf16_strict: strict_transcoder "UTF32toUTF16_body strictConversion" enc32 enc16
proof
  fix cap x and rest :: "utf32 list" and out r k out'
  assume a: "UTF32toUTF16_body strictConversion cap x rest out r = Some (Continue k out' conversionOK)"
  have "x \<le> UNI_MAX_LEGAL_UTF32" "\<not> (UNI_SUR_HIGH_START \<le> x \<and> x \<le> UNI_SUR_LOW_END)" 
    using a by (auto simp: UTF32toUTF16_body_def Let_def uni_consts word_le_nat_alt word_less_nat_alt split: if_splits)
  note s = scalar_word [OF this]
  show "r = conversionOK \<and> (\<exists>new. out' = out @ new \<and> encoded enc32 enc16 (x # take k rest) new)"
    using utf32_utf16.fits [OF s enc32_word, of out cap strictConversion rest r]
      utf32_utf16.full [OF s enc32_word, of cap out strictConversion rest r] a s enc32_word [of x]
    by (cases "length out + length (enc16 (unat x)) \<le> cap") (auto simp: encoded_def)
qed

interpretation utf32_utf8_strict: strict_transcoder "UTF32toUTF8_body strictConversion" enc32 enc8
proof
  fix cap x and rest :: "utf32 list" and out r k out'
  assume a: "UTF32toUTF8_body strictConversion cap x rest out r = Some (Continue k out' conversionOK)"
  have "x < 0x80 \<or> x < 0x800 \<or> x < 0x10000 \<or> x \<le> UNI_MAX_LEGAL_UTF32"
    "\<not> (UNI_SUR_HIGH_START \<le> x \<and> x \<le> UNI_SUR_LOW_END)" 
    using a by (auto simp: UTF32toUTF8_body_def write_on_def Let_def split: if_splits)
  then have "x \<le> UNI_MAX_LEGAL_UTF32" "\<not> (UNI_SUR_HIGH_START \<le> x \<and> x \<le> UNI_SUR_LOW_END)"
    by (auto simp: UNI_MAX_LEGAL_UTF32_def word_less_nat_alt word_le_nat_alt)
  note s = scalar_word [OF this]
  show "r = conversionOK \<and> (\<exists>new. out' = out @ new \<and> encoded enc32 enc8 (x # take k rest) new)"
    using utf32_utf8.fits [OF s enc32_word, of out cap strictConversion rest r]
      utf32_utf8.full [OF s enc32_word, of cap out strictConversion rest r] a s enc32_word [of x]
    by (cases "length out + length (enc8 (unat x)) \<le> cap") (auto simp: encoded_def)
qed

interpretation utf16_utf32_strict: strict_transcoder "UTF16toUTF32_body strictConversion" enc16 enc32
proof
  fix cap x and rest :: "utf16 list" and out r k out'
  assume a: "UTF16toUTF32_body strictConversion cap x rest out r = Some (Continue k out' conversionOK)"
  then obtain ch where rd: "read_UTF16 strictConversion x rest = Some (Inr (ch, k))"
    by (auto simp: UTF16toUTF32_body_def write_on_def split: body_splits)
  from read_UTF16_strict [OF this] obtain c where c: "scalar c" "enc16 c = x # take k rest"
    by blast
  show "r = conversionOK \<and> (\<exists>new. out' = out @ new \<and> encoded enc16 enc32 (x # take k rest) new)"
    using utf16_utf32.fits [OF c, of out cap strictConversion "drop k rest" r]
      utf16_utf32.full [OF c, of cap out strictConversion "drop k rest" r] a c
    by (cases "length out + length (enc32 c) \<le> cap") (auto simp: encoded_def)
qed

interpretation utf16_utf8_strict: strict_transcoder "UTF16toUTF8_body strictConversion" enc16 enc8
proof
  fix cap x and rest :: "utf16 list" and out r k out'
  assume a: "UTF16toUTF8_body strictConversion cap x rest out r = Some (Continue k out' conversionOK)"
  then obtain ch where rd: "read_UTF16 strictConversion x rest = Some (Inr (ch, k))"
    by (auto simp: UTF16toUTF8_body_def write_on_def Let_def split: body_splits)
  from read_UTF16_strict [OF this] obtain c where c: "scalar c" "enc16 c = x # take k rest"
    by blast
  show "r = conversionOK \<and> (\<exists>new. out' = out @ new \<and> encoded enc16 enc8 (x # take k rest) new)"
    using utf16_utf8.fits [OF c, of out cap strictConversion "drop k rest" r]
      utf16_utf8.full [OF c, of cap out strictConversion "drop k rest" r] a c
    by (cases "length out + length (enc8 c) \<le> cap") (auto simp: encoded_def)
qed

text \<open>UTF-8 sources: encodings, and what \<open>isLegalUTF8\<close> lets through\<close>

definition utf8_segment :: "(nat \<Rightarrow> 't list) \<Rightarrow> utf8 list \<Rightarrow> 't list \<Rightarrow> bool" where
  "utf8_segment enc_t a b \<longleftrightarrow> encoded enc8 enc_t a b \<or> unchecked_second (hd a) (tl a)"

interpretation utf8_utf32_strict:
  validating_step "UTF8toUTF32_body strictConversion" "utf8_segment enc32"
proof
  fix cap x and rest :: "utf8 list" and out r k out'
  assume a: "UTF8toUTF32_body strictConversion cap x rest out r = Some (Continue k out' conversionOK)"
  then obtain ch where rd: "read_UTF8 x rest = Some (Inr (ch, k))" and r: "r = conversionOK"
    and new: "\<exists>new. out' = out @ new"
    by (auto simp: UTF8toUTF32_body_def write_on_def split: body_splits)
  from read_UTF8_legal [OF rd]
  show "r = conversionOK \<and> (\<exists>new. out' = out @ new \<and> utf8_segment enc32 (x # take k rest) new)"
  proof
    assume "\<exists>c. scalar c \<and> enc8 c = x # take k rest"
    then obtain c where c: "scalar c" "enc8 c = x # take k rest" by blast
    show ?thesis
      using utf8_utf32.fits [OF c, of out cap strictConversion "drop k rest" r]
        utf8_utf32.full [OF c, of cap out strictConversion "drop k rest" r] a c
      by (cases "length out + length (enc32 c) \<le> cap") (auto simp: encoded_def utf8_segment_def)
  qed (use r new in \<open>auto simp: utf8_segment_def\<close>)
qed

interpretation utf8_utf16_strict:
  validating_step "UTF8toUTF16_body strictConversion" "utf8_segment enc16"
proof
  fix cap x and rest :: "utf8 list" and out r k out'
  assume a: "UTF8toUTF16_body strictConversion cap x rest out r = Some (Continue k out' conversionOK)"
  then obtain ch where rd: "read_UTF8 x rest = Some (Inr (ch, k))" and r: "r = conversionOK"
    and new: "\<exists>new. out' = out @ new"
    by (auto simp: UTF8toUTF16_body_def write_on_def Let_def split: body_splits)
  from read_UTF8_legal [OF rd]
  show "r = conversionOK \<and> (\<exists>new. out' = out @ new \<and> utf8_segment enc16 (x # take k rest) new)"
  proof
    assume "\<exists>c. scalar c \<and> enc8 c = x # take k rest"
    then obtain c where c: "scalar c" "enc8 c = x # take k rest" by blast
    show ?thesis
      using utf8_utf16.fits [OF c, of out cap strictConversion "drop k rest" r]
        utf8_utf16.full [OF c, of cap out strictConversion "drop k rest" r] a c
      by (cases "length out + length (enc16 c) \<le> cap") (auto simp: encoded_def utf8_segment_def)
  qed (use r new in \<open>auto simp: utf8_segment_def\<close>)
qed

section \<open>The converters\<close>

lemmas convert_defs = ConvertUTF32toUTF16_def ConvertUTF16toUTF32_def ConvertUTF16toUTF8_def
  ConvertUTF32toUTF8_def ConvertUTF8toUTF32_def ConvertUTF8toUTF16_def

text \<open>Every access was inside of the buffers, and the call leaves the pointers in them.\<close>

definition within :: "'s list \<Rightarrow> nat \<Rightarrow> (ConversionResult \<times> 's list \<times> 't list) option \<Rightarrow> bool" where
  "within source cap result = (case result of
     None \<Rightarrow> False
   | Some (r, rest, out) \<Rightarrow>
       length out \<le> cap \<and> (\<exists>used. source = used @ rest) \<and> (r = conversionOK \<longrightarrow> rest = []))"

context bounded_step
begin

lemma loop_within: "within xs cap (conv_loop (body cap) xs [] conversionOK)"
  using loop_inside [of "[]" cap xs conversionOK] loop_bounded [of "[]" cap xs conversionOK]
  by (auto simp: within_def)

end

definition converted ::
    "(nat \<Rightarrow> 's list) \<Rightarrow> (nat \<Rightarrow> 't list) \<Rightarrow> nat \<Rightarrow> nat list \<Rightarrow> ConversionResult \<times> 's list \<times> 't list" where
  "converted enc_s enc_t cap cs =
     (let k = fit enc_t cap cs in
      (if k = length cs then conversionOK else targetExhausted,
       concat (map enc_s (drop k cs)), concat (map enc_t (take k cs))))"

text \<open>
  C28. On well-formed text each of the six converters, strict or lenient, writes the other encoding of
  the longest prefix of characters whose encodings fit into the target, and reports \<open>conversionOK\<close>
  when that is all of them and otherwise \<open>targetExhausted\<close> with the source in front of the first
  character that does not fit.
\<close>

theorem utf_convert_text:
  assumes "\<forall>c\<in>set cs. scalar c"
  shows "ConvertUTF8toUTF16 (concat (map enc8 cs)) cap flags = Some (converted enc8 enc16 cap cs)
    \<and> ConvertUTF8toUTF32 (concat (map enc8 cs)) cap flags = Some (converted enc8 enc32 cap cs)
    \<and> ConvertUTF16toUTF8 (concat (map enc16 cs)) cap flags = Some (converted enc16 enc8 cap cs)
    \<and> ConvertUTF16toUTF32 (concat (map enc16 cs)) cap flags = Some (converted enc16 enc32 cap cs)
    \<and> ConvertUTF32toUTF8 (concat (map enc32 cs)) cap flags = Some (converted enc32 enc8 cap cs)
    \<and> ConvertUTF32toUTF16 (concat (map enc32 cs)) cap flags = Some (converted enc32 enc16 cap cs)"
  unfolding convert_defs converted_def
  using utf8_utf16.loop [OF assms, of "[]" cap] utf8_utf32.loop [OF assms, of "[]" cap]
    utf16_utf8.loop [OF assms, of "[]" cap] utf16_utf32.loop [OF assms, of "[]" cap]
    utf32_utf8.loop [OF assms, of "[]" cap] utf32_utf16.loop [OF assms, of "[]" cap]
  by (simp add: Let_def)

text \<open>U+0041 fits, U+20AC (three bytes of UTF-8) does not\<close>

lemma utf_convert_text_witness:
  "ConvertUTF16toUTF8 [0x41, 0x20AC] 3 lenientConversion = Some (targetExhausted, [0x20AC], [0x41])"
proof -
  have "\<forall>c\<in>set [0x41, 0x20AC]. scalar c" by (simp add: scalar_def)
  from utf_convert_text [OF this, of 3 lenientConversion] show ?thesis
    by (simp add: converted_def enc16_def enc8_def Let_def)
qed

text \<open>
  C29. Strict conversion from UTF-16 and UTF-32 validates: it returns \<open>conversionOK\<close> exactly on the
  encodings of Unicode scalar values that fit, and then writes the other encoding of the same values.
\<close>

theorem utf_strict_validates:
  "(ConvertUTF16toUTF8 s16 cap strictConversion = Some (conversionOK, [], t8) \<longleftrightarrow>
      (\<exists>cs. (\<forall>c\<in>set cs. scalar c) \<and> s16 = concat (map enc16 cs) \<and> t8 = concat (map enc8 cs) \<and> length t8 \<le> cap))
   \<and> (ConvertUTF16toUTF32 s16 cap strictConversion = Some (conversionOK, [], t32) \<longleftrightarrow>
      (\<exists>cs. (\<forall>c\<in>set cs. scalar c) \<and> s16 = concat (map enc16 cs) \<and> t32 = concat (map enc32 cs) \<and> length t32 \<le> cap))
   \<and> (ConvertUTF32toUTF8 s32 cap strictConversion = Some (conversionOK, [], t8) \<longleftrightarrow>
      (\<exists>cs. (\<forall>c\<in>set cs. scalar c) \<and> s32 = concat (map enc32 cs) \<and> t8 = concat (map enc8 cs) \<and> length t8 \<le> cap))
   \<and> (ConvertUTF32toUTF16 s32 cap strictConversion = Some (conversionOK, [], t16) \<longleftrightarrow>
      (\<exists>cs. (\<forall>c\<in>set cs. scalar c) \<and> s32 = concat (map enc32 cs) \<and> t16 = concat (map enc16 cs) \<and> length t16 \<le> cap))"
  unfolding convert_defs
  by (intro conjI utf16_utf8_strict.accepts_iff utf16_utf32_strict.accepts_iff
    utf32_utf8_strict.accepts_iff utf32_utf16_strict.accepts_iff)

text \<open>a lone high surrogate is not the start of well-formed text\<close>

lemma utf_strict_validates_witness:
  "\<not> (\<exists>cs. (\<forall>c\<in>set cs. scalar c) \<and> [0xD800, 0x41] = concat (map enc16 cs)
     \<and> ([] :: utf8 list) = concat (map enc8 cs) \<and> length ([] :: utf8 list) \<le> 8)"
proof -
  have "ConvertUTF16toUTF8 [0xD800, 0x41] 8 strictConversion \<noteq> Some (conversionOK, [], [])"
    by code_simp
  with utf_strict_validates [of "[0xD800, 0x41]" 8 "[]"] show ?thesis by blast
qed

text \<open>
  UTF-16 that \<open>ConvertUTF16toUTF8\<close> accepts strictly is given back by \<open>ConvertUTF8toUTF16\<close>.
\<close>

theorem utf_roundtrip:
  assumes "ConvertUTF16toUTF8 s16 cap strictConversion = Some (conversionOK, [], t8)" "length s16 \<le> cap'"
  shows "ConvertUTF8toUTF16 t8 cap' flags = Some (conversionOK, [], s16)"
proof -
  from assms(1) obtain cs where cs: "\<forall>c\<in>set cs. scalar c" "s16 = concat (map enc16 cs)" "t8 = concat (map enc8 cs)"
    unfolding convert_defs utf16_utf8_strict.accepts_iff by blast
  with utf8_utf16.convert [OF cs(1), of cap' flags] assms(2) show ?thesis
    by (simp add: convert_defs)
qed

text \<open>U+1F600, a surrogate pair, and U+0041\<close>


lemma unchecked_legal:
  assumes "unchecked_second x ys"
  shows "trailingBytesForUTF8 x = length ys \<and> legal (x # ys @ suffix) (length ys + 1)"
proof -
  from assms consider
      (ed) b c where "ys = [b, c]" "unat x = 0xED" "unat b < 0x80" "128 \<le> unat c" "unat c \<le> 191"
    | (f4) b c d where "ys = [b, c, d]" "unat x = 0xF4" "unat b < 0x80" "128 \<le> unat c" "unat c \<le> 191"
        "128 \<le> unat d" "unat d \<le> 191"
    by (auto simp: unchecked_second_def numeral_2_eq_2 numeral_3_eq_3 length_Suc_conv)
  then show ?thesis
  proof cases
    case ed
    have "legal (x # b # c # suffix) 3"
      unfolding legal_3 cont_range legal_2 using ed by simp
    with ed show ?thesis by (simp add: trailing_eq numeral_3_eq_3)
  next
    case f4
    have "legal (x # b # c # d # suffix) 4"
      unfolding legal_4 legal_3 cont_range legal_2 using f4 by simp
    with f4 show ?thesis by (simp add: trailing_eq eval_nat_numeral)
  qed
qed

lemma legal_sequence_split:
  "isLegalUTF8Sequence (x # rest) = Some True \<longleftrightarrow>
     (\<exists>ys suffix. rest = ys @ suffix \<and> trailingBytesForUTF8 x = length ys
        \<and> legal (x # ys @ suffix) (length ys + 1))" (is "?l \<longleftrightarrow> ?r")
proof
  assume ?l
  then have "trailingBytesForUTF8 x \<le> length rest" "legal (x # rest) (trailingBytesForUTF8 x + 1)"
    by (auto simp: isLegalUTF8Sequence_def unit_at_def Let_def split: if_splits)
  then show ?r
    by (intro exI [of _ "take (trailingBytesForUTF8 x) rest"] exI [of _ "drop (trailingBytesForUTF8 x) rest"])
      simp
next
  assume ?r
  then show ?l by (auto simp: isLegalUTF8Sequence_def unit_at_def)
qed

text \<open>
  \<open>isLegalUTF8Sequence\<close> accepts exactly the byte sequences that begin with the UTF-8 encoding of a
  scalar value, and those with lead byte \<open>0xED\<close> or \<open>0xF4\<close> whose second byte is below \<open>0x80\<close>.
\<close>

lemma utf8_legal_sequence:
  "isLegalUTF8Sequence (x # rest) = Some True \<longleftrightarrow>
     (\<exists>ys suffix. rest = ys @ suffix
        \<and> ((\<exists>c. scalar c \<and> enc8 c = x # ys) \<or> unchecked_second x ys))"
  unfolding legal_sequence_split
  using legal_cases [of x] reads_enc8 [of _ x] unchecked_legal [of x]
  unfolding reads_as_def by (metis append_assoc)

text \<open>
  C31. A strict \<open>ConvertUTF8toUTF32\<close> that returns \<open>conversionOK\<close> has read a sequence of encodings of scalar
  values, and written these, apart from the sequences \<open>unchecked_second\<close> lets through.
\<close>

theorem utf8_strict_accepts_only:
  assumes "ConvertUTF8toUTF32 s8 cap strictConversion = Some (conversionOK, [], t32)"
  shows "\<exists>segs. s8 = concat (map fst segs) \<and> t32 = concat (map snd segs) \<and>
    (\<forall>(s, t)\<in>set segs. (\<exists>c. scalar c \<and> s = enc8 c \<and> t = enc32 c) \<or> unchecked_second (hd s) (tl s))"
  using utf8_utf32_strict.loop_validates [OF assms [unfolded convert_defs]]
  by (auto simp: utf8_segment_def encoded_def split_beta)

lemma utf8_strict_accepts_only_witness:
  "\<exists>segs. [0xE2, 0x82, 0xAC, 0x41] = concat (map fst segs) \<and> [0x20AC, 0x41] = concat (map snd segs) \<and>
    (\<forall>(s, t)\<in>set segs. (\<exists>c. scalar c \<and> s = enc8 c \<and> t = enc32 c) \<or> unchecked_second (hd s) (tl s))"
  by (rule utf8_strict_accepts_only [of _ 2]) code_simp

text \<open>
  The check of the second byte is incomplete: a strict conversion accepts \<open>ED 41 80\<close>, in which the
  ASCII letter \<open>0x41\<close> stands for a continuation byte, as U+C040, the character of \<open>EC 81 80\<close>.
\<close>

lemma utf8_unchecked_second_byte:
  "ConvertUTF8toUTF32 [0xED, 0x41, 0x80] 1 strictConversion = Some (conversionOK, [], [0xC040])
   \<and> ConvertUTF8toUTF32 [0xEC, 0x81, 0x80] 1 strictConversion = Some (conversionOK, [], [0xC040])
   \<and> isLegalUTF8Sequence [0xF4, 0x22, 0x80, 0x80] = Some True"
  by code_simp

text \<open>
  C30. On arbitrary text, strict or lenient, every access of a converter is inside of its buffers: no unit
  is read at or behind \<open>sourceEnd\<close> (also not by \<open>isLegalUTF8\<close>, which reads from the last byte of a
  sequence down), none is written at or behind \<open>targetEnd\<close>, and \<open>source\<close> is not moved past the end.  The
  source left is the end of the source given, and \<open>conversionOK\<close> means that all of it was read.
\<close>

theorem utf_bounds:
  "within s8 cap (ConvertUTF8toUTF16 s8 cap flags) \<and> within s8 cap (ConvertUTF8toUTF32 s8 cap flags)
   \<and> within s16 cap (ConvertUTF16toUTF8 s16 cap flags) \<and> within s16 cap (ConvertUTF16toUTF32 s16 cap flags)
   \<and> within s32 cap (ConvertUTF32toUTF8 s32 cap flags) \<and> within s32 cap (ConvertUTF32toUTF16 s32 cap flags)"
  unfolding convert_defs
  by (intro conjI utf8_utf16.loop_within utf8_utf32.loop_within utf16_utf8.loop_within
    utf16_utf32.loop_within utf32_utf8.loop_within utf32_utf16.loop_within)

text \<open>
  Values above \<open>0x10FFFF\<close> do not stop \<open>ConvertUTF32toUTF16\<close> in strict mode: the source pointer runs
  past them, and a later \<open>targetExhausted\<close> replaces \<open>sourceIllegal\<close>; \<open>ConvertUTF32toUTF8\<close> reports
  \<open>sourceIllegal\<close> even in lenient mode.
\<close>

theorem utf32_illegal_not_at_fault:
  "ConvertUTF32toUTF16 [0x110000, 0x41] 1 strictConversion = Some (sourceIllegal, [], [0x41])
  \<and> ConvertUTF32toUTF16 [0x110000, 0x41, 0x42] 1 strictConversion = Some (targetExhausted, [0x42], [0x41])
  \<and> ConvertUTF32toUTF8 [0x110000, 0x41] 4 lenientConversion = Some (sourceIllegal, [], [0xEF, 0xBF, 0xBD, 0x41])"
  by code_simp

end
