(* ===== verification/Std_Map.thy ===== *)
theory Std_Map
  imports Main
begin

text \<open>
  \<open>std::map\<close> as the processor of breakpad uses it: a list of key-value pairs in strictly ascending
  order of the keys.  An iterator is the suffix of the list that starts at the element it points to;
  \<open>end()\<close> is \<open>[]\<close>, \<open>begin()\<close> the whole list.

  Lemmas: the bounds are the first elements at or behind a key; insertion and erasure keep the order
  and update the map that the list abstracts to (\<open>map_of\<close>).
\<close>

type_synonym ('k, 'v) std_map = "('k \<times> 'v) list"

definition map_ok :: "('k::linorder, 'v) std_map \<Rightarrow> bool" where
  "map_ok m \<longleftrightarrow> sorted_wrt (<) (map fst m)"

definition lower_bound :: "('k::linorder, 'v) std_map \<Rightarrow> 'k \<Rightarrow> ('k, 'v) std_map" where
  "lower_bound m k = dropWhile (\<lambda>p. fst p < k) m"

definition upper_bound :: "('k::linorder, 'v) std_map \<Rightarrow> 'k \<Rightarrow> ('k, 'v) std_map" where
  "upper_bound m k = dropWhile (\<lambda>p. fst p \<le> k) m"

text \<open>\<open>find\<close>\<close>

definition map_find :: "('k::linorder, 'v) std_map \<Rightarrow> 'k \<Rightarrow> ('k, 'v) std_map" where
  "map_find m k = (let i = lower_bound m k in if i \<noteq> [] \<and> fst (hd i) = k then i else [])"

text \<open>\<open>--iterator\<close>\<close>

definition map_prev :: "('k, 'v) std_map \<Rightarrow> ('k, 'v) std_map \<Rightarrow> ('k, 'v) std_map" where
  "map_prev m i = drop (length m - length i - 1) m"

text \<open>\<open>insert\<close> keeps an element whose key is already present\<close>

fun map_insert :: "'k::linorder \<Rightarrow> 'v \<Rightarrow> ('k, 'v) std_map \<Rightarrow> ('k, 'v) std_map" where
  "map_insert k v [] = [(k, v)]"
| "map_insert k v ((a, b) # m) =
     (if k < a then (k, v) # (a, b) # m else if k = a then (a, b) # m else (a, b) # map_insert k v m)"

definition map_erase :: "'k \<Rightarrow> ('k, 'v) std_map \<Rightarrow> ('k, 'v) std_map" where
  "map_erase k m = filter (\<lambda>p. fst p \<noteq> k) m"

lemma map_ok_Nil [simp]: "map_ok []"
  by (simp add: map_ok_def)

lemma map_ok_Cons: "map_ok (p # m) \<longleftrightarrow> (\<forall>q\<in>set m. fst p < fst q) \<and> map_ok m"
  by (simp add: map_ok_def)

lemma map_ok_append:
  "map_ok (a @ b) \<longleftrightarrow> map_ok a \<and> map_ok b \<and> (\<forall>p\<in>set a. \<forall>q\<in>set b. fst p < fst q)"
  by (auto simp: map_ok_def sorted_wrt_append)

lemma map_ok_distinct: "map_ok m \<Longrightarrow> distinct (map fst m)"
  by (induction m) (auto simp: map_ok_Cons)

lemma map_ok_unique: "map_ok m \<Longrightarrow> (k, v) \<in> set m \<Longrightarrow> (k, w) \<in> set m \<Longrightarrow> v = w"
  using map_ok_distinct eq_key_imp_eq_value by metis

lemma set_map_insert:
  "k \<notin> fst ` set m \<Longrightarrow> set (map_insert k v m) = insert (k, v) (set m)"
  by (induction k v m rule: map_insert.induct) auto

lemma map_insert_keys: "fst ` set (map_insert k v m) = insert k (fst ` set m)"
  by (induction k v m rule: map_insert.induct) auto

lemma map_ok_insert: "map_ok m \<Longrightarrow> map_ok (map_insert k v m)"
proof (induction k v m rule: map_insert.induct)
  case (2 k v a b m)
  have "fst ` set (map_insert k v m) = insert k (fst ` set m)"
    by (rule map_insert_keys)
  with 2 show ?case
    by (auto simp: map_ok_Cons) (metis fst_conv image_iff insert_iff neqE)+
qed (simp add: map_ok_Cons)

lemma set_map_erase: "set (map_erase k m) = {p \<in> set m. fst p \<noteq> k}"
  by (simp add: map_erase_def)

lemma map_ok_erase: "map_ok m \<Longrightarrow> map_ok (map_erase k m)"
  by (induction m) (auto simp: map_erase_def map_ok_Cons)

text \<open>The element at a bound is the least one at or behind the key.\<close>

lemma lower_bound_Cons:
  assumes "map_ok m" "lower_bound m k = (a, v) # rest"
  shows "(a, v) \<in> set m \<and> k \<le> a \<and> (\<forall>p\<in>set m. k \<le> fst p \<longrightarrow> a \<le> fst p)"
  using assms by (induction m) (auto simp: lower_bound_def map_ok_Cons less_imp_le split: if_splits)

lemma lower_bound_Nil: "lower_bound m k = [] \<longleftrightarrow> (\<forall>p\<in>set m. fst p < k)"
  by (simp add: lower_bound_def)

lemma lower_bound_at:
  assumes "map_ok m" "(a, v) \<in> set m" "k \<le> a" "\<forall>p\<in>set m. k \<le> fst p \<longrightarrow> a \<le> fst p"
  shows "\<exists>rest. lower_bound m k = (a, v) # rest"
proof (cases "lower_bound m k")
  case Nil
  with assms(2,3) show ?thesis by (auto simp: lower_bound_Nil)
next
  case (Cons p rest)
  obtain b w where p: "p = (b, w)" by (cases p)
  from lower_bound_Cons [OF assms(1), of k b w rest] Cons p
  have b: "(b, w) \<in> set m" "k \<le> b" "\<forall>q\<in>set m. k \<le> fst q \<longrightarrow> b \<le> fst q" by simp_all
  then have "b = a" using assms(2-4) by force
  with b(1) assms(1,2) have "w = v" by (metis map_ok_unique)
  with \<open>b = a\<close> Cons p show ?thesis by simp
qed

lemma lower_bound_eq_iff:
  "lower_bound m a = lower_bound m b \<longleftrightarrow> (\<forall>p\<in>set m. fst p < a \<longleftrightarrow> fst p < b)" if "map_ok m"
  using that
proof (induction m)
  case (Cons p m)
  have less: "fst p < fst q" if "q \<in> set m" for q using Cons.prems that by (simp add: map_ok_Cons)
  have len: "length (lower_bound m x) \<le> length m" for x
    by (simp add: lower_bound_def length_dropWhile_le)
  show ?case
  proof (cases "fst p < a"; cases "fst p < b")
    assume "fst p < a" "fst p < b"
    with Cons show ?thesis by (simp add: map_ok_Cons lower_bound_def)
  next
    assume "fst p < a" "\<not> fst p < b"
    moreover from this have "length (lower_bound (p # m) a) < length (lower_bound (p # m) b)"
      using len [of a] by (simp add: lower_bound_def)
    ultimately show ?thesis by auto
  next
    assume "\<not> fst p < a" "fst p < b"
    moreover from this have "length (lower_bound (p # m) b) < length (lower_bound (p # m) a)"
      using len [of b] by (simp add: lower_bound_def)
    ultimately show ?thesis by auto
  next
    assume "\<not> fst p < a" "\<not> fst p < b"
    then show ?thesis using less by (auto simp: lower_bound_def dest: order.strict_trans)
  qed
qed (simp add: lower_bound_def)

lemma upper_bound_split: "m = takeWhile (\<lambda>p. fst p \<le> k) m @ upper_bound m k"
  by (simp add: upper_bound_def)

lemma upper_bound_begin: "map_ok m \<Longrightarrow> upper_bound m k = m \<longleftrightarrow> (\<forall>p\<in>set m. k < fst p)"
proof (cases m)
  case (Cons p m')
  assume ok: "map_ok m"
  have "length (dropWhile P m') \<le> length m'" for P :: "'a \<times> 'b \<Rightarrow> bool"
    by (rule length_dropWhile_le)
  then have "dropWhile P m' \<noteq> p # m'" for P :: "'a \<times> 'b \<Rightarrow> bool"
    by (metis Suc_n_not_le_n length_Cons)
  then show ?thesis
    using ok Cons by (auto simp: upper_bound_def map_ok_Cons not_le dest: order.strict_trans)
qed (simp add: upper_bound_def)

lemma upper_bound_above:
  assumes "map_ok m" "p \<in> set (upper_bound m k)"
  shows "k < fst p"
proof -
  obtain q r where u: "upper_bound m k = q # r" using assms(2) by (cases "upper_bound m k") auto
  have "dropWhile (\<lambda>p. fst p \<le> k) m \<noteq> []" using u by (simp add: upper_bound_def)
  from hd_dropWhile [OF this] u have "k < fst q" by (simp add: upper_bound_def not_le)
  moreover have "map_ok (q # r)"
    using assms(1) upper_bound_split [of m k] u by (metis map_ok_append)
  ultimately show ?thesis using assms(2) u by (auto simp: map_ok_Cons dest: order.strict_trans)
qed

lemma map_prev_last:
  "m = ys @ p # i \<Longrightarrow> map_prev m i = p # i"
  by (simp add: map_prev_def)

text \<open>\<open>--upper_bound(k)\<close> is the last element at or before the key.\<close>

lemma map_prev_upper:
  assumes "map_ok m" "upper_bound m k \<noteq> m"
  shows "\<exists>a v rest. map_prev m (upper_bound m k) = (a, v) # rest \<and> (a, v) \<in> set m \<and> a \<le> k
    \<and> (\<forall>p\<in>set m. fst p \<le> k \<longrightarrow> fst p \<le> a)"
proof -
  define xs where "xs = takeWhile (\<lambda>p. fst p \<le> k) m"
  have m: "m = xs @ upper_bound m k"
    unfolding xs_def by (rule upper_bound_split)
  with assms(2) have "xs \<noteq> []" by auto
  then obtain ys a v where xs: "xs = ys @ [(a, v)]"
    by (metis rev_exhaust surj_pair)
  have m': "m = ys @ (a, v) # upper_bound m k" using m xs by simp
  have "a \<le> k"
    using xs set_takeWhileD [of "(a, v)" "\<lambda>p. fst p \<le> k" m] by (simp add: xs_def [symmetric])
  moreover have "fst p \<le> a" if p: "p \<in> set m" "fst p \<le> k" for p
  proof -
    have "p \<notin> set (upper_bound m k)" using upper_bound_above [OF assms(1)] p(2) by (metis not_le)
    then have "p \<in> set xs" using p(1) m by (metis Un_iff set_append)
    moreover have "map_ok (ys @ [(a, v)])" using assms(1) m xs by (metis map_ok_append)
    ultimately show ?thesis
      using xs by (auto simp: map_ok_append less_imp_le)
  qed
  moreover have "(a, v) \<in> set m" by (subst m') simp
  ultimately show ?thesis using map_prev_last [OF m'] by blast
qed

text \<open>The order makes the list canonical.\<close>

lemma map_ok_eqI: "map_ok m \<Longrightarrow> map_ok n \<Longrightarrow> set m = set n \<Longrightarrow> m = n"
proof (induction m arbitrary: n)
  case (Cons p m)
  then obtain q n' where n: "n = q # n'" by (cases n) auto
  have p: "\<forall>x\<in>set m. fst p < fst x" and q: "\<forall>x\<in>set n'. fst q < fst x"
    using Cons.prems n by (auto simp: map_ok_Cons)
  have "p = q" using p q Cons.prems(3) n by (metis list.set_intros(1) not_less_iff_gr_or_eq set_ConsD)
  moreover have "p \<notin> set m" "p \<notin> set n'" using p q \<open>p = q\<close> by (metis less_irrefl)+
  then have "set m = set n'"
    using Cons.prems(3) n \<open>p = q\<close> by (metis insert_ident list.simps(15))
  then have "m = n'" using Cons.IH Cons.prems n by (simp add: map_ok_Cons)
  ultimately show ?case by (simp add: n)
qed simp

lemma map_of_insert:
  "map_ok m \<Longrightarrow> k \<notin> fst ` set m \<Longrightarrow> map_of (map_insert k v m) = (map_of m)(k \<mapsto> v)"
  by (induction k v m rule: map_insert.induct) (auto simp: map_ok_Cons fun_eq_iff)

lemma length_map_insert:
  "k \<notin> fst ` set m \<Longrightarrow> length (map_insert k v m) = Suc (length m)"
  by (induction k v m rule: map_insert.induct) auto

lemma map_find_at:
  "map_ok m \<Longrightarrow> map_find m k \<noteq> [] \<longleftrightarrow> k \<in> fst ` set m"
proof (cases "lower_bound m k")
  case Nil
  then have "\<forall>p\<in>set m. fst p < k" by (simp only: lower_bound_Nil)
  with Nil show ?thesis by (auto simp: map_find_def)
next
  case (Cons p rest)
  assume m: "map_ok m"
  obtain a v where p: "p = (a, v)" by (cases p)
  have "(a, v) \<in> set m" "k \<le> a" "\<forall>q\<in>set m. k \<le> fst q \<longrightarrow> a \<le> fst q"
    using lower_bound_Cons [OF m, of k a v rest] Cons p by simp_all
  then show ?thesis using Cons p by (force simp: map_find_def)
qed

end
