(* ===== verification/Range_Map.thy ===== *)
theory Range_Map
  imports Std_Map "HOL-Library.Word"
begin

text \<open>
  \<open>src/app/breakpad/src/processor/range_map.h\<close>, \<open>range_map-inl.h\<close> and \<open>address_map-inl.h\<close>: the
  containers in which the crash-dump processor looks up modules, functions and source lines by
  address.  The records are polymorphic in the template's \<open>AddressType\<close> and \<open>EntryType\<close>; the
  operations take an \<open>AddressType\<close> that is an unsigned integer, a word of any length.

  \<open>StoreRangeInternal\<close> calls itself with a narrowed range or after narrowing its neighbour;
  nothing in its text bounds the recursion, so it is a \<open>partial_function\<close>.  That it returns is a
  theorem about maps that satisfy the invariant \<open>ranges_ok\<close>.
\<close>

section \<open>RangeMap\<close>

record ('a, 'e) range_rec =
  rng_base :: 'a
  rng_delta :: 'a
  rng_entry :: 'e

definition mk_Range :: "'n word \<Rightarrow> 'n word \<Rightarrow> 'e \<Rightarrow> ('n::len word, 'e) range_rec" where
  "mk_Range base delta entry = \<lparr>rng_base = base, rng_delta = delta, rng_entry = entry\<rparr>"

type_synonym ('n, 'e) ranges = "('n word, ('n word, 'e) range_rec) std_map"

record ('a, 'e) RangeMap =
  enable_shrink_down :: bool
  rm_map :: "('a, ('a, 'e) range_rec) std_map"

definition new_RangeMap :: "('n::len word, 'e) RangeMap" where
  "new_RangeMap = \<lparr>enable_shrink_down = False, rm_map = []\<rparr>"

definition SetEnableShrinkDown :: "bool \<Rightarrow> ('n::len word, 'e) RangeMap \<Rightarrow> ('n word, 'e) RangeMap" where
  "SetEnableShrinkDown b s = s\<lparr>enable_shrink_down := b\<rparr>"

text \<open>What the lookups hand out: entry, base, delta and size of a stored range\<close>

type_synonym ('n, 'e) found = "'e \<times> 'n word \<times> 'n word \<times> 'n word"

definition range_out :: "'n word \<Rightarrow> ('n::len word, 'e) range_rec \<Rightarrow> ('n, 'e) found" where
  "range_out high r = (rng_entry r, rng_base r, rng_delta r, high - rng_base r + 1)"

definition RetrieveRange :: "('n::len, 'e) ranges \<Rightarrow> 'n word \<Rightarrow> ('n, 'e) found option" where
  "RetrieveRange m address =
     (case lower_bound m address of
        [] \<Rightarrow> None
      | (high, r) # _ \<Rightarrow> if address < rng_base r then None else Some (range_out high r))"

definition RetrieveNearestRange :: "('n::len, 'e) ranges \<Rightarrow> 'n word \<Rightarrow> ('n, 'e) found option" where
  "RetrieveNearestRange m address =
     (case RetrieveRange m address of
        Some x \<Rightarrow> Some x
      | None \<Rightarrow>
          let i = upper_bound m address in
          if i = m then None
          else let (high, r) = hd (map_prev m i) in Some (range_out high r))"

definition GetCount :: "('n::len, 'e) ranges \<Rightarrow> int" where
  "GetCount m = sint (word_of_nat (length m) :: 32 word)"

definition RetrieveRangeAtIndex :: "('n::len, 'e) ranges \<Rightarrow> int \<Rightarrow> ('n, 'e) found option" where
  "RetrieveRangeAtIndex m index =
     (if index \<ge> GetCount m then None
      else let (high, r) = hd (drop (nat index) m) in Some (range_out high r))"

definition RM_Clear :: "('n::len word, 'e) RangeMap \<Rightarrow> ('n word, 'e) RangeMap" where
  "RM_Clear s = s\<lparr>rm_map := []\<rparr>"

text \<open>
  \<open>StoreRangeInternal shrink base delta len entry m\<close>: the flag the call returns and the map it
  leaves; \<open>None\<close> when it does not return, or when the lookup of the neighbour fails and
  \<open>other_entry\<close> would be read uninitialised.
\<close>

partial_function (option) StoreRangeInternal ::
  "bool \<Rightarrow> 'n word \<Rightarrow> 'n word \<Rightarrow> 'n word \<Rightarrow> 'e \<Rightarrow> ('n::len, 'e) ranges
    \<Rightarrow> (bool \<times> ('n, 'e) ranges) option"
where
  "StoreRangeInternal shrink base delta len entry m =
     (let high = base + (len - 1) in
      if len \<le> 0 \<or> high < base then Some (False, m)
      else
        let iterator_base = lower_bound m base;
            iterator_high = lower_bound m high in
        if iterator_base \<noteq> iterator_high then
          if shrink then
            let additional_delta = fst (hd iterator_base) - base + 1 in
            StoreRangeInternal shrink (base + additional_delta) (delta + additional_delta)
              (len - additional_delta) entry m
          else Some (False, m)
        else if iterator_high \<noteq> [] \<and> rng_base (snd (hd iterator_high)) \<le> high then
          if shrink \<and> fst (hd iterator_high) > high then
            let other_high = fst (hd iterator_high);
                additional_delta = high - rng_base (snd (hd iterator_high)) + 1 in
            (case RetrieveRange m other_high of
               None \<Rightarrow> None
             | Some (other_entry, other_base, other_delta, other_size) \<Rightarrow>
                 StoreRangeInternal shrink base delta len entry
                   (map_insert other_high
                      (mk_Range (other_base + additional_delta) (other_delta + additional_delta)
                        other_entry)
                      (map_erase other_high m)))
          else Some (False, m)
        else Some (True, map_insert high (mk_Range base delta entry) m))"

definition StoreRange ::
  "'n word \<Rightarrow> 'n word \<Rightarrow> 'e \<Rightarrow> ('n::len word, 'e) RangeMap \<Rightarrow> (bool \<times> ('n word, 'e) RangeMap) option"
where
  "StoreRange base len entry s =
     (case StoreRangeInternal (enable_shrink_down s) base 0 len entry (rm_map s) of
        None \<Rightarrow> None
      | Some (ok, m) \<Rightarrow> Some (ok, s\<lparr>rm_map := m\<rparr>))"



section \<open>The invariant and the lookups\<close>

text \<open>Every range ends at its key, is not empty, and starts behind the ranges below it.\<close>

definition ranges_ok :: "('n::len, 'e) ranges \<Rightarrow> bool" where
  "ranges_ok m \<longleftrightarrow> map_ok m \<and> (\<forall>(k, r)\<in>set m. rng_base r \<le> k)
     \<and> (\<forall>(k, r)\<in>set m. \<forall>(k', r')\<in>set m. k < k' \<longrightarrow> k < rng_base r')"

text \<open>The range that holds an address\<close>

definition covers :: "('n::len, 'e) ranges \<Rightarrow> 'n word \<Rightarrow> 'n word \<times> ('n word, 'e) range_rec \<Rightarrow> bool" where
  "covers m a p \<longleftrightarrow> p \<in> set m \<and> rng_base (snd p) \<le> a \<and> a \<le> fst p"

lemma ranges_ok_map: "ranges_ok m \<Longrightarrow> map_ok m"
  by (simp add: ranges_ok_def)

lemma ranges_ok_base: "ranges_ok m \<Longrightarrow> (k, r) \<in> set m \<Longrightarrow> rng_base r \<le> k"
  by (auto simp: ranges_ok_def)

lemma ranges_ok_disjoint:
  "ranges_ok m \<Longrightarrow> (k, r) \<in> set m \<Longrightarrow> (k', r') \<in> set m \<Longrightarrow> k < k' \<Longrightarrow> k < rng_base r'"
  by (auto simp: ranges_ok_def)

lemma ranges_ok_Nil [simp]: "ranges_ok []"
  by (simp add: ranges_ok_def)

lemma covers_unique: "ranges_ok m \<Longrightarrow> covers m a p \<Longrightarrow> covers m a q \<Longrightarrow> p = q"
proof -
  assume m: "ranges_ok m" and p: "covers m a p" and q: "covers m a q"
  obtain k r where p': "p = (k, r)" by (cases p)
  obtain l t where q': "q = (l, t)" by (cases q)
  have "\<not> k < l" using ranges_ok_disjoint [OF m, of k r l t] p q p' q'
    by (auto simp: covers_def)
  moreover have "\<not> l < k" using ranges_ok_disjoint [OF m, of l t k r] p q p' q'
    by (auto simp: covers_def)
  ultimately have "k = l" by simp
  moreover from this have "r = t"
    using map_ok_unique [OF ranges_ok_map [OF m]] p q p' q' by (auto simp: covers_def)
  ultimately show "p = q" by (simp add: p' q')
qed

text \<open>\<open>RetrieveRange\<close> finds the range that holds the address, and fails if there is none.\<close>

lemma RetrieveRange_covers:
  assumes "ranges_ok m"
  shows "RetrieveRange m a = Some x \<longleftrightarrow> (\<exists>k r. covers m a (k, r) \<and> x = range_out k r)"
proof (cases "lower_bound m a")
  case Nil
  then have "\<forall>p\<in>set m. fst p < a" by (simp only: lower_bound_Nil)
  with Nil show ?thesis by (force simp: RetrieveRange_def covers_def)
next
  case (Cons p rest)
  obtain k r where p: "p = (k, r)" by (cases p)
  have at: "(k, r) \<in> set m" "a \<le> k" and least: "\<forall>p\<in>set m. a \<le> fst p \<longrightarrow> k \<le> fst p"
    using lower_bound_Cons [OF ranges_ok_map [OF assms], of a k r rest] Cons p by simp_all
  have only: "l = k \<and> t = r" if c: "covers m a (l, t)" for l t
  proof -
    have "k \<le> l" using least c by (force simp: covers_def)
    moreover have "\<not> k < l"
      using ranges_ok_disjoint [OF assms at(1), of l t] c at(2) by (force simp: covers_def)
    ultimately show ?thesis
      using map_ok_unique [OF ranges_ok_map [OF assms] at(1), of t] c by (auto simp: covers_def)
  qed
  show ?thesis
  proof (cases "a < rng_base r")
    case True
    then show ?thesis using only Cons p by (auto simp: RetrieveRange_def covers_def)
  next
    case False
    then have "covers m a (k, r)" using at by (simp add: covers_def)
    with only have "(\<exists>l t. covers m a (l, t) \<and> x = range_out l t) \<longleftrightarrow> x = range_out k r" by blast
    with False Cons p show ?thesis by (auto simp: RetrieveRange_def)
  qed
qed

lemma RetrieveRange_None:
  "ranges_ok m \<Longrightarrow> RetrieveRange m a = None \<longleftrightarrow> \<not> (\<exists>p. covers m a p)"
proof -
  assume m: "ranges_ok m"
  have "RetrieveRange m a = None \<longleftrightarrow> (\<forall>x. RetrieveRange m a \<noteq> Some x)"
    by (cases "RetrieveRange m a") simp_all
  also have "\<dots> \<longleftrightarrow> \<not> (\<exists>k r. covers m a (k, r))"
    unfolding RetrieveRange_covers [OF m] by blast
  finally show ?thesis by simp
qed

section \<open>Storing a range\<close>

lemma unat_succ: "k < h \<Longrightarrow> unat (k + 1) = Suc (unat k)" for k h :: "'n::len word"
  by (metis add.commute add_diff_cancel_right' diff_0 not_less_iff_gr_or_eq unatSuc
      word_order.extremum_strict)

lemma succ_le: "k < h \<Longrightarrow> k + 1 \<le> h" for k h :: "'n::len word"
  using unat_succ [of k h] by (simp add: word_le_nat_alt word_less_nat_alt)

lemma less_succ: "k < h \<Longrightarrow> a < k + 1 \<longleftrightarrow> a \<le> k" for k h :: "'n::len word"
  using unat_succ [of k h] by (simp add: word_le_nat_alt word_less_nat_alt less_Suc_eq_le)

text \<open>The keys of a map in the half-open interval from \<open>b\<close> to \<open>h\<close>\<close>

definition keys_in :: "('n::len, 'e) ranges \<Rightarrow> 'n word \<Rightarrow> 'n word \<Rightarrow> 'n word set" where
  "keys_in m b h = {k \<in> fst ` set m. b \<le> k \<and> k < h}"

lemma keys_in_empty: "keys_in m b h = {} \<Longrightarrow> p \<in> set m \<Longrightarrow> b \<le> fst p \<Longrightarrow> h \<le> fst p"
  by (force simp: keys_in_def)

lemma bounds_differ:
  assumes "map_ok m" "b \<le> h"
  shows "lower_bound m b \<noteq> lower_bound m h \<longleftrightarrow> keys_in m b h \<noteq> {}"
  using assms(2) by (force simp: lower_bound_eq_iff [OF assms(1)] keys_in_def)

text \<open>The range found above the new one is the only one it can overlap.\<close>

lemma overlap_found:
  assumes "ranges_ok m" "b \<le> h" "keys_in m b h = {}"
  shows "lower_bound m h \<noteq> [] \<and> rng_base (snd (hd (lower_bound m h))) \<le> h
    \<longleftrightarrow> (\<exists>a. b \<le> a \<and> a \<le> h \<and> (\<exists>p. covers m a p))"
proof (cases "lower_bound m h")
  case Nil
  then have below: "\<forall>p\<in>set m. fst p < h" by (simp only: lower_bound_Nil)
  have "\<not> covers m a p" if "b \<le> a" for a p
    using that below keys_in_empty [OF assms(3), of p] by (force simp: covers_def)
  with Nil show ?thesis by simp
next
  case (Cons p rest)
  obtain k r where p: "p = (k, r)" by (cases p)
  have at: "(k, r) \<in> set m" "h \<le> k" and least: "\<forall>p\<in>set m. h \<le> fst p \<longrightarrow> k \<le> fst p"
    using lower_bound_Cons [OF ranges_ok_map [OF assms(1)], of h k r rest] Cons p by simp_all
  have "rng_base r \<le> h" if c: "covers m a (l, t)" "b \<le> a" "a \<le> h" for a l t
  proof -
    have "h \<le> l" using c keys_in_empty [OF assms(3), of "(l, t)"] by (auto simp: covers_def)
    with c least have "k \<le> l" by (auto simp: covers_def)
    moreover have "\<not> k < l"
      using ranges_ok_disjoint [OF assms(1) at(1), of l t] c at(2) by (force simp: covers_def)
    ultimately have "t = r"
      using map_ok_unique [OF ranges_ok_map [OF assms(1)] at(1), of t] c by (auto simp: covers_def)
    with c show ?thesis by (auto simp: covers_def)
  qed
  moreover have "covers m h (k, r)" if "rng_base r \<le> h"
    using that at by (simp add: covers_def)
  ultimately show ?thesis using Cons p assms(2) by auto
qed

lemma store_bad:
  "len = 0 \<or> b + (len - 1) < b \<Longrightarrow> StoreRangeInternal shrink b d len e m = Some (False, m)"
  by (subst StoreRangeInternal.simps) (auto simp: Let_def)

text \<open>A range whose place is free is stored in one step, in both modes.\<close>

lemma covered_keys:
  assumes "ranges_ok m" "k \<in> keys_in m b h"
  shows "\<exists>p. covers m k p"
  using assms by (force simp: keys_in_def covers_def dest: ranges_ok_base)

lemma store_free:
  assumes m: "ranges_ok m" and len: "len \<noteq> 0" "b \<le> b + (len - 1)"
    and free: "\<And>a p. b \<le> a \<Longrightarrow> a \<le> b + (len - 1) \<Longrightarrow> \<not> covers m a p"
  shows "StoreRangeInternal shrink b d len e m
    = Some (True, map_insert (b + (len - 1)) (mk_Range b d e) m)"
proof -
  have none: "keys_in m b (b + (len - 1)) = {}"
    using covered_keys [OF m] free by (force simp: keys_in_def)
  then have "lower_bound m b = lower_bound m (b + (len - 1))"
    using bounds_differ [OF ranges_ok_map [OF m] len(2)] by simp
  with len show ?thesis
    using overlap_found [OF m len(2) none] free
    by (subst StoreRangeInternal.simps) (auto simp: Let_def not_less)
qed

text \<open>Without shrinking, one look at the map decides.\<close>

lemma store_plain:
  assumes "ranges_ok m" "len \<noteq> 0" "b \<le> b + (len - 1)"
    and "b \<le> a" "a \<le> b + (len - 1)" "covers m a p"
  shows "StoreRangeInternal False b d len e m = Some (False, m)"
proof (cases "keys_in m b (b + (len - 1)) = {}")
  case True
  have "lower_bound m b = lower_bound m (b + (len - 1))"
    using True bounds_differ [OF ranges_ok_map [OF assms(1)] assms(3)] by simp
  moreover have "lower_bound m (b + (len - 1)) \<noteq> []
      \<and> rng_base (snd (hd (lower_bound m (b + (len - 1))))) \<le> b + (len - 1)"
    unfolding overlap_found [OF assms(1,3) True] using assms(4-) by blast
  ultimately show ?thesis
    using assms(2,3) by (subst StoreRangeInternal.simps) (simp add: Let_def not_less)
next
  case False
  then have "lower_bound m b \<noteq> lower_bound m (b + (len - 1))"
    using bounds_differ [OF ranges_ok_map [OF assms(1)] assms(3)] by simp
  then show ?thesis
    using assms(2,3) by (subst StoreRangeInternal.simps) (simp add: Let_def not_less)
qed

text \<open>
  With shrinking, the neighbour above is cut down to what lies behind the new range, and the new
  range starts behind the last range that ends inside it.
\<close>

definition cut_above :: "'n word \<Rightarrow> ('n::len, 'e) ranges \<Rightarrow> ('n, 'e) ranges" where
  "cut_above h m = map (\<lambda>(k, r). (k, if h < k \<and> rng_base r \<le> h
     then mk_Range (h + 1) (rng_delta r + (h - rng_base r + 1)) (rng_entry r) else r)) m"

definition free_base :: "('n::len, 'e) ranges \<Rightarrow> 'n word \<Rightarrow> 'n word \<Rightarrow> 'n word \<Rightarrow> bool" where
  "free_base m b h c \<longleftrightarrow> b \<le> c \<and> c \<le> h \<and> keys_in m c h = {}
     \<and> (c = b \<or> (\<exists>k\<in>keys_in m b h. c = k + 1))"

lemma keys_cut_above [simp]: "fst ` set (cut_above h m) = fst ` set m"
  by (force simp: cut_above_def)

lemma map_ok_cut_above: "map_ok m \<Longrightarrow> map_ok (cut_above h m)"
  by (simp add: map_ok_def cut_above_def comp_def case_prod_beta)

lemma set_cut_above:
  "(k, r) \<in> set (cut_above h m) \<longleftrightarrow> (\<exists>t. (k, t) \<in> set m \<and> r = (if h < k \<and> rng_base t \<le> h
     then mk_Range (h + 1) (rng_delta t + (h - rng_base t + 1)) (rng_entry t) else t))"
  by (force simp: cut_above_def)

lemma ranges_ok_cut_above:
  assumes "ranges_ok m" shows "ranges_ok (cut_above h m)"
proof -
  have base: "rng_base r \<le> k" if kr: "(k, r) \<in> set (cut_above h m)" for k r
    using kr ranges_ok_base [OF assms] succ_le [of h k]
    by (auto simp: set_cut_above mk_Range_def)
  have below: "k < rng_base t"
    if kr: "(k, r) \<in> set (cut_above h m)" "(l, t) \<in> set (cut_above h m)" "k < l" for k r l t
  proof -
    obtain u where u: "(l, u) \<in> set m" "t = (if h < l \<and> rng_base u \<le> h
      then mk_Range (h + 1) (rng_delta u + (h - rng_base u + 1)) (rng_entry u) else u)"
      using kr(2) by (auto simp only: set_cut_above)
    have "k < rng_base u"
      using kr(1,3) u(1) ranges_ok_disjoint [OF assms] by (auto simp only: set_cut_above)
    then show ?thesis using u(2) less_succ [of h l k] by (auto simp: mk_Range_def)
  qed
  show ?thesis
    using map_ok_cut_above [OF ranges_ok_map [OF assms], of h] base below
    unfolding ranges_ok_def by blast
qed

lemma cut_above_free:
  assumes "ranges_ok m" "h \<notin> fst ` set m" "keys_in m b h = {}" "b \<le> a" "a \<le> h"
  shows "\<not> covers (cut_above h m) a p"
proof
  assume c: "covers (cut_above h m) a p"
  obtain k r where p: "p = (k, r)" by (cases p)
  obtain t where t: "(k, t) \<in> set m" "r = (if h < k \<and> rng_base t \<le> h
      then mk_Range (h + 1) (rng_delta t + (h - rng_base t + 1)) (rng_entry t) else t)"
    using c p by (auto simp only: covers_def set_cut_above)
  have "h \<le> k" using keys_in_empty [OF assms(3) t(1)] c p assms(4) by (auto simp: covers_def)
  moreover have "h \<noteq> k" using assms(2) t(1) by force
  ultimately have "h < k" by simp
  with c p t(2) assms(5) less_succ [of h k a] show False
    by (auto simp: covers_def mk_Range_def split: if_splits)
qed

text \<open>Erasing and inserting the neighbour has this effect.\<close>

lemma shrink_neighbour:
  assumes m: "ranges_ok m" and k: "(k, r) \<in> set m" "h < k" "rng_base r \<le> h"
  shows "map_insert k (mk_Range (rng_base r + (h - rng_base r + 1))
      (rng_delta r + (h - rng_base r + 1)) (rng_entry r)) (map_erase k m) = cut_above h m"
proof (rule map_ok_eqI)
  show "map_ok (cut_above h m)" by (rule map_ok_cut_above [OF ranges_ok_map [OF m]])
  show "map_ok (map_insert k (mk_Range (rng_base r + (h - rng_base r + 1))
      (rng_delta r + (h - rng_base r + 1)) (rng_entry r)) (map_erase k m))"
    by (rule map_ok_insert [OF map_ok_erase [OF ranges_ok_map [OF m]]])
  have only: "l = k" if "(l, t) \<in> set m" "h < l" "rng_base t \<le> h" for l t
    using covers_unique [OF m, of h "(l, t)" "(k, r)"] that k by (simp add: covers_def)
  have uniq: "t = r" if "(k, t) \<in> set m" for t
    by (rule map_ok_unique [OF ranges_ok_map [OF m] that k(1)])
  have absent: "k \<notin> fst ` set (map_erase k m)" by (auto simp: set_map_erase)
  have new: "rng_base r + (h - rng_base r + 1) = h + 1" by simp
  have "p \<in> insert (k, mk_Range (h + 1) (rng_delta r + (h - rng_base r + 1)) (rng_entry r))
      {p \<in> set m. fst p \<noteq> k} \<longleftrightarrow> p \<in> set (cut_above h m)" for p
  proof (cases p)
    case (Pair l t)
    show ?thesis
    proof (cases "l = k")
      case True
      have "(k, u) \<in> set m \<longleftrightarrow> u = r" for u using uniq k(1) by blast
      with Pair True k(2,3) show ?thesis by (simp add: set_cut_above)
    next
      case False
      then have "\<not> (h < l \<and> rng_base u \<le> h)" if "(l, u) \<in> set m" for u
        using only [OF that] by blast
      with Pair False show ?thesis by (auto simp: set_cut_above)
    qed
  qed
  then show "set (map_insert k (mk_Range (rng_base r + (h - rng_base r + 1))
      (rng_delta r + (h - rng_base r + 1)) (rng_entry r)) (map_erase k m)) = set (cut_above h m)"
    unfolding set_map_insert [OF absent] set_map_erase new by blast
qed

lemma cut_above_same:
  assumes "\<And>p. \<not> covers m h p" shows "cut_above h m = m"
proof -
  have "\<not> (h < k \<and> rng_base r \<le> h)" if "(k, r) \<in> set m" for k r
    using assms [of "(k, r)"] that by (auto simp: covers_def)
  then show ?thesis by (auto simp: cut_above_def intro!: map_idI)
qed

lemma store_shrink:
  assumes "ranges_ok m" "len \<noteq> 0" "h = b + (len - 1)" "b \<le> h"
  shows "if h \<in> fst ` set m then StoreRangeInternal True b d len e m = Some (False, m)
    else \<exists>c. free_base m b h c \<and> StoreRangeInternal True b d len e m
      = Some (True, map_insert h (mk_Range c (d + (c - b)) e) (cut_above h m))"
  using assms
proof (induction "unat (h - b)" arbitrary: b d len rule: less_induct)
  case less
  note m = less.prems(1)
  show ?case
  proof (cases "keys_in m b h = {}")
    case none: True
    have same: "lower_bound m b = lower_bound m h"
      using bounds_differ [OF ranges_ok_map [OF m] less.prems(4)] none by simp
    have fb: "free_base m b h b" using none less.prems(4) by (simp add: free_base_def)
    show ?thesis
    proof (cases "\<exists>a. b \<le> a \<and> a \<le> h \<and> (\<exists>p. covers m a p)")
      case False
      then have free: "\<not> covers m a p" if "b \<le> a" "a \<le> b + (len - 1)" for a p
        using that less.prems(3) by blast
      have "h \<notin> fst ` set m"
        using ranges_ok_base [OF m] free [of h] less.prems(3,4) by (force simp: covers_def)
      moreover have "cut_above h m = m"
        using free [of h] less.prems(3,4) by (intro cut_above_same) simp
      moreover note store_free [where shrink = True and d = d and e = e, OF m less.prems(2) _ free]
      ultimately show ?thesis using fb less.prems(3,4) by auto
    next
      case True
      then have found: "lower_bound m h \<noteq> []" "rng_base (snd (hd (lower_bound m h))) \<le> h"
        using overlap_found [OF m less.prems(4) none] by blast+
      then obtain k r rest where kr: "lower_bound m h = (k, r) # rest"
        by (cases "lower_bound m h") auto
      have at: "(k, r) \<in> set m" "h \<le> k" "\<forall>p\<in>set m. h \<le> fst p \<longrightarrow> k \<le> fst p"
        using lower_bound_Cons [OF ranges_ok_map [OF m] kr] by simp_all
      have r: "rng_base r \<le> h" using found kr by simp
      show ?thesis
      proof (cases "h < k")
        case False
        then have "k = h" using at(2) by simp
        then have "h \<in> fst ` set m" using at(1) by force
        moreover have "StoreRangeInternal True b d len e m = Some (False, m)"
          using less.prems(2-4) same kr r \<open>k = h\<close>
          by (subst StoreRangeInternal.simps) (simp add: Let_def not_less)
        ultimately show ?thesis by simp
      next
        case True
        have absent: "h \<notin> fst ` set m"
          using at(3) True by force
        have "covers m k (k, r)" using at(1) r True by (simp add: covers_def less_imp_le)
        then have retr: "RetrieveRange m k = Some (range_out k r)"
          unfolding RetrieveRange_covers [OF m] by blast
        have "StoreRangeInternal True b d len e m
          = StoreRangeInternal True b d len e (cut_above h m)"
          using less.prems(2,4) less.prems(3) [symmetric] same kr r True retr
            shrink_neighbour [OF m at(1) True r]
          by (subst StoreRangeInternal.simps) (auto simp: Let_def not_less range_out_def)
        also have "\<dots> = Some (True, map_insert h (mk_Range b d e) (cut_above h m))"
          using store_free [where b = b and shrink = True and d = d and e = e, OF ranges_ok_cut_above [OF m, of h] less.prems(2)]
            cut_above_free [OF m absent none] less.prems(3,4) by simp
        finally show ?thesis using absent fb by auto
      qed
    qed
  next
    case False
    have differ: "lower_bound m b \<noteq> lower_bound m h"
      using bounds_differ [OF ranges_ok_map [OF m] less.prems(4)] False by simp
    obtain x t where x: "(x, t) \<in> set m" "b \<le> x" "x < h" using False by (force simp: keys_in_def)
    have "lower_bound m b \<noteq> []" using x by (force simp: lower_bound_Nil)
    then obtain k r rest where kr: "lower_bound m b = (k, r) # rest"
      by (cases "lower_bound m b") auto
    have at: "(k, r) \<in> set m" "b \<le> k" "\<forall>p\<in>set m. b \<le> fst p \<longrightarrow> k \<le> fst p"
      using lower_bound_Cons [OF ranges_ok_map [OF m] kr] by simp_all
    have "k < h" using at(3) x by force
    have step: "StoreRangeInternal True b d len e m
      = StoreRangeInternal True (k + 1) (d + (k - b + 1)) (len - (k - b + 1)) e m"
      using less.prems(2,4) less.prems(3) [symmetric] differ kr
      by (subst StoreRangeInternal.simps) (auto simp: Let_def not_less)
    have len': "len - (k - b + 1) = h - k" using less.prems(3) by (simp add: algebra_simps)
    have "unat (h - (k + 1)) < unat (h - b)"
      using at(2) \<open>k < h\<close> succ_le [OF \<open>k < h\<close>] unat_succ [OF \<open>k < h\<close>] less.prems(4)
      by (simp add: unat_sub word_le_nat_alt word_less_nat_alt)
    moreover have "len - (k - b + 1) \<noteq> 0" 
      unfolding len' using \<open>k < h\<close> by auto
    moreover have "h = k + 1 + (len - (k - b + 1) - 1)" unfolding len' by simp
    ultimately have ih: "if h \<in> fst ` set m
      then StoreRangeInternal True (k + 1) (d + (k - b + 1)) (len - (k - b + 1)) e m = Some (False, m)
      else \<exists>c. free_base m (k + 1) h c
        \<and> StoreRangeInternal True (k + 1) (d + (k - b + 1)) (len - (k - b + 1)) e m
          = Some (True, map_insert h (mk_Range c (d + (k - b + 1) + (c - (k + 1))) e) (cut_above h m))"
      by (rule less.hyps [OF _ m _ _ succ_le [OF \<open>k < h\<close>]])
    have "free_base m b h c" if c: "free_base m (k + 1) h c" for c
    proof -
      have "k \<in> keys_in m b h" using at \<open>k < h\<close> by (force simp: keys_in_def)
      moreover have "keys_in m (k + 1) h \<subseteq> keys_in m b h"
        using at(2) less_succ [OF \<open>k < h\<close>] by (force simp: keys_in_def not_less [symmetric])
      moreover have "b \<le> k + 1" using at(2) less_succ [OF \<open>k < h\<close>, of b] by (simp add: less_imp_le)
      ultimately show ?thesis using c by (auto simp: free_base_def)
    qed
    moreover have "d + (k - b + 1) + (c - (k + 1)) = d + (c - b)" for c by simp
    ultimately show ?thesis using ih unfolding step by (auto split: if_splits)
  qed
qed

section \<open>What a store does to the map\<close>

lemma ranges_ok_insert:
  assumes m: "ranges_ok m" and "b \<le> h"
    and free: "\<And>a p. b \<le> a \<Longrightarrow> a \<le> h \<Longrightarrow> \<not> covers m a p"
  shows "ranges_ok (map_insert h (mk_Range b d e) m)" (is ?ok)
    and "set (map_insert h (mk_Range b d e) m) = insert (h, mk_Range b d e) (set m)" (is ?set)
    and "h \<notin> fst ` set m"
proof -
  show absent: "h \<notin> fst ` set m"
    using ranges_ok_base [OF m] free [of h] assms(2) by (force simp: covers_def)
  show s: ?set by (rule set_map_insert [OF absent])
  have above: "h < rng_base r" if "(k, r) \<in> set m" "h < k" for k r
    using free [of h "(k, r)"] that assms(2) by (force simp: covers_def)
  have below: "k < b" if "(k, r) \<in> set m" "k < h" for k r
    using free [of k "(k, r)"] that ranges_ok_base [OF m that(1)] by (force simp: covers_def)
  show ?ok
    using map_ok_insert [OF ranges_ok_map [OF m], of h "mk_Range b d e"] assms(2) above below
      ranges_ok_base [OF m] ranges_ok_disjoint [OF m]
    unfolding ranges_ok_def s by (auto simp: mk_Range_def)
qed

text \<open>
  The outcome of a store, in both modes: a refused range leaves the map alone; an accepted one is
  added, from the free base \<open>c\<close> on, to the map in which the neighbour above has been cut.
\<close>

definition fits :: "bool \<Rightarrow> ('n::len, 'e) ranges \<Rightarrow> 'n word \<Rightarrow> 'n word \<Rightarrow> bool" where
  "fits shrink m b h \<longleftrightarrow>
     (if shrink then h \<notin> fst ` set m else \<forall>a p. b \<le> a \<and> a \<le> h \<longrightarrow> \<not> covers m a p)"

lemma store_outcome:
  assumes m: "ranges_ok m" and h: "h = b + (len - 1)"
  shows "len = 0 \<or> h < b \<or> \<not> fits shrink m b h
      \<Longrightarrow> StoreRangeInternal shrink b d len e m = Some (False, m)"
    and "len \<noteq> 0 \<Longrightarrow> b \<le> h \<Longrightarrow> fits shrink m b h \<Longrightarrow> \<exists>c. free_base m b h c
      \<and> (\<not> shrink \<longrightarrow> c = b \<and> cut_above h m = m)
      \<and> (\<forall>a p. c \<le> a \<and> a \<le> h \<longrightarrow> \<not> covers (cut_above h m) a p)
      \<and> StoreRangeInternal shrink b d len e m
        = Some (True, map_insert h (mk_Range c (d + (c - b)) e) (cut_above h m))"
proof -
  show "StoreRangeInternal shrink b d len e m = Some (False, m)"
    if bad: "len = 0 \<or> h < b \<or> \<not> fits shrink m b h"
  proof (cases "len = 0 \<or> h < b")
    case True
    then show ?thesis unfolding h by (rule store_bad)
  next
    case False
    then have ok: "len \<noteq> 0" "b \<le> h" and no: "\<not> fits shrink m b h" using bad by auto
    show ?thesis
    proof (cases shrink)
      case True
      then show ?thesis using store_shrink [OF m ok(1) h ok(2), of d e] no by (simp add: fits_def)
    next
      case False
      then obtain a p where "b \<le> a" "a \<le> h" "covers m a p" using no by (auto simp: fits_def)
      with False show ?thesis using store_plain [OF m ok(1)] ok(2) h by simp
    qed
  qed
  assume ok: "len \<noteq> 0" "b \<le> h" "fits shrink m b h"
  show "\<exists>c. free_base m b h c \<and> (\<not> shrink \<longrightarrow> c = b \<and> cut_above h m = m)
      \<and> (\<forall>a p. c \<le> a \<and> a \<le> h \<longrightarrow> \<not> covers (cut_above h m) a p)
      \<and> StoreRangeInternal shrink b d len e m
        = Some (True, map_insert h (mk_Range c (d + (c - b)) e) (cut_above h m))"
  proof (cases shrink)
    case True
    then have absent: "h \<notin> fst ` set m" using ok(3) by (simp add: fits_def)
    with store_shrink [OF m ok(1) h ok(2), of d e] True obtain c where c: "free_base m b h c"
      "StoreRangeInternal shrink b d len e m
        = Some (True, map_insert h (mk_Range c (d + (c - b)) e) (cut_above h m))"
      by auto
    then show ?thesis using True cut_above_free [OF m absent, of c] by (auto simp: free_base_def)
  next
    case False
    then have free: "\<not> covers m a p" if "b \<le> a" "a \<le> h" for a p
      using ok(3) that False unfolding fits_def by metis
    have "keys_in m b h = {}" using covered_keys [OF m] free by (force simp: keys_in_def)
    then have "free_base m b h b" using ok(2) by (simp add: free_base_def)
    moreover have "cut_above h m = m" using free ok(2) by (intro cut_above_same) simp
    moreover have "StoreRangeInternal shrink b d len e m = Some (True, map_insert h (mk_Range b d e) m)"
      using store_free [where shrink = shrink and d = d and e = e, OF m ok(1)] ok(2) free h by simp
    ultimately show ?thesis using free by auto
  qed
qed

text \<open>The extent a range was stored with: its key, its base without the delta, its entry\<close>

definition origins :: "('n::len, 'e) ranges \<Rightarrow> ('n word \<times> 'n word \<times> 'e) set" where
  "origins m = (\<lambda>(k, r). (k, rng_base r - rng_delta r, rng_entry r)) ` set m"

lemma origins_cut_above: "origins (cut_above h m) = origins m"
  by (auto simp: origins_def cut_above_def image_image mk_Range_def case_prod_beta intro!: image_cong)

lemma store_effect:
  assumes "ranges_ok m" "len \<noteq> 0" "b \<le> b + (len - 1)" "fits shrink m b (b + (len - 1))"
  shows "\<exists>m'. StoreRangeInternal shrink b d len e m = Some (True, m') \<and> ranges_ok m'
    \<and> origins m' = insert (b + (len - 1), b - d, e) (origins m) \<and> length m' = Suc (length m)"
proof -
  let ?h = "b + (len - 1)"
  obtain c where c: "free_base m b ?h c" "\<forall>a p. c \<le> a \<and> a \<le> ?h \<longrightarrow> \<not> covers (cut_above ?h m) a p"
    "StoreRangeInternal shrink b d len e m
      = Some (True, map_insert ?h (mk_Range c (d + (c - b)) e) (cut_above ?h m))"
    using store_outcome(2) [OF assms(1) refl assms(2-4), of d e] by blast
  have "c \<le> ?h" using c(1) by (simp add: free_base_def)
  note ins = ranges_ok_insert [OF ranges_ok_cut_above [OF assms(1)] this]
  have new: "set (map_insert ?h (mk_Range c (d + (c - b)) e) (cut_above ?h m))
      = insert (?h, mk_Range c (d + (c - b)) e) (set (cut_above ?h m))"
    "ranges_ok (map_insert ?h (mk_Range c (d + (c - b)) e) (cut_above ?h m))"
    "?h \<notin> fst ` set (cut_above ?h m)"
    using ins c(2) by blast+
  have "origins (map_insert ?h (mk_Range c (d + (c - b)) e) (cut_above ?h m))
      = insert (?h, b - d, e) (origins m)"
    unfolding origins_cut_above [of ?h m, symmetric]
    unfolding origins_def new(1) by (simp add: mk_Range_def)
  moreover have "length (map_insert ?h (mk_Range c (d + (c - b)) e) (cut_above ?h m)) = Suc (length m)"
    using length_map_insert [OF new(3)] by (simp add: cut_above_def)
  ultimately show ?thesis using c(3) new(2) by blast
qed

end
