(* ===== verification/Address_Lookup.thy ===== *)
theory Address_Lookup
  imports Range_Map
begin

text \<open>
  \<open>address_map-inl.h\<close> and the contracts of the two address containers.  The locale
  \<open>recording_store\<close> states what a sequence of stores may rely on; \<open>RangeMap\<close> and \<open>AddressMap\<close>
  provide it.
\<close>

section \<open>AddressMap\<close>

type_synonym ('n, 'e) AddressMap = "('n word, 'e) std_map"

definition AM_Store :: "'n word \<Rightarrow> 'e \<Rightarrow> ('n::len, 'e) AddressMap \<Rightarrow> bool \<times> ('n, 'e) AddressMap" where
  "AM_Store address entry m =
     (if map_find m address \<noteq> [] then (False, m) else (True, map_insert address entry m))"

definition AM_Retrieve :: "('n::len, 'e) AddressMap \<Rightarrow> 'n word \<Rightarrow> ('e \<times> 'n word) option" where
  "AM_Retrieve m address =
     (let i = upper_bound m address in
      if i = m then None else let (k, entry) = hd (map_prev m i) in Some (entry, k))"

definition AM_Clear :: "('n::len, 'e) AddressMap \<Rightarrow> ('n, 'e) AddressMap" where
  "AM_Clear m = []"

lemma AM_Store_outcome:
  assumes "map_ok m"
  shows "AM_Store a e m = (if a \<in> dom (map_of m) then (False, m) else (True, map_insert a e m))"
  using map_find_at [OF assms, of a] by (simp add: AM_Store_def dom_map_of_conv_image_fst)

lemma AM_Retrieve_Some:
  assumes "map_ok m"
  shows "AM_Retrieve m a = Some (e, k) \<longleftrightarrow>
    (k, e) \<in> set m \<and> k \<le> a \<and> (\<forall>p\<in>set m. fst p \<le> a \<longrightarrow> fst p \<le> k)"
proof (cases "upper_bound m a = m")
  case True
  then have "a < k" if "(k, e) \<in> set m"
    using upper_bound_begin [OF assms, of a] that by force
  then show ?thesis using True by (auto simp: AM_Retrieve_def not_le [symmetric])
next
  case False
  from map_prev_upper [OF assms False] obtain x v rest where x:
    "map_prev m (upper_bound m a) = (x, v) # rest" "(x, v) \<in> set m" "x \<le> a"
    "\<forall>p\<in>set m. fst p \<le> a \<longrightarrow> fst p \<le> x"
    by blast
  have "(k, e) \<in> set m \<and> k \<le> a \<and> (\<forall>p\<in>set m. fst p \<le> a \<longrightarrow> fst p \<le> k) \<longleftrightarrow> e = v \<and> k = x"
  proof
    assume k: "(k, e) \<in> set m \<and> k \<le> a \<and> (\<forall>p\<in>set m. fst p \<le> a \<longrightarrow> fst p \<le> k)"
    then have "x \<le> k" using x(2,3) by force
    moreover have "k \<le> x" using k x(4) by force
    ultimately have "k = x" by simp
    with k x(2) map_ok_unique [OF assms] show "e = v \<and> k = x" by blast
  qed (use x(2-4) in blast)
  moreover have "AM_Retrieve m a = Some (v, x)" using x(1) False by (simp add: AM_Retrieve_def)
  ultimately show ?thesis using x(2-4) by auto
qed

section \<open>Sequences of stores\<close>

text \<open>Calls of a store operation one after the other; the flags they return\<close>

fun store_all :: "('x \<Rightarrow> 's \<Rightarrow> (bool \<times> 's) option) \<Rightarrow> 'x list \<Rightarrow> 's \<Rightarrow> (bool list \<times> 's) option" where
  "store_all store [] s = Some ([], s)"
| "store_all store (x # xs) s =
     (case store x s of
        None \<Rightarrow> None
      | Some (ok, s') \<Rightarrow> map_option (\<lambda>(oks, s''). (ok # oks, s'')) (store_all store xs s'))"

definition accepted :: "'x list \<Rightarrow> bool list \<Rightarrow> 'x set" where
  "accepted xs oks = {x. (x, True) \<in> set (zip xs oks)}"

lemma accepted_Nil [simp]: "accepted [] oks = {}"
  by (simp add: accepted_def)

lemma accepted_Cons [simp]:
  "accepted (x # xs) (ok # oks) = (if ok then insert x (accepted xs oks) else accepted xs oks)"
  by (auto simp: accepted_def)

locale recording_store =
  fixes inv :: "'s \<Rightarrow> bool"
    and store :: "'x \<Rightarrow> 's \<Rightarrow> (bool \<times> 's) option"
    and items :: "'s \<Rightarrow> 'y set"
    and item :: "'x \<Rightarrow> 'y"
    and count :: "'s \<Rightarrow> nat"
  assumes store_returns: "inv s \<Longrightarrow> store x s = Some (False, s) \<or> (\<exists>s'. store x s = Some (True, s')
    \<and> inv s' \<and> items s' = insert (item x) (items s) \<and> count s' = Suc (count s))"
begin

lemma stores_return:
  "inv s \<Longrightarrow> \<exists>oks s'. store_all store xs s = Some (oks, s') \<and> inv s' \<and> length oks = length xs
    \<and> items s' = items s \<union> item ` accepted xs oks
    \<and> count s' = count s + length (filter id oks)"
proof (induction xs arbitrary: s)
  case (Cons x xs)
  from store_returns [OF Cons.prems, of x] show ?case
  proof (elim disjE exE conjE)
    assume "store x s = Some (False, s)"
    with Cons.IH [OF Cons.prems] show ?thesis by auto
  next
    fix s' assume s': "store x s = Some (True, s')" "inv s'"
      "items s' = insert (item x) (items s)" "count s' = Suc (count s)"
    with Cons.IH [OF s'(2)] show ?thesis by auto
  qed
qed simp

end

definition range_store :: "'n word \<times> 'n word \<times> 'e \<Rightarrow> ('n::len word, 'e) RangeMap
  \<Rightarrow> (bool \<times> ('n word, 'e) RangeMap) option" where
  "range_store = (\<lambda>(base, len, entry). StoreRange base len entry)"

definition extent :: "'n::len word \<times> 'n word \<times> 'e \<Rightarrow> 'n word \<times> 'n word \<times> 'e" where
  "extent = (\<lambda>(base, len, entry). (base + (len - 1), base, entry))"

interpretation range_map: recording_store "\<lambda>s. ranges_ok (rm_map s)" range_store
  "\<lambda>s. origins (rm_map s)" extent "\<lambda>s. length (rm_map s)"
proof
  fix s :: "('n::len word, 'e) RangeMap" and x :: "'n word \<times> 'n word \<times> 'e"
  assume m: "ranges_ok (rm_map s)"
  obtain b len e where x: "x = (b, len, e)" by (cases x)
  let ?fits = "len \<noteq> 0 \<and> b \<le> b + (len - 1) \<and> fits (enable_shrink_down s) (rm_map s) b (b + (len - 1))"
  show "range_store x s = Some (False, s) \<or> (\<exists>s'. range_store x s = Some (True, s') \<and>
    ranges_ok (rm_map s') \<and> origins (rm_map s') = insert (extent x) (origins (rm_map s)) \<and>
    length (rm_map s') = Suc (length (rm_map s)))"
  proof (cases ?fits)
    case True
    then obtain m' where "StoreRangeInternal (enable_shrink_down s) b 0 len e (rm_map s) = Some (True, m')"
      "ranges_ok m'" "origins m' = insert (b + (len - 1), b, e) (origins (rm_map s))"
      "length m' = Suc (length (rm_map s))"
      using store_effect [OF m, of len b "enable_shrink_down s" 0 e] by auto
    then show ?thesis by (simp add: range_store_def StoreRange_def extent_def x)
  next
    case False
    then have "StoreRangeInternal (enable_shrink_down s) b 0 len e (rm_map s) = Some (False, rm_map s)"
      by (intro store_outcome(1) [OF m refl]) (auto simp: not_le)
    then show ?thesis by (simp add: range_store_def StoreRange_def x)
  qed
qed

interpretation address_map: recording_store map_ok "\<lambda>(a, e) m. Some (AM_Store a e m)"
  "\<lambda>m. set m" "\<lambda>x. x" length
proof
  fix m :: "('n::len, 'e) AddressMap" and x :: "'n word \<times> 'e"
  assume m: "map_ok m"
  obtain a e where x: "x = (a, e)" by (cases x)
  show "(case x of (a, e) \<Rightarrow> \<lambda>m. Some (AM_Store a e m)) m = Some (False, m) \<or>
    (\<exists>m'. (case x of (a, e) \<Rightarrow> \<lambda>m. Some (AM_Store a e m)) m = Some (True, m') \<and>
      map_ok m' \<and> set m' = insert x (set m) \<and> length m' = Suc (length m))"
    using map_ok_insert [OF m, of a e] set_map_insert [of a m e] length_map_insert [of a m e]
    by (simp add: x AM_Store_outcome [OF m] dom_map_of_conv_image_fst)
qed

section \<open>What the resolver may rely on\<close>

lemma new_RangeMap_ok [simp]: "ranges_ok (rm_map new_RangeMap)" "origins [] = {}"
  "rm_map new_RangeMap = []"
  by (simp_all add: new_RangeMap_def origins_def)

lemma SetEnableShrinkDown_map [simp]: "rm_map (SetEnableShrinkDown b s) = rm_map s"
  by (simp add: SetEnableShrinkDown_def)

text \<open>
  C32. \<open>RangeMap\<close>: after any sequence of \<open>StoreRange\<close> calls on a new map, with or without shrinking,
  the ranges are disjoint and not empty; there are as many of them as calls that returned true, and
  taking the deltas off the bases gives back exactly the extents and entries of those calls.
\<close>
theorem range_map_stores:
  fixes xs :: "('n::len word \<times> 'n word \<times> 'e) list"
  shows "\<exists>oks s. store_all range_store xs (SetEnableShrinkDown shrink new_RangeMap) = Some (oks, s)
    \<and> ranges_ok (rm_map s) \<and> length oks = length xs
    \<and> length (rm_map s) = length (filter id oks)
    \<and> origins (rm_map s) = extent ` accepted xs oks"
  using range_map.stores_return [of "SetEnableShrinkDown shrink new_RangeMap" xs]
  by auto

text \<open>
  \<open>RangeMap::StoreRangeInternal\<close> returns on every map whose ranges are disjoint, however often
  it calls itself to shrink ranges, and leaves such a map; it refuses exactly the empty ranges, those
  that wrap around the address space, and those that overlap a stored range (without shrinking) or
  end where a stored range ends (with shrinking), and then the map is unchanged.
\<close>
lemma range_map_store_returns:
  assumes "ranges_ok m"
  shows "\<exists>ok m'. StoreRangeInternal shrink base delta len entry m = Some (ok, m')
    \<and> ranges_ok m' \<and> (\<not> ok \<longrightarrow> m' = m)
    \<and> (ok \<longleftrightarrow> len \<noteq> 0 \<and> base \<le> base + (len - 1) \<and> fits shrink m base (base + (len - 1)))"
proof (cases "len \<noteq> 0 \<and> base \<le> base + (len - 1) \<and> fits shrink m base (base + (len - 1))")
  case True
  with store_effect [OF assms, of len base shrink delta entry] show ?thesis by auto
next
  case False
  then have "StoreRangeInternal shrink base delta len entry m = Some (False, m)"
    by (intro store_outcome(1) [OF assms refl]) (auto simp: not_le)
  with False assms show ?thesis by auto
qed

text \<open>The map as a partial function from addresses to entries\<close>

definition view :: "('n::len, 'e) ranges \<Rightarrow> 'n word \<Rightarrow> 'e option" where
  "view m a = map_option fst (RetrieveRange m a)"

lemma view_Some:
  "ranges_ok m \<Longrightarrow> view m a = Some e \<longleftrightarrow> (\<exists>k r. covers m a (k, r) \<and> rng_entry r = e)"
  by (auto simp: view_def RetrieveRange_covers range_out_def)

lemma view_None: "ranges_ok m \<Longrightarrow> view m a = None \<longleftrightarrow> \<not> (\<exists>p. covers m a p)"
  by (simp add: view_def RetrieveRange_None)

lemma view_eqI:
  assumes "ranges_ok m" "ranges_ok m'" "\<And>k r. covers m' a (k, r) \<longleftrightarrow> covers m a (k, r)"
  shows "view m' a = view m a"
  using assms by (metis not_Some_eq view_Some)

lemma covers_insert:
  "set m' = insert (h, mk_Range b d e) (set m)
    \<Longrightarrow> covers m' a p \<longleftrightarrow> covers m a p \<or> p = (h, mk_Range b d e) \<and> b \<le> a \<and> a \<le> h"
  by (auto simp: covers_def mk_Range_def)

text \<open>
  C33. Without shrinking, \<open>RangeMap\<close> refines a partial function from addresses to entries:
  \<open>StoreRange\<close> succeeds exactly if the range is not empty, does not wrap, and the function is
  undefined on all of it, and then overrides the function with the entry on the range; otherwise the
  function stays.  Lookups read the function.
\<close>
theorem range_map_refines:
  assumes "ranges_ok m"
  shows "\<exists>m'. StoreRangeInternal False base 0 len entry m
      = Some (len \<noteq> 0 \<and> base \<le> base + (len - 1) \<and> {base..base + (len - 1)} \<inter> dom (view m) = {}, m')
    \<and> view m' = (if len \<noteq> 0 \<and> base \<le> base + (len - 1) \<and> {base..base + (len - 1)} \<inter> dom (view m) = {}
        then \<lambda>a. if base \<le> a \<and> a \<le> base + (len - 1) then Some entry else view m a
        else view m)"
proof -
  let ?h = "base + (len - 1)"
  have fits: "fits False m base ?h \<longleftrightarrow> {base..?h} \<inter> dom (view m) = {}"
  proof -
    have "{base..?h} \<inter> dom (view m) = {} \<longleftrightarrow> (\<forall>a. base \<le> a \<and> a \<le> ?h \<longrightarrow> view m a = None)"
      by auto
    also have "\<dots> \<longleftrightarrow> fits False m base ?h"
      unfolding fits_def view_None [OF assms] by simp
    finally show ?thesis by simp
  qed
  show ?thesis
  proof (cases "len \<noteq> 0 \<and> base \<le> ?h \<and> fits False m base ?h")
    case True
    define m' where "m' = map_insert ?h (mk_Range base 0 entry) m"
    have free: "\<not> covers m a p" if "base \<le> a" "a \<le> ?h" for a p
      using True that unfolding fits_def by metis
    have ok: "ranges_ok m'" and set: "set m' = insert (?h, mk_Range base 0 entry) (set m)"
      unfolding m'_def using ranges_ok_insert [OF assms _ free] True by blast+
    have "StoreRangeInternal False base 0 len entry m = Some (True, m')"
      unfolding m'_def using store_free [OF assms _ _ free] True by blast
    moreover have "view m' a = (if base \<le> a \<and> a \<le> ?h then Some entry else view m a)" for a
    proof (cases "base \<le> a \<and> a \<le> ?h")
      case True
      then have "covers m' a (?h, mk_Range base 0 entry)" by (simp add: covers_insert [OF set])
      moreover have "rng_entry (mk_Range base 0 entry) = entry" by (simp add: mk_Range_def)
      ultimately have "view m' a = Some entry" unfolding view_Some [OF ok] by blast
      then show ?thesis using True by simp
    next
      case False
      then have "view m' a = view m a"
        by (intro view_eqI [OF assms ok]) (auto simp: covers_insert [OF set])
      with False show ?thesis by auto
    qed
    ultimately show ?thesis using True fits by (intro exI [of _ m']) (simp add: fun_eq_iff)
  next
    case False
    then have "StoreRangeInternal False base 0 len entry m = Some (False, m)"
      by (intro store_outcome(1) [OF assms refl]) (auto simp: not_le)
    with False fits show ?thesis by (intro exI [of _ m]) auto
  qed
qed

lemma covers_cut_above:
  "covers (cut_above h m) a (k, t) \<longleftrightarrow> (\<exists>u. (k, u) \<in> set m \<and> a \<le> k
    \<and> (if h < k \<and> rng_base u \<le> h
        then h < a \<and> t = mk_Range (h + 1) (rng_delta u + (h - rng_base u + 1)) (rng_entry u)
        else rng_base u \<le> a \<and> t = u))"
proof -
  have "h < k \<Longrightarrow> h + 1 \<le> a \<longleftrightarrow> h < a" for k
    using less_succ [of h k a] by (simp add: not_less [symmetric])
  then have "t = (if h < k \<and> rng_base u \<le> h
        then mk_Range (h + 1) (rng_delta u + (h - rng_base u + 1)) (rng_entry u) else u)
      \<and> rng_base t \<le> a
    \<longleftrightarrow> (if h < k \<and> rng_base u \<le> h
        then h < a \<and> t = mk_Range (h + 1) (rng_delta u + (h - rng_base u + 1)) (rng_entry u)
        else rng_base u \<le> a \<and> t = u)" for u
    by (auto simp: mk_Range_def)
  then show ?thesis unfolding covers_def set_cut_above fst_conv snd_conv by blast
qed

lemma view_cut_above:
  assumes "ranges_ok m"
  shows "view (cut_above h m) a =
    (if a \<le> h \<and> (\<exists>k r. covers m a (k, r) \<and> h < k) then None else view m a)"
proof (cases "a \<le> h \<and> (\<exists>k r. covers m a (k, r) \<and> h < k)")
  case True
  then obtain k r where kr: "a \<le> h" "covers m a (k, r)" "h < k" by blast
  have "\<not> covers (cut_above h m) a (l, t)" for l t
  proof
    assume "covers (cut_above h m) a (l, t)"
    then obtain u where u: "(l, u) \<in> set m" "a \<le> l" "rng_base u \<le> a" "\<not> (h < l \<and> rng_base u \<le> h)"
      using kr(1) by (auto simp: covers_cut_above split: if_splits)
    then have "(l, u) = (k, r)" by (intro covers_unique [OF assms _ kr(2)]) (simp add: covers_def)
    with u(3,4) kr(1,3) show False by simp
  qed
  then have "view (cut_above h m) a = None"
    unfolding view_None [OF ranges_ok_cut_above [OF assms]] by auto
  with True show ?thesis by simp
next
  case False
  have "view (cut_above h m) a = Some e \<longleftrightarrow> view m a = Some e" for e
    unfolding view_Some [OF assms] view_Some [OF ranges_ok_cut_above [OF assms]]
  proof
    assume "\<exists>k t. covers (cut_above h m) a (k, t) \<and> rng_entry t = e"
    then obtain k t where "covers (cut_above h m) a (k, t)" "rng_entry t = e" by blast
    then obtain u where u: "(k, u) \<in> set m" "a \<le> k" "rng_entry u = e"
      "if h < k \<and> rng_base u \<le> h then h < a else rng_base u \<le> a"
      by (auto simp: covers_cut_above mk_Range_def split: if_splits)
    then have "covers m a (k, u)" by (auto simp: covers_def split: if_splits)
    with u(3) show "\<exists>k r. covers m a (k, r) \<and> rng_entry r = e" by blast
  next
    assume "\<exists>k r. covers m a (k, r) \<and> rng_entry r = e"
    then obtain k r where kr: "covers m a (k, r)" "rng_entry r = e" by blast
    define t where "t = (if h < k \<and> rng_base r \<le> h
      then mk_Range (h + 1) (rng_delta r + (h - rng_base r + 1)) (rng_entry r) else r)"
    have "h < a" if "h < k" using kr(1) False that not_le by blast
    then have "covers (cut_above h m) a (k, t)"
      using kr(1) unfolding covers_cut_above t_def
      by (intro exI [of _ r]) (auto simp: covers_def)
    moreover have "rng_entry t = e" by (simp add: t_def kr(2) mk_Range_def)
    ultimately show "\<exists>k t. covers (cut_above h m) a (k, t) \<and> rng_entry t = e" by blast
  qed
  then have "view (cut_above h m) a = view m a" by (cases "view m a") (metis not_Some_eq)+
  then show ?thesis unfolding if_not_P [OF False] .
qed

lemma shrunk_view:
  assumes "ranges_ok m" "StoreRangeInternal True base delta len entry m = Some (True, m')"
    and h_def: "h = base + (len - 1)"
  shows "\<exists>c. base \<le> c \<and> c \<le> h \<and> (c \<noteq> base \<longrightarrow> c - 1 \<in> fst ` set m)
    \<and> (\<forall>k\<in>fst ` set m. c \<le> k \<longrightarrow> h < k)
    \<and> RetrieveRange m' h = Some (entry, c, delta + (c - base), h - c + 1)
    \<and> (\<forall>a. view m' a = (if c \<le> a \<and> a \<le> h then Some entry
          else if a < c \<and> (\<exists>k r. covers m a (k, r) \<and> h < k) then None
          else view m a))"
proof -
  have ok: "len \<noteq> 0" "base \<le> h" "fits True m base h"
    using store_outcome(1) [OF assms(1) h_def, of True delta entry] assms(2)
    unfolding not_less [symmetric] by auto
  obtain c where c: "free_base m base h c"
    and clear: "\<forall>a p. c \<le> a \<and> a \<le> h \<longrightarrow> \<not> covers (cut_above h m) a p"
    and st: "StoreRangeInternal True base delta len entry m
      = Some (True, map_insert h (mk_Range c (delta + (c - base)) entry) (cut_above h m))"
    using store_outcome(2) [OF assms(1) h_def ok, of delta entry] by blast
  have free: "\<not> covers (cut_above h m) a p" if "c \<le> a" "a \<le> h" for a p
    using clear that by blast
  from st have m': "m' = map_insert h (mk_Range c (delta + (c - base)) entry) (cut_above h m)"
    using assms(2) by simp
  have ch: "base \<le> c" "c \<le> h" using c by (simp_all add: free_base_def)
  have cut: "ranges_ok (cut_above h m)" by (rule ranges_ok_cut_above [OF assms(1)])
  have rok: "ranges_ok m'"
    and set: "set m' = insert (h, mk_Range c (delta + (c - base)) entry) (set (cut_above h m))"
    unfolding m' using ranges_ok_insert [OF cut ch(2) free] by blast+
  have new: "covers m' a (h, mk_Range c (delta + (c - base)) entry)" if "c \<le> a" "a \<le> h" for a
    using that by (simp add: covers_insert [OF set])
  have "RetrieveRange m' h = Some (entry, c, delta + (c - base), h - c + 1)"
    unfolding RetrieveRange_covers [OF rok] using new [OF ch(2)]
    by (intro exI conjI) (assumption | simp add: range_out_def mk_Range_def)+
  moreover have "c - 1 \<in> fst ` set m" if ne: "c \<noteq> base"
  proof -
    obtain k where "k \<in> keys_in m base h" "c = k + 1" using c ne unfolding free_base_def by blast
    then show ?thesis by (simp add: keys_in_def)
  qed
  moreover have "h < fst p" if "p \<in> set m" "c \<le> fst p" for p
    using keys_in_empty [of m c h p] c that ok(3)
    by (force simp: free_base_def fits_def order.strict_iff_order)
  moreover have "view m' a = (if c \<le> a \<and> a \<le> h then Some entry
          else if a < c \<and> (\<exists>k r. covers m a (k, r) \<and> h < k) then None
          else view m a)" for a
  proof (cases "c \<le> a \<and> a \<le> h")
    case True
    then have "view m' a = Some entry"
      unfolding view_Some [OF rok] using new [of a]
      by (intro exI conjI) (assumption | simp add: mk_Range_def)+
    with True show ?thesis by simp
  next
    case False
    then have "view m' a = view (cut_above h m) a"
      by (intro view_eqI [OF cut rok]) (auto simp: covers_insert [OF set])
    with False ch(2) show ?thesis unfolding view_cut_above [OF assms(1)] by auto
  qed
  ultimately show ?thesis using ch by blast
qed

text \<open>
  With shrinking, an accepted range holds its end and as much below as no range that ends inside
  it holds (from \<open>c\<close> on); every other address keeps its entry or, if the range above that overlapped
  has been cut, loses it: no address is handed from one stored entry to another.
\<close>
lemma range_map_shrinks:
  assumes "ranges_ok m" "StoreRangeInternal True base delta len entry m = Some (True, m')"
  shows "let h = base + (len - 1) in \<exists>c. base \<le> c \<and> c \<le> h \<and> (c \<noteq> base \<longrightarrow> c - 1 \<in> fst ` set m)
    \<and> (\<forall>k\<in>fst ` set m. c \<le> k \<longrightarrow> h < k)
    \<and> RetrieveRange m' h = Some (entry, c, delta + (c - base), h - c + 1)
    \<and> (\<forall>a. view m' a = (if c \<le> a \<and> a \<le> h then Some entry
          else if a < c \<and> (\<exists>k r. covers m a (k, r) \<and> h < k) then None
          else view m a))"
  unfolding Let_def by (rule shrunk_view [OF assms refl])

text \<open>Two ranges, and a third between them\<close>

definition two_ranges :: "(32, string) ranges" where
  "two_ranges = [(0x1fff, mk_Range 0x1000 0 ''low''), (0x4fff, mk_Range 0x3000 0 ''high'')]"

lemma two_ranges_ok: "ranges_ok two_ranges"
  by (simp add: ranges_ok_def two_ranges_def map_ok_def mk_Range_def)

lemma range_map_refines_witness:
  "\<exists>m'. StoreRangeInternal False 0x2000 0 0x1000 ''mid'' two_ranges
      = Some ((0x1000 :: 32 word) \<noteq> 0 \<and> (0x2000 :: 32 word) \<le> 0x2000 + (0x1000 - 1)
        \<and> {0x2000..0x2000 + (0x1000 - 1)} \<inter> dom (view two_ranges) = {}, m')
    \<and> view m' = (if (0x1000 :: 32 word) \<noteq> 0 \<and> (0x2000 :: 32 word) \<le> 0x2000 + (0x1000 - 1)
        \<and> {0x2000..0x2000 + (0x1000 - 1)} \<inter> dom (view two_ranges) = {}
        then \<lambda>a. if 0x2000 \<le> a \<and> a \<le> 0x2000 + (0x1000 - 1) then Some ''mid'' else view two_ranges a
        else view two_ranges)"
  by (rule range_map_refines [OF two_ranges_ok])

text \<open>
  \<open>RetrieveNearestRange\<close> finds the range that holds the address; if there is none, the range
  that ends at the highest address below it; and nothing only if all ranges start above.
\<close>
lemma nearest_range:
  assumes "ranges_ok m"
  shows "(case RetrieveNearestRange m a of
      None \<Rightarrow> \<forall>(k, r)\<in>set m. a < rng_base r
    | Some x \<Rightarrow> \<exists>k r. (k, r) \<in> set m \<and> x = range_out k r \<and> rng_base r \<le> a
        \<and> (\<forall>(l, t)\<in>set m. rng_base t \<le> a \<longrightarrow> l \<le> k))"
proof (cases "RetrieveRange m a")
  case (Some x)
  then obtain k r where kr: "covers m a (k, r)" "x = range_out k r"
    unfolding RetrieveRange_covers [OF assms] by blast
  have "l \<le> k" if "(l, t) \<in> set m" "rng_base t \<le> a" for l t
    using ranges_ok_disjoint [OF assms _ that(1), of k r] kr(1) that(2)
    by (force simp: covers_def not_less [symmetric])
  with kr Some show ?thesis by (auto simp: RetrieveNearestRange_def covers_def)
next
  case None
  then have none: "\<not> covers m a p" for p using RetrieveRange_None [OF assms] by blast
  have start: "fst p < a" if "p \<in> set m" "rng_base (snd p) \<le> a" for p
    using none [of p] that by (simp add: covers_def)
  show ?thesis
  proof (cases "upper_bound m a = m")
    case True
    then have "\<forall>p\<in>set m. a < fst p" using upper_bound_begin [OF ranges_ok_map [OF assms]] by simp
    with start have "a < rng_base r" if "(k, r) \<in> set m" for k r
      using that by (force simp: not_le [symmetric])
    with True None show ?thesis by (auto simp: RetrieveNearestRange_def)
  next
    case False
    from map_prev_upper [OF ranges_ok_map [OF assms] False] obtain k r rest where kr:
      "map_prev m (upper_bound m a) = (k, r) # rest" "(k, r) \<in> set m" "k \<le> a"
      "\<forall>p\<in>set m. fst p \<le> a \<longrightarrow> fst p \<le> k"
      by blast
    have "rng_base r \<le> a" using ranges_ok_base [OF assms kr(2)] kr(3) by simp
    moreover have "l \<le> k" if "(l, t) \<in> set m" "rng_base t \<le> a" for l t
      using start [OF that(1)] kr(4) that by force
    ultimately show ?thesis
      using kr(1,2) None False by (auto simp: RetrieveNearestRange_def Let_def)
  qed
qed

text \<open>\<open>RetrieveRangeAtIndex\<close> enumerates the ranges in the order of the map.\<close>

lemma GetCount_length: "length m < 2 ^ 31 \<Longrightarrow> GetCount m = int (length m)"
  by (simp add: GetCount_def signed_of_nat signed_take_bit_int_eq_self)

lemma RetrieveRangeAtIndex_nth:
  assumes "length m < 2 ^ 31" "i < length m"
  shows "RetrieveRangeAtIndex m (int i) = Some (range_out (fst (m ! i)) (snd (m ! i)))"
  using assms GetCount_length [OF assms(1)]
  by (simp add: RetrieveRangeAtIndex_def hd_drop_conv_nth case_prod_beta)

text \<open>
  \<open>AddressMap\<close> is a partial function from addresses to entries: \<open>Store\<close> adds an address unless it
  is present; \<open>Retrieve\<close> finds the entry at the highest address at or before the given one.
\<close>
lemma address_map_refines:
  assumes "map_ok m"
  shows "\<exists>m'. AM_Store a e m = (a \<notin> dom (map_of m), m') \<and> map_ok m'
    \<and> map_of m' = (if a \<in> dom (map_of m) then map_of m else (map_of m)(a \<mapsto> e))
    \<and> AM_Retrieve m b = (let K = {k \<in> dom (map_of m). k \<le> b} in
        if K = {} then None else Some (the (map_of m (Max K)), Max K))"
proof -
  have dom: "dom (map_of m) = fst ` set m" by (rule dom_map_of_conv_image_fst)
  have retr: "AM_Retrieve m b = (let K = {k \<in> dom (map_of m). k \<le> b} in
      if K = {} then None else Some (the (map_of m (Max K)), Max K))"
  proof (cases "{k \<in> dom (map_of m). k \<le> b} = {}")
    case True
    then have "AM_Retrieve m b \<noteq> Some (v, k)" for v k
      unfolding AM_Retrieve_Some [OF assms] dom by force
    then have "AM_Retrieve m b = None" by (cases "AM_Retrieve m b") auto
    with True show ?thesis by simp
  next
    case False
    define k where "k = Max {k \<in> dom (map_of m). k \<le> b}"
    have fin: "finite {k \<in> dom (map_of m). k \<le> b}" by (simp add: finite_dom_map_of)
    have k: "k \<in> dom (map_of m)" "k \<le> b" using Max_in [OF fin False] by (simp_all add: k_def)
    then obtain v where v: "map_of m k = Some v" by blast
    have "(k, v) \<in> set m" by (rule map_of_SomeD [OF v])
    moreover have "fst p \<le> k" if "p \<in> set m" "fst p \<le> b" for p
      unfolding k_def using that by (intro Max_ge [OF fin]) (auto simp: dom)
    ultimately have "AM_Retrieve m b = Some (v, k)"
      unfolding AM_Retrieve_Some [OF assms] using k(2) by blast
    with False v show ?thesis by (simp add: Let_def k_def [symmetric])
  qed
  show ?thesis
  proof (cases "a \<in> dom (map_of m)")
    case True
    with retr assms show ?thesis by (simp add: AM_Store_outcome)
  next
    case False
    then have "map_of (map_insert a e m) = (map_of m)(a \<mapsto> e)"
      by (intro map_of_insert [OF assms]) (simp add: dom)
    with False retr map_ok_insert [OF assms, of a e] show ?thesis
      by (simp add: AM_Store_outcome [OF assms])
  qed
qed

end
