(* ===== verification/Libc_Support.thy ===== *)
theory Libc_Support
  imports LZO_Prelude
begin

text \<open>
  \<open>src/app/breakpad/src/common/linux/linux_libc_support.cc\<close>: the string functions the crash handler
  uses instead of the C library's.

  A pointer is the list of the bytes from where it points to the end of its buffer; the pointers that
  functions return are the rest of that list or an offset.  The result \<open>None\<close> says that the function
  accesses memory behind the buffer.  \<open>char\<close> is signed or not as the platform has it (\<open>sc\<close>); \<open>int\<close>
  has 32 bits, with the wrap-around of two's complement, \<open>uintptr_t\<close> and \<open>uintmax_t\<close> have 64.
\<close>

section \<open>Strings\<close>

primrec my_strlen :: "byte list \<Rightarrow> nat option" where
  "my_strlen [] = None"
| "my_strlen (c # s) = (if c = 0 then Some 0 else map_option Suc (my_strlen s))"

definition char_val :: "bool \<Rightarrow> byte \<Rightarrow> int" where
  "char_val sc c = (if sc then sint c else uint c)"

fun my_strcmp :: "bool \<Rightarrow> byte list \<Rightarrow> byte list \<Rightarrow> int option" where
  "my_strcmp sc (a # as) (b # bs) =
     (if char_val sc a < char_val sc b then Some (- 1)
      else if char_val sc a > char_val sc b then Some 1
      else if a = 0 then Some 0
      else my_strcmp sc as bs)"
| "my_strcmp sc _ _ = None"

fun my_strncmp :: "bool \<Rightarrow> byte list \<Rightarrow> byte list \<Rightarrow> nat \<Rightarrow> int option" where
  "my_strncmp sc as bs 0 = Some 0"
| "my_strncmp sc (a # as) (b # bs) (Suc n) =
     (if char_val sc a < char_val sc b then Some (- 1)
      else if char_val sc a > char_val sc b then Some 1
      else if a = 0 then Some 0
      else my_strncmp sc as bs n)"
| "my_strncmp sc _ _ (Suc n) = None"

primrec my_strchr :: "byte list \<Rightarrow> byte \<Rightarrow> nat option option" where
  "my_strchr [] needle = None"
| "my_strchr (c # s) needle =
     (if c \<noteq> 0 \<and> c \<noteq> needle then map_option (map_option Suc) (my_strchr s needle)
      else if c = needle then Some (Some 0)
      else Some None)"

primrec strrchr_loop :: "byte list \<Rightarrow> byte \<Rightarrow> nat \<Rightarrow> nat option \<Rightarrow> nat option option" where
  "strrchr_loop [] needle i ret = None"
| "strrchr_loop (c # s) needle i ret =
     (if c = 0 then Some ret
      else strrchr_loop s needle (Suc i) (if c = needle then Some i else ret))"

definition my_strrchr :: "byte list \<Rightarrow> byte \<Rightarrow> nat option option" where
  "my_strrchr haystack needle = strrchr_loop haystack needle 0 None"

text \<open>\<open>needle\<close> is an \<open>int\<close> that is compared as it is with unsigned characters.\<close>

fun my_memchr :: "byte list \<Rightarrow> int \<Rightarrow> nat \<Rightarrow> nat option option" where
  "my_memchr s needle 0 = Some None"
| "my_memchr [] needle (Suc n) = None"
| "my_memchr (c # s) needle (Suc n) =
     (if uint c = needle then Some (Some 0) else map_option (map_option Suc) (my_memchr s needle n))"

fun my_memset :: "byte list \<Rightarrow> byte \<Rightarrow> nat \<Rightarrow> byte list option" where
  "my_memset p c 0 = Some p"
| "my_memset [] c (Suc n) = None"
| "my_memset (x # p) c (Suc n) = map_option ((#) c) (my_memset p c n)"

fun strlcpy_loop :: "byte list \<Rightarrow> byte list \<Rightarrow> nat \<Rightarrow> nat \<Rightarrow> nat \<Rightarrow> (byte list \<times> nat \<times> nat) option" where
  "strlcpy_loop s1 [] n pos1 pos2 = None"
| "strlcpy_loop s1 (c # s2) n pos1 pos2 =
     (if c = 0 then Some (s1, pos1, pos2)
      else if pos1 + 1 < n then
        if pos1 < length s1 then strlcpy_loop (s1[pos1 := c]) s2 n (pos1 + 1) (pos2 + 1) else None
      else strlcpy_loop s1 s2 n pos1 (pos2 + 1))"

definition my_strlcpy :: "byte list \<Rightarrow> byte list \<Rightarrow> nat \<Rightarrow> (byte list \<times> nat) option" where
  "my_strlcpy s1 s2 n =
     (case strlcpy_loop s1 s2 n 0 0 of
        None \<Rightarrow> None
      | Some (s1, pos1, pos2) \<Rightarrow>
          if n > 0 then
            if pos1 < length s1 then Some (s1[pos1 := 0], pos2) else None
          else Some (s1, pos2))"

fun strlcat_end :: "byte list \<Rightarrow> nat \<Rightarrow> nat option" where
  "strlcat_end s 0 = Some 0"
| "strlcat_end [] (Suc n) = None"
| "strlcat_end (c # s) (Suc n) = (if c \<noteq> 0 then map_option Suc (strlcat_end s n) else Some 0)"

definition my_strlcat :: "byte list \<Rightarrow> byte list \<Rightarrow> nat \<Rightarrow> (byte list \<times> nat) option" where
  "my_strlcat s1 s2 n =
     (case strlcat_end s1 n of
        None \<Rightarrow> None
      | Some pos1 \<Rightarrow>
          if pos1 = n then Some (s1, pos1)
          else map_option (\<lambda>(t, k). (take pos1 s1 @ t, pos1 + k)) (my_strlcpy (drop pos1 s1) s2 (n - pos1)))"

text \<open>\<open>sizeof(spaces)\<close> counts the terminating NUL of the array.\<close>

definition my_isspace :: "int \<Rightarrow> bool" where
  "my_isspace ch \<longleftrightarrow> ch \<in> set [32, 9, 12, 10, 13, 9, 11, 0]"

section \<open>Numbers\<close>

fun strtoui_loop :: "u32 \<Rightarrow> byte list \<Rightarrow> u32 option option" where
  "strtoui_loop r [] = None"
| "strtoui_loop r (c # s) =
     (if c = 0 then Some (Some r)
      else
        let old_r = r; r = r * 10 in
        if c < 48 \<or> c > 57 then Some None
        else
          let r = r + (ucast c - 48) in
          if sint r < sint old_r then Some None else strtoui_loop r s)"

definition my_strtoui :: "byte list \<Rightarrow> u32 option option" where
  "my_strtoui s =
     (case s of [] \<Rightarrow> None | c # _ \<Rightarrow> if c = 0 then Some None else strtoui_loop 0 s)"

function uint_len_loop :: "u64 \<Rightarrow> nat" where
  "uint_len_loop i = (if i = 0 then 0 else Suc (uint_len_loop (i div 10)))"
  by auto
termination
  by (relation "measure unat") (auto simp: unat_div unat_gt_0)

definition my_uint_len :: "u64 \<Rightarrow> nat" where
  "my_uint_len i = (if i = 0 then 1 else uint_len_loop i)"

fun my_uitos :: "byte list \<Rightarrow> u64 \<Rightarrow> nat \<Rightarrow> byte list option" where
  "my_uitos output i 0 = Some output"
| "my_uitos output i (Suc index) =
     (if index < length output
      then my_uitos (output[index := 48 + ucast (i mod 10)]) (i div 10) index
      else None)"

definition hex_digit :: "byte \<Rightarrow> u64 option" where
  "hex_digit c =
     (if c \<ge> 48 \<and> c \<le> 57 then Some (ucast c - 48)
      else if c \<ge> 97 \<and> c \<le> 102 then Some ((ucast c - 97) + 10)
      else if c \<ge> 65 \<and> c \<le> 70 then Some ((ucast c - 65) + 10)
      else None)"

primrec read_hex_loop :: "byte list \<Rightarrow> u64 \<Rightarrow> (u64 \<times> byte list) option" where
  "read_hex_loop [] r = None"
| "read_hex_loop (c # s) r =
     (case hex_digit c of Some d \<Rightarrow> read_hex_loop s (push_bit 4 r + d) | None \<Rightarrow> Some (r, c # s))"

definition my_read_hex_ptr :: "byte list \<Rightarrow> (u64 \<times> byte list) option" where
  "my_read_hex_ptr s = read_hex_loop s 0"

primrec read_decimal_loop :: "byte list \<Rightarrow> u64 \<Rightarrow> (u64 \<times> byte list) option" where
  "read_decimal_loop [] r = None"
| "read_decimal_loop (c # s) r =
     (if c \<ge> 48 \<and> c \<le> 57 then read_decimal_loop s (r * 10 + (ucast c - 48)) else Some (r, c # s))"

definition my_read_decimal_ptr :: "byte list \<Rightarrow> (u64 \<times> byte list) option" where
  "my_read_decimal_ptr s = read_decimal_loop s 0"

section \<open>Copying and appending strings\<close>

lemma my_strlen_string: "0 \<notin> set str \<Longrightarrow> my_strlen (str @ 0 # rest) = Some (length str)"
  by (induction str) auto

lemma strlcpy_loop_string:
  assumes "0 \<notin> set str" "n \<le> length s1" "pos1 = min pos2 (n - 1)"
  shows "strlcpy_loop s1 (str @ 0 # rest) n pos1 pos2
    = Some (take pos1 s1 @ take (n - 1 - pos1) str @ drop (pos1 + length (take (n - 1 - pos1) str)) s1,
        min (pos2 + length str) (n - 1), pos2 + length str)"
  using assms
proof (induction str arbitrary: s1 pos1 pos2)
  case (Cons c str)
  show ?case
  proof (cases "pos1 + 1 < n")
    case True
    then have pos: "pos1 = pos2" "pos1 < length s1" using Cons.prems by auto
    obtain k where k: "n - 1 - pos1 = Suc k" "k = n - 1 - (pos1 + 1)" using True by (cases "n - 1 - pos1") auto
    have "strlcpy_loop s1 ((c # str) @ 0 # rest) n pos1 pos2
      = strlcpy_loop (s1[pos1 := c]) (str @ 0 # rest) n (pos1 + 1) (pos2 + 1)"
      using True pos Cons.prems(1) by auto
    also have "\<dots> = Some (take (pos1 + 1) (s1[pos1 := c]) @ take k str
        @ drop (pos1 + 1 + length (take k str)) (s1[pos1 := c]),
        min (pos2 + 1 + length str) (n - 1), pos2 + 1 + length str)"
      unfolding k(2) using Cons.prems pos True by (intro Cons.IH) auto
    finally show ?thesis
      using pos(2) k(1) by (simp add: take_Suc_conv_app_nth take_update_swap list_update_append)
  next
    case False
    then show ?thesis using Cons.IH [of s1 pos1 "pos2 + 1"] Cons.prems by auto
  qed
qed auto

lemma my_strlcpy_string:
  assumes "0 \<notin> set str" "n \<le> length s1"
  shows "my_strlcpy s1 (str @ 0 # rest) n = Some
    (if n = 0 then s1 else take (n - 1) str @ 0 # drop (length (take (n - 1) str) + 1) s1, length str)"
proof (cases n)
  case 0
  then show ?thesis using strlcpy_loop_string [OF assms, of 0 0] by (simp add: my_strlcpy_def)
next
  case (Suc k)
  have "strlcpy_loop s1 (str @ 0 # rest) n 0 0
    = Some (take k str @ drop (min (length str) k) s1, min (length str) k, length str)"
    using strlcpy_loop_string [OF assms, of 0 0] Suc by simp
  moreover have "(take k str @ drop (min (length str) k) s1)[min (length str) k := 0]
    = take k str @ 0 # drop (min (length str) k + 1) s1"
    using assms(2) Suc by (simp add: list_update_append Cons_nth_drop_Suc [symmetric])
  ultimately show ?thesis
    using assms(2) Suc by (simp add: my_strlcpy_def)
qed

lemma strlcat_end_string:
  "0 \<notin> set a \<Longrightarrow> strlcat_end (a @ 0 # b) n = Some (min (length a) n)"
proof (induction a arbitrary: n)
  case Nil
  then show ?case by (cases n) auto
next
  case (Cons c a)
  then show ?case by (cases n) auto
qed

text \<open>
  \<open>my_strlcpy\<close> and \<open>my_strlcat\<close> stay within the \<open>n\<close> bytes of their destination: they store the
  longest prefix of the source that fits in front of a NUL, leave the bytes behind it alone, and
  return the length the whole string would have, so that a return value of \<open>n\<close> or more tells a
  truncation.
\<close>
theorem strlcat_truncates:
  assumes "0 \<notin> set dst" "0 \<notin> set src" "length dst < n" "n \<le> length dst + 1 + length tail"
  shows "my_strlcat (dst @ 0 # tail) (src @ 0 # rest) n
      = (let fits = take (n - 1 - length dst) src in
          Some (dst @ fits @ 0 # drop (length fits) tail, length dst + length src))
    \<and> my_strlcpy (dst @ 0 # tail) (src @ 0 # rest) n
      = (let fits = take (n - 1) src in
          Some (fits @ 0 # drop (length fits + 1) (dst @ 0 # tail), length src))"
proof
  show "my_strlcpy (dst @ 0 # tail) (src @ 0 # rest) n
      = (let fits = take (n - 1) src in
          Some (fits @ 0 # drop (length fits + 1) (dst @ 0 # tail), length src))"
    using my_strlcpy_string [OF assms(2), of n "dst @ 0 # tail" rest] assms(3,4) by (auto simp: Let_def)
  have "my_strlcpy (0 # tail) (src @ 0 # rest) (n - length dst)
    = Some (take (n - 1 - length dst) src @ 0 # drop (length (take (n - 1 - length dst) src)) tail,
        length src)"
    using my_strlcpy_string [OF assms(2), of "n - length dst" "0 # tail" rest] assms(3,4)
    by (simp add: diff_right_commute)
  then show "my_strlcat (dst @ 0 # tail) (src @ 0 # rest) n
      = (let fits = take (n - 1 - length dst) src in
          Some (dst @ fits @ 0 # drop (length fits) tail, length dst + length src))"
    using strlcat_end_string [OF assms(1), of tail n] assms(3)
    by (simp add: my_strlcat_def Let_def)
qed


section \<open>Decimal numbers\<close>

definition is_digit :: "byte \<Rightarrow> bool" where
  "is_digit c \<longleftrightarrow> 48 \<le> c \<and> c \<le> 57"

definition digit_val :: "byte \<Rightarrow> nat" where
  "digit_val c = unat c - 48"

definition dec_val :: "byte list \<Rightarrow> nat" where
  "dec_val s = foldl (\<lambda>v c. v * 10 + digit_val c) 0 s"

lemma is_digit_unat: "is_digit c \<longleftrightarrow> 48 \<le> unat c \<and> unat c \<le> 57"
  by (simp add: is_digit_def word_le_nat_alt)

lemma dec_val_simps [simp]: "dec_val [] = 0" "dec_val (s @ [c]) = dec_val s * 10 + digit_val c"
  by (simp_all add: dec_val_def)

text \<open>The digits \<open>my_uitos\<close> writes\<close>

fun dec_digits :: "u64 \<Rightarrow> nat \<Rightarrow> byte list" where
  "dec_digits i 0 = []"
| "dec_digits i (Suc n) = dec_digits (i div 10) n @ [48 + ucast (i mod 10)]"

lemma length_dec_digits [simp]: "length (dec_digits i n) = n"
  by (induction i n rule: dec_digits.induct) auto

lemma unat_mod_10: "unat (i mod 10 :: u64) = unat i mod 10"
  by (simp add: unat_mod)

lemma unat_digit: "unat (48 + ucast (i mod 10 :: u64) :: byte) = 48 + unat i mod 10"
proof -
  have "(ucast (i mod 10) :: byte) = of_nat (unat i mod 10)"
    by (metis of_nat_unat unat_mod_10)
  moreover have "unat i mod 10 < 256" using mod_less_divisor [of 10 "unat i"] by linarith
  ultimately have "unat (ucast (i mod 10) :: byte) = unat i mod 10"
    by (simp add: unat_of_nat)
  then show ?thesis by (simp add: unat_word_ariths)
qed

lemma is_digit_digit: "is_digit (48 + ucast (i mod 10 :: u64))"
  unfolding is_digit_unat unat_digit by simp

lemma dec_digits_digits: "\<forall>c\<in>set (dec_digits i n). is_digit c"
  by (induction i n rule: dec_digits.induct) (auto simp: is_digit_digit)

lemma dec_val_digits: "dec_val (dec_digits i n) = unat i mod 10 ^ n"
proof (induction i n rule: dec_digits.induct)
  case (2 i n)
  have "digit_val (48 + ucast (i mod 10)) = unat i mod 10" by (simp add: digit_val_def unat_digit)
  then show ?case
    using 2 mod_mult2_eq [of "unat i" 10 "10 ^ n"] by (simp add: unat_div mult.commute)
qed simp

lemma my_uitos_digits:
  "n \<le> length out \<Longrightarrow> my_uitos out i n = Some (dec_digits i n @ drop n out)"
proof (induction n arbitrary: out i)
  case (Suc n)
  then have "my_uitos out i (Suc n)
    = Some (dec_digits (i div 10) n @ drop n (out[n := 48 + ucast (i mod 10)]))"
    by simp
  also have "drop n (out[n := 48 + ucast (i mod 10)]) = (48 + ucast (i mod 10)) # drop (Suc n) out"
    using Suc.prems by (simp add: Cons_nth_drop_Suc [symmetric])
  finally show ?case by simp
qed simp

text \<open>\<open>my_uint_len\<close> is the number of decimal digits.\<close>

declare uint_len_loop.simps [simp del]

lemma uint_len_loop_bounds:
  "unat i < 10 ^ uint_len_loop i \<and> (i \<noteq> 0 \<longrightarrow> 10 ^ uint_len_loop i \<le> 10 * unat i)"
proof (induction i rule: uint_len_loop.induct)
  case (1 i)
  show ?case
  proof (cases "i = 0")
    case False
    have ih: "unat i div 10 < 10 ^ uint_len_loop (i div 10)"
      "i div 10 \<noteq> 0 \<Longrightarrow> 10 ^ uint_len_loop (i div 10) \<le> 10 * (unat i div 10)"
      using 1 False by (simp_all add: unat_div)
    have "0 < unat i" using False by (simp add: unat_gt_0)
    moreover have "10 ^ uint_len_loop (i div 10) \<le> unat i"
    proof (cases "i div 10 = 0")
      case True
      then show ?thesis using \<open>0 < unat i\<close> by (simp add: uint_len_loop.simps)
    next
      case False
      then show ?thesis using ih(2) by linarith
    qed
    ultimately show ?thesis
      using False ih(1) by (subst (1 2) uint_len_loop.simps) auto
  qed (simp add: uint_len_loop.simps)
qed

lemma my_uint_len_bounds:
  "unat i < 10 ^ my_uint_len i" "0 < my_uint_len i"
  "1 < my_uint_len i \<Longrightarrow> 10 ^ (my_uint_len i - 1) \<le> unat i"
  using uint_len_loop_bounds [of i]
  by (auto simp: my_uint_len_def uint_len_loop.simps [of i] split: if_splits)

lemma read_decimal_digits:
  "\<forall>c\<in>set ds. is_digit c \<Longrightarrow>
    read_decimal_loop (ds @ s) r = read_decimal_loop s (r * 10 ^ length ds + of_nat (dec_val ds))"
proof (induction ds arbitrary: s rule: rev_induct)
  case (snoc d ds)
  have d: "48 \<le> d \<and> d \<le> 57" using snoc.prems by (simp add: is_digit_def)
  then have "48 \<le> unat d" by (simp add: word_le_nat_alt)
  then have "ucast d - (48 :: u64) = of_nat (digit_val d)"
    by (simp add: digit_val_def of_nat_diff of_nat_unat)
  then show ?case
    using snoc d by (simp add: algebra_simps)
qed simp

lemma my_read_decimal_string:
  assumes "\<forall>c\<in>set ds. is_digit c" "\<not> is_digit c"
  shows "my_read_decimal_ptr (ds @ c # s) = Some (of_nat (dec_val ds), c # s)"
  using assms(2) by (auto simp: my_read_decimal_ptr_def read_decimal_digits [OF assms(1)] is_digit_def)

lemma dec_val_Cons: "dec_val (d # ds) = digit_val d * 10 ^ length ds + dec_val ds"
  by (induction ds rule: rev_induct) (simp_all add: dec_val_def algebra_simps)

text \<open>
  \<open>my_strtoui\<close> adds the digits in an \<open>int\<close>; as long as the number fits, no sum wraps.
\<close>

lemma sint_small: "unat r < 2 ^ 31 \<Longrightarrow> sint (r :: u32) = int (unat r)"
proof -
  assume r: "unat r < 2 ^ 31"
  have "int (unat r) < 2 ^ 31" using r by (metis of_nat_less_iff of_nat_numeral of_nat_power)
  then have "signed_take_bit 31 (int (unat r)) = int (unat r)"
    by (intro signed_take_bit_int_eq_self) (simp_all add: order_trans [OF _ uint_nonnegative])
  then show ?thesis by (simp add: sint_uint)
qed

lemma strtoui_loop_digits:
  assumes "\<forall>c\<in>set ds. is_digit c" "unat r * 10 ^ length ds + dec_val ds < 2 ^ 31"
  shows "strtoui_loop r (ds @ 0 # s) = Some (Some (of_nat (unat r * 10 ^ length ds + dec_val ds)))"
  using assms
proof (induction ds arbitrary: r)
  case (Cons d ds)
  define q where "q = r * 10 + (ucast d - 48)"
  have d: "48 \<le> d" "d \<le> 57" "48 \<le> unat d" 
    using Cons.prems(1) is_digit_unat [of d] by (simp_all add: is_digit_def)
  have "unat r * 10 + digit_val d \<le> (unat r * 10 + digit_val d) * 10 ^ length ds" by simp
  moreover have "(unat r * 10 + digit_val d) * 10 ^ length ds + dec_val ds < 2 ^ 31"
    using Cons.prems(2) by (simp add: dec_val_Cons algebra_simps)
  ultimately have small: "unat r * 10 + digit_val d < 2 ^ 31" by linarith
  have "ucast d - (48 :: u32) = of_nat (digit_val d)"
    using d(3) by (simp add: digit_val_def of_nat_diff of_nat_unat)
  then have q: "q = of_nat (unat r * 10 + digit_val d)" by (simp add: q_def)
  have uq: "unat q = unat r * 10 + digit_val d"
    unfolding q using small by (simp only: unat_of_nat) simp
  have "sint q = int (unat q)" "sint r = int (unat r)"
    using small uq by (simp_all add: sint_small)
  then have "\<not> sint q < sint r" using uq by linarith
  then have "strtoui_loop r ((d # ds) @ 0 # s) = strtoui_loop q (ds @ 0 # s)"
    using d by (auto simp: Let_def q_def)
  also have "\<dots> = Some (Some (of_nat (unat q * 10 ^ length ds + dec_val ds)))"
    using Cons.prems uq by (intro Cons.IH) (simp_all add: dec_val_Cons algebra_simps)
  finally show ?case by (simp add: uq dec_val_Cons algebra_simps)
qed simp

lemma strtoui_loop_no_digit:
  assumes "0 \<notin> set s" "\<not> (\<forall>c\<in>set s. is_digit c)"
  shows "strtoui_loop r (s @ 0 # t) = Some None"
  using assms
proof (induction s arbitrary: r)
  case (Cons c s)
  then show ?case
    by (cases "is_digit c") (auto simp: Let_def is_digit_def not_le not_less)
qed simp

text \<open>
  \<open>my_strtoui\<close>: the empty string and every string with a character that is not a digit are
  refused; a string of digits is accepted with its value whenever the value fits an \<open>int\<close>.  The test
  for overflow, which compares with the value before the digit was added, misses products that wrap
  to a larger value: \<open>10000000000\<close> is accepted as 1410065408.
\<close>
lemma strtoui_accepts:
  assumes "0 \<notin> set s"
  shows "(s = [] \<or> \<not> (\<forall>c\<in>set s. is_digit c) \<longrightarrow> my_strtoui (s @ 0 # t) = Some None)
    \<and> (s \<noteq> [] \<and> (\<forall>c\<in>set s. is_digit c) \<and> dec_val s < 2 ^ 31
        \<longrightarrow> my_strtoui (s @ 0 # t) = Some (Some (of_nat (dec_val s))))
    \<and> my_strtoui ([49, 48, 48, 48, 48, 48, 48, 48, 48, 48, 48] @ 0 # t) = Some (Some 1410065408)"
proof (intro conjI impI)
  show "my_strtoui (s @ 0 # t) = Some None" if "s = [] \<or> \<not> (\<forall>c\<in>set s. is_digit c)"
    using that strtoui_loop_no_digit [OF assms, of 0 t] assms by (cases s) (auto simp: my_strtoui_def)
  show "my_strtoui (s @ 0 # t) = Some (Some (of_nat (dec_val s)))"
    if s: "s \<noteq> [] \<and> (\<forall>c\<in>set s. is_digit c) \<and> dec_val s < 2 ^ 31"
  proof -
    have "strtoui_loop 0 (s @ 0 # t) = Some (Some (of_nat (dec_val s)))"
      using strtoui_loop_digits [of s 0 t] s by simp
    then show ?thesis using s assms by (cases s) (auto simp: my_strtoui_def)
  qed
qed (simp add: my_strtoui_def Let_def)

text \<open>
  C37. Printing and reading back: \<open>my_uitos\<close> with the length that \<open>my_uint_len\<close> computes writes the
  shortest decimal representation of any 64-bit number and nothing behind it, and
  \<open>my_read_decimal_ptr\<close> reads the number back and stops behind its last digit; numbers that fit an
  \<open>int\<close> are read back by \<open>my_strtoui\<close> too.
\<close>
theorem uitos_roundtrip:
  assumes "my_uint_len i \<le> length out" "\<not> is_digit c"
  shows "\<exists>ds. my_uitos out i (my_uint_len i) = Some (ds @ drop (my_uint_len i) out)
    \<and> length ds = my_uint_len i
    \<and> (length ds = 1 \<or> 10 ^ (length ds - 1) \<le> unat i)
    \<and> my_read_decimal_ptr (ds @ c # s) = Some (i, c # s)
    \<and> (unat i < 2 ^ 31 \<longrightarrow> my_strtoui (ds @ 0 # s) = Some (Some (ucast i)))"
proof (intro exI conjI impI)
  let ?ds = "dec_digits i (my_uint_len i)"
  have val: "dec_val ?ds = unat i" using my_uint_len_bounds(1) [of i] by (simp add: dec_val_digits)
  show "my_uitos out i (my_uint_len i) = Some (?ds @ drop (my_uint_len i) out)"
    by (rule my_uitos_digits [OF assms(1)])
  show "length ?ds = my_uint_len i" by simp
  show "length ?ds = 1 \<or> 10 ^ (length ?ds - 1) \<le> unat i"
    using my_uint_len_bounds(2,3) [of i] by (cases "my_uint_len i = 1") auto
  show "my_read_decimal_ptr (?ds @ c # s) = Some (i, c # s)"
    using my_read_decimal_string [OF dec_digits_digits assms(2), of i "my_uint_len i" s] val by simp
  assume "unat i < 2 ^ 31"
  then have "strtoui_loop 0 (?ds @ 0 # s) = Some (Some (ucast i))"
    using strtoui_loop_digits [OF dec_digits_digits, of 0 i "my_uint_len i" s] val by (simp add: of_nat_unat)
  moreover have "hd ?ds \<noteq> 0" "?ds \<noteq> []"
    using dec_digits_digits [of i "my_uint_len i"] my_uint_len_bounds(2) [of i]
    by (cases ?ds; auto simp: is_digit_def dest: arg_cong [of _ _ length])+
  ultimately show "my_strtoui (?ds @ 0 # s) = Some (Some (ucast i))"
    by (cases ?ds) (auto simp: my_strtoui_def)
qed

lemma uitos_roundtrip_witness:
  "\<exists>ds. my_uitos [1, 2, 3, 4] 507 (my_uint_len 507) = Some (ds @ drop (my_uint_len 507) [1, 2, 3, 4])
    \<and> length ds = my_uint_len 507
    \<and> (length ds = 1 \<or> 10 ^ (length ds - 1) \<le> unat (507 :: u64))
    \<and> my_read_decimal_ptr (ds @ 44 # []) = Some (507, 44 # [])
    \<and> (unat (507 :: u64) < 2 ^ 31 \<longrightarrow> my_strtoui (ds @ 0 # []) = Some (Some (ucast (507 :: u64))))"
  by (rule uitos_roundtrip) (simp_all add: my_uint_len_def uint_len_loop.simps is_digit_def)

text \<open>\<open>my_isspace\<close> takes the NUL for a space, which the C locale does not.\<close>

lemma my_isspace_chars: "my_isspace ch \<longleftrightarrow> 9 \<le> ch \<and> ch \<le> 13 \<or> ch = 32 \<or> ch = 0"
  by (auto simp: my_isspace_def)

section \<open>Comparison and search\<close>

text \<open>The comparison functions compute the lexicographic order of the characters' values.\<close>

fun lex_sign :: "int list \<Rightarrow> int list \<Rightarrow> int" where
  "lex_sign (a # as) (b # bs) = (if a < b then - 1 else if a > b then 1 else lex_sign as bs)"
| "lex_sign _ _ = 0"

lemma char_val_inject: "char_val sc a = char_val sc b \<longleftrightarrow> a = b"
  by (simp add: char_val_def word_eq_iff_signed [symmetric] unsigned_word_eqI word_uint_eq_iff)

lemma my_strcmp_lex:
  assumes "0 \<notin> set a" "0 \<notin> set b"
  shows "my_strcmp sc (a @ 0 # s) (b @ 0 # t)
    = Some (lex_sign (map (char_val sc) (a @ [0])) (map (char_val sc) (b @ [0])))"
  using assms
proof (induction a arbitrary: b)
  case Nil
  then show ?case by (cases b) (auto simp: char_val_inject not_less_iff_gr_or_eq)
next
  case (Cons c a)
  then show ?case by (cases b) (auto simp: char_val_inject not_less_iff_gr_or_eq)
qed

lemma lex_sign_0: "lex_sign (map (char_val sc) (a @ [0])) (map (char_val sc) (b @ [0])) = 0 \<longleftrightarrow> a = b"
  if "0 \<notin> set a" "0 \<notin> set b"
  using that
proof (induction a arbitrary: b)
  case Nil
  then show ?case by (cases b) (auto simp: char_val_inject not_less_iff_gr_or_eq)
next
  case (Cons c a)
  then show ?case by (cases b) (auto simp: char_val_inject not_less_iff_gr_or_eq)
qed

lemma my_strncmp_lex:
  "0 \<notin> set a \<Longrightarrow> 0 \<notin> set b \<Longrightarrow> my_strncmp sc (a @ 0 # s) (b @ 0 # t) n
    = Some (lex_sign (take n (map (char_val sc) (a @ [0]))) (take n (map (char_val sc) (b @ [0]))))"
proof (induction a arbitrary: b n)
  case Nil
  then show ?case by (cases n; cases b) (auto simp: char_val_inject not_less_iff_gr_or_eq)
next
  case (Cons c a)
  then show ?case by (cases n; cases b) (auto simp: char_val_inject not_less_iff_gr_or_eq)
qed

lemma my_memchr_found:
  "n \<le> length s \<Longrightarrow> my_memchr s needle n
    = Some (if needle \<in> uint ` set (take n s) then Some (length (takeWhile (\<lambda>c. uint c \<noteq> needle) s)) else None)"
  by (induction s needle n rule: my_memchr.induct) auto

end
