(* ===== verification/Cpu_Set.thy ===== *)
theory Cpu_Set
  imports Libc_Support
begin

text \<open>
  \<open>src/app/breakpad/src/client/linux/minidump_writer/cpu_set.h\<close>: the set of processors that a sysfs
  file lists, as a bit mask.  The file is read once, by \<open>sys_read\<close>, into a buffer of 512 bytes; the
  bytes it delivered are a parameter of \<open>ParseSysFile\<close>.

  The loop that sets the bits of a range of processors counts with an unsigned integer up to and
  including the end of the range, so it does not end if the end is the greatest integer; it is a
  \<open>partial_function\<close>, and so is the loop over the items of the file that contains it.  The white
  space characters are below 128, so it does not matter whether \<open>char\<close> is signed.
\<close>

definition kMaxCpus :: nat where "kMaxCpus = 1024"
definition kMaskWordBits :: nat where "kMaskWordBits = 32"
definition kMaskWordCount :: nat where
  "kMaskWordCount = (kMaxCpus + kMaskWordBits - 1) div kMaskWordBits"

type_synonym cpu_mask = "u32 list"

definition new_CpuSet :: cpu_mask where
  "new_CpuSet = replicate kMaskWordCount 0"

definition CpuSet_SetBit :: "u64 \<Rightarrow> cpu_mask \<Rightarrow> cpu_mask" where
  "CpuSet_SetBit index msk =
     (let nn = unat index in
      if nn < kMaxCpus
      then msk[nn div kMaskWordBits := msk ! (nn div kMaskWordBits) OR push_bit (nn mod kMaskWordBits) 1]
      else msk)"

definition CpuSet_IntersectWith :: "cpu_mask \<Rightarrow> cpu_mask \<Rightarrow> cpu_mask" where
  "CpuSet_IntersectWith msk other = map (\<lambda>nn. msk ! nn AND other ! nn) [0..<kMaskWordCount]"

text \<open>\<open>__builtin_popcount\<close>\<close>

definition popcount :: "u32 \<Rightarrow> nat" where
  "popcount w = length (filter (bit w) [0..<32])"

definition CpuSet_GetCount :: "cpu_mask \<Rightarrow> nat" where
  "CpuSet_GetCount msk = fold (\<lambda>nn result. result + popcount (msk ! nn)) [0..<kMaskWordCount] 0"

partial_function (option) set_range :: "u64 \<Rightarrow> u64 \<Rightarrow> cpu_mask \<Rightarrow> cpu_mask option" where
  "set_range start stop msk =
     (if start \<le> stop then set_range (start + 1) stop (CpuSet_SetBit start msk) else Some msk)"

text \<open>
  Positions in the buffer are indices; \<open>buf\<close> holds the bytes read, the NUL written behind them, and
  what else is in the array.
\<close>

function skip_spaces :: "byte list \<Rightarrow> nat \<Rightarrow> nat \<Rightarrow> nat" where
  "skip_spaces buf p p_end =
     (if p < p_end \<and> my_isspace (sint (buf ! p)) then skip_spaces buf (p + 1) p_end else p)"
  by auto
termination by (relation "measure (\<lambda>(buf, p, p_end). p_end - p)") auto

fun trim_spaces :: "byte list \<Rightarrow> nat \<Rightarrow> nat \<Rightarrow> nat" where
  "trim_spaces buf item 0 = 0"
| "trim_spaces buf item (Suc n) =
     (if Suc n > item \<and> my_isspace (sint (buf ! n)) then trim_spaces buf item n else Suc n)"

text \<open>An item: a number, or a number, a dash and a number\<close>

definition parse_item :: "byte list \<Rightarrow> nat \<Rightarrow> cpu_mask \<Rightarrow> cpu_mask option" where
  "parse_item buf item msk =
     (case my_read_decimal_ptr (drop item buf) of
        None \<Rightarrow> None
      | Some (start, rest) \<Rightarrow>
          if hd rest = 45 then
            case my_read_decimal_ptr (tl rest) of
              None \<Rightarrow> None
            | Some (stop, _) \<Rightarrow> set_range start stop msk
          else set_range start start msk)"

partial_function (option) parse_items :: "byte list \<Rightarrow> nat \<Rightarrow> nat \<Rightarrow> cpu_mask \<Rightarrow> cpu_mask option" where
  "parse_items buf p p_end msk =
     (if p < p_end then
        let item = skip_spaces buf p p_end in
        case my_memchr (drop item buf) 44 (p_end - item) of
          None \<Rightarrow> None
        | Some found \<Rightarrow>
            let (p', item_next) =
                  (case found of Some i \<Rightarrow> (item + i + 1, item + i) | None \<Rightarrow> (p_end, p_end));
                item_next = trim_spaces buf item item_next in
            if item_next = item then parse_items buf p' p_end msk
            else
              case parse_item buf item msk of
                None \<Rightarrow> None
              | Some msk' \<Rightarrow> parse_items buf p' p_end msk'
      else Some msk)"

text \<open>\<open>data\<close> is what \<open>sys_read\<close> delivered, \<open>None\<close> if it failed; \<open>junk\<close> the rest of the buffer.\<close>

definition ParseSysFile :: "byte list option \<Rightarrow> byte list \<Rightarrow> cpu_mask \<Rightarrow> (bool \<times> cpu_mask) option" where
  "ParseSysFile data junk msk =
     (case data of
        None \<Rightarrow> Some (False, msk)
      | Some bs \<Rightarrow> map_option (\<lambda>m. (True, m)) (parse_items (bs @ 0 # junk) 0 (length bs) msk))"

section \<open>The mask as a set\<close>

definition mask_ok :: "cpu_mask \<Rightarrow> bool" where
  "mask_ok msk \<longleftrightarrow> length msk = kMaskWordCount"

definition cpus :: "cpu_mask \<Rightarrow> nat set" where
  "cpus msk = {i. i < kMaxCpus \<and> bit (msk ! (i div 32)) (i mod 32)}"

lemma cpu_consts [simp]: "kMaxCpus = 1024" "kMaskWordBits = 32" "kMaskWordCount = 32"
  by (simp_all add: kMaxCpus_def kMaskWordBits_def kMaskWordCount_def)

lemma new_CpuSet_empty [simp]: "mask_ok new_CpuSet" "cpus new_CpuSet = {}"
  by (auto simp: mask_ok_def new_CpuSet_def cpus_def)

lemma SetBit_ok [simp]: "mask_ok msk \<Longrightarrow> mask_ok (CpuSet_SetBit i msk)"
  by (simp add: mask_ok_def CpuSet_SetBit_def Let_def)

lemma SetBit_cpus: "mask_ok msk \<Longrightarrow> cpus (CpuSet_SetBit i msk) = cpus msk \<union> ({unat i} \<inter> {..<1024})"
proof (cases "unat i < 1024")
  case True
  assume ok: "mask_ok msk"
  define n where "n = unat i"
  have one: "bit (push_bit k 1 :: u32) j \<longleftrightarrow> j = k" if "j < 32" for j k :: nat
    using that by (auto simp: bit_push_bit_iff bit_1_iff simp del: push_bit_of_1)
  have "bit (CpuSet_SetBit i msk ! (j div 32)) (j mod 32)
    \<longleftrightarrow> bit (msk ! (j div 32)) (j mod 32) \<or> j = n" if "j < 1024" for j
  proof (cases "j div 32 = n div 32")
    case eq: True
    then have "j mod 32 = n mod 32 \<longleftrightarrow> j = n" by (metis div_mult_mod_eq)
    with eq True ok one [of "j mod 32" "n mod 32"] that show ?thesis
      by (simp add: CpuSet_SetBit_def mask_ok_def n_def [symmetric] bit_or_iff del: push_bit_of_1)
  next
    case False
    then have "j \<noteq> n" by auto
    with False True ok show ?thesis
      by (simp add: CpuSet_SetBit_def mask_ok_def n_def [symmetric])
  qed
  then show ?thesis using True by (auto simp: cpus_def n_def)
next
  case False
  then show ?thesis by (simp add: CpuSet_SetBit_def)
qed

lemma IntersectWith_cpus:
  "mask_ok (CpuSet_IntersectWith msk other)"
  "cpus (CpuSet_IntersectWith msk other) = cpus msk \<inter> cpus other"
  by (auto simp: mask_ok_def cpus_def CpuSet_IntersectWith_def bit_and_iff)

lemma cpus_upto:
  assumes "n \<le> 32"
  shows "card {i. i < n * 32 \<and> bit (msk ! (i div 32)) (i mod 32)}
    = fold (\<lambda>nn result. result + popcount (msk ! nn)) [0..<n] 0"
  using assms
proof (induction n)
  case (Suc n)
  let ?lo = "{i. i < n * 32 \<and> bit (msk ! (i div 32)) (i mod 32)}"
  let ?hi = "(\<lambda>i. n * 32 + i) ` set (filter (bit (msk ! n)) [0..<32])"
  have "{i. i < Suc n * 32 \<and> bit (msk ! (i div 32)) (i mod 32)} = ?lo \<union> ?hi"
  proof (intro set_eqI iffI)
    fix i assume i: "i \<in> {i. i < Suc n * 32 \<and> bit (msk ! (i div 32)) (i mod 32)}"
    show "i \<in> ?lo \<union> ?hi"
    proof (cases "i < n * 32")
      case False
      then have "i div 32 = n" using i by auto
      moreover from this have "i = n * 32 + i mod 32" using div_mult_mod_eq [of i 32] by simp
      moreover have "i mod 32 < 32" by simp
      ultimately show ?thesis using i by (intro UnI2 image_eqI [of _ _ "i mod 32"]) auto
    qed (use i in simp)
  qed auto
  moreover have "card ?hi = popcount (msk ! n)"
    by (simp add: card_image inj_on_def popcount_def distinct_card del: set_filter)
  moreover have "?lo \<inter> ?hi = {}" by auto
  moreover have "finite ?lo" "finite ?hi" by auto
  ultimately show ?case using Suc by (simp add: card_Un_disjoint)
qed simp

lemma GetCount_card: "CpuSet_GetCount msk = card (cpus msk)"
  using cpus_upto [of 32 msk] by (simp add: CpuSet_GetCount_def cpus_def)

section \<open>Ranges of processors\<close>

lemma set_range_returns:
  assumes "stop \<noteq> - 1" "mask_ok msk"
  shows "\<exists>msk'. set_range start stop msk = Some msk' \<and> mask_ok msk'
    \<and> cpus msk' = cpus msk \<union> ({unat start..unat stop} \<inter> {..<1024})"
  using assms(2)
proof (induction "unat stop + 1 - unat start" arbitrary: start msk rule: less_induct)
  case less
  show ?case
  proof (cases "start \<le> stop")
    case True
    have "unat stop \<noteq> unat (- 1 :: u64)" using assms(1) by (metis word_unat_eq_iff)
    then have "unat stop < 2 ^ 64 - 1"
      using unsigned_less [of stop, where ?'a = nat] by (simp add: unsigned_minus_1_eq_mask mask_eq_exp_minus_1)
    then have s: "unat (start + 1) = unat start + 1"
      using True by (simp add: word_le_nat_alt unat_word_ariths)
    have "unat stop + 1 - unat (start + 1) < unat stop + 1 - unat start"
      using True s by (simp add: word_le_nat_alt)
    from less.hyps [OF this, of "CpuSet_SetBit start msk"] obtain msk' where m:
      "set_range (start + 1) stop (CpuSet_SetBit start msk) = Some msk'" "mask_ok msk'"
      "cpus msk' = cpus (CpuSet_SetBit start msk) \<union> ({unat start + 1..unat stop} \<inter> {..<1024})"
      unfolding s using less.prems by auto
    have "{unat start..unat stop} = insert (unat start) {unat start + 1..unat stop}"
      using True by (auto simp: word_le_nat_alt)
    with m True show ?thesis
      by (subst set_range.simps) (auto simp: SetBit_cpus [OF less.prems])
  next
    case False
    then show ?thesis using less.prems
      by (subst set_range.simps) (auto simp: word_le_nat_alt)
  qed
qed

lemma set_range_diverges: "set_range start (- 1) msk = None"
proof -
  have "stop \<noteq> - 1" if "set_range start stop msk = Some m" for stop m
    using that
  proof (induction rule: set_range.raw_induct [rotated 1, consumes 1])
    case (1 f s e msk m)
    then show ?case by (auto split: if_splits)
  qed
  then show ?thesis by (cases "set_range start (- 1) msk") auto
qed

section \<open>The format of the file\<close>

text \<open>An item of the file: white space, the first and the last processor, white space\<close>

type_synonym cpu_item = "byte list \<times> u64 \<times> u64 \<times> byte list"

definition number :: "u64 \<Rightarrow> byte list" where
  "number i = dec_digits i (my_uint_len i)"

definition item_text :: "u64 \<Rightarrow> u64 \<Rightarrow> byte list" where
  "item_text lo hi = (if lo = hi then number lo else number lo @ 45 # number hi)"

fun sys_file :: "cpu_item list \<Rightarrow> byte list" where
  "sys_file [] = []"
| "sys_file [(pre, lo, hi, post)] = pre @ item_text lo hi @ post"
| "sys_file ((pre, lo, hi, post) # x # xs) = pre @ item_text lo hi @ post @ 44 # sys_file (x # xs)"

definition blank :: "byte list \<Rightarrow> bool" where
  "blank s \<longleftrightarrow> (\<forall>c\<in>set s. my_isspace (sint c))"

fun item_ok :: "cpu_item \<Rightarrow> bool" where
  "item_ok (pre, lo, hi, post) \<longleftrightarrow> blank pre \<and> blank post \<and> hi \<noteq> - 1"

definition item_cpus :: "cpu_item \<Rightarrow> nat set" where
  "item_cpus = (\<lambda>(pre, lo, hi, post). {unat lo..unat hi} \<inter> {..<1024})"

lemma number_props:
  "number i \<noteq> []" "\<forall>c\<in>set (number i). is_digit c" "dec_val (number i) = unat i"
  using my_uint_len_bounds [of i] dec_digits_digits [of i "my_uint_len i"]
  by (auto simp: number_def dec_val_digits dest: arg_cong [of _ _ length])

lemma read_number:
  "\<not> is_digit c \<Longrightarrow> my_read_decimal_ptr (number i @ c # s) = Some (i, c # s)"
  using my_read_decimal_string [OF number_props(2), of c i s] by (simp add: number_props)

lemma sint_byte: "unat c < 128 \<Longrightarrow> sint (c :: byte) = int (unat c)"
proof -
  assume c: "unat c < 128"
  then have "int (unat c) < 128" by linarith
  then have "signed_take_bit 7 (int (unat c)) = int (unat c)"
    by (intro signed_take_bit_int_eq_self) (simp_all add: order_trans [OF _ uint_nonnegative])
  then show ?thesis by (simp add: sint_uint)
qed

lemma digit_not_space: "is_digit c \<Longrightarrow> \<not> my_isspace (sint c) \<and> c \<noteq> 44"
proof -
  assume c: "is_digit c"
  then have u: "48 \<le> unat c" "unat c \<le> 57" by (simp_all add: is_digit_unat)
  then have "sint c = int (unat c)" by (intro sint_byte) simp
  then have "48 \<le> sint c" "sint c \<le> 57" using u by linarith+
  with c show ?thesis by (auto simp: my_isspace_chars is_digit_unat)
qed

lemma space_char: "my_isspace (sint c) \<Longrightarrow> \<not> is_digit c \<and> c \<noteq> 44 \<and> c \<noteq> 45"
  using digit_not_space [of c] by (auto simp: my_isspace_chars)

lemma item_text_props:
  "item_text lo hi \<noteq> []" "\<not> my_isspace (sint (hd (item_text lo hi)))"
  "\<not> my_isspace (sint (last (item_text lo hi)))" "44 \<notin> set (item_text lo hi)"
proof -
  have hd: "is_digit (hd (number i))" and lst: "is_digit (last (number i))" for i
    using number_props [of i] by auto
  have "44 \<notin> set (number i)" for i using number_props(2) [of i] digit_not_space by auto
  then show "44 \<notin> set (item_text lo hi)" by (auto simp: item_text_def)
  show "item_text lo hi \<noteq> []" by (simp add: item_text_def number_props)
  show "\<not> my_isspace (sint (hd (item_text lo hi)))"
    using digit_not_space [OF hd [of lo]] by (auto simp: item_text_def number_props)
  show "\<not> my_isspace (sint (last (item_text lo hi)))"
    using digit_not_space [OF lst [of lo]] digit_not_space [OF lst [of hi]]
    by (simp add: item_text_def number_props)
qed

lemma skip_spaces_blank:
  assumes "blank pre" "\<not> my_isspace (sint d)" "length before + length pre < p_end"
  shows "skip_spaces (before @ pre @ d # rest) (length before) p_end = length before + length pre"
  using assms
proof (induction pre arbitrary: before)
  case Nil
  then show ?case by (subst skip_spaces.simps) simp
next
  case (Cons c pre)
  have "skip_spaces (before @ (c # pre) @ d # rest) (length before) p_end
    = skip_spaces ((before @ [c]) @ pre @ d # rest) (length (before @ [c])) p_end"
    using Cons.prems by (subst skip_spaces.simps) (simp add: blank_def)
  also have "\<dots> = length (before @ [c]) + length pre"
    using Cons.prems by (intro Cons.IH) (simp_all add: blank_def)
  finally show ?case by simp
qed

lemma trim_spaces_blank:
  assumes "blank post" "body \<noteq> []" "\<not> my_isspace (sint (last body))"
  shows "trim_spaces (before @ body @ post @ rest) (length before)
      (length before + length body + length post) = length before + length body"
  using assms
proof (induction post arbitrary: rest rule: rev_induct)
  case Nil
  obtain as d where "body = as @ [d]" using Nil.prems(2) by (metis rev_exhaust)
  then show ?case using Nil.prems(3) by (simp add: nth_append)
next
  case (snoc c post)
  have "trim_spaces (before @ body @ (post @ [c]) @ rest) (length before)
      (length before + length body + length (post @ [c]))
    = trim_spaces (before @ body @ post @ (c # rest)) (length before)
      (length before + length body + length post)"
    using snoc.prems by (simp add: blank_def nth_append)
  also have "\<dots> = length before + length body"
    using snoc.prems by (intro snoc.IH) (simp_all add: blank_def)
  finally show ?case .
qed

lemma parse_item_text:
  assumes "blank post" "c = 0 \<or> c = 44"
  shows "parse_item (before @ item_text lo hi @ post @ c # rest) (length before) msk = set_range lo hi msk"
proof -
  obtain d t where d: "post @ c # rest = d # t" "\<not> is_digit d" "d \<noteq> 45"
  proof (cases post)
    case Nil
    with assms(2) that [of c rest] show ?thesis by (auto simp: is_digit_def)
  next
    case (Cons d t)
    with assms(1) space_char [of d] that [of d "t @ c # rest"] show ?thesis by (simp add: blank_def)
  qed
  show ?thesis
    using read_number [OF d(2), of lo t]
      read_number [OF d(2), of hi t] read_number [of 45 lo "number hi @ d # t"] d
    by (auto simp: parse_item_def item_text_def is_digit_def)
qed

lemma parse_items_step:
  assumes blank: "blank pre" "blank post"
    and buf: "buf = before @ pre @ item_text lo hi @ post @ c # rest"
    and n: "n = length before + length pre + length (item_text lo hi) + length post"
    and c: "c = 0 \<and> p_end = n \<and> p' = n \<or> c = 44 \<and> n < p_end \<and> p' = n + 1" "p_end \<le> length buf"
  shows "parse_items buf (length before) p_end msk =
    (case set_range lo hi msk of None \<Rightarrow> None | Some m \<Rightarrow> parse_items buf p' p_end m)"
proof -
  let ?text = "item_text lo hi"
  define item where "item = length before + length pre"
  obtain d t where d: "?text = d # t" "\<not> my_isspace (sint d)"
    using item_text_props(1,2) [of lo hi] by (cases ?text) auto
  have "0 < length ?text" using item_text_props(1) by simp
  then have p: "length before < p_end" "item < p_end" using c(1) n by (auto simp: item_def)
  have skip: "skip_spaces buf (length before) p_end = item"
    unfolding item_def buf d(1) append_Cons
    using p by (intro skip_spaces_blank [OF blank(1) d(2)]) (simp add: item_def)
  have buf': "buf = (before @ pre) @ ?text @ post @ c # rest" by (simp add: buf)
  have drop: "drop item buf = ?text @ post @ c # rest"
    unfolding item_def buf' by (simp del: append_assoc)
  have no: "uint x \<noteq> 44" if "x \<in> set (?text @ post)" for x
  proof -
    have "x \<noteq> 44"
      using that item_text_props(4) [of lo hi] blank(2) space_char [of x] by (auto simp: blank_def)
    moreover have "x = 44" if "uint x = 44"
      by (rule unsigned_word_eqI [where ?'a = int]) (simp add: that)
    ultimately show ?thesis by blast
  qed
  define found where "found = (if c = 44 then Some (length ?text + length post) else None)"
  have memchr: "my_memchr (drop item buf) 44 (p_end - item) = Some found"
  proof -
    have le: "p_end - item \<le> length (drop item buf)" using c(2) by simp
    show ?thesis
    proof (cases "c = 44")
      case False
      then have "p_end - item = length (?text @ post)" using c(1) n by (auto simp: item_def)
      then have "take (p_end - item) (drop item buf) = ?text @ post" by (simp add: drop)
      then show ?thesis
        using no False by (auto simp: my_memchr_found [OF le] found_def)
    next
      case True
      then obtain k where k: "p_end - item = length (?text @ post) + Suc k"
        using c(1) n by (auto simp: item_def dest: less_imp_Suc_add)
      then have "44 \<in> uint ` set (take (p_end - item) (drop item buf))"
        using True by (simp add: drop)
      moreover have "length (takeWhile (\<lambda>x. uint x \<noteq> 44) (drop item buf)) = length ?text + length post"
        using no True by (simp add: drop takeWhile_append)
      ultimately show ?thesis using True by (simp add: my_memchr_found [OF le] found_def)
    qed
  qed
  have trim: "trim_spaces buf item n = item + length ?text"
    using trim_spaces_blank [where before = "before @ pre" and rest = "c # rest",
        OF blank(2) item_text_props(1,3)]
    unfolding buf' by (simp add: item_def n)
  have item: "parse_item buf item msk = set_range lo hi msk"
    using parse_item_text [OF blank(2), of c "before @ pre" lo hi rest msk] c(1)
    unfolding buf' item_def by auto
  have n': "n = item + (length ?text + length post)" by (simp add: n item_def)
  show ?thesis
    using p skip memchr trim item c(1) \<open>0 < length ?text\<close> n'
    by (subst parse_items.simps) (auto simp: found_def Let_def simp del: skip_spaces.simps split: option.split)
qed

lemma parse_items_file:
  assumes "\<forall>x\<in>set items. item_ok x" "mask_ok msk" "p_end = length before + length (sys_file items)"
  shows "\<exists>m. parse_items (before @ sys_file items @ 0 # junk) (length before) p_end msk = Some m
    \<and> mask_ok m \<and> cpus m = cpus msk \<union> (\<Union>x\<in>set items. item_cpus x)"
  using assms
proof (induction items arbitrary: before msk rule: sys_file.induct)
  case 1
  then show ?case by (subst parse_items.simps) simp
next
  case (2 pre lo hi post)
  obtain m where m: "set_range lo hi msk = Some m" "mask_ok m"
    "cpus m = cpus msk \<union> item_cpus (pre, lo, hi, post)"
    using set_range_returns [of hi msk lo] 2 by (auto simp: item_cpus_def)
  have "parse_items (before @ sys_file [(pre, lo, hi, post)] @ 0 # junk) (length before) p_end msk
      = (case set_range lo hi msk of None \<Rightarrow> None
         | Some m \<Rightarrow> parse_items (before @ sys_file [(pre, lo, hi, post)] @ 0 # junk) p_end p_end m)"
    using 2 by (intro parse_items_step [where c = 0]) auto
  also have "\<dots> = Some m" using m(1) by (simp add: parse_items.simps)
  finally show ?case using m by auto
next
  case (3 pre lo hi post x xs)
  obtain m where m: "set_range lo hi msk = Some m" "mask_ok m"
    "cpus m = cpus msk \<union> item_cpus (pre, lo, hi, post)"
    using set_range_returns [of hi msk lo] 3(2,3) by (auto simp: item_cpus_def)
  let ?buf = "before @ sys_file ((pre, lo, hi, post) # x # xs) @ 0 # junk"
  let ?before = "before @ pre @ item_text lo hi @ post @ [44]"
  have "parse_items ?buf (length before) p_end msk
    = (case set_range lo hi msk of None \<Rightarrow> None | Some m \<Rightarrow> parse_items ?buf (length ?before) p_end m)"
    using 3(2-) by (intro parse_items_step [where c = 44]) auto
  moreover have "?buf = ?before @ sys_file (x # xs) @ 0 # junk" by simp
  moreover have "\<exists>m'. parse_items (?before @ sys_file (x # xs) @ 0 # junk) (length ?before) p_end m = Some m'
    \<and> mask_ok m' \<and> cpus m' = cpus m \<union> (\<Union>x\<in>set (x # xs). item_cpus x)"
    using 3(2-) m(2) by (intro 3(1)) auto
  ultimately show ?case using m by auto
qed

text \<open>
  \<open>CpuSet::ParseSysFile\<close> on a file in the documented format, a comma-separated list of numbers and
  ranges with white space around them, returns and adds exactly the listed processors below 1024.
\<close>
lemma cpu_set_parses:
  assumes "\<forall>x\<in>set items. item_ok x" "mask_ok msk"
  shows "\<exists>m. ParseSysFile (Some (sys_file items)) junk msk = Some (True, m) \<and> mask_ok m
    \<and> cpus m = cpus msk \<union> (\<Union>x\<in>set items. item_cpus x)"
  using parse_items_file [OF assms, of _ "[]" junk] by (auto simp: ParseSysFile_def)

text \<open>
  The loops of \<open>ParseSysFile\<close> over a range of processors return exactly if the range does not
  end at the greatest integer; so the file \<open>0-18446744073709551615\<close> makes it loop forever.
\<close>
lemma cpu_set_range_returns:
  assumes "mask_ok msk"
  shows "(set_range start stop msk \<noteq> None \<longleftrightarrow> stop \<noteq> - 1)
    \<and> ParseSysFile (Some (sys_file [([], 0, - 1, [])])) junk msk = None"
proof
  show "set_range start stop msk \<noteq> None \<longleftrightarrow> stop \<noteq> - 1"
    using set_range_returns [OF _ assms, of stop start] set_range_diverges [of start msk] by auto
  have "parse_items ([] @ sys_file [([], 0, - 1, [])] @ 0 # junk) (length ([] :: byte list))
      (length (sys_file [([], 0, - 1, [])])) msk
    = (case set_range 0 (- 1) msk of None \<Rightarrow> None
       | Some m \<Rightarrow> parse_items ([] @ sys_file [([], 0, - 1, [])] @ 0 # junk)
           (length (sys_file [([], 0, - 1, [])])) (length (sys_file [([], 0, - 1, [])])) m)"
    by (intro parse_items_step [where c = 0]) (auto simp: blank_def)
  then show "ParseSysFile (Some (sys_file [([], 0, - 1, [])])) junk msk = None"
    by (simp add: ParseSysFile_def set_range_diverges)
qed

text \<open>
  The bit mask is a set of processors: setting a bit inserts an element, the intersection of masks
  is the intersection of sets, and \<open>GetCount\<close> is the number of elements.
\<close>
theorem cpu_set_refines:
  assumes "mask_ok a" "mask_ok b"
  shows "cpus new_CpuSet = {} \<and> cpus (CpuSet_SetBit i a) = cpus a \<union> ({unat i} \<inter> {..<1024})
    \<and> cpus (CpuSet_IntersectWith a b) = cpus a \<inter> cpus b
    \<and> CpuSet_GetCount a = card (cpus a)"
  using assms by (simp add: SetBit_cpus IntersectWith_cpus GetCount_card)

end
