(* ===== verification/Line_Reader.thy ===== *)
theory Line_Reader
  imports LZO_Prelude
begin

text \<open>
  \<open>src/app/breakpad/src/client/linux/minidump_writer/line_reader.h\<close>: reading a file line by line
  through a buffer of 512 bytes.

  The system call that reads the file is a parameter: \<open>read f n\<close> are the bytes it delivers (none at
  the end of the file, \<open>None\<close> on an error) and the state of the file afterwards.  It delivers as much
  as it likes at a time, so \<open>GetNextLine\<close>, which reads until it finds the end of a line, is a
  \<open>partial_function\<close>.
\<close>

type_synonym 'f read = "'f \<Rightarrow> nat \<Rightarrow> byte list option \<times> 'f"

definition kMaxLineLen :: nat where "kMaxLineLen = 512"

record line_reader =
  hit_eof :: bool
  buf_used :: nat
  lr_buf :: "byte list"

text \<open>The constructor leaves the contents of the buffer as they are.\<close>

definition new_LineReader :: "byte list \<Rightarrow> line_reader" where
  "new_LineReader junk = \<lparr>hit_eof = False, buf_used = 0, lr_buf = junk\<rparr>"

fun find_eol :: "byte list \<Rightarrow> nat \<Rightarrow> nat option" where
  "find_eol [] i = None"
| "find_eol (c # s) i = (if c = 10 \<or> c = 0 then Some i else find_eol s (i + 1))"

partial_function (option) GetNextLine ::
  "'f read \<Rightarrow> line_reader \<Rightarrow> 'f \<Rightarrow> (nat option \<times> line_reader \<times> 'f) option"
where
  "GetNextLine read s f =
     (if buf_used s = 0 \<and> hit_eof s then Some (None, s, f)
      else
        case find_eol (take (buf_used s) (lr_buf s)) 0 of
          Some i \<Rightarrow> Some (Some i, s\<lparr>lr_buf := (lr_buf s)[i := 0]\<rparr>, f)
        | None \<Rightarrow>
            if buf_used s = kMaxLineLen then Some (None, s, f)
            else if hit_eof s then
              Some (Some (buf_used s),
                s\<lparr>lr_buf := (lr_buf s)[buf_used s := 0], buf_used := buf_used s + 1\<rparr>, f)
            else
              case read f (kMaxLineLen - buf_used s) of
                (None, f') \<Rightarrow> Some (None, s, f')
              | (Some bs, f') \<Rightarrow>
                  if bs = [] then GetNextLine read (s\<lparr>hit_eof := True\<rparr>) f'
                  else GetNextLine read
                    (s\<lparr>lr_buf := take (buf_used s) (lr_buf s) @ bs @ drop (buf_used s + length bs) (lr_buf s),
                       buf_used := buf_used s + length bs\<rparr>) f')"

text \<open>\<open>None\<close>: the assertion fails\<close>

definition PopLine :: "nat \<Rightarrow> line_reader \<Rightarrow> line_reader option" where
  "PopLine len s =
     (if buf_used s \<ge> len + 1 then
        let used = buf_used s - (len + 1) in
        Some (s\<lparr>buf_used := used,
                lr_buf := take used (drop (len + 1) (lr_buf s)) @ drop used (lr_buf s)\<rparr>)
      else None)"

text \<open>The loop of the callers: the lines of a file\<close>

partial_function (option) read_lines :: "'f read \<Rightarrow> line_reader \<Rightarrow> 'f \<Rightarrow> byte list list option" where
  "read_lines read s f =
     (case GetNextLine read s f of
        None \<Rightarrow> None
      | Some (None, s', f') \<Rightarrow> Some []
      | Some (Some n, s', f') \<Rightarrow>
          (case PopLine n s' of
             None \<Rightarrow> None
           | Some t \<Rightarrow>
               Option.bind (read_lines read t f') (\<lambda>ls. Some (take n (lr_buf s') # ls))))"

section \<open>What a file delivers\<close>

text \<open>
  The documented behaviour of \<open>read\<close>: at most as many bytes as asked for, the next ones of the
  \<open>rest\<close> of the file; none only at its end; and no errors.
\<close>

definition reads_file :: "'f read \<Rightarrow> ('f \<Rightarrow> byte list) \<Rightarrow> bool" where
  "reads_file read rest \<longleftrightarrow> (\<forall>f n. 0 < n \<longrightarrow> (\<exists>bs f'. read f n = (Some bs, f')
     \<and> length bs \<le> n \<and> rest f = bs @ rest f' \<and> (bs = [] \<longrightarrow> rest f = [])))"

definition reader_ok :: "('f \<Rightarrow> byte list) \<Rightarrow> line_reader \<Rightarrow> 'f \<Rightarrow> bool" where
  "reader_ok rest s f \<longleftrightarrow> length (lr_buf s) = 512 \<and> buf_used s \<le> 512 \<and> (hit_eof s \<longrightarrow> rest f = [])"

text \<open>The text that has not been popped yet\<close>

definition pending :: "('f \<Rightarrow> byte list) \<Rightarrow> line_reader \<Rightarrow> 'f \<Rightarrow> byte list" where
  "pending rest s f = take (buf_used s) (lr_buf s) @ rest f"

definition no_eol :: "byte \<Rightarrow> bool" where
  "no_eol c \<longleftrightarrow> c \<noteq> 10 \<and> c \<noteq> 0"

lemma find_eol_at:
  "find_eol s i = (if \<forall>c\<in>set s. no_eol c then None else Some (i + length (takeWhile no_eol s)))"
proof (induction s i rule: find_eol.induct)
  case (2 c s i)
  have "c = 10 \<or> c = 0 \<longleftrightarrow> \<not> no_eol c" by (auto simp: no_eol_def)
  with 2 show ?case by auto
qed simp

lemma eol_position: "\<not> (\<forall>c\<in>set s. no_eol c) \<Longrightarrow> length (takeWhile no_eol s) < length s"
  by (induction s) auto

lemma takeWhile_append_eol:
  "length (takeWhile no_eol (s @ t)) = (if \<forall>c\<in>set s. no_eol c then length s + length (takeWhile no_eol t)
    else length (takeWhile no_eol s))"
  by (auto simp: takeWhile_append)

text \<open>
  \<open>GetNextLine\<close> finds the first line of the pending text, if the line and its end fit in the buffer,
  and replaces its end by a NUL.
\<close>

lemma GetNextLine_pending:
  assumes "reads_file read rest" "reader_ok rest s f"
  shows "\<exists>r s' f'. GetNextLine read s f = Some (r, s', f') \<and> reader_ok rest s' f'
    \<and> (let p = pending rest s f; i = length (takeWhile no_eol p) in
        if p = [] \<or> 512 \<le> i then r = None
        else r = Some i \<and> i < buf_used s' \<and> pending rest s' f' = take i p @ 0 # drop (i + 1) p)"
  using assms(2)
proof (induction "(if hit_eof s then 0 else 1) + (512 - buf_used s)" arbitrary: s f rule: less_induct)
  case less
  note ok = less.prems [unfolded reader_ok_def]
  let ?used = "take (buf_used s) (lr_buf s)"
  consider "buf_used s = 0" "hit_eof s"
    | "\<not> (\<forall>c\<in>set ?used. no_eol c)"
    | "\<forall>c\<in>set ?used. no_eol c" "buf_used s = 512"
    | "\<forall>c\<in>set ?used. no_eol c" "buf_used s \<noteq> 512" "hit_eof s" "buf_used s \<noteq> 0"
    | "\<forall>c\<in>set ?used. no_eol c" "buf_used s \<noteq> 512" "\<not> hit_eof s"
    by blast
  then show ?case
  proof cases
    case 1
    then show ?thesis using ok by (subst GetNextLine.simps) (simp add: reader_ok_def pending_def)
  next
    case 2
    define i where "i = length (takeWhile no_eol ?used)"
    have i: "i < length ?used"
      unfolding i_def using 2 by (rule eol_position)
    have p: "length (takeWhile no_eol (pending rest s f)) = i"
      unfolding pending_def takeWhile_append_eol i_def using 2 by (rule if_not_P)
    have "GetNextLine read s f = Some (Some i, s\<lparr>lr_buf := (lr_buf s)[i := 0]\<rparr>, f)"
      using 2 i by (subst GetNextLine.simps) (auto simp: find_eol_at i_def)
    moreover have "take (buf_used s) ((lr_buf s)[i := 0]) = take i ?used @ 0 # drop (Suc i) ?used"
      unfolding take_update_swap using i by (rule upd_conv_take_nth_drop)
    ultimately show ?thesis
      using ok i by (auto simp: Let_def p) (auto simp: reader_ok_def pending_def)
  next
    case 3
    have "GetNextLine read s f = Some (None, s, f)"
      using 3 by (subst GetNextLine.simps) (auto simp: find_eol_at kMaxLineLen_def)
    moreover have "512 \<le> length (takeWhile no_eol (pending rest s f))"
      using 3 ok by (simp add: pending_def takeWhile_append_eol)
    ultimately show ?thesis using less.prems by (simp add: Let_def)
  next
    case 4
    let ?s = "s\<lparr>lr_buf := (lr_buf s)[buf_used s := 0], buf_used := buf_used s + 1\<rparr>"
    have "GetNextLine read s f = Some (Some (buf_used s), ?s, f)"
      using 4 by (subst GetNextLine.simps) (auto simp: find_eol_at kMaxLineLen_def)
    moreover have p: "pending rest s f = ?used" using 4 ok by (simp add: pending_def)
    moreover have "length (takeWhile no_eol ?used) = buf_used s"
      using 4 ok takeWhile_append_eol [of ?used "[]"] by simp
    moreover have "pending rest ?s f = ?used @ [0]"
      using 4 ok by (simp add: pending_def take_Suc_conv_app_nth)
    ultimately show ?thesis
      using 4 ok by (auto simp: Let_def reader_ok_def)
  next
    case 5
    have "0 < 512 - buf_used s" using 5(2) ok by simp
    then obtain bs f' where bs: "read f (512 - buf_used s) = (Some bs, f')" "length bs \<le> 512 - buf_used s"
      "rest f = bs @ rest f'" "bs = [] \<longrightarrow> rest f = []"
      using assms(1) unfolding reads_file_def by blast
    define t where "t = (if bs = [] then s\<lparr>hit_eof := True\<rparr>
      else s\<lparr>lr_buf := take (buf_used s) (lr_buf s) @ bs @ drop (buf_used s + length bs) (lr_buf s),
             buf_used := buf_used s + length bs\<rparr>)"
    have "GetNextLine read s f = GetNextLine read t f'"
      using 5 bs(1) by (subst GetNextLine.simps) (auto simp: find_eol_at kMaxLineLen_def t_def)
    moreover have "pending rest t f' = pending rest s f"
      using bs ok by (auto simp: pending_def t_def)
    moreover have t: "reader_ok rest t f'"
      using bs ok 5 by (auto simp: reader_ok_def t_def)
    moreover have "(if hit_eof t then 0 else 1) + (512 - buf_used t)
        < (if hit_eof s then 0 else 1) + (512 - buf_used s)"
      using bs(2) 5 ok by (cases bs) (auto simp: t_def)
    note less.hyps [OF this t]
    ultimately show ?thesis by simp
  qed
qed

lemma PopLine_pending:
  assumes "reader_ok rest s f" "n < buf_used s"
  shows "\<exists>t. PopLine n s = Some t \<and> reader_ok rest t f \<and> pending rest t f = drop (n + 1) (pending rest s f)"
  using assms by (auto simp: PopLine_def Let_def reader_ok_def pending_def drop_take)

text \<open>The lines of a text, up to the first one that does not fit in the buffer\<close>

function text_lines :: "byte list \<Rightarrow> byte list list" where
  "text_lines p =
     (let l = takeWhile no_eol p in
      if p = [] \<or> 512 \<le> length l then [] else l # text_lines (drop (length l + 1) p))"
  by auto
termination by (relation "measure length") (auto simp: Let_def)

declare text_lines.simps [simp del]

lemma read_lines_pending:
  assumes "reads_file read rest" "reader_ok rest s f"
  shows "read_lines read s f = Some (text_lines (pending rest s f))"
  using assms(2)
proof (induction "pending rest s f" arbitrary: s f rule: text_lines.induct)
  case 1
  define p where "p = pending rest s f"
  define i where "i = length (takeWhile no_eol p)"
  obtain r s' f' where r: "GetNextLine read s f = Some (r, s', f')" "reader_ok rest s' f'"
    "if p = [] \<or> 512 \<le> i then r = None
     else r = Some i \<and> i < buf_used s' \<and> pending rest s' f' = take i p @ 0 # drop (i + 1) p"
    using GetNextLine_pending [OF assms(1) 1(2)] unfolding Let_def p_def i_def by blast
  show ?case
  proof (cases "p = [] \<or> 512 \<le> i")
    case True
    then show ?thesis
      using r by (subst read_lines.simps, subst text_lines.simps) (auto simp: Let_def p_def i_def)
  next
    case False
    then have i: "r = Some i" "i < buf_used s'" "pending rest s' f' = take i p @ 0 # drop (i + 1) p"
      using r(3) by auto
    obtain t where t: "PopLine i s' = Some t" "reader_ok rest t f'"
      "pending rest t f' = drop (i + 1) (pending rest s' f')"
      using PopLine_pending [OF r(2) i(2)] by blast
    have "i \<le> length p" unfolding i_def by (rule length_takeWhile_le)
    then have len: "length (take i p) = i" by simp
    have prefix: "take i p = takeWhile no_eol p" by (simp add: i_def takeWhile_eq_take [symmetric])
    have "take i (lr_buf s') = take i (pending rest s' f')"
      using i(2) r(2) by (simp add: pending_def reader_ok_def)
    also have "\<dots> = takeWhile no_eol p"
      unfolding i(3) using len prefix by simp
    finally have line: "take i (lr_buf s') = takeWhile no_eol p" .
    have rest: "drop (i + 1) p = pending rest t f'"
      unfolding t(3) i(3) using len by simp
    have "read_lines read t f' = Some (text_lines (pending rest t f'))"
      using False rest by (intro 1(1) [OF refl _ _ t(2)]) (simp_all add: p_def i_def)
    then have "read_lines read s f = Some (takeWhile no_eol p # text_lines (drop (i + 1) p))"
      using r(1) i(1) t(1) line rest by (subst read_lines.simps) simp
    also have "takeWhile no_eol p # text_lines (drop (i + 1) p) = text_lines p"
      using False by (subst (2) text_lines.simps) (simp add: Let_def i_def)
    finally show ?thesis by (simp add: p_def)
  qed
qed

text \<open>
  C38. \<open>LineReader\<close> splits a file into lines: whatever amounts the system call delivers at a time, the
  loop of \<open>GetNextLine\<close> and \<open>PopLine\<close> returns, no assertion fails, and the lines are those of the
  file's text, the last one with or without an end, up to the first line of 512 bytes or more.
\<close>
theorem line_reader_splits:
  assumes "reads_file read rest" "length junk = 512"
  shows "read_lines read (new_LineReader junk) f = Some (text_lines (rest f))"
  using read_lines_pending [OF assms(1), of "new_LineReader junk" f] assms(2)
  by (simp add: reader_ok_def new_LineReader_def pending_def)

text \<open>A file that delivers at most three bytes at a time\<close>

definition slow_read :: "byte list read" where
  "slow_read f n = (Some (take (min n 3) f), drop (min n 3) f)"

lemma slow_read_file: "reads_file slow_read (\<lambda>f. f)"
  by (auto simp: reads_file_def slow_read_def)

lemma line_reader_splits_witness:
  "read_lines slow_read (new_LineReader (replicate 512 7)) [65, 66, 67, 68, 10, 69]
    = Some (text_lines [65, 66, 67, 68, 10, 69])"
  by (rule line_reader_splits [OF slow_read_file]) simp

end
