(* ===== verification/Byte_Reader.thy ===== *)
theory Byte_Reader
  imports LZO_Prelude
begin

text \<open>
  \<open>src/app/breakpad/src/common/dwarf/bytereader.h\<close>, \<open>bytereader-inl.h\<close> and \<open>bytereader.cc\<close>: reading
  the numbers and encoded pointers of DWARF debugging information.

  Memory is a list of bytes and a pointer an index into it.  What stops a read is a value of
  \<open>fault\<close>: an access behind the memory, a shift that the language leaves undefined, a failed
  assertion, or a call of \<open>abort\<close>.
\<close>

datatype fault = OutOfMemory | UndefinedShift | AssertionFails | Aborts

type_synonym 'a read_result = "fault + 'a"

definition then_read :: "'a read_result \<Rightarrow> ('a \<Rightarrow> 'b read_result) \<Rightarrow> 'b read_result" where
  "then_read r k = (case r of Inl e \<Rightarrow> Inl e | Inr x \<Rightarrow> k x)"

lemma then_read_simps [simp]: "then_read (Inl e) k = Inl e" "then_read (Inr x) k = k x"
  by (simp_all add: then_read_def)

definition assert_read :: "bool \<Rightarrow> 'a read_result \<Rightarrow> 'a read_result" where
  "assert_read b r = (if b then r else Inl AssertionFails)"

section \<open>Numbers of fixed size\<close>

datatype Endianness = ENDIANNESS_BIG | ENDIANNESS_LITTLE

datatype reader = FourBytes | EightBytes

record ByteReader =
  offset_reader :: "reader option"
  address_reader :: "reader option"
  endian :: Endianness
  address_size :: byte
  offset_size :: byte
  have_section_base :: bool
  have_text_base :: bool
  have_data_base :: bool
  have_function_base :: bool
  section_base :: u64
  text_base :: u64
  data_base :: u64
  function_base :: u64
  buffer_base :: nat

text \<open>The constructor leaves the bases as they are in the memory of the object.\<close>

definition new_ByteReader :: "ByteReader \<Rightarrow> Endianness \<Rightarrow> ByteReader" where
  "new_ByteReader junk e = junk\<lparr>offset_reader := None, address_reader := None, endian := e,
     address_size := 0, offset_size := 0, have_section_base := False, have_text_base := False,
     have_data_base := False, have_function_base := False\<rparr>"

definition fetch :: "byte list \<Rightarrow> nat \<Rightarrow> nat \<Rightarrow> byte list read_result" where
  "fetch mem p n = (if p + n \<le> length mem then Inr (take n (drop p mem)) else Inl OutOfMemory)"

definition ReadOneByte :: "byte list \<Rightarrow> nat \<Rightarrow> byte read_result" where
  "ReadOneByte mem p = then_read (fetch mem p 1) (\<lambda>b. Inr (b ! 0))"

definition ReadTwoBytes :: "ByteReader \<Rightarrow> byte list \<Rightarrow> nat \<Rightarrow> u16 read_result" where
  "ReadTwoBytes R mem p = then_read (fetch mem p 2) (\<lambda>b.
     let buffer0 = ucast (b ! 0); buffer1 = ucast (b ! 1) in
     if endian R = ENDIANNESS_LITTLE then Inr (buffer0 OR push_bit 8 buffer1)
     else Inr (buffer1 OR push_bit 8 buffer0))"

definition ReadFourBytes :: "ByteReader \<Rightarrow> byte list \<Rightarrow> nat \<Rightarrow> u64 read_result" where
  "ReadFourBytes R mem p = then_read (fetch mem p 4) (\<lambda>b.
     let buffer0 = ucast (b ! 0) :: u32; buffer1 = ucast (b ! 1);
         buffer2 = ucast (b ! 2); buffer3 = ucast (b ! 3) in
     if endian R = ENDIANNESS_LITTLE
     then Inr (ucast (buffer0 OR push_bit 8 buffer1 OR push_bit 16 buffer2 OR push_bit 24 buffer3))
     else Inr (ucast (buffer3 OR push_bit 8 buffer2 OR push_bit 16 buffer1 OR push_bit 24 buffer0)))"

definition ReadEightBytes :: "ByteReader \<Rightarrow> byte list \<Rightarrow> nat \<Rightarrow> u64 read_result" where
  "ReadEightBytes R mem p = then_read (fetch mem p 8) (\<lambda>b.
     let buffer0 = ucast (b ! 0); buffer1 = ucast (b ! 1);
         buffer2 = ucast (b ! 2); buffer3 = ucast (b ! 3);
         buffer4 = ucast (b ! 4); buffer5 = ucast (b ! 5);
         buffer6 = ucast (b ! 6); buffer7 = ucast (b ! 7) in
     if endian R = ENDIANNESS_LITTLE
     then Inr (buffer0 OR push_bit 8 buffer1 OR push_bit 16 buffer2 OR push_bit 24 buffer3 OR
            push_bit 32 buffer4 OR push_bit 40 buffer5 OR push_bit 48 buffer6 OR push_bit 56 buffer7)
     else Inr (buffer7 OR push_bit 8 buffer6 OR push_bit 16 buffer5 OR push_bit 24 buffer4 OR
            push_bit 32 buffer3 OR push_bit 40 buffer2 OR push_bit 48 buffer1 OR push_bit 56 buffer0))"

definition SetOffsetSize :: "byte \<Rightarrow> ByteReader \<Rightarrow> ByteReader read_result" where
  "SetOffsetSize s R = assert_read (s = 4 \<or> s = 8)
     (Inr (R\<lparr>offset_size := s, offset_reader := Some (if s = 4 then FourBytes else EightBytes)\<rparr>))"

definition SetAddressSize :: "byte \<Rightarrow> ByteReader \<Rightarrow> ByteReader read_result" where
  "SetAddressSize s R = assert_read (s = 4 \<or> s = 8)
     (Inr (R\<lparr>address_size := s, address_reader := Some (if s = 4 then FourBytes else EightBytes)\<rparr>))"

definition ReadWith :: "reader option \<Rightarrow> ByteReader \<Rightarrow> byte list \<Rightarrow> nat \<Rightarrow> u64 read_result" where
  "ReadWith r R mem p =
     (case r of
        None \<Rightarrow> Inl AssertionFails
      | Some FourBytes \<Rightarrow> ReadFourBytes R mem p
      | Some EightBytes \<Rightarrow> ReadEightBytes R mem p)"

definition ReadOffset :: "ByteReader \<Rightarrow> byte list \<Rightarrow> nat \<Rightarrow> u64 read_result" where
  "ReadOffset R = ReadWith (offset_reader R) R"

definition ReadAddress :: "ByteReader \<Rightarrow> byte list \<Rightarrow> nat \<Rightarrow> u64 read_result" where
  "ReadAddress R = ReadWith (address_reader R) R"

definition SetCFIDataBase :: "u64 \<Rightarrow> nat \<Rightarrow> ByteReader \<Rightarrow> ByteReader" where
  "SetCFIDataBase b base R = R\<lparr>section_base := b, buffer_base := base, have_section_base := True\<rparr>"

definition SetTextBase :: "u64 \<Rightarrow> ByteReader \<Rightarrow> ByteReader" where
  "SetTextBase b R = R\<lparr>text_base := b, have_text_base := True\<rparr>"

definition SetDataBase :: "u64 \<Rightarrow> ByteReader \<Rightarrow> ByteReader" where
  "SetDataBase b R = R\<lparr>data_base := b, have_data_base := True\<rparr>"

definition SetFunctionBase :: "u64 \<Rightarrow> ByteReader \<Rightarrow> ByteReader" where
  "SetFunctionBase b R = R\<lparr>function_base := b, have_function_base := True\<rparr>"

definition ClearFunctionBase :: "ByteReader \<Rightarrow> ByteReader" where
  "ClearFunctionBase R = R\<lparr>have_function_base := False\<rparr>"

definition ReadInitialLength :: "byte list \<Rightarrow> nat \<Rightarrow> ByteReader \<Rightarrow> (u64 \<times> nat \<times> ByteReader) read_result"
where
  "ReadInitialLength mem start R =
     then_read (ReadFourBytes R mem start) (\<lambda>initial_length.
     let start = start + 4 in
     if initial_length = 0xffffffff then
       then_read (SetOffsetSize 8 R) (\<lambda>R.
       then_read (ReadOffset R mem start) (\<lambda>l. Inr (l, 12, R)))
     else then_read (SetOffsetSize 4 R) (\<lambda>R. Inr (initial_length, 4, R)))"

section \<open>LEB128 numbers\<close>

text \<open>The loop: the accumulated result, the shift, the bytes read, and the last byte\<close>

function leb128_loop :: "byte list \<Rightarrow> nat \<Rightarrow> u64 \<Rightarrow> nat \<Rightarrow> nat \<Rightarrow> (u64 \<times> nat \<times> nat \<times> byte) read_result"
where
  "leb128_loop mem p result shift num_read =
     (if p < length mem then
        if shift < 64 then
          let b = mem ! p;
              result = result OR push_bit shift (ucast (b AND 0x7f));
              shift = shift + 7 in
          if b AND 0x80 \<noteq> 0 then leb128_loop mem (p + 1) result shift (num_read + 1)
          else Inr (result, shift, num_read + 1, b)
        else Inl UndefinedShift
      else Inl OutOfMemory)"
  by auto
termination by (relation "measure (\<lambda>(mem, p, _). length mem - p)") auto

definition ReadUnsignedLEB128 :: "byte list \<Rightarrow> nat \<Rightarrow> (u64 \<times> nat) read_result" where
  "ReadUnsignedLEB128 mem p =
     then_read (leb128_loop mem p 0 0 0) (\<lambda>(result, shift, num_read, b). Inr (result, num_read))"

text \<open>
  The sign is extended with \<open>-((static_cast<int64>(1)) << shift)\<close>.  Behind nine bytes, which leave the
  shift at 63, this is the least \<open>int64\<close>, and its negation a signed overflow, which the language leaves
  undefined; it is a word here, whose negation wraps around, as with the compilers the program is built
  with.  \<open>sleb_nine_bytes\<close> says for which numbers.
\<close>

definition ReadSignedLEB128 :: "byte list \<Rightarrow> nat \<Rightarrow> (u64 \<times> nat) read_result" where
  "ReadSignedLEB128 mem p =
     then_read (leb128_loop mem p 0 0 0) (\<lambda>(result, shift, num_read, b).
     let result = (if shift < 64 \<and> b AND 0x40 \<noteq> 0 then result OR - push_bit shift 1 else result) in
     Inr (result, num_read))"

section \<open>Encoded pointers\<close>

definition ValidEncoding :: "byte \<Rightarrow> bool" where
  "ValidEncoding encoding =
     (if encoding = 0xff then True
      else if encoding = 0x50 then True
      else if encoding AND 0x7 > 0x04 then False
      else if encoding AND 0x70 > 0x40 then False
      else True)"

definition UsableEncoding :: "ByteReader \<Rightarrow> byte \<Rightarrow> bool" where
  "UsableEncoding R encoding =
     (let application = encoding AND 0x70 in
      if application = 0x00 then True
      else if application = 0x10 then have_section_base R
      else if application = 0x20 then have_text_base R
      else if application = 0x30 then have_data_base R
      else if application = 0x40 then have_function_base R
      else False)"

text \<open>The value of the low nybble's format: the offset and its length\<close>

definition read_format :: "ByteReader \<Rightarrow> byte list \<Rightarrow> nat \<Rightarrow> byte \<Rightarrow> (u64 \<times> nat) read_result" where
  "read_format R mem buffer encoding =
     (let format = encoding AND 0x0f in
      if format = 0x00 then
        then_read (ReadAddress R mem buffer) (\<lambda>v. Inr (v, unat (address_size R)))
      else if format = 0x01 then ReadUnsignedLEB128 mem buffer
      else if format = 0x02 then then_read (ReadTwoBytes R mem buffer) (\<lambda>v. Inr (ucast v, 2))
      else if format = 0x03 then then_read (ReadFourBytes R mem buffer) (\<lambda>v. Inr (v, 4))
      else if format = 0x04 then then_read (ReadEightBytes R mem buffer) (\<lambda>v. Inr (v, 8))
      else if format = 0x09 then ReadSignedLEB128 mem buffer
      else if format = 0x0A then
        then_read (ReadTwoBytes R mem buffer) (\<lambda>v. Inr ((ucast v XOR 0x8000) - 0x8000, 2))
      else if format = 0x0B then
        then_read (ReadFourBytes R mem buffer) (\<lambda>v. Inr ((v XOR 0x80000000) - 0x80000000, 4))
      else if format = 0x0C then then_read (ReadEightBytes R mem buffer) (\<lambda>v. Inr (v, 8))
      else Inl Aborts)"

text \<open>The base the high nybble selects\<close>

definition pointer_base :: "ByteReader \<Rightarrow> nat \<Rightarrow> byte \<Rightarrow> u64 read_result" where
  "pointer_base R buffer encoding =
     (let application = encoding AND 0x70 in
      if application = 0x00 then Inr 0
      else if application = 0x10 then
        assert_read (have_section_base R)
          (Inr (section_base R + word_of_int (int buffer - int (buffer_base R))))
      else if application = 0x20 then assert_read (have_text_base R) (Inr (text_base R))
      else if application = 0x30 then assert_read (have_data_base R) (Inr (data_base R))
      else if application = 0x40 then assert_read (have_function_base R) (Inr (function_base R))
      else Inl Aborts)"

text \<open>
  An aligned pointer; \<open>aligned_buffer\<close> is the index of the next position that is aligned in the
  loaded section, and must lie in the memory.
\<close>

definition read_aligned :: "ByteReader \<Rightarrow> byte list \<Rightarrow> nat \<Rightarrow> (u64 \<times> nat) read_result" where
  "read_aligned R mem buffer =
     (let asize = ucast (address_size R) :: u64;
          skew = section_base R AND (asize - 1);
          offset = skew + word_of_int (int buffer - int (buffer_base R));
          aligned = (offset + asize - 1) AND - asize;
          aligned_buffer = int (buffer_base R) + sint (aligned - skew) in
      if aligned_buffer < 0 then Inl OutOfMemory
      else then_read (ReadAddress R mem (nat aligned_buffer))
        (\<lambda>v. Inr (v, nat (aligned_buffer - int buffer) + unat (address_size R))))"

definition ReadEncodedPointer :: "ByteReader \<Rightarrow> byte list \<Rightarrow> nat \<Rightarrow> byte \<Rightarrow> (u64 \<times> nat) read_result"
where
  "ReadEncodedPointer R mem buffer encoding =
     assert_read (encoding \<noteq> 0xff)
     (if encoding = 0x50 then
        assert_read (have_section_base R) (read_aligned R mem buffer)
      else
        then_read (read_format R mem buffer encoding) (\<lambda>(offset, len).
        then_read (pointer_base R buffer encoding) (\<lambda>base.
        let pointer = base + offset in
        if address_size R = 4 then Inr (pointer AND 0xffffffff, len)
        else assert_read (address_size R = 8) (Inr (pointer, len)))))"

section \<open>Byte order\<close>

text \<open>The number that bytes stand for, least significant byte first\<close>

primrec le_num :: "byte list \<Rightarrow> nat" where
  "le_num [] = 0"
| "le_num (b # bs) = unat b + 256 * le_num bs"

definition byte_order :: "ByteReader \<Rightarrow> byte list \<Rightarrow> byte list" where
  "byte_order R bs = (if endian R = ENDIANNESS_LITTLE then bs else rev bs)"

lemma le_num_less: "le_num bs < 256 ^ length bs"
proof (induction bs)
  case (Cons b bs)
  have "unat b + 256 * le_num bs < 256 * (le_num bs + 1)" using unat_byte_less [of b] by simp
  also have "\<dots> \<le> 256 * 256 ^ length bs" using Cons by (intro mult_le_mono) auto
  finally show ?case by simp
qed simp

lemma le_num_append: "le_num (as @ [b]) = le_num as + 256 ^ length as * unat b"
  by (induction as) (simp_all add: algebra_simps)

text \<open>Disjoint bits add up.\<close>

lemma or_push:
  fixes x :: "'a::len word"
  assumes "unat x < 2 ^ n"
  shows "x OR push_bit n w = x + push_bit n w"
proof -
  have "\<not> bit x m" if "n \<le> m" for m
  proof -
    have "unat x < 2 ^ m" using assms that by (meson less_le_trans one_le_numeral power_increasing)
    then have "\<not> bit (unat x) m" by (metis bit_take_bit_iff less_irrefl take_bit_nat_eq_self_iff)
    then show ?thesis by (simp add: bit_unsigned_iff)
  qed
  then have "x AND push_bit n w = 0"
    by (intro bit_word_eqI) (auto simp: bit_simps)
  then show ?thesis by (simp add: disjunctive_add_eq_or [symmetric])
qed

lemma unat_ucast_byte: "8 \<le> LENGTH('a) \<Longrightarrow> unat (ucast (b :: byte) :: 'a::len word) = unat b"
proof -
  assume "8 \<le> LENGTH('a)"
  then have "(2 :: nat) ^ 8 \<le> 2 ^ LENGTH('a)" by (intro power_increasing) simp_all
  then have "(256 :: nat) \<le> 2 ^ LENGTH('a)" by simp
  then have "unat b < 2 ^ LENGTH('a)" using unat_byte_less [of b] by linarith
  then show ?thesis by (simp add: unsigned_ucast_eq take_bit_nat_eq_self)
qed

lemma or_next:
  assumes "unat x = le_num bs" "8 * length bs + 8 \<le> LENGTH('a)" "n = 8 * length bs"
  shows "unat ((x :: 'a::len word) OR push_bit n (ucast (b :: byte))) = le_num (bs @ [b])"
proof -
  have pow: "(256 :: nat) ^ k = 2 ^ (8 * k)" for k by (simp add: power_mult)
  have x: "unat x < 2 ^ n" using le_num_less [of bs] assms(1,3) by (simp add: pow)
  have "unat (ucast b :: 'a word) * 2 ^ n < 2 ^ 8 * 2 ^ n"
    using assms(2) by (simp add: unat_ucast_byte)
  also have "\<dots> \<le> 2 ^ LENGTH('a)"
    unfolding power_add [symmetric] using assms(2,3) by (intro power_increasing) simp_all
  finally have p: "unat (push_bit n (ucast b :: 'a word)) = 2 ^ n * unat b"
    unfolding unsigned_push_bit_eq using assms(2)
    by (simp add: push_bit_eq_mult take_bit_nat_eq_self unat_ucast_byte mult.commute)
  have "le_num (bs @ [b]) < 2 ^ LENGTH('a)"
  proof -
    have "le_num (bs @ [b]) < 2 ^ (8 * length (bs @ [b]))" using le_num_less [of "bs @ [b]"] pow by metis
    also have "\<dots> \<le> 2 ^ LENGTH('a)" using assms(2) by (intro power_increasing) simp_all
    finally show ?thesis .
  qed
  then show ?thesis
    unfolding or_push [OF x] using p assms(1,3)
    by (simp add: unat_word_ariths le_num_append pow)
qed

lemma list_2: "length (b :: 'a list) = 2 \<Longrightarrow> b = [b ! 0, b ! 1]"
  by (auto simp: list_eq_iff_nth_eq less_Suc_eq numeral_eq_Suc)

lemma list_4: "length (b :: 'a list) = 4 \<Longrightarrow> b = [b ! 0, b ! 1, b ! 2, b ! 3]"
  by (auto simp: list_eq_iff_nth_eq less_Suc_eq numeral_eq_Suc)

lemma list_8: "length (b :: 'a list) = 8 \<Longrightarrow>
  b = [b ! 0, b ! 1, b ! 2, b ! 3, b ! 4, b ! 5, b ! 6, b ! 7]"
  by (auto simp: list_eq_iff_nth_eq less_Suc_eq numeral_eq_Suc)

text \<open>The disjunction of the shifted bytes, from the byte at position \<open>k\<close> on\<close>

primrec or_bytes :: "nat \<Rightarrow> byte list \<Rightarrow> 'a::len word" where
  "or_bytes k [] = 0"
| "or_bytes k (b # bs) = push_bit (8 * k) (ucast b) OR or_bytes (k + 1) bs"

lemma or_bytes_num:
  assumes "unat (x :: 'a::len word) = le_num as" "8 * (length as + length bs) \<le> LENGTH('a)"
  shows "unat (x OR or_bytes (length as) bs) = le_num (as @ bs)"
  using assms
proof (induction bs arbitrary: x as)
  case (Cons b bs)
  have "unat (x OR push_bit (8 * length as) (ucast b)) = le_num (as @ [b])"
    using Cons.prems by (intro or_next) simp_all
  from Cons.IH [OF this] Cons.prems(2) show ?case by (simp add: or.assoc)
qed simp

lemma two_bytes: "unat (ucast a OR push_bit 8 (ucast b) :: u16) = le_num [a, b]"
  using or_bytes_num [of "ucast a :: u16" "[a]" "[b]"]
  by (simp add: unat_ucast_byte del: push_bit_numeral)

lemma four_bytes:
  "unat (ucast a OR push_bit 8 (ucast b) OR push_bit 16 (ucast c) OR push_bit 24 (ucast d) :: u32)
    = le_num [a, b, c, d]"
  using or_bytes_num [of "ucast a :: u32" "[a]" "[b, c, d]"]
  by (simp add: unat_ucast_byte)

lemma eight_bytes:
  "unat (ucast a OR push_bit 8 (ucast b) OR push_bit 16 (ucast c) OR push_bit 24 (ucast d) OR
     push_bit 32 (ucast e) OR push_bit 40 (ucast f) OR push_bit 48 (ucast g) OR push_bit 56 (ucast h) :: u64)
    = le_num [a, b, c, d, e, f, g, h]"
  using or_bytes_num [of "ucast a :: u64" "[a]" "[b, c, d, e, f, g, h]"]
  by (simp add: unat_ucast_byte)

lemma unat_up: "unat (ucast (x :: u32) :: u64) = unat x"
proof -
  have "unat x < 2 ^ 64" using unsigned_less [of x, where ?'a = nat] by simp
  then show ?thesis by (simp add: unsigned_ucast_eq take_bit_nat_eq_self)
qed

lemma ReadTwoBytes_num:
  assumes "p + 2 \<le> length mem"
  shows "\<exists>v. ReadTwoBytes R mem p = Inr v \<and> unat v = le_num (byte_order R (take 2 (drop p mem)))"
proof -
  obtain bs where bs: "fetch mem p 2 = Inr bs" "length bs = 2" "bs = take 2 (drop p mem)"
    using assms by (simp add: fetch_def)
  obtain a b where ab: "bs = [a, b]" using bs(2) by (auto simp: length_Suc_conv numeral_eq_Suc)
  show ?thesis
    unfolding ReadTwoBytes_def bs(1) bs(3) [symmetric]
    by (auto simp: ab byte_order_def two_bytes Let_def)
qed

lemma ReadFourBytes_num:
  assumes "p + 4 \<le> length mem"
  shows "\<exists>v. ReadFourBytes R mem p = Inr v \<and> unat v = le_num (byte_order R (take 4 (drop p mem)))"
proof -
  obtain bs where bs: "fetch mem p 4 = Inr bs" "length bs = 4" "bs = take 4 (drop p mem)"
    using assms by (simp add: fetch_def)
  obtain a b c d where ab: "bs = [a, b, c, d]"
    using bs(2) by (auto simp: length_Suc_conv numeral_eq_Suc)
  show ?thesis
    unfolding ReadFourBytes_def bs(1) bs(3) [symmetric]
    using four_bytes [of a b c d] four_bytes [of d c b a]
    by (auto simp: ab byte_order_def Let_def unat_up)
qed

lemma ReadEightBytes_num:
  assumes "p + 8 \<le> length mem"
  shows "\<exists>v. ReadEightBytes R mem p = Inr v \<and> unat v = le_num (byte_order R (take 8 (drop p mem)))"
proof -
  obtain bs where bs: "fetch mem p 8 = Inr bs" "length bs = 8" "bs = take 8 (drop p mem)"
    using assms by (simp add: fetch_def)
  obtain a b c d e f g h where ab: "bs = [a, b, c, d, e, f, g, h]"
    using bs(2) by (auto simp: length_Suc_conv numeral_eq_Suc)
  show ?thesis
    unfolding ReadEightBytes_def bs(1) bs(3) [symmetric]
    using eight_bytes [of a b c d e f g h] eight_bytes [of h g f e d c b a]
    by (auto simp: ab byte_order_def Let_def)
qed

section \<open>Writing LEB128 numbers\<close>

function uleb :: "nat \<Rightarrow> byte list" where
  "uleb n = (if n < 128 then [of_nat n] else of_nat (128 + n mod 128) # uleb (n div 128))"
  by auto
termination by (relation "measure id") auto

function sleb :: "int \<Rightarrow> byte list" where
  "sleb i = (if - 64 \<le> i \<and> i < 64 then [of_int (i mod 128)]
    else of_int (128 + i mod 128) # sleb (i div 128))"
  by auto
termination by (relation "measure (\<lambda>i. nat (if 0 \<le> i then i else - 1 - i))") auto

declare uleb.simps [simp del] sleb.simps [simp del] leb128_loop.simps [simp del]

text \<open>A byte of the encoding: seven bits of the number, and whether another byte follows\<close>

lemma low_7: "unat (c AND 0x7f :: byte) = unat c mod 128"
proof -
  have "c AND 0x7f = take_bit 7 c" by (simp add: take_bit_eq_mask mask_eq_exp_minus_1)
  then show ?thesis by (simp only: unsigned_take_bit_eq) (simp add: take_bit_eq_mod)
qed

lemma and_bit: "n < 8 \<Longrightarrow> c AND 2 ^ n \<noteq> 0 \<longleftrightarrow> odd (unat (c :: byte) div 2 ^ n)"
proof -
  assume n: "n < 8"
  have "c AND 2 ^ n \<noteq> 0 \<longleftrightarrow> bit c n" by (simp add: and_exp_eq_0_iff_not_bit)
  also have "\<dots> \<longleftrightarrow> bit (unat c) n" using n by (simp add: bit_unsigned_iff)
  finally show ?thesis by (simp only: bit_iff_odd)
qed

lemma high_bit: "c AND 0x80 \<noteq> 0 \<longleftrightarrow> 128 \<le> unat (c :: byte)"
proof -
  have "unat c div 128 < 2" using unat_byte_less [of c] by linarith
  then have "odd (unat c div 128) \<longleftrightarrow> 128 \<le> unat c" by (cases "unat c div 128") auto
  then show ?thesis using and_bit [of 7 c] by simp
qed

lemma sign_bit: "c AND 0x40 \<noteq> 0 \<longleftrightarrow> 64 \<le> unat (c :: byte) mod 128"
proof -
  have "odd (n div 64) \<longleftrightarrow> 64 \<le> n mod 128" for n :: nat
  proof -
    have "n mod 128 = 64 * (n div 64 mod 2) + n mod 64" using mod_mult2_eq [of n 64 2] by simp
    moreover have "n mod 64 < 64" by simp
    ultimately show ?thesis by (cases "odd (n div 64)") (auto simp: odd_iff_mod_2_eq_one)
  qed
  then show ?thesis using and_bit [of 6 c] by simp
qed

text \<open>One byte read by the loop\<close>

lemma leb128_step:
  assumes "p < length mem" "shift < 64" "unat result < 2 ^ shift"
  shows "leb128_loop mem p result shift k =
    (let r = result + push_bit shift (of_nat (unat (mem ! p) mod 128)) in
     if 128 \<le> unat (mem ! p) then leb128_loop mem (p + 1) r (shift + 7) (k + 1)
     else Inr (r, shift + 7, k + 1, mem ! p))"
proof -
  have "(ucast (mem ! p AND 0x7f) :: u64) = of_nat (unat (mem ! p) mod 128)"
    by (metis low_7 of_nat_unat)
  then show ?thesis
    using assms or_push [OF assms(3)] high_bit [of "mem ! p"]
    by (subst leb128_loop.simps) (simp add: Let_def del: push_bit_of_nat)
qed

lemma leb128_next_small:
  assumes "unat result < 2 ^ shift" "v < 128" "shift < 64"
  shows "unat (result + push_bit shift (of_nat v) :: u64) < 2 ^ (shift + 7)"
proof -
  have "unat (push_bit shift (of_nat v) :: u64) \<le> v * 2 ^ shift"
    unfolding unsigned_push_bit_eq
    by (metis take_bit_nat_less_eq_self push_bit_eq_mult unat_of_nat take_bit_eq_mod mod_less_eq_dividend mult_le_mono1 order_trans)
  moreover have "v * 2 ^ shift \<le> 127 * 2 ^ shift" using assms(2) by (intro mult_le_mono1) simp
  ultimately have "unat result + unat (push_bit shift (of_nat v) :: u64) < 2 ^ shift + 127 * 2 ^ shift"
    using assms(1) by linarith
  moreover have "unat (result + push_bit shift (of_nat v) :: u64) \<le> unat result + unat (push_bit shift (of_nat v) :: u64)"
    by (simp add: unat_word_ariths)
  ultimately show ?thesis by (simp add: power_add)
qed

lemma uleb_read:
  assumes "at mem p (uleb n)" "shift < 64" "n * 2 ^ shift < 2 ^ 64" "unat result < 2 ^ shift"
  shows "\<exists>s b. leb128_loop mem p result shift k
    = Inr (result + of_nat (n * 2 ^ shift), s, k + length (uleb n), b)"
  using assms
proof (induction n arbitrary: p shift result k rule: uleb.induct)
  case (1 n)
  show ?case
  proof (cases "n < 128")
    case True
    then have "p < length mem" "mem ! p = of_nat n"
      using "1.prems"(1) by (simp_all add: uleb.simps [of n] at_Cons)
    moreover have "unat (of_nat n :: byte) = n" using True by (simp add: unat_of_nat)
    ultimately show ?thesis
      using True leb128_step [OF _ "1.prems"(2,4), of p mem k]
      by (simp add: uleb.simps [of n] push_bit_eq_mult)
  next
    case False
    let ?r = "result + push_bit shift (of_nat (n mod 128))"
    have p: "p < length mem" "mem ! p = of_nat (128 + n mod 128)" "at mem (p + 1) (uleb (n div 128))"
      using "1.prems"(1) False by (simp_all add: uleb.simps [of n] at_Cons)
    have b: "unat (of_nat (128 + n mod 128) :: byte) = 128 + n mod 128"
      by (simp only: unat_of_nat) simp
    have "128 * 2 ^ shift \<le> n * 2 ^ shift" using False by (intro mult_le_mono1) simp
    then have "128 * 2 ^ shift < (2 :: nat) ^ 64" using "1.prems"(3) by (rule le_less_trans)
    then have "2 ^ (shift + 7) < (2 :: nat) ^ 64" by (simp only: power_add) simp
    then have shift: "shift + 7 < 64" by (rule power_less_imp_less_exp [rotated]) simp
    have "n div 128 * 2 ^ (shift + 7) = n div 128 * 128 * 2 ^ shift" by (simp add: power_add)
    also have "\<dots> \<le> n * 2 ^ shift" by (intro mult_le_mono1) simp
    also note "1.prems"(3)
    finally have small: "n div 128 * 2 ^ (shift + 7) < 2 ^ 64" .
    have m: "n mod 128 < 128" by simp
    from "1.IH" [OF False p(3) shift small leb128_next_small [OF "1.prems"(4) m "1.prems"(2)], of "k + 1"]
    obtain s b where ih: "leb128_loop mem (p + 1) ?r (shift + 7) (k + 1)
      = Inr (?r + of_nat (n div 128 * 2 ^ (shift + 7)), s, k + 1 + length (uleb (n div 128)), b)"
      by blast
    have "n mod 128 * 2 ^ shift + n div 128 * 2 ^ (shift + 7) = (n mod 128 + n div 128 * 128) * 2 ^ shift"
      by (simp only: power_add distrib_right) simp
    then have sum: "n * 2 ^ shift = n mod 128 * 2 ^ shift + n div 128 * 2 ^ (shift + 7)"
      by (simp only: mod_div_mult_eq)
    have "push_bit shift (of_nat (n mod 128)) + of_nat (n div 128 * 2 ^ (shift + 7))
      = (of_nat (n * 2 ^ shift) :: u64)"
      unfolding sum of_nat_add by (simp add: push_bit_eq_mult)
    then show ?thesis
      using leb128_step [OF p(1) "1.prems"(2,4), of k] False p(2) b ih
      by (simp add: uleb.simps [of n] Let_def add.assoc)
  qed
qed

lemma or_minus: "unat (r :: u64) < 2 ^ s \<Longrightarrow> r OR - push_bit s 1 = r - 2 ^ s"
  using or_push [of r s "- 1"] by (simp add: push_bit_eq_mult)

lemma sleb_read:
  assumes "at mem p (sleb i)" "shift < 64" "- (2 ^ 63) \<le> i * 2 ^ shift" "i * 2 ^ shift < 2 ^ 63"
    "unat result < 2 ^ shift"
  shows "\<exists>r s b. leb128_loop mem p result shift k = Inr (r, s, k + length (sleb i), b)
    \<and> (if s < 64 \<and> b AND 0x40 \<noteq> 0 then r OR - push_bit s 1 else r) = result + of_int (i * 2 ^ shift)"
  using assms
proof (induction i arbitrary: p shift result k rule: sleb.induct)
  case (1 i)
  define v where "v = nat (i mod 128)"
  have v: "v < 128" "int v = i mod 128" by (simp_all add: v_def nat_less_iff)
  let ?r = "result + push_bit shift (of_nat v)"
  have r: "?r = result + of_int (i mod 128 * 2 ^ shift)"
    using v(2) by (metis of_int_mult of_int_of_nat_eq of_int_power of_int_numeral push_bit_eq_mult)
  note small = leb128_next_small [OF "1.prems"(5) v(1) "1.prems"(2)]
  show ?case
  proof (cases "- 64 \<le> i \<and> i < 64")
    case True
    then have p: "p < length mem" "mem ! p = of_int (i mod 128)"
      using "1.prems"(1) by (simp_all add: sleb.simps [of i] at_Cons)
    have b: "unat (mem ! p) = v"
      unfolding p(2) v(2) [symmetric] using v(1) by (simp add: unat_of_nat)
    have step: "leb128_loop mem p result shift k = Inr (?r, shift + 7, k + length (sleb i), mem ! p)"
      using True leb128_step [OF p(1) "1.prems"(2,5), of k] b v(1) by (simp add: sleb.simps [of i])
    have "64 \<le> v \<longleftrightarrow> i < 0"
    proof (cases "i < 0")
      case neg: True
      then have "(i + 128) mod 128 = i + 128" using True by (intro mod_pos_pos_trivial) auto
      then have "int v = i + 128" using v(2) by simp
      then show ?thesis using neg True by linarith
    next
      case False
      then have "int v = i" using True v(2) by simp
      then show ?thesis using False True by linarith
    qed
    then have sign: "mem ! p AND 0x40 \<noteq> 0 \<longleftrightarrow> i < 0" unfolding sign_bit b using v(1) by simp
    have "(if shift + 7 < 64 \<and> mem ! p AND 0x40 \<noteq> 0 then ?r OR - push_bit (shift + 7) 1 else ?r)
      = result + of_int (i * 2 ^ shift)"
    proof (cases "i < 0")
      case False
      then have "i mod 128 = i" using True by simp
      with False show ?thesis using sign r by simp
    next
      case neg: True
      then have "(i + 128) mod 128 = i + 128" using True by (intro mod_pos_pos_trivial) auto
      then have m: "i mod 128 = i + 128" by simp
      have r': "?r = result + of_int (i * 2 ^ shift) + 2 ^ (shift + 7)"
        unfolding r m by (simp add: algebra_simps power_add)
      show ?thesis
      proof (cases "shift + 7 < 64")
        case True
        then show ?thesis using sign neg or_minus [OF small] r' by (simp add: add.assoc)
      next
        case False
        then have "(2 :: u64) ^ (shift + 7) = 0" by (simp add: exp_eq_zero_iff)
        then show ?thesis using False r' by simp
      qed
    qed
    with step show ?thesis by blast
  next
    case False
    have p: "p < length mem" "mem ! p = of_int (128 + i mod 128)" "at mem (p + 1) (sleb (i div 128))"
      using "1.prems"(1) False by (simp_all add: sleb.simps [of i] at_Cons)
    have "mem ! p = of_nat (128 + v)" unfolding p(2) v(2) [symmetric] by simp
    then have b: "unat (mem ! p) = 128 + v" using v(1) by (simp only: unat_of_nat) simp
    have "64 * 2 ^ shift < (2 :: int) ^ 63"
    proof (cases "64 \<le> i")
      case True
      then have "64 * 2 ^ shift \<le> i * 2 ^ shift" by (intro mult_right_mono) simp_all
      then show ?thesis using "1.prems"(4) by (rule le_less_trans)
    next
      case neg: False
      then have "i * 2 ^ shift \<le> - 65 * 2 ^ shift" using False by (intro mult_right_mono) simp_all
      then have "65 * 2 ^ shift \<le> (2 :: int) ^ 63" using "1.prems"(3) by linarith
      moreover have "0 < (2 :: int) ^ shift" by simp
      ultimately show ?thesis by linarith
    qed
    then have "2 ^ (shift + 6) < (2 :: int) ^ 63" by (simp only: power_add) simp
    then have "shift + 6 < 63" by (rule power_less_imp_less_exp [rotated]) simp
    then have shift: "shift + 7 < 64" by simp
    define M :: int where "M = 2 ^ (56 - shift)"
    have "56 - shift + (shift + 7) = 63" using shift by simp
    then have M: "(2 :: int) ^ 63 = M * 2 ^ (shift + 7)"
      unfolding M_def power_add [symmetric] by simp
    have P: "i div 128 * 2 ^ (shift + 7) = i div 128 * 128 * 2 ^ shift" by (simp add: power_add)
    have "M * 2 ^ (shift + 7) = M * 128 * 2 ^ shift" by (simp add: power_add)
    then have "- (M * 128) * 2 ^ shift = - ((2 :: int) ^ 63)"
      unfolding M by (simp only: minus_mult_left)
    then have "- (M * 128) * 2 ^ shift \<le> i * 2 ^ shift" using "1.prems"(3) by (simp only:)
    then have "- (M * 128) \<le> i" by (rule mult_right_le_imp_le) simp
    then have "- M \<le> i div 128" by linarith
    then have "- M * 2 ^ (shift + 7) \<le> i div 128 * 2 ^ (shift + 7)" by (intro mult_right_mono) simp_all
    then have lo: "- (2 ^ 63) \<le> i div 128 * 2 ^ (shift + 7)" using M by simp
    have "i div 128 * 128 * 2 ^ shift \<le> i * 2 ^ shift" by (intro mult_right_mono) simp_all
    then have hi: "i div 128 * 2 ^ (shift + 7) < 2 ^ 63"
      unfolding P using "1.prems"(4) by (rule le_less_trans)
    from "1.IH" [OF False p(3) shift lo hi small, of "k + 1"] obtain r s b where ih:
      "leb128_loop mem (p + 1) ?r (shift + 7) (k + 1) = Inr (r, s, k + 1 + length (sleb (i div 128)), b)"
      "(if s < 64 \<and> b AND 0x40 \<noteq> 0 then r OR - push_bit s 1 else r)
        = ?r + of_int (i div 128 * 2 ^ (shift + 7))"
      by blast
    have "i * 2 ^ shift = (i mod 128 + i div 128 * 128) * 2 ^ shift" by (simp only: mod_div_mult_eq)
    also have "\<dots> = i mod 128 * 2 ^ shift + i div 128 * 2 ^ (shift + 7)"
      unfolding P by (rule distrib_right)
    finally have "of_int (i * 2 ^ shift)
      = (of_int (i mod 128 * 2 ^ shift) + of_int (i div 128 * 2 ^ (shift + 7)) :: u64)"
      by (simp only: of_int_add)
    then have "?r + of_int (i div 128 * 2 ^ (shift + 7)) = result + of_int (i * 2 ^ shift)"
      unfolding r by simp
    moreover have "leb128_loop mem p result shift k = Inr (r, s, k + length (sleb i), b)"
      using leb128_step [OF p(1) "1.prems"(2,5), of k] False b ih(1) v(1)
      by (auto simp: sleb.simps [of i] Let_def)
    ultimately show ?thesis using ih(2) by metis
  qed
qed

section \<open>Contracts\<close>

text \<open>
  The numbers of fixed size: the bytes at the pointer, in the reader's byte order, are the value,
  and a read that would leave the memory is the only fault.
\<close>
theorem byte_reader_endian:
  "(if p + 2 \<le> length mem
     then \<exists>v. ReadTwoBytes R mem p = Inr v \<and> unat v = le_num (byte_order R (take 2 (drop p mem)))
     else ReadTwoBytes R mem p = Inl OutOfMemory)
   \<and> (if p + 4 \<le> length mem
     then \<exists>v. ReadFourBytes R mem p = Inr v \<and> unat v = le_num (byte_order R (take 4 (drop p mem)))
     else ReadFourBytes R mem p = Inl OutOfMemory)
   \<and> (if p + 8 \<le> length mem
     then \<exists>v. ReadEightBytes R mem p = Inr v \<and> unat v = le_num (byte_order R (take 8 (drop p mem)))
     else ReadEightBytes R mem p = Inl OutOfMemory)"
  using ReadTwoBytes_num [of p mem R] ReadFourBytes_num [of p mem R] ReadEightBytes_num [of p mem R]
  by (simp add: ReadTwoBytes_def ReadFourBytes_def ReadEightBytes_def fetch_def)

lemma div_128_bounds: "- (2 ^ n) \<le> i div 128 \<and> i div 128 < 2 ^ n \<longleftrightarrow> - (2 ^ (n + 7)) \<le> i \<and> i < (2 ^ (n + 7) :: int)"
  by (simp add: power_add) linarith

lemma length_sleb_le: "length (sleb i) \<le> Suc k \<longleftrightarrow> - (2 ^ (7 * k + 6)) \<le> i \<and> i < 2 ^ (7 * k + 6)"
proof (induction k arbitrary: i)
  case 0
  have "sleb j \<noteq> []" for j by (subst sleb.simps) simp
  then show ?case by (subst sleb.simps) simp
next
  case (Suc k)
  define n where "n = 7 * k + 6"
  have "(2 :: int) ^ 6 \<le> 2 ^ (n + 7)" by (intro power_increasing) simp_all
  then have small: "- (2 ^ (n + 7)) \<le> i \<and> i < 2 ^ (n + 7)" if "- 64 \<le> i \<and> i < 64"
    using that by simp
  have n: "7 * Suc k + 6 = n + 7" by (simp add: n_def)
  have "length (sleb i) = (if - 64 \<le> i \<and> i < 64 then 1 else Suc (length (sleb (i div 128))))"
    by (subst sleb.simps) simp
  then show ?case
    unfolding n using small Suc.IH [of "i div 128", folded n_def] div_128_bounds [of n i] by auto
qed

text \<open>The numbers whose sign is extended from bit 63\<close>

lemma sleb_nine_bytes: "length (sleb i) = 9 \<and> i < 0 \<longleftrightarrow> - (2 ^ 62) \<le> i \<and> i < - (2 ^ 55)"
  using length_sleb_le [of i 8] length_sleb_le [of i 7] by auto

text \<open>
  C39. LEB128: every unsigned and every signed 64-bit number is read back from its shortest encoding,
  wherever it stands, with the length of the encoding and without a fault.  (For the signed numbers from
  \<open>- (2 ^ 62)\<close> to \<open>- (2 ^ 55) - 1\<close>, whose encoding has nine bytes, the sign extension of the code is a signed
  overflow, taken to wrap around.)
\<close>
theorem leb128_roundtrip:
  assumes "n < 2 ^ 64" "- (2 ^ 63) \<le> i" "i < 2 ^ 63"
  shows "ReadUnsignedLEB128 (mem @ uleb n @ rest) (length mem) = Inr (of_nat n, length (uleb n))
    \<and> ReadSignedLEB128 (mem @ sleb i @ rest) (length mem) = Inr (of_int i, length (sleb i))"
proof
  show "ReadUnsignedLEB128 (mem @ uleb n @ rest) (length mem) = Inr (of_nat n, length (uleb n))"
    using uleb_read [OF at_self [of mem "uleb n" rest], of 0 0 0] assms(1)
    by (auto simp: ReadUnsignedLEB128_def)
  obtain r s b where "leb128_loop (mem @ sleb i @ rest) (length mem) 0 0 0 = Inr (r, s, length (sleb i), b)"
    "(if s < 64 \<and> b AND 0x40 \<noteq> 0 then r OR - push_bit s 1 else r) = of_int i"
    using sleb_read [OF at_self [of mem "sleb i" rest], of 0 0 0] assms(2,3) by auto
  then show "ReadSignedLEB128 (mem @ sleb i @ rest) (length mem) = Inr (of_int i, length (sleb i))"
    by (simp add: ReadSignedLEB128_def Let_def)
qed

lemma leb128_roundtrip_witness:
  "ReadUnsignedLEB128 ([1] @ uleb 624485 @ [2]) (length [1 :: byte])
      = Inr (of_nat 624485, length (uleb 624485))
    \<and> ReadSignedLEB128 ([1] @ sleb (- 123456) @ [2]) (length [1 :: byte])
      = Inr (of_int (- 123456), length (sleb (- 123456)))"
  by (rule leb128_roundtrip) simp_all

text \<open>A reader whose sizes have been set\<close>

definition reader_set :: "ByteReader \<Rightarrow> bool" where
  "reader_set R \<longleftrightarrow> address_size R = 4 \<and> address_reader R = Some FourBytes
     \<or> address_size R = 8 \<and> address_reader R = Some EightBytes"

lemma SetAddressSize_set: "SetAddressSize s R = Inr R' \<Longrightarrow> reader_set R'"
  by (auto simp: SetAddressSize_def assert_read_def reader_set_def split: if_splits)

lemma mask_mod: "unat (e AND 0x0f :: byte) = unat e mod 16" "unat (e AND 0x7 :: byte) = unat e mod 8"
proof -
  have "e AND 0x0f = take_bit 4 e" "e AND 0x7 = take_bit 3 e"
    by (simp_all add: take_bit_eq_mask mask_eq_exp_minus_1)
  then show "unat (e AND 0x0f :: byte) = unat e mod 16" "unat (e AND 0x7 :: byte) = unat e mod 8"
    by (simp_all only: unsigned_take_bit_eq) (simp_all add: take_bit_eq_mod)
qed

lemma format_cases:
  assumes "\<not> e AND 0x7 > (0x04 :: byte)"
  shows "e AND 0x0f \<in> {0x00, 0x01, 0x02, 0x03, 0x04, 0x08, 0x09, 0x0A, 0x0B, 0x0C}"
proof -
  define n where "n = unat (e AND 0x0f)"
  have "unat e mod 8 \<le> 4" using assms by (simp add: not_less word_le_nat_alt mask_mod)
  moreover have "unat e mod 8 = n mod 8" "n < 16" by (simp_all add: n_def mask_mod mod_mod_cancel)
  moreover have "\<forall>n\<in>set [0..<16]. n mod 8 \<le> 4 \<longrightarrow> n \<in> {0, 1, 2, 3, 4, 8, 9, 10, 11, 12 :: nat}"
    by code_simp
  ultimately have "n \<in> {0, 1, 2, 3, 4, 8, 9, 10, 11, 12}" by simp
  moreover have "e AND 0x0f = of_nat n" by (simp add: n_def)
  ultimately show ?thesis by auto
qed

text \<open>A read that only the data can make fail\<close>

definition data_fault :: "'a read_result \<Rightarrow> bool" where
  "data_fault r \<longleftrightarrow> r \<noteq> Inl AssertionFails \<and> r \<noteq> Inl Aborts"

lemma data_fault_Inr [simp]: "data_fault (Inr x)" "data_fault (Inl OutOfMemory)"
    "data_fault (Inl UndefinedShift)"
  by (simp_all add: data_fault_def)

lemma data_fault_then: "data_fault r \<Longrightarrow> (\<And>x. r = Inr x \<Longrightarrow> data_fault (k x)) \<Longrightarrow> data_fault (then_read r k)"
  by (cases r) (auto simp: data_fault_def)

lemma data_fault_fetch: "data_fault (fetch mem p n)"
  by (simp add: fetch_def)

lemma data_fault_fixed:
  "data_fault (ReadTwoBytes R mem p)" "data_fault (ReadFourBytes R mem p)"
  "data_fault (ReadEightBytes R mem p)"
  unfolding ReadTwoBytes_def ReadFourBytes_def ReadEightBytes_def
  by (auto intro!: data_fault_then data_fault_fetch simp: Let_def)

lemma data_fault_address: "reader_set R \<Longrightarrow> data_fault (ReadAddress R mem p)"
  by (auto simp: reader_set_def ReadAddress_def ReadWith_def data_fault_fixed)

lemma data_fault_leb128_loop: "data_fault (leb128_loop mem p result shift k)"
proof (induction mem p result shift k rule: leb128_loop.induct)
  case (1 mem p result shift k)
  then show ?case by (subst leb128_loop.simps) (simp add: Let_def)
qed

lemma data_fault_leb128: "data_fault (ReadUnsignedLEB128 mem p)" "data_fault (ReadSignedLEB128 mem p)"
  unfolding ReadUnsignedLEB128_def ReadSignedLEB128_def
  by (auto intro!: data_fault_then data_fault_leb128_loop simp: Let_def)

lemma read_format_fault:
  assumes "\<not> encoding AND 0x7 > 0x04" "reader_set R"
  shows "if encoding AND 0x0f = 0x08 then read_format R mem p encoding = Inl Aborts
    else data_fault (read_format R mem p encoding)"
  using format_cases [OF assms(1)]
  by (auto simp: read_format_def Let_def data_fault_leb128
      intro!: data_fault_then data_fault_fixed data_fault_address [OF assms(2)])

lemma pointer_base_usable:
  "UsableEncoding R encoding \<Longrightarrow> \<exists>b. pointer_base R p encoding = Inr b"
  by (auto simp: UsableEncoding_def pointer_base_def assert_read_def Let_def split: if_splits)

lemma encoded_pointer_cases:
  assumes "ValidEncoding encoding" "UsableEncoding R encoding" "reader_set R"
  shows "if encoding AND 0x0f = 0x08 then ReadEncodedPointer R mem p encoding = Inl Aborts
    else data_fault (ReadEncodedPointer R mem p encoding)"
proof -
  have ne: "encoding \<noteq> 0xff" "encoding \<noteq> 0x50" using assms(2) by (auto simp: UsableEncoding_def Let_def)
  then have low: "\<not> encoding AND 0x7 > 0x04" using assms(1) by (auto simp: ValidEncoding_def split: if_splits)
  obtain b where b: "pointer_base R p encoding = Inr b" using pointer_base_usable [OF assms(2)] by blast
  have size: "address_size R = 4 \<or> address_size R = 8" using assms(3) by (auto simp: reader_set_def)
  show ?thesis
  proof (cases "encoding AND 0x0f = 0x08")
    case True
    then show ?thesis
      using read_format_fault [OF low assms(3), of mem p] ne
      by (simp add: ReadEncodedPointer_def assert_read_def)
  next
    case False
    then have "data_fault (read_format R mem p encoding)"
      using read_format_fault [OF low assms(3), of mem p] by simp
    then show ?thesis
      using False ne size
      by (auto simp: ReadEncodedPointer_def assert_read_def b Let_def intro!: data_fault_then)
  qed
qed

text \<open>
  \<open>ReadEncodedPointer\<close>, for encodings that \<open>ValidEncoding\<close> and \<open>UsableEncoding\<close> approve of and a
  reader whose address size has been set: no assertion fails; but \<open>abort\<close> is called for every
  approved encoding with the low nybble 8, such as 0x08, because \<open>ValidEncoding\<close> looks at three of
  its bits only.
\<close>
lemma encoded_pointer_faults:
  assumes "ValidEncoding encoding" "UsableEncoding R encoding" "reader_set R"
  shows "ReadEncodedPointer R mem buffer encoding \<noteq> Inl AssertionFails
    \<and> (ReadEncodedPointer R mem buffer encoding = Inl Aborts \<longleftrightarrow> encoding AND 0x0f = 0x08)
    \<and> ValidEncoding 0x08 \<and> UsableEncoding R 0x08"
  using encoded_pointer_cases [OF assms, of mem buffer]
  by (cases "encoding AND 0x0f = 0x08") (auto simp: data_fault_def ValidEncoding_def UsableEncoding_def)

definition reader_32 :: ByteReader where
  "reader_32 = \<lparr>offset_reader = None, address_reader = Some FourBytes, endian = ENDIANNESS_LITTLE,
     address_size = 4, offset_size = 0, have_section_base = True, have_text_base = False,
     have_data_base = False, have_function_base = False, section_base = 0x1000, text_base = 0,
     data_base = 0, function_base = 0, buffer_base = 0\<rparr>"

text \<open>\<open>ReadInitialLength\<close> sets the offset size that belongs to the format of the length.\<close>

lemma ReadInitialLength_format:
  assumes "ReadInitialLength mem p R = Inr (l, k, R')"
  shows "(k = 4 \<and> offset_size R' = 4 \<and> l \<noteq> 0xffffffff \<and> ReadFourBytes R mem p = Inr l)
    \<or> (k = 12 \<and> offset_size R' = 8 \<and> ReadFourBytes R mem p = Inr 0xffffffff
        \<and> ReadEightBytes R' mem (p + 4) = Inr l)"
  using assms
  by (auto simp: ReadInitialLength_def then_read_def SetOffsetSize_def assert_read_def ReadOffset_def
      ReadWith_def Let_def split: sum.splits if_splits)

end
