(* ===== verification/Postfix_Evaluator.thy ===== *)
theory Postfix_Evaluator
  imports Main "HOL-Library.Word"
begin

unbundle bit_operations_syntax

text \<open>
  \<open>src/app/breakpad/src/processor/postfix_evaluator.h\<close> and \<open>postfix_evaluator-inl.h\<close>: the evaluator
  of the postfix programs with which debugging information describes how registers are recovered.
  The template's \<open>ValueType\<close>, an unsigned integer, is a word of any length.

  The stack holds strings, values in decimal, and is kept with its top in front.  Extracting a number
  from a string stream is a parameter \<open>xt\<close>: the number and the rest of the stream, \<open>None\<close> if the
  extraction fails.  The memory is a partial function, \<open>None\<close> where there is none.  \<open>Trap\<close> is the
  end of the process: a division by zero, or a null pointer dereferenced.
\<close>

section \<open>The evaluator\<close>

type_synonym 'n extractor = "string \<Rightarrow> ('n word \<times> string) option"

type_synonym 'n dictionary = "string \<rightharpoonup> 'n word"

datatype 'v pop_result = POP_RESULT_FAIL | POP_RESULT_VALUE 'v | POP_RESULT_IDENTIFIER string | POP_TRAP

text \<open>\<open>want\<close> says whether the pointer \<open>value\<close> is not null.\<close>

definition PopValueOrIdentifier ::
  "'n::len extractor \<Rightarrow> bool \<Rightarrow> string list \<Rightarrow> 'n word pop_result \<times> string list"
where
  "PopValueOrIdentifier xt want stack =
     (case stack of
        [] \<Rightarrow> (POP_RESULT_FAIL, [])
      | token # stack' \<Rightarrow>
          let negative = (token \<noteq> [] \<and> hd token = CHR ''-'');
              token_stream = (if negative then tl token else token) in
          (case xt token_stream of
             Some (literal, []) \<Rightarrow>
               ((if negative then if want then POP_RESULT_VALUE (- literal) else POP_TRAP
                 else POP_RESULT_VALUE literal), stack')
           | _ \<Rightarrow> (POP_RESULT_IDENTIFIER token, stack')))"

definition PopValue :: "'n::len extractor \<Rightarrow> 'n dictionary \<Rightarrow> string list \<Rightarrow> 'n word option \<times> string list" where
  "PopValue xt dict stack =
     (case PopValueOrIdentifier xt True stack of
        (POP_RESULT_VALUE literal, stack') \<Rightarrow> (Some literal, stack')
      | (POP_RESULT_IDENTIFIER token, stack') \<Rightarrow> (dict token, stack')
      | (_, stack') \<Rightarrow> (None, stack'))"

definition PopValues ::
  "'n::len extractor \<Rightarrow> 'n dictionary \<Rightarrow> string list \<Rightarrow> ('n word \<times> 'n word) option \<times> string list"
where
  "PopValues xt dict stack =
     (case PopValue xt dict stack of
        (None, stack') \<Rightarrow> (None, stack')
      | (Some value2, stack') \<Rightarrow>
          (case PopValue xt dict stack' of
             (None, stack'') \<Rightarrow> (None, stack'')
           | (Some value1, stack'') \<Rightarrow> (Some (value1, value2), stack'')))"

text \<open>The decimal representation of a number\<close>

fun dec_string :: "nat \<Rightarrow> string" where
  "dec_string n = (if n < 10 then [char_of (48 + n)] else dec_string (n div 10) @ [char_of (48 + n mod 10)])"

declare dec_string.simps [simp del]

definition PushValue :: "'n::len word \<Rightarrow> string list \<Rightarrow> string list" where
  "PushValue value stack = dec_string (unat value) # stack"

datatype BinaryOperation = BINARY_OP_ADD | BINARY_OP_SUBTRACT | BINARY_OP_MULTIPLY
  | BINARY_OP_DIVIDE_QUOTIENT | BINARY_OP_DIVIDE_MODULUS | BINARY_OP_ALIGN

definition operation_of :: "string \<Rightarrow> BinaryOperation option" where
  "operation_of token =
     (if token = ''+'' then Some BINARY_OP_ADD
      else if token = ''-'' then Some BINARY_OP_SUBTRACT
      else if token = ''*'' then Some BINARY_OP_MULTIPLY
      else if token = ''/'' then Some BINARY_OP_DIVIDE_QUOTIENT
      else if token = ''%'' then Some BINARY_OP_DIVIDE_MODULUS
      else if token = ''@'' then Some BINARY_OP_ALIGN
      else None)"

text \<open>The result, or a trap\<close>

definition perform :: "BinaryOperation \<Rightarrow> 'n::len word \<Rightarrow> 'n word \<Rightarrow> 'n word option" where
  "perform operation operand1 operand2 =
     (case operation of
        BINARY_OP_ADD \<Rightarrow> Some (operand1 + operand2)
      | BINARY_OP_SUBTRACT \<Rightarrow> Some (operand1 - operand2)
      | BINARY_OP_MULTIPLY \<Rightarrow> Some (operand1 * operand2)
      | BINARY_OP_DIVIDE_QUOTIENT \<Rightarrow> if operand2 = 0 then None else Some (operand1 div operand2)
      | BINARY_OP_DIVIDE_MODULUS \<Rightarrow> if operand2 = 0 then None else Some (operand1 mod operand2)
      | BINARY_OP_ALIGN \<Rightarrow> Some (operand1 AND (- 1 XOR (operand2 - 1))))"

text \<open>The state: stack, dictionary, and the variables marked in \<open>assigned\<close>\<close>

type_synonym 'n eval_state = "string list \<times> 'n dictionary \<times> string set"

datatype 's evaluated = Returns bool 's | Trap

definition EvaluateToken ::
  "'n::len extractor \<Rightarrow> ('n word \<Rightarrow> 'n word option) option \<Rightarrow> string \<Rightarrow> 'n eval_state
    \<Rightarrow> 'n eval_state evaluated"
where
  "EvaluateToken xt memory token s =
     (let (stack, dict, assigned) = s in
      case operation_of token of
        Some operation \<Rightarrow>
          (case PopValues xt dict stack of
             (None, stack') \<Rightarrow> Returns False (stack', dict, assigned)
           | (Some (operand1, operand2), stack') \<Rightarrow>
               (case perform operation operand1 operand2 of
                  None \<Rightarrow> Trap
                | Some result \<Rightarrow> Returns True (PushValue result stack', dict, assigned)))
      | None \<Rightarrow>
          if token = ''^'' then
            case memory of
              None \<Rightarrow> Returns False s
            | Some mem \<Rightarrow>
                (case PopValue xt dict stack of
                   (None, stack') \<Rightarrow> Returns False (stack', dict, assigned)
                 | (Some address, stack') \<Rightarrow>
                     (case mem address of
                        None \<Rightarrow> Returns False (stack', dict, assigned)
                      | Some value \<Rightarrow> Returns True (PushValue value stack', dict, assigned)))
          else if token = ''='' then
            case PopValue xt dict stack of
              (None, stack') \<Rightarrow> Returns False (stack', dict, assigned)
            | (Some value, stack') \<Rightarrow>
                (case PopValueOrIdentifier xt False stack' of
                   (POP_TRAP, _) \<Rightarrow> Trap
                 | (POP_RESULT_IDENTIFIER identifier, stack'') \<Rightarrow>
                     if identifier = [] \<or> hd identifier \<noteq> CHR ''$''
                     then Returns False (stack'', dict, assigned)
                     else Returns True (stack'', dict(identifier \<mapsto> value), insert identifier assigned)
                 | (_, stack'') \<Rightarrow> Returns False (stack'', dict, assigned))
          else Returns True (token # stack, dict, assigned))"

text \<open>\<open>stream >> token\<close>: the words of a string\<close>

definition white :: "char \<Rightarrow> bool" where
  "white c \<longleftrightarrow> c \<in> {CHR '' '', CHR 0x09, CHR 0x0A, CHR 0x0B, CHR 0x0C, CHR 0x0D}"

function tokens :: "string \<Rightarrow> string list" where
  "tokens s =
     (let t = dropWhile white s in
      if t = [] then []
      else takeWhile (\<lambda>c. \<not> white c) t # tokens (dropWhile (\<lambda>c. \<not> white c) t))"
  by auto
termination
proof (relation "measure length", goal_cases)
  case (2 s t)
  then have "t \<noteq> []" "\<not> white (hd t)" using hd_dropWhile [of white s] by simp_all
  then obtain c u where "t = c # u" "\<not> white c" by (cases t) simp_all
  then have "length (dropWhile (\<lambda>c. \<not> white c) t) < length t"
    by (simp add: length_dropWhile_le le_imp_less_Suc)
  also have "\<dots> \<le> length s" using 2 by (simp add: length_dropWhile_le)
  finally show ?case by simp
qed simp

declare tokens.simps [simp del]

fun evaluate_tokens ::
  "'n::len extractor \<Rightarrow> ('n word \<Rightarrow> 'n word option) option \<Rightarrow> string list \<Rightarrow> 'n eval_state
    \<Rightarrow> 'n eval_state evaluated"
where
  "evaluate_tokens xt memory [] s = Returns True s"
| "evaluate_tokens xt memory (token # ts) s =
     (if length token > 1 \<and> hd token = CHR ''='' then
        case EvaluateToken xt memory ''='' s of
          Returns True s \<Rightarrow>
            (case EvaluateToken xt memory (tl token) s of
               Returns True s \<Rightarrow> evaluate_tokens xt memory ts s
             | r \<Rightarrow> r)
        | r \<Rightarrow> r
      else
        case EvaluateToken xt memory token s of
          Returns True s \<Rightarrow> evaluate_tokens xt memory ts s
        | r \<Rightarrow> r)"

definition EvaluateInternal ::
  "'n::len extractor \<Rightarrow> ('n word \<Rightarrow> 'n word option) option \<Rightarrow> string \<Rightarrow> 'n eval_state
    \<Rightarrow> 'n eval_state evaluated"
where
  "EvaluateInternal xt memory expression = evaluate_tokens xt memory (tokens expression)"

text \<open>Both entry points leave the stack empty; \<open>EvaluateForValue\<close> passes no \<open>assigned\<close>.\<close>

definition Evaluate ::
  "'n::len extractor \<Rightarrow> ('n word \<Rightarrow> 'n word option) option \<Rightarrow> string \<Rightarrow> 'n eval_state
    \<Rightarrow> 'n eval_state evaluated"
where
  "Evaluate xt memory expression s =
     (case EvaluateInternal xt memory expression s of
        Trap \<Rightarrow> Trap
      | Returns ok (stack, dict, assigned) \<Rightarrow> Returns (ok \<and> stack = []) ([], dict, assigned))"

definition EvaluateForValue ::
  "'n::len extractor \<Rightarrow> ('n word \<Rightarrow> 'n word option) option \<Rightarrow> string \<Rightarrow> 'n eval_state
    \<Rightarrow> ('n word option \<times> 'n eval_state) evaluated"
where
  "EvaluateForValue xt memory expression s =
     (let marked = snd (snd s) in
      case EvaluateInternal xt memory expression s of
        Trap \<Rightarrow> Trap
      | Returns ok (stack, dict, assigned) \<Rightarrow>
          if ok \<and> length stack = 1
          then let v = fst (PopValue xt dict stack) in Returns (v \<noteq> None) (v, [], dict, marked)
          else Returns False (None, [], dict, marked))"

section \<open>Expressions and programs\<close>

text \<open>
  What the postfix strings mean: expressions over values and variables, and programs, which are
  sequences of assignments.
\<close>

datatype 'v expr = Lit 'v | Var string | Bin BinaryOperation "'v expr" "'v expr" | Deref "'v expr"

primrec eval :: "('n::len word \<Rightarrow> 'n word option) option \<Rightarrow> 'n dictionary \<Rightarrow> 'n word expr \<Rightarrow> 'n word option" where
  "eval memory dict (Lit v) = Some v"
| "eval memory dict (Var x) = dict x"
| "eval memory dict (Bin operation a b) =
     Option.bind (eval memory dict a) (\<lambda>v. Option.bind (eval memory dict b) (perform operation v))"
| "eval memory dict (Deref a) = Option.bind memory (\<lambda>mem. Option.bind (eval memory dict a) mem)"

primrec run_program :: "('n::len word \<Rightarrow> 'n word option) option \<Rightarrow> (string \<times> 'n word expr) list
  \<Rightarrow> 'n dictionary \<Rightarrow> 'n dictionary option" where
  "run_program memory [] dict = Some dict"
| "run_program memory (a # p) dict =
     Option.bind (eval memory dict (snd a)) (\<lambda>v. run_program memory p (dict(fst a \<mapsto> v)))"

fun op_token :: "BinaryOperation \<Rightarrow> string" where
  "op_token BINARY_OP_ADD = ''+''"
| "op_token BINARY_OP_SUBTRACT = ''-''"
| "op_token BINARY_OP_MULTIPLY = ''*''"
| "op_token BINARY_OP_DIVIDE_QUOTIENT = ''/''"
| "op_token BINARY_OP_DIVIDE_MODULUS = ''%''"
| "op_token BINARY_OP_ALIGN = ''@''"

primrec postfix :: "'n::len word expr \<Rightarrow> string list" where
  "postfix (Lit v) = [dec_string (unat v)]"
| "postfix (Var x) = [x]"
| "postfix (Bin operation a b) = postfix a @ postfix b @ [op_token operation]"
| "postfix (Deref a) = postfix a @ [''^'']"

definition program_tokens :: "(string \<times> 'n::len word expr) list \<Rightarrow> string list" where
  "program_tokens p = concat (map (\<lambda>(x, e). x # postfix e @ [''='']) p)"

primrec unwords :: "string list \<Rightarrow> string" where
  "unwords [] = []"
| "unwords (t # ts) = t @ CHR '' '' # unwords ts"

text \<open>Variables: words that are neither operators nor begin like a number or an assignment\<close>

definition digit :: "char \<Rightarrow> bool" where
  "digit c \<longleftrightarrow> 48 \<le> (of_char c :: nat) \<and> (of_char c :: nat) \<le> 57"

definition var_ok :: "string \<Rightarrow> bool" where
  "var_ok x \<longleftrightarrow> x \<noteq> [] \<and> (\<forall>c\<in>set x. \<not> white c) \<and> \<not> digit (hd x) \<and> hd x \<notin> set ''+-=''
     \<and> operation_of x = None \<and> x \<noteq> ''^''"

primrec expr_ok :: "'v expr \<Rightarrow> bool" where
  "expr_ok (Lit v) = True"
| "expr_ok (Var x) = var_ok x"
| "expr_ok (Bin operation a b) = (expr_ok a \<and> expr_ok b)"
| "expr_ok (Deref a) = expr_ok a"

definition program_ok :: "(string \<times> 'v expr) list \<Rightarrow> bool" where
  "program_ok p \<longleftrightarrow> (\<forall>(x, e)\<in>set p. var_ok x \<and> hd x = CHR ''$'' \<and> expr_ok e)"

text \<open>
  The documented behaviour of \<open>stream >> literal\<close> in the decimal base that a stream is constructed with:
  white space is skipped, then as many digits are read as there are (leading zeros too), and the
  extraction fails if their value does not fit; it also fails if what follows the white space is
  neither a digit nor a sign.  What it makes of a sign is left open, as it is by the comment in
  \<open>PopValueOrIdentifier\<close>.
\<close>

definition dec_value :: "string \<Rightarrow> nat" where
  "dec_value s = foldl (\<lambda>v c. v * 10 + (of_char c - 48)) 0 s"

definition extracts :: "'n::len extractor \<Rightarrow> bool" where
  "extracts xt \<longleftrightarrow>
     (\<forall>ws ds rest. (\<forall>c\<in>set ws. white c) \<and> ds \<noteq> [] \<and> (\<forall>c\<in>set ds. digit c) \<and> (rest = [] \<or> \<not> digit (hd rest))
        \<longrightarrow> xt (ws @ ds @ rest) =
          (if dec_value ds < 2 ^ LENGTH('n) then Some (of_nat (dec_value ds), rest) else None))
     \<and> (\<forall>s. (let t = dropWhile white s in t = [] \<or> \<not> digit (hd t) \<and> hd t \<notin> set ''+-'') \<longrightarrow> xt s = None)"

lemma digit_char: "n < 10 \<Longrightarrow> digit (char_of (48 + n :: nat))"
  by (simp add: digit_def of_char_of)

lemma dec_string_digits: "dec_string n \<noteq> [] \<and> (\<forall>c\<in>set (dec_string n). digit c)"
proof (induction n rule: dec_string.induct)
  case (1 n)
  then show ?case
    by (cases "n < 10") (auto simp: dec_string.simps [of n] digit_char)
qed

lemma dec_value_string: "dec_value (dec_string n) = n"
proof (induction n rule: dec_string.induct)
  case (1 n)
  show ?case
  proof (cases "n < 10")
    case True
    then show ?thesis by (simp add: dec_string.simps [of n] dec_value_def)
  next
    case False
    then show ?thesis using 1 by (simp add: dec_string.simps [of n] dec_value_def)
  qed
qed

lemma extracts_number:
  assumes "extracts (xt :: 'n::len extractor)" "n < 2 ^ LENGTH('n)"
  shows "xt (dec_string n) = Some (of_nat n, [])"
proof -
  have "xt ([] @ dec_string n @ []) =
      (if dec_value (dec_string n) < 2 ^ LENGTH('n) then Some (of_nat (dec_value (dec_string n)), []) else None)"
    using assms(1) dec_string_digits [of n] unfolding extracts_def by (metis empty_iff empty_set)
  then show ?thesis using assms(2) by (simp add: dec_value_string)
qed

lemma extracts_word:
  assumes "extracts xt" "s \<noteq> []" "\<not> white (hd s)" "\<not> digit (hd s)" "hd s \<notin> set ''+-''"
  shows "xt s = None"
proof -
  have "dropWhile white s = s" using assms(2,3) by (cases s) simp_all
  with assms show ?thesis unfolding extracts_def by simp
qed

lemma digit_plain: "digit c \<Longrightarrow> \<not> white c \<and> c \<noteq> CHR ''-'' \<and> c \<noteq> CHR ''=''"
  by (auto simp: digit_def white_def)

lemma operation_of_token [simp]: "operation_of (op_token operation) = Some operation"
  by (cases operation) (simp_all add: operation_of_def)

lemma no_digits [simp]:
  "\<not> digit (CHR ''+'')" "\<not> digit (CHR ''-'')" "\<not> digit (CHR ''*'')" "\<not> digit (CHR ''/'')"
  "\<not> digit (CHR ''%'')" "\<not> digit (CHR ''@'')" "\<not> digit (CHR ''^'')" "\<not> digit (CHR ''='')"
  by (simp_all add: digit_def)

lemma operation_of_digits: "digit c \<Longrightarrow> operation_of (c # t) = None \<and> c # t \<noteq> ''^'' \<and> c # t \<noteq> ''=''"
proof -
  assume "digit c"
  then have "c \<noteq> CHR ''+''" "c \<noteq> CHR ''-''" "c \<noteq> CHR ''*''" "c \<noteq> CHR ''/''"
    "c \<noteq> CHR ''%''" "c \<noteq> CHR ''@''" "c \<noteq> CHR ''^''" "c \<noteq> CHR ''=''"
    using no_digits by blast+
  then show ?thesis by (simp add: operation_of_def)
qed

section \<open>Evaluating a postfix program\<close>

text \<open>A string on the stack that stands for a value\<close>

definition denotes :: "'n::len extractor \<Rightarrow> 'n dictionary \<Rightarrow> string \<Rightarrow> 'n word \<Rightarrow> bool" where
  "denotes xt dict t v \<longleftrightarrow> (\<forall>stack. PopValue xt dict (t # stack) = (Some v, stack))"

lemma dec_string_cases:
  obtains c t where "dec_string n = c # t" "digit c" "\<forall>d\<in>set (c # t). digit d"
  using dec_string_digits [of n] by (cases "dec_string n") auto

lemma denotes_number:
  fixes v :: "'n::len word"
  assumes "extracts (xt :: 'n extractor)"
  shows "denotes xt dict (dec_string (unat v)) v"
proof -
  have "xt (dec_string (unat v)) = Some (v, [])"
    using extracts_number [OF assms, of "unat v"] unsigned_less [of v] by simp
  moreover obtain c t where "dec_string (unat v) = c # t" "digit c"
    by (rule dec_string_cases)
  ultimately show ?thesis
    using digit_plain [of c] by (simp add: denotes_def PopValue_def PopValueOrIdentifier_def Let_def)
qed

lemma pop_variable:
  assumes "extracts xt" "var_ok x"
  shows "PopValueOrIdentifier xt want (x # stack) = (POP_RESULT_IDENTIFIER x, stack)"
proof -
  have "x \<noteq> []" "\<not> white (hd x)" "\<not> digit (hd x)" "hd x \<notin> set ''+-''" "hd x \<noteq> CHR ''-''"
    using assms(2) by (auto simp: var_ok_def)
  moreover from this have "xt x = None" by (intro extracts_word [OF assms(1)])
  ultimately show ?thesis by (simp add: PopValueOrIdentifier_def Let_def)
qed

lemma denotes_variable:
  "extracts xt \<Longrightarrow> var_ok x \<Longrightarrow> dict x = Some v \<Longrightarrow> denotes xt dict x v"
  by (simp add: denotes_def PopValue_def pop_variable)

lemma push_word:
  assumes "t \<noteq> []" "hd t \<noteq> CHR ''=''" "operation_of t = None" "t \<noteq> ''^''"
  shows "evaluate_tokens xt memory (t # ts) (stack, dict, assigned)
    = evaluate_tokens xt memory ts (t # stack, dict, assigned)"
proof -
  have "t \<noteq> ''=''" using assms(2) by auto
  then show ?thesis using assms by (simp add: EvaluateToken_def)
qed

declare evaluate_tokens.simps(2) [simp del]

lemma op_token_short: "length (op_token operation) = 1 \<and> op_token operation \<noteq> ''='' \<and> op_token operation \<noteq> ''^''"
  by (cases operation) simp_all

lemma evaluate_postfix:
  fixes e :: "'n::len word expr"
  assumes xt: "extracts (xt :: 'n extractor)"
  shows "expr_ok e \<Longrightarrow> eval memory dict e = Some v \<Longrightarrow> \<exists>t. denotes xt dict t v
    \<and> (\<forall>ts stack assigned. evaluate_tokens xt memory (postfix e @ ts) (stack, dict, assigned)
        = evaluate_tokens xt memory ts (t # stack, dict, assigned))"
proof (induction e arbitrary: v)
  case (Lit w)
  obtain c t where t: "dec_string (unat w) = c # t" "digit c"
    by (rule dec_string_cases)
  have "evaluate_tokens xt memory (dec_string (unat w) # ts) (stack, dict, assigned)
    = evaluate_tokens xt memory ts (dec_string (unat w) # stack, dict, assigned)" for ts stack assigned
    using digit_plain [OF t(2)] operation_of_digits [OF t(2), of t] t(1) by (intro push_word) auto
  then show ?case
    using Lit denotes_number [OF xt, of dict w] by (intro exI [of _ "dec_string (unat w)"]) simp
next
  case (Var x)
  have "evaluate_tokens xt memory (x # ts) (stack, dict, assigned)
    = evaluate_tokens xt memory ts (x # stack, dict, assigned)" for ts stack assigned
    using Var.prems(1) by (intro push_word) (auto simp: var_ok_def)
  then show ?case using Var denotes_variable [OF xt, of x dict v] by (intro exI [of _ x]) simp
next
  case (Bin operation a b)
  obtain v1 v2 where v: "eval memory dict a = Some v1" "eval memory dict b = Some v2"
    "perform operation v1 v2 = Some v"
    using Bin.prems(2) by (auto simp: bind_eq_Some_conv)
  obtain t1 where t1: "denotes xt dict t1 v1"
    "\<And>ts stack assigned. evaluate_tokens xt memory (postfix a @ ts) (stack, dict, assigned)
      = evaluate_tokens xt memory ts (t1 # stack, dict, assigned)"
    using Bin.IH(1) [OF _ v(1)] Bin.prems(1) by auto
  obtain t2 where t2: "denotes xt dict t2 v2"
    "\<And>ts stack assigned. evaluate_tokens xt memory (postfix b @ ts) (stack, dict, assigned)
      = evaluate_tokens xt memory ts (t2 # stack, dict, assigned)"
    using Bin.IH(2) [OF _ v(2)] Bin.prems(1) by auto
  have "evaluate_tokens xt memory (op_token operation # ts) (t2 # t1 # stack, dict, assigned)
    = evaluate_tokens xt memory ts (dec_string (unat v) # stack, dict, assigned)" for ts stack assigned
    using t1(1) t2(1) v(3) op_token_short [of operation]
    by (simp add: evaluate_tokens.simps(2) EvaluateToken_def PopValues_def denotes_def PushValue_def)
  then show ?case
    using t1(2) t2(2) denotes_number [OF xt, of dict v] by (intro exI [of _ "dec_string (unat v)"]) simp
next
  case (Deref a)
  obtain mem w where w: "memory = Some mem" "eval memory dict a = Some w" "mem w = Some v"
    using Deref.prems(2) by (auto simp: bind_eq_Some_conv)
  obtain t1 where t1: "denotes xt dict t1 w"
    "\<And>ts stack assigned. evaluate_tokens xt memory (postfix a @ ts) (stack, dict, assigned)
      = evaluate_tokens xt memory ts (t1 # stack, dict, assigned)"
    using Deref.IH [OF _ w(2)] Deref.prems(1) by auto
  have "evaluate_tokens xt memory (''^'' # ts) (t1 # stack, dict, assigned)
    = evaluate_tokens xt memory ts (dec_string (unat v) # stack, dict, assigned)" for ts stack assigned
    using t1(1) w(1,3)
    by (simp add: evaluate_tokens.simps(2) EvaluateToken_def operation_of_def denotes_def PushValue_def)
  then show ?case
    using t1(2) denotes_number [OF xt, of dict v] by (intro exI [of _ "dec_string (unat v)"]) simp
qed

lemma evaluate_program:
  fixes p :: "(string \<times> 'n::len word expr) list"
  assumes xt: "extracts (xt :: 'n extractor)"
  shows "program_ok p \<Longrightarrow> run_program memory p dict = Some dict'
    \<Longrightarrow> evaluate_tokens xt memory (program_tokens p) ([], dict, assigned)
      = Returns True ([], dict', assigned \<union> fst ` set p)"
proof (induction p arbitrary: dict assigned)
  case Nil
  then show ?case by (simp add: program_tokens_def)
next
  case (Cons a p)
  obtain x e where a: "a = (x, e)" by (cases a)
  have ok: "var_ok x" "hd x = CHR ''$''" "expr_ok e" "program_ok p"
    using Cons.prems(1) by (auto simp: program_ok_def a)
  obtain v where v: "eval memory dict e = Some v" "run_program memory p (dict(x \<mapsto> v)) = Some dict'"
    using Cons.prems(2) by (auto simp: a bind_eq_Some_conv)
  obtain t where t: "denotes xt dict t v"
    "\<And>ts stack assigned. evaluate_tokens xt memory (postfix e @ ts) (stack, dict, assigned)
      = evaluate_tokens xt memory ts (t # stack, dict, assigned)"
    using evaluate_postfix [OF xt ok(3) v(1)] by blast
  have "evaluate_tokens xt memory (program_tokens (a # p)) ([], dict, assigned)
    = evaluate_tokens xt memory (postfix e @ ''='' # program_tokens p) ([x], dict, assigned)"
    using push_word [of x xt memory] ok(1) by (simp add: program_tokens_def a var_ok_def)
  also have "\<dots> = evaluate_tokens xt memory (''='' # program_tokens p) ([t, x], dict, assigned)"
    by (rule t(2))
  also have "\<dots> = evaluate_tokens xt memory (program_tokens p) ([], dict(x \<mapsto> v), insert x assigned)"
    using t(1) ok(1,2) pop_variable [OF xt ok(1)]
    by (simp add: evaluate_tokens.simps(2) EvaluateToken_def operation_of_def denotes_def var_ok_def)
  also have "\<dots> = Returns True ([], dict', insert x assigned \<union> fst ` set p)"
    by (rule Cons.IH [OF ok(4) v(2)])
  finally show ?case by (simp add: a)
qed

section \<open>The words of a string\<close>

lemma tokens_unwords: "\<forall>t\<in>set ts. t \<noteq> [] \<and> (\<forall>c\<in>set t. \<not> white c) \<Longrightarrow> tokens (unwords ts) = ts"
proof (induction ts)
  case (Cons t ts)
  have t: "t \<noteq> []" "\<forall>c\<in>set t. \<not> white c" using Cons.prems by simp_all
  obtain c u where cu: "t = c # u" using t(1) by (cases t) auto
  have "tokens (CHR '' '' # s) = tokens s" for s
    by (simp add: tokens.simps [of "CHR '' '' # s"] tokens.simps [of s] white_def)
  then have ih: "tokens (CHR '' '' # unwords ts) = ts" using Cons by simp
  have "dropWhile white (t @ CHR '' '' # unwords ts) = t @ CHR '' '' # unwords ts"
    using t(2) cu by simp
  moreover have "takeWhile (\<lambda>c. \<not> white c) (t @ CHR '' '' # unwords ts) = t"
    using t(2) by (simp add: takeWhile_append white_def)
  moreover have "dropWhile (\<lambda>c. \<not> white c) (t @ CHR '' '' # unwords ts) = CHR '' '' # unwords ts"
    using t(2) by (simp add: dropWhile_append white_def)
  ultimately show ?case
    using ih t(1) by (subst tokens.simps) (simp add: Let_def)
qed (simp add: tokens.simps)

lemma postfix_words: "expr_ok e \<Longrightarrow> \<forall>t\<in>set (postfix e). t \<noteq> [] \<and> (\<forall>c\<in>set t. \<not> white c)"
proof (induction e)
  case (Lit v)
  then show ?case using dec_string_digits [of "unat v"] digit_plain by auto
next
  case (Bin operation a b)
  moreover have "op_token operation \<noteq> [] \<and> (\<forall>c\<in>set (op_token operation). \<not> white c)"
    by (cases operation) (simp_all add: white_def)
  ultimately show ?case by auto
next
  case (Deref a)
  then show ?case by (auto simp: white_def)
qed (simp add: var_ok_def)

lemma program_words:
  assumes "program_ok p" shows "\<forall>t\<in>set (program_tokens p). t \<noteq> [] \<and> (\<forall>c\<in>set t. \<not> white c)"
proof -
  have word: "t \<noteq> [] \<and> (\<forall>c\<in>set t. \<not> white c)" 
    if xe: "(x, e) \<in> set p" and tm: "t \<in> set (x # postfix e @ [''=''])" for t x e
  proof -
    have ok: "var_ok x" "expr_ok e" using xe assms by (auto simp: program_ok_def)
    consider "t = x" | "t \<in> set (postfix e)" | "t = ''=''" using tm by auto
    then show ?thesis
    proof cases
      case 1
      then show ?thesis using ok(1) by (simp add: var_ok_def)
    next
      case 2
      then show ?thesis using postfix_words [OF ok(2)] by blast
    qed (simp add: white_def)
  qed
  show ?thesis
  proof
    fix t assume "t \<in> set (program_tokens p)"
    then obtain x e where "(x, e) \<in> set p" "t \<in> set (x # postfix e @ [''=''])"
      by (auto simp: program_tokens_def)
    then show "t \<noteq> [] \<and> (\<forall>c\<in>set t. \<not> white c)" by (rule word)
  qed
qed

section \<open>Contracts\<close>

text \<open>
  C40. Postfix programs compute what they stand for: the words of a sequence of assignments of
  expressions (arithmetic, dereferences, variables), separated by white space, make \<open>Evaluate\<close> return
  true with the dictionary that the assignments leave when they are run one after the other, and with
  exactly the assigned variables marked, if numbers are extracted from a stream as the standard says
  (\<open>extracts\<close>, which \<open>extract_unsigned\<close> meets).
\<close>
theorem postfix_program:
  fixes xt :: "'n::len extractor"
  assumes "extracts xt" "program_ok p" "run_program memory p dict = Some dict'"
  shows "Evaluate xt memory (unwords (program_tokens p)) ([], dict, assigned)
    = Returns True ([], dict', assigned \<union> fst ` set p)"
  using evaluate_program [OF assms, of assigned] tokens_unwords [OF program_words [OF assms(2)]]
  by (simp add: Evaluate_def EvaluateInternal_def)

text \<open>
  An extraction as a standard library does it: white space, a sign, the digits; a negative number wraps
  around
\<close>

definition extract_unsigned :: "'n::len extractor" where
  "extract_unsigned s =
     (let t = dropWhile white s;
          u = (if t \<noteq> [] \<and> hd t \<in> set ''+-'' then tl t else t);
          ds = takeWhile digit u;
          v = of_nat (dec_value ds) in
      if ds = [] \<or> dec_value ds \<ge> 2 ^ LENGTH('n) then None
      else Some (if t \<noteq> [] \<and> hd t = CHR ''-'' then - v else v, dropWhile digit u))"

lemma digit_unsigned: "digit c \<Longrightarrow> c \<noteq> CHR ''+'' \<and> c \<noteq> CHR ''-''"
  using no_digits by blast

lemma extract_unsigned_extracts: "extracts extract_unsigned"
proof -
  have "extract_unsigned (ws @ ds @ rest) =
      (if dec_value ds < 2 ^ LENGTH('a) then Some (of_nat (dec_value ds) :: 'a word, rest) else None)"
    if ws: "\<forall>c\<in>set ws. white c" and some: "ds \<noteq> []" "\<forall>c\<in>set ds. digit c"
      and rest: "rest = [] \<or> \<not> digit (hd rest)" for ws ds rest
  proof -
    obtain c cs where ds: "ds = c # cs" "digit c" using some by (cases ds) auto
    have skip: "dropWhile white (ws @ ds @ rest) = ds @ rest"
      using ws ds digit_plain [OF ds(2)] by (simp add: dropWhile_append)
    have "takeWhile digit (ds @ rest) = ds" "dropWhile digit (ds @ rest) = rest"
      using some(2) rest by (cases rest; simp add: takeWhile_append dropWhile_append)+
    then show ?thesis
      unfolding extract_unsigned_def skip Let_def
      using ds digit_unsigned [OF ds(2)] by (auto simp: not_less)
  qed
  moreover have "(extract_unsigned s :: ('a word \<times> string) option) = None"
    if "dropWhile white s = [] \<or> \<not> digit (hd (dropWhile white s)) \<and> hd (dropWhile white s) \<notin> set ''+-''" for s
    using that unfolding extract_unsigned_def Let_def by (cases "dropWhile white s"; simp only:) auto
  ultimately show "extracts (extract_unsigned :: 'a extractor)" unfolding extracts_def Let_def by blast
qed

definition frame_program :: "(string \<times> 32 word expr) list" where
  "frame_program = [(''$T0'', Bin BINARY_OP_ADD (Var ''$ebp'') (Lit 4)), (''$eip'', Deref (Var ''$T0''))]"

lemma postfix_program_witness:
  "Evaluate (extract_unsigned :: 32 extractor) (Some (\<lambda>a. Some (a + 1))) (unwords (program_tokens frame_program))
      ([], [''$ebp'' \<mapsto> 16], {})
    = Returns True ([], [''$ebp'' \<mapsto> 16, ''$T0'' \<mapsto> 20, ''$eip'' \<mapsto> 21], {} \<union> fst ` set frame_program)"
  by (rule postfix_program [OF extract_unsigned_extracts])
    (simp_all add: frame_program_def program_ok_def var_ok_def white_def digit_def operation_of_def perform_def)

lemma digit_chars: "char_of (55 :: nat) = CHR ''7''" "char_of (48 :: nat) = CHR ''0''"
  "char_of (53 :: nat) = CHR ''5''" "char_of (51 :: nat) = CHR ''3''"
proof -
  have "char_of (of_char c :: nat) = c" for c by simp
  from this [of "CHR ''7''"] this [of "CHR ''0''"] this [of "CHR ''5''"] this [of "CHR ''3''"]
  show "char_of (55 :: nat) = CHR ''7''" "char_of (48 :: nat) = CHR ''0''"
    "char_of (53 :: nat) = CHR ''5''" "char_of (51 :: nat) = CHR ''3''"
    by (simp_all del: char_of_char)
qed

text \<open>
  Two kinds of programs end the process instead of failing: a division (or modulus) by zero, and
  an assignment whose target is a negative literal, for which the evaluator negates through a null
  pointer.
\<close>
lemma postfix_traps:
  fixes xt :: "'n::len extractor"
  assumes "extracts xt" "9 < (2 :: nat) ^ LENGTH('n)"
  shows "Evaluate xt memory ''7 0 /'' ([], dict, assigned) = Trap
    \<and> Evaluate xt memory ''7 0 %'' ([], dict, assigned) = Trap
    \<and> Evaluate xt memory ''-5 3 ='' ([], dict, assigned) = Trap"
proof -
  have d: "dec_string n = [char_of (48 + n)]" if "n < 10" for n
    using that by (simp add: dec_string.simps)
  have xt: "xt [char_of (48 + n)] = Some (of_nat n, [])" if "n < 10" for n
    using extracts_number [OF assms(1), of n] assms(2) that by (simp add: d [OF that])
  have "xt ''7'' = Some (7, [])" "xt ''0'' = Some (0, [])" "xt ''5'' = Some (5, [])" "xt ''3'' = Some (3, [])"
    using xt [of 7] xt [of 0] xt [of 5] xt [of 3] digit_chars by simp_all
  moreover have "tokens ''7 0 /'' = [''7'', ''0'', ''/'']" "tokens ''7 0 %'' = [''7'', ''0'', ''%'']"
    "tokens ''-5 3 ='' = [''-5'', ''3'', ''='']"
    by (simp_all add: tokens.simps white_def)
  ultimately show ?thesis
    by (simp add: Evaluate_def EvaluateInternal_def evaluate_tokens.simps(2) EvaluateToken_def
        operation_of_def PopValues_def PopValue_def PopValueOrIdentifier_def perform_def)
qed

end
