(* ===== verification/Contained_Range_Map.thy ===== *)
theory Contained_Range_Map
  imports Address_Lookup
begin

text \<open>
  \<open>src/app/breakpad/src/processor/contained_range_map.h\<close> and \<open>contained_range_map-inl.h\<close>: ranges
  nested in each other, a tree in which a node maps the ends of its children to the children.  A
  pointer to a map that is null and an empty map are both \<open>[]\<close>: no operation tells them apart.
\<close>

section \<open>The tree and its operations\<close>

datatype ('k, 'e) crange = CRange (cr_base: 'k) (cr_entry: 'e) (cr_map: "('k \<times> ('k, 'e) crange) list")

text \<open>
  The part of \<open>StoreRange\<close> that works on the map of the node itself; iterators are suffixes, so the
  elements from one iterator to another are a prefix of the first.
\<close>

definition store_here ::
  "'n::len word \<Rightarrow> 'n word \<Rightarrow> 'e \<Rightarrow> ('n word, ('n word, 'e) crange) std_map
    \<Rightarrow> bool \<times> ('n word, ('n word, 'e) crange) std_map"
where
  "store_here base high entry m =
     (let iterator_base = lower_bound m base;
          iterator_high = lower_bound m high;
          contains_high = (iterator_high \<noteq> [] \<and> high \<ge> cr_base (snd (hd iterator_high))) in
      if iterator_base \<noteq> [] \<and> base > cr_base (snd (hd iterator_base))
          \<or> contains_high \<and> high < fst (hd iterator_high) then (False, m)
      else
        let iterator_high = (if contains_high then tl iterator_high else iterator_high);
            child_map = (if iterator_base \<noteq> iterator_high
              then take (length iterator_base - length iterator_high) iterator_base else []);
            m = (if iterator_base \<noteq> iterator_high
              then take (length m - length iterator_base) m @ iterator_high else m) in
        (True, map_insert high (CRange base entry child_map) m))"

definition replace_child :: "'k \<Rightarrow> 'v \<Rightarrow> ('k, 'v) std_map \<Rightarrow> ('k, 'v) std_map" where
  "replace_child k c m = map (\<lambda>p. if fst p = k then (k, c) else p) m"

lemma lower_bound_member: "lower_bound m k = p # rest \<Longrightarrow> p \<in> set m"
  unfolding lower_bound_def by (metis list.set_intros(1) set_dropWhileD)

lemma child_size: "p \<in> set m \<Longrightarrow> size (snd p) < size (CRange b e m)"
  by (induction m) auto

function CR_StoreRange ::
  "'n::len word \<Rightarrow> 'n word \<Rightarrow> 'e \<Rightarrow> ('n word, 'e) crange \<Rightarrow> bool \<times> ('n word, 'e) crange"
where
  "CR_StoreRange base len entry (CRange b0 e0 m) =
     (let high = base + len - 1 in
      if len \<le> 0 \<or> high < base then (False, CRange b0 e0 m)
      else
        case lower_bound m base of
          (k, child) # rest \<Rightarrow>
            if (k, child) # rest = lower_bound m high \<and> base \<ge> cr_base child then
              if cr_base child = base \<and> k = high then (False, CRange b0 e0 m)
              else
                let (ok, child') = CR_StoreRange base len entry child in
                (ok, CRange b0 e0 (replace_child k child' m))
            else let (ok, m') = store_here base high entry m in (ok, CRange b0 e0 m')
        | [] \<Rightarrow> let (ok, m') = store_here base high entry m in (ok, CRange b0 e0 m'))"
  by pat_completeness auto
termination
proof (relation "measure (\<lambda>(_, _, _, t). size t)", goal_cases)
  case (2 base len entry b0 e0 m high p rest k child)
  then have "lower_bound m base = (k, child) # rest" by simp
  then have "(k, child) \<in> set m" by (rule lower_bound_member)
  from child_size [OF this] show ?case by simp
qed simp

function CR_RetrieveRange :: "('n::len word, 'e) crange \<Rightarrow> 'n word \<Rightarrow> 'e option" where
  "CR_RetrieveRange (CRange b0 e0 m) address =
     (case lower_bound m address of
        [] \<Rightarrow> None
      | (k, child) # rest \<Rightarrow>
          if address < cr_base child then None
          else
            case CR_RetrieveRange child address of
              None \<Rightarrow> Some (cr_entry child)
            | Some entry \<Rightarrow> Some entry)"
  by pat_completeness auto
termination
proof (relation "measure (\<lambda>(t, _). size t)", goal_cases)
  case (2 b0 e0 m address p rest k child)
  then have "lower_bound m address = (k, child) # rest" by simp
  then have "(k, child) \<in> set m" by (rule lower_bound_member)
  from child_size [OF this] show ?case by simp
qed simp

definition CR_Clear :: "('k, 'e) crange \<Rightarrow> ('k, 'e) crange" where
  "CR_Clear t = CRange (cr_base t) (cr_entry t) []"

declare CR_StoreRange.simps [simp del] CR_RetrieveRange.simps [simp del]

section \<open>The stored ranges and the invariant\<close>

text \<open>Base, end and entry of every range below a node\<close>

function ranges_of :: "('k, 'e) crange \<Rightarrow> ('k \<times> 'k \<times> 'e) set" where
  "ranges_of (CRange b e m) =
     (\<Union>p\<in>set m. insert (cr_base (snd p), fst p, cr_entry (snd p)) (ranges_of (snd p)))"
  by pat_completeness auto
termination by (relation "measure size") (auto intro: child_size [simplified])

function tree_ok :: "('k::linorder, 'e) crange \<Rightarrow> bool" where
  "tree_ok (CRange b e m) \<longleftrightarrow> map_ok m
     \<and> (\<forall>p\<in>set m. cr_base (snd p) \<le> fst p \<and> tree_ok (snd p)
         \<and> (\<forall>x\<in>ranges_of (snd p). cr_base (snd p) \<le> fst x \<and> fst x \<le> fst (snd x) \<and> fst (snd x) \<le> fst p
              \<and> (fst x, fst (snd x)) \<noteq> (cr_base (snd p), fst p)))
     \<and> (\<forall>p\<in>set m. \<forall>q\<in>set m. fst p < fst q \<longrightarrow> fst p < cr_base (snd q))"
  by pat_completeness auto
termination by (relation "measure size") (auto intro: child_size [simplified])

declare ranges_of.simps [simp del] tree_ok.simps [simp del]

definition ext :: "'k \<times> ('k, 'e) crange \<Rightarrow> 'k \<times> 'k \<times> 'e" where
  "ext p = (cr_base (snd p), fst p, cr_entry (snd p))"

lemma ranges_of_iff:
  "x \<in> ranges_of (CRange b e m) \<longleftrightarrow> (\<exists>p\<in>set m. x = ext p \<or> x \<in> ranges_of (snd p))"
  by (auto simp: ranges_of.simps ext_def)

lemma ranges_of_Union: "ranges_of (CRange b e m) = (\<Union>p\<in>set m. insert (ext p) (ranges_of (snd p)))"
  unfolding set_eq_iff ranges_of_iff by blast

text \<open>Two ranges that are disjoint, or nested and different\<close>

definition fits_beside :: "'k::linorder \<Rightarrow> 'k \<Rightarrow> 'k \<times> 'k \<times> 'e \<Rightarrow> bool" where
  "fits_beside b h x \<longleftrightarrow> fst (snd x) < b \<or> h < fst x \<or> (fst x, fst (snd x)) \<noteq> (b, h)
     \<and> (fst x \<le> b \<and> h \<le> fst (snd x) \<or> b \<le> fst x \<and> fst (snd x) \<le> h)"

definition storable :: "('k::linorder, 'e) crange \<Rightarrow> 'k \<Rightarrow> 'k \<Rightarrow> bool" where
  "storable t b h \<longleftrightarrow> (\<forall>x\<in>ranges_of t. fits_beside b h x)"

lemma storable_iff:
  "storable (CRange b0 e0 m) b h \<longleftrightarrow>
    (\<forall>p\<in>set m. fits_beside b h (ext p) \<and> (\<forall>x\<in>ranges_of (snd p). fits_beside b h x))"
  unfolding storable_def Ball_def ranges_of_iff by blast

lemma tree_ok_map: "tree_ok (CRange b e m) \<Longrightarrow> map_ok m"
  by (simp add: tree_ok.simps)

lemma tree_ok_child:
  assumes "tree_ok (CRange b e m)" "p \<in> set m"
  shows "tree_ok (snd p)" "cr_base (snd p) \<le> fst p"
  using assms by (simp_all add: tree_ok.simps)

lemma tree_ok_within:
  assumes "tree_ok (CRange b e m)" "p \<in> set m" "x \<in> ranges_of (snd p)"
  shows "cr_base (snd p) \<le> fst x" "fst x \<le> fst (snd x)" "fst (snd x) \<le> fst p"
    "(fst x, fst (snd x)) \<noteq> (cr_base (snd p), fst p)"
  using assms by (simp_all add: tree_ok.simps)

lemma tree_ok_apart:
  assumes "tree_ok (CRange b e m)" "p \<in> set m" "q \<in> set m" "fst p < fst q"
  shows "fst p < cr_base (snd q)"
proof -
  have "\<forall>p\<in>set m. \<forall>q\<in>set m. fst p < fst q \<longrightarrow> fst p < cr_base (snd q)"
    using assms(1) unfolding tree_ok.simps by blast
  then show ?thesis using assms(2-4) by blast
qed

lemma tree_ok_disjoint:
  assumes "tree_ok (CRange b e m)" "p \<in> set m" "q \<in> set m" "p \<noteq> q"
  shows "fst p < cr_base (snd q) \<or> fst q < cr_base (snd p)"
proof -
  have "fst p \<noteq> fst q"
    using map_ok_unique [OF tree_ok_map [OF assms(1)], of "fst p" "snd p" "snd q"] assms(2-4)
    by (metis prod.collapse)
  then have "fst p < fst q \<or> fst q < fst p" by auto
  then show ?thesis using tree_ok_apart [OF assms(1)] assms(2,3) by blast
qed

text \<open>A new range inside a child is a matter of the child.\<close>

lemma storable_inside:
  assumes t: "tree_ok (CRange b0 e0 m)" and p: "p \<in> set m"
    and inside: "cr_base (snd p) \<le> b" "h \<le> fst p" "b \<le> h"
  shows "storable (CRange b0 e0 m) b h \<longleftrightarrow> (cr_base (snd p), fst p) \<noteq> (b, h) \<and> storable (snd p) b h"
proof -
  have "fits_beside b h x" if q: "q \<in> set m" "q \<noteq> p" and x: "x = ext q \<or> x \<in> ranges_of (snd q)" for q x
  proof -
    have "cr_base (snd q) \<le> fst x" "fst (snd x) \<le> fst q"
      using x tree_ok_within(1,3) [OF t q(1), of x] by (auto simp: ext_def)
    moreover have "fst q < cr_base (snd p) \<or> fst p < cr_base (snd q)"
      using tree_ok_disjoint [OF t q(1) p q(2)] by blast
    ultimately show ?thesis using inside by (auto simp: fits_beside_def)
  qed
  moreover have "fits_beside b h (ext p) \<longleftrightarrow> (cr_base (snd p), fst p) \<noteq> (b, h)"
    using inside by (auto simp: fits_beside_def ext_def)
  ultimately show ?thesis using p unfolding storable_iff unfolding storable_def by blast
qed

lemma set_replace_child:
  assumes "map_ok m" "(k, c) \<in> set m"
  shows "set (replace_child k c' m) = insert (k, c') (set m - {(k, c)})"
proof -
  have "(if fst p = k then (k, c') else p) = (if p = (k, c) then (k, c') else p)" if "p \<in> set m" for p
    using map_ok_unique [OF assms(1), of k "snd p" c] that assms(2) by (metis prod.collapse fst_conv)
  then have "set (replace_child k c' m) = (\<lambda>p. if p = (k, c) then (k, c') else p) ` set m"
    unfolding replace_child_def set_map by (intro image_cong) auto
  also have "\<dots> = insert (k, c') (set m - {(k, c)})" using assms(2) by auto
  finally show ?thesis .
qed

lemma map_ok_replace_child: "map_ok m \<Longrightarrow> map_ok (replace_child k c m)"
  by (simp add: map_ok_def replace_child_def comp_def if_distrib cong: if_cong)

lemma replace_child_same: "map_ok m \<Longrightarrow> (k, c) \<in> set m \<Longrightarrow> replace_child k c m = m"
proof -
  assume m: "map_ok m" "(k, c) \<in> set m"
  have "(if fst p = k then (k, c) else p) = p" if "p \<in> set m" for p
    using map_ok_unique [OF m(1), of k "snd p" c] that m(2) by (metis prod.collapse)
  then show ?thesis by (simp add: replace_child_def map_idI)
qed

lemma replace_child_ok:
  assumes t: "tree_ok (CRange b0 e0 m)" and c: "(k, c) \<in> set m"
    and c': "tree_ok c'" "cr_base c' = cr_base c" "cr_entry c' = cr_entry c"
    "ranges_of c' = insert y (ranges_of c)"
    and y: "cr_base c \<le> fst y" "fst y \<le> fst (snd y)" "fst (snd y) \<le> k" "(fst y, fst (snd y)) \<noteq> (cr_base c, k)"
  shows "tree_ok (CRange b0 e0 (replace_child k c' m))"
    and "ranges_of (CRange b0 e0 (replace_child k c' m)) = insert y (ranges_of (CRange b0 e0 m))"
proof -
  note set = set_replace_child [OF tree_ok_map [OF t] c, of c']
  have new: "\<forall>x\<in>ranges_of c'. cr_base c' \<le> fst x \<and> fst x \<le> fst (snd x) \<and> fst (snd x) \<le> k
      \<and> (fst x, fst (snd x)) \<noteq> (cr_base c', k)"
    using tree_ok_within [OF t c] c'(2,4) y by auto
  have old: "\<exists>q\<in>set m. fst q = fst p \<and> cr_base (snd q) = cr_base (snd p)"
    if "p \<in> insert (k, c') (set m - {(k, c)})" for p
    using that c c'(2) by force
  have apart: "fst p < cr_base (snd q)"
    if p: "p \<in> insert (k, c') (set m - {(k, c)})" and q: "q \<in> insert (k, c') (set m - {(k, c)})"
      and less: "fst p < fst q" for p q
  proof -
    obtain p0 where p0: "p0 \<in> set m" "fst p0 = fst p" using old [OF p] by blast
    obtain q0 where q0: "q0 \<in> set m" "fst q0 = fst q" "cr_base (snd q0) = cr_base (snd q)"
      using old [OF q] by blast
    have "fst p0 < cr_base (snd q0)"
      using tree_ok_apart [OF t p0(1) q0(1)] less by (simp add: p0 q0)
    then show ?thesis by (simp add: p0 q0)
  qed
  have base: "cr_base c' \<le> k" using tree_ok_child(2) [OF t c] c'(2) by simp
  have child: "cr_base (snd p) \<le> fst p \<and> tree_ok (snd p)
      \<and> (\<forall>x\<in>ranges_of (snd p). cr_base (snd p) \<le> fst x \<and> fst x \<le> fst (snd x) \<and> fst (snd x) \<le> fst p
         \<and> (fst x, fst (snd x)) \<noteq> (cr_base (snd p), fst p))"
    if p: "p \<in> insert (k, c') (set m - {(k, c)})" for p
  proof (cases "p = (k, c')")
    case True
    then show ?thesis using base c'(1) new by simp
  next
    case False
    then have "p \<in> set m" using p by simp
    then show ?thesis using t by (simp add: tree_ok.simps)
  qed
  show "tree_ok (CRange b0 e0 (replace_child k c' m))"
    unfolding tree_ok.simps set
    using map_ok_replace_child [OF tree_ok_map [OF t], of k c'] child apart by blast
  have "ext (k, c') = ext (k, c)" using c'(2,3) by (simp add: ext_def)
  moreover have "(\<Union>p\<in>set m. F p) = F (k, c) \<union> (\<Union>p\<in>set m - {(k, c)}. F p)" for F :: "_ \<Rightarrow> ('a \<times> 'a \<times> 'b) set"
    using c by blast
  ultimately show "ranges_of (CRange b0 e0 (replace_child k c' m)) = insert y (ranges_of (CRange b0 e0 m))"
    unfolding ranges_of_Union set by (simp add: c'(4) insert_commute)
qed

text \<open>
  A new range on the level of the map: what \<open>lower_bound\<close> separates are the children that end in front
  of the range, those in it, and those behind it.
\<close>

lemma lower_bound_twice: "b \<le> h \<Longrightarrow> lower_bound m h = dropWhile (\<lambda>p. fst p < h) (lower_bound m b)"
proof (induction m)
  case (Cons p m)
  then show ?case
    by (cases "fst p < b") (simp_all add: lower_bound_def less_le_trans [of "fst p" b h])
qed (simp add: lower_bound_def)

lemma lower_bound_ge: "map_ok m \<Longrightarrow> p \<in> set (lower_bound m k) \<Longrightarrow> k \<le> fst p"
proof (induction m)
  case (Cons q m)
  then show ?case
    by (cases "fst q < k") (auto simp: lower_bound_def map_ok_Cons not_less intro: order.trans less_imp_le)
qed (simp add: lower_bound_def)

lemma take_prefix: "take (length (a @ b) - length b) (a @ b) = a"
  by simp

lemma store_here_parts:
  assumes t: "tree_ok (CRange b0 e0 m)" and bh: "b \<le> h"
    and out: "\<And>p. p \<in> set m \<Longrightarrow> \<not> (cr_base (snd p) \<le> b \<and> h \<le> fst p)"
  shows "\<not> storable (CRange b0 e0 m) b h \<and> store_here b h e m = (False, m)
    \<or> (\<exists>pre mid post. m = pre @ mid @ post
        \<and> store_here b h e m = (True, map_insert h (CRange b e mid) (pre @ post))
        \<and> (\<forall>p\<in>set pre. fst p < b) \<and> (\<forall>p\<in>set mid. b \<le> cr_base (snd p) \<and> fst p \<le> h)
        \<and> (\<forall>p\<in>set post. h < cr_base (snd p)))"
proof -
  define pre where "pre = takeWhile (\<lambda>p. fst p < b) m"
  define ib where "ib = lower_bound m b"
  define mid where "mid = takeWhile (\<lambda>p. fst p < h) ib"
  define ih where "ih = lower_bound m h"
  define high where "high \<longleftrightarrow> ih \<noteq> [] \<and> cr_base (snd (hd ih)) \<le> h"
  define ih' where "ih' = (if high then tl ih else ih)"
  have m: "m = pre @ ib" by (simp add: pre_def ib_def lower_bound_def)
  have ib: "ib = mid @ ih" by (simp add: mid_def ih_def ib_def lower_bound_twice [OF bh])
  have ib_ge: "b \<le> fst p" if "p \<in> set ib" for p
    using lower_bound_ge [OF tree_ok_map [OF t]] that by (simp add: ib_def)
  have ih_ge: "h \<le> fst p" if "p \<in> set ih" for p
    using lower_bound_ge [OF tree_ok_map [OF t]] that by (simp add: ih_def)
  define mid' where "mid' = mid @ (if high then [hd ih] else [])"
  have ib': "ib = mid' @ ih'" by (simp add: ib mid'_def ih'_def high_def)
  define check where "check \<longleftrightarrow> ib \<noteq> [] \<and> cr_base (snd (hd ib)) < b \<or> high \<and> h < fst (hd ih)"
  have here: "store_here b h e m =
      (if check then (False, m) else (True, map_insert h (CRange b e mid') (pre @ ih')))"
  proof -
    have "take (length m - length ib) m = pre" by (simp add: m)
    moreover have "take (length ib - length ih') ib = mid'" by (simp add: ib')
    moreover have "ib = ih' \<Longrightarrow> mid' = [] \<and> pre @ ih' = m" using m ib' by simp
    ultimately show ?thesis
      unfolding store_here_def ib_def [symmetric] ih_def [symmetric] Let_def high_def [symmetric]
        ih'_def [symmetric] check_def [symmetric]
      by (cases "ib = ih'") simp_all
  qed
  have tail_apart: "fst (hd i) < cr_base (snd p)" if i: "m = a @ i" and p: "p \<in> set (tl i)" for a i p
  proof (cases i)
    case (Cons q i')
    then have "fst q < fst p" "q \<in> set m" "p \<in> set m"
      using tree_ok_map [OF t] p by (auto simp: i map_ok_append map_ok_Cons)
    then show ?thesis using tree_ok_apart [OF t] Cons by simp
  qed (use p in simp)
  have ih_split: "m = (pre @ mid) @ ih" using m ib by simp
  show ?thesis
  proof (cases check)
    case True
    then obtain p where p: "p \<in> set m" "b \<le> fst p" "cr_base (snd p) \<le> h"
        "cr_base (snd p) < b \<or> h < fst p"
    proof (unfold check_def, elim disjE conjE)
      assume i: "ib \<noteq> []" "cr_base (snd (hd ib)) < b"
      show thesis
        using that [of "hd ib"] i ib_ge [of "hd ib"] m bh by (simp add: less_imp_le less_le_trans)
    next
      assume i: "high" "h < fst (hd ih)"
      show thesis
        using that [of "hd ih"] i ih_ge [of "hd ih"] bh ih_split by (simp add: high_def)
    qed
    then have "\<not> fits_beside b h (ext p)"
      using out [OF p(1)] by (auto simp: fits_beside_def ext_def)
    then show ?thesis using True here p(1) unfolding storable_iff by auto
  next
    case False
    have "b \<le> cr_base (snd p)" if p: "p \<in> set mid'" for p
    proof (cases "p = hd ib")
      case True
      then show ?thesis using False p by (auto simp: check_def ib')
    next
      case False
      moreover have "p \<in> set ib" using p by (simp add: ib')
      ultimately have "p \<in> set (tl ib)" by (cases ib) auto
      then have "fst (hd ib) < cr_base (snd p)" by (rule tail_apart [OF m])
      moreover have "b \<le> fst (hd ib)" by (rule ib_ge, rule hd_in_set) (use p ib' in auto)
      ultimately show ?thesis by simp
    qed
    moreover have "fst p \<le> h" if "p \<in> set mid'" for p
      using that False by (auto simp: mid'_def mid_def check_def not_less dest: set_takeWhileD split: if_splits)
    moreover have "h < cr_base (snd p)" if p: "p \<in> set ih'" for p
    proof (cases "p \<in> set (tl ih)")
      case True
      then have "fst (hd ih) < cr_base (snd p)" by (rule tail_apart [OF ih_split])
      moreover have "h \<le> fst (hd ih)" using ih_ge [of "hd ih"] True by (cases ih) auto
      ultimately show ?thesis by simp
    next
      case False
      then have "\<not> high" "p = hd ih" "ih \<noteq> []" using p by (cases ih; auto simp: ih'_def split: if_splits)+
      then show ?thesis by (auto simp: high_def)
    qed
    moreover have "fst p < b" if "p \<in> set pre" for p
      using that by (auto simp: pre_def dest: set_takeWhileD)
    moreover have "m = pre @ mid' @ ih'" using m ib' by simp
    ultimately show ?thesis using here False by (intro disjI2 exI [of _ pre] exI [of _ mid'] exI [of _ ih']) simp
  qed
qed

lemma ranges_in_child:
  assumes "tree_ok (CRange b0 e0 m)" "p \<in> set m" "x = ext p \<or> x \<in> ranges_of (snd p)"
  shows "cr_base (snd p) \<le> fst x" "fst x \<le> fst (snd x)" "fst (snd x) \<le> fst p"
  using assms(3) tree_ok_within [OF assms(1,2), of x] tree_ok_child(2) [OF assms(1,2)]
  by (auto simp: ext_def)

lemma tree_ok_subset:
  assumes "tree_ok (CRange b0 e0 m)" "map_ok m'" "set m' \<subseteq> set m"
  shows "tree_ok (CRange b e m')"
  using assms unfolding tree_ok.simps by blast

lemma tree_okI:
  assumes "map_ok m"
    and "\<And>p. p \<in> set m \<Longrightarrow> cr_base (snd p) \<le> fst p \<and> tree_ok (snd p)"
    and "\<And>p x. p \<in> set m \<Longrightarrow> x \<in> ranges_of (snd p) \<Longrightarrow> cr_base (snd p) \<le> fst x \<and> fst x \<le> fst (snd x)
      \<and> fst (snd x) \<le> fst p \<and> (fst x, fst (snd x)) \<noteq> (cr_base (snd p), fst p)"
    and "\<And>p q. p \<in> set m \<Longrightarrow> q \<in> set m \<Longrightarrow> fst p < fst q \<Longrightarrow> fst p < cr_base (snd q)"
  shows "tree_ok (CRange b e m)"
  using assms unfolding tree_ok.simps by blast

lemma store_parts_ok:
  fixes e :: 'e
  assumes t: "tree_ok (CRange b0 e0 (pre @ mid @ post))" and bh: "b \<le> h"
    and out: "\<And>p. p \<in> set (pre @ mid @ post) \<Longrightarrow> \<not> (cr_base (snd p) \<le> b \<and> h \<le> fst p)"
    and pre: "\<forall>p\<in>set pre. fst p < b" and mid: "\<forall>p\<in>set mid. b \<le> cr_base (snd p) \<and> fst p \<le> h"
    and post: "\<forall>p\<in>set post. h < cr_base (snd p)"
  defines "m' \<equiv> map_insert h (CRange b e mid) (pre @ post)"
  shows "storable (CRange b0 e0 (pre @ mid @ post)) b h" (is ?fits)
    and "tree_ok (CRange b0 e0 m')"
    and "ranges_of (CRange b0 e0 m') = insert (b, h, e) (ranges_of (CRange b0 e0 (pre @ mid @ post)))"
proof -
  let ?m = "pre @ mid @ post" and ?N = "CRange b e mid"
  have post_fst: "h < fst p" if "p \<in> set post" for p
    using post that tree_ok_child(2) [OF t, of p] by (force intro: less_le_trans)
  then have "h \<notin> fst ` set (pre @ post)"
    using pre bh by (auto dest: leD)
  then have set: "set m' = insert (h, ?N) (set (pre @ post))"
    unfolding m'_def by (rule set_map_insert)
  have ok: "map_ok ?m" by (rule tree_ok_map [OF t])
  then have oks: "map_ok mid" "map_ok (pre @ post)" by (auto simp: map_ok_append)
  have N: "tree_ok ?N" by (rule tree_ok_subset [OF t oks(1)]) auto
  have rest: "tree_ok (CRange b0 e0 (pre @ post))" by (rule tree_ok_subset [OF t oks(2)]) auto
  have within: "b \<le> fst x \<and> fst x \<le> fst (snd x) \<and> fst (snd x) \<le> h \<and> (fst x, fst (snd x)) \<noteq> (b, h)"
    if p: "p \<in> set mid" and x: "x = ext p \<or> x \<in> ranges_of (snd p)" for p x
  proof -
    have p': "p \<in> set ?m" using p by simp
    note r = ranges_in_child [OF t p' x]
    have "b \<le> cr_base (snd p)" "fst p \<le> h" using mid p by auto
    then show ?thesis using r out [OF p'] by auto
  qed
  show ?fits
    unfolding storable_iff
  proof (intro ballI conjI)
    have "fits_beside b h x" if p: "p \<in> set ?m" and x: "x = ext p \<or> x \<in> ranges_of (snd p)" for p x
    proof -
      consider "p \<in> set mid" | "p \<in> set pre" | "p \<in> set post" using p by auto
      then show ?thesis
      proof cases
        case 1
        then show ?thesis using within [OF 1 x] by (simp add: fits_beside_def)
      next
        case 2
        then have "fst (snd x) < b" using ranges_in_child(3) [OF t p x] pre by (auto intro: le_less_trans)
        then show ?thesis by (simp add: fits_beside_def)
      next
        case 3
        then have "h < fst x" using ranges_in_child(1) [OF t p x] post by (auto intro: less_le_trans)
        then show ?thesis by (simp add: fits_beside_def)
      qed
    qed
    then show "fits_beside b h (ext p)" and "x \<in> ranges_of (snd p) \<Longrightarrow> fits_beside b h x"
      if "p \<in> set ?m" for p x using that by blast+
  qed
  show "tree_ok (CRange b0 e0 m')"
  proof (rule tree_okI)
    show "map_ok m'" unfolding m'_def by (rule map_ok_insert [OF oks(2)])
    show "cr_base (snd p) \<le> fst p \<and> tree_ok (snd p)" if "p \<in> set m'" for p
      using that N bh tree_ok_child [OF rest, of p] by (auto simp: set)
    show "cr_base (snd p) \<le> fst x \<and> fst x \<le> fst (snd x) \<and> fst (snd x) \<le> fst p
        \<and> (fst x, fst (snd x)) \<noteq> (cr_base (snd p), fst p)"
      if p: "p \<in> set m'" and x: "x \<in> ranges_of (snd p)" for p x
    proof (cases "p = (h, ?N)")
      case True
      then obtain q where "q \<in> set mid" "x = ext q \<or> x \<in> ranges_of (snd q)"
        using x by (auto simp only: ranges_of_iff snd_conv)
      then show ?thesis using within [of q x] True by simp
    next
      case False
      then have "p \<in> set (pre @ post)" using p by (simp add: set)
      from tree_ok_within [OF rest this x] show ?thesis by simp
    qed
    show "fst p < cr_base (snd q)" if p: "p \<in> set m'" and q: "q \<in> set m'" and less: "fst p < fst q" for p q
    proof (cases "p = (h, ?N)"; cases "q = (h, ?N)")
      assume "p \<noteq> (h, ?N)" "q \<noteq> (h, ?N)"
      then show ?thesis using tree_ok_apart [OF rest _ _ less] p q by (simp add: set)
    next
      assume "p = (h, ?N)" "q \<noteq> (h, ?N)"
      then show ?thesis using q less pre bh post by (force simp: set dest: leD)
    next
      assume "p \<noteq> (h, ?N)" "q = (h, ?N)"
      then have "p \<in> set pre \<or> p \<in> set post" "fst p < h" using p less by (simp_all add: set)
      then show ?thesis using \<open>q = (h, ?N)\<close> pre post_fst [of p] by auto
    qed (use less in simp)
  qed
  show "ranges_of (CRange b0 e0 m') = insert (b, h, e) (ranges_of (CRange b0 e0 ?m))"
    unfolding ranges_of_Union set by (auto simp: ext_def ranges_of_Union)
qed

lemma store_here_outcome:
  assumes t: "tree_ok (CRange b0 e0 m)" and bh: "b \<le> h"
    and out: "\<And>p. p \<in> set m \<Longrightarrow> \<not> (cr_base (snd p) \<le> b \<and> h \<le> fst p)"
  shows "if storable (CRange b0 e0 m) b h
    then \<exists>m'. store_here b h e m = (True, m') \<and> tree_ok (CRange b0 e0 m')
      \<and> ranges_of (CRange b0 e0 m') = insert (b, h, e) (ranges_of (CRange b0 e0 m))
    else store_here b h e m = (False, m)"
proof (cases "storable (CRange b0 e0 m) b h")
  case True
  with store_here_parts [OF t bh out, of e] obtain pre mid post where m: "m = pre @ mid @ post"
    and here: "store_here b h e m = (True, map_insert h (CRange b e mid) (pre @ post))"
    and parts: "\<forall>p\<in>set pre. fst p < b" "\<forall>p\<in>set mid. b \<le> cr_base (snd p) \<and> fst p \<le> h"
      "\<forall>p\<in>set post. h < cr_base (snd p)"
    by blast
  from store_parts_ok(2,3) [OF t [unfolded m] bh out [unfolded m] parts, of e] here True
  show ?thesis by (simp add: m)
next
  case False
  have "\<not> (\<exists>pre mid post. m = pre @ mid @ post
      \<and> (\<forall>p\<in>set pre. fst p < b) \<and> (\<forall>p\<in>set mid. b \<le> cr_base (snd p) \<and> fst p \<le> h)
      \<and> (\<forall>p\<in>set post. h < cr_base (snd p)))"
    using store_parts_ok(1) [of b0 e0] t bh out False by blast
  with store_here_parts [OF t bh out, of e] have "store_here b h e m = (False, m)" by blast
  with False show ?thesis by simp
qed

text \<open>The only child a new range can be inside is the one both bounds point to.\<close>

lemma inside_at_bound:
  assumes t: "tree_ok (CRange b0 e0 m)" and bh: "b \<le> h"
    and p: "p \<in> set m" "cr_base (snd p) \<le> b" "h \<le> fst p"
  shows "\<exists>rest. lower_bound m b = p # rest \<and> lower_bound m h = p # rest"
proof -
  have apart: "fst q < b" if q: "q \<in> set m" "fst q < fst p" for q
    using tree_ok_apart [OF t q(1) p(1) q(2)] p(2) by simp
  then have "\<forall>q\<in>set m. b \<le> fst q \<longrightarrow> fst p \<le> fst q" using not_le by blast
  moreover have "b \<le> fst p" using bh p(3) by (rule order.trans)
  ultimately obtain rest where at: "lower_bound m b = p # rest"
    using lower_bound_at [OF tree_ok_map [OF t], of "fst p" "snd p" b] p(1) by auto
  moreover have "fst q < b \<longleftrightarrow> fst q < h" if "q \<in> set m" for q
    using apart [OF that] bh p(3) by (meson le_less_linear less_le_trans not_less)
  ultimately show ?thesis using lower_bound_eq_iff [OF tree_ok_map [OF t], of b h] at by metis
qed

lemma CR_StoreRange_outcome:
  assumes "tree_ok t"
  shows "if len \<noteq> 0 \<and> base \<le> base + len - 1 \<and> storable t base (base + len - 1)
    then \<exists>t'. CR_StoreRange base len e t = (True, t') \<and> tree_ok t' \<and> cr_base t' = cr_base t
      \<and> cr_entry t' = cr_entry t \<and> ranges_of t' = insert (base, base + len - 1, e) (ranges_of t)
    else CR_StoreRange base len e t = (False, t)"
  using assms
proof (induction t rule: measure_induct_rule [of size])
  case (less t)
  obtain b0 e0 m where t: "t = CRange b0 e0 m" by (cases t)
  note ok = less.prems [unfolded t]
  define high where "high = base + len - 1"
  note unfold = CR_StoreRange.simps [of base len e b0 e0 m, folded high_def, unfolded Let_def]
  show ?case
  proof (cases "len \<noteq> 0 \<and> base \<le> high")
    case False
    then show ?thesis unfolding t high_def [symmetric] by (auto simp: unfold)
  next
    case valid: True
    show ?thesis
    proof (cases "\<exists>p\<in>set m. cr_base (snd p) \<le> base \<and> high \<le> fst p")
      case True
      then obtain k c where c: "(k, c) \<in> set m" "cr_base c \<le> base" "high \<le> k" by auto
      obtain rest where lb: "lower_bound m base = (k, c) # rest" "lower_bound m high = (k, c) # rest"
        using inside_at_bound [OF ok _ c(1)] c valid by auto
      note fits = storable_inside [OF ok c(1), unfolded fst_conv snd_conv, OF c(2,3) conjunct2 [OF valid]]
      show ?thesis
      proof (cases "cr_base c = base \<and> k = high")
        case True
        then show ?thesis
          using valid lb c fits unfolding t high_def [symmetric] by (simp add: unfold)
      next
        case False
        have IH: "if len \<noteq> 0 \<and> base \<le> high \<and> storable c base high
          then \<exists>t'. CR_StoreRange base len e c = (True, t') \<and> tree_ok t' \<and> cr_base t' = cr_base c
            \<and> cr_entry t' = cr_entry c \<and> ranges_of t' = insert (base, high, e) (ranges_of c)
          else CR_StoreRange base len e c = (False, c)"
          using less.IH [of c] child_size [OF c(1), of b0 e0] tree_ok_child(1) [OF ok c(1)]
          unfolding high_def t snd_conv by blast
        have step: "CR_StoreRange base len e (CRange b0 e0 m) =
            (let (ok, c') = CR_StoreRange base len e c in (ok, CRange b0 e0 (replace_child k c' m)))"
          using valid lb c False by (auto simp: unfold)
        show ?thesis
        proof (cases "storable c base high")
          case True
          with IH valid obtain c' where c': "CR_StoreRange base len e c = (True, c')" "tree_ok c'"
            "cr_base c' = cr_base c" "cr_entry c' = cr_entry c"
            "ranges_of c' = insert (base, high, e) (ranges_of c)" by auto
          from replace_child_ok [OF ok c(1) c'(2-5)] c(2,3) valid False
          show ?thesis using True False c' step fits valid unfolding t high_def [symmetric] by auto
        next
          case False
          then show ?thesis
            using IH fits step replace_child_same [OF tree_ok_map [OF ok] c(1)]
            unfolding t high_def [symmetric] by simp
        qed
      qed
    next
      case False
      have "CR_StoreRange base len e (CRange b0 e0 m) =
          (let (ok, m') = store_here base high e m in (ok, CRange b0 e0 m'))"
      proof (cases "lower_bound m base")
        case Nil
        then show ?thesis using valid by (auto simp: unfold)
      next
        case (Cons p rest)
        have "\<not> (lower_bound m base = lower_bound m high \<and> cr_base (snd p) \<le> base)"
        proof
          assume "lower_bound m base = lower_bound m high \<and> cr_base (snd p) \<le> base"
          then have "p \<in> set m" "high \<le> fst p" "cr_base (snd p) \<le> base"
            using lower_bound_Cons [OF tree_ok_map [OF ok], of high "fst p" "snd p" rest] Cons by auto
          then show False using False by blast
        qed
        then show ?thesis using valid Cons by (cases p) (auto simp: unfold)
      qed
      moreover have "\<And>p. p \<in> set m \<Longrightarrow> \<not> (cr_base (snd p) \<le> base \<and> high \<le> fst p)"
        using False by blast
      note store_here_outcome [OF ok conjunct2 [OF valid] this, of e]
      ultimately show ?thesis using valid unfolding t high_def [symmetric] by (auto split: if_splits)
    qed
  qed
qed

text \<open>Looking an address up goes down into the one child that holds it.\<close>

definition holds :: "'k::linorder \<Rightarrow> 'k \<times> 'k \<times> 'e \<Rightarrow> bool" where
  "holds a x \<longleftrightarrow> fst x \<le> a \<and> a \<le> fst (snd x)"

lemma holds_child:
  assumes t: "tree_ok (CRange b0 e0 m)" and lb: "lower_bound m a = (k, c) # rest"
    and x: "x \<in> ranges_of (CRange b0 e0 m)" "holds a x"
  shows "cr_base c \<le> a \<and> a \<le> k \<and> (x = ext (k, c) \<or> x \<in> ranges_of c)"
proof -
  from x(1) obtain p where p: "p \<in> set m" "x = ext p \<or> x \<in> ranges_of (snd p)"
    by (auto simp only: ranges_of_iff)
  have in_p: "cr_base (snd p) \<le> a" "a \<le> fst p"
    using ranges_in_child [OF t p] x(2) by (auto simp: holds_def)
  then obtain rest' where "lower_bound m a = p # rest'"
    using inside_at_bound [OF t order.refl p(1)] by blast
  with lb have "p = (k, c)" by simp
  with in_p p(2) show ?thesis by simp
qed

lemma CR_RetrieveRange_innermost:
  assumes "tree_ok t"
  shows "case CR_RetrieveRange t a of
      None \<Rightarrow> \<not> (\<exists>x\<in>ranges_of t. holds a x)
    | Some e \<Rightarrow> \<exists>b h. (b, h, e) \<in> ranges_of t \<and> holds a (b, h, e)
        \<and> (\<forall>x\<in>ranges_of t. holds a x \<longrightarrow> fst x \<le> b \<and> h \<le> fst (snd x))"
  using assms
proof (induction t rule: measure_induct_rule [of size])
  case (less t)
  obtain b0 e0 m where t: "t = CRange b0 e0 m" by (cases t)
  note ok = less.prems [unfolded t]
  show ?case
  proof (cases "lower_bound m a")
    case Nil
    have False if x: "x \<in> ranges_of t" "holds a x" for x
    proof -
      from x(1) obtain p where p: "p \<in> set m" "x = ext p \<or> x \<in> ranges_of (snd p)"
        unfolding t ranges_of_iff by blast
      from ranges_in_child(3) [OF ok this] have "a \<le> fst p"
        using x(2) unfolding holds_def by (blast intro: order.trans)
      then show False using Nil p(1) by (auto simp: lower_bound_Nil)
    qed
    then show ?thesis using Nil by (auto simp: t CR_RetrieveRange.simps)
  next
    case (Cons p rest)
    obtain k c where p: "p = (k, c)" by (cases p)
    note lb = Cons [unfolded p]
    have c: "(k, c) \<in> set m" "a \<le> k" using lower_bound_Cons [OF tree_ok_map [OF ok] lb] by auto
    note down = holds_child [OF ok lb]
    show ?thesis
    proof (cases "a < cr_base c")
      case True
      then have "CR_RetrieveRange t a = None" using lb by (simp add: t CR_RetrieveRange.simps)
      moreover have "\<not> (\<exists>x\<in>ranges_of t. holds a x)" using down True unfolding t by (meson leD)
      ultimately show ?thesis by simp
    next
      case False
      have IH: "case CR_RetrieveRange c a of
          None \<Rightarrow> \<not> (\<exists>x\<in>ranges_of c. holds a x)
        | Some e \<Rightarrow> \<exists>b h. (b, h, e) \<in> ranges_of c \<and> holds a (b, h, e)
            \<and> (\<forall>x\<in>ranges_of c. holds a x \<longrightarrow> fst x \<le> b \<and> h \<le> fst (snd x))"
        using less.IH [of c] child_size [OF c(1), of b0 e0] tree_ok_child(1) [OF ok c(1)]
        unfolding t snd_conv by blast
      have sub: "ext (k, c) \<in> ranges_of t" "ranges_of c \<subseteq> ranges_of t"
        using c(1) unfolding t ranges_of_Union by force+
      have hold: "holds a (ext (k, c))" using False c(2) by (simp add: holds_def ext_def)
      show ?thesis
      proof (cases "CR_RetrieveRange c a")
        case None
        then have r: "CR_RetrieveRange t a = Some (cr_entry c)"
          using lb False by (simp add: t CR_RetrieveRange.simps)
        have none: "\<not> (\<exists>x\<in>ranges_of c. holds a x)" using IH None by simp
        have only: "x = ext (k, c)" if "x \<in> ranges_of t" "holds a x" for x
          using down [of x] that none unfolding t by blast
        have "fst x \<le> cr_base c \<and> k \<le> fst (snd x)" if "x \<in> ranges_of t" "holds a x" for x
          using only [OF that] by (simp add: ext_def)
        then show ?thesis
          using sub(1) hold unfolding r option.case ext_def fst_conv snd_conv by blast
      next
        case (Some e)
        then have r: "CR_RetrieveRange t a = Some e"
          using lb False by (simp add: t CR_RetrieveRange.simps)
        from IH Some obtain b h where bh: "(b, h, e) \<in> ranges_of c" "holds a (b, h, e)"
          "\<And>x. x \<in> ranges_of c \<Longrightarrow> holds a x \<Longrightarrow> fst x \<le> b \<and> h \<le> fst (snd x)" by auto
        have "fst x \<le> b \<and> h \<le> fst (snd x)" if x: "x \<in> ranges_of t" "holds a x" for x
        proof (cases "x \<in> ranges_of c")
          case False
          then have "x = ext (k, c)" using down [of x] x unfolding t by blast
          then show ?thesis using tree_ok_within [OF ok c(1), of "(b, h, e)"] bh(1) by (simp add: ext_def)
        qed (use bh(3) x in blast)
        then show ?thesis using bh(1,2) sub(2) unfolding r option.case by blast
      qed
    qed
  qed
qed

lemma finite_ranges_of [simp]: "finite (ranges_of t)"
proof (induction t rule: measure_induct_rule [of size])
  case (less t)
  obtain b e m where t: "t = CRange b e m" by (cases t)
  have "finite (ranges_of (snd p))" if "p \<in> set m" for p
    using less [of "snd p"] child_size [OF that, of b e] by (simp add: t)
  then show ?case unfolding t ranges_of_Union by simp
qed

lemma ranges_nested:
  assumes "tree_ok t" "x \<in> ranges_of t" "y \<in> ranges_of t" "x \<noteq> y"
  shows "fits_beside (fst x) (fst (snd x)) y"
  using assms
proof (induction t rule: measure_induct_rule [of size])
  case (less t)
  obtain b0 e0 m where t: "t = CRange b0 e0 m" by (cases t)
  note ok = less.prems(1) [unfolded t]
  from less.prems(2) obtain p where p: "p \<in> set m" "x = ext p \<or> x \<in> ranges_of (snd p)"
    unfolding t ranges_of_iff by blast
  from less.prems(3) obtain q where q: "q \<in> set m" "y = ext q \<or> y \<in> ranges_of (snd q)"
    unfolding t ranges_of_iff by blast
  note in_p = ranges_in_child [OF ok p] and in_q = ranges_in_child [OF ok q]
  show ?case
  proof (cases "p = q")
    case False
    with tree_ok_disjoint [OF ok p(1) q(1)] in_p in_q show ?thesis
      by (auto simp: fits_beside_def)
  next
    case True
    show ?thesis
    proof (cases "x \<in> ranges_of (snd p) \<and> y \<in> ranges_of (snd p)")
      case True
      then show ?thesis
        using less.IH [of "snd p"] child_size [OF p(1), of b0 e0] tree_ok_child(1) [OF ok p(1)] less.prems(4)
        unfolding t by blast
    next
      case False
      then have "x = ext p \<and> y \<in> ranges_of (snd p) \<or> y = ext p \<and> x \<in> ranges_of (snd p)"
        using p(2) q(2) True less.prems(4) by auto
      then show ?thesis
      proof
        assume a: "x = ext p \<and> y \<in> ranges_of (snd p)"
        show ?thesis
          using tree_ok_within [OF ok p(1), of y] a by (simp add: fits_beside_def ext_def)
      next
        assume a: "y = ext p \<and> x \<in> ranges_of (snd p)"
        show ?thesis
          using tree_ok_within [OF ok p(1), of x] a by (auto simp: fits_beside_def ext_def)
      qed
    qed
  qed
qed

section \<open>The contract\<close>

definition nested_example :: "(32 word, string) crange" where
  "nested_example = CRange 0 ''root'' [(0x1fff, CRange 0x1000 ''f'' [(0x14ff, CRange 0x1400 ''h'' [])])]"

lemma nested_example_ok: "tree_ok nested_example"
  by (simp add: nested_example_def tree_ok.simps ranges_of.simps map_ok_def)

lemma nested_example_stores:
  "snd (CR_StoreRange 0x1000 0x1000 ''f'' (snd (CR_StoreRange 0x1800 0x1000 ''g''
    (snd (CR_StoreRange 0x1400 0x100 ''h'' (snd (CR_StoreRange 0x1000 0x1000 ''f''
      (CRange 0 ''root'' [])))))))) = nested_example"
  by (simp add: nested_example_def CR_StoreRange.simps store_here_def
      lower_bound_def replace_child_def Let_def)

definition contained_store ::
  "'n word \<times> 'n word \<times> 'e \<Rightarrow> ('n::len word, 'e) crange \<Rightarrow> (bool \<times> ('n word, 'e) crange) option" where
  "contained_store = (\<lambda>(base, len, entry) t. Some (CR_StoreRange base len entry t))"

definition span :: "'n::len word \<times> 'n word \<times> 'e \<Rightarrow> 'n word \<times> 'n word \<times> 'e" where
  "span = (\<lambda>(base, len, entry). (base, base + len - 1, entry))"

definition new_ContainedRangeMap :: "'k \<Rightarrow> 'e \<Rightarrow> ('k, 'e) crange" where
  "new_ContainedRangeMap b e = CRange b e []"

lemma storable_fresh: "b \<le> h \<Longrightarrow> storable t b h \<Longrightarrow> (b, h, e) \<notin> ranges_of t"
  by (force simp: storable_def fits_beside_def)

interpretation contained_range_map: recording_store tree_ok contained_store ranges_of span
  "\<lambda>t. card (ranges_of t)"
proof
  fix t :: "('n::len word, 'e) crange" and x :: "'n word \<times> 'n word \<times> 'e"
  assume t: "tree_ok t"
  obtain b len e where x: "x = (b, len, e)" by (cases x)
  show "contained_store x t = Some (False, t) \<or> (\<exists>t'. contained_store x t = Some (True, t') \<and>
    tree_ok t' \<and> ranges_of t' = insert (span x) (ranges_of t) \<and>
    card (ranges_of t') = Suc (card (ranges_of t)))"
    using CR_StoreRange_outcome [OF t, of len b e] storable_fresh [of b "b + len - 1" t e]
    by (auto simp: contained_store_def span_def x split: if_splits)
qed

lemma new_ContainedRangeMap_ok [simp]:
  "tree_ok (new_ContainedRangeMap b e)" "ranges_of (new_ContainedRangeMap b e) = {}"
  by (simp_all add: new_ContainedRangeMap_def tree_ok.simps ranges_of.simps)

text \<open>
  C34. \<open>ContainedRangeMap\<close>: after any sequence of \<open>StoreRange\<close> calls on a new map, the tree holds exactly
  the ranges of the calls that returned true, each once; two of them are disjoint, or one properly
  contains the other; and the nesting in the tree is containment (\<open>tree_ok\<close>).
\<close>
theorem contained_range_map_stores:
  fixes xs :: "('n::len word \<times> 'n word \<times> 'e) list"
  shows "\<exists>oks t. store_all contained_store xs (new_ContainedRangeMap b0 e0) = Some (oks, t)
    \<and> tree_ok t \<and> length oks = length xs
    \<and> ranges_of t = span ` accepted xs oks
    \<and> card (ranges_of t) = length (filter id oks)
    \<and> pairwise (\<lambda>x y. fits_beside (fst x) (fst (snd x)) y) (ranges_of t)"
  using contained_range_map.stores_return [of "new_ContainedRangeMap b0 e0" xs]
  by (auto simp: pairwise_def intro: ranges_nested)

text \<open>
  C35. \<open>ContainedRangeMap::StoreRange\<close> accepts exactly the ranges that are not empty, do not wrap around
  the address space, and are disjoint from, properly inside, or properly around every range stored;
  it then adds the range and its entry and nothing else, and otherwise leaves the map as it was.
\<close>
theorem contained_range_map_accepts:
  fixes len base :: "'n::len word" and entry :: 'e
  assumes "tree_ok t"
  defines "high \<equiv> base + len - 1"
  shows "\<exists>t'. CR_StoreRange base len entry t
      = (len \<noteq> 0 \<and> base \<le> high \<and> (\<forall>x\<in>ranges_of t. fits_beside base high x), t')
    \<and> tree_ok t'
    \<and> (if len \<noteq> 0 \<and> base \<le> high \<and> (\<forall>x\<in>ranges_of t. fits_beside base high x)
        then ranges_of t' = insert (base, high, entry) (ranges_of t) else t' = t)"
  using CR_StoreRange_outcome [OF assms(1), of len base entry] assms(1)
  unfolding storable_def high_def [symmetric] by (auto split: if_splits)

text \<open>
  C36. \<open>ContainedRangeMap::RetrieveRange\<close> returns the entry of the innermost range that holds the address:
  every stored range that holds the address contains that one; and it fails only if no stored range
  holds the address.
\<close>
theorem contained_range_map_innermost:
  fixes t :: "('n::len word, 'e) crange"
  assumes "tree_ok t"
  shows "case CR_RetrieveRange t a of
      None \<Rightarrow> \<not> (\<exists>x\<in>ranges_of t. fst x \<le> a \<and> a \<le> fst (snd x))
    | Some e \<Rightarrow> \<exists>b h. (b, h, e) \<in> ranges_of t \<and> b \<le> a \<and> a \<le> h
        \<and> (\<forall>x\<in>ranges_of t. fst x \<le> a \<and> a \<le> fst (snd x) \<longrightarrow> fst x \<le> b \<and> h \<le> fst (snd x))"
  using CR_RetrieveRange_innermost [OF assms, of a] by (simp add: holds_def split: option.splits)

lemma contained_range_map_accepts_witness:
  "\<exists>t'. CR_StoreRange 0x1800 0x1000 ''g'' nested_example
      = ((0x1000 :: 32 word) \<noteq> 0 \<and> (0x1800 :: 32 word) \<le> 0x1800 + 0x1000 - 1
        \<and> (\<forall>x\<in>ranges_of nested_example. fits_beside 0x1800 (0x1800 + 0x1000 - 1) x), t')
    \<and> tree_ok t'
    \<and> (if (0x1000 :: 32 word) \<noteq> 0 \<and> (0x1800 :: 32 word) \<le> 0x1800 + 0x1000 - 1
        \<and> (\<forall>x\<in>ranges_of nested_example. fits_beside 0x1800 (0x1800 + 0x1000 - 1) x)
      then ranges_of t' = insert (0x1800, 0x1800 + 0x1000 - 1, ''g'') (ranges_of nested_example)
      else t' = nested_example)"
  by (rule contained_range_map_accepts [OF nested_example_ok])

lemma contained_range_map_innermost_witness:
  "\<exists>b h. (b, h, ''h'') \<in> ranges_of nested_example \<and> b \<le> 0x1480 \<and> 0x1480 \<le> h
    \<and> \<not> (\<exists>x\<in>ranges_of nested_example. fst x \<le> 0x1480 \<and> 0x1480 \<le> fst (snd x)
        \<and> \<not> (fst x \<le> b \<and> h \<le> fst (snd x)))"
proof -
  have "CR_RetrieveRange nested_example 0x1480 = Some ''h''"
    by (simp add: nested_example_def CR_RetrieveRange.simps lower_bound_def)
  then show ?thesis
    using contained_range_map_innermost [OF nested_example_ok, of "0x1480"] by auto
qed

end
