(* ===== verification/Symbol_Text.thy ===== *)
theory Symbol_Text
  imports Postfix_Evaluator
begin

text \<open>
  The C library functions with which the processor takes symbol files apart, \<open>strtok_r\<close>, \<open>strtol\<close>,
  \<open>strtoul\<close> and \<open>strtoull\<close>, and \<open>src/app/breakpad/src/processor/tokenize.cc\<close>.

  A C string is the list of its characters in front of the terminating NUL.  \<open>strtok_r\<close> writes a NUL
  over the separator behind a token and saves the position behind that; so what it leaves is the token
  and the text behind the separator.  Integers have the widths of LP64: \<open>unsigned long\<close> and
  \<open>unsigned long long\<close> are 64-bit words, \<open>long\<close> is an \<open>int\<close> between its limits.

  Lemmas: a text of words with single separators is taken apart into them, and a number written in
  decimal or hexadecimal is read back.
\<close>

type_synonym u64 = "64 word"

section \<open>Tokens\<close>

definition strtok_r :: "char set \<Rightarrow> string \<Rightarrow> (string \<times> string) option" where
  "strtok_r delims s =
     (let t = dropWhile (\<lambda>c. c \<in> delims) s in
      if t = [] then None
      else Some (takeWhile (\<lambda>c. c \<notin> delims) t, tl (dropWhile (\<lambda>c. c \<notin> delims) t)))"

definition eols :: "char set" where
  "eols = {CHR 0x0D, CHR 0x0A}"

definition kWhitespace :: "char set" where
  "kWhitespace = {CHR '' '', CHR 0x0D, CHR 0x0A}"

lemma strtok_r_shorter: "strtok_r delims s = Some (token, rest) \<Longrightarrow> length rest < length s"
proof -
  assume a: "strtok_r delims s = Some (token, rest)"
  define t where "t = dropWhile (\<lambda>c. c \<in> delims) s"
  have t: "t \<noteq> []" and rest: "rest = tl (dropWhile (\<lambda>c. c \<notin> delims) t)"
    using a by (auto simp: strtok_r_def t_def [symmetric] Let_def split: if_splits)
  have "length rest \<le> length (dropWhile (\<lambda>c. c \<notin> delims) t) - 1" by (simp add: rest)
  also have "\<dots> \<le> length t - 1" by (intro diff_le_mono length_dropWhile_le)
  also have "\<dots> < length t" using t by simp
  also have "\<dots> \<le> length s" by (simp add: t_def length_dropWhile_le)
  finally show ?thesis .
qed

text \<open>
  The loop of \<open>Tokenize\<close> on the current token, with the text behind it, and the tokens so far; it
  yields \<open>remaining\<close>, the text where \<open>save_ptr\<close> points, and the tokens.
\<close>

function tokenize_loop ::
  "char set \<Rightarrow> int \<Rightarrow> (string \<times> string) option \<Rightarrow> string list \<Rightarrow> int \<times> string \<times> string list"
where
  "tokenize_loop separators remaining None toks = (remaining, [], toks)"
| "tokenize_loop separators remaining (Some (token, text)) toks =
     (let remaining = remaining - 1 in
      if remaining > 0 then
        tokenize_loop separators remaining
          (if remaining > 1 then strtok_r separators text else Some (token, text)) (toks @ [token])
      else (remaining, text, toks))"
  by pat_completeness auto
termination by (relation "measure (\<lambda>(_, remaining, _). nat remaining)") auto

definition Tokenize :: "string \<Rightarrow> char set \<Rightarrow> nat \<Rightarrow> string list option" where
  "Tokenize line separators max_tokens =
     (let (remaining, text, toks) =
            tokenize_loop separators (int max_tokens) (strtok_r separators line) [];
          toks = (if remaining = 0
            then case strtok_r eols text of None \<Rightarrow> toks | Some (token, _) \<Rightarrow> toks @ [token]
            else toks) in
      if length toks = max_tokens then Some toks else None)"

declare tokenize_loop.simps [simp del]

section \<open>Numbers\<close>

definition hex_digit_value :: "char \<Rightarrow> nat option" where
  "hex_digit_value c =
     (let n = of_char c in
      if 48 \<le> n \<and> n \<le> 57 then Some (n - 48)
      else if 97 \<le> n \<and> n \<le> 102 then Some (n - 87)
      else if 65 \<le> n \<and> n \<le> 70 then Some (n - 55)
      else None)"

definition digit_value :: "nat \<Rightarrow> char \<Rightarrow> nat option" where
  "digit_value b c = (case hex_digit_value c of Some d \<Rightarrow> if d < b then Some d else None | None \<Rightarrow> None)"

definition digits_value :: "nat \<Rightarrow> string \<Rightarrow> nat" where
  "digits_value b ds = foldl (\<lambda>v c. v * b + the (digit_value b c)) 0 ds"

text \<open>
  White space, a sign, a prefix \<open>0x\<close> in front of a digit, digits: the sign, the number and the text
  behind it, or \<open>None\<close> if there is no digit
\<close>

definition scan_sign :: "string \<Rightarrow> bool \<times> string" where
  "scan_sign s = (case s of [] \<Rightarrow> (False, [])
     | c # t \<Rightarrow> if c = CHR ''-'' then (True, t) else if c = CHR ''+'' then (False, t) else (False, s))"

definition scan_prefix :: "nat \<Rightarrow> string \<Rightarrow> string" where
  "scan_prefix b s =
     (if b = 16 \<and> length s > 2 \<and> s ! 0 = CHR ''0'' \<and> s ! 1 \<in> set ''xX'' \<and> digit_value 16 (s ! 2) \<noteq> None
      then drop 2 s else s)"

definition scan_number :: "nat \<Rightarrow> string \<Rightarrow> (bool \<times> nat \<times> string) option" where
  "scan_number b s =
     (let (negative, t) = scan_sign (dropWhile white s);
          t = scan_prefix b t;
          ds = takeWhile (\<lambda>c. digit_value b c \<noteq> None) t in
      if ds = [] then None
      else Some (negative, digits_value b ds, dropWhile (\<lambda>c. digit_value b c \<noteq> None) t))"

text \<open>The value, and what \<open>*endptr\<close> points to\<close>

definition strtoull :: "nat \<Rightarrow> string \<Rightarrow> u64 \<times> string" where
  "strtoull b s =
     (case scan_number b s of
        None \<Rightarrow> (0, s)
      | Some (negative, n, rest) \<Rightarrow>
          (if n \<ge> 2 ^ 64 then - 1 else if negative then - of_nat n else of_nat n, rest))"

definition LONG_MAX :: int where "LONG_MAX = 2 ^ 63 - 1"

definition strtol :: "nat \<Rightarrow> string \<Rightarrow> int \<times> string" where
  "strtol b s =
     (case scan_number b s of
        None \<Rightarrow> (0, s)
      | Some (negative, n, rest) \<Rightarrow>
          (if negative then max (- int n) (- (2 ^ 63)) else min (int n) LONG_MAX, rest))"

section \<open>Words\<close>

text \<open>All tokens of a text, and a text of words\<close>

function strtok_all :: "char set \<Rightarrow> string \<Rightarrow> string list" where
  "strtok_all delims s =
     (case strtok_r delims s of None \<Rightarrow> [] | Some (token, rest) \<Rightarrow> token # strtok_all delims rest)"
  by auto
termination
  by (relation "measure (\<lambda>(_, s). length s)") (auto dest: strtok_r_shorter)

declare strtok_all.simps [simp del]

fun join_words :: "string list \<Rightarrow> string" where
  "join_words [] = []"
| "join_words [w] = w"
| "join_words (w # v # ws) = w @ CHR '' '' # join_words (v # ws)"

definition word_in :: "char set \<Rightarrow> string \<Rightarrow> bool" where
  "word_in delims w \<longleftrightarrow> w \<noteq> [] \<and> (\<forall>c\<in>set w. c \<notin> delims)"

lemma join_words_Cons: "ws \<noteq> [] \<Longrightarrow> join_words (w # ws) = w @ CHR '' '' # join_words ws"
  by (cases ws) simp_all

lemma join_words_append:
  "vs \<noteq> [] \<Longrightarrow> ws \<noteq> [] \<Longrightarrow> join_words (vs @ ws) = join_words vs @ CHR '' '' # join_words ws"
  by (induction vs rule: join_words.induct) (simp_all add: join_words_Cons)

lemma join_words_empty: "\<forall>w\<in>set ws. w \<noteq> [] \<Longrightarrow> join_words ws = [] \<longleftrightarrow> ws = []"
  by (cases ws rule: join_words.cases) simp_all

lemma strtok_r_word:
  assumes "word_in delims w" "rest = [] \<or> hd rest \<in> delims"
  shows "strtok_r delims (w @ rest) = Some (w, tl rest)"
proof -
  have "dropWhile (\<lambda>c. c \<in> delims) (w @ rest) = w @ rest"
    using assms(1) by (cases w) (simp_all add: word_in_def)
  moreover have "takeWhile (\<lambda>c. c \<notin> delims) (w @ rest) = w \<and> dropWhile (\<lambda>c. c \<notin> delims) (w @ rest) = rest"
    using assms by (cases rest) (auto simp: word_in_def takeWhile_append dropWhile_append)
  ultimately show ?thesis using assms(1) by (simp add: strtok_r_def word_in_def)
qed

lemma strtok_r_Nil [simp]: "strtok_r delims [] = None"
  by (simp add: strtok_r_def)

lemma strtok_all_join:
  assumes "CHR '' '' \<in> delims" "\<forall>w\<in>set ws. word_in delims w"
  shows "strtok_all delims (join_words ws) = ws"
  using assms(2)
proof (induction ws rule: join_words.induct)
  case 1
  then show ?case by (simp add: strtok_all.simps)
next
  case (2 w)
  then show ?case
    using strtok_r_word [of delims w "[]"] by (simp add: strtok_all.simps [of _ w] strtok_all.simps [of _ "[]"])
next
  case (3 w v ws)
  then show ?case
    using strtok_r_word [of delims w "CHR '' '' # join_words (v # ws)"] assms(1)
    by (subst strtok_all.simps) simp
qed

lemma strtok_r_skip: "c \<in> delims \<Longrightarrow> strtok_r delims (c # s) = strtok_r delims s"
  by (simp add: strtok_r_def)

lemma strtok_all_skip: "c \<in> delims \<Longrightarrow> strtok_all delims (c # s) = strtok_all delims s"
  by (simp add: strtok_all.simps [of _ "c # s"] strtok_all.simps [of _ s] strtok_r_skip)

lemma tokens_strtok_all: "tokens s = strtok_all {c. white c} s"
proof (induction s rule: tokens.induct)
  case (1 s)
  define t where "t = dropWhile white s"
  define d where "d = dropWhile (\<lambda>c. \<not> white c) t"
  have d: "strtok_all {c. white c} d = strtok_all {c. white c} (tl d)"
  proof (cases d)
    case (Cons c u)
    then have "white c" using hd_dropWhile [of "\<lambda>c. \<not> white c" t] by (simp add: d_def)
    then show ?thesis using Cons by (simp add: strtok_all_skip)
  qed simp
  show ?case
  proof (cases "t = []")
    case True
    then show ?thesis
      by (simp add: tokens.simps [of s] strtok_all.simps [of _ s] strtok_r_def t_def)
  next
    case False
    have "tokens d = strtok_all {c. white c} d" using 1 [OF t_def False] by (simp add: d_def)
    with False d show ?thesis
      by (simp add: tokens.simps [of s] strtok_all.simps [of _ s] strtok_r_def Let_def
          t_def [symmetric] d_def [symmetric])
  qed
qed

lemma tokens_join:
  "\<forall>w\<in>set ws. w \<noteq> [] \<and> (\<forall>c\<in>set w. \<not> white c) \<Longrightarrow> tokens (join_words ws) = ws"
  unfolding tokens_strtok_all by (rule strtok_all_join) (simp_all add: word_in_def white_def)

section \<open>Writing numbers\<close>

abbreviation NUL :: char where "NUL \<equiv> CHR 0x00"

text \<open>What an output stream writes for a number after \<open>hex\<close> and after \<open>dec\<close>\<close>

definition digit_char :: "nat \<Rightarrow> char" where
  "digit_char d = char_of (if d < 10 then 48 + d else 87 + d)"

function digits_text :: "nat \<Rightarrow> nat \<Rightarrow> string" where
  "digits_text b n = (if b < 2 \<or> n < b then [digit_char n] else digits_text b (n div b) @ [digit_char (n mod b)])"
  by auto
termination by (relation "measure snd") auto

declare digits_text.simps [simp del]

definition hex_text :: "u64 \<Rightarrow> string" where
  "hex_text x = digits_text 16 (unat x)"

definition dec_text :: "int \<Rightarrow> string" where
  "dec_text i = (if i < 0 then CHR ''-'' # digits_text 10 (nat (- i)) else digits_text 10 (nat i))"

lemma digit_value_char: "d < b \<Longrightarrow> b \<le> 16 \<Longrightarrow> digit_value b (digit_char d) = Some d"
  by (simp add: digit_value_def hex_digit_value_def digit_char_def Let_def)

lemma digits_text_value:
  assumes "2 \<le> b" "b \<le> 16"
  shows "digits_text b n \<noteq> [] \<and> (\<forall>c\<in>set (digits_text b n). digit_value b c \<noteq> None)
    \<and> digits_value b (digits_text b n) = n"
proof (induction n rule: measure_induct_rule [of id])
  case (less n)
  show ?case
  proof (cases "n < b")
    case True
    then show ?thesis
      using digit_value_char [of n b] assms by (simp add: digits_text.simps [of b n] digits_value_def)
  next
    case False
    then have "n div b < n" using assms(1) by simp
    moreover have "n mod b < b" using assms(1) by simp
    moreover have "digits_text b n = digits_text b (n div b) @ [digit_char (n mod b)]"
      using False assms(1) by (simp add: digits_text.simps [of b n])
    ultimately show ?thesis
      using less [of "n div b"] digit_value_char [of "n mod b" b] assms(2) by (simp add: digits_value_def)
  qed
qed

text \<open>No digit is a separator, a sign, or the \<open>x\<close> of a prefix.\<close>

definition number_breaks :: "char set" where
  "number_breaks = {CHR '' '', CHR 0x09, CHR 0x0A, CHR 0x0B, CHR 0x0C, CHR 0x0D, CHR ''-'', CHR ''+'', CHR ''x'',
     CHR ''X'', CHR '':'', NUL}"

lemma digit_value_None: "c \<in> number_breaks \<Longrightarrow> digit_value b c = None"
proof -
  have "c \<in> number_breaks \<Longrightarrow> hex_digit_value c = None"
    unfolding number_breaks_def by (elim insertE emptyE) (simp_all add: hex_digit_value_def)
  then show "c \<in> number_breaks \<Longrightarrow> digit_value b c = None" by (simp add: digit_value_def)
qed

lemma white_number_breaks: "white c \<Longrightarrow> c \<in> number_breaks"
  by (simp only: white_def number_breaks_def) (elim insertE emptyE; simp)

lemma scan_digits:
  assumes "ds \<noteq> []" "\<forall>c\<in>set ds. digit_value b c \<noteq> None"
  shows "scan_number b ds = Some (False, digits_value b ds, [])"
proof -
  have no: "c \<notin> number_breaks" if "c \<in> set ds" for c
    using assms(2) that digit_value_None by metis
  obtain c t where ds: "ds = c # t" using assms(1) by (cases ds) auto
  have "\<not> white c" using no [of c] white_number_breaks by (auto simp: ds)
  then have "dropWhile white ds = ds" by (simp add: ds)
  moreover have "scan_sign ds = (False, ds)" using no [of c] by (simp add: ds scan_sign_def number_breaks_def)
  moreover have "scan_prefix b ds = ds"
  proof -
    have "ds ! 1 \<notin> set ''xX''" if "length ds > 2" using no [of "ds ! 1"] that by (simp add: number_breaks_def)
    then show ?thesis by (auto simp: scan_prefix_def)
  qed
  moreover have "takeWhile (\<lambda>c. digit_value b c \<noteq> None) ds = ds" "dropWhile (\<lambda>c. digit_value b c \<noteq> None) ds = []"
    using assms(2) by (simp_all only: takeWhile_eq_all_conv dropWhile_eq_Nil_conv)
  ultimately show ?thesis using assms(1) by (simp only: scan_number_def Let_def prod.case if_False)
qed

lemma scan_digits_text:
  assumes "2 \<le> b" "b \<le> 16"
  shows "scan_number b (digits_text b n) = Some (False, n, [])"
  using scan_digits [of "digits_text b n" b] digits_text_value [OF assms, of n] by simp

lemma strtoull_hex_text: "strtoull 16 (hex_text x) = (x, [])"
proof -
  have "unat x < 2 ^ 64" using unsigned_less [of x] by simp
  then show ?thesis by (simp add: strtoull_def hex_text_def scan_digits_text)
qed

lemma strtol_hex_text: "strtol 16 (hex_text x) = (min (uint x) LONG_MAX, [])"
  by (simp add: strtol_def hex_text_def scan_digits_text)

lemma strtol_dec_text: "0 \<le> i \<Longrightarrow> strtol 10 (dec_text i) = (min i LONG_MAX, [])"
  by (simp add: strtol_def dec_text_def scan_digits_text)

lemma word_in_digits:
  assumes "2 \<le> b" "b \<le> 16" "\<forall>c\<in>delims. digit_value b c = None"
  shows "word_in delims (digits_text b n)"
  using digits_text_value [OF assms(1,2), of n] assms(3) by (auto simp: word_in_def)

lemma word_in_number:
  assumes "delims \<subseteq> number_breaks"
  shows "word_in delims (hex_text x)" and "0 \<le> i \<Longrightarrow> word_in delims (dec_text i)"
proof -
  have "digit_value b c = None" if "c \<in> delims" for b c
    using assms that by (intro digit_value_None subsetD [OF assms])
  then show "word_in delims (hex_text x)" "0 \<le> i \<Longrightarrow> word_in delims (dec_text i)"
    by (simp_all add: hex_text_def dec_text_def word_in_digits)
qed

end
