(* ===== verification/Cfi_Frame_Info.thy ===== *)
theory Cfi_Frame_Info
  imports Symbol_Text Std_Map "HOL-Library.Char_ord" "HOL-Library.List_Lexorder"
begin

text \<open>
  \<open>src/app/breakpad/src/processor/cfi_frame_info.h\<close>, \<open>cfi_frame_info.cc\<close> and
  \<open>cfi_frame_info-inl.h\<close>: the rules by which the registers of a caller are recovered, their textual
  form in symbol files, and the stack walker that applies them.  The rules are programs of
  \<open>Postfix_Evaluator\<close>; the extraction of numbers (\<open>xt\<close>) and the memory are its parameters.

  A register map is a partial function from names to values.  A processor context is a function from
  its members to values, and a pointer to a member is the member.
\<close>

section \<open>CFIFrameInfo\<close>

record CFIFrameInfo =
  cfa_rule :: string
  ra_rule :: string
  register_rules :: "(string, string) std_map"

definition new_CFIFrameInfo :: CFIFrameInfo where
  "new_CFIFrameInfo = \<lparr>cfa_rule = [], ra_rule = [], register_rules = []\<rparr>"

definition SetCFARule :: "string \<Rightarrow> CFIFrameInfo \<Rightarrow> CFIFrameInfo" where
  "SetCFARule expression f = f\<lparr>cfa_rule := expression\<rparr>"

definition SetRARule :: "string \<Rightarrow> CFIFrameInfo \<Rightarrow> CFIFrameInfo" where
  "SetRARule expression f = f\<lparr>ra_rule := expression\<rparr>"

text \<open>\<open>m[k] = v\<close>\<close>

definition map_assign :: "'k::linorder \<Rightarrow> 'v \<Rightarrow> ('k, 'v) std_map \<Rightarrow> ('k, 'v) std_map" where
  "map_assign k v m = map_insert k v (map_erase k m)"

definition SetRegisterRule :: "string \<Rightarrow> string \<Rightarrow> CFIFrameInfo \<Rightarrow> CFIFrameInfo" where
  "SetRegisterRule register_name expression f =
     f\<lparr>register_rules := map_assign register_name expression (register_rules f)\<rparr>"

text \<open>
  \<open>EvaluateForValue\<close> on a fresh copy of the registers; the result is the value, \<open>Returns None\<close> if the
  evaluation fails.  Every call of it in \<open>FindCallerRegs\<close> is of this form.
\<close>

definition rule_value ::
  "'n::len extractor \<Rightarrow> ('n word \<Rightarrow> 'n word option) \<Rightarrow> 'n dictionary \<Rightarrow> string
    \<Rightarrow> 'n word option evaluated"
where
  "rule_value xt memory working rule =
     (case EvaluateForValue xt (Some memory) rule ([], working, {}) of
        Trap \<Rightarrow> Trap
      | Returns ok (v, _) \<Rightarrow> Returns ok v)"

fun register_values ::
  "'n::len extractor \<Rightarrow> ('n word \<Rightarrow> 'n word option) \<Rightarrow> 'n dictionary \<Rightarrow> (string, string) std_map
    \<Rightarrow> 'n dictionary \<Rightarrow> 'n dictionary evaluated"
where
  "register_values xt memory working [] caller_registers = Returns True caller_registers"
| "register_values xt memory working ((name, rule) # rules) caller_registers =
     (case rule_value xt memory working rule of
        Returns True (Some v) \<Rightarrow> register_values xt memory working rules (caller_registers(name \<mapsto> v))
      | Returns _ _ \<Rightarrow> Returns False caller_registers
      | Trap \<Rightarrow> Trap)"

text \<open>The flag it returns and \<open>*caller_registers\<close>, which is not touched without both rules\<close>

definition FindCallerRegs ::
  "'n::len extractor \<Rightarrow> ('n word \<Rightarrow> 'n word option) \<Rightarrow> 'n dictionary \<Rightarrow> CFIFrameInfo
    \<Rightarrow> 'n dictionary \<Rightarrow> 'n dictionary evaluated"
where
  "FindCallerRegs xt memory registers f caller_registers =
     (if cfa_rule f = [] \<or> ra_rule f = [] then Returns False caller_registers
      else
        case rule_value xt memory registers (cfa_rule f) of
          Returns True (Some cfa) \<Rightarrow>
            (let working = registers(''.cfa'' \<mapsto> cfa) in
             case rule_value xt memory working (ra_rule f) of
               Returns True (Some ra) \<Rightarrow>
                 (case register_values xt memory working (register_rules f) Map.empty of
                    Returns True caller \<Rightarrow> Returns True (caller(''.ra'' \<mapsto> ra, ''.cfa'' \<mapsto> cfa))
                  | r \<Rightarrow> r)
             | Returns _ _ \<Rightarrow> Returns False Map.empty
             | Trap \<Rightarrow> Trap)
        | Returns _ _ \<Rightarrow> Returns False Map.empty
        | Trap \<Rightarrow> Trap)"

definition append_rule :: "string \<Rightarrow> string \<Rightarrow> string \<Rightarrow> string" where
  "append_rule stream name rule =
     stream @ (if stream \<noteq> [] then '' '' else '''') @ name @ '': '' @ rule"

definition Serialize :: "CFIFrameInfo \<Rightarrow> string" where
  "Serialize f =
     (let stream = (if cfa_rule f \<noteq> [] then ''.cfa: '' @ cfa_rule f else '''');
          stream = (if ra_rule f \<noteq> [] then append_rule stream ''.ra'' (ra_rule f) else stream) in
      foldl (\<lambda>stream (name, rule). append_rule stream name rule) stream (register_rules f))"

section \<open>CFIRuleParser\<close>

text \<open>The interface \<open>CFIRuleParser::Handler\<close>, with the state of the handler made explicit\<close>

record 'h cfi_handler =
  CFARule :: "string \<Rightarrow> 'h \<Rightarrow> 'h"
  RARule :: "string \<Rightarrow> 'h \<Rightarrow> 'h"
  RegisterRule :: "string \<Rightarrow> string \<Rightarrow> 'h \<Rightarrow> 'h"

definition CFIFrameInfoParseHandler :: "CFIFrameInfo cfi_handler" where
  "CFIFrameInfoParseHandler =
     \<lparr>CFARule = SetCFARule, RARule = SetRARule, RegisterRule = SetRegisterRule\<rparr>"

definition Report :: "'h cfi_handler \<Rightarrow> string \<Rightarrow> string \<Rightarrow> 'h \<Rightarrow> bool \<times> 'h" where
  "Report handler name expression s =
     (if name = [] \<or> expression = [] then (False, s)
      else if name = ''.cfa'' then (True, CFARule handler expression s)
      else if name = ''.ra'' then (True, RARule handler expression s)
      else (True, RegisterRule handler name expression s))"

definition token_breaks :: "char set" where
  "token_breaks = {CHR '' '', CHR 0x09, CHR 0x0D, CHR 0x0A}"

text \<open>The loop of \<open>Parse\<close>, on the token and the text behind it\<close>

function parse_rules ::
  "'h cfi_handler \<Rightarrow> (string \<times> string) option \<Rightarrow> string \<Rightarrow> string \<Rightarrow> 'h \<Rightarrow> bool \<times> 'h"
where
  "parse_rules handler None name expression s = Report handler name expression s"
| "parse_rules handler (Some (token, text)) name expression s =
     (if length token \<ge> 1 \<and> last token = CHR '':'' then
        if length token < 2 then (False, s)
        else
          let (ok, s) = (if name \<noteq> [] \<or> expression \<noteq> [] then Report handler name expression s
                         else (True, s)) in
          if \<not> ok then (False, s)
          else parse_rules handler (strtok_r token_breaks text) (butlast token) [] s
      else
        parse_rules handler (strtok_r token_breaks text) name
          ((if expression \<noteq> [] then expression @ '' '' else expression) @ token) s)"
  by pat_completeness auto
termination
  by (relation "measure (\<lambda>(_, cur, _). case cur of None \<Rightarrow> 0 | Some (_, text) \<Rightarrow> Suc (length text))")
    (auto split: option.splits dest: strtok_r_shorter)

declare parse_rules.simps [simp del]

definition CFI_Parse :: "'h cfi_handler \<Rightarrow> string \<Rightarrow> 'h \<Rightarrow> bool \<times> 'h" where
  "CFI_Parse handler rule_set s = parse_rules handler (strtok_r token_breaks rule_set) [] [] s"

section \<open>SimpleCFIWalker\<close>

record 'm RegisterSet =
  reg_name :: string
  alternate_name :: "string option"
  callee_saves :: bool
  validity_flag :: "32 word"
  context_member :: 'm

definition callee_map :: "'m RegisterSet list \<Rightarrow> ('m \<Rightarrow> 'n::len word) \<Rightarrow> 32 word \<Rightarrow> 'n dictionary" where
  "callee_map register_map callee_context callee_validity =
     foldl (\<lambda>regs r. if callee_validity AND validity_flag r \<noteq> 0
         then regs(reg_name r \<mapsto> callee_context (context_member r)) else regs)
       Map.empty register_map"

text \<open>The value that one register gets, if any\<close>

definition caller_value ::
  "('m \<Rightarrow> 'n::len word) \<Rightarrow> 32 word \<Rightarrow> 'n dictionary \<Rightarrow> 'm RegisterSet \<Rightarrow> 'n word option"
where
  "caller_value callee_context callee_validity caller_registers r =
     (case caller_registers (reg_name r) of
        Some v \<Rightarrow> Some v
      | None \<Rightarrow>
          (case Option.bind (alternate_name r) caller_registers of
             Some v \<Rightarrow> Some v
           | None \<Rightarrow>
               if callee_saves r \<and> callee_validity AND validity_flag r \<noteq> 0
               then Some (callee_context (context_member r)) else None))"

text \<open>\<open>memset(caller_context, 0xda, \<dots>)\<close>\<close>

definition filled :: "'n::len word" where
  "filled = ucast (0xdadadadadadadada :: 64 word)"

definition caller_context ::
  "'m RegisterSet list \<Rightarrow> ('m \<Rightarrow> 'n::len word) \<Rightarrow> 32 word \<Rightarrow> 'n dictionary \<Rightarrow> ('m \<Rightarrow> 'n word) \<times> 32 word"
where
  "caller_context register_map callee_context callee_validity caller_registers =
     foldl (\<lambda>(context, validity) r.
         case caller_value callee_context callee_validity caller_registers r of
           Some v \<Rightarrow> (context(context_member r := v), validity OR validity_flag r)
         | None \<Rightarrow> (context, validity))
       (\<lambda>_. filled, 0) register_map"

text \<open>\<open>Returns False\<close> carries no context: the walker leaves the one of its caller untouched.\<close>

definition FindCallerRegisters ::
  "'n::len extractor \<Rightarrow> 'm RegisterSet list \<Rightarrow> ('n word \<Rightarrow> 'n word option) \<Rightarrow> CFIFrameInfo
    \<Rightarrow> ('m \<Rightarrow> 'n word) \<Rightarrow> 32 word \<Rightarrow> (('m \<Rightarrow> 'n word) \<times> 32 word) option evaluated"
where
  "FindCallerRegisters xt register_map memory f callee_context callee_validity =
     (case FindCallerRegs xt memory (callee_map register_map callee_context callee_validity) f Map.empty of
        Trap \<Rightarrow> Trap
      | Returns False _ \<Rightarrow> Returns False None
      | Returns True caller_registers \<Rightarrow>
          Returns True (Some (caller_context register_map callee_context callee_validity caller_registers)))"

section \<open>Parsing what was serialized\<close>

text \<open>The loop of \<open>Parse\<close> on the list of the tokens\<close>

fun parse_words :: "'h cfi_handler \<Rightarrow> string list \<Rightarrow> string \<Rightarrow> string \<Rightarrow> 'h \<Rightarrow> bool \<times> 'h" where
  "parse_words handler [] name expression s = Report handler name expression s"
| "parse_words handler (token # ts) name expression s =
     (if length token \<ge> 1 \<and> last token = CHR '':'' then
        if length token < 2 then (False, s)
        else
          let (ok, s) = (if name \<noteq> [] \<or> expression \<noteq> [] then Report handler name expression s
                         else (True, s)) in
          if \<not> ok then (False, s) else parse_words handler ts (butlast token) [] s
      else
        parse_words handler ts name ((if expression \<noteq> [] then expression @ '' '' else expression) @ token) s)"

lemma parse_rules_words:
  "parse_rules handler (strtok_r token_breaks t) name expression s
    = parse_words handler (strtok_all token_breaks t) name expression s"
proof (induction t arbitrary: name expression s rule: measure_induct_rule [of length])
  case (less t)
  show ?case
  proof (cases "strtok_r token_breaks t")
    case None
    then show ?thesis by (simp add: parse_rules.simps strtok_all.simps)
  next
    case (Some x)
    obtain token rest where x: "x = (token, rest)" by (cases x)
    note IH = less.IH [OF strtok_r_shorter [OF Some [unfolded x]]]
    show ?thesis
      unfolding Some x strtok_all.simps [of token_breaks t] option.case prod.case
        parse_rules.simps parse_words.simps IH ..
  qed
qed

definition rule_word :: "string \<Rightarrow> bool" where
  "rule_word w \<longleftrightarrow> word_in token_breaks w \<and> last w \<noteq> CHR '':''"

text \<open>An expression: words separated by single spaces\<close>

definition expression_ok :: "string \<Rightarrow> bool" where
  "expression_ok e \<longleftrightarrow> e \<noteq> [] \<and> join_words (strtok_all token_breaks e) = e
     \<and> (\<forall>w\<in>set (strtok_all token_breaks e). rule_word w)"

definition name_ok :: "string \<Rightarrow> bool" where
  "name_ok n \<longleftrightarrow> word_in token_breaks n \<and> n \<noteq> ''.cfa'' \<and> n \<noteq> ''.ra''"

lemma parse_expression:
  assumes "\<forall>w\<in>set ws. rule_word w" "ws \<noteq> []"
  shows "parse_words handler (ws @ ts) name expression s
    = parse_words handler ts name ((if expression \<noteq> [] then expression @ '' '' else expression) @ join_words ws) s"
  using assms
proof (induction ws arbitrary: expression)
  case (Cons w ws)
  have w: "w \<noteq> []" "last w \<noteq> CHR '':''" using Cons.prems(1) by (simp_all add: rule_word_def word_in_def)
  show ?case
  proof (cases "ws = []")
    case True
    then show ?thesis using w by simp
  next
    case False
    then show ?thesis using Cons.IH Cons.prems(1) w by (simp add: join_words_Cons)
  qed
qed simp

definition rule_words :: "string \<times> string \<Rightarrow> string list" where
  "rule_words r = (fst r @ '':'') # strtok_all token_breaks (snd r)"

lemma parse_rule_list:
  assumes "\<forall>r\<in>set rules. fst r \<noteq> [] \<and> expression_ok (snd r)"
  shows "name \<noteq> [] \<Longrightarrow> expression \<noteq> [] \<Longrightarrow>
    parse_words handler (concat (map rule_words rules)) name expression s
    = (True, foldl (\<lambda>s r. snd (Report handler (fst r) (snd r) s)) s ((name, expression) # rules))"
  using assms
proof (induction rules arbitrary: name expression s)
  case Nil
  then show ?case by (simp add: Report_def)
next
  case (Cons r rules)
  let ?ws = "strtok_all token_breaks (snd r)"
  have r: "fst r \<noteq> []" "snd r \<noteq> []" "join_words ?ws = snd r" "\<forall>w\<in>set ?ws. rule_word w"
    using Cons.prems(3) by (simp_all add: expression_ok_def)
  then have ws: "?ws \<noteq> []" by auto
  have "fst (Report handler name expression s)" using Cons.prems(1,2) by (simp add: Report_def)
  then obtain s' where s': "Report handler name expression s = (True, s')"
    by (cases "Report handler name expression s") simp
  have "parse_words handler (concat (map rule_words (r # rules))) name expression s
    = parse_words handler (?ws @ concat (map rule_words rules)) (fst r) [] s'"
    using r(1) Cons.prems(1,2) s' by (simp add: rule_words_def)
  also have "\<dots> = parse_words handler (concat (map rule_words rules)) (fst r) (snd r) s'"
    using parse_expression [OF r(4) ws, of handler] r(3) by simp
  also have "\<dots> = (True, foldl (\<lambda>s r. snd (Report handler (fst r) (snd r) s)) s' ((fst r, snd r) # rules))"
    using Cons.IH r(1,2) Cons.prems(3) by simp
  finally show ?case using s' by simp
qed

lemma parse_first_rule:
  assumes "fst r \<noteq> []" "expression_ok (snd r)"
  shows "parse_words handler (concat (map rule_words (r # rules))) [] [] s
    = parse_words handler (concat (map rule_words rules)) (fst r) (snd r) s"
proof -
  let ?ws = "strtok_all token_breaks (snd r)"
  have r: "join_words ?ws = snd r" "\<forall>w\<in>set ?ws. rule_word w" "?ws \<noteq> []"
    using assms(2) by (auto simp: expression_ok_def)
  then show ?thesis
    using parse_expression [OF r(2,3), of handler "concat (map rule_words rules)" "fst r" "[]" s] assms(1)
    by (simp add: rule_words_def)
qed

text \<open>\<open>Serialize\<close> writes the words of the rules.\<close>

definition all_rules :: "CFIFrameInfo \<Rightarrow> (string \<times> string) list" where
  "all_rules f = (if cfa_rule f \<noteq> [] then [(''.cfa'', cfa_rule f)] else [])
     @ (if ra_rule f \<noteq> [] then [(''.ra'', ra_rule f)] else []) @ register_rules f"

lemma rule_words_text:
  assumes "expression_ok (snd r)"
  shows "join_words (rule_words r) = fst r @ '': '' @ snd r"
proof -
  have "strtok_all token_breaks (snd r) \<noteq> []" "join_words (strtok_all token_breaks (snd r)) = snd r"
    using assms by (auto simp: expression_ok_def)
  then show ?thesis by (simp add: rule_words_def join_words_Cons)
qed

lemma append_rules:
  assumes "\<forall>r\<in>set rules. expression_ok (snd r)" "\<forall>w\<in>set ws. w \<noteq> []"
  shows "foldl (\<lambda>stream (name, rule). append_rule stream name rule) (join_words ws) rules
    = join_words (ws @ concat (map rule_words rules))"
  using assms
proof (induction rules arbitrary: ws)
  case (Cons r rules)
  have words: "\<forall>w\<in>set (rule_words r). w \<noteq> []" "rule_words r \<noteq> []"
    using Cons.prems(1) by (auto simp: rule_words_def expression_ok_def rule_word_def word_in_def)
  have "append_rule (join_words ws) (fst r) (snd r) = join_words (ws @ rule_words r)"
  proof (cases "ws = []")
    case True
    then show ?thesis using rule_words_text [of r] Cons.prems(1) by (simp add: append_rule_def)
  next
    case False
    then have "join_words ws \<noteq> []" using Cons.prems(2) join_words_empty by blast
    then show ?thesis
      using False rule_words_text [of r] Cons.prems(1) words(2)
      by (simp add: append_rule_def join_words_append)
  qed
  moreover have "foldl (\<lambda>stream (name, rule). append_rule stream name rule) (join_words (ws @ rule_words r)) rules
      = join_words ((ws @ rule_words r) @ concat (map rule_words rules))"
    by (rule Cons.IH) (use Cons.prems words(1) in auto)
  ultimately show ?case by (cases r) simp
qed simp

lemma Serialize_words:
  assumes "\<forall>r\<in>set (all_rules f). expression_ok (snd r)"
  shows "Serialize f = join_words (concat (map rule_words (all_rules f)))"
proof -
  have "Serialize f = foldl (\<lambda>stream (name, rule). append_rule stream name rule) [] (all_rules f)"
    by (simp add: Serialize_def all_rules_def append_rule_def)
  then show ?thesis using append_rules [OF assms, of "[]"] by simp
qed

lemma map_assign_last:
  assumes "\<forall>p\<in>set m. fst p < k" shows "map_assign k v m = m @ [(k, v)]"
proof -
  have "map_erase k m = m" using assms by (auto simp: map_erase_def filter_id_conv)
  moreover have "map_insert k v m = m @ [(k, v)]"
    using assms by (induction k v m rule: map_insert.induct) auto
  ultimately show ?thesis by (simp add: map_assign_def)
qed

lemma report_registers:
  assumes "\<forall>r\<in>set rules. name_ok (fst r) \<and> snd r \<noteq> []" "map_ok (register_rules f @ rules)"
  shows "foldl (\<lambda>s r. snd (Report CFIFrameInfoParseHandler (fst r) (snd r) s)) f rules
    = f\<lparr>register_rules := register_rules f @ rules\<rparr>"
  using assms
proof (induction rules arbitrary: f)
  case (Cons r rules)
  have "\<forall>p\<in>set (register_rules f). fst p < fst r" using Cons.prems(2) by (simp add: map_ok_append)
  then have "snd (Report CFIFrameInfoParseHandler (fst r) (snd r) f)
      = f\<lparr>register_rules := register_rules f @ [r]\<rparr>"
    using Cons.prems(1) map_assign_last [of "register_rules f" "fst r" "snd r"]
    by (simp add: Report_def CFIFrameInfoParseHandler_def SetRegisterRule_def name_ok_def word_in_def)
  then show ?case using Cons.IH [of "f\<lparr>register_rules := register_rules f @ [r]\<rparr>"] Cons.prems by simp
qed simp

definition rules_ok :: "CFIFrameInfo \<Rightarrow> bool" where
  "rules_ok f \<longleftrightarrow> (cfa_rule f = [] \<or> expression_ok (cfa_rule f)) \<and> (ra_rule f = [] \<or> expression_ok (ra_rule f))
     \<and> map_ok (register_rules f) \<and> (\<forall>r\<in>set (register_rules f). name_ok (fst r) \<and> expression_ok (snd r))
     \<and> all_rules f \<noteq> []"

lemma parse_serialized:
  assumes "rules_ok f"
  shows "CFI_Parse CFIFrameInfoParseHandler (Serialize f) new_CFIFrameInfo = (True, f)"
proof -
  have rules: "\<forall>r\<in>set (all_rules f). fst r \<noteq> [] \<and> expression_ok (snd r)"
    using assms by (auto simp: rules_ok_def all_rules_def name_ok_def word_in_def)
  then obtain r rest where r: "all_rules f = r # rest" "fst r \<noteq> []" "expression_ok (snd r)"
    using assms by (cases "all_rules f") (simp_all add: rules_ok_def)
  have rest: "\<forall>r\<in>set rest. fst r \<noteq> [] \<and> expression_ok (snd r)" using rules r(1) by simp
  let ?ws = "concat (map rule_words (all_rules f))"
  have "word_in token_breaks (fst r @ '':'')" if "r \<in> set (all_rules f)" for r
  proof -
    have "r = (''.cfa'', cfa_rule f) \<or> r = (''.ra'', ra_rule f) \<or> r \<in> set (register_rules f)"
      using that by (auto simp: all_rules_def split: if_splits)
    moreover have "word_in token_breaks (fst r)" if "r \<in> set (register_rules f)"
      using that assms by (simp add: rules_ok_def name_ok_def)
    ultimately have "word_in token_breaks (fst r)" by (auto simp: word_in_def token_breaks_def)
    then show ?thesis by (simp add: word_in_def token_breaks_def)
  qed
  moreover have "word_in token_breaks w" if "r \<in> set (all_rules f)" "w \<in> set (strtok_all token_breaks (snd r))" for r w
    using rules that by (simp add: expression_ok_def rule_word_def)
  ultimately have "\<forall>w\<in>set ?ws. word_in token_breaks w" by (auto simp: rule_words_def)
  then have "strtok_all token_breaks (Serialize f) = ?ws"
    using Serialize_words [of f] rules strtok_all_join [of token_breaks ?ws] by (simp add: token_breaks_def)
  then have "CFI_Parse CFIFrameInfoParseHandler (Serialize f) new_CFIFrameInfo
    = parse_words CFIFrameInfoParseHandler ?ws [] [] new_CFIFrameInfo"
    by (simp add: CFI_Parse_def parse_rules_words)
  also have "\<dots> = (True, foldl (\<lambda>s r. snd (Report CFIFrameInfoParseHandler (fst r) (snd r) s))
      new_CFIFrameInfo (all_rules f))"
    unfolding r(1) parse_first_rule [OF r(2,3)]
    using parse_rule_list [OF rest, of "fst r" "snd r" CFIFrameInfoParseHandler new_CFIFrameInfo] r(2,3)
    by (simp add: expression_ok_def)
  also have "foldl (\<lambda>s r. snd (Report CFIFrameInfoParseHandler (fst r) (snd r) s)) new_CFIFrameInfo (all_rules f)
    = f"
  proof -
    have regs: "\<forall>r\<in>set (register_rules f). name_ok (fst r) \<and> snd r \<noteq> []" "map_ok (register_rules f)"
      using assms by (auto simp: rules_ok_def expression_ok_def)
    have "snd (Report CFIFrameInfoParseHandler ''.cfa'' e s) = (if e = [] then s else s\<lparr>cfa_rule := e\<rparr>)"
      "snd (Report CFIFrameInfoParseHandler ''.ra'' e s) = (if e = [] then s else s\<lparr>ra_rule := e\<rparr>)" for e s
      by (simp_all add: Report_def CFIFrameInfoParseHandler_def SetCFARule_def SetRARule_def)
    then show ?thesis
      using regs by (simp add: all_rules_def report_registers new_CFIFrameInfo_def)
  qed
  finally show ?thesis .
qed

section \<open>Recovering the registers\<close>

text \<open>The rule that an expression stands for\<close>

definition rule_of :: "'n::len word expr \<Rightarrow> string" where
  "rule_of e = join_words (postfix e)"

lemma postfix_nonempty: "postfix e \<noteq> []"
  by (cases e) simp_all

lemma rule_of_nonempty: "expr_ok e \<Longrightarrow> rule_of e \<noteq> []"
  using join_words_empty [of "postfix e"] postfix_words postfix_nonempty by (auto simp: rule_of_def)

lemma rule_value_of:
  fixes e :: "'n::len word expr"
  assumes "extracts (xt :: 'n extractor)" "expr_ok e" "eval (Some memory) working e = Some v"
  shows "rule_value xt memory working (rule_of e) = Returns True (Some v)"
proof -
  obtain t where t: "denotes xt working t v"
    "\<And>ts stack assigned. evaluate_tokens xt (Some memory) (postfix e @ ts) (stack, working, assigned)
      = evaluate_tokens xt (Some memory) ts (t # stack, working, assigned)"
    using evaluate_postfix [OF assms] by blast
  have "EvaluateInternal xt (Some memory) (rule_of e) ([], working, {}) = Returns True ([t], working, {})"
    using t(2) [of "[]" "[]" "{}"] tokens_join [OF postfix_words [OF assms(2)]]
    by (simp add: EvaluateInternal_def rule_of_def)
  then show ?thesis using t(1) by (simp add: rule_value_def EvaluateForValue_def denotes_def)
qed

definition cfi_rules :: "'n::len word expr \<Rightarrow> 'n word expr \<Rightarrow> (string \<times> 'n word expr) list \<Rightarrow> CFIFrameInfo" where
  "cfi_rules cfa ra regs =
     \<lparr>cfa_rule = rule_of cfa, ra_rule = rule_of ra, register_rules = map (\<lambda>(n, e). (n, rule_of e)) regs\<rparr>"

lemma register_values_of:
  fixes regs :: "(string \<times> 'n::len word expr) list"
  assumes "extracts (xt :: 'n extractor)"
    and "\<forall>(n, e)\<in>set regs. expr_ok e \<and> eval (Some memory) working e = Some (val n)"
  shows "register_values xt memory working (map (\<lambda>(n, e). (n, rule_of e)) regs) caller
    = Returns True (\<lambda>n. if n \<in> fst ` set regs then Some (val n) else caller n)"
  using assms(2)
proof (induction regs arbitrary: caller)
  case (Cons r regs)
  obtain n e where r: "r = (n, e)" by (cases r)
  have "rule_value xt memory working (rule_of e) = Returns True (Some (val n))"
    using rule_value_of [OF assms(1)] Cons.prems by (simp add: r)
  then show ?case using Cons by (auto simp: r fun_eq_iff)
qed simp

text \<open>
  The values the rules give: the call frame address and the return address under their names, and the
  registers with a rule
\<close>

definition recovered ::
  "'n::len word \<Rightarrow> 'n word \<Rightarrow> string set \<Rightarrow> (string \<Rightarrow> 'n word) \<Rightarrow> 'n dictionary"
where
  "recovered cfa ra names val n =
     (if n = ''.cfa'' then Some cfa else if n = ''.ra'' then Some ra
      else if n \<in> names then Some (val n) else None)"

lemma FindCallerRegs_rules:
  fixes ecfa era :: "'n::len word expr"
  assumes "extracts (xt :: 'n extractor)" "expr_ok ecfa" "expr_ok era"
    and "eval (Some memory) registers ecfa = Some cfa"
    and "eval (Some memory) (registers(''.cfa'' \<mapsto> cfa)) era = Some ra"
    and "\<forall>(n, e)\<in>set regs. expr_ok e \<and> eval (Some memory) (registers(''.cfa'' \<mapsto> cfa)) e = Some (val n)"
  shows "FindCallerRegs xt memory registers (cfi_rules ecfa era regs) caller
    = Returns True (recovered cfa ra (fst ` set regs) val)"
  using rule_value_of [OF assms(1,2,4)] rule_value_of [OF assms(1,3,5)]
    register_values_of [OF assms(1,6), of Map.empty] rule_of_nonempty [OF assms(2)] rule_of_nonempty [OF assms(3)]
  by (auto simp: FindCallerRegs_def cfi_rules_def recovered_def fun_eq_iff)

text \<open>The loop of the walker writes each register once.\<close>

definition registers_ok :: "'m RegisterSet list \<Rightarrow> bool" where
  "registers_ok rm \<longleftrightarrow> distinct (map context_member rm) \<and> (\<forall>r\<in>set rm. validity_flag r \<noteq> 0)
     \<and> sorted_wrt (\<lambda>r s. validity_flag r AND validity_flag s = 0) rm"

definition write_register ::
  "('m RegisterSet \<Rightarrow> 'n::len word option) \<Rightarrow> ('m \<Rightarrow> 'n word) \<times> 32 word \<Rightarrow> 'm RegisterSet
    \<Rightarrow> ('m \<Rightarrow> 'n word) \<times> 32 word"
where
  "write_register value = (\<lambda>(context, validity) r. case value r of
       Some v \<Rightarrow> (context(context_member r := v), validity OR validity_flag r)
     | None \<Rightarrow> (context, validity))"

lemma write_others:
  assumes "\<forall>s\<in>set rm. context_member s \<noteq> m \<and> validity_flag s AND flag = 0"
  shows "fst (foldl (write_register value) c rm) m = fst c m
    \<and> snd (foldl (write_register value) c rm) AND flag = snd c AND flag"
  using assms
proof (induction rm arbitrary: c)
  case (Cons s rm)
  have "fst (write_register value c s) m = fst c m"
    using Cons.prems by (auto simp: write_register_def split: prod.split option.split)
  moreover have "snd (write_register value c s) AND flag = snd c AND flag"
    using Cons.prems by (simp add: write_register_def word_ao_dist split: prod.split option.split)
  ultimately show ?case using Cons.IH [of "write_register value c s"] Cons.prems by simp
qed simp

lemma write_registers:
  assumes "registers_ok rm" "r \<in> set rm" "\<forall>s\<in>set rm. snd c AND validity_flag s = 0"
  shows "let (context, validity) = foldl (write_register value) c rm in
    case value r of
      Some v \<Rightarrow> context (context_member r) = v \<and> validity AND validity_flag r = validity_flag r
    | None \<Rightarrow> context (context_member r) = fst c (context_member r) \<and> validity AND validity_flag r = 0"
  using assms
proof (induction rm arbitrary: c)
  case (Cons s rm)
  define c' where "c' = write_register value c s"
  show ?case
  proof (cases "r = s")
    case True
    have others: "\<forall>t\<in>set rm. context_member t \<noteq> context_member r \<and> validity_flag t AND validity_flag r = 0"
      using Cons.prems(1) True by (auto simp: registers_ok_def and.commute image_iff)
    show ?thesis
      using write_others [OF others, of "value" c'] Cons.prems(3) True
      by (auto simp: c'_def [symmetric] split: prod.split option.split)
        (auto simp: c'_def write_register_def word_ao_dist split: prod.splits)
  next
    case False
    then have r: "r \<in> set rm" using Cons.prems(2) by simp
    have rm: "registers_ok rm" using Cons.prems(1) by (simp add: registers_ok_def)
    have flags: "\<forall>t\<in>set rm. validity_flag s AND validity_flag t = 0"
      using Cons.prems(1) by (simp add: registers_ok_def)
    have "context_member r \<noteq> context_member s" using Cons.prems(1) imageI [OF r, of context_member] by (auto simp: registers_ok_def)
    then have "fst c' (context_member r) = fst c (context_member r)"
      by (simp add: c'_def write_register_def split: prod.split option.split)
    moreover have "\<forall>t\<in>set rm. snd c' AND validity_flag t = 0"
      using Cons.prems(3) flags by (auto simp: c'_def write_register_def word_ao_dist split: prod.split option.split)
    ultimately show ?thesis using Cons.IH [OF rm r, of c'] by (auto simp: c'_def [symmetric] split: prod.splits option.splits)
  qed
qed simp

lemma caller_context_fold:
  "caller_context rm context validity caller
    = foldl (write_register (caller_value context validity caller)) (\<lambda>_. filled, 0) rm"
  by (simp add: caller_context_def write_register_def)

text \<open>What the walker writes when the rules stand for expressions with values in the frame of the callee\<close>

lemma cfi_walker_values:
  fixes ecfa era :: "'n::len word expr" and rm :: "'m RegisterSet list"
  assumes "extracts (xt :: 'n extractor)" "registers_ok rm" "expr_ok ecfa" "expr_ok era"
    and "registers = callee_map rm reg validity"
    and "eval (Some memory) registers ecfa = Some cfa"
    and "eval (Some memory) (registers(''.cfa'' \<mapsto> cfa)) era = Some ra"
    and "\<forall>(n, e)\<in>set regs. expr_ok e \<and> eval (Some memory) (registers(''.cfa'' \<mapsto> cfa)) e = Some (val n)"
    and "caller_context rm reg validity (recovered cfa ra (fst ` set regs) val) = (caller, caller_validity)"
  shows "FindCallerRegisters xt rm memory (cfi_rules ecfa era regs) reg validity
      = Returns True (Some (caller, caller_validity))"
    and "r \<in> set rm \<Longrightarrow>
      (case caller_value reg validity (recovered cfa ra (fst ` set regs) val) r of
        Some v \<Rightarrow> caller (context_member r) = v \<and> caller_validity AND validity_flag r = validity_flag r
      | None \<Rightarrow> caller_validity AND validity_flag r = 0)"
proof -
  show "FindCallerRegisters xt rm memory (cfi_rules ecfa era regs) reg validity
      = Returns True (Some (caller, caller_validity))"
    using FindCallerRegs_rules [OF assms(1,3,4,6-8), of Map.empty] assms(9)
    by (simp add: FindCallerRegisters_def assms(5))
  show "case caller_value reg validity (recovered cfa ra (fst ` set regs) val) r of
        Some v \<Rightarrow> caller (context_member r) = v \<and> caller_validity AND validity_flag r = validity_flag r
      | None \<Rightarrow> caller_validity AND validity_flag r = 0" if "r \<in> set rm"
    using write_registers [OF assms(2) that, of "(\<lambda>_. filled, 0)"
        "caller_value reg validity (recovered cfa ra (fst ` set regs) val)"] assms(9)
    by (auto simp: caller_context_fold split: option.splits)
qed

section \<open>Contracts\<close>

text \<open>
  C27. Parsing what \<open>CFIFrameInfo::Serialize\<close> writes gives the rules back, for every set of rules (not
  all of them missing) whose expressions are words separated by single spaces, none of which ends in a
  colon.
\<close>
theorem cfi_rules_roundtrip:
  assumes "rules_ok f"
  shows "CFI_Parse CFIFrameInfoParseHandler (Serialize f) new_CFIFrameInfo = (True, f)"
  by (rule parse_serialized [OF assms])

text \<open>
  The stack walker recovers the caller's registers.  Let the call frame address, the return address
  and some registers have rules that stand for expressions which have values in the callee's frame
  (the latter ones with \<open>.cfa\<close> known).  Then the walk succeeds; a register that has a value under its
  name, else under its alternate name, gets that value; else a callee-saves register that is valid in
  the callee keeps its value; and exactly these registers are marked as valid.
\<close>
lemma cfi_walker_recovers:
  fixes ecfa era :: "'n::len word expr" and rm :: "'m RegisterSet list"
  assumes "extracts (xt :: 'n extractor)" "registers_ok rm" "expr_ok ecfa" "expr_ok era"
    and "registers = callee_map rm context validity"
    and "eval (Some memory) registers ecfa = Some cfa"
    and "eval (Some memory) (registers(''.cfa'' \<mapsto> cfa)) era = Some ra"
    and "\<forall>(n, e)\<in>set regs. expr_ok e \<and> eval (Some memory) (registers(''.cfa'' \<mapsto> cfa)) e = Some (val n)"
  shows "\<exists>caller caller_validity.
    FindCallerRegisters xt rm memory (cfi_rules ecfa era regs) context validity
      = Returns True (Some (caller, caller_validity))
    \<and> (\<forall>r\<in>set rm.
        let by_name = recovered cfa ra (fst ` set regs) val (reg_name r);
            by_alternate = Option.bind (alternate_name r) (recovered cfa ra (fst ` set regs) val);
            kept = callee_saves r \<and> validity AND validity_flag r \<noteq> 0 in
        (caller_validity AND validity_flag r \<noteq> 0 \<longleftrightarrow> by_name \<noteq> None \<or> by_alternate \<noteq> None \<or> kept)
        \<and> (by_name \<noteq> None \<longrightarrow> caller (context_member r) = the by_name)
        \<and> (by_name = None \<and> by_alternate \<noteq> None \<longrightarrow> caller (context_member r) = the by_alternate)
        \<and> (by_name = None \<and> by_alternate = None \<and> kept
            \<longrightarrow> caller (context_member r) = context (context_member r)))"
proof -
  let ?rec = "recovered cfa ra (fst ` set regs) val"
  obtain caller caller_validity where c:
    "caller_context rm context validity ?rec = (caller, caller_validity)" by fastforce
  note run = cfi_walker_values(1) [OF assms c] and registers = cfi_walker_values(2) [OF assms c]
  have "validity_flag r \<noteq> 0" if "r \<in> set rm" for r
    using assms(2) that by (simp add: registers_ok_def)
  then have "\<forall>r\<in>set rm.
      (caller_validity AND validity_flag r \<noteq> 0 \<longleftrightarrow> caller_value context validity ?rec r \<noteq> None)
      \<and> (caller_value context validity ?rec r \<noteq> None
          \<longrightarrow> caller (context_member r) = the (caller_value context validity ?rec r))"
    using registers by (fastforce split: option.splits)
  then have "\<forall>r\<in>set rm.
        let by_name = ?rec (reg_name r);
            by_alternate = Option.bind (alternate_name r) ?rec;
            kept = callee_saves r \<and> validity AND validity_flag r \<noteq> 0 in
        (caller_validity AND validity_flag r \<noteq> 0 \<longleftrightarrow> by_name \<noteq> None \<or> by_alternate \<noteq> None \<or> kept)
        \<and> (by_name \<noteq> None \<longrightarrow> caller (context_member r) = the by_name)
        \<and> (by_name = None \<and> by_alternate \<noteq> None \<longrightarrow> caller (context_member r) = the by_alternate)
        \<and> (by_name = None \<and> by_alternate = None \<and> kept
            \<longrightarrow> caller (context_member r) = context (context_member r))"
    by (auto simp: Let_def caller_value_def split: option.splits if_splits)
  with run show ?thesis by blast
qed

text \<open>A frame of a 32-bit x86 process\<close>

definition x86_rules :: CFIFrameInfo where
  "x86_rules = \<lparr>cfa_rule = ''$esp 8 +'', ra_rule = ''.cfa 4 - ^'',
     register_rules = [(''$ebp'', ''.cfa 8 - ^'')]\<rparr>"

lemma x86_rules_text: "Serialize x86_rules = ''.cfa: $esp 8 + .ra: .cfa 4 - ^ $ebp: .cfa 8 - ^''"
  by (simp add: Serialize_def x86_rules_def append_rule_def)

lemma cfi_rules_roundtrip_witness:
  "CFI_Parse CFIFrameInfoParseHandler ''.cfa: $esp 8 + .ra: .cfa 4 - ^ $ebp: .cfa 8 - ^'' new_CFIFrameInfo
    = (True, x86_rules)"
  unfolding x86_rules_text [symmetric]
  by (rule cfi_rules_roundtrip)
    (simp add: rules_ok_def x86_rules_def expression_ok_def rule_word_def word_in_def token_breaks_def
      strtok_all.simps strtok_r_def all_rules_def name_ok_def map_ok_def)

end
