(* ===== verification/Symbol_Records.thy ===== *)
theory Symbol_Records
  imports Cfi_Frame_Info Contained_Range_Map
begin

text \<open>
  The records of a symbol file and how a line of text becomes one: \<open>SymbolParseHelper\<close> of
  \<open>src/app/breakpad/src/processor/basic_source_line_resolver.cc\<close>, the structures of
  \<open>source_line_resolver_base_types.h\<close> and \<open>basic_source_line_resolver_types.h\<close>, and
  \<open>WindowsFrameInfo\<close> of \<open>windows_frame_info.h\<close>.

  A line is a C string, the list of its characters in front of the NUL.  A \<open>long\<close> that is stored in an
  \<open>int\<close> keeps its lower 32 bits (\<open>to_int\<close>).
\<close>

section \<open>Structures\<close>

definition to_int :: "int \<Rightarrow> int" where
  "to_int x = sint (word_of_int x :: 32 word)"

record Line =
  line_address :: u64
  line_size :: u64
  source_file_id :: int
  line_number :: int

record Function =
  func_name :: string
  func_address :: u64
  func_size :: u64
  func_parameter_size :: int
  func_lines :: "(u64, Line) RangeMap"

record PublicSymbol =
  symbol_name :: string
  symbol_address :: u64
  symbol_parameter_size :: int

record WindowsFrameInfo =
  wf_type :: int
  wf_valid :: int
  prolog_size :: "32 word"
  epilog_size :: "32 word"
  wf_parameter_size :: "32 word"
  saved_register_size :: "32 word"
  local_size :: "32 word"
  max_stack_size :: "32 word"
  allocates_base_pointer :: bool
  program_string :: string

definition VALID_PARAMETER_SIZE :: int where "VALID_PARAMETER_SIZE = 1"
definition VALID_ALL :: int where "VALID_ALL = - 1"
definition STACK_INFO_FPO :: nat where "STACK_INFO_FPO = 0"
definition STACK_INFO_FRAME_DATA :: nat where "STACK_INFO_FRAME_DATA = 4"
definition STACK_INFO_LAST :: nat where "STACK_INFO_LAST = 5"

definition new_WindowsFrameInfo :: WindowsFrameInfo where
  "new_WindowsFrameInfo = \<lparr>wf_type = - 1, wf_valid = 0, prolog_size = 0, epilog_size = 0,
     wf_parameter_size = 0, saved_register_size = 0, local_size = 0, max_stack_size = 0,
     allocates_base_pointer = False, program_string = []\<rparr>"

definition WFI_CopyFrom :: "WindowsFrameInfo \<Rightarrow> WindowsFrameInfo \<Rightarrow> WindowsFrameInfo" where
  "WFI_CopyFrom that this = this\<lparr>wf_type := wf_type that, wf_valid := wf_valid that,
     prolog_size := prolog_size that, epilog_size := epilog_size that,
     wf_parameter_size := wf_parameter_size that, saved_register_size := saved_register_size that,
     local_size := local_size that, max_stack_size := max_stack_size that,
     allocates_base_pointer := allocates_base_pointer that, program_string := program_string that\<rparr>"

definition WFI_Clear :: "WindowsFrameInfo \<Rightarrow> WindowsFrameInfo" where
  "WFI_Clear this = this\<lparr>wf_type := - 1, wf_valid := 0, program_string := []\<rparr>"

definition strtoul32 :: "string \<Rightarrow> 32 word" where
  "strtoul32 s = ucast (fst (strtoull 16 s))"

text \<open>\<open>WindowsFrameInfo::ParseFromString\<close>: the object, the type, the address and the size\<close>

definition ParseFromString :: "string \<Rightarrow> (WindowsFrameInfo \<times> nat \<times> u64 \<times> u64) option" where
  "ParseFromString s =
     (case Tokenize s kWhitespace 11 of
        None \<Rightarrow> None
      | Some toks \<Rightarrow>
          let type = to_int (fst (strtol 16 (toks ! 0))) in
          if type < 0 \<or> type > int STACK_INFO_LAST - 1 then None
          else
            let has_program_string = strtoul32 (toks ! 9) in
            Some (\<lparr>wf_type = type, wf_valid = VALID_ALL,
               prolog_size = strtoul32 (toks ! 3), epilog_size = strtoul32 (toks ! 4),
               wf_parameter_size = strtoul32 (toks ! 5), saved_register_size = strtoul32 (toks ! 6),
               local_size = strtoul32 (toks ! 7), max_stack_size = strtoul32 (toks ! 8),
               allocates_base_pointer = (has_program_string = 0 \<and> strtoul32 (toks ! 10) \<noteq> 0),
               program_string = (if has_program_string \<noteq> 0 then toks ! 10 else [])\<rparr>,
             nat type, fst (strtoull 16 (toks ! 1)), fst (strtoull 16 (toks ! 2))))"

section \<open>SymbolParseHelper\<close>

definition IsValidAfterNumber :: "string \<Rightarrow> bool" where
  "IsValidAfterNumber after \<longleftrightarrow> after = [] \<or> hd after \<in> kWhitespace"

text \<open>The checks that the parsers make on each of their numbers\<close>

definition parse_u64 :: "string \<Rightarrow> u64 option" where
  "parse_u64 token =
     (let (v, after_number) = strtoull 16 token in
      if \<not> IsValidAfterNumber after_number \<or> v = - 1 then None else Some v)"

definition parse_long :: "nat \<Rightarrow> string \<Rightarrow> int option" where
  "parse_long b token =
     (let (v, after_number) = strtol b token in
      if \<not> IsValidAfterNumber after_number \<or> v = LONG_MAX \<or> v < 0 then None else Some v)"

definition SPH_ParseFile :: "string \<Rightarrow> (int \<times> string) option" where
  "SPH_ParseFile file_line =
     (case Tokenize (drop 5 file_line) kWhitespace 2 of
        None \<Rightarrow> None
      | Some toks \<Rightarrow>
          (case parse_long 10 (toks ! 0) of
             None \<Rightarrow> None
           | Some index \<Rightarrow> Some (index, toks ! 1)))"

definition SPH_ParseFunction :: "string \<Rightarrow> (u64 \<times> u64 \<times> int \<times> string) option" where
  "SPH_ParseFunction function_line =
     (case Tokenize (drop 5 function_line) kWhitespace 4 of
        None \<Rightarrow> None
      | Some toks \<Rightarrow>
          (case parse_u64 (toks ! 0) of
             None \<Rightarrow> None
           | Some address \<Rightarrow>
               (case parse_u64 (toks ! 1) of
                  None \<Rightarrow> None
                | Some len \<Rightarrow>
                    (case parse_long 16 (toks ! 2) of
                       None \<Rightarrow> None
                     | Some stack_param_size \<Rightarrow> Some (address, len, stack_param_size, toks ! 3)))))"

definition SPH_ParseLine :: "string \<Rightarrow> (u64 \<times> u64 \<times> int \<times> int) option" where
  "SPH_ParseLine line_line =
     (case Tokenize line_line kWhitespace 4 of
        None \<Rightarrow> None
      | Some toks \<Rightarrow>
          (case parse_u64 (toks ! 0) of
             None \<Rightarrow> None
           | Some address \<Rightarrow>
               (case parse_u64 (toks ! 1) of
                  None \<Rightarrow> None
                | Some len \<Rightarrow>
                    (case parse_long 10 (toks ! 2) of
                       None \<Rightarrow> None
                     | Some number \<Rightarrow>
                         (case parse_long 10 (toks ! 3) of
                            None \<Rightarrow> None
                          | Some source_file \<Rightarrow> Some (address, len, number, source_file))))))"

definition SPH_ParsePublicSymbol :: "string \<Rightarrow> (u64 \<times> int \<times> string) option" where
  "SPH_ParsePublicSymbol public_line =
     (case Tokenize (drop 7 public_line) kWhitespace 3 of
        None \<Rightarrow> None
      | Some toks \<Rightarrow>
          (case parse_u64 (toks ! 0) of
             None \<Rightarrow> None
           | Some address \<Rightarrow>
               (case parse_long 16 (toks ! 1) of
                  None \<Rightarrow> None
                | Some stack_param_size \<Rightarrow> Some (address, stack_param_size, toks ! 2))))"

end
