(* ===== verification/Source_Line_Resolver.thy ===== *)
theory Source_Line_Resolver
  imports Symbol_Records
begin

text \<open>
  \<open>src/app/breakpad/src/processor/basic_source_line_resolver.cc\<close> and
  \<open>source_line_resolver_base.cc\<close>: loading symbol files into the maps of a module, and looking
  addresses up in them.

  \<^item> Functions are shared between \<open>functions_\<close> (\<open>function_map\<close>) and the pointer \<open>cur_func\<close> that adds lines to them, so
    they live in a store \<open>func_store\<close>, and a pointer to one is its index.
  \<^item> The loader takes its buffer apart in place.  \<open>strtok_r\<close> leaves a text behind the current line; a
    \<open>STACK\<close> record that ends right behind its platform makes the parser go one character past the NUL
    that ends the line, into that text (\<open>Some\<close>) or out of the buffer (\<open>None\<close>): reading there is
    \<open>Overread\<close>.  \<open>NoReturn\<close> is a call of \<open>StoreRange\<close> that does not return.
  \<^item> The root of a \<open>ContainedRangeMap\<close> holds a null pointer as its entry, which is never read; here it
    is an empty object.  Modules have no name: the resolver finds them by the name of their file.
\<close>

section \<open>Modules\<close>

datatype 'a run = Done 'a | Overread | NoReturn

record Module =
  file_map :: "(int, string) std_map"
  function_map :: "(u64, nat) RangeMap"
  func_store :: "Function list"
  public_symbols :: "(64, PublicSymbol) AddressMap"
  is_corrupt :: bool
  windows_frame_info :: "(u64, WindowsFrameInfo) crange list"
  cfi_initial_rules :: "(u64, string) RangeMap"
  cfi_delta_rules :: "(u64, string) std_map"

definition new_Module :: Module where
  "new_Module = \<lparr>file_map = [], function_map = new_RangeMap, func_store = [], public_symbols = [],
     is_corrupt = False,
     windows_frame_info = replicate STACK_INFO_LAST (new_ContainedRangeMap 0 new_WindowsFrameInfo),
     cfi_initial_rules = new_RangeMap, cfi_delta_rules = []\<rparr>"

definition ParseFile :: "string \<Rightarrow> Module \<Rightarrow> bool \<times> Module" where
  "ParseFile file_line m =
     (case SPH_ParseFile file_line of
        None \<Rightarrow> (False, m)
      | Some (index, filename) \<Rightarrow> (True, m\<lparr>file_map := map_insert (to_int index) filename (file_map m)\<rparr>))"

definition ParseFunction :: "string \<Rightarrow> Function option" where
  "ParseFunction function_line =
     map_option (\<lambda>(address, len, stack_param_size, name).
         \<lparr>func_name = name, func_address = address, func_size = len,
          func_parameter_size = to_int stack_param_size, func_lines = new_RangeMap\<rparr>)
       (SPH_ParseFunction function_line)"

definition ParseLine :: "string \<Rightarrow> Line option" where
  "ParseLine line_line =
     map_option (\<lambda>(address, len, number, source_file).
         \<lparr>line_address = address, line_size = len, source_file_id = to_int source_file,
          line_number = to_int number\<rparr>)
       (SPH_ParseLine line_line)"

definition ParsePublicSymbol :: "string \<Rightarrow> Module \<Rightarrow> bool \<times> Module" where
  "ParsePublicSymbol public_line m =
     (case SPH_ParsePublicSymbol public_line of
        None \<Rightarrow> (False, m)
      | Some (address, stack_param_size, name) \<Rightarrow>
          if address = 0 then (True, m)
          else
            let (ok, symbols) = AM_Store address
                  \<lparr>symbol_name = name, symbol_address = address,
                   symbol_parameter_size = to_int stack_param_size\<rparr> (public_symbols m) in
            (ok, m\<lparr>public_symbols := symbols\<rparr>))"

definition ParseCFIFrameInfo :: "string \<Rightarrow> Module \<Rightarrow> (bool \<times> Module) run" where
  "ParseCFIFrameInfo stack_info_line m =
     (case strtok_r kWhitespace stack_info_line of
        None \<Rightarrow> Done (False, m)
      | Some (init_or_address, cursor) \<Rightarrow>
          if init_or_address = ''INIT'' then
            case strtok_r kWhitespace cursor of
              None \<Rightarrow> Done (False, m)
            | Some (address_field, cursor) \<Rightarrow>
                (case strtok_r kWhitespace cursor of
                   None \<Rightarrow> Done (False, m)
                 | Some (size_field, cursor) \<Rightarrow>
                     (case strtok_r eols cursor of
                        None \<Rightarrow> Done (False, m)
                      | Some (initial_rules, _) \<Rightarrow>
                          (case StoreRange (fst (strtoull 16 address_field)) (fst (strtoull 16 size_field))
                                  initial_rules (cfi_initial_rules m) of
                             None \<Rightarrow> NoReturn
                           | Some (_, rules) \<Rightarrow> Done (True, m\<lparr>cfi_initial_rules := rules\<rparr>))))
          else
            case strtok_r eols cursor of
              None \<Rightarrow> Done (False, m)
            | Some (delta_rules, _) \<Rightarrow>
                Done (True, m\<lparr>cfi_delta_rules :=
                  map_assign (fst (strtoull 16 init_or_address)) delta_rules (cfi_delta_rules m)\<rparr>))"

text \<open>
  \<open>ParseStackInfo\<close> on a line and what is \<open>behind\<close> the NUL at its end.  The last component tells
  whether the record was parsed from the text behind the line.
\<close>

definition ParseStackInfo :: "string \<Rightarrow> string option \<Rightarrow> Module \<Rightarrow> (bool \<times> Module \<times> bool) run" where
  "ParseStackInfo stack_info_line behind m =
     (let p = dropWhile (\<lambda>c. c = CHR '' '') (drop 6 stack_info_line);
          platform = takeWhile (\<lambda>c. c \<notin> kWhitespace) p;
          at_end = (dropWhile (\<lambda>c. c \<notin> kWhitespace) p = []);
          rest = (if at_end then behind else Some (tl (dropWhile (\<lambda>c. c \<notin> kWhitespace) p))) in
      if platform = ''WIN'' then
        case rest of
          None \<Rightarrow> Overread
        | Some t \<Rightarrow>
            (case ParseFromString t of
               None \<Rightarrow> Done (False, m, False)
             | Some (info, type, rva, code_size) \<Rightarrow>
                 Done (True, m\<lparr>windows_frame_info := (windows_frame_info m)
                   [type := snd (CR_StoreRange rva code_size info (windows_frame_info m ! type))]\<rparr>,
                   False))
      else if platform = ''CFI'' then
        case rest of
          None \<Rightarrow> Overread
        | Some t \<Rightarrow>
            (case ParseCFIFrameInfo t m of
               Done (ok, m) \<Rightarrow> Done (ok, m, at_end)
             | Overread \<Rightarrow> Overread
             | NoReturn \<Rightarrow> NoReturn)
      else Done (False, m, False))"

text \<open>One line: whether it is free of errors, the current function, the module\<close>

definition parse_record ::
  "string \<Rightarrow> string option \<Rightarrow> nat option \<Rightarrow> Module \<Rightarrow> (bool \<times> nat option \<times> Module \<times> bool) run"
where
  "parse_record buffer behind cur_func m =
     (if take 5 buffer = ''FILE '' then
        let (ok, m) = ParseFile buffer m in Done (ok, cur_func, m, False)
      else if take 6 buffer = ''STACK '' then
        case ParseStackInfo buffer behind m of
          Done (ok, m, was_cut) \<Rightarrow> Done (ok, cur_func, m, was_cut)
        | Overread \<Rightarrow> Overread
        | NoReturn \<Rightarrow> NoReturn
      else if take 5 buffer = ''FUNC '' then
        case ParseFunction buffer of
          None \<Rightarrow> Done (False, None, m, False)
        | Some f \<Rightarrow>
            (case StoreRange (func_address f) (func_size f) (length (func_store m)) (function_map m) of
               None \<Rightarrow> NoReturn
             | Some (_, fs) \<Rightarrow>
                 Done (True, Some (length (func_store m)),
                   m\<lparr>function_map := fs, func_store := func_store m @ [f]\<rparr>, False))
      else if take 7 buffer = ''PUBLIC '' then
        let (ok, m) = ParsePublicSymbol buffer m in Done (ok, None, m, False)
      else if take 7 buffer = ''MODULE '' then Done (True, cur_func, m, False)
      else if take 5 buffer = ''INFO '' then Done (True, cur_func, m, False)
      else
        case cur_func of
          None \<Rightarrow> Done (False, cur_func, m, False)
        | Some i \<Rightarrow>
            (case ParseLine buffer of
               None \<Rightarrow> Done (False, cur_func, m, False)
             | Some l \<Rightarrow>
                 (case StoreRange (line_address l) (line_size l) l (func_lines (func_store m ! i)) of
                    None \<Rightarrow> NoReturn
                  | Some (_, ls) \<Rightarrow>
                      Done (True, cur_func,
                        m\<lparr>func_store := (func_store m)[i := (func_store m ! i)\<lparr>func_lines := ls\<rparr>]\<rparr>,
                        False))))"

text \<open>
  What is left of a text, as a C string, after \<open>strtok_r\<close> has taken its first token: the separators
  and the token, with a NUL behind it
\<close>

definition cut_token :: "char set \<Rightarrow> string \<Rightarrow> string" where
  "cut_token delims t =
     (case strtok_r delims t of
        None \<Rightarrow> t
      | Some (token, _) \<Rightarrow> takeWhile (\<lambda>c. c \<in> delims) t @ token)"

text \<open>
  The text behind the line and what is behind that text, as \<open>ParseCFIFrameInfo\<close> leaves them when it
  has parsed that text: its first call of \<open>strtok_r\<close> cuts the text, its second the rest.
\<close>

definition cut_text :: "string \<Rightarrow> string option \<Rightarrow> string \<times> string option" where
  "cut_text t behind =
     (case strtok_r kWhitespace t of
        None \<Rightarrow> (t, behind)
      | Some (token, rest) \<Rightarrow>
          (cut_token kWhitespace t,
           if cut_token kWhitespace t = t then behind
           else Some (cut_token (if token = ''INIT'' then kWhitespace else eols) rest)))"

definition kMaxErrorsBeforeBailing :: nat where "kMaxErrorsBeforeBailing = 100"

lemma length_cut_text: "length (fst (cut_text t behind)) \<le> length t"
proof (cases "strtok_r kWhitespace t")
  case (Some x)
  obtain token rest where x: "x = (token, rest)" by (cases x)
  have "token = takeWhile (\<lambda>c. c \<notin> kWhitespace) (dropWhile (\<lambda>c. c \<in> kWhitespace) t)"
    using Some x by (auto simp: strtok_r_def Let_def split: if_splits)
  then have "length token \<le> length (dropWhile (\<lambda>c. c \<in> kWhitespace) t)" by (simp add: length_takeWhile_le)
  moreover have "length (takeWhile (\<lambda>c. c \<in> kWhitespace) t) + length (dropWhile (\<lambda>c. c \<in> kWhitespace) t)
      = length t"
    by (metis length_append takeWhile_dropWhile_id)
  ultimately have "length (takeWhile (\<lambda>c. c \<in> kWhitespace) t @ token) \<le> length t" by simp
  then show ?thesis using Some x by (simp add: cut_text_def cut_token_def)
qed (simp add: cut_text_def)

text \<open>The loop over the lines: the number of errors and the module\<close>

function load_lines ::
  "string \<Rightarrow> string option \<Rightarrow> nat option \<Rightarrow> nat \<Rightarrow> Module \<Rightarrow> (nat \<times> Module) run"
where
  "load_lines t behind cur_func num_errors m =
     (case strtok_r eols t of
        None \<Rightarrow> Done (num_errors, m)
      | Some (buffer, rest) \<Rightarrow>
          let at_end = (dropWhile (\<lambda>c. c \<notin> eols) (dropWhile (\<lambda>c. c \<in> eols) t) = []) in
          (case parse_record buffer (if at_end then behind else Some rest) cur_func m of
             Done (ok, cur_func, m, was_cut) \<Rightarrow>
               let num_errors = (if ok then num_errors else num_errors + 1) in
               if num_errors > kMaxErrorsBeforeBailing then Done (num_errors, m)
               else if was_cut \<and> \<not> at_end then
                 load_lines (fst (cut_text rest behind)) (snd (cut_text rest behind)) cur_func num_errors m
               else load_lines rest behind cur_func num_errors m
           | Overread \<Rightarrow> Overread
           | NoReturn \<Rightarrow> NoReturn))"
  by pat_completeness auto
termination
  by (relation "measure (\<lambda>(t, _). length t)")
    (auto dest!: strtok_r_shorter intro: le_less_trans [OF length_cut_text])

declare load_lines.simps [simp del]

definition LoadMapFromMemory :: "string \<Rightarrow> Module \<Rightarrow> (bool \<times> Module) run" where
  "LoadMapFromMemory memory_buffer m =
     (if memory_buffer = [] then Done (True, m)
      else
        let buffer = butlast memory_buffer @ [NUL];
            body = rev (dropWhile (\<lambda>c. c = NUL) (rev buffer));
            num_errors = (if NUL \<in> set body then 1 else 0);
            t = map (\<lambda>c. if c = NUL then CHR ''_'' else c) body;
            behind = (if length buffer - length body > 1 then Some [] else None) in
        case load_lines t behind None num_errors m of
          Done (num_errors, m) \<Rightarrow> Done (True, m\<lparr>is_corrupt := (num_errors > 0)\<rparr>)
        | Overread \<Rightarrow> Overread
        | NoReturn \<Rightarrow> NoReturn)"

section \<open>Lookups\<close>

record StackFrame =
  instruction :: u64
  function_name :: string
  function_base :: u64
  source_file_name :: string
  source_line :: int
  source_line_base :: u64

text \<open>\<open>base\<close> is the base address of the module that the frame is in.\<close>

definition LookupAddress :: "u64 \<Rightarrow> Module \<Rightarrow> StackFrame \<Rightarrow> StackFrame" where
  "LookupAddress base m frame =
     (let address = instruction frame - base;
          func = RetrieveNearestRange (rm_map (function_map m)) address in
      case func of
        Some (i, fbase, _, fsize) \<Rightarrow>
          if address \<ge> fbase \<and> address - fbase < fsize then
            let f = func_store m ! i;
                frame = frame\<lparr>function_name := func_name f, function_base := base + fbase\<rparr> in
            (case RetrieveRange (rm_map (func_lines f)) address of
               None \<Rightarrow> frame
             | Some (l, line_base, _, _) \<Rightarrow>
                 (case map_find (file_map m) (source_file_id l) of
                    [] \<Rightarrow> frame
                  | (_, name) # _ \<Rightarrow> frame\<lparr>source_file_name := name\<rparr>)
                 \<lparr>source_line := line_number l, source_line_base := base + line_base\<rparr>)
          else
            (case AM_Retrieve (public_symbols m) address of
               None \<Rightarrow> frame
             | Some (symbol, public_address) \<Rightarrow>
                 if public_address > fbase
                 then frame\<lparr>function_name := symbol_name symbol, function_base := base + public_address\<rparr>
                 else frame)
      | None \<Rightarrow>
          (case AM_Retrieve (public_symbols m) address of
             None \<Rightarrow> frame
           | Some (symbol, public_address) \<Rightarrow>
               frame\<lparr>function_name := symbol_name symbol, function_base := base + public_address\<rparr>))"

text \<open>
  The record of a \<open>PUBLIC\<close> symbol comes too late: its parameter size is put into \<open>result\<close>, but what is
  returned is \<open>NULL\<close>.
\<close>

definition FindWindowsFrameInfo :: "u64 \<Rightarrow> Module \<Rightarrow> StackFrame \<Rightarrow> WindowsFrameInfo option" where
  "FindWindowsFrameInfo base m frame =
     (let address = instruction frame - base in
      case CR_RetrieveRange (windows_frame_info m ! STACK_INFO_FRAME_DATA) address of
        Some info \<Rightarrow> Some (WFI_CopyFrom info new_WindowsFrameInfo)
      | None \<Rightarrow>
          (case CR_RetrieveRange (windows_frame_info m ! STACK_INFO_FPO) address of
             Some info \<Rightarrow> Some (WFI_CopyFrom info new_WindowsFrameInfo)
           | None \<Rightarrow>
               (case RetrieveNearestRange (rm_map (function_map m)) address of
                  Some (i, fbase, _, fsize) \<Rightarrow>
                    if address \<ge> fbase \<and> address - fbase < fsize then
                      Some (new_WindowsFrameInfo\<lparr>
                        wf_parameter_size := word_of_int (func_parameter_size (func_store m ! i)),
                        wf_valid := VALID_PARAMETER_SIZE\<rparr>)
                    else None
                | None \<Rightarrow> None)))"

fun apply_deltas :: "(u64, string) std_map \<Rightarrow> u64 \<Rightarrow> CFIFrameInfo \<Rightarrow> CFIFrameInfo" where
  "apply_deltas [] address rules = rules"
| "apply_deltas ((a, delta) # ds) address rules =
     (if a \<le> address
      then apply_deltas ds address (snd (CFI_Parse CFIFrameInfoParseHandler delta rules))
      else rules)"

definition FindCFIFrameInfo :: "u64 \<Rightarrow> Module \<Rightarrow> StackFrame \<Rightarrow> CFIFrameInfo option" where
  "FindCFIFrameInfo base m frame =
     (let address = instruction frame - base in
      case RetrieveRange (rm_map (cfi_initial_rules m)) address of
        None \<Rightarrow> None
      | Some (initial_rules, initial_base, _, _) \<Rightarrow>
          let (ok, rules) = CFI_Parse CFIFrameInfoParseHandler initial_rules new_CFIFrameInfo in
          if \<not> ok then None
          else Some (apply_deltas (lower_bound (cfi_delta_rules m) initial_base) address rules))"

section \<open>The resolver\<close>

text \<open>
  A code module is the name of its file; \<open>None\<close> is a null pointer.  The buffer of a module is deleted
  after loading (\<open>ShouldDeleteMemoryBufferAfterLoadModule\<close>), so \<open>memory_buffers_\<close> stays empty.

  The map and the set are ordered by \<open>CompareString\<close>, that is by \<open>strcmp\<close> of the C strings of two names:
  names that agree up to their first NUL are the same key.  A key is kept as its C string.
\<close>

definition c_str :: "string \<Rightarrow> string" where
  "c_str s = takeWhile (\<lambda>c. c \<noteq> NUL) s"

lemma c_str_plain: "NUL \<notin> set s \<Longrightarrow> c_str s = s"
  by (auto simp: c_str_def takeWhile_eq_all_conv)

lemma c_str_no_nul [simp]: "NUL \<notin> set (c_str s)"
  by (auto simp: c_str_def dest: set_takeWhileD)

lemma c_str_idem [simp]: "c_str (c_str s) = c_str s"
  by (simp add: c_str_plain)

record Resolver =
  modules :: "(string, Module) std_map"
  corrupt_modules :: "string set"

definition new_Resolver :: Resolver where
  "new_Resolver = \<lparr>modules = [], corrupt_modules = {}\<rparr>"

definition LoadModuleUsingMemoryBuffer ::
  "string option \<Rightarrow> string \<Rightarrow> Resolver \<Rightarrow> (bool \<times> Resolver) run"
where
  "LoadModuleUsingMemoryBuffer code_module memory_buffer r =
     (case code_module of
        None \<Rightarrow> Done (False, r)
      | Some code_file \<Rightarrow>
          if map_find (modules r) (c_str code_file) \<noteq> [] then Done (False, r)
          else
            (case LoadMapFromMemory memory_buffer new_Module of
               Done (_, m) \<Rightarrow>
                 Done (True, r\<lparr>modules := map_insert (c_str code_file) m (modules r),
                   corrupt_modules := (if is_corrupt m then insert (c_str code_file) (corrupt_modules r)
                     else corrupt_modules r)\<rparr>)
             | Overread \<Rightarrow> Overread
             | NoReturn \<Rightarrow> NoReturn))"

definition LoadModuleUsingMapBuffer ::
  "string option \<Rightarrow> string \<Rightarrow> Resolver \<Rightarrow> (bool \<times> Resolver) run"
where
  "LoadModuleUsingMapBuffer code_module map_buffer r =
     (case code_module of
        None \<Rightarrow> Done (False, r)
      | Some code_file \<Rightarrow>
          if map_find (modules r) (c_str code_file) \<noteq> [] then Done (False, r)
          else LoadModuleUsingMemoryBuffer code_module (map_buffer @ [NUL]) r)"

text \<open>\<open>symbol_data\<close> is what \<open>ReadSymbolFile\<close> reads from the file, \<open>None\<close> if it fails.\<close>

definition LoadModule :: "string option \<Rightarrow> string option \<Rightarrow> Resolver \<Rightarrow> (bool \<times> Resolver) run" where
  "LoadModule code_module symbol_data r =
     (case code_module of
        None \<Rightarrow> Done (False, r)
      | Some code_file \<Rightarrow>
          if map_find (modules r) (c_str code_file) \<noteq> [] then Done (False, r)
          else
            (case symbol_data of
               None \<Rightarrow> Done (False, r)
             | Some contents \<Rightarrow> LoadModuleUsingMemoryBuffer code_module (contents @ [NUL]) r))"

definition UnloadModule :: "string option \<Rightarrow> Resolver \<Rightarrow> Resolver" where
  "UnloadModule code_module r =
     (case code_module of
        None \<Rightarrow> r
      | Some code_file \<Rightarrow>
          if map_find (modules r) (c_str code_file) \<noteq> []
          then r\<lparr>corrupt_modules := corrupt_modules r - {c_str code_file},
            modules := map_erase (c_str code_file) (modules r)\<rparr>
          else r)"

definition HasModule :: "string option \<Rightarrow> Resolver \<Rightarrow> bool" where
  "HasModule code_module r =
     (case code_module of None \<Rightarrow> False | Some code_file \<Rightarrow> map_find (modules r) (c_str code_file) \<noteq> [])"

definition IsModuleCorrupt :: "string option \<Rightarrow> Resolver \<Rightarrow> bool" where
  "IsModuleCorrupt code_module r =
     (case code_module of None \<Rightarrow> False | Some code_file \<Rightarrow> c_str code_file \<in> corrupt_modules r)"

text \<open>The module of a frame is the name of its file and its base address.\<close>

definition with_module :: "(string \<times> u64) option \<Rightarrow> Resolver \<Rightarrow> 'a \<Rightarrow> (u64 \<Rightarrow> Module \<Rightarrow> 'a) \<Rightarrow> 'a" where
  "with_module frame_module r none f =
     (case frame_module of
        None \<Rightarrow> none
      | Some (code_file, base) \<Rightarrow>
          (case map_find (modules r) (c_str code_file) of
             [] \<Rightarrow> none
           | (_, m) # _ \<Rightarrow> f base m))"

definition FillSourceLineInfo :: "(string \<times> u64) option \<Rightarrow> Resolver \<Rightarrow> StackFrame \<Rightarrow> StackFrame" where
  "FillSourceLineInfo frame_module r frame =
     with_module frame_module r frame (\<lambda>base m. LookupAddress base m frame)"

definition SLR_FindWindowsFrameInfo ::
  "(string \<times> u64) option \<Rightarrow> Resolver \<Rightarrow> StackFrame \<Rightarrow> WindowsFrameInfo option"
where
  "SLR_FindWindowsFrameInfo frame_module r frame =
     with_module frame_module r None (\<lambda>base m. FindWindowsFrameInfo base m frame)"

definition SLR_FindCFIFrameInfo ::
  "(string \<times> u64) option \<Rightarrow> Resolver \<Rightarrow> StackFrame \<Rightarrow> CFIFrameInfo option"
where
  "SLR_FindCFIFrameInfo frame_module r frame =
     with_module frame_module r None (\<lambda>base m. FindCFIFrameInfo base m frame)"

end
