(* ===== verification/Resolver_Invariant.thy ===== *)
theory Resolver_Invariant
  imports Source_Line_Resolver
begin

text \<open>
  The invariant of a module of \<open>Source_Line_Resolver\<close>, \<open>module_ok\<close>: each of its maps is well-formed and
  holds its entries where they say they are.  Every record of a symbol file keeps it, so that loading
  returns, with one exception: \<open>Overread\<close>, which needs a \<open>STACK\<close> record that the end of the buffer cuts
  off right behind its platform.
\<close>

section \<open>Ranges stored at the place of their entry\<close>

definition placed :: "('e \<Rightarrow> u64 \<times> u64) \<Rightarrow> (u64, 'e) RangeMap \<Rightarrow> bool" where
  "placed place s \<longleftrightarrow> \<not> enable_shrink_down s \<and> ranges_ok (rm_map s)
     \<and> (\<forall>(k, r)\<in>set (rm_map s). rng_base r = fst (place (rng_entry r)) \<and> snd (place (rng_entry r)) \<noteq> 0
          \<and> k = fst (place (rng_entry r)) + (snd (place (rng_entry r)) - 1))"

lemma StoreRange_plain:
  assumes "\<not> enable_shrink_down s" "ranges_ok (rm_map s)"
  shows "StoreRange b len e s = Some (False, s)
    \<or> len \<noteq> 0 \<and> (\<exists>m. StoreRange b len e s = Some (True, s\<lparr>rm_map := m\<rparr>) \<and> ranges_ok m
        \<and> set m = insert (b + (len - 1), mk_Range b 0 e) (set (rm_map s)))"
proof (cases "len = 0 \<or> b + (len - 1) < b \<or> \<not> fits False (rm_map s) b (b + (len - 1))")
  case True
  then have "StoreRangeInternal False b 0 len e (rm_map s) = Some (False, rm_map s)"
    by (rule store_outcome(1) [OF assms(2) refl])
  then show ?thesis using assms(1) by (simp add: StoreRange_def)
next
  case False
  let ?h = "b + (len - 1)"
  have ok: "len \<noteq> 0" "b \<le> ?h" "fits False (rm_map s) b ?h" using False by auto
  from store_outcome(2) [OF assms(2) refl ok, of 0 e]
  have store: "StoreRangeInternal False b 0 len e (rm_map s)
      = Some (True, map_insert ?h (mk_Range b 0 e) (rm_map s))"
    and free: "\<forall>a p. b \<le> a \<and> a \<le> ?h \<longrightarrow> \<not> covers (rm_map s) a p"
    by auto
  have "ranges_ok (map_insert ?h (mk_Range b 0 e) (rm_map s))"
    "set (map_insert ?h (mk_Range b 0 e) (rm_map s)) = insert (?h, mk_Range b 0 e) (set (rm_map s))"
    using ranges_ok_insert [OF assms(2) ok(2)] free by blast+
  then show ?thesis
    using store ok(1) assms(1)
    by (intro disjI2 conjI exI [of _ "map_insert ?h (mk_Range b 0 e) (rm_map s)"]) (simp_all add: StoreRange_def)
qed

lemma placed_new [simp]: "placed place new_RangeMap"
  by (simp add: placed_def new_RangeMap_def)

lemma placed_StoreRange:
  assumes "placed place s" "place e = (b, len)"
  shows "\<exists>ok s'. StoreRange b len e s = Some (ok, s') \<and> placed place s'
    \<and> rng_entry ` snd ` set (rm_map s') \<subseteq> insert e (rng_entry ` snd ` set (rm_map s))"
proof -
  have s: "\<not> enable_shrink_down s" "ranges_ok (rm_map s)" using assms(1) by (simp_all add: placed_def)
  from StoreRange_plain [OF this, of b len e] show ?thesis
  proof (elim disjE exE conjE)
    assume "StoreRange b len e s = Some (False, s)"
    then show ?thesis using assms(1) by auto
  next
    fix m assume m: "StoreRange b len e s = Some (True, s\<lparr>rm_map := m\<rparr>)" "ranges_ok m" "len \<noteq> 0"
      "set m = insert (b + (len - 1), mk_Range b 0 e) (set (rm_map s))"
    have "placed place (s\<lparr>rm_map := m\<rparr>)"
      using assms s m(2-4) by (auto simp: placed_def mk_Range_def)
    then show ?thesis using m(1,4) by (auto simp: mk_Range_def)
  qed
qed

lemma placed_cong:
  assumes "\<And>e. e \<in> rng_entry ` snd ` set (rm_map s) \<Longrightarrow> place' e = place e"
  shows "placed place' s \<longleftrightarrow> placed place s"
  using assms by (force simp: placed_def)

section \<open>The invariant\<close>

definition line_place :: "Line \<Rightarrow> u64 \<times> u64" where
  "line_place l = (line_address l, line_size l)"

definition func_place :: "Function list \<Rightarrow> nat \<Rightarrow> u64 \<times> u64" where
  "func_place store i = (func_address (store ! i), func_size (store ! i))"

definition functions_ok :: "(u64, nat) RangeMap \<Rightarrow> Function list \<Rightarrow> bool" where
  "functions_ok fs store \<longleftrightarrow> placed (func_place store) fs \<and> rng_entry ` snd ` set (rm_map fs) \<subseteq> {..<length store}
     \<and> (\<forall>f\<in>set store. placed line_place (func_lines f))"

definition module_ok :: "Module \<Rightarrow> bool" where
  "module_ok m \<longleftrightarrow> map_ok (file_map m) \<and> functions_ok (function_map m) (func_store m)
     \<and> map_ok (public_symbols m) \<and> (\<forall>(a, s)\<in>set (public_symbols m). symbol_address s = a)
     \<and> length (windows_frame_info m) = STACK_INFO_LAST \<and> (\<forall>t\<in>set (windows_frame_info m). tree_ok t)
     \<and> \<not> enable_shrink_down (cfi_initial_rules m) \<and> ranges_ok (rm_map (cfi_initial_rules m))
     \<and> map_ok (cfi_delta_rules m)"

lemma new_Module_ok: "module_ok new_Module"
  by (simp add: module_ok_def new_Module_def functions_ok_def new_RangeMap_def placed_def)

lemma functions_ok_new:
  assumes "functions_ok fs store" "placed line_place (func_lines f)"
  shows "\<exists>ok fs'. StoreRange (func_address f) (func_size f) (length store) fs = Some (ok, fs')
    \<and> functions_ok fs' (store @ [f])"
proof -
  have "placed (func_place store) fs" "rng_entry ` snd ` set (rm_map fs) \<subseteq> {..<length store}"
    using assms(1) by (simp_all add: functions_ok_def)
  then have "placed (func_place (store @ [f])) fs"
    by (subst placed_cong [of _ _ "func_place store"]) (auto simp: func_place_def nth_append)
  from placed_StoreRange [OF this, of "length store" "func_address f" "func_size f"]
  obtain ok fs' where "StoreRange (func_address f) (func_size f) (length store) fs = Some (ok, fs')"
    "placed (func_place (store @ [f])) fs'"
    "rng_entry ` snd ` set (rm_map fs') \<subseteq> insert (length store) (rng_entry ` snd ` set (rm_map fs))"
    by (auto simp: func_place_def)
  then show ?thesis using assms by (fastforce simp: functions_ok_def)
qed

lemma functions_ok_lines:
  assumes "functions_ok fs store" "i < length store" "placed line_place ls"
  shows "functions_ok fs (store[i := (store ! i)\<lparr>func_lines := ls\<rparr>])"
proof -
  have "func_place (store[i := (store ! i)\<lparr>func_lines := ls\<rparr>]) = func_place store"
    using assms(2) by (auto simp: func_place_def nth_list_update fun_eq_iff)
  moreover have "\<forall>f\<in>set (store[i := (store ! i)\<lparr>func_lines := ls\<rparr>]). placed line_place (func_lines f)"
    using assms(1,3) set_update_subset_insert [of store i] by (fastforce simp: functions_ok_def)
  ultimately show ?thesis using assms(1) by (simp add: functions_ok_def)
qed

section \<open>Every record keeps it\<close>

lemma ParseFile_ok: "module_ok m \<Longrightarrow> module_ok (snd (ParseFile line m))"
  by (auto simp: ParseFile_def module_ok_def map_ok_insert split: option.split)

lemma ParsePublicSymbol_ok:
  assumes "module_ok m" shows "module_ok (snd (ParsePublicSymbol line m))"
proof (cases "SPH_ParsePublicSymbol line")
  case (Some x)
  obtain address param name where x: "x = (address, param, name)" by (cases x)
  let ?s = "\<lparr>symbol_name = name, symbol_address = address, symbol_parameter_size = to_int param\<rparr>"
  have ok: "map_ok (public_symbols m)" "\<forall>(a, s)\<in>set (public_symbols m). symbol_address s = a"
    using assms by (simp_all add: module_ok_def)
  have "map_ok (snd (AM_Store address ?s (public_symbols m)))
    \<and> (\<forall>(a, s)\<in>set (snd (AM_Store address ?s (public_symbols m))). symbol_address s = a)"
    using ok set_map_insert [of address "public_symbols m" ?s]
    by (auto simp: AM_Store_outcome [OF ok(1)] map_ok_insert dom_map_of_conv_image_fst)
  then show ?thesis
    using assms Some x by (auto simp: ParsePublicSymbol_def module_ok_def case_prod_beta)
qed (simp add: ParsePublicSymbol_def assms)

lemma map_ok_assign: "map_ok m \<Longrightarrow> map_ok (map_assign k v m)"
  by (simp add: map_assign_def map_ok_insert map_ok_erase)

lemma ParseCFIFrameInfo_ok:
  assumes "module_ok m"
  shows "\<exists>ok m'. ParseCFIFrameInfo t m = Done (ok, m') \<and> module_ok m' \<and> func_store m' = func_store m"
proof -
  have cfi: "\<not> enable_shrink_down (cfi_initial_rules m)" "ranges_ok (rm_map (cfi_initial_rules m))"
    "map_ok (cfi_delta_rules m)"
    using assms by (simp_all add: module_ok_def)
  have delta: "module_ok (m\<lparr>cfi_delta_rules := map_assign a d (cfi_delta_rules m)\<rparr>)" for a d
    using assms cfi(3) by (simp add: module_ok_def map_ok_assign)
  have init: "\<exists>ok r. StoreRange b len e (cfi_initial_rules m) = Some (ok, r)
      \<and> module_ok (m\<lparr>cfi_initial_rules := r\<rparr>)" for b len e
    using StoreRange_plain [OF cfi(1,2), of b len e] assms
    by (elim disjE exE conjE) (auto simp: module_ok_def)
  show ?thesis
  proof (cases "strtok_r kWhitespace t")
    case (Some x)
    obtain token c where x: "x = (token, c)" by (cases x)
    show ?thesis
    proof (cases "token = ''INIT''")
      case True
      have "\<exists>ok m'. (case StoreRange b len e (cfi_initial_rules m) of
          None \<Rightarrow> NoReturn
        | Some (_, rules) \<Rightarrow> Done (True, m\<lparr>cfi_initial_rules := rules\<rparr>)) = Done (ok, m')
        \<and> module_ok m' \<and> func_store m' = func_store m" for b len e
        using init [of b len e] by auto
      then show ?thesis
        using Some x True assms by (auto simp: ParseCFIFrameInfo_def split: option.split)
    next
      case False
      then show ?thesis
        using Some x delta assms by (auto simp: ParseCFIFrameInfo_def split: option.split)
    qed
  qed (auto simp: ParseCFIFrameInfo_def assms)
qed

text \<open>A record of stack information without anything behind its platform\<close>

definition bare_stack :: "string \<Rightarrow> bool" where
  "bare_stack line \<longleftrightarrow>
     (\<exists>n p. line = ''STACK '' @ replicate n CHR '' '' @ p \<and> p \<in> {''WIN'', ''CFI''})"

lemma ParseFromString_type: "ParseFromString t = Some (info, type, rva, len) \<Longrightarrow> type < STACK_INFO_LAST"
  by (auto simp: ParseFromString_def Let_def STACK_INFO_LAST_def split: option.splits if_splits)

lemma takeWhile_replicate:
  "takeWhile (\<lambda>c. c = a) xs = replicate (length (takeWhile (\<lambda>c. c = a) xs)) a"
  by (induction xs) auto

lemma ParseStackInfo_ok:
  assumes "module_ok m" "take 6 line = ''STACK ''"
  shows "case ParseStackInfo line behind m of
      Done (ok, m', was_cut) \<Rightarrow> module_ok m' \<and> func_store m' = func_store m
    | Overread \<Rightarrow> behind = None \<and> bare_stack line
    | NoReturn \<Rightarrow> False"
proof -
  define p where "p = dropWhile (\<lambda>c. c = CHR '' '') (drop 6 line)"
  have line: "line = ''STACK '' @ replicate (length (takeWhile (\<lambda>c. c = CHR '' '') (drop 6 line))) CHR '' '' @ p"
  proof -
    show ?thesis
      by (metis takeWhile_replicate append_take_drop_id assms(2) p_def takeWhile_dropWhile_id)
  qed
  have bare: "bare_stack line" if "takeWhile (\<lambda>c. c \<notin> kWhitespace) p \<in> {''WIN'', ''CFI''}"
    "dropWhile (\<lambda>c. c \<notin> kWhitespace) p = []"
  proof -
    have "takeWhile (\<lambda>c. c \<notin> kWhitespace) p = p"
      using that(2) by (metis append_Nil2 takeWhile_dropWhile_id)
    then show ?thesis using line that(1) unfolding bare_stack_def by metis
  qed
  have windows: "module_ok (m\<lparr>windows_frame_info := (windows_frame_info m)
      [type := snd (CR_StoreRange rva len info (windows_frame_info m ! type))]\<rparr>)"
    if "type < STACK_INFO_LAST" for type rva len info
  proof -
    have w: "length (windows_frame_info m) = STACK_INFO_LAST" "\<forall>t\<in>set (windows_frame_info m). tree_ok t"
      using assms(1) by (simp_all add: module_ok_def)
    then have "tree_ok (windows_frame_info m ! type)" using that by simp
    from CR_StoreRange_outcome [OF this, of len rva info] this
    have "tree_ok (snd (CR_StoreRange rva len info (windows_frame_info m ! type)))"
      by (auto split: if_splits)
    then have "\<forall>t\<in>set ((windows_frame_info m)
        [type := snd (CR_StoreRange rva len info (windows_frame_info m ! type))]). tree_ok t"
      using w(2) set_update_subset_insert [of "windows_frame_info m" type] by fastforce
    then show ?thesis using assms(1) by (simp add: module_ok_def)
  qed
  define rest where "rest = (if dropWhile (\<lambda>c. c \<notin> kWhitespace) p = [] then behind
    else Some (tl (dropWhile (\<lambda>c. c \<notin> kWhitespace) p)))"
  note unfold = ParseStackInfo_def [of line behind m, folded p_def, unfolded Let_def, folded rest_def]
  consider (win) "takeWhile (\<lambda>c. c \<notin> kWhitespace) p = ''WIN''"
    | (cfi) "takeWhile (\<lambda>c. c \<notin> kWhitespace) p = ''CFI''"
    | (other) "takeWhile (\<lambda>c. c \<notin> kWhitespace) p \<notin> {''WIN'', ''CFI''}" by blast
  then show ?thesis
  proof cases
    case win
    show ?thesis
    proof (cases rest)
      case None
      then show ?thesis using win bare by (auto simp: unfold rest_def split: if_splits)
    next
      case (Some t)
      show ?thesis
      proof (cases "ParseFromString t")
        case None
        then show ?thesis using win Some assms(1) by (simp add: unfold)
      next
        case (Some x)
        obtain info type rva len where x: "x = (info, type, rva, len)" by (cases x)
        show ?thesis
          using win \<open>rest = Some t\<close> Some windows [OF ParseFromString_type] by (simp add: unfold x)
      qed
    qed
  next
    case cfi
    show ?thesis
    proof (cases rest)
      case None
      then show ?thesis using cfi bare by (auto simp: unfold rest_def split: if_splits)
    next
      case (Some t)
      obtain ok m' where "ParseCFIFrameInfo t m = Done (ok, m')" "module_ok m'" "func_store m' = func_store m"
        using ParseCFIFrameInfo_ok [OF assms(1)] by blast
      then show ?thesis using cfi Some by (simp add: unfold)
    qed
  next
    case other
    then show ?thesis using assms(1) by (simp add: unfold)
  qed
qed

definition cur_ok :: "nat option \<Rightarrow> Module \<Rightarrow> bool" where
  "cur_ok cur m \<longleftrightarrow> (case cur of None \<Rightarrow> True | Some i \<Rightarrow> i < length (func_store m))"

lemma ParseFile_store: "func_store (snd (ParseFile line m)) = func_store m"
  by (simp add: ParseFile_def split: option.split)

lemma parse_function_ok:
  assumes "module_ok m" "ParseFunction line = Some f"
  shows "\<exists>ok fs. StoreRange (func_address f) (func_size f) (length (func_store m)) (function_map m) = Some (ok, fs)
    \<and> module_ok (m\<lparr>function_map := fs, func_store := func_store m @ [f]\<rparr>)"
proof -
  have "placed line_place (func_lines f)" using assms(2) by (auto simp: ParseFunction_def)
  then show ?thesis
    using functions_ok_new [of "function_map m" "func_store m" f] assms(1) by (auto simp: module_ok_def)
qed

lemma store_line_ok:
  assumes "module_ok m" "i < length (func_store m)"
  shows "\<exists>ok ls. StoreRange (line_address l) (line_size l) l (func_lines (func_store m ! i)) = Some (ok, ls)
    \<and> module_ok (m\<lparr>func_store := (func_store m)[i := (func_store m ! i)\<lparr>func_lines := ls\<rparr>]\<rparr>)"
proof -
  have fs: "functions_ok (function_map m) (func_store m)" using assms(1) by (simp add: module_ok_def)
  then have "placed line_place (func_lines (func_store m ! i))" using assms(2) by (simp add: functions_ok_def)
  from placed_StoreRange [OF this, of l "line_address l" "line_size l"]
  obtain ok ls where "StoreRange (line_address l) (line_size l) l (func_lines (func_store m ! i)) = Some (ok, ls)"
    "placed line_place ls"
    by (auto simp: line_place_def)
  then show ?thesis using functions_ok_lines [OF fs assms(2)] assms(1) by (auto simp: module_ok_def)
qed

lemma parse_record_ok:
  assumes "module_ok m" "cur_ok cur m"
  shows "case parse_record line behind cur m of
      Done (ok, cur', m', was_cut) \<Rightarrow> module_ok m' \<and> cur_ok cur' m'
    | Overread \<Rightarrow> behind = None \<and> bare_stack line
    | NoReturn \<Rightarrow> False"
proof -
  consider (name) "take 5 line = ''FILE ''" | (stack) "take 6 line = ''STACK ''"
    | (fn) "take 5 line = ''FUNC ''" | (symbol) "take 7 line = ''PUBLIC ''"
    | (other) "take 7 line = ''MODULE '' \<or> take 5 line = ''INFO ''"
    | (source) "take 5 line \<notin> {''FILE '', ''FUNC '', ''INFO ''}" "take 6 line \<noteq> ''STACK ''"
        "take 7 line \<notin> {''PUBLIC '', ''MODULE ''}"
    by blast
  then show ?thesis
  proof cases
    case name
    then show ?thesis
      using ParseFile_ok [OF assms(1), of line] ParseFile_store [of line m] assms(2)
      by (cases cur) (auto simp: parse_record_def cur_ok_def split: prod.split)
  next
    case stack
    then have "take 5 line \<noteq> ''FILE ''" by (cases line) auto
    then show ?thesis
      using stack ParseStackInfo_ok [OF assms(1) stack, of behind] assms(2)
      by (cases cur) (auto simp: parse_record_def cur_ok_def split: run.splits prod.splits)
  next
    case fn
    then have o: "take 5 line \<noteq> ''FILE ''" "take 6 line \<noteq> ''STACK ''" by (cases line; auto)+
    show ?thesis
    proof (cases "ParseFunction line")
      case None
      then show ?thesis using fn o assms(1) by (simp add: parse_record_def cur_ok_def)
    next
      case (Some f)
      then show ?thesis
        using parse_function_ok [OF assms(1) Some] fn o by (auto simp: parse_record_def cur_ok_def)
    qed
  next
    case symbol
    then have o: "take 5 line \<notin> {''FILE '', ''FUNC ''}" "take 6 line \<noteq> ''STACK ''" by (cases line; auto)+
    then show ?thesis
      using symbol o ParsePublicSymbol_ok [OF assms(1), of line]
      by (auto simp: parse_record_def cur_ok_def split: prod.split)
  next
    case other
    then have o: "take 5 line \<notin> {''FILE '', ''FUNC ''}" "take 6 line \<noteq> ''STACK ''" "take 7 line \<noteq> ''PUBLIC ''"
      by (cases line; auto)+
    then show ?thesis using other assms by (auto simp: parse_record_def)
  next
    case source
    show ?thesis
    proof (cases cur)
      case None
      then show ?thesis using source assms by (simp add: parse_record_def)
    next
      case (Some i)
      then have i: "i < length (func_store m)" using assms(2) by (simp add: cur_ok_def)
      show ?thesis
      proof (cases "ParseLine line")
        case None
        then show ?thesis using source assms Some by (simp add: parse_record_def)
      next
        case (Some l)
        then show ?thesis
          using store_line_ok [OF assms(1) i, of l] source i \<open>cur = Some i\<close>
          by (auto simp: parse_record_def cur_ok_def)
      qed
    qed
  qed
qed

section \<open>Loading\<close>

definition ends_bare :: "string \<Rightarrow> bool" where
  "ends_bare t \<longleftrightarrow> (\<exists>pre line. t = pre @ line \<and> (pre = [] \<or> last pre \<in> eols) \<and> bare_stack line)"

lemma ends_bare_suffix:
  assumes "ends_bare t" "s = pre @ t" "pre = [] \<or> last pre \<in> eols" shows "ends_bare s"
proof -
  obtain p line where p: "t = p @ line" "p = [] \<or> last p \<in> eols" "bare_stack line"
    using assms(1) by (auto simp: ends_bare_def)
  have "s = (pre @ p) @ line" "pre @ p = [] \<or> last (pre @ p) \<in> eols"
    using p assms(2,3) by (auto simp: last_append)
  then show ?thesis using p(3) unfolding ends_bare_def by blast
qed

lemma strtok_r_parts:
  assumes "strtok_r delims t = Some (token, rest)"
  shows "t = takeWhile (\<lambda>c. c \<in> delims) t @ token @ dropWhile (\<lambda>c. c \<notin> delims) (dropWhile (\<lambda>c. c \<in> delims) t)"
    and "rest = tl (dropWhile (\<lambda>c. c \<notin> delims) (dropWhile (\<lambda>c. c \<in> delims) t))"
  using assms by (auto simp: strtok_r_def Let_def split: if_splits)

text \<open>The text behind a line is a suffix of the text that begins behind a line end.\<close>

lemma strtok_r_suffix:
  assumes "strtok_r delims t = Some (token, rest)"
    "dropWhile (\<lambda>c. c \<notin> delims) (dropWhile (\<lambda>c. c \<in> delims) t) \<noteq> []"
  shows "\<exists>pre. t = pre @ rest \<and> last pre \<in> delims \<and> pre \<noteq> []"
proof -
  let ?d = "dropWhile (\<lambda>c. c \<notin> delims) (dropWhile (\<lambda>c. c \<in> delims) t)"
  obtain c u where d: "?d = c # u" using assms(2) by (cases ?d) auto
  have "c \<in> delims" using hd_dropWhile [OF assms(2)] d by simp
  moreover have "t = (takeWhile (\<lambda>c. c \<in> delims) t @ token @ [c]) @ rest"
    using strtok_r_parts [OF assms(1)] d by simp
  ultimately show ?thesis by (intro exI [of _ "takeWhile (\<lambda>c. c \<in> delims) t @ token @ [c]"]) auto
qed

lemma load_lines_ok:
  assumes "module_ok m" "cur_ok cur m" "behind = None \<Longrightarrow> t \<noteq> [] \<Longrightarrow> \<exists>pre. text0 = pre @ t \<and> (pre = [] \<or> last pre \<in> eols)"
  shows "case load_lines t behind cur n m of
      Done (n', m') \<Rightarrow> module_ok m'
    | Overread \<Rightarrow> ends_bare text0
    | NoReturn \<Rightarrow> False"
  using assms
proof (induction t arbitrary: behind cur n m rule: measure_induct_rule [of length])
  case (less t)
  show ?case
  proof (cases "strtok_r eols t")
    case None
    then show ?thesis using less.prems(1) by (simp add: load_lines.simps [of t])
  next
    case (Some x)
    obtain line rest where x: "x = (line, rest)" by (cases x)
    define d where "d = dropWhile (\<lambda>c. c \<notin> eols) (dropWhile (\<lambda>c. c \<in> eols) t)"
    let ?b = "if d = [] then behind else Some rest"
    note step = load_lines.simps [of t behind cur n m, folded d_def, unfolded Some x option.case prod.case Let_def]
    have "t \<noteq> []" using Some by auto
    note rec = parse_record_ok [OF less.prems(1,2), where line = line and behind = ?b]
    show ?thesis
    proof (cases "parse_record line ?b cur m")
      case (Done y)
      obtain ok cur' m' was_cut where y: "y = (ok, cur', m', was_cut)" by (cases y)
      have m': "module_ok m'" "cur_ok cur' m'" using rec by (simp_all add: Done y)
      have shorter: "length rest < length t" by (rule strtok_r_shorter [OF Some [unfolded x]])
      have rest: "\<exists>pre. text0 = pre @ rest \<and> (pre = [] \<or> last pre \<in> eols)" if bn: "behind = None" and dn: "d \<noteq> []"
      proof -
        obtain pre where pre: "text0 = pre @ t" "pre = [] \<or> last pre \<in> eols" using less.prems(3) bn \<open>t \<noteq> []\<close> by blast
        obtain p where p: "t = p @ rest" "last p \<in> eols" "p \<noteq> []"
          using strtok_r_suffix [OF Some [unfolded x] dn [unfolded d_def]] by (elim exE conjE)
        have "text0 = (pre @ p) @ rest" using pre(1) unfolding p(1) append_assoc .
        moreover have "last (pre @ p) \<in> eols" using p(2,3) by (simp only: last_append if_False)
        ultimately show ?thesis by (intro exI [where x = "pre @ p"] conjI disjI2)
      qed
      have "rest = []" if "d = []" using strtok_r_parts(2) [OF Some [unfolded x], folded d_def] that by simp
      then have IH: "case load_lines rest behind cur' n' m' of
          Done (n', m') \<Rightarrow> module_ok m' | Overread \<Rightarrow> ends_bare text0 | NoReturn \<Rightarrow> False" for n'
        using less.IH [OF shorter m', of behind n'] rest by blast
      have cut_IH: "case load_lines (fst (cut_text rest behind)) (snd (cut_text rest behind)) cur' n' m' of
          Done (n', m') \<Rightarrow> module_ok m' | Overread \<Rightarrow> ends_bare text0 | NoReturn \<Rightarrow> False" if "d \<noteq> []" for n'
      proof (rule less.IH [OF le_less_trans [OF length_cut_text shorter] m'])
        assume none: "snd (cut_text rest behind) = None"
        have e: "fst (cut_text rest behind) = rest" "behind = None"
          using none by (auto simp: cut_text_def split: option.splits if_splits)
        show "\<exists>pre. text0 = pre @ fst (cut_text rest behind) \<and> (pre = [] \<or> last pre \<in> eols)"
          unfolding e(1) by (rule rest [OF e(2) that])
      qed
      show ?thesis
        using IH cut_IH m'(1) unfolding step by (auto simp: Done y Let_def)
    next
      case Overread
      have b: "behind = None" "d = []" "bare_stack line" using rec Overread by (auto split: if_splits)
      obtain pre where pre: "text0 = pre @ t" "pre = [] \<or> last pre \<in> eols" using less.prems(3) b(1) \<open>t \<noteq> []\<close> by blast
      have "t = takeWhile (\<lambda>c. c \<in> eols) t @ line"
        using strtok_r_parts(1) [OF Some [unfolded x], folded d_def] b(2) by simp
      moreover have "takeWhile (\<lambda>c. c \<in> eols) t = [] \<or> last (takeWhile (\<lambda>c. c \<in> eols) t) \<in> eols"
        by (metis last_in_set set_takeWhileD)
      ultimately have "ends_bare t" using b(3) unfolding ends_bare_def by blast
      then show ?thesis using ends_bare_suffix [OF _ pre] Overread by (simp add: step)
    next
      case NoReturn
      then show ?thesis using rec by simp
    qed
  qed
qed

text \<open>
  The text of a buffer: what is in front of the NULs at its end, the first of which replaces the last
  character if that is not a NUL
\<close>

definition buffer_text :: "string \<Rightarrow> string" where
  "buffer_text buffer = rev (dropWhile (\<lambda>c. c = NUL) (rev (butlast buffer)))"

lemma buffer_text_body: "rev (dropWhile (\<lambda>c. c = NUL) (rev (butlast buffer @ [NUL]))) = buffer_text buffer"
  by (simp add: buffer_text_def)

lemma buffer_text_split: "\<exists>n. butlast buffer = buffer_text buffer @ replicate n NUL"
proof -
  obtain n where n: "takeWhile (\<lambda>c. c = NUL) (rev (butlast buffer)) = replicate n NUL"
    by (rule that [OF takeWhile_replicate])
  have "rev (butlast buffer) = replicate n NUL @ dropWhile (\<lambda>c. c = NUL) (rev (butlast buffer))"
    using takeWhile_dropWhile_id [of "\<lambda>c. c = NUL" "rev (butlast buffer)"] n by simp
  then have "butlast buffer = buffer_text buffer @ replicate n NUL"
    by (metis buffer_text_def rev_append rev_replicate rev_rev_ident)
  then show ?thesis ..
qed

text \<open>A NUL inside the text becomes an underscore; no bare record contains one.\<close>

lemma ends_bare_map:
  assumes "ends_bare (map (\<lambda>c. if c = NUL then CHR ''_'' else c) t)" (is "ends_bare (map ?f t)")
  shows "\<exists>pre line. t = pre @ line \<and> (pre = [] \<or> last pre \<in> eols) \<and> bare_stack line"
proof -
  obtain pre line where p: "map ?f t = pre @ line" "pre = [] \<or> last pre \<in> eols" "bare_stack line"
    using assms by (auto simp: ends_bare_def)
  obtain pre' line' where t: "t = pre' @ line'" "pre = map ?f pre'" "line = map ?f line'"
    using p(1) by (auto simp: map_eq_append_conv)
  have "CHR ''_'' \<notin> set line" using p(3) by (auto simp: bare_stack_def)
  then have "c \<noteq> NUL" if "c \<in> set line'" for c using t(3) that by (auto split: if_splits)
  then have "line = line'" using t(3) by (simp add: map_idI)
  moreover have "pre' = [] \<or> last pre' \<in> eols"
    using p(2) t(2) by (cases "pre' = []") (auto simp: last_map eols_def split: if_splits)
  ultimately show ?thesis using t(1) p(3) by blast
qed

lemma LoadMapFromMemory_ok:
  assumes "module_ok m"
  shows "case LoadMapFromMemory buffer m of
      Done (ok, m') \<Rightarrow> ok \<and> module_ok m'
    | Overread \<Rightarrow> ends_bare (butlast buffer)
    | NoReturn \<Rightarrow> False"
proof (cases "buffer = []")
  case True
  then show ?thesis using assms by (simp add: LoadMapFromMemory_def)
next
  case False
  let ?text = "map (\<lambda>c. if c = NUL then CHR ''_'' else c) (buffer_text buffer)"
  let ?behind = "if length (butlast buffer @ [NUL]) - length (buffer_text buffer) > 1 then Some [] else None"
  define n where "n = (if NUL \<in> set (buffer_text buffer) then 1 else 0 :: nat)"
  have step: "LoadMapFromMemory buffer m = (case load_lines ?text ?behind None n m of
        Done (num_errors, m) \<Rightarrow> Done (True, m\<lparr>is_corrupt := (num_errors > 0)\<rparr>)
      | Overread \<Rightarrow> Overread
      | NoReturn \<Rightarrow> NoReturn)"
    using False unfolding LoadMapFromMemory_def Let_def buffer_text_body n_def by simp
  obtain k where k: "butlast buffer = buffer_text buffer @ replicate k NUL" using buffer_text_split by blast
  have lines: "case load_lines ?text ?behind None n m of
      Done (n', m') \<Rightarrow> module_ok m'
    | Overread \<Rightarrow> ends_bare (if k = 0 then ?text else [])
    | NoReturn \<Rightarrow> False"
    by (rule load_lines_ok [OF assms]) (auto simp: cur_ok_def k split: if_splits)
  have "ends_bare (butlast buffer)" if "ends_bare (if k = 0 then ?text else [])"
  proof (cases "k = 0")
    case True
    have "butlast buffer = buffer_text buffer" using k True by simp
    moreover have "ends_bare ?text" using that True by simp
    ultimately show ?thesis using ends_bare_map [of "buffer_text buffer"] unfolding ends_bare_def by simp
  next
    case False
    have "\<not> ends_bare []" by (simp add: ends_bare_def bare_stack_def)
    then show ?thesis using that False by simp
  qed
  then show ?thesis
    using lines unfolding step by (cases "load_lines ?text ?behind None n m") (auto simp: module_ok_def)
qed

end
