(* ===== verification/Resolver_Contracts.thy ===== *)
theory Resolver_Contracts
  imports Resolver_Invariant "HOL-Library.Code_Target_Numeral"
begin

text \<open>
  What the processor may rely on when it has loaded symbol files: which function, line or symbol an
  address is resolved to, which unwinding rules it gets, and which modules the resolver has.
\<close>

section \<open>Ranges at the place of their entry\<close>

definition stored :: "(u64, 'e) RangeMap \<Rightarrow> 'e set" where
  "stored s = rng_entry ` snd ` set (rm_map s)"

definition inside :: "u64 \<Rightarrow> u64 \<times> u64 \<Rightarrow> bool" where
  "inside a p \<longleftrightarrow> fst p \<le> a \<and> a - fst p < snd p"

lemma inside_range:
  fixes a b n :: u64
  assumes "n \<noteq> 0" "b \<le> b + (n - 1)"
  shows "b \<le> a \<and> a \<le> b + (n - 1) \<longleftrightarrow> b \<le> a \<and> a - b < n"
proof -
  have "unat (b + (n - 1)) = unat b + unat (n - 1)" using assms(2) by (simp only: unat_plus_simple)
  moreover have "unat (n - 1) = unat n - 1" using assms(1) by (rule unat_minus_one)
  moreover have "0 < unat n" using assms(1) by (simp add: unat_gt_0)
  moreover have "b \<le> a \<Longrightarrow> unat (a - b) = unat a - unat b" by (rule unat_sub)
  ultimately show ?thesis unfolding word_le_nat_alt word_less_nat_alt by linarith
qed

lemma placed_entry:
  assumes "placed place s" "(k, r) \<in> set (rm_map s)"
  shows "rng_base r = fst (place (rng_entry r))" "k = fst (place (rng_entry r)) + (snd (place (rng_entry r)) - 1)"
    "rng_base r \<le> k" "snd (place (rng_entry r)) \<noteq> 0"
    "covers (rm_map s) a (k, r) \<longleftrightarrow> inside a (place (rng_entry r))"
proof -
  show p: "rng_base r = fst (place (rng_entry r))"
    "k = fst (place (rng_entry r)) + (snd (place (rng_entry r)) - 1)" "snd (place (rng_entry r)) \<noteq> 0"
    using assms by (auto simp: placed_def)
  show b: "rng_base r \<le> k" using assms by (auto simp: placed_def intro: ranges_ok_base)
  show "covers (rm_map s) a (k, r) \<longleftrightarrow> inside a (place (rng_entry r))"
    using inside_range [of "snd (place (rng_entry r))" "fst (place (rng_entry r))" a] p b assms(2)
    by (simp add: covers_def inside_def)
qed

lemma placed_retrieve:
  assumes "placed place s" "e \<in> stored s" "inside a (place e)"
  shows "\<exists>d n. RetrieveRange (rm_map s) a = Some (e, fst (place e), d, n)"
proof -
  obtain k r where kr: "(k, r) \<in> set (rm_map s)" "e = rng_entry r" using assms(2) by (auto simp: stored_def)
  then have "covers (rm_map s) a (k, r)" using placed_entry(5) [OF assms(1)] assms(3) by simp
  moreover have "ranges_ok (rm_map s)" using assms(1) by (simp add: placed_def)
  ultimately have "RetrieveRange (rm_map s) a = Some (range_out k r)" using RetrieveRange_covers by blast
  then show ?thesis using placed_entry(1) [OF assms(1) kr(1)] kr(2) by (simp add: range_out_def)
qed

lemma placed_retrieve_None:
  assumes "placed place s" "\<not> (\<exists>e\<in>stored s. inside a (place e))"
  shows "RetrieveRange (rm_map s) a = None"
proof -
  have "\<not> covers (rm_map s) a (k, r)" for k r
    using placed_entry(5) [OF assms(1), of k r a] assms(2) by (force simp: covers_def stored_def)
  then show ?thesis using RetrieveRange_None [of "rm_map s" a] assms(1) by (auto simp: placed_def)
qed

lemma placed_nearest:
  assumes "placed place s"
  shows "case RetrieveNearestRange (rm_map s) a of
      None \<Rightarrow> \<forall>e\<in>stored s. a < fst (place e)
    | Some (e, b, d, n) \<Rightarrow> e \<in> stored s \<and> b = fst (place e) \<and> n = snd (place e) \<and> b \<le> a
        \<and> (\<forall>e'\<in>stored s. fst (place e') \<le> a \<longrightarrow> fst (place e') \<le> b)"
proof -
  have ok: "ranges_ok (rm_map s)" using assms by (simp add: placed_def)
  show ?thesis
  proof (cases "RetrieveNearestRange (rm_map s) a")
    case None
    then have "a < fst (place (rng_entry r))" if "(k, r) \<in> set (rm_map s)" for k r
      using nearest_range [OF ok, of a] placed_entry(1) [OF assms that] that by auto
    then show ?thesis using None by (auto simp: stored_def)
  next
    case (Some x)
    then obtain k r where kr: "(k, r) \<in> set (rm_map s)" "x = range_out k r" "rng_base r \<le> a"
      "\<forall>(l, t)\<in>set (rm_map s). rng_base t \<le> a \<longrightarrow> l \<le> k"
      using nearest_range [OF ok, of a] by auto
    note p = placed_entry [OF assms kr(1)]
    have "rng_base t \<le> rng_base r" if "(l, t) \<in> set (rm_map s)" "rng_base t \<le> a" for l t
    proof (cases "l = k")
      case True
      then show ?thesis using map_ok_unique [OF ranges_ok_map [OF ok] kr(1)] that(1) by simp
    next
      case False
      then have "l < k" using kr(4) that by fastforce
      then have "l < rng_base r" by (rule ranges_ok_disjoint [OF ok that(1) kr(1)])
      then show ?thesis using ranges_ok_base [OF ok that(1)] by simp
    qed
    then have "\<forall>e'\<in>stored s. fst (place e') \<le> a \<longrightarrow> fst (place e') \<le> rng_base r"
      using placed_entry(1) [OF assms] by (auto simp: stored_def)
    moreover have "k - rng_base r + 1 = snd (place (rng_entry r))" using p(1,2) by simp
    moreover have "rng_entry r \<in> stored s" using kr(1) by (force simp: stored_def)
    ultimately show ?thesis using Some kr(2,3) p(1) by (simp add: range_out_def)
  qed
qed

section \<open>Resolving addresses\<close>

definition module_functions :: "Module \<Rightarrow> Function set" where
  "module_functions m = (\<lambda>i. func_store m ! i) ` stored (function_map m)"

definition func_extent :: "Function \<Rightarrow> u64 \<times> u64" where
  "func_extent f = (func_address f, func_size f)"

lemma module_placed:
  assumes "module_ok m"
  shows "placed (\<lambda>i. func_extent (func_store m ! i)) (function_map m)"
    "f \<in> module_functions m \<Longrightarrow> placed line_place (func_lines f)"
proof -
  have ok: "functions_ok (function_map m) (func_store m)" using assms by (simp add: module_ok_def)
  then show "placed (\<lambda>i. func_extent (func_store m ! i)) (function_map m)"
    by (simp add: functions_ok_def func_place_def [abs_def] func_extent_def)
  show "placed line_place (func_lines f)" if "f \<in> module_functions m"
  proof -
    obtain i where "i \<in> stored (function_map m)" "f = func_store m ! i"
      using \<open>f \<in> module_functions m\<close> by (auto simp: module_functions_def)
    moreover from this ok have "i < length (func_store m)" by (auto simp: functions_ok_def stored_def)
    ultimately show ?thesis using ok by (simp add: functions_ok_def)
  qed
qed

text \<open>Where the nearest function is, told of the functions of the module\<close>

lemma nearest_function:
  assumes "module_ok m"
  shows "case RetrieveNearestRange (rm_map (function_map m)) a of
      None \<Rightarrow> \<forall>f\<in>module_functions m. a < func_address f
    | Some (i, b, d, n) \<Rightarrow> func_store m ! i \<in> module_functions m \<and> b = func_address (func_store m ! i)
        \<and> n = func_size (func_store m ! i) \<and> b \<le> a
        \<and> (\<forall>f\<in>module_functions m. func_address f \<le> a \<longrightarrow> func_address f \<le> b)"
  using placed_nearest [OF module_placed(1) [OF assms], of a]
  by (auto simp: module_functions_def func_extent_def split: option.splits)

lemma functions_disjoint:
  assumes "module_ok m" "f \<in> module_functions m" "g \<in> module_functions m"
    "inside a (func_extent f)" "func_address f \<le> func_address g" "func_address g \<le> a"
  shows "f = g"
proof -
  note placed = module_placed(1) [OF assms(1)]
  have ok: "ranges_ok (rm_map (function_map m))" using placed by (simp add: placed_def)
  obtain k r where f: "(k, r) \<in> set (rm_map (function_map m))" "f = func_store m ! rng_entry r"
    using assms(2) by (auto simp: module_functions_def stored_def)
  obtain l t where g: "(l, t) \<in> set (rm_map (function_map m))" "g = func_store m ! rng_entry t"
    using assms(3) by (auto simp: module_functions_def stored_def)
  have "covers (rm_map (function_map m)) a (k, r)"
    using placed_entry(5) [OF placed f(1)] assms(4) f(2) by simp
  then have "covers (rm_map (function_map m)) (func_address g) (k, r)"
    using placed_entry(1) [OF placed f(1)] assms(5,6) f(2)
    by (auto simp: covers_def func_extent_def intro: order.trans)
  moreover have "covers (rm_map (function_map m)) (func_address g) (l, t)"
    using placed_entry(1,3) [OF placed g(1)] g by (simp add: covers_def func_extent_def)
  ultimately have "(k, r) = (l, t)" by (rule covers_unique [OF ok])
  then show ?thesis using f(2) g(2) by simp
qed

lemma nearest_inside:
  assumes "module_ok m" "f \<in> module_functions m" "inside a (func_extent f)"
  shows "\<exists>i d. RetrieveNearestRange (rm_map (function_map m)) a = Some (i, func_address f, d, func_size f)
    \<and> func_store m ! i = f"
proof (cases "RetrieveNearestRange (rm_map (function_map m)) a")
  case None
  then show ?thesis
    using nearest_function [OF assms(1), of a] assms(2,3) by (auto simp: inside_def func_extent_def)
next
  case (Some x)
  obtain i b d n where x: "x = (i, b, d, n)" by (cases x)
  have n: "func_store m ! i \<in> module_functions m" "b = func_address (func_store m ! i)"
    "n = func_size (func_store m ! i)" "b \<le> a" "func_address f \<le> b"
    using nearest_function [OF assms(1), of a] Some x assms(2,3) by (auto simp: inside_def func_extent_def)
  have "f = func_store m ! i" using functions_disjoint [OF assms(1,2) n(1) assms(3)] n by simp
  then show ?thesis using Some x n by simp
qed

text \<open>The symbol an address is attributed to if there is no function: the last one at or before it\<close>

definition last_symbol :: "Module \<Rightarrow> u64 \<Rightarrow> PublicSymbol \<Rightarrow> bool" where
  "last_symbol m a s \<longleftrightarrow> (symbol_address s, s) \<in> set (public_symbols m) \<and> symbol_address s \<le> a
     \<and> (\<forall>(b, t)\<in>set (public_symbols m). b \<le> a \<longrightarrow> b \<le> symbol_address s)"

lemma AM_Retrieve_last:
  assumes "module_ok m"
  shows "AM_Retrieve (public_symbols m) a = Some (s, b) \<longleftrightarrow> b = symbol_address s \<and> last_symbol m a s"
proof -
  have ok: "map_ok (public_symbols m)" "\<forall>(b, s)\<in>set (public_symbols m). symbol_address s = b"
    using assms by (simp_all add: module_ok_def)
  have "(b, s) \<in> set (public_symbols m) \<Longrightarrow> b = symbol_address s" using ok(2) by auto
  then show ?thesis
    unfolding AM_Retrieve_Some [OF ok(1)] last_symbol_def by (auto simp: case_prod_beta)
qed

definition with_line :: "u64 \<Rightarrow> Module \<Rightarrow> Line \<Rightarrow> StackFrame \<Rightarrow> StackFrame" where
  "with_line base m l frame =
     frame\<lparr>source_file_name := (case map_of (file_map m) (source_file_id l) of
         None \<Rightarrow> source_file_name frame | Some name \<Rightarrow> name),
       source_line := line_number l, source_line_base := base + line_address l\<rparr>"

lemma map_find_map_of:
  assumes "map_ok m"
  shows "(case map_find m k of [] \<Rightarrow> None | (_, v) # _ \<Rightarrow> Some v) = map_of m k"
proof (cases "map_find m k")
  case Nil
  then show ?thesis using map_find_at [OF assms, of k] by (simp add: map_of_eq_None_iff [THEN iffD2])
next
  case (Cons p rest)
  then have lb: "lower_bound m k = p # rest" "fst p = k"
    by (auto simp: map_find_def Let_def split: if_splits)
  obtain v where p: "p = (k, v)" using lb(2) by (cases p) auto
  have "(k, v) \<in> set m" using lower_bound_Cons [OF assms, of k k v rest] lb(1) p by simp
  then have "map_of m k = Some v" using map_ok_distinct [OF assms] by (simp add: map_of_eq_Some_iff)
  then show ?thesis using Cons p by simp
qed

definition in_function :: "u64 \<Rightarrow> Function \<Rightarrow> StackFrame \<Rightarrow> StackFrame" where
  "in_function base f frame = frame\<lparr>function_name := func_name f, function_base := base + func_address f\<rparr>"

definition at_symbol :: "u64 \<Rightarrow> PublicSymbol \<Rightarrow> StackFrame \<Rightarrow> StackFrame" where
  "at_symbol base s frame = frame\<lparr>function_name := symbol_name s, function_base := base + symbol_address s\<rparr>"

text \<open>A symbol counts if every function at or before the address starts before the symbol.\<close>

definition symbol_for :: "Module \<Rightarrow> u64 \<Rightarrow> PublicSymbol \<Rightarrow> bool" where
  "symbol_for m a s \<longleftrightarrow> last_symbol m a s
     \<and> (\<forall>f\<in>module_functions m. func_address f \<le> a \<longrightarrow> func_address f < symbol_address s)"

lemma lookup_function:
  assumes "module_ok m" "f \<in> module_functions m" "inside (instruction frame - base) (func_extent f)"
  shows "LookupAddress base m frame =
    (case RetrieveRange (rm_map (func_lines f)) (instruction frame - base) of
       None \<Rightarrow> in_function base f frame
     | Some (l, line_base, _, _) \<Rightarrow>
         (with_line base m l (in_function base f frame))\<lparr>source_line_base := base + line_base\<rparr>)"
proof -
  let ?a = "instruction frame - base"
  obtain i d where n: "RetrieveNearestRange (rm_map (function_map m)) ?a = Some (i, func_address f, d, func_size f)"
    "func_store m ! i = f"
    using nearest_inside [OF assms] by blast
  have ok: "map_ok (file_map m)" using assms(1) by (simp add: module_ok_def)
  have "(case map_find (file_map m) k of [] \<Rightarrow> g | (_, name) # _ \<Rightarrow> g\<lparr>source_file_name := name\<rparr>)
      = g\<lparr>source_file_name := (case map_of (file_map m) k of None \<Rightarrow> source_file_name g | Some name \<Rightarrow> name)\<rparr>"
    for k and g :: StackFrame
    unfolding map_find_map_of [OF ok, of k, symmetric]
    by (cases "map_find (file_map m) k") (auto split: prod.split)
  then show ?thesis
    using n assms(3)
    by (simp add: LookupAddress_def inside_def func_extent_def in_function_def with_line_def
        split: option.split prod.split)
qed

lemma lookup_symbol:
  assumes "module_ok m" "\<forall>f\<in>module_functions m. \<not> inside (instruction frame - base) (func_extent f)"
  shows "LookupAddress base m frame =
    (case AM_Retrieve (public_symbols m) (instruction frame - base) of
       None \<Rightarrow> frame
     | Some (s, b) \<Rightarrow>
         if \<forall>f\<in>module_functions m. func_address f \<le> instruction frame - base \<longrightarrow> func_address f < b
         then at_symbol base s frame else frame)"
proof (cases "RetrieveNearestRange (rm_map (function_map m)) (instruction frame - base)")
  case None
  then have "\<forall>f\<in>module_functions m. \<not> func_address f \<le> instruction frame - base"
    using nearest_function [OF assms(1), of "instruction frame - base"] by auto
  then show ?thesis
    using None AM_Retrieve_last [OF assms(1), of "instruction frame - base"]
    by (auto simp: LookupAddress_def at_symbol_def split: option.split)
next
  case (Some x)
  obtain i b d n where x: "x = (i, b, d, n)" by (cases x)
  let ?f = "func_store m ! i"
  have f: "?f \<in> module_functions m" "b = func_address ?f" "n = func_size ?f" "b \<le> instruction frame - base"
    "\<forall>f\<in>module_functions m. func_address f \<le> instruction frame - base \<longrightarrow> func_address f \<le> b"
    using nearest_function [OF assms(1), of "instruction frame - base"] Some x by auto
  have "\<not> (b \<le> instruction frame - base \<and> instruction frame - base - b < n)"
    using assms(2) f(1-3) by (auto simp: inside_def func_extent_def)
  then have step: "LookupAddress base m frame = (case AM_Retrieve (public_symbols m) (instruction frame - base) of
      None \<Rightarrow> frame
    | Some (s, c) \<Rightarrow>
        if b < c then frame\<lparr>function_name := symbol_name s, function_base := base + c\<rparr> else frame)"
    by (simp only: LookupAddress_def Let_def Some x option.case prod.case if_False)
  have between: "(\<forall>f\<in>module_functions m. func_address f \<le> instruction frame - base \<longrightarrow> func_address f < c)
      \<longleftrightarrow> b < c" for c
  proof
    assume "\<forall>f\<in>module_functions m. func_address f \<le> instruction frame - base \<longrightarrow> func_address f < c"
    then show "b < c" using f(1,4) unfolding f(2) by blast
  next
    assume "b < c"
    then show "\<forall>f\<in>module_functions m. func_address f \<le> instruction frame - base \<longrightarrow> func_address f < c"
      using f(5) le_less_trans by blast
  qed
  show ?thesis
  proof (cases "AM_Retrieve (public_symbols m) (instruction frame - base)")
    case None
    then show ?thesis by (simp add: step)
  next
    case (Some y)
    obtain s c where y: "y = (s, c)" by (cases y)
    have "c = symbol_address s"
      using AM_Retrieve_last [OF assms(1), of "instruction frame - base" s c] Some y by simp
    then show ?thesis unfolding step Some y option.case prod.case between by (simp add: at_symbol_def)
  qed
qed

lemma lookup_spec:
  assumes "module_ok m"
  shows "let a = instruction frame - base; found = LookupAddress base m frame in
    (\<forall>f\<in>module_functions m. inside a (func_extent f) \<longrightarrow>
      (\<forall>l\<in>stored (func_lines f). inside a (line_place l) \<longrightarrow>
        found = with_line base m l (in_function base f frame))
      \<and> (\<not> (\<exists>l\<in>stored (func_lines f). inside a (line_place l)) \<longrightarrow> found = in_function base f frame))
    \<and> (\<not> (\<exists>f\<in>module_functions m. inside a (func_extent f)) \<longrightarrow>
      (\<forall>s. symbol_for m a s \<longrightarrow> found = at_symbol base s frame)
      \<and> (\<not> (\<exists>s. symbol_for m a s) \<longrightarrow> found = frame))"
proof -
  let ?a = "instruction frame - base"
  have line: "LookupAddress base m frame = with_line base m l (in_function base f frame)"
    if "f \<in> module_functions m" "inside ?a (func_extent f)" "l \<in> stored (func_lines f)" "inside ?a (line_place l)"
    for f l
    using lookup_function [OF assms that(1,2)]
      placed_retrieve [OF module_placed(2) [OF assms that(1)] that(3,4)]
    by (auto simp: line_place_def with_line_def)
  have no_line: "LookupAddress base m frame = in_function base f frame"
    if "f \<in> module_functions m" "inside ?a (func_extent f)" "\<not> (\<exists>l\<in>stored (func_lines f). inside ?a (line_place l))"
    for f
    using lookup_function [OF assms that(1,2)]
      placed_retrieve_None [OF module_placed(2) [OF assms that(1)] that(3)] by simp
  have symbol: "LookupAddress base m frame = at_symbol base s frame"
    if "\<not> (\<exists>f\<in>module_functions m. inside ?a (func_extent f))" "symbol_for m ?a s" for s
    using lookup_symbol [OF assms, of frame base] that AM_Retrieve_last [OF assms, of ?a s "symbol_address s"]
    by (auto simp: symbol_for_def)
  have no_symbol: "LookupAddress base m frame = frame"
    if "\<not> (\<exists>f\<in>module_functions m. inside ?a (func_extent f))" "\<not> (\<exists>s. symbol_for m ?a s)"
  proof (cases "AM_Retrieve (public_symbols m) ?a")
    case None
    then show ?thesis using lookup_symbol [OF assms, of frame base] that(1) by auto
  next
    case (Some x)
    then show ?thesis
      using lookup_symbol [OF assms, of frame base] that AM_Retrieve_last [OF assms, of ?a "fst x" "snd x"]
      by (auto simp: symbol_for_def split: prod.splits)
  qed
  show ?thesis unfolding Let_def using line no_line symbol no_symbol by blast
qed


text \<open>
  C10. What \<open>LookupAddress\<close> resolves an address of a loaded module to: the function that holds it, with
  the line of that function that holds it, if there is one, and the name of the line's file, if it is
  known; if no function holds it, the last public symbol at or before it, unless a function starts
  between the symbol and the address; otherwise nothing.
\<close>
theorem resolver_lookup:
  assumes "module_ok m"
  shows "let a = instruction frame - base; found = LookupAddress base m frame in
    (\<forall>f\<in>module_functions m. inside a (func_extent f) \<longrightarrow>
      (\<forall>l\<in>stored (func_lines f). inside a (line_place l) \<longrightarrow>
        found = with_line base m l (in_function base f frame))
      \<and> (\<not> (\<exists>l\<in>stored (func_lines f). inside a (line_place l)) \<longrightarrow> found = in_function base f frame))
    \<and> (\<not> (\<exists>f\<in>module_functions m. inside a (func_extent f)) \<longrightarrow>
      (\<forall>s. symbol_for m a s \<longrightarrow> found = at_symbol base s frame)
      \<and> (\<not> (\<exists>s. symbol_for m a s) \<longrightarrow> found = frame))"
  by (rule lookup_spec [OF assms])

section \<open>Unwinding rules\<close>

definition with_delta :: "(u64 \<times> string) \<Rightarrow> CFIFrameInfo \<Rightarrow> CFIFrameInfo" where
  "with_delta p rules = snd (CFI_Parse CFIFrameInfoParseHandler (snd p) rules)"

lemma apply_deltas_fold:
  "apply_deltas ds a rules = fold with_delta (takeWhile (\<lambda>p. fst p \<le> a) ds) rules"
  by (induction ds a rules rule: apply_deltas.induct) (simp_all add: with_delta_def)

lemma map_ok_takeWhile: "map_ok m \<Longrightarrow> takeWhile (\<lambda>p. fst p \<le> a) m = filter (\<lambda>p. fst p \<le> a) m"
  by (induction m) (auto simp: map_ok_Cons intro!: filter_False [symmetric])

lemma lower_bound_filter: "map_ok m \<Longrightarrow> lower_bound m a = filter (\<lambda>p. a \<le> fst p) m"
  by (induction m) (auto simp: map_ok_Cons lower_bound_def intro!: filter_True [symmetric])

lemma map_ok_filter: "map_ok m \<Longrightarrow> map_ok (filter P m)"
  by (induction m) (auto simp: map_ok_Cons)

lemma between_bounds:
  assumes "map_ok m"
  shows "takeWhile (\<lambda>p. fst p \<le> a) (lower_bound m b) = filter (\<lambda>p. b \<le> fst p \<and> fst p \<le> a) m"
  using map_ok_takeWhile [OF map_ok_filter [OF assms]]
  by (simp add: lower_bound_filter [OF assms] conj_commute)

text \<open>
  C20. The unwinding rules of an address of a loaded module: those of the \<open>STACK CFI INIT\<close> record whose
  range holds the address, changed by every \<open>STACK CFI\<close> record from the start of that range to the
  address, both included, in the order of their addresses; none, if no range holds the address or the
  initial rules do not parse.
\<close>
theorem resolver_cfi_rules:
  assumes "module_ok m"
  shows "let a = instruction frame - base; found = FindCFIFrameInfo base m frame in
    (\<forall>high r. covers (rm_map (cfi_initial_rules m)) a (high, r) \<longrightarrow>
      (case CFI_Parse CFIFrameInfoParseHandler (rng_entry r) new_CFIFrameInfo of
         (False, _) \<Rightarrow> found = None
       | (True, rules) \<Rightarrow>
           found = Some (fold with_delta
             (filter (\<lambda>p. rng_base r \<le> fst p \<and> fst p \<le> a) (cfi_delta_rules m)) rules)))
    \<and> (\<not> (\<exists>p. covers (rm_map (cfi_initial_rules m)) a p) \<longrightarrow> found = None)"
proof -
  let ?a = "instruction frame - base"
  have ok: "ranges_ok (rm_map (cfi_initial_rules m))" "map_ok (cfi_delta_rules m)"
    using assms by (simp_all add: module_ok_def)
  have "case CFI_Parse CFIFrameInfoParseHandler (rng_entry r) new_CFIFrameInfo of
      (False, _) \<Rightarrow> FindCFIFrameInfo base m frame = None
    | (True, rules) \<Rightarrow> FindCFIFrameInfo base m frame = Some (fold with_delta
        (filter (\<lambda>p. rng_base r \<le> fst p \<and> fst p \<le> ?a) (cfi_delta_rules m)) rules)"
    if "covers (rm_map (cfi_initial_rules m)) ?a (high, r)" for high r
  proof -
    have "RetrieveRange (rm_map (cfi_initial_rules m)) ?a = Some (range_out high r)"
      using RetrieveRange_covers [OF ok(1), of ?a "range_out high r"] that by blast
    then show ?thesis
      by (auto simp: FindCFIFrameInfo_def range_out_def apply_deltas_fold between_bounds [OF ok(2)]
          split: prod.split bool.split)
  qed
  moreover have "FindCFIFrameInfo base m frame = None" if "\<not> (\<exists>p. covers (rm_map (cfi_initial_rules m)) ?a p)"
    using RetrieveRange_None [OF ok(1), of ?a] that by (simp add: FindCFIFrameInfo_def)
  ultimately show ?thesis unfolding Let_def by blast
qed

section \<open>Loading and unloading\<close>

text \<open>
  C11. \<open>LoadMapFromMemory\<close> takes every buffer: it returns true and leaves a well-formed module whatever
  the buffer holds, unless the buffer ends with a \<open>STACK WIN\<close> or \<open>STACK CFI\<close> record that stops right
  behind its platform.  Such a record is enough to make it read behind the buffer.
\<close>
theorem symbol_file_loads:
  assumes "module_ok m"
  shows "(case LoadMapFromMemory buffer m of
      Done (ok, m') \<Rightarrow> ok \<and> module_ok m'
    | Overread \<Rightarrow> ends_bare (butlast buffer)
    | NoReturn \<Rightarrow> False)
    \<and> LoadMapFromMemory (''STACK CFI'' @ [NUL]) m = Overread"
proof -
  have "LoadMapFromMemory (''STACK CFI'' @ [NUL]) m = Overread"
    by (simp add: LoadMapFromMemory_def load_lines.simps strtok_r_def eols_def parse_record_def
        ParseStackInfo_def kWhitespace_def)
  then show ?thesis using LoadMapFromMemory_ok [OF assms, of buffer] by blast
qed

theorem symbol_file_loads_witness:
  "module_ok new_Module \<and> LoadMapFromMemory (''STACK CFI'' @ [NUL]) new_Module = Overread"
  using symbol_file_loads [OF new_Module_ok, of "[]"] new_Module_ok by blast

declare StoreRangeInternal.simps [code]

section \<open>A symbol file\<close>

definition sample_symbols :: string where
  "sample_symbols = ''FILE 1 a.c'' @ [CHR 0x0A] @ ''FUNC 1000 40 8 main'' @ [CHR 0x0A] @ ''1000 8 12 1'' @ [CHR 0x0A]
     @ ''PUBLIC 2000 0 end'' @ [CHR 0x0A] @ ''STACK CFI INIT 1000 40 .cfa: $esp 4 +'' @ [CHR 0x0A]
     @ ''STACK CFI 1001 .cfa: $esp 8 +'' @ [CHR 0x0A]"

definition sample_line :: Line where
  "sample_line = \<lparr>line_address = 0x1000, line_size = 8, source_file_id = 1, line_number = 12\<rparr>"

definition sample_function :: Function where
  "sample_function = \<lparr>func_name = ''main'', func_address = 0x1000, func_size = 0x40, func_parameter_size = 8,
     func_lines = new_RangeMap\<lparr>rm_map := [(0x1007, mk_Range 0x1000 0 sample_line)]\<rparr>\<rparr>"

definition sample_module :: Module where
  "sample_module = new_Module\<lparr>
     file_map := [(1, ''a.c'')],
     function_map := new_RangeMap\<lparr>rm_map := [(0x103F, mk_Range 0x1000 0 0)]\<rparr>,
     func_store := [sample_function],
     public_symbols := [(0x2000,
       \<lparr>symbol_name = ''end'', symbol_address = 0x2000, symbol_parameter_size = 0\<rparr>)],
     cfi_initial_rules := new_RangeMap\<lparr>rm_map := [(0x103F, mk_Range 0x1000 0 ''.cfa: $esp 4 +'')]\<rparr>,
     cfi_delta_rules := [(0x1001, ''.cfa: $esp 8 +'')]\<rparr>"

lemma sample_loads: "LoadMapFromMemory (sample_symbols @ [NUL]) new_Module = Done (True, sample_module)"
  by code_simp

lemma sample_ok: "module_ok sample_module"
  using LoadMapFromMemory_ok [OF new_Module_ok, of "sample_symbols @ [NUL]"] by (simp add: sample_loads)

definition frame_at :: "u64 \<Rightarrow> StackFrame" where
  "frame_at a = \<lparr>instruction = a, function_name = [], function_base = 0, source_file_name = [],
     source_line = 0, source_line_base = 0\<rparr>"

theorem resolver_lookup_witness:
  "LookupAddress 0x400000 sample_module (frame_at 0x401004)
     = \<lparr>instruction = 0x401004, function_name = ''main'', function_base = 0x401000,
        source_file_name = ''a.c'', source_line = 12, source_line_base = 0x401000\<rparr>"
proof -
  have f: "sample_function \<in> module_functions sample_module" "sample_line \<in> stored (func_lines sample_function)"
    "inside 0x1004 (func_extent sample_function)" "inside 0x1004 (line_place sample_line)"
    by (simp_all add: module_functions_def sample_module_def stored_def sample_function_def mk_Range_def
        new_RangeMap_def inside_def func_extent_def line_place_def sample_line_def)
  have "LookupAddress 0x400000 sample_module (frame_at 0x401004)
      = with_line 0x400000 sample_module sample_line (in_function 0x400000 sample_function (frame_at 0x401004))"
    using resolver_lookup [OF sample_ok, of "frame_at 0x401004" "0x400000"] f
    by (simp add: Let_def frame_at_def)
  then show ?thesis
    by (simp add: with_line_def in_function_def frame_at_def sample_module_def sample_function_def sample_line_def)
qed

theorem resolver_cfi_rules_witness:
  "FindCFIFrameInfo 0x400000 sample_module (frame_at 0x401004)
     = Some (SetCFARule ''$esp 8 +'' new_CFIFrameInfo)"
proof -
  have c: "covers (rm_map (cfi_initial_rules sample_module)) 0x1004 (0x103F, mk_Range 0x1000 0 ''.cfa: $esp 4 +'')"
    by (simp add: covers_def sample_module_def new_RangeMap_def mk_Range_def)
  have p: "CFI_Parse CFIFrameInfoParseHandler ''.cfa: $esp 4 +'' new_CFIFrameInfo
      = (True, SetCFARule ''$esp 4 +'' new_CFIFrameInfo)"
    "with_delta (0x1001, ''.cfa: $esp 8 +'') (SetCFARule ''$esp 4 +'' new_CFIFrameInfo)
      = SetCFARule ''$esp 8 +'' new_CFIFrameInfo"
    by code_simp+
  have a: "instruction (frame_at 0x401004) - 0x400000 = 0x1004" by (simp add: frame_at_def)
  have d: "filter (\<lambda>p. 0x1000 \<le> fst p \<and> fst p \<le> 0x1004) (cfi_delta_rules sample_module)
      = [(0x1001, ''.cfa: $esp 8 +'')]"
    by (simp add: sample_module_def)
  note resolver_cfi_rules [OF sample_ok, where frame = "frame_at 0x401004" and base = "0x400000",
      unfolded Let_def a, THEN conjunct1, rule_format, OF c]
  then show ?thesis by (simp add: mk_Range_def p d)
qed

section \<open>The modules of the resolver\<close>

text \<open>What a client can do with a resolver: load a module from a file, a string or a buffer, and unload it\<close>

inductive resolver_step :: "Resolver \<Rightarrow> Resolver \<Rightarrow> bool" where
  load_file: "LoadModule code_module symbol_data r = Done (ok, r') \<Longrightarrow> resolver_step r r'"
| load_map: "LoadModuleUsingMapBuffer code_module map_buffer r = Done (ok, r') \<Longrightarrow> resolver_step r r'"
| load_memory: "LoadModuleUsingMemoryBuffer code_module memory_buffer r = Done (ok, r') \<Longrightarrow> resolver_step r r'"
| unload: "resolver_step r (UnloadModule code_module r)"

definition resolver_ok :: "Resolver \<Rightarrow> bool" where
  "resolver_ok r \<longleftrightarrow> map_ok (modules r) \<and> (\<forall>(name, m)\<in>set (modules r). module_ok m)
     \<and> (\<forall>name\<in>fst ` set (modules r). NUL \<notin> set name)
     \<and> corrupt_modules r = {name. \<exists>m. (name, m) \<in> set (modules r) \<and> is_corrupt m}"

lemma new_Resolver_ok: "resolver_ok new_Resolver"
  by (simp add: resolver_ok_def new_Resolver_def)

text \<open>What loading does, in terms of the modules by name\<close>

lemma load_memory_outcome:
  assumes "resolver_ok r" "LoadModuleUsingMemoryBuffer code_module buffer r = Done (ok, r')"
  shows "\<not> ok \<and> r' = r \<and> (\<forall>name. code_module = Some name \<longrightarrow> HasModule (Some name) r)
    \<or> ok \<and> resolver_ok r' \<and> (\<exists>name m. code_module = Some name \<and> \<not> HasModule (Some name) r
        \<and> LoadMapFromMemory buffer new_Module = Done (True, m)
        \<and> map_of (modules r') = (map_of (modules r))(c_str name \<mapsto> m))"
proof (cases "\<exists>name. code_module = Some name \<and> map_find (modules r) (c_str name) = []")
  case False
  then show ?thesis
    using assms(2) by (auto simp: LoadModuleUsingMemoryBuffer_def HasModule_def split: option.splits if_splits)
next
  case True
  then obtain name where name: "code_module = Some name" "map_find (modules r) (c_str name) = []" by blast
  have ok: "map_ok (modules r)" using assms(1) by (simp add: resolver_ok_def)
  have fresh: "c_str name \<notin> fst ` set (modules r)" using map_find_at [OF ok, of "c_str name"] name(2) by simp
  obtain ok' m where m: "LoadMapFromMemory buffer new_Module = Done (ok', m)"
    using assms(2) name by (auto simp: LoadModuleUsingMemoryBuffer_def split: run.splits)
  have loaded: "ok'" "module_ok m" using LoadMapFromMemory_ok [OF new_Module_ok, of buffer] by (simp_all add: m)
  have r': "ok" "r' = r\<lparr>modules := map_insert (c_str name) m (modules r),
      corrupt_modules := (if is_corrupt m then insert (c_str name) (corrupt_modules r) else corrupt_modules r)\<rparr>"
    using assms(2) name m by (simp_all add: LoadModuleUsingMemoryBuffer_def)
  have set: "set (map_insert (c_str name) m (modules r)) = insert (c_str name, m) (set (modules r))"
    using set_map_insert [of "c_str name" "modules r" m] fresh by simp
  have "resolver_ok r'"
    using assms(1) loaded(2) fresh unfolding r'(2) resolver_ok_def by (auto simp: set map_ok_insert)
  then show ?thesis
    using r' name m loaded(1) map_of_insert [OF ok fresh, of m] by (simp add: HasModule_def)
qed

lemma load_map_memory: "LoadModuleUsingMapBuffer code_module symbols r = LoadModuleUsingMemoryBuffer code_module (symbols @ [NUL]) r"
  by (simp add: LoadModuleUsingMapBuffer_def LoadModuleUsingMemoryBuffer_def split: option.split)

lemma load_file_memory:
  "LoadModule code_module symbol_data r =
    (case symbol_data of
       None \<Rightarrow> Done (False, r)
     | Some contents \<Rightarrow> LoadModuleUsingMemoryBuffer code_module (contents @ [NUL]) r)"
  by (simp add: LoadModule_def LoadModuleUsingMemoryBuffer_def split: option.split)

lemma map_of_erase: "map_of (map_erase k m) = (map_of m)(k := None)"
  by (induction m) (auto simp: map_erase_def fun_eq_iff)

lemma unload_outcome:
  assumes "resolver_ok r"
  shows "resolver_ok (UnloadModule code_module r)"
    and "map_of (modules (UnloadModule (Some name) r)) = (map_of (modules r))(c_str name := None)"
proof -
  have ok: "map_ok (modules r)" using assms by (simp add: resolver_ok_def)
  show "resolver_ok (UnloadModule code_module r)"
    using assms by (auto simp: UnloadModule_def resolver_ok_def map_ok_erase set_map_erase split: option.split)
  have "map_find (modules r) (c_str name) = [] \<Longrightarrow> map_of (modules r) (c_str name) = None"
    using map_find_map_of [OF ok, of "c_str name"] by simp
  then show "map_of (modules (UnloadModule (Some name) r)) = (map_of (modules r))(c_str name := None)"
    by (auto simp: UnloadModule_def map_of_erase fun_eq_iff)
qed

lemma resolver_step_ok: "resolver_step r r' \<Longrightarrow> resolver_ok r \<Longrightarrow> resolver_ok r'"
proof (induction rule: resolver_step.induct)
  case (load_file cm symbol_data r ok r')
  then show ?case using load_memory_outcome [of r cm] by (auto simp: load_file_memory split: option.splits)
next
  case (load_map cm map_buffer r ok r')
  then show ?case using load_memory_outcome [of r cm] by (auto simp: load_map_memory)
next
  case (load_memory cm memory_buffer r ok r')
  then show ?case using load_memory_outcome [of r cm] by blast
qed (simp add: unload_outcome)

lemma resolver_reachable_ok: "resolver_step\<^sup>*\<^sup>* new_Resolver r \<Longrightarrow> resolver_ok r"
  by (induction rule: rtranclp_induct) (auto intro: new_Resolver_ok resolver_step_ok)

text \<open>
  Whatever is loaded and unloaded, the resolver calls a module corrupt exactly if it is loaded and
  its symbol file had an error, and every module it has is well-formed, so that the lookups above apply
  to it.
\<close>
lemma resolver_modules_ok:
  assumes "resolver_step\<^sup>*\<^sup>* new_Resolver r"
  shows "(IsModuleCorrupt (Some name) r \<longleftrightarrow> (\<exists>m. map_of (modules r) (c_str name) = Some m \<and> is_corrupt m))
    \<and> (\<forall>m. map_of (modules r) (c_str name) = Some m \<longrightarrow> module_ok m)"
proof -
  have ok: "resolver_ok r" by (rule resolver_reachable_ok [OF assms])
  then have "map_of (modules r) (c_str name) = Some m \<longleftrightarrow> (c_str name, m) \<in> set (modules r)" for m
    by (simp add: resolver_ok_def map_ok_distinct map_of_eq_Some_iff)
  then show ?thesis using ok by (auto simp: resolver_ok_def IsModuleCorrupt_def)
qed

lemma sample_load: "LoadModuleUsingMapBuffer (Some name) sample_symbols new_Resolver
    = Done (True, \<lparr>modules = [(c_str name, sample_module)], corrupt_modules = {}\<rparr>)"
proof -
  have "\<not> is_corrupt sample_module" by (simp add: sample_module_def new_Module_def)
  then show ?thesis
    by (simp add: load_map_memory LoadModuleUsingMemoryBuffer_def new_Resolver_def map_find_def
        lower_bound_def sample_loads)
qed

lemma sample_reachable:
  "resolver_step\<^sup>*\<^sup>* new_Resolver \<lparr>modules = [(c_str name, sample_module)], corrupt_modules = {}\<rparr>"
  by (rule r_into_rtranclp, rule load_map, rule sample_load)

text \<open>
  C19. The resolver is a map from the C strings of the names of code files to their modules: loading adds
  the module of the symbol file under a new name and refuses one that is loaded, with no other effect;
  unloading removes it; a frame is looked up in the module that its code file has.  Names that agree up
  to their first NUL are one name to the resolver.
\<close>
theorem resolver_is_map:
  assumes "resolver_step\<^sup>*\<^sup>* new_Resolver r"
  shows "(case LoadModuleUsingMapBuffer (Some name) symbols r of
      Done (ok, r') \<Rightarrow>
        (if c_str name \<in> dom (map_of (modules r)) then \<not> ok \<and> r' = r
         else ok \<and> (\<exists>m. LoadMapFromMemory (symbols @ [NUL]) new_Module = Done (True, m)
           \<and> map_of (modules r') = (map_of (modules r))(c_str name \<mapsto> m)))
    | Overread \<Rightarrow> c_str name \<notin> dom (map_of (modules r)) \<and> ends_bare symbols
    | NoReturn \<Rightarrow> False)
    \<and> map_of (modules (UnloadModule (Some name) r)) = (map_of (modules r))(c_str name := None)
    \<and> FillSourceLineInfo (Some (name, base)) r frame =
        (case map_of (modules r) (c_str name) of None \<Rightarrow> frame | Some m \<Rightarrow> LookupAddress base m frame)"
proof (intro conjI)
  have ok: "resolver_ok r" "map_ok (modules r)"
    using resolver_reachable_ok [OF assms] by (simp_all add: resolver_ok_def)
  have has: "HasModule (Some name) r \<longleftrightarrow> c_str name \<in> dom (map_of (modules r))"
    using map_find_at [OF ok(2), of "c_str name"] by (simp add: HasModule_def dom_map_of_conv_image_fst)
  show "map_of (modules (UnloadModule (Some name) r)) = (map_of (modules r))(c_str name := None)"
    by (rule unload_outcome(2) [OF ok(1)])
  show "FillSourceLineInfo (Some (name, base)) r frame =
      (case map_of (modules r) (c_str name) of None \<Rightarrow> frame | Some m \<Rightarrow> LookupAddress base m frame)"
    unfolding map_find_map_of [OF ok(2), of "c_str name", symmetric]
    by (simp add: FillSourceLineInfo_def with_module_def split: list.split)
  show "case LoadModuleUsingMapBuffer (Some name) symbols r of
      Done (ok, r') \<Rightarrow>
        (if c_str name \<in> dom (map_of (modules r)) then \<not> ok \<and> r' = r
         else ok \<and> (\<exists>m. LoadMapFromMemory (symbols @ [NUL]) new_Module = Done (True, m)
           \<and> map_of (modules r') = (map_of (modules r))(c_str name \<mapsto> m)))
    | Overread \<Rightarrow> c_str name \<notin> dom (map_of (modules r)) \<and> ends_bare symbols
    | NoReturn \<Rightarrow> False"
  proof (cases "LoadModuleUsingMemoryBuffer (Some name) (symbols @ [NUL]) r")
    case (Done x)
    then show ?thesis
      using load_memory_outcome [OF ok(1), of "Some name" "symbols @ [NUL]" "fst x" "snd x"] has
      by (auto simp: load_map_memory split: prod.split)
  next
    case Overread
    then show ?thesis
      using LoadMapFromMemory_ok [OF new_Module_ok, of "symbols @ [NUL]"] has
      by (auto simp: load_map_memory LoadModuleUsingMemoryBuffer_def HasModule_def split: if_splits run.splits)
  next
    case NoReturn
    then show ?thesis
      using LoadMapFromMemory_ok [OF new_Module_ok, of "symbols @ [NUL]"]
      by (auto simp: load_map_memory LoadModuleUsingMemoryBuffer_def split: if_splits run.splits)
  qed
qed

theorem resolver_is_map_witness:
  "FillSourceLineInfo (Some (''a'', 0x400000)) \<lparr>modules = [(''a'', sample_module)], corrupt_modules = {}\<rparr> (frame_at 0x401004)
     = LookupAddress 0x400000 sample_module (frame_at 0x401004)"
  using resolver_is_map [OF sample_reachable [of "''a''"], of "''a''"] by (simp add: c_str_def)

end
