(* ===== verification/Symbol_Writer.thy ===== *)
theory Symbol_Writer
  imports Symbol_Text Std_Map "HOL-Library.Char_ord" "HOL-Library.List_Lexorder" "HOL-Library.Product_Lexorder"
begin

text \<open>
  \<open>src/app/breakpad/src/common/module.h\<close> and \<open>module.cc\<close>: the symbols of a module as the dumpers
  collect them, and \<open>Write\<close>, which writes them as a symbol file.

  \<^item> A \<open>File\<close> is owned by the map \<open>files_\<close> under its name, and the code refers to it by a pointer; here
    the map takes the name to the only member that changes, \<open>source_id\<close>, and a pointer is the name.
  \<^item> A \<open>set\<close> ordered by members of its elements is a \<open>std_map\<close> from these members to the elements.
  \<^item> An output stream is what the source uses of it: \<open>put\<close>, which appends a text, \<open>flush\<close>, which \<open>endl\<close>
    calls, and \<open>good\<close>.  Numbers are written in hexadecimal or in decimal (\<open>hex_text\<close>, \<open>dec_text\<close>),
    whichever of \<open>hex\<close> and \<open>dec\<close> was written last; streams start in decimal.
  \<^item> A failed assertion is \<open>None\<close>.  The check under \<open>_DEBUG\<close> is not modelled, nor is the deletion of
    objects.
\<close>

section \<open>Output streams\<close>

record 's ostream =
  put :: "string \<Rightarrow> 's \<Rightarrow> 's"
  flush :: "'s \<Rightarrow> 's"
  good :: "'s \<Rightarrow> bool"

definition outs :: "'s ostream \<Rightarrow> string list \<Rightarrow> 's \<Rightarrow> 's" where
  "outs os ts s = fold (put os) ts s"

definition endl :: "'s ostream \<Rightarrow> 's \<Rightarrow> 's" where
  "endl os s = flush os (put os [CHR 0x0A] s)"

section \<open>The symbols of a module\<close>

datatype SymbolData = ALL_SYMBOL_DATA | NO_CFI | ONLY_CFI

record SourceLine =
  sl_address :: u64
  sl_size :: u64
  sl_file :: string
  sl_number :: int

record SourceFunction =
  sf_name :: string
  sf_address :: u64
  sf_size :: u64
  sf_parameter_size :: u64
  sf_lines :: "SourceLine list"

record Extern =
  ext_address :: u64
  ext_name :: string

type_synonym RuleMap = "(string, string) std_map"

record StackFrameEntry =
  se_address :: u64
  se_size :: u64
  initial_rules :: RuleMap
  rule_changes :: "(u64, RuleMap) std_map"

record SymbolModule =
  sm_name :: string
  sm_os :: string
  sm_architecture :: string
  sm_id :: string
  sm_code_id :: string
  sm_load_address :: u64
  sm_files :: "(string, int) std_map"
  sm_functions :: "(u64 \<times> string, SourceFunction) std_map"
  sm_entries :: "StackFrameEntry list"
  sm_externs :: "(u64, Extern) std_map"

definition new_SymbolModule :: "string \<Rightarrow> string \<Rightarrow> string \<Rightarrow> string \<Rightarrow> string \<Rightarrow> SymbolModule" where
  "new_SymbolModule name os architecture id' code_id =
     \<lparr>sm_name = name, sm_os = os, sm_architecture = architecture, sm_id = id', sm_code_id = code_id,
      sm_load_address = 0, sm_files = [], sm_functions = [], sm_entries = [], sm_externs = []\<rparr>"

definition SetLoadAddress :: "u64 \<Rightarrow> SymbolModule \<Rightarrow> SymbolModule" where
  "SetLoadAddress address m = m\<lparr>sm_load_address := address\<rparr>"

definition AddFunction :: "SourceFunction \<Rightarrow> SymbolModule \<Rightarrow> SymbolModule option" where
  "AddFunction f m =
     (if sf_name f = [] then None
      else
        let it_ext = map_find (sm_externs m) (sf_address f);
            it_ext = (if it_ext = [] \<and> sm_architecture m = ''arm'' \<and> sf_address f AND 1 = 0
              then map_find (sm_externs m) (sf_address f OR 1) else it_ext);
            m = (if it_ext \<noteq> [] then m\<lparr>sm_externs := map_erase (fst (hd it_ext)) (sm_externs m)\<rparr> else m) in
        Some (m\<lparr>sm_functions := map_insert (sf_address f, sf_name f) f (sm_functions m)\<rparr>))"

fun AddFunctions :: "SourceFunction list \<Rightarrow> SymbolModule \<Rightarrow> SymbolModule option" where
  "AddFunctions [] m = Some m"
| "AddFunctions (f # fs) m = (case AddFunction f m of None \<Rightarrow> None | Some m \<Rightarrow> AddFunctions fs m)"

definition AddStackFrameEntry :: "StackFrameEntry \<Rightarrow> SymbolModule \<Rightarrow> SymbolModule" where
  "AddStackFrameEntry e m = m\<lparr>sm_entries := sm_entries m @ [e]\<rparr>"

definition AddExtern :: "Extern \<Rightarrow> SymbolModule \<Rightarrow> SymbolModule" where
  "AddExtern e m = m\<lparr>sm_externs := map_insert (ext_address e) e (sm_externs m)\<rparr>"

text \<open>\<open>vec\<close> with the elements inserted at position \<open>i\<close>\<close>

definition GetFunctions :: "SymbolModule \<Rightarrow> SourceFunction list \<Rightarrow> nat \<Rightarrow> SourceFunction list" where
  "GetFunctions m vec i = take i vec @ map snd (sm_functions m) @ drop i vec"

definition GetExterns :: "SymbolModule \<Rightarrow> Extern list \<Rightarrow> nat \<Rightarrow> Extern list" where
  "GetExterns m vec i = take i vec @ map snd (sm_externs m) @ drop i vec"

definition FindFile :: "string \<Rightarrow> SymbolModule \<Rightarrow> string \<times> SymbolModule" where
  "FindFile name m =
     (let destiny = lower_bound (sm_files m) name in
      if destiny = [] \<or> fst (hd destiny) \<noteq> name
      then (name, m\<lparr>sm_files := map_insert name (- 1) (sm_files m)\<rparr>)
      else (fst (hd destiny), m))"

definition FindExistingFile :: "string \<Rightarrow> SymbolModule \<Rightarrow> string option" where
  "FindExistingFile name m =
     (case map_find (sm_files m) name of [] \<Rightarrow> None | (n, _) # _ \<Rightarrow> Some n)"

definition GetFiles :: "SymbolModule \<Rightarrow> string list" where
  "GetFiles m = map fst (sm_files m)"

definition GetStackFrameEntries :: "SymbolModule \<Rightarrow> StackFrameEntry list" where
  "GetStackFrameEntries m = sm_entries m"

section \<open>Source ids\<close>

definition set_source_id :: "int \<Rightarrow> string \<Rightarrow> (string, int) std_map \<Rightarrow> (string, int) std_map" where
  "set_source_id i name = map (\<lambda>(n, j). (n, if n = name then i else j))"

definition mark_files :: "SourceFunction list \<Rightarrow> (string, int) std_map \<Rightarrow> (string, int) std_map" where
  "mark_files funcs fs =
     fold (\<lambda>func fs. fold (\<lambda>l fs. set_source_id 0 (sl_file l) fs) (sf_lines func) fs) funcs fs"

fun number_files :: "int \<Rightarrow> (string, int) std_map \<Rightarrow> (string, int) std_map" where
  "number_files next_source_id [] = []"
| "number_files next_source_id ((n, i) # fs) =
     (if i = 0 then (n, next_source_id) # number_files (next_source_id + 1) fs
      else (n, i) # number_files next_source_id fs)"

definition AssignSourceIds :: "SymbolModule \<Rightarrow> SymbolModule" where
  "AssignSourceIds m =
     (let fs = map (\<lambda>(n, _). (n, - 1)) (sm_files m);
          fs = mark_files (map snd (sm_functions m)) fs in
      m\<lparr>sm_files := number_files 0 fs\<rparr>)"

text \<open>A file of another module has been marked, but it is not numbered.\<close>

definition source_id :: "(string, int) std_map \<Rightarrow> string \<Rightarrow> int" where
  "source_id fs name = (case map_of fs name of Some i \<Rightarrow> i | None \<Rightarrow> 0)"

section \<open>Writing the symbol file\<close>

text \<open>Each function returns the flag of the code and the stream; a loop ends at the first error.\<close>

fun write_rules :: "'s ostream \<Rightarrow> bool \<Rightarrow> RuleMap \<Rightarrow> 's \<Rightarrow> 's" where
  "write_rules os at_begin [] s = s"
| "write_rules os at_begin ((name, rule) # rules) s =
     write_rules os False rules
       (outs os [name, '': '', rule] (if at_begin then s else put os '' '' s))"

definition WriteRuleMap :: "'s ostream \<Rightarrow> RuleMap \<Rightarrow> 's \<Rightarrow> bool \<times> 's" where
  "WriteRuleMap os rule_map s = (let s = write_rules os True rule_map s in (good os s, s))"

fun write_files :: "'s ostream \<Rightarrow> (string, int) std_map \<Rightarrow> 's \<Rightarrow> bool \<times> 's" where
  "write_files os [] s = (True, s)"
| "write_files os ((name, i) # fs) s =
     (if i \<ge> 0 then
        let s = endl os (outs os [''FILE '', dec_text i, '' '', name] s) in
        if good os s then write_files os fs s else (False, s)
      else write_files os fs s)"

fun write_lines :: "'s ostream \<Rightarrow> u64 \<Rightarrow> (string, int) std_map \<Rightarrow> SourceLine list \<Rightarrow> 's \<Rightarrow> bool \<times> 's" where
  "write_lines os load_address fs [] s = (True, s)"
| "write_lines os load_address fs (l # ls) s =
     (let s = endl os (outs os [hex_text (sl_address l - load_address), '' '', hex_text (sl_size l), '' '',
            dec_text (sl_number l), '' '', dec_text (source_id fs (sl_file l))] s) in
      if good os s then write_lines os load_address fs ls s else (False, s))"

fun write_functions :: "'s ostream \<Rightarrow> u64 \<Rightarrow> (string, int) std_map \<Rightarrow> SourceFunction list \<Rightarrow> 's \<Rightarrow> bool \<times> 's" where
  "write_functions os load_address fs [] s = (True, s)"
| "write_functions os load_address fs (f # funcs) s =
     (let s = endl os (outs os [''FUNC '', hex_text (sf_address f - load_address), '' '', hex_text (sf_size f),
            '' '', hex_text (sf_parameter_size f), '' '', sf_name f] s) in
      if good os s then
        let (ok, s) = write_lines os load_address fs (sf_lines f) s in
        if ok then write_functions os load_address fs funcs s else (False, s)
      else (False, s))"

fun write_externs :: "'s ostream \<Rightarrow> u64 \<Rightarrow> Extern list \<Rightarrow> 's \<Rightarrow> 's" where
  "write_externs os load_address [] s = s"
| "write_externs os load_address (e # es) s =
     write_externs os load_address es
       (endl os (outs os [''PUBLIC '', hex_text (ext_address e - load_address), '' 0 '', ext_name e] s))"

fun write_changes :: "'s ostream \<Rightarrow> u64 \<Rightarrow> (u64, RuleMap) std_map \<Rightarrow> 's \<Rightarrow> bool \<times> 's" where
  "write_changes os load_address [] s = (True, s)"
| "write_changes os load_address ((a, rules) # ds) s =
     (let s = outs os [''STACK CFI '', hex_text (a - load_address), '' ''] s in
      if \<not> good os s then (False, s)
      else
        let (ok, s) = WriteRuleMap os rules s in
        if ok then write_changes os load_address ds (endl os s) else (False, s))"

fun write_entries :: "'s ostream \<Rightarrow> u64 \<Rightarrow> StackFrameEntry list \<Rightarrow> 's \<Rightarrow> bool \<times> 's" where
  "write_entries os load_address [] s = (True, s)"
| "write_entries os load_address (e # es) s =
     (let s = outs os [''STACK CFI INIT '', hex_text (se_address e - load_address), '' '', hex_text (se_size e),
            '' ''] s in
      if \<not> good os s then (False, s)
      else
        let (ok, s) = WriteRuleMap os (initial_rules e) s in
        if \<not> ok then (False, s)
        else
          let (ok, s) = write_changes os load_address (rule_changes e) (endl os s) in
          if ok then write_entries os load_address es s else (False, s))"

definition write_symbols :: "'s ostream \<Rightarrow> SymbolModule \<Rightarrow> 's \<Rightarrow> bool \<times> 's" where
  "write_symbols os m s =
     (let (ok, s) = write_files os (sm_files m) s in
      if \<not> ok then (False, s)
      else
        let (ok, s) = write_functions os (sm_load_address m) (sm_files m) (map snd (sm_functions m)) s in
        if \<not> ok then (False, s)
        else (True, write_externs os (sm_load_address m) (map snd (sm_externs m)) s))"

definition Write :: "'s ostream \<Rightarrow> SymbolData \<Rightarrow> SymbolModule \<Rightarrow> 's \<Rightarrow> bool \<times> SymbolModule \<times> 's" where
  "Write os symbol_data m s =
     (let s = endl os (outs os [''MODULE '', sm_os m, '' '', sm_architecture m, '' '', sm_id m, '' '', sm_name m] s) in
      if \<not> good os s then (False, m, s)
      else
        let s = (if sm_code_id m \<noteq> [] then endl os (outs os [''INFO CODE_ID '', sm_code_id m] s) else s);
            m = (if symbol_data \<noteq> ONLY_CFI then AssignSourceIds m else m);
            (ok, s) = (if symbol_data \<noteq> ONLY_CFI then write_symbols os m s else (True, s)) in
        if \<not> ok then (False, m, s)
        else if symbol_data \<noteq> NO_CFI then
          let (ok, s) = write_entries os (sm_load_address m) (sm_entries m) s in (ok, m, s)
        else (True, m, s))"

end
