(* ===== verification/Symbol_Roundtrip.thy ===== *)
theory Symbol_Roundtrip
  imports Symbol_Writer Resolver_Contracts
begin

text \<open>
  The symbol files that \<open>Symbol_Writer\<close> writes are read by \<open>Source_Line_Resolver\<close>: what \<open>dump_syms\<close> knows
  about an address is what the processor says about it.
\<close>

section \<open>The lines of a symbol file\<close>

definition string_stream :: "string ostream" where
  "string_stream = \<lparr>put = \<lambda>t s. s @ t, flush = \<lambda>s. s, good = \<lambda>s. True\<rparr>"

lemma outs_string: "outs string_stream ts s = s @ concat ts"
proof (induction ts arbitrary: s)
  case (Cons t ts)
  have "outs string_stream (t # ts) s = outs string_stream ts (s @ t)" by (simp add: outs_def string_stream_def)
  then show ?case using Cons by simp
qed (simp add: outs_def)

lemma string_stream_simps [simp]:
  "put string_stream t s = s @ t" "good string_stream s = True" "endl string_stream s = s @ [CHR 0x0A]"
  by (simp_all add: string_stream_def endl_def)

definition unlines :: "string list \<Rightarrow> string" where
  "unlines ls = concat (map (\<lambda>l. l @ [CHR 0x0A]) ls)"

lemma unlines_simps [simp]: "unlines [] = []" "unlines (l # ls) = l @ CHR 0x0A # unlines ls"
  "unlines (ls @ ks) = unlines ls @ unlines ks"
  by (simp_all add: unlines_def)

text \<open>Words with a space behind each, and a rest that may contain spaces\<close>

definition spaced :: "string list \<Rightarrow> string \<Rightarrow> string" where
  "spaced ws rest = concat (map (\<lambda>w. w @ '' '') ws) @ rest"

lemma spaced_simps [simp]: "spaced [] rest = rest" "spaced (w # ws) rest = w @ CHR '' '' # spaced ws rest"
  by (simp_all add: spaced_def)

definition rules_text :: "RuleMap \<Rightarrow> string" where
  "rules_text rules = join_words (map (\<lambda>(name, rule). name @ '': '' @ rule) rules)"

definition file_lines :: "(string, int) std_map \<Rightarrow> string list" where
  "file_lines fs = map (\<lambda>(name, i). ''FILE '' @ spaced [dec_text i] name) (filter (\<lambda>(name, i). i \<ge> 0) fs)"

definition line_line :: "u64 \<Rightarrow> (string, int) std_map \<Rightarrow> SourceLine \<Rightarrow> string" where
  "line_line load fs l = spaced [hex_text (sl_address l - load), hex_text (sl_size l), dec_text (sl_number l)]
     (dec_text (source_id fs (sl_file l)))"

definition func_lines_text :: "u64 \<Rightarrow> (string, int) std_map \<Rightarrow> SourceFunction \<Rightarrow> string list" where
  "func_lines_text load fs f = (''FUNC '' @ spaced [hex_text (sf_address f - load), hex_text (sf_size f),
     hex_text (sf_parameter_size f)] (sf_name f)) # map (line_line load fs) (sf_lines f)"

definition extern_line :: "u64 \<Rightarrow> Extern \<Rightarrow> string" where
  "extern_line load e = ''PUBLIC '' @ spaced [hex_text (ext_address e - load), ''0''] (ext_name e)"

definition change_line :: "u64 \<Rightarrow> u64 \<times> RuleMap \<Rightarrow> string" where
  "change_line load d = ''STACK CFI '' @ spaced [hex_text (fst d - load)] (rules_text (snd d))"

definition entry_lines :: "u64 \<Rightarrow> StackFrameEntry \<Rightarrow> string list" where
  "entry_lines load e = (''STACK CFI '' @ spaced [''INIT'', hex_text (se_address e - load), hex_text (se_size e)]
     (rules_text (initial_rules e))) # map (change_line load) (rule_changes e)"

definition header_lines :: "SymbolModule \<Rightarrow> string list" where
  "header_lines m = (''MODULE '' @ spaced [sm_os m, sm_architecture m, sm_id m] (sm_name m))
     # (if sm_code_id m \<noteq> [] then [''INFO CODE_ID '' @ sm_code_id m] else [])"

definition symbol_lines :: "SymbolModule \<Rightarrow> string list" where
  "symbol_lines m = file_lines (sm_files m)
     @ concat (map (func_lines_text (sm_load_address m) (sm_files m)) (map snd (sm_functions m)))
     @ map (extern_line (sm_load_address m)) (map snd (sm_externs m))"

definition cfi_lines :: "SymbolModule \<Rightarrow> string list" where
  "cfi_lines m = concat (map (entry_lines (sm_load_address m)) (sm_entries m))"

definition module_lines :: "SymbolData \<Rightarrow> SymbolModule \<Rightarrow> string list" where
  "module_lines sd m = header_lines m
     @ (if sd \<noteq> ONLY_CFI then symbol_lines (AssignSourceIds m) else [])
     @ (if sd \<noteq> NO_CFI then cfi_lines m else [])"

lemma write_rules_string:
  "write_rules string_stream b rules s =
    s @ (if b \<or> rules = [] then '''' else '' '') @ rules_text rules"
proof (induction string_stream b rules s rule: write_rules.induct)
  case (2 b name rule rules s)
  then show ?case
    by (cases rules) (auto simp: rules_text_def outs_string join_words_Cons)
qed (simp add: rules_text_def)

lemma WriteRuleMap_string: "WriteRuleMap string_stream rules s = (True, s @ rules_text rules)"
  by (simp add: WriteRuleMap_def write_rules_string)

lemma write_files_string: "write_files string_stream fs s = (True, s @ unlines (file_lines fs))"
  by (induction string_stream fs s rule: write_files.induct) (auto simp: file_lines_def outs_string)

lemma write_lines_string:
  "write_lines string_stream load fs ls s = (True, s @ unlines (map (line_line load fs) ls))"
  by (induction string_stream load fs ls s rule: write_lines.induct) (simp_all add: line_line_def outs_string)

lemma write_functions_string:
  "write_functions string_stream load fs funcs s
    = (True, s @ unlines (concat (map (func_lines_text load fs) funcs)))"
  by (induction string_stream load fs funcs s rule: write_functions.induct)
    (simp_all add: func_lines_text_def outs_string write_lines_string)

lemma write_externs_string:
  "write_externs string_stream load es s = s @ unlines (map (extern_line load) es)"
  by (induction string_stream load es s rule: write_externs.induct) (simp_all add: extern_line_def outs_string)

lemma write_changes_string:
  "write_changes string_stream load ds s = (True, s @ unlines (map (change_line load) ds))"
  by (induction string_stream load ds s rule: write_changes.induct)
    (simp_all add: change_line_def outs_string WriteRuleMap_string)

lemma write_entries_string:
  "write_entries string_stream load es s = (True, s @ unlines (concat (map (entry_lines load) es)))"
  by (induction string_stream load es s rule: write_entries.induct)
    (simp_all add: entry_lines_def outs_string WriteRuleMap_string write_changes_string)

lemma Write_string:
  "Write string_stream sd m s =
    (True, if sd \<noteq> ONLY_CFI then AssignSourceIds m else m, s @ unlines (module_lines sd m))"
  by (cases sd) (simp_all add: Write_def write_symbols_def outs_string write_files_string write_functions_string
      write_externs_string write_entries_string module_lines_def header_lines_def symbol_lines_def cfi_lines_def
      AssignSourceIds_def Let_def)

section \<open>Reading lines\<close>

lemma strtok_r_spaced:
  assumes "CHR '' '' \<in> delims" "word_in delims w"
  shows "strtok_r delims (spaced (w # ws) rest) = Some (w, spaced ws rest)"
  using strtok_r_word [OF assms(2), of "CHR '' '' # spaced ws rest"] assms(1) by simp

lemma tokenize_loop_spaced:
  assumes "CHR '' '' \<in> delims" "\<forall>w\<in>set ws. word_in delims w" "ws \<noteq> []"
  shows "tokenize_loop delims (1 + int (length ws)) (strtok_r delims (spaced ws rest)) toks = (0, rest, toks @ ws)"
  using assms(2,3)
proof (induction ws arbitrary: toks)
  case (Cons w ws)
  have w: "strtok_r delims (spaced (w # ws) rest) = Some (w, spaced ws rest)"
    by (rule strtok_r_spaced [OF assms(1)]) (simp add: Cons.prems)
  show ?case
  proof (cases ws)
    case Nil
    then show ?thesis using w by (simp add: tokenize_loop.simps)
  next
    case (Cons v vs)
    then have "tokenize_loop delims (1 + int (length ws)) (strtok_r delims (spaced ws rest)) (toks @ [w])
        = (0, rest, toks @ w # ws)"
      using Cons.IH [of "toks @ [w]"] Cons.prems by simp
    then show ?thesis using Cons unfolding w by (simp add: tokenize_loop.simps Let_def add.commute)
  qed
qed simp

lemma Tokenize_spaced:
  assumes "\<forall>w\<in>set ws. word_in kWhitespace w" "ws \<noteq> []" "word_in eols rest"
  shows "Tokenize (spaced ws rest) kWhitespace (Suc (length ws)) = Some (ws @ [rest])"
proof -
  have "CHR '' '' \<in> kWhitespace" by (simp add: kWhitespace_def)
  then have "tokenize_loop kWhitespace (1 + int (length ws)) (strtok_r kWhitespace (spaced ws rest)) []
      = (0, rest, ws)"
    using tokenize_loop_spaced [OF _ assms(1,2), of rest "[]"] by simp
  moreover have "strtok_r eols rest = Some (rest, [])"
    using strtok_r_word [OF assms(3), of "[]"] by simp
  ultimately show ?thesis by (simp add: Tokenize_def)
qed

text \<open>What a line must not contain\<close>

definition line_breaks :: "char set" where
  "line_breaks = insert NUL eols"

lemma line_breaks_eols: "word_in line_breaks w \<Longrightarrow> word_in eols w"
  by (simp add: word_in_def line_breaks_def)

lemma breaks: "kWhitespace \<subseteq> number_breaks" "eols \<subseteq> number_breaks" "line_breaks \<subseteq> number_breaks"
  by (simp_all add: kWhitespace_def eols_def number_breaks_def line_breaks_def)

lemma parse_u64_hex: "x \<noteq> - 1 \<Longrightarrow> parse_u64 (hex_text x) = Some x"
  by (simp add: parse_u64_def strtoull_hex_text IsValidAfterNumber_def)

lemma parse_long_hex: "uint x < LONG_MAX \<Longrightarrow> parse_long 16 (hex_text x) = Some (uint x)"
  by (simp add: parse_long_def strtol_hex_text IsValidAfterNumber_def)

lemma parse_long_dec: "0 \<le> i \<Longrightarrow> i < LONG_MAX \<Longrightarrow> parse_long 10 (dec_text i) = Some i"
  by (simp add: parse_long_def strtol_dec_text IsValidAfterNumber_def)

lemma to_int_small: "0 \<le> i \<Longrightarrow> i < 2 ^ 31 \<Longrightarrow> to_int i = i"
  by (simp add: to_int_def sint_sbintrunc' signed_take_bit_int_eq_self)

text \<open>The first character of a number is none of those with which the other records begin.\<close>

lemma digits_text_first:
  assumes "2 \<le> b" "b \<le> 16"
  shows "\<exists>d t. d < 16 \<and> digits_text b n = digit_char d # t"
proof (induction n rule: measure_induct_rule [of id])
  case (less n)
  show ?case
  proof (cases "n < b")
    case True
    then show ?thesis using assms by (auto simp: digits_text.simps [of b n] intro!: exI [of _ n])
  next
    case False
    then have "n div b < n" using assms(1) by simp
    then show ?thesis using less [of "n div b"] False assms(1) by (auto simp: digits_text.simps [of b n])
  qed
qed

lemma digit_char_lower: "d < 16 \<Longrightarrow> digit_char d \<notin> set ''FSPMI''"
proof -
  assume "d < 16"
  then have "of_char (digit_char d) \<in> {48..57} \<union> {97..(102 :: nat)}" by (simp add: digit_char_def)
  then show ?thesis by auto
qed

lemma hex_text_first:
  obtains c t where "hex_text x = c # t" "c \<notin> set ''FSPMI''"
  using digits_text_first [of 16 "unat x"] digit_char_lower unfolding hex_text_def by (metis le_refl numeral_le_iff semiring_norm(71) semiring_norm(68))

text \<open>A line as the loader reads it: without error, and without touching the text behind it\<close>

definition reads :: "string \<Rightarrow> nat option \<times> Module \<Rightarrow> nat option \<times> Module \<Rightarrow> bool" where
  "reads l s s' \<longleftrightarrow> (\<forall>behind. parse_record l (Some behind) (fst s) (snd s) = Done (True, fst s', snd s', False))"

fun reads_all :: "string list \<Rightarrow> nat option \<times> Module \<Rightarrow> nat option \<times> Module \<Rightarrow> bool" where
  "reads_all [] s s' \<longleftrightarrow> s = s'"
| "reads_all (l # ls) s s' \<longleftrightarrow> (\<exists>u. word_in line_breaks l \<and> reads l s u \<and> reads_all ls u s')"

lemma reads_all_append: "reads_all ls s u \<Longrightarrow> reads_all ks u s' \<Longrightarrow> reads_all (ls @ ks) s s'"
  by (induction ls s u rule: reads_all.induct) auto

lemma load_lines_unlines:
  "reads_all ls s s' \<Longrightarrow> n \<le> kMaxErrorsBeforeBailing
    \<Longrightarrow> load_lines (unlines ls) None (fst s) n (snd s) = Done (n, snd s')"
proof (induction ls s s' rule: reads_all.induct)
  case (1 s s')
  then show ?case by (simp add: load_lines.simps)
next
  case (2 l ls s s')
  then obtain u where u: "word_in eols l" "reads l s u" "reads_all ls u s'" "n \<le> kMaxErrorsBeforeBailing"
    by (auto intro: line_breaks_eols)
  have l: "strtok_r eols (unlines (l # ls)) = Some (l, unlines ls)"
    using strtok_r_word [OF u(1), of "CHR 0x0A # unlines ls"] by (simp add: eols_def)
  have "dropWhile (\<lambda>c. c \<notin> eols) (dropWhile (\<lambda>c. c \<in> eols) (unlines (l # ls))) = CHR 0x0A # unlines ls"
    using u(1) by (cases l) (auto simp: word_in_def dropWhile_append eols_def)
  moreover have "parse_record l (Some (unlines ls)) (fst s) (snd s) = Done (True, fst u, snd u, False)"
    using u(2) by (simp add: reads_def)
  ultimately show ?case
    using 2(1) [OF u(3,4)] u(4) unfolding load_lines.simps [of "unlines (l # ls)"] l by simp
qed

section \<open>The records\<close>

lemma word_numbers [simp]:
  "word_in kWhitespace (hex_text x)" "word_in eols (hex_text x)"
  "0 \<le> i \<Longrightarrow> word_in kWhitespace (dec_text i)" "0 \<le> i \<Longrightarrow> word_in eols (dec_text i)"
  "word_in line_breaks (hex_text x)" "0 \<le> i \<Longrightarrow> word_in line_breaks (dec_text i)"
  "word_in kWhitespace ''0''" "word_in kWhitespace ''INIT''" "word_in line_breaks ''0''" "word_in line_breaks ''INIT''"
  by (simp_all add: word_in_number breaks) (simp_all add: word_in_def kWhitespace_def line_breaks_def eols_def)

lemma file_reads:
  assumes "word_in line_breaks name" "0 \<le> i" "i < 2 ^ 31"
  shows "reads (''FILE '' @ spaced [dec_text i] name) (cur, m)
    (cur, m\<lparr>file_map := map_insert i name (file_map m)\<rparr>)"
proof -
  have "Tokenize (spaced [dec_text i] name) kWhitespace 2 = Some [dec_text i, name]"
    using Tokenize_spaced [of "[dec_text i]" name] assms by (simp add: numeral_2_eq_2 line_breaks_eols)
  then have "ParseFile (''FILE '' @ spaced [dec_text i] name) m
      = (True, m\<lparr>file_map := map_insert i name (file_map m)\<rparr>)"
    using assms(2,3) by (simp add: ParseFile_def SPH_ParseFile_def parse_long_dec LONG_MAX_def to_int_small)
  then show ?thesis by (simp add: reads_def parse_record_def)
qed

text \<open>What becomes of a function and of a line\<close>

definition loaded_line :: "u64 \<Rightarrow> (string, int) std_map \<Rightarrow> SourceLine \<Rightarrow> Line" where
  "loaded_line load fs l = \<lparr>line_address = sl_address l - load, line_size = sl_size l,
     source_file_id = source_id fs (sl_file l), line_number = sl_number l\<rparr>"

definition empty_function :: "u64 \<Rightarrow> SourceFunction \<Rightarrow> Function" where
  "empty_function load f = \<lparr>func_name = sf_name f, func_address = sf_address f - load, func_size = sf_size f,
     func_parameter_size = uint (sf_parameter_size f), func_lines = new_RangeMap\<rparr>"

definition line_fits :: "u64 \<Rightarrow> (string, int) std_map \<Rightarrow> SourceLine \<Rightarrow> bool" where
  "line_fits load fs l \<longleftrightarrow> sl_address l - load \<noteq> - 1 \<and> sl_size l \<noteq> - 1
     \<and> 0 \<le> sl_number l \<and> sl_number l < 2 ^ 31 \<and> 0 \<le> source_id fs (sl_file l) \<and> source_id fs (sl_file l) < 2 ^ 31"

definition func_fits :: "u64 \<Rightarrow> SourceFunction \<Rightarrow> bool" where
  "func_fits load f \<longleftrightarrow> sf_address f - load \<noteq> - 1 \<and> sf_size f \<noteq> - 1 \<and> uint (sf_parameter_size f) < 2 ^ 31
     \<and> word_in line_breaks (sf_name f)"

text \<open>Storing an entry at its place, in a map where a store returns\<close>

definition store_at :: "('e \<Rightarrow> u64 \<times> u64) \<Rightarrow> 'e \<Rightarrow> (u64, 'e) RangeMap \<Rightarrow> (u64, 'e) RangeMap" where
  "store_at place e s = snd (the (StoreRange (fst (place e)) (snd (place e)) e s))"

lemma StoreRange_placed:
  assumes "placed place s"
  shows "\<exists>ok. StoreRange (fst (place e)) (snd (place e)) e s = Some (ok, store_at place e s)"
    and "placed place (store_at place e s)"
  using placed_StoreRange [OF assms, of e "fst (place e)" "snd (place e)"] by (auto simp: store_at_def)

lemma Tokenize_numbers:
  assumes "ws \<noteq> []" "\<forall>w\<in>set ws. word_in kWhitespace w" "word_in eols rest" "n = Suc (length ws)"
  shows "Tokenize (spaced ws rest) kWhitespace n = Some (ws @ [rest])"
  using Tokenize_spaced [OF assms(2,1,3)] assms(4) by simp

lemma ParseFunction_text:
  assumes "func_fits load f"
  shows "ParseFunction (''FUNC '' @ spaced [hex_text (sf_address f - load), hex_text (sf_size f),
      hex_text (sf_parameter_size f)] (sf_name f)) = Some (empty_function load f)"
proof -
  have "Tokenize (spaced [hex_text (sf_address f - load), hex_text (sf_size f), hex_text (sf_parameter_size f)]
      (sf_name f)) kWhitespace 4
    = Some ([hex_text (sf_address f - load), hex_text (sf_size f), hex_text (sf_parameter_size f)] @ [sf_name f])"
    by (rule Tokenize_numbers) (use assms in \<open>simp_all add: func_fits_def line_breaks_eols\<close>)
  then show ?thesis
    using assms by (simp add: ParseFunction_def SPH_ParseFunction_def func_fits_def parse_u64_hex parse_long_hex
        LONG_MAX_def to_int_small empty_function_def)
qed

lemma ParseLine_text:
  assumes "line_fits load fs l"
  shows "ParseLine (line_line load fs l) = Some (loaded_line load fs l)"
proof -
  have "Tokenize (line_line load fs l) kWhitespace 4
    = Some ([hex_text (sl_address l - load), hex_text (sl_size l), dec_text (sl_number l)]
        @ [dec_text (source_id fs (sl_file l))])"
    unfolding line_line_def by (rule Tokenize_numbers) (use assms in \<open>simp_all add: line_fits_def\<close>)
  then show ?thesis
    using assms by (simp add: ParseLine_def SPH_ParseLine_def line_fits_def parse_u64_hex parse_long_dec
        LONG_MAX_def to_int_small loaded_line_def)
qed

lemma func_reads:
  assumes "module_ok m" "func_fits load f"
  shows "\<exists>ok fs. StoreRange (sf_address f - load) (sf_size f) (length (func_store m)) (function_map m) = Some (ok, fs)
    \<and> reads (hd (func_lines_text load ids f)) (cur, m) (Some (length (func_store m)),
        m\<lparr>function_map := fs, func_store := func_store m @ [empty_function load f]\<rparr>)"
proof -
  obtain ok fs where "StoreRange (sf_address f - load) (sf_size f) (length (func_store m)) (function_map m)
      = Some (ok, fs)"
    using parse_function_ok [OF assms(1) ParseFunction_text [OF assms(2)]] by (auto simp: empty_function_def)
  then show ?thesis
    using ParseFunction_text [OF assms(2)]
    by (simp add: reads_def parse_record_def func_lines_text_def empty_function_def)
qed

lemma line_reads:
  assumes "module_ok m" "line_fits load fs l" "i < length (func_store m)"
  shows "reads (line_line load fs l) (Some i, m) (Some i, m\<lparr>func_store := (func_store m)
      [i := (func_store m ! i)\<lparr>func_lines := store_at line_place (loaded_line load fs l) (func_lines (func_store m ! i))\<rparr>]\<rparr>)"
proof -
  have "placed line_place (func_lines (func_store m ! i))"
    using assms(1,3) by (simp add: module_ok_def functions_ok_def)
  from StoreRange_placed(1) [OF this, of "loaded_line load fs l"]
  obtain ok where "StoreRange (line_address (loaded_line load fs l)) (line_size (loaded_line load fs l))
      (loaded_line load fs l) (func_lines (func_store m ! i))
    = Some (ok, store_at line_place (loaded_line load fs l) (func_lines (func_store m ! i)))"
    by (auto simp: line_place_def)
  moreover obtain c t where c: "hex_text (sl_address l - load) = c # t" "c \<notin> set ''FSPMI''"
    by (rule hex_text_first)
  ultimately show ?thesis
    using ParseLine_text [OF assms(2)] by (auto simp: reads_def parse_record_def line_line_def)
qed

lemma extern_reads:
  assumes "word_in line_breaks (ext_name e)" "ext_address e - load \<noteq> - 1"
    and "map_ok (public_symbols m)" "ext_address e - load \<notin> fst ` set (public_symbols m)"
  shows "reads (extern_line load e) (cur, m) (None,
    if ext_address e - load = 0 then m
    else m\<lparr>public_symbols := map_insert (ext_address e - load) \<lparr>symbol_name = ext_name e,
      symbol_address = ext_address e - load, symbol_parameter_size = 0\<rparr> (public_symbols m)\<rparr>)"
proof -
  have "Tokenize (spaced [hex_text (ext_address e - load), ''0''] (ext_name e)) kWhitespace 3
    = Some ([hex_text (ext_address e - load), ''0''] @ [ext_name e])"
    by (rule Tokenize_numbers) (use assms(1) in \<open>simp_all add: line_breaks_eols\<close>)
  moreover have "parse_long 16 ''0'' = Some 0"
    by code_simp
  ultimately show ?thesis
    using assms(1,2,4) map_find_at [OF assms(3), of "ext_address e - load"]
    by (auto simp: reads_def parse_record_def extern_line_def ParsePublicSymbol_def
        SPH_ParsePublicSymbol_def parse_u64_hex to_int_small AM_Store_def)
qed

lemma ParseStackInfo_CFI:
  "ParseStackInfo (''STACK CFI '' @ t) behind m =
    (case ParseCFIFrameInfo t m of
       Done (ok, m) \<Rightarrow> Done (ok, m, False) | Overread \<Rightarrow> Overread | NoReturn \<Rightarrow> NoReturn)"
  by (simp add: ParseStackInfo_def kWhitespace_def)

lemma strtok_r_spaces: "word_in kWhitespace w \<Longrightarrow> strtok_r kWhitespace (spaced (w # ws) rest) = Some (w, spaced ws rest)"
  by (rule strtok_r_spaced) (simp_all add: kWhitespace_def)

lemma strtok_r_last: "word_in eols rest \<Longrightarrow> strtok_r eols (spaced [] rest) = Some (rest, [])"
  using strtok_r_word [of eols rest "[]"] by simp

lemma init_reads:
  assumes "module_ok m" "word_in eols (rules_text (initial_rules e))"
  shows "\<exists>ok s. StoreRange (se_address e - load) (se_size e) (rules_text (initial_rules e)) (cfi_initial_rules m) = Some (ok, s)
    \<and> reads (hd (entry_lines load e)) (cur, m) (cur, m\<lparr>cfi_initial_rules := s\<rparr>)"
proof -
  obtain ok s where s: "StoreRange (se_address e - load) (se_size e) (rules_text (initial_rules e))
      (cfi_initial_rules m) = Some (ok, s)"
    using StoreRange_plain [of "cfi_initial_rules m" "se_address e - load" "se_size e" "rules_text (initial_rules e)"]
      assms(1) by (auto simp: module_ok_def)
  have "ParseCFIFrameInfo (spaced [''INIT'', hex_text (se_address e - load), hex_text (se_size e)]
      (rules_text (initial_rules e))) m = Done (True, m\<lparr>cfi_initial_rules := s\<rparr>)"
    unfolding ParseCFIFrameInfo_def
    using s by (simp add: strtok_r_spaces strtok_r_last strtoull_hex_text assms(2) del: spaced_simps)
  then show ?thesis
    using s by (auto simp: reads_def parse_record_def entry_lines_def ParseStackInfo_CFI [simplified] simp del: spaced_simps)
qed

lemma change_reads:
  assumes "word_in eols (rules_text (snd d))"
  shows "reads (change_line load d) (cur, m)
    (cur, m\<lparr>cfi_delta_rules := map_assign (fst d - load) (rules_text (snd d)) (cfi_delta_rules m)\<rparr>)"
proof -
  obtain c t where "hex_text (fst d - load) = c # t" "c \<notin> set ''FSPMI''" by (rule hex_text_first)
  then have "hex_text (fst d - load) \<noteq> ''INIT''" by auto
  then have "ParseCFIFrameInfo (spaced [hex_text (fst d - load)] (rules_text (snd d))) m
      = Done (True, m\<lparr>cfi_delta_rules := map_assign (fst d - load) (rules_text (snd d)) (cfi_delta_rules m)\<rparr>)"
    unfolding ParseCFIFrameInfo_def
    by (simp add: strtok_r_spaces strtok_r_last strtoull_hex_text assms del: spaced_simps)
  then show ?thesis
    by (simp add: reads_def parse_record_def change_line_def ParseStackInfo_CFI [simplified] del: spaced_simps)
qed

lemma header_reads: "l \<in> set (header_lines w) \<Longrightarrow> reads l s s"
  by (cases s) (auto simp: header_lines_def reads_def parse_record_def split: if_splits)

section \<open>Storing entries that do not meet\<close>

definition apart :: "('e \<Rightarrow> u64 \<times> u64) \<Rightarrow> 'e \<Rightarrow> 'e \<Rightarrow> bool" where
  "apart place e e' \<longleftrightarrow> (\<forall>a. \<not> (inside a (place e) \<and> inside a (place e')))"

definition extent_ok :: "u64 \<times> u64 \<Rightarrow> bool" where
  "extent_ok p \<longleftrightarrow> snd p \<noteq> 0 \<and> fst p \<le> fst p + (snd p - 1)"

definition storable :: "('e \<Rightarrow> u64 \<times> u64) \<Rightarrow> 'e list \<Rightarrow> bool" where
  "storable place es \<longleftrightarrow> (\<forall>e\<in>set es. extent_ok (place e)) \<and> sorted_wrt (apart place) es"

lemma apart_sym: "apart place e e' \<longleftrightarrow> apart place e' e"
  by (auto simp: apart_def)

lemma inside_extent: "extent_ok p \<Longrightarrow> inside a p \<longleftrightarrow> fst p \<le> a \<and> a \<le> fst p + (snd p - 1)"
  using inside_range [of "snd p" "fst p" a] by (simp add: extent_ok_def inside_def)

lemma store_at_apart:
  assumes "placed place s" "extent_ok (place e)" "\<forall>e'\<in>stored s. apart place e e'"
  shows "stored (store_at place e s) = insert e (stored s)"
proof -
  let ?b = "fst (place e)" and ?n = "snd (place e)"
  have s: "\<not> enable_shrink_down s" "ranges_ok (rm_map s)" using assms(1) by (simp_all add: placed_def)
  have "\<not> covers (rm_map s) a (k, r)" if a: "?b \<le> a" "a \<le> ?b + (?n - 1)" for a k r
  proof
    assume c: "covers (rm_map s) a (k, r)"
    then have kr: "(k, r) \<in> set (rm_map s)" by (simp add: covers_def)
    then have "inside a (place (rng_entry r))" using placed_entry(5) [OF assms(1) kr, of a] c by simp
    moreover have "rng_entry r \<in> stored s" using kr by (force simp: stored_def)
    moreover have "inside a (place e)" using inside_extent [OF assms(2), of a] a by simp
    ultimately show False using assms(3) unfolding apart_def by blast
  qed
  then have fits: "fits False (rm_map s) ?b (?b + (?n - 1))" by (auto simp: fits_def)
  have e: "?n \<noteq> 0" "?b \<le> ?b + (?n - 1)" using assms(2) by (simp_all add: extent_ok_def)
  from store_outcome(2) [OF s(2) refl e fits, of 0 e]
  have store: "StoreRangeInternal False ?b 0 ?n e (rm_map s)
      = Some (True, map_insert (?b + (?n - 1)) (mk_Range ?b 0 e) (rm_map s))"
    and free: "\<forall>a p. ?b \<le> a \<and> a \<le> ?b + (?n - 1) \<longrightarrow> \<not> covers (rm_map s) a p"
    by auto
  have "set (map_insert (?b + (?n - 1)) (mk_Range ?b 0 e) (rm_map s))
      = insert (?b + (?n - 1), mk_Range ?b 0 e) (set (rm_map s))"
    using ranges_ok_insert [OF s(2) e(2)] free by blast
  then show ?thesis using store s(1) by (simp add: store_at_def StoreRange_def stored_def mk_Range_def)
qed

lemma placed_fold: "placed place s \<Longrightarrow> placed place (fold (store_at place) es s)"
  by (induction es arbitrary: s) (simp_all add: StoreRange_placed)

lemma stored_fold:
  assumes "placed place s" "storable place es" "\<forall>e\<in>set es. \<forall>e'\<in>stored s. apart place e e'"
  shows "stored (fold (store_at place) es s) = stored s \<union> set es"
  using assms
proof (induction es arbitrary: s)
  case (Cons e es)
  have st: "stored (store_at place e s) = insert e (stored s)"
    by (rule store_at_apart) (use Cons.prems in \<open>simp_all add: storable_def\<close>)
  have "stored (fold (store_at place) es (store_at place e s)) = stored (store_at place e s) \<union> set es"
  proof (rule Cons.IH [OF StoreRange_placed(2) [OF Cons.prems(1)]])
    show "storable place es" using Cons.prems(2) by (simp add: storable_def)
    show "\<forall>d\<in>set es. \<forall>e'\<in>stored (store_at place e s). apart place d e'"
      using Cons.prems(2,3) apart_sym [of place e] unfolding st by (auto simp: storable_def)
  qed
  then show ?case using st by simp
qed simp

lemma stored_new [simp]: "stored new_RangeMap = {}"
  by (simp add: stored_def new_RangeMap_def)

section \<open>Functions and their lines\<close>

definition loaded_function :: "u64 \<Rightarrow> (string, int) std_map \<Rightarrow> SourceFunction \<Rightarrow> Function" where
  "loaded_function load fs f = (empty_function load f)
     \<lparr>func_lines := fold (store_at line_place) (map (loaded_line load fs) (sf_lines f)) new_RangeMap\<rparr>"

lemma spaced_word:
  "\<forall>w\<in>set ws. word_in line_breaks w \<Longrightarrow> word_in line_breaks rest \<Longrightarrow> word_in line_breaks (spaced ws rest)"
proof (induction ws)
  case (Cons w ws)
  have "CHR '' '' \<notin> line_breaks" by (simp add: line_breaks_def eols_def)
  then show ?case using Cons by (auto simp: word_in_def)
qed simp

lemma prefix_word: "set p \<inter> line_breaks = {} \<Longrightarrow> word_in line_breaks w \<Longrightarrow> word_in line_breaks (p @ w)"
  by (auto simp: word_in_def)

lemma lines_read:
  assumes "module_ok m" "i < length (func_store m)" "\<forall>l\<in>set ls. line_fits load fs l"
  shows "let m' = m\<lparr>func_store := (func_store m)[i := (func_store m ! i)\<lparr>func_lines :=
      fold (store_at line_place) (map (loaded_line load fs) ls) (func_lines (func_store m ! i))\<rparr>]\<rparr> in
    module_ok m' \<and> reads_all (map (line_line load fs) ls) (Some i, m) (Some i, m')"
  using assms
proof (induction ls arbitrary: m)
  case (Cons l ls)
  let ?l = "store_at line_place (loaded_line load fs l) (func_lines (func_store m ! i))"
  let ?m = "m\<lparr>func_store := (func_store m)[i := (func_store m ! i)\<lparr>func_lines := ?l\<rparr>]\<rparr>"
  have l: "line_fits load fs l" using Cons.prems(3) by simp
  have "module_ok ?m"
    using store_line_ok [OF Cons.prems(1,2), of "loaded_line load fs l"] by (auto simp: store_at_def line_place_def)
  then have "module_ok (?m\<lparr>func_store := (func_store ?m)[i := (func_store ?m ! i)\<lparr>func_lines :=
      fold (store_at line_place) (map (loaded_line load fs) ls) (func_lines (func_store ?m ! i))\<rparr>]\<rparr>)
    \<and> reads_all (map (line_line load fs) ls) (Some i, ?m) (Some i, ?m\<lparr>func_store := (func_store ?m)[i := (func_store ?m ! i)\<lparr>func_lines :=
      fold (store_at line_place) (map (loaded_line load fs) ls) (func_lines (func_store ?m ! i))\<rparr>]\<rparr>)"
    using Cons.IH [of ?m] Cons.prems(2,3) by (simp add: Let_def)
  moreover have "word_in line_breaks (line_line load fs l)"
    unfolding line_line_def by (rule spaced_word) (use l in \<open>simp_all add: line_fits_def\<close>)
  moreover note line_reads [OF Cons.prems(1) l Cons.prems(2)]
  ultimately show ?case using Cons.prems(2) by (auto simp: Let_def)
qed simp

lemma func_line_word:
  assumes "func_fits load f"
  shows "word_in line_breaks (hd (func_lines_text load fs f))"
  unfolding func_lines_text_def list.sel
  by (rule prefix_word, simp add: line_breaks_def eols_def, rule spaced_word)
    (use assms in \<open>simp_all add: func_fits_def\<close>)

lemma function_reads:
  assumes "module_ok m" "func_fits load f" "\<forall>l\<in>set (sf_lines f). line_fits load fs l"
  shows "\<exists>fm. let m' = m\<lparr>function_map := fm, func_store := func_store m @ [loaded_function load fs f]\<rparr> in
    module_ok m' \<and> reads_all (func_lines_text load fs f) (cur, m) (Some (length (func_store m)), m')
    \<and> (\<forall>place. place (length (func_store m)) = func_extent (loaded_function load fs f)
        \<longrightarrow> fm = store_at place (length (func_store m)) (function_map m))"
proof -
  let ?n = "length (func_store m)"
  obtain ok fm where store: "StoreRange (sf_address f - load) (sf_size f) ?n (function_map m) = Some (ok, fm)"
    and first: "reads (hd (func_lines_text load fs f)) (cur, m)
      (Some ?n, m\<lparr>function_map := fm, func_store := func_store m @ [empty_function load f]\<rparr>)"
    using func_reads [OF assms(1,2), of fs cur] by blast
  let ?m = "m\<lparr>function_map := fm, func_store := func_store m @ [empty_function load f]\<rparr>"
  have "module_ok ?m"
    using parse_function_ok [OF assms(1) ParseFunction_text [OF assms(2)]] store by (auto simp: empty_function_def)
  let ?m' = "m\<lparr>function_map := fm, func_store := func_store m @ [loaded_function load fs f]\<rparr>"
  from lines_read [OF \<open>module_ok ?m\<close>, of ?n "sf_lines f", OF _ assms(3)]
  have lines: "module_ok ?m'" "reads_all (map (line_line load fs) (sf_lines f)) (Some ?n, ?m) (Some ?n, ?m')"
    by (simp_all add: Let_def loaded_function_def empty_function_def)
  have "func_lines_text load fs f = hd (func_lines_text load fs f) # map (line_line load fs) (sf_lines f)"
    by (simp add: func_lines_text_def)
  moreover have "reads_all (hd (func_lines_text load fs f) # map (line_line load fs) (sf_lines f)) (cur, m) (Some ?n, ?m')"
    unfolding reads_all.simps using first func_line_word [OF assms(2), of fs] lines(2) by blast
  ultimately have "reads_all (func_lines_text load fs f) (cur, m) (Some ?n, ?m')" by simp
  moreover have "fm = store_at place ?n (function_map m)"
    if "place ?n = func_extent (loaded_function load fs f)" for place
    using store that by (simp add: store_at_def loaded_function_def empty_function_def func_extent_def)
  ultimately show ?thesis using lines(1) unfolding Let_def by blast
qed

lemma functions_read:
  assumes "module_ok m" "\<forall>f\<in>set funcs. func_fits load f \<and> (\<forall>l\<in>set (sf_lines f). line_fits load fs l)"
  shows "\<exists>cur' fm. let m' = m\<lparr>function_map := fm, func_store := func_store m @ map (loaded_function load fs) funcs\<rparr> in
    module_ok m' \<and> reads_all (concat (map (func_lines_text load fs) funcs)) (cur, m) (cur', m')
    \<and> fm = fold (store_at (\<lambda>i. func_extent (func_store m' ! i)))
        [length (func_store m)..<length (func_store m')] (function_map m)"
  using assms
proof (induction funcs arbitrary: m cur)
  case Nil
  then show ?case by (intro exI [of _ cur] exI [of _ "function_map m"]) simp
next
  case (Cons f funcs)
  let ?f = "loaded_function load fs f"
  obtain fm where fm: "module_ok (m\<lparr>function_map := fm, func_store := func_store m @ [?f]\<rparr>)"
    "reads_all (func_lines_text load fs f) (cur, m)
      (Some (length (func_store m)), m\<lparr>function_map := fm, func_store := func_store m @ [?f]\<rparr>)"
    "\<And>place. place (length (func_store m)) = func_extent ?f \<Longrightarrow> fm = store_at place (length (func_store m)) (function_map m)"
    using function_reads [OF Cons.prems(1), of load f fs cur] Cons.prems(2)
    unfolding Let_def list.set ball_simps by blast
  let ?m = "m\<lparr>function_map := fm, func_store := func_store m @ [?f]\<rparr>"
  obtain cur' fm' where IH: "module_ok (?m\<lparr>function_map := fm', func_store := func_store ?m @ map (loaded_function load fs) funcs\<rparr>)"
    "reads_all (concat (map (func_lines_text load fs) funcs)) (Some (length (func_store m)), ?m)
      (cur', ?m\<lparr>function_map := fm', func_store := func_store ?m @ map (loaded_function load fs) funcs\<rparr>)"
    "fm' = fold (store_at (\<lambda>i. func_extent ((func_store ?m @ map (loaded_function load fs) funcs) ! i)))
        [length (func_store ?m)..<length (func_store ?m @ map (loaded_function load fs) funcs)] (function_map ?m)"
    using Cons.IH [OF fm(1), of "Some (length (func_store m))"] Cons.prems(2)
    unfolding Let_def list.set ball_simps by force
  let ?store = "func_store m @ map (loaded_function load fs) (f # funcs)"
  have "fm' = fold (store_at (\<lambda>i. func_extent (?store ! i))) [length (func_store m)..<length ?store] (function_map m)"
  proof -
    have upt: "[length (func_store m)..<length ?store] = length (func_store m) # [length (func_store ?m)..<length ?store]"
      by (simp add: upt_conv_Cons del: upt_Suc)
    have st: "func_store ?m @ map (loaded_function load fs) funcs = ?store" by simp
    have "fm = store_at (\<lambda>i. func_extent (?store ! i)) (length (func_store m)) (function_map m)"
      by (rule fm(3)) simp
    then show ?thesis using IH(3) unfolding st upt by simp
  qed
  moreover have "reads_all (concat (map (func_lines_text load fs) (f # funcs))) (cur, m)
      (cur', m\<lparr>function_map := fm', func_store := ?store\<rparr>)"
    using reads_all_append [OF fm(2) IH(2)] by simp
  ultimately show ?case using IH(1) by (intro exI [of _ cur'] exI [of _ fm']) (simp add: Let_def)
qed

section \<open>Files\<close>

lemma number_files_ids:
  assumes "\<forall>p\<in>set fs. snd p = 0 \<or> snd p = - 1" "0 \<le> k"
  shows "map fst (number_files k fs) = map fst fs"
    and "\<forall>p\<in>set (number_files k fs). snd p \<ge> 0 \<longrightarrow> k \<le> snd p \<and> snd p < k + int (length fs)"
    and "sorted_wrt (<) (map snd (filter (\<lambda>p. snd p \<ge> 0) (number_files k fs)))"
    and "(name, 0) \<in> set fs \<Longrightarrow> \<exists>i\<ge>0. (name, i) \<in> set (number_files k fs)"
  using assms by (induction k fs rule: number_files.induct) (auto split: if_splits; force)+

lemma set_source_id_ids:
  assumes "\<forall>p\<in>set fs. snd p = 0 \<or> snd p = - 1"
  shows "\<forall>p\<in>set (set_source_id 0 name fs). snd p = 0 \<or> snd p = - 1"
    and "map fst (set_source_id 0 name fs) = map fst fs"
    and "(n, 0) \<in> set fs \<Longrightarrow> (n, 0) \<in> set (set_source_id 0 name fs)"
    and "name \<in> fst ` set fs \<Longrightarrow> (name, 0) \<in> set (set_source_id 0 name fs)"
  using assms by (auto simp: set_source_id_def split: if_splits intro!: image_eqI; force)+

lemma mark_lines_ids:
  assumes "\<forall>p\<in>set fs. snd p = 0 \<or> snd p = - 1"
  shows "(\<forall>p\<in>set (fold (\<lambda>l fs. set_source_id 0 (sl_file l) fs) ls fs). snd p = 0 \<or> snd p = - 1)
    \<and> map fst (fold (\<lambda>l fs. set_source_id 0 (sl_file l) fs) ls fs) = map fst fs
    \<and> (\<forall>n. (n, 0) \<in> set fs \<longrightarrow> (n, 0) \<in> set (fold (\<lambda>l fs. set_source_id 0 (sl_file l) fs) ls fs))
    \<and> (\<forall>l\<in>set ls. sl_file l \<in> fst ` set fs
        \<longrightarrow> (sl_file l, 0) \<in> set (fold (\<lambda>l fs. set_source_id 0 (sl_file l) fs) ls fs))"
  using assms
proof (induction ls arbitrary: fs)
  case (Cons l ls)
  note s = set_source_id_ids(1) [OF Cons.prems, of "sl_file l"] set_source_id_ids(2) [OF Cons.prems, of "sl_file l"]
    set_source_id_ids(3) [OF Cons.prems, of _ "sl_file l"] set_source_id_ids(4) [OF Cons.prems, of "sl_file l"]
  have keys: "fst ` set (set_source_id 0 (sl_file l) fs) = fst ` set fs"
    using s(2) by (metis set_map)
  show ?case using Cons.IH [OF s(1)] s(2-4) keys by simp
qed simp

lemma mark_files_ids:
  assumes "\<forall>p\<in>set fs. snd p = 0 \<or> snd p = - 1"
  shows "(\<forall>p\<in>set (mark_files funcs fs). snd p = 0 \<or> snd p = - 1)
    \<and> map fst (mark_files funcs fs) = map fst fs
    \<and> (\<forall>n. (n, 0) \<in> set fs \<longrightarrow> (n, 0) \<in> set (mark_files funcs fs))
    \<and> (\<forall>f\<in>set funcs. \<forall>l\<in>set (sf_lines f). sl_file l \<in> fst ` set fs
        \<longrightarrow> (sl_file l, 0) \<in> set (mark_files funcs fs))"
  using assms
proof (induction funcs arbitrary: fs)
  case (Cons f funcs)
  let ?fs = "fold (\<lambda>l fs. set_source_id 0 (sl_file l) fs) (sf_lines f) fs"
  note s = mark_lines_ids [OF Cons.prems, of "sf_lines f"]
  have keys: "fst ` set ?fs = fst ` set fs" using s by (metis set_map)
  have step: "mark_files (f # funcs) fs = mark_files funcs ?fs" by (simp add: mark_files_def)
  show ?case unfolding step using Cons.IH [of ?fs] s keys by simp
qed (simp add: mark_files_def)

text \<open>The ids that \<open>AssignSourceIds\<close> gives: to each cited file one of its own\<close>

lemma AssignSourceIds_ids:
  fixes w defines "fs \<equiv> sm_files (AssignSourceIds w)"
  shows "map fst fs = map fst (sm_files w)"
    and "\<forall>p\<in>set fs. snd p \<ge> 0 \<longrightarrow> snd p < int (length (sm_files w))"
    and "sorted_wrt (<) (map snd (filter (\<lambda>p. snd p \<ge> 0) fs))"
    and "f \<in> snd ` set (sm_functions w) \<Longrightarrow> l \<in> set (sf_lines f) \<Longrightarrow> sl_file l \<in> fst ` set (sm_files w)
      \<Longrightarrow> \<exists>i\<ge>0. (sl_file l, i) \<in> set fs"
proof -
  let ?blank = "map (\<lambda>(n, _). (n, - 1 :: int)) (sm_files w)"
  have keys: "map fst ?blank = map fst (sm_files w)" by auto
  note m = mark_files_ids [of ?blank "map snd (sm_functions w)"]
  have blank: "\<forall>p\<in>set ?blank. snd p = 0 \<or> snd p = - 1" by auto
  have fs: "fs = number_files 0 (mark_files (map snd (sm_functions w)) ?blank)"
    by (simp add: fs_def AssignSourceIds_def Let_def)
  note n = number_files_ids [OF conjunct1 [OF m [OF blank]], of 0, folded fs]
  have len: "length (mark_files (map snd (sm_functions w)) ?blank) = length (sm_files w)"
    using m [OF blank] keys by (metis length_map)
  show "map fst fs = map fst (sm_files w)" using n(1) m [OF blank] keys by simp
  show "\<forall>p\<in>set fs. snd p \<ge> 0 \<longrightarrow> snd p < int (length (sm_files w))" using n(2) len by auto
  show "sorted_wrt (<) (map snd (filter (\<lambda>p. snd p \<ge> 0) fs))" using n(3) by simp
  show "\<exists>i\<ge>0. (sl_file l, i) \<in> set fs"
    if "f \<in> snd ` set (sm_functions w)" "l \<in> set (sf_lines f)" "sl_file l \<in> fst ` set (sm_files w)"
  proof -
    have "fst ` set ?blank = fst ` set (sm_files w)" using keys by (metis set_map)
    moreover have "f \<in> set (map snd (sm_functions w))" using that(1) by simp
    ultimately have "(sl_file l, 0) \<in> set (mark_files (map snd (sm_functions w)) ?blank)"
      using m [OF blank] that(2,3) by blast
    then show ?thesis using n(4) by simp
  qed
qed

section \<open>The whole file\<close>

lemma files_read:
  assumes "module_ok m" "\<forall>p\<in>set fs. word_in line_breaks (fst p) \<and> snd p < 2 ^ 31"
    "sorted_wrt (<) (map snd (filter (\<lambda>p. snd p \<ge> 0) fs))"
    "\<forall>p\<in>set fs. snd p \<ge> 0 \<longrightarrow> snd p \<notin> fst ` set (file_map m)"
  shows "\<exists>fm. module_ok (m\<lparr>file_map := fm\<rparr>)
    \<and> reads_all (file_lines fs) (cur, m) (cur, m\<lparr>file_map := fm\<rparr>)
    \<and> set fm = set (file_map m) \<union> {(i, n). (n, i) \<in> set fs \<and> 0 \<le> i}"
  using assms
proof (induction fs arbitrary: m)
  case Nil
  then show ?case by (intro exI [of _ "file_map m"]) (simp add: file_lines_def)
next
  case (Cons p fs)
  obtain n i where p: "p = (n, i)" by (cases p)
  show ?case
  proof (cases "0 \<le> i")
    case False
    then show ?thesis using Cons.IH [OF Cons.prems(1)] Cons.prems(2-4) by (auto simp: p file_lines_def)
  next
    case True
    let ?m = "m\<lparr>file_map := map_insert i n (file_map m)\<rparr>"
    have fresh: "i \<notin> fst ` set (file_map m)" using Cons.prems(4) True by (auto simp: p)
    have ok: "module_ok ?m" using Cons.prems(1) by (auto simp: module_ok_def map_ok_insert)
    have "\<forall>q\<in>set fs. snd q \<ge> 0 \<longrightarrow> i < snd q" using Cons.prems(3) True by (auto simp: p)
    then have "\<forall>q\<in>set fs. snd q \<ge> 0 \<longrightarrow> snd q \<notin> fst ` set (file_map ?m)"
      using Cons.prems(4) map_insert_keys [of i n "file_map m"] by auto
    then obtain fm where fm: "module_ok (?m\<lparr>file_map := fm\<rparr>)"
      "reads_all (file_lines fs) (cur, ?m) (cur, ?m\<lparr>file_map := fm\<rparr>)"
      "set fm = set (file_map ?m) \<union> {(i, n). (n, i) \<in> set fs \<and> 0 \<le> i}"
      using Cons.IH [OF ok] Cons.prems(2,3) True by (auto simp: p)
    have l: "file_lines (p # fs) = (''FILE '' @ spaced [dec_text i] n) # file_lines fs"
      using True by (simp add: p file_lines_def)
    have w: "word_in line_breaks (''FILE '' @ spaced [dec_text i] n)"
      by (rule prefix_word, simp add: line_breaks_def eols_def, rule spaced_word)
        (use Cons.prems(2) True in \<open>simp_all add: p\<close>)
    have r: "reads (''FILE '' @ spaced [dec_text i] n) (cur, m) (cur, ?m)"
      by (rule file_reads) (use Cons.prems(2) True in \<open>simp_all add: p\<close>)
    have "reads_all (file_lines (p # fs)) (cur, m) (cur, m\<lparr>file_map := fm\<rparr>)"
      unfolding l reads_all.simps using w r fm(2) by (intro exI [of _ "(cur, ?m)"]) simp
    moreover have "set fm = set (file_map m) \<union> {(j, k). (k, j) \<in> set (p # fs) \<and> 0 \<le> j}"
      using fm(3) set_map_insert [OF fresh, of n] True by (auto simp: p)
    ultimately show ?thesis using fm(1) by (intro exI [of _ fm]) simp
  qed
qed

definition loaded_symbol :: "u64 \<Rightarrow> Extern \<Rightarrow> PublicSymbol" where
  "loaded_symbol load e = \<lparr>symbol_name = ext_name e, symbol_address = ext_address e - load, symbol_parameter_size = 0\<rparr>"

lemma externs_read:
  assumes "module_ok m" "\<forall>e\<in>set es. word_in line_breaks (ext_name e) \<and> ext_address e - load \<noteq> - 1"
    "distinct (map ext_address es)"
    "\<forall>e\<in>set es. ext_address e - load \<notin> fst ` set (public_symbols m)"
  shows "\<exists>cur' ps. module_ok (m\<lparr>public_symbols := ps\<rparr>)
    \<and> reads_all (map (extern_line load) es) (cur, m) (cur', m\<lparr>public_symbols := ps\<rparr>)
    \<and> set ps = set (public_symbols m)
        \<union> (\<lambda>e. (ext_address e - load, loaded_symbol load e)) ` {e \<in> set es. ext_address e \<noteq> load}"
  using assms
proof (induction es arbitrary: m cur)
  case Nil
  then show ?case by (intro exI [of _ cur] exI [of _ "public_symbols m"]) simp
next
  case (Cons e es)
  let ?a = "ext_address e - load"
  let ?m = "if ?a = 0 then m else m\<lparr>public_symbols := map_insert ?a (loaded_symbol load e) (public_symbols m)\<rparr>"
  have ok: "map_ok (public_symbols m)" using Cons.prems(1) by (simp add: module_ok_def)
  have fresh: "?a \<notin> fst ` set (public_symbols m)" using Cons.prems(4) by simp
  have set: "set (public_symbols ?m)
      = set (public_symbols m) \<union> (if ext_address e = load then {} else {(?a, loaded_symbol load e)})"
    using set_map_insert [OF fresh, of "loaded_symbol load e"] by auto
  have m: "module_ok ?m"
    using Cons.prems(1) set_map_insert [OF fresh, of "loaded_symbol load e"]
    by (auto simp: module_ok_def map_ok_insert loaded_symbol_def)
  have keys: "fst ` set (public_symbols ?m) \<subseteq> insert ?a (fst ` set (public_symbols m))"
    unfolding set by auto
  have "\<forall>f\<in>set es. ext_address f - load \<notin> fst ` set (public_symbols ?m)"
  proof
    fix f assume f: "f \<in> set es"
    then have "ext_address f \<noteq> ext_address e" using Cons.prems(3) by (metis distinct.simps(2) image_eqI list.map(2) list.set_map)
    then have "ext_address f - load \<noteq> ?a" by simp
    moreover have "ext_address f - load \<notin> fst ` set (public_symbols m)" using Cons.prems(4) f by simp
    ultimately show "ext_address f - load \<notin> fst ` set (public_symbols ?m)" using keys by blast
  qed
  then obtain cur' ps where ps: "module_ok (?m\<lparr>public_symbols := ps\<rparr>)"
    "reads_all (map (extern_line load) es) (None, ?m) (cur', ?m\<lparr>public_symbols := ps\<rparr>)"
    "set ps = set (public_symbols ?m)
      \<union> (\<lambda>e. (ext_address e - load, loaded_symbol load e)) ` {e \<in> set es. ext_address e \<noteq> load}"
    using Cons.IH [OF m, of None] Cons.prems(2,3) by (auto simp only: list.set ball_simps list.map distinct.simps)
  have up: "?m\<lparr>public_symbols := ps\<rparr> = m\<lparr>public_symbols := ps\<rparr>" by simp
  have r: "reads (extern_line load e) (cur, m) (None, ?m)"
    using extern_reads [OF _ _ ok fresh, of cur] Cons.prems(2) by (simp add: loaded_symbol_def split: if_splits)
  have w: "word_in line_breaks (extern_line load e)"
    unfolding extern_line_def
    by (rule prefix_word, simp add: line_breaks_def eols_def, rule spaced_word) (use Cons.prems(2) in simp_all)
  have "reads_all (map (extern_line load) (e # es)) (cur, m) (cur', m\<lparr>public_symbols := ps\<rparr>)"
    unfolding list.map reads_all.simps
    by (intro exI [of _ "(None, ?m)"] conjI w r) (rule ps(2) [unfolded up])
  moreover have "set ps = set (public_symbols m)
      \<union> (\<lambda>e. (ext_address e - load, loaded_symbol load e)) ` {e' \<in> set (e # es). ext_address e' \<noteq> load}"
    unfolding ps(3) set by auto
  moreover have "module_ok (m\<lparr>public_symbols := ps\<rparr>)" by (rule ps(1) [unfolded up])
  ultimately show ?case by (intro exI [of _ cur'] exI [of _ ps]) simp
qed

text \<open>The unwinding rules: what the loader keeps of them\<close>

definition rules_ok :: "RuleMap \<Rightarrow> bool" where
  "rules_ok rules \<longleftrightarrow> word_in line_breaks (rules_text rules)"

definition entry_ok :: "StackFrameEntry \<Rightarrow> bool" where
  "entry_ok e \<longleftrightarrow> rules_ok (initial_rules e) \<and> (\<forall>d\<in>set (rule_changes e). rules_ok (snd d))"

definition add_change :: "u64 \<Rightarrow> u64 \<times> RuleMap \<Rightarrow> (u64, string) std_map \<Rightarrow> (u64, string) std_map" where
  "add_change load d = map_assign (fst d - load) (rules_text (snd d))"

lemma changes_read:
  assumes "module_ok m" "\<forall>d\<in>set ds. rules_ok (snd d)"
  shows "let m' = m\<lparr>cfi_delta_rules := fold (add_change load) ds (cfi_delta_rules m)\<rparr> in
    module_ok m' \<and> reads_all (map (change_line load) ds) (cur, m) (cur, m')"
  using assms
proof (induction ds arbitrary: m)
  case (Cons d ds)
  let ?m = "m\<lparr>cfi_delta_rules := add_change load d (cfi_delta_rules m)\<rparr>"
  have d: "word_in line_breaks (rules_text (snd d))" using Cons.prems(2) by (simp add: rules_ok_def)
  have ok: "module_ok ?m"
    using Cons.prems(1) by (simp add: module_ok_def add_change_def map_assign_def map_ok_insert map_ok_erase)
  have r: "reads (change_line load d) (cur, m) (cur, ?m)"
    unfolding add_change_def by (rule change_reads [OF line_breaks_eols [OF d]])
  have w: "word_in line_breaks (change_line load d)"
    unfolding change_line_def
    by (rule prefix_word, simp add: line_breaks_def eols_def, rule spaced_word) (use d in simp_all)
  have "module_ok (?m\<lparr>cfi_delta_rules := fold (add_change load) ds (cfi_delta_rules ?m)\<rparr>)
    \<and> reads_all (map (change_line load) ds) (cur, ?m)
      (cur, ?m\<lparr>cfi_delta_rules := fold (add_change load) ds (cfi_delta_rules ?m)\<rparr>)"
    using Cons.IH [OF ok] Cons.prems(2) by (simp add: Let_def)
  then show ?case using r w by (auto simp: Let_def)
qed simp

lemma entries_read:
  assumes "module_ok m" "\<forall>e\<in>set es. entry_ok e"
  shows "\<exists>s. let m' = m\<lparr>cfi_initial_rules := s,
      cfi_delta_rules := fold (add_change load) (concat (map rule_changes es)) (cfi_delta_rules m)\<rparr> in
    module_ok m' \<and> reads_all (concat (map (entry_lines load) es)) (cur, m) (cur, m')"
  using assms
proof (induction es arbitrary: m)
  case Nil
  then show ?case by (intro exI [of _ "cfi_initial_rules m"]) simp
next
  case (Cons e es)
  have e: "word_in line_breaks (rules_text (initial_rules e))" "\<forall>d\<in>set (rule_changes e). rules_ok (snd d)"
    using Cons.prems(2) by (simp_all add: entry_ok_def rules_ok_def)
  obtain ok s where s: "StoreRange (se_address e - load) (se_size e) (rules_text (initial_rules e)) (cfi_initial_rules m)
      = Some (ok, s)" "reads (hd (entry_lines load e)) (cur, m) (cur, m\<lparr>cfi_initial_rules := s\<rparr>)"
    using init_reads [OF Cons.prems(1) line_breaks_eols [OF e(1)]] by blast
  let ?m = "m\<lparr>cfi_initial_rules := s\<rparr>"
  let ?n = "?m\<lparr>cfi_delta_rules := fold (add_change load) (rule_changes e) (cfi_delta_rules ?m)\<rparr>"
  have "\<not> enable_shrink_down s \<and> ranges_ok (rm_map s)"
    using StoreRange_plain [of "cfi_initial_rules m" "se_address e - load" "se_size e" "rules_text (initial_rules e)"]
      Cons.prems(1) s(1) by (auto simp: module_ok_def)
  then have m: "module_ok ?m" using Cons.prems(1) by (simp add: module_ok_def)
  have n: "module_ok ?n" "reads_all (map (change_line load) (rule_changes e)) (cur, ?m) (cur, ?n)"
    using changes_read [OF m e(2), of load cur] by (simp_all add: Let_def)
  have w: "word_in line_breaks (hd (entry_lines load e))"
    unfolding entry_lines_def list.sel
    by (rule prefix_word, simp add: line_breaks_def eols_def, rule spaced_word) (use e in simp_all)
  have "entry_lines load e = hd (entry_lines load e) # map (change_line load) (rule_changes e)"
    by (simp add: entry_lines_def)
  moreover have "reads_all (hd (entry_lines load e) # map (change_line load) (rule_changes e)) (cur, m) (cur, ?n)"
    unfolding reads_all.simps using w s(2) n(2) by blast
  ultimately have first: "reads_all (entry_lines load e) (cur, m) (cur, ?n)" by simp
  obtain t where t: "module_ok (?n\<lparr>cfi_initial_rules := t,
      cfi_delta_rules := fold (add_change load) (concat (map rule_changes es)) (cfi_delta_rules ?n)\<rparr>)"
    "reads_all (concat (map (entry_lines load) es)) (cur, ?n) (cur, ?n\<lparr>cfi_initial_rules := t,
      cfi_delta_rules := fold (add_change load) (concat (map rule_changes es)) (cfi_delta_rules ?n)\<rparr>)"
    using Cons.IH [OF n(1)] Cons.prems(2) by (auto simp: Let_def)
  show ?case using reads_all_append [OF first t(2)] t(1) by (intro exI [of _ t]) (simp add: Let_def)
qed

lemma header_word:
  assumes "set (sm_os w) \<inter> line_breaks = {}" "set (sm_architecture w) \<inter> line_breaks = {}"
    "set (sm_id w) \<inter> line_breaks = {}" "set (sm_name w) \<inter> line_breaks = {}" "set (sm_code_id w) \<inter> line_breaks = {}"
  shows "\<forall>l\<in>set (header_lines w). word_in line_breaks l"
proof -
  have "set ''MODULE '' \<inter> line_breaks = {}" "CHR '' '' \<notin> line_breaks" "set ''INFO CODE_ID '' \<inter> line_breaks = {}"
    by (simp_all add: line_breaks_def eols_def)
  then show ?thesis using assms by (auto simp: header_lines_def word_in_def split: if_splits)
qed

lemma header_read: "\<forall>l\<in>set ls. word_in line_breaks l \<and> reads l s s \<Longrightarrow> reads_all ls s s"
  by (induction ls) (auto intro!: exI [of _ s] simp del: split_paired_Ex)

section \<open>Modules that can be dumped\<close>

definition symbols_ok :: "SymbolModule \<Rightarrow> bool" where
  "symbols_ok w \<longleftrightarrow> map_ok (sm_files w) \<and> map_ok (sm_functions w) \<and> map_ok (sm_externs w)
     \<and> (\<forall>(k, f)\<in>set (sm_functions w). k = (sf_address f, sf_name f) \<and> sf_name f \<noteq> [])
     \<and> (\<forall>(a, e)\<in>set (sm_externs w). a = ext_address e)"

lemma symbols_ok_new: "symbols_ok (new_SymbolModule name os arch i code)"
  by (simp add: symbols_ok_def new_SymbolModule_def)

lemma map_insert_subset: "set (map_insert k v m) \<subseteq> insert (k, v) (set m)"
  by (induction k v m rule: map_insert.induct) auto

lemma symbols_ok_AddFunction: "AddFunction f w = Some w' \<Longrightarrow> symbols_ok w \<Longrightarrow> symbols_ok w'"
  using map_insert_subset [of "(sf_address f, sf_name f)" f "sm_functions w"]
  by (auto simp: AddFunction_def symbols_ok_def Let_def map_ok_insert map_ok_erase set_map_erase split: if_splits)

lemma symbols_ok_AddFunctions: "AddFunctions fs w = Some w' \<Longrightarrow> symbols_ok w \<Longrightarrow> symbols_ok w'"
  by (induction fs w rule: AddFunctions.induct) (auto intro: symbols_ok_AddFunction split: option.splits)

lemma symbols_ok_AddExtern: "symbols_ok w \<Longrightarrow> symbols_ok (AddExtern e w)"
  using map_insert_subset [of "ext_address e" e "sm_externs w"]
  by (auto simp: AddExtern_def symbols_ok_def map_ok_insert)

lemma symbols_ok_FindFile: "symbols_ok w \<Longrightarrow> symbols_ok (snd (FindFile name w))"
  by (auto simp: FindFile_def symbols_ok_def Let_def map_ok_insert)

lemma symbols_ok_rest:
  "symbols_ok w \<Longrightarrow> symbols_ok (SetLoadAddress a w)" "symbols_ok w \<Longrightarrow> symbols_ok (AddStackFrameEntry e w)"
  by (auto simp: SetLoadAddress_def AddStackFrameEntry_def symbols_ok_def)

definition functions_of :: "SymbolModule \<Rightarrow> SourceFunction list" where
  "functions_of w = map snd (sm_functions w)"

definition externs_of :: "SymbolModule \<Rightarrow> Extern list" where
  "externs_of w = map snd (sm_externs w)"

text \<open>Places relative to the load address\<close>

definition sf_place :: "u64 \<Rightarrow> SourceFunction \<Rightarrow> u64 \<times> u64" where
  "sf_place load f = (sf_address f - load, sf_size f)"

definition sl_place :: "u64 \<Rightarrow> SourceLine \<Rightarrow> u64 \<times> u64" where
  "sl_place load l = (sl_address l - load, sl_size l)"

text \<open>
  What a module must satisfy so that its symbol file says all of it: texts without line breaks, numbers
  below the limits of the loader, files that the module knows, and functions and lines that do not
  overlap
\<close>

definition source_line_ok :: "SymbolModule \<Rightarrow> SourceLine \<Rightarrow> bool" where
  "source_line_ok w l \<longleftrightarrow> sl_address l - sm_load_address w \<noteq> - 1 \<and> sl_size l \<noteq> - 1
     \<and> 0 \<le> sl_number l \<and> sl_number l < 2 ^ 31 \<and> sl_file l \<in> fst ` set (sm_files w)"

definition dumpable :: "SymbolModule \<Rightarrow> bool" where
  "dumpable w \<longleftrightarrow> symbols_ok w
     \<and> (\<forall>t\<in>{sm_os w, sm_architecture w, sm_id w, sm_name w, sm_code_id w}. set t \<inter> line_breaks = {})
     \<and> length (sm_files w) < 2 ^ 31 \<and> (\<forall>p\<in>set (sm_files w). word_in line_breaks (fst p))
     \<and> storable (sf_place (sm_load_address w)) (functions_of w)
     \<and> (\<forall>f\<in>set (functions_of w). func_fits (sm_load_address w) f
          \<and> storable (sl_place (sm_load_address w)) (sf_lines f) \<and> (\<forall>l\<in>set (sf_lines f). source_line_ok w l))
     \<and> (\<forall>e\<in>set (externs_of w). word_in line_breaks (ext_name e) \<and> ext_address e - sm_load_address w \<noteq> - 1)
     \<and> (\<forall>e\<in>set (sm_entries w). entry_ok e)"

lemma source_id_assigned:
  assumes "dumpable w" "f \<in> set (functions_of w)" "l \<in> set (sf_lines f)"
  shows "0 \<le> source_id (sm_files (AssignSourceIds w)) (sl_file l)"
    and "source_id (sm_files (AssignSourceIds w)) (sl_file l) < 2 ^ 31"
    and "(sl_file l, source_id (sm_files (AssignSourceIds w)) (sl_file l)) \<in> set (sm_files (AssignSourceIds w))"
proof -
  let ?fs = "sm_files (AssignSourceIds w)"
  have w: "map_ok (sm_files w)" "length (sm_files w) < 2 ^ 31" "sl_file l \<in> fst ` set (sm_files w)"
    "f \<in> snd ` set (sm_functions w)"
    using assms by (auto simp: dumpable_def symbols_ok_def source_line_ok_def functions_of_def)
  obtain i where i: "0 \<le> i" "(sl_file l, i) \<in> set ?fs"
    using AssignSourceIds_ids(4) [OF w(4) assms(3) w(3)] by blast
  have "distinct (map fst ?fs)" using AssignSourceIds_ids(1) [of w] map_ok_distinct [OF w(1)] by simp
  then have "source_id ?fs (sl_file l) = i" using i(2) by (simp add: source_id_def)
  then show "0 \<le> source_id ?fs (sl_file l)" "source_id ?fs (sl_file l) < 2 ^ 31"
    "(sl_file l, source_id ?fs (sl_file l)) \<in> set ?fs"
    using i AssignSourceIds_ids(2) [of w] w(2) by force+
qed

lemma spaced_neq: "spaced ws rest = [] \<longleftrightarrow> ws = [] \<and> rest = []"
  by (cases ws) simp_all

lemma module_lines_nonempty: "unlines (module_lines sd w) \<noteq> []" "last (unlines (module_lines sd w)) = CHR 0x0A"
proof -
  have "ls \<noteq> [] \<Longrightarrow> unlines ls \<noteq> [] \<and> last (unlines ls) = CHR 0x0A" for ls
    by (induction ls rule: rev_induct) simp_all
  moreover have "module_lines sd w \<noteq> []" by (simp add: module_lines_def header_lines_def)
  ultimately show "unlines (module_lines sd w) \<noteq> []" "last (unlines (module_lines sd w)) = CHR 0x0A" by blast+
qed

lemma reads_all_words: "reads_all ls s s' \<Longrightarrow> NUL \<notin> set (unlines ls)"
  by (induction ls s s' rule: reads_all.induct) (auto simp: word_in_def line_breaks_def)

lemma LoadMapFromMemory_lines:
  assumes "reads_all ls (None, m) (cur, m')" "ls \<noteq> []"
  shows "LoadMapFromMemory (unlines ls @ [NUL]) m = Done (True, m'\<lparr>is_corrupt := False\<rparr>)"
proof -
  let ?t = "unlines ls"
  have no: "NUL \<notin> set ?t" by (rule reads_all_words [OF assms(1)])
  have "?t \<noteq> []" using assms(2) by (cases ls) simp_all
  then have "dropWhile (\<lambda>c. c = NUL) (rev (?t @ [NUL])) = rev ?t"
    using no by (cases "rev ?t") (auto simp flip: set_rev [of ?t])
  moreover have "map (\<lambda>c. if c = NUL then CHR ''_'' else c) ?t = ?t" using no by (intro map_idI) auto
  moreover have "load_lines ?t None None 0 m = Done (0, m')"
    using load_lines_unlines [OF assms(1), of 0] by simp
  ultimately show ?thesis using no by (simp add: LoadMapFromMemory_def)
qed

lemma storable_nth:
  assumes "storable place es" "\<And>i. i < length es \<Longrightarrow> place' i = place (es ! i)"
  shows "storable place' [0..<length es]"
  using assms by (auto simp: storable_def sorted_wrt_iff_nth_less apart_def)

text \<open>What the loader makes of the file of a module\<close>

lemma dumped_loads:
  fixes w defines "load \<equiv> sm_load_address w" and "ids \<equiv> sm_files (AssignSourceIds w)"
  assumes "dumpable w" "sd \<noteq> ONLY_CFI"
  shows "\<exists>m. LoadMapFromMemory (unlines (module_lines sd w) @ [NUL]) new_Module = Done (True, m)
    \<and> \<not> is_corrupt m \<and> module_ok m
    \<and> module_functions m = loaded_function load ids ` set (functions_of w)
    \<and> set (public_symbols m)
        = (\<lambda>e. (ext_address e - load, loaded_symbol load e)) ` {e \<in> set (externs_of w). ext_address e \<noteq> load}
    \<and> set (file_map m) = {(i, n). (n, i) \<in> set ids \<and> 0 \<le> i}"
proof -
  have w: "symbols_ok w" "storable (sf_place load) (functions_of w)"
    "\<forall>f\<in>set (functions_of w). func_fits load f \<and> (\<forall>l\<in>set (sf_lines f). line_fits load ids l)"
    using assms(3) source_id_assigned [OF assms(3)]
    by (auto simp: dumpable_def load_def ids_def source_line_ok_def line_fits_def)
  have header: "reads_all (header_lines w) (None, new_Module) (None, new_Module)"
    using header_read header_word [of w] header_reads [of _ w] assms(3) by (auto simp: dumpable_def intro!: header_read)
  have ids: "\<forall>p\<in>set ids. word_in line_breaks (fst p) \<and> snd p < 2 ^ 31"
  proof
    fix p assume p: "p \<in> set ids"
    then have "fst p \<in> fst ` set (sm_files w)" using AssignSourceIds_ids(1) [of w] ids_def by (metis image_eqI set_map)
    moreover have "snd p \<ge> 0 \<longrightarrow> snd p < int (length (sm_files w))"
      using AssignSourceIds_ids(2) [of w] p by (simp add: ids_def)
    moreover have "int (length (sm_files w)) < 2 ^ 31" using assms(3) by (simp add: dumpable_def)
    ultimately show "word_in line_breaks (fst p) \<and> snd p < 2 ^ 31"
      using assms(3) by (auto simp: dumpable_def)
  qed
  obtain fm where fm: "module_ok (new_Module\<lparr>file_map := fm\<rparr>)"
    "reads_all (file_lines ids) (None, new_Module) (None, new_Module\<lparr>file_map := fm\<rparr>)"
    "set fm = {(i, n). (n, i) \<in> set ids \<and> 0 \<le> i}"
    using files_read [OF new_Module_ok ids, of None] AssignSourceIds_ids(3) [of w]
    by (auto simp: ids_def new_Module_def)
  let ?fs = "map (loaded_function load ids) (functions_of w)"
  let ?m1 = "new_Module\<lparr>file_map := fm\<rparr>"
  obtain cur2 fns where fns:
    "module_ok (?m1\<lparr>function_map := fns, func_store := ?fs\<rparr>)"
    "reads_all (concat (map (func_lines_text load ids) (functions_of w))) (None, ?m1)
      (cur2, ?m1\<lparr>function_map := fns, func_store := ?fs\<rparr>)"
    "fns = fold (store_at (\<lambda>i. func_extent (?fs ! i))) [0..<length ?fs] new_RangeMap"
    using functions_read [OF fm(1) w(3), of None] by (auto simp: new_Module_def Let_def)
  let ?m2 = "?m1\<lparr>function_map := fns, func_store := ?fs\<rparr>"
  have externs: "\<forall>e\<in>set (externs_of w). word_in line_breaks (ext_name e) \<and> ext_address e - load \<noteq> - 1"
    using assms(3) by (simp add: dumpable_def load_def)
  have "map ext_address (externs_of w) = map fst (sm_externs w)"
    using w(1) by (auto simp: externs_of_def symbols_ok_def)
  then have "distinct (map ext_address (externs_of w))" using w(1) map_ok_distinct [of "sm_externs w"]
    by (simp add: symbols_ok_def)
  then obtain cur3 ps where ps: "module_ok (?m2\<lparr>public_symbols := ps\<rparr>)"
    "reads_all (map (extern_line load) (externs_of w)) (cur2, ?m2) (cur3, ?m2\<lparr>public_symbols := ps\<rparr>)"
    "set ps = (\<lambda>e. (ext_address e - load, loaded_symbol load e)) ` {e \<in> set (externs_of w). ext_address e \<noteq> load}"
    using externs_read [OF fns(1) externs, of cur2] by (auto simp: new_Module_def)
  let ?m3 = "?m2\<lparr>public_symbols := ps\<rparr>"
  have "symbol_lines (AssignSourceIds w) = file_lines ids
      @ concat (map (func_lines_text load ids) (functions_of w)) @ map (extern_line load) (externs_of w)"
    by (simp add: symbol_lines_def ids_def load_def functions_of_def externs_of_def AssignSourceIds_def Let_def)
  then have symbols: "reads_all (header_lines w @ symbol_lines (AssignSourceIds w)) (None, new_Module) (cur3, ?m3)"
    using reads_all_append [OF header reads_all_append [OF fm(2) reads_all_append [OF fns(2) ps(2)]]] by simp
  have funcs: "module_functions ?m3 = loaded_function load ids ` set (functions_of w)"
  proof -
    have "storable (\<lambda>i. func_extent (?fs ! i)) [0..<length (functions_of w)]"
      by (rule storable_nth [OF w(2)])
        (simp add: loaded_function_def empty_function_def func_extent_def sf_place_def)
    then have "stored fns = {0..<length (functions_of w)}"
      using stored_fold [OF placed_new, of "\<lambda>i. func_extent (?fs ! i)" "[0..<length (functions_of w)]"] fns(3) by simp
    then have "module_functions ?m3 = (!) ?fs ` {0..<length ?fs}" by (simp add: module_functions_def)
    also have "\<dots> = set ?fs" using nth_image [of "length ?fs" ?fs] by simp
    finally show ?thesis by simp
  qed
  let ?ok = "\<lambda>m. \<not> is_corrupt m \<and> module_ok m
    \<and> module_functions m = loaded_function load ids ` set (functions_of w)
    \<and> set (public_symbols m)
        = (\<lambda>e. (ext_address e - load, loaded_symbol load e)) ` {e \<in> set (externs_of w). ext_address e \<noteq> load}
    \<and> set (file_map m) = {(i, n). (n, i) \<in> set ids \<and> 0 \<le> i}"
  show ?thesis
  proof (cases "sd = NO_CFI")
    case True
    then have "module_lines sd w = header_lines w @ symbol_lines (AssignSourceIds w)"
      by (simp add: module_lines_def)
    then have "LoadMapFromMemory (unlines (module_lines sd w) @ [NUL]) new_Module
        = Done (True, ?m3\<lparr>is_corrupt := False\<rparr>)"
      using LoadMapFromMemory_lines [OF symbols] by (simp add: header_lines_def)
    moreover have "?ok (?m3\<lparr>is_corrupt := False\<rparr>)"
      using ps(1,3) funcs fm(3) by (simp add: module_ok_def module_functions_def)
    ultimately show ?thesis by blast
  next
    case False
    obtain s where s: "module_ok (?m3\<lparr>cfi_initial_rules := s, cfi_delta_rules :=
        fold (add_change load) (concat (map rule_changes (sm_entries w))) (cfi_delta_rules ?m3)\<rparr>)"
      "reads_all (concat (map (entry_lines load) (sm_entries w))) (cur3, ?m3) (cur3, ?m3\<lparr>cfi_initial_rules := s,
        cfi_delta_rules := fold (add_change load) (concat (map rule_changes (sm_entries w))) (cfi_delta_rules ?m3)\<rparr>)"
      using entries_read [OF ps(1), of "sm_entries w" load cur3] assms(3) by (auto simp: Let_def dumpable_def)
    let ?m4 = "?m3\<lparr>cfi_initial_rules := s, cfi_delta_rules :=
        fold (add_change load) (concat (map rule_changes (sm_entries w))) (cfi_delta_rules ?m3)\<rparr>"
    have "module_lines sd w
        = (header_lines w @ symbol_lines (AssignSourceIds w)) @ concat (map (entry_lines load) (sm_entries w))"
      using False assms(4) by (simp add: module_lines_def cfi_lines_def load_def)
    then have "LoadMapFromMemory (unlines (module_lines sd w) @ [NUL]) new_Module
        = Done (True, ?m4\<lparr>is_corrupt := False\<rparr>)"
      using LoadMapFromMemory_lines [OF reads_all_append [OF symbols s(2)]] by (simp add: header_lines_def)
    moreover have "?ok (?m4\<lparr>is_corrupt := False\<rparr>)"
      using s(1) ps(3) funcs fm(3) by (simp add: module_ok_def module_functions_def)
    ultimately show ?thesis by blast
  qed
qed

section \<open>From the dumper to the processor\<close>

lemma placed_line_fold: "placed line_place (fold (store_at line_place) ls new_RangeMap)"
  by (rule placed_fold) simp

lemma loaded_lines:
  assumes "storable (sl_place load) (sf_lines f)"
  shows "stored (func_lines (loaded_function load ids f)) = loaded_line load ids ` set (sf_lines f)"
proof -
  have "storable line_place (map (loaded_line load ids) (sf_lines f))"
    using assms by (simp add: storable_def sorted_wrt_map loaded_line_def line_place_def sl_place_def [abs_def] apart_def [abs_def])
  from stored_fold [OF placed_new this] show ?thesis by (simp add: loaded_function_def)
qed

lemma loaded_extents [simp]:
  "func_extent (loaded_function load ids f) = sf_place load f"
  "func_address (loaded_function load ids f) = sf_address f - load"
  "line_place (loaded_line load ids l) = sl_place load l"
  "symbol_address (loaded_symbol load e) = ext_address e - load"
  by (simp_all add: func_extent_def loaded_function_def empty_function_def sf_place_def line_place_def
      loaded_line_def sl_place_def loaded_symbol_def)

text \<open>The extern that an address without function is attributed to\<close>

definition extern_for :: "SymbolModule \<Rightarrow> u64 \<Rightarrow> Extern \<Rightarrow> bool" where
  "extern_for w a e \<longleftrightarrow>
     (let load = sm_load_address w; es = {e \<in> set (externs_of w). ext_address e \<noteq> load} in
      e \<in> es \<and> ext_address e - load \<le> a
      \<and> (\<forall>e'\<in>es. ext_address e' - load \<le> a \<longrightarrow> ext_address e' - load \<le> ext_address e - load)
      \<and> (\<forall>f\<in>set (functions_of w). sf_address f - load \<le> a \<longrightarrow> sf_address f - load < ext_address e - load))"

lemma extern_for_symbol:
  fixes w defines "load \<equiv> sm_load_address w"
  assumes "module_functions m = loaded_function load ids ` set (functions_of w)"
    and "set (public_symbols m)
      = (\<lambda>e. (ext_address e - load, loaded_symbol load e)) ` {e \<in> set (externs_of w). ext_address e \<noteq> load}"
    and "extern_for w a e"
  shows "symbol_for m a (loaded_symbol load e)"
  using assms(4) unfolding symbol_for_def last_symbol_def assms(2,3) extern_for_def Let_def
  by (auto simp: load_def [symmetric])

text \<open>
  C9. End to end: \<open>Write\<close> writes the symbols of a module into a file that the processor loads without
  error, and for an address in the module the processor then says what the dumper knew: the name of the
  function that holds the address, the file and number of the line that holds it, and the name of the
  last public symbol before it if no function does.  Required are names without line breaks, numbers
  below the limits of the loader, and functions and lines that do not overlap (\<open>dumpable\<close>).
\<close>
theorem dumped_symbols_resolve:
  fixes w defines "load \<equiv> sm_load_address w"
  assumes "dumpable w" "sd \<noteq> ONLY_CFI"
  shows "\<exists>text m. Write string_stream sd w [] = (True, AssignSourceIds w, text)
    \<and> LoadMapFromMemory (text @ [NUL]) new_Module = Done (True, m) \<and> \<not> is_corrupt m
    \<and> (\<forall>f\<in>set (functions_of w). inside (instruction frame - base) (sf_place load f) \<longrightarrow>
        (\<forall>l\<in>set (sf_lines f). inside (instruction frame - base) (sl_place load l) \<longrightarrow>
          LookupAddress base m frame = frame\<lparr>function_name := sf_name f, function_base := base + (sf_address f - load),
            source_file_name := sl_file l, source_line := sl_number l, source_line_base := base + (sl_address l - load)\<rparr>)
        \<and> (\<not> (\<exists>l\<in>set (sf_lines f). inside (instruction frame - base) (sl_place load l)) \<longrightarrow>
          LookupAddress base m frame = frame\<lparr>function_name := sf_name f, function_base := base + (sf_address f - load)\<rparr>))
    \<and> (\<not> (\<exists>f\<in>set (functions_of w). inside (instruction frame - base) (sf_place load f)) \<longrightarrow>
        (\<forall>e. extern_for w (instruction frame - base) e \<longrightarrow>
          LookupAddress base m frame = frame\<lparr>function_name := ext_name e, function_base := base + (ext_address e - load)\<rparr>))"
proof -
  let ?ids = "sm_files (AssignSourceIds w)" and ?a = "instruction frame - base"
  obtain m where m: "LoadMapFromMemory (unlines (module_lines sd w) @ [NUL]) new_Module = Done (True, m)"
    "\<not> is_corrupt m" "module_ok m" "module_functions m = loaded_function load ?ids ` set (functions_of w)"
    "set (public_symbols m)
      = (\<lambda>e. (ext_address e - load, loaded_symbol load e)) ` {e \<in> set (externs_of w). ext_address e \<noteq> load}"
    "set (file_map m) = {(i, n). (n, i) \<in> set ?ids \<and> 0 \<le> i}"
    using dumped_loads [OF assms(2,3)] unfolding load_def by blast
  note lookup = lookup_spec [OF m(3), of frame base, unfolded Let_def m(4)]
  have f: "storable (sl_place load) (sf_lines f)" if "f \<in> set (functions_of w)" for f
    using assms(2) that by (simp add: dumpable_def load_def)
  have cited: "map_of (file_map m) (source_id ?ids (sl_file l)) = Some (sl_file l)"
    if "f \<in> set (functions_of w)" "l \<in> set (sf_lines f)" for f l
  proof -
    have "(source_id ?ids (sl_file l), sl_file l) \<in> set (file_map m)"
      using source_id_assigned [OF assms(2) that] m(6) by simp
    moreover have "distinct (map fst (file_map m))" using m(3) map_ok_distinct by (auto simp: module_ok_def)
    ultimately show ?thesis by simp
  qed
  have line: "LookupAddress base m frame = frame\<lparr>function_name := sf_name f, function_base := base + (sf_address f - load),
      source_file_name := sl_file l, source_line := sl_number l, source_line_base := base + (sl_address l - load)\<rparr>"
    if "f \<in> set (functions_of w)" "inside ?a (sf_place load f)" "l \<in> set (sf_lines f)" "inside ?a (sl_place load l)" for f l
  proof -
    have "LookupAddress base m frame
        = with_line base m (loaded_line load ?ids l) (in_function base (loaded_function load ?ids f) frame)"
      using lookup that loaded_lines [OF f [OF that(1)], of ?ids] by auto
    then show ?thesis
      using cited [OF that(1,3)]
      by (simp add: with_line_def in_function_def loaded_line_def loaded_function_def empty_function_def)
  qed
  have no_line: "LookupAddress base m frame = frame\<lparr>function_name := sf_name f, function_base := base + (sf_address f - load)\<rparr>"
    if "f \<in> set (functions_of w)" "inside ?a (sf_place load f)" "\<not> (\<exists>l\<in>set (sf_lines f). inside ?a (sl_place load l))" for f
  proof -
    have "LookupAddress base m frame = in_function base (loaded_function load ?ids f) frame"
      using lookup that loaded_lines [OF f [OF that(1)], of ?ids] by auto
    then show ?thesis by (simp add: in_function_def loaded_function_def empty_function_def)
  qed
  have symbol: "LookupAddress base m frame = frame\<lparr>function_name := ext_name e, function_base := base + (ext_address e - load)\<rparr>"
    if "\<not> (\<exists>f\<in>set (functions_of w). inside ?a (sf_place load f))" "extern_for w ?a e" for e
  proof -
    have "LookupAddress base m frame = at_symbol base (loaded_symbol load e) frame"
      using lookup that(1) extern_for_symbol [OF m(4,5) [unfolded load_def] that(2)] by (auto simp: load_def)
    then show ?thesis by (simp add: at_symbol_def loaded_symbol_def)
  qed
  have "Write string_stream sd w [] = (True, AssignSourceIds w, unlines (module_lines sd w))"
    using assms(3) by (simp add: Write_string)
  then show ?thesis using m(1,2) line no_line symbol by blast
qed

section \<open>An example\<close>

lemma apart_before:
  "extent_ok (place e) \<Longrightarrow> extent_ok (place e') \<Longrightarrow> fst (place e) + (snd (place e) - 1) < fst (place e')
    \<Longrightarrow> apart place e e'"
  unfolding apart_def by (auto simp: inside_extent dest: order.strict_trans2 order.trans)

definition sample_source :: SymbolModule where
  "sample_source =
     (let w = new_SymbolModule ''a'' ''Linux'' ''x86_64'' ''0'' '''';
          w = SetLoadAddress 0x10000 w;
          (file, w) = FindFile ''a.c'' w;
          w = the (AddFunction \<lparr>sf_name = ''main'', sf_address = 0x11000, sf_size = 0x40, sf_parameter_size = 8,
            sf_lines = [\<lparr>sl_address = 0x11000, sl_size = 8, sl_file = file, sl_number = 12\<rparr>]\<rparr> w);
          w = the (AddFunction \<lparr>sf_name = ''exit'', sf_address = 0x11040, sf_size = 0x20, sf_parameter_size = 0,
            sf_lines = []\<rparr> w) in
      AddExtern \<lparr>ext_address = 0x12000, ext_name = ''end''\<rparr> w)"

lemma sample_source_fields:
  "sm_load_address sample_source = 0x10000" "sm_files sample_source = [(''a.c'', - 1)]"
  "functions_of sample_source = [
     \<lparr>sf_name = ''main'', sf_address = 0x11000, sf_size = 0x40, sf_parameter_size = 8,
      sf_lines = [\<lparr>sl_address = 0x11000, sl_size = 8, sl_file = ''a.c'', sl_number = 12\<rparr>]\<rparr>,
     \<lparr>sf_name = ''exit'', sf_address = 0x11040, sf_size = 0x20, sf_parameter_size = 0, sf_lines = []\<rparr>]"
  "externs_of sample_source = [\<lparr>ext_address = 0x12000, ext_name = ''end''\<rparr>]" "sm_entries sample_source = []"
  by code_simp+

lemma sample_source_ok: "symbols_ok sample_source"
  by code_simp

lemma sample_dumpable: "dumpable sample_source"
proof -
  have texts: "\<forall>t\<in>{sm_os sample_source, sm_architecture sample_source, sm_id sample_source, sm_name sample_source,
      sm_code_id sample_source}. set t \<inter> line_breaks = {}"
    by code_simp
  have words: "word_in line_breaks ''a.c''" "word_in line_breaks ''main''" "word_in line_breaks ''exit''"
    "word_in line_breaks ''end''"
    by (simp_all add: word_in_def line_breaks_def eols_def)
  have funcs: "storable (sf_place 0x10000) (functions_of sample_source)"
    unfolding storable_def sample_source_fields
    by (auto simp: extent_ok_def sf_place_def intro!: apart_before)
  show ?thesis
    unfolding dumpable_def
    using sample_source_ok texts words funcs
    by (simp add: sample_source_fields func_fits_def storable_def extent_ok_def sl_place_def source_line_ok_def)
qed

theorem dumped_symbols_resolve_witness:
  "\<exists>text m. Write string_stream ALL_SYMBOL_DATA sample_source [] = (True, AssignSourceIds sample_source, text)
    \<and> LoadMapFromMemory (text @ [NUL]) new_Module = Done (True, m)
    \<and> LookupAddress 0x400000 m (frame_at 0x401004)
      = \<lparr>instruction = 0x401004, function_name = ''main'', function_base = 0x401000,
         source_file_name = ''a.c'', source_line = 12, source_line_base = 0x401000\<rparr>"
proof -
  have i: "inside (instruction (frame_at 0x401004) - 0x400000) (sf_place 0x10000 (hd (functions_of sample_source)))"
    "inside (instruction (frame_at 0x401004) - 0x400000)
      (sl_place 0x10000 (hd (sf_lines (hd (functions_of sample_source)))))"
    by (simp_all add: sample_source_fields frame_at_def inside_def sf_place_def sl_place_def)
  show ?thesis
    using dumped_symbols_resolve [OF sample_dumpable, of ALL_SYMBOL_DATA "frame_at 0x401004" "0x400000"] i
    by (auto simp: sample_source_fields frame_at_def)
qed

end
