(* ===== verification/Line_Info.thy ===== *)
theory Line_Info
  imports Byte_Reader
begin

text \<open>
  The line number part of \<open>src/app/breakpad/src/common/dwarf/dwarf2reader.cc\<close>, with the structures of
  \<open>dwarf2reader.h\<close> and \<open>line_state_machine.h\<close>: \<open>LineInfo\<close> reads the header of a unit of \<open>.debug_line\<close> and
  runs its program of byte codes, and calls a handler for each directory, file and line.

  \<^item> The buffer is the list \<open>mem\<close> of bytes at the address \<open>base\<close>.  The header is read with indices into
    it; the program moves its pointer by lengths it reads from the file, so it has an address, a 64-bit
    word that wraps around.
  \<^item> A handler only listens, so what it is told is a list of events.
  \<^item> What stops the reader is a value of \<open>line_fault\<close>: a read that is stopped, or a division by zero.
    A program that runs forever is \<open>None\<close>.
\<close>

datatype line_fault = ReadStops fault | DivisionByZero

type_synonym 'a line_result = "line_fault + 'a"

definition read_then :: "'a read_result \<Rightarrow> ('a \<Rightarrow> 'b line_result) \<Rightarrow> 'b line_result" where
  "read_then r k = (case r of Inl e \<Rightarrow> Inl (ReadStops e) | Inr x \<Rightarrow> k x)"

lemma line_result_simps [simp]:
  "read_then (Inl f) g = Inl (ReadStops f)" "read_then (Inr y) g = g y"
  by (simp_all add: read_then_def)

section \<open>The state\<close>

record LineInfoHeader =
  total_length :: u64
  version :: u16
  prologue_length :: u64
  min_insn_length :: byte
  default_is_stmt :: bool
  line_base :: byte
  line_range :: byte
  opcode_base :: byte
  std_opcode_lengths :: "byte list option"

record LineStateMachine =
  file_num :: u32
  address :: u64
  line_num :: u32
  column_num :: u32
  is_stmt :: bool
  basic_block :: bool
  end_sequence :: bool

definition LSM_Reset :: "bool \<Rightarrow> LineStateMachine" where
  "LSM_Reset default_stmt = \<lparr>file_num = 1, address = 0, line_num = 1, column_num = 0, is_stmt = default_stmt,
     basic_block = False, end_sequence = False\<rparr>"

datatype line_event =
    DefineDir "byte list" u32
  | DefineFile "byte list" u32 u32 u64 u64
  | AddLine u64 u64 u32 u32 u32

section \<open>The header\<close>

text \<open>The characters of a C string at an index\<close>

definition c_string :: "byte list \<Rightarrow> nat \<Rightarrow> byte list read_result" where
  "c_string mem p =
     (if 0 \<in> set (drop p mem) then Inr (takeWhile (\<lambda>c. c \<noteq> 0) (drop p mem)) else Inl OutOfMemory)"

function read_lengths :: "byte list \<Rightarrow> nat \<Rightarrow> nat \<Rightarrow> nat \<Rightarrow> (byte list \<times> nat) read_result" where
  "read_lengths mem i limit p =
     (if i < limit then
        then_read (ReadOneByte mem p) (\<lambda>n.
        then_read (read_lengths mem (i + 1) limit (p + 1)) (\<lambda>(ns, p). Inr (n # ns, p)))
      else Inr ([], p))"
  by auto
termination by (relation "measure (\<lambda>(_, i, b, _). b - i)") auto

function read_dirs :: "byte list \<Rightarrow> nat \<Rightarrow> u32 \<Rightarrow> (line_event list \<times> nat) read_result" where
  "read_dirs mem p dirindex =
     (if p < length mem then
        if mem ! p \<noteq> 0 then
          case c_string mem p of
            Inl e \<Rightarrow> Inl e
          | Inr dirname \<Rightarrow>
              then_read (read_dirs mem (p + length dirname + 1) (dirindex + 1)) (\<lambda>(evs, p).
              Inr (DefineDir dirname dirindex # evs, p))
        else Inr ([], p)
      else Inl OutOfMemory)"
  by auto
termination by (relation "measure (\<lambda>(mem, p, _). length mem - p)") auto

text \<open>Name and fields of a file entry, and what is behind it\<close>

definition read_file :: "byte list \<Rightarrow> nat \<Rightarrow> (byte list \<times> u64 \<times> u64 \<times> u64 \<times> nat) read_result" where
  "read_file mem p =
     then_read (c_string mem p) (\<lambda>filename.
     let p = p + length filename + 1 in
     then_read (ReadUnsignedLEB128 mem p) (\<lambda>(dirindex, len).
     let p = p + len in
     then_read (ReadUnsignedLEB128 mem p) (\<lambda>(mod_time, len).
     let p = p + len in
     then_read (ReadUnsignedLEB128 mem p) (\<lambda>(filelength, len).
     Inr (filename, dirindex, mod_time, filelength, p + len)))))"

lemma read_file_further: "read_file mem p = Inr (name, d, t, l, q) \<Longrightarrow> p < q"
  by (auto simp: read_file_def then_read_def split: sum.splits)

function read_files :: "byte list \<Rightarrow> nat \<Rightarrow> u32 \<Rightarrow> (line_event list \<times> nat) read_result" where
  "read_files mem p fileindex =
     (if p < length mem then
        if mem ! p \<noteq> 0 then
          case read_file mem p of
            Inl e \<Rightarrow> Inl e
          | Inr (filename, dirindex, mod_time, filelength, p) \<Rightarrow>
              then_read (read_files mem p (fileindex + 1)) (\<lambda>(evs, p).
              Inr (DefineFile filename fileindex (ucast dirindex) mod_time filelength # evs, p))
        else Inr ([], p)
      else Inl OutOfMemory)"
  by auto
termination
  by (relation "measure (\<lambda>(mem, p, _). length mem - p)") (auto dest!: read_file_further)

declare read_lengths.simps [simp del] read_dirs.simps [simp del] read_files.simps [simp del]

text \<open>
  The header, the index behind it, the events and the reader with the offset size set.  The first
  assertion compares addresses.
\<close>

definition ReadHeader ::
  "u64 \<Rightarrow> byte list \<Rightarrow> u64 \<Rightarrow> ByteReader \<Rightarrow> (LineInfoHeader \<times> nat \<times> line_event list \<times> ByteReader) read_result"
where
  "ReadHeader base mem buffer_length R =
     then_read (ReadInitialLength mem 0 R) (\<lambda>(initial_length, initial_length_size, R).
     let p = initial_length_size in
     assert_read (base + of_nat initial_length_size + initial_length \<le> base + buffer_length)
     (assert_read (address_size R \<noteq> 0)
     (then_read (ReadTwoBytes R mem p) (\<lambda>version'.
      let p = p + 2 in
      then_read (ReadOffset R mem p) (\<lambda>prologue.
      let p = p + unat (offset_size R) in
      then_read (ReadOneByte mem p) (\<lambda>min_insn.
      then_read (ReadOneByte mem (p + 1)) (\<lambda>is_stmt'.
      then_read (ReadOneByte mem (p + 2)) (\<lambda>line_base'.
      then_read (ReadOneByte mem (p + 3)) (\<lambda>line_range'.
      then_read (ReadOneByte mem (p + 4)) (\<lambda>opcode_base'.
      then_read (read_lengths mem 1 (unat opcode_base') (p + 5)) (\<lambda>(ns, p).
      then_read (read_dirs mem p 1) (\<lambda>(dirs, p).
      then_read (read_files mem (p + 1) 1) (\<lambda>(fs, p).
      Inr (\<lparr>total_length = initial_length, version = version', prologue_length = prologue,
             min_insn_length = min_insn, default_is_stmt = (is_stmt' \<noteq> 0), line_base = line_base',
             line_range = line_range', opcode_base = opcode_base',
             std_opcode_lengths = Some (take (unat opcode_base' + 1) (0 # ns @ [0]))\<rparr>,
           p + 1, dirs @ fs, R))))))))))))))"

section \<open>The program\<close>

definition index_of :: "u64 \<Rightarrow> u64 \<Rightarrow> nat" where
  "index_of base p = unat (p - base)"

text \<open>The operands of an unknown opcode: the length of them all\<close>

fun skip_operands :: "u64 \<Rightarrow> byte list \<Rightarrow> u64 \<Rightarrow> nat \<Rightarrow> u64 read_result" where
  "skip_operands base mem start 0 = Inr 0"
| "skip_operands base mem start (Suc n) =
     then_read (ReadUnsignedLEB128 mem (index_of base start)) (\<lambda>(_, templen).
     then_read (skip_operands base mem (start + of_nat templen) n) (\<lambda>len. Inr (of_nat templen + len)))"

text \<open>\<open>lsm_passes_pc\<close> is a null pointer (\<open>None\<close>) or points to a flag.\<close>

definition passes_to :: "u64 \<Rightarrow> u64 \<Rightarrow> u64 \<Rightarrow> bool option \<Rightarrow> bool option" where
  "passes_to old advance pc passes =
     map_option (\<lambda>b. if old \<le> pc \<and> pc < old + advance then True else b) passes"

text \<open>\<open>DW_LNE_define_file\<close>: the events and what is added to the length of the instruction\<close>

definition define_file ::
  "u64 \<Rightarrow> byte list \<Rightarrow> bool \<Rightarrow> u64 \<Rightarrow> (line_event list \<times> u64) read_result"
where
  "define_file base mem has_handler start =
     then_read (c_string mem (index_of base start)) (\<lambda>filename.
     let start = start + (of_nat (length filename) + 1) in
     then_read (ReadUnsignedLEB128 mem (index_of base start)) (\<lambda>(dirindex, len1).
     then_read (ReadUnsignedLEB128 mem (index_of base start)) (\<lambda>(mod_time, len2).
     then_read (ReadUnsignedLEB128 mem (index_of base start)) (\<lambda>(filelength, len3).
     Inr (if has_handler then [DefineFile filename (- 1) (ucast dirindex) mod_time filelength] else [],
          of_nat len1 + of_nat len2 + of_nat len3)))))"

text \<open>
  One instruction: whether it adds a row, the state machine, the length of the instruction,
  \<open>*lsm_passes_pc\<close> and the events
\<close>

definition ProcessOneOpcode ::
  "u64 \<Rightarrow> byte list \<Rightarrow> ByteReader \<Rightarrow> bool \<Rightarrow> LineInfoHeader \<Rightarrow> u64 \<Rightarrow> LineStateMachine \<Rightarrow> u64 \<Rightarrow> bool option
    \<Rightarrow> (bool \<times> LineStateMachine \<times> u64 \<times> bool option \<times> line_event list) line_result"
where
  "ProcessOneOpcode base mem R has_handler header start lsm pc passes =
     read_then (ReadOneByte mem (index_of base start)) (\<lambda>opcode.
     let start = start + 1 in
     if opcode \<ge> opcode_base header then
       if line_range header = 0 then Inl DivisionByZero
       else
         let opcode = opcode - opcode_base header;
             advance_address = of_nat (unat opcode div unat (line_range header) * unat (min_insn_length header));
             advance_line = of_int (int (unat opcode mod unat (line_range header)) + sint (line_base header)) in
         Inr (True, lsm\<lparr>address := address lsm + advance_address, line_num := line_num lsm + advance_line,
              basic_block := True\<rparr>, 1, passes_to (address lsm) advance_address pc passes, [])
     else if opcode = 1 then Inr (True, lsm\<lparr>basic_block := False\<rparr>, 1, passes, [])
     else if opcode = 2 then
       read_then (ReadUnsignedLEB128 mem (index_of base start)) (\<lambda>(advance_address, templen).
       let advance = ucast (min_insn_length header) * advance_address in
       Inr (False, lsm\<lparr>address := address lsm + advance\<rparr>, 1 + of_nat templen,
            passes_to (address lsm) advance pc passes, []))
     else if opcode = 3 then
       read_then (ReadSignedLEB128 mem (index_of base start)) (\<lambda>(advance_line, templen).
       Inr (False, lsm\<lparr>line_num := line_num lsm + ucast advance_line\<rparr>, 1 + of_nat templen,
            map_option (\<lambda>b. if address lsm = pc then True else b) passes, []))
     else if opcode = 4 then
       read_then (ReadUnsignedLEB128 mem (index_of base start)) (\<lambda>(fileno, templen).
       Inr (False, lsm\<lparr>file_num := ucast fileno\<rparr>, 1 + of_nat templen, passes, []))
     else if opcode = 5 then
       read_then (ReadUnsignedLEB128 mem (index_of base start)) (\<lambda>(colno, templen).
       Inr (False, lsm\<lparr>column_num := ucast colno\<rparr>, 1 + of_nat templen, passes, []))
     else if opcode = 6 then Inr (False, lsm\<lparr>is_stmt := \<not> is_stmt lsm\<rparr>, 1, passes, [])
     else if opcode = 7 then Inr (False, lsm\<lparr>basic_block := True\<rparr>, 1, passes, [])
     else if opcode = 9 then
       read_then (ReadTwoBytes R mem (index_of base start)) (\<lambda>advance_address.
       let advance = ucast advance_address in
       Inr (False, lsm\<lparr>address := address lsm + advance\<rparr>, 3, passes_to (address lsm) advance pc passes, []))
     else if opcode = 8 then
       if line_range header = 0 then Inl DivisionByZero
       else
         let advance = of_int (int (unat (min_insn_length header))
               * ((255 - int (unat (opcode_base header))) div int (unat (line_range header)))) in
         Inr (False, lsm\<lparr>address := address lsm + advance\<rparr>, 1, passes_to (address lsm) advance pc passes, [])
     else if opcode = 0 then
       read_then (ReadUnsignedLEB128 mem (index_of base start)) (\<lambda>(extended_op_len, templen).
       let start = start + of_nat templen;
           oplen = 1 + (of_nat templen + extended_op_len) in
       read_then (ReadOneByte mem (index_of base start)) (\<lambda>extended_op.
       let start = start + 1 in
       if extended_op = 1 then Inr (True, lsm\<lparr>end_sequence := True\<rparr>, oplen, passes, [])
       else if extended_op = 2 then
         read_then (ReadAddress R mem (index_of base start)) (\<lambda>a.
         Inr (False, lsm\<lparr>address := a\<rparr>, oplen, passes, []))
       else if extended_op = 3 then
         read_then (define_file base mem has_handler start) (\<lambda>(evs, len).
         Inr (False, lsm, oplen + len, passes, evs))
       else Inr (False, lsm, oplen, passes, [])))
     else
       case std_opcode_lengths header of
         None \<Rightarrow> Inr (False, lsm, 1, passes, [])
       | Some lengths \<Rightarrow>
           read_then (skip_operands base mem start (unat (lengths ! unat opcode))) (\<lambda>len.
           Inr (False, lsm, 1 + len, passes, [])))"

text \<open>The line that waits for the address of its successor\<close>

record pending_line =
  pending_address :: u64
  pending_file_num :: u32
  pending_line_num :: u32
  pending_column_num :: u32

text \<open>What \<open>ReadLines\<close> does after an instruction\<close>

definition add_row ::
  "bool \<Rightarrow> bool \<Rightarrow> LineStateMachine \<Rightarrow> pending_line option \<Rightarrow> LineStateMachine \<times> pending_line option \<times> line_event list"
where
  "add_row default_stmt row lsm pending =
     (if row then
        let evs = (case pending of None \<Rightarrow> []
              | Some q \<Rightarrow> [AddLine (pending_address q) (address lsm - pending_address q) (pending_file_num q)
                  (pending_line_num q) (pending_column_num q)]) in
        if end_sequence lsm then (LSM_Reset default_stmt, None, evs)
        else (lsm, Some \<lparr>pending_address = address lsm, pending_file_num = file_num lsm,
               pending_line_num = line_num lsm, pending_column_num = column_num lsm\<rparr>, evs)
      else (lsm, pending, []))"

partial_function (option) lines_loop ::
  "u64 \<Rightarrow> byte list \<Rightarrow> ByteReader \<Rightarrow> LineInfoHeader \<Rightarrow> u64 \<Rightarrow> u64 \<Rightarrow> LineStateMachine \<Rightarrow> pending_line option
    \<Rightarrow> line_event list \<Rightarrow> line_event list line_result option"
where
  "lines_loop base mem R header stop lineptr lsm pending evs =
     (if lineptr < stop then
        case ProcessOneOpcode base mem R True header lineptr lsm (- 1) None of
          Inl e \<Rightarrow> Some (Inl e)
        | Inr (row, lsm, oplength, _, evs1) \<Rightarrow>
            (case add_row (default_is_stmt header) row lsm pending of
               (lsm, pending, evs2) \<Rightarrow>
                 lines_loop base mem R header stop (lineptr + oplength) lsm pending (evs @ evs1 @ evs2))
      else Some (Inr evs))"

text \<open>\<open>Start\<close>: the value it returns and the events\<close>

definition LineInfo_Start ::
  "u64 \<Rightarrow> byte list \<Rightarrow> u64 \<Rightarrow> ByteReader \<Rightarrow> (u64 \<times> line_event list) line_result option"
where
  "LineInfo_Start base mem buffer_length R =
     (case ReadHeader base mem buffer_length R of
        Inl e \<Rightarrow> Some (Inl (ReadStops e))
      | Inr (header, after_header, evs, R) \<Rightarrow>
          let lengthstart = (if offset_size R = 8 then base + 12 else base + 4);
              stop = lengthstart + total_length header in
          (case lines_loop base mem R header stop (base + of_nat after_header) (LSM_Reset (default_is_stmt header))
              None evs of
             None \<Rightarrow> None
           | Some (Inl e) \<Rightarrow> Some (Inl e)
           | Some (Inr evs) \<Rightarrow> Some (Inr (stop - base, evs))))"

end
