(* ===== verification/Line_Programs.thy ===== *)
theory Line_Programs
  imports Line_Info "HOL-Library.Code_Target_Numeral"
begin

text \<open>
  What the line number reader of \<open>Line_Info\<close> makes of a unit that is written as DWARF 2 and 3 say: the
  unit as data, its bytes, the rows of its program, and the lines the rows are.  Not among these units are
  those that define a file in the program and those with the header of DWARF 4: the reader misreads both,
  as is shown at the end.
\<close>

section \<open>Bytes of numbers\<close>

primrec le_bytes :: "nat \<Rightarrow> nat \<Rightarrow> byte list" where
  "le_bytes 0 n = []"
| "le_bytes (Suc k) n = of_nat n # le_bytes k (n div 256)"

lemma length_le_bytes [simp]: "length (le_bytes k n) = k"
  by (induction k arbitrary: n) simp_all

lemma le_num_bytes: "n < 256 ^ k \<Longrightarrow> le_num (le_bytes k n) = n"
proof (induction k arbitrary: n)
  case (Suc k)
  have "n div 256 < 256 ^ k" using Suc.prems by (simp add: less_mult_imp_div_less mult.commute)
  then have "le_num (le_bytes k (n div 256)) = n div 256" by (rule Suc.IH)
  moreover have "unat (of_nat n :: byte) = n mod 256" by (simp add: unat_of_nat)
  ultimately show ?case by simp
qed simp

lemma byte_order_twice [simp]: "byte_order R (byte_order R bs) = bs"
  by (simp add: byte_order_def)

lemma length_byte_order [simp]: "length (byte_order R bs) = length bs"
  by (simp add: byte_order_def)

definition num_bytes :: "ByteReader \<Rightarrow> nat \<Rightarrow> nat \<Rightarrow> byte list" where
  "num_bytes R k n = byte_order R (le_bytes k n)"

lemma length_num_bytes [simp]: "length (num_bytes R k n) = k"
  by (simp add: num_bytes_def)

lemma num_bytes_at:
  assumes "at mem p (num_bytes R k n)" "n < 256 ^ k"
  shows "p + k \<le> length mem \<and> le_num (byte_order R (take k (drop p mem))) = n"
  using at_take [OF assms(1)] at_bound [OF assms(1)] assms(2)
  by (simp add: num_bytes_def le_num_bytes)

lemma unat_eq_of_nat: "unat (v :: 'a::len word) = n \<Longrightarrow> v = of_nat n"
  by auto

lemma read_num_bytes:
  "at mem p (num_bytes R 2 n) \<Longrightarrow> n < 256 ^ 2 \<Longrightarrow> ReadTwoBytes R mem p = Inr (of_nat n)"
  "at mem p (num_bytes R 4 n) \<Longrightarrow> n < 256 ^ 4 \<Longrightarrow> ReadFourBytes R mem p = Inr (of_nat n)"
  "at mem p (num_bytes R 8 n) \<Longrightarrow> n < 256 ^ 8 \<Longrightarrow> ReadEightBytes R mem p = Inr (of_nat n)"
  using ReadTwoBytes_num [of p mem R] ReadFourBytes_num [of p mem R] ReadEightBytes_num [of p mem R]
  by (auto dest!: num_bytes_at unat_eq_of_nat)

lemma read_one: "at mem p [b] \<Longrightarrow> ReadOneByte mem p = Inr b"
  using at_nth [of mem p "[b]" 0] at_bound [of mem p "[b]"]
  by (simp add: ReadOneByte_def fetch_def)

lemma read_nth: "at mem p bs \<Longrightarrow> k < length bs \<Longrightarrow> ReadOneByte mem (p + k) = Inr (bs ! k)"
  using at_nth [of mem p bs k] at_bound [of mem p bs] by (simp add: ReadOneByte_def fetch_def)

lemma read_uleb:
  "at mem p (uleb n) \<Longrightarrow> n < 2 ^ 64 \<Longrightarrow> ReadUnsignedLEB128 mem p = Inr (of_nat n, length (uleb n))"
  using uleb_read [of mem p n 0 0 0] by (auto simp: ReadUnsignedLEB128_def)

lemma read_sleb:
  "at mem p (sleb i) \<Longrightarrow> - (2 ^ 63) \<le> i \<Longrightarrow> i < 2 ^ 63 \<Longrightarrow>
    ReadSignedLEB128 mem p = Inr (of_int i, length (sleb i))"
  using sleb_read [of mem p i 0 0 0] by (auto simp: ReadSignedLEB128_def Let_def)

lemma read_address:
  assumes "reader_set R" "at mem p (num_bytes R (unat (address_size R)) n)" "n < 256 ^ unat (address_size R)"
  shows "ReadAddress R mem p = Inr (of_nat n)"
  using assms by (auto simp: reader_set_def ReadAddress_def ReadWith_def read_num_bytes)

lemma c_string_at:
  assumes "at mem p (s @ [0])" "0 \<notin> set s"
  shows "c_string mem p = Inr s"
proof -
  have "drop p mem = (s @ [0]) @ drop (p + length (s @ [0])) mem"
    using at_take [OF assms(1)] by (metis append_take_drop_id drop_drop add.commute)
  then have d: "drop p mem = s @ 0 # drop (p + length (s @ [0])) mem" by simp
  have "takeWhile (\<lambda>c. c \<noteq> 0) (drop p mem) = s"
    unfolding d using assms(2) by (subst takeWhile_append2) auto
  then show ?thesis by (simp add: c_string_def d)
qed


section \<open>Units\<close>

text \<open>
  The instructions of DWARF 2, all but \<open>DW_LNE_define_file\<close>; \<open>UnknownStandard\<close> is an opcode from 10 on,
  that only the lengths of the header describe (as are those that DWARF 3 adds), and \<open>UnknownExtended\<close> one
  behind a length.
\<close>

datatype line_op =
    Special nat
  | Copy
  | AdvancePC nat
  | AdvanceLine int
  | SetFile nat
  | SetColumn nat
  | NegateStmt
  | SetBasicBlock
  | ConstAddPC
  | FixedAdvancePC nat
  | EndSequence
  | SetAddress nat
  | UnknownStandard nat "nat list"
  | UnknownExtended byte "byte list"

record line_unit =
  unit_version :: nat
  unit_min_insn :: byte
  unit_default_stmt :: bool
  unit_line_base :: byte
  unit_line_range :: byte
  unit_op_lengths :: "byte list"
  unit_dirs :: "byte list list"
  unit_files :: "(byte list \<times> nat \<times> nat \<times> nat) list"
  unit_program :: "line_op list"

definition first_special :: "line_unit \<Rightarrow> nat" where
  "first_special u = length (unit_op_lengths u) + 1"

definition extended :: "byte list \<Rightarrow> byte list" where
  "extended bs = 0 # uleb (length bs) @ bs"

fun op_code :: "ByteReader \<Rightarrow> line_unit \<Rightarrow> line_op \<Rightarrow> byte list" where
  "op_code R u (Special k) = [of_nat (first_special u + k)]"
| "op_code R u Copy = [1]"
| "op_code R u (AdvancePC n) = 2 # uleb n"
| "op_code R u (AdvanceLine i) = 3 # sleb i"
| "op_code R u (SetFile n) = 4 # uleb n"
| "op_code R u (SetColumn n) = 5 # uleb n"
| "op_code R u NegateStmt = [6]"
| "op_code R u SetBasicBlock = [7]"
| "op_code R u ConstAddPC = [8]"
| "op_code R u (FixedAdvancePC n) = 9 # num_bytes R 2 n"
| "op_code R u EndSequence = extended [1]"
| "op_code R u (SetAddress n) = extended (2 # num_bytes R (unat (address_size R)) n)"
| "op_code R u (UnknownStandard c ns) = of_nat c # concat (map uleb ns)"
| "op_code R u (UnknownExtended c bs) = extended (c # bs)"

text \<open>
  The instructions that a unit can have: its first special opcode is also the end of its standard opcodes,
  so one with a small \<open>opcode_base\<close> has only some of these.
\<close>

fun op_ok :: "ByteReader \<Rightarrow> line_unit \<Rightarrow> line_op \<Rightarrow> bool" where
  "op_ok R u (Special k) = (first_special u + k < 256)"
| "op_ok R u Copy = (1 < first_special u)"
| "op_ok R u (AdvancePC n) = (2 < first_special u \<and> n < 2 ^ 64)"
| "op_ok R u (AdvanceLine i) = (3 < first_special u \<and> - (2 ^ 63) \<le> i \<and> i < 2 ^ 63)"
| "op_ok R u (SetFile n) = (4 < first_special u \<and> n < 2 ^ 64)"
| "op_ok R u (SetColumn n) = (5 < first_special u \<and> n < 2 ^ 64)"
| "op_ok R u NegateStmt = (6 < first_special u)"
| "op_ok R u SetBasicBlock = (7 < first_special u)"
| "op_ok R u ConstAddPC = (8 < first_special u)"
| "op_ok R u (FixedAdvancePC n) = (9 < first_special u \<and> n < 2 ^ 16)"
| "op_ok R u EndSequence = True"
| "op_ok R u (SetAddress n) = (n < 256 ^ unat (address_size R))"
| "op_ok R u (UnknownStandard c ns) =
     (10 \<le> c \<and> c < first_special u \<and> length ns = unat (unit_op_lengths u ! (c - 1)) \<and> list_all (\<lambda>n. n < 2 ^ 64) ns)"
| "op_ok R u (UnknownExtended c bs) = (c \<notin> {1, 2, 3})"

text \<open>The instructions that add a row\<close>

fun adds_row :: "line_op \<Rightarrow> bool" where
  "adds_row (Special k) = True"
| "adds_row Copy = True"
| "adds_row EndSequence = True"
| "adds_row _ = False"

text \<open>What an instruction means; addresses are numbers modulo \<open>2\<^sup>6\<^sup>4\<close>, lines modulo \<open>2\<^sup>3\<^sup>2\<close>.\<close>

fun op_step :: "line_unit \<Rightarrow> line_op \<Rightarrow> LineStateMachine \<Rightarrow> LineStateMachine" where
  "op_step u (Special k) s =
     s\<lparr>address := address s + of_nat (k div unat (unit_line_range u) * unat (unit_min_insn u)),
       line_num := line_num s + of_int (sint (unit_line_base u) + int (k mod unat (unit_line_range u))),
       basic_block := True\<rparr>"
| "op_step u Copy s = s\<lparr>basic_block := False\<rparr>"
| "op_step u (AdvancePC n) s = s\<lparr>address := address s + of_nat (n * unat (unit_min_insn u))\<rparr>"
| "op_step u (AdvanceLine i) s = s\<lparr>line_num := line_num s + of_int i\<rparr>"
| "op_step u (SetFile n) s = s\<lparr>file_num := of_nat n\<rparr>"
| "op_step u (SetColumn n) s = s\<lparr>column_num := of_nat n\<rparr>"
| "op_step u NegateStmt s = s\<lparr>is_stmt := \<not> is_stmt s\<rparr>"
| "op_step u SetBasicBlock s = s\<lparr>basic_block := True\<rparr>"
| "op_step u ConstAddPC s = s\<lparr>address := address s
     + of_nat ((255 - first_special u) div unat (unit_line_range u) * unat (unit_min_insn u))\<rparr>"
| "op_step u (FixedAdvancePC n) s = s\<lparr>address := address s + of_nat n\<rparr>"
| "op_step u EndSequence s = s\<lparr>end_sequence := True\<rparr>"
| "op_step u (SetAddress n) s = s\<lparr>address := of_nat n\<rparr>"
| "op_step u (UnknownStandard _ _) s = s"
| "op_step u (UnknownExtended _ _) s = s"

text \<open>The rows of a program; the state machine starts anew behind the end of a sequence.\<close>

fun rows_of :: "line_unit \<Rightarrow> line_op list \<Rightarrow> LineStateMachine \<Rightarrow> LineStateMachine list" where
  "rows_of u [] s = []"
| "rows_of u (i # is) s =
     (let t = op_step u i s in
      if adds_row i then t # rows_of u is (if end_sequence t then LSM_Reset (unit_default_stmt u) else t)
      else rows_of u is t)"

text \<open>A line reaches from its row to the next row of the sequence.\<close>

fun lines_of :: "LineStateMachine list \<Rightarrow> line_event list" where
  "lines_of (r # s # rs) =
     (if end_sequence r then []
      else [AddLine (address r) (address s - address r) (file_num r) (line_num r) (column_num r)]) @ lines_of (s # rs)"
| "lines_of _ = []"

section \<open>The bytes of a unit\<close>

definition file_entry :: "byte list \<times> nat \<times> nat \<times> nat \<Rightarrow> byte list" where
  "file_entry f = (case f of (name, d, t, l) \<Rightarrow> name @ 0 # uleb d @ uleb t @ uleb l)"

definition unit_tables :: "line_unit \<Rightarrow> byte list" where
  "unit_tables u = [unit_min_insn u, if unit_default_stmt u then 1 else 0, unit_line_base u, unit_line_range u,
       of_nat (first_special u)] @ unit_op_lengths u
     @ concat (map (\<lambda>d. d @ [0]) (unit_dirs u)) @ [0] @ concat (map file_entry (unit_files u)) @ [0]"

definition unit_code :: "ByteReader \<Rightarrow> line_unit \<Rightarrow> byte list" where
  "unit_code R u = concat (map (op_code R u) (unit_program u))"

text \<open>\<open>w\<close>: the 64-bit format of DWARF 3\<close>

definition offset_bytes :: "bool \<Rightarrow> nat" where
  "offset_bytes w = (if w then 8 else 4)"

definition unit_body :: "ByteReader \<Rightarrow> bool \<Rightarrow> line_unit \<Rightarrow> byte list" where
  "unit_body R w u = num_bytes R 2 (unit_version u) @ num_bytes R (offset_bytes w) (length (unit_tables u))
     @ unit_tables u @ unit_code R u"

definition unit_bytes :: "ByteReader \<Rightarrow> bool \<Rightarrow> line_unit \<Rightarrow> byte list" where
  "unit_bytes R w u =
     (if w then num_bytes R 4 0xffffffff else []) @ num_bytes R (offset_bytes w) (length (unit_body R w u))
     @ unit_body R w u"

fun number_from :: "nat \<Rightarrow> 'a list \<Rightarrow> (nat \<times> 'a) list" where
  "number_from n [] = []"
| "number_from n (x # xs) = (n, x) # number_from (n + 1) xs"

definition unit_tables_events :: "line_unit \<Rightarrow> line_event list" where
  "unit_tables_events u =
     map (\<lambda>(i, d). DefineDir d (of_nat i)) (number_from 1 (unit_dirs u))
     @ map (\<lambda>(i, name, d, t, l). DefineFile name (of_nat i) (of_nat d) (of_nat t) (of_nat l))
         (number_from 1 (unit_files u))"

definition unit_ok :: "ByteReader \<Rightarrow> bool \<Rightarrow> line_unit \<Rightarrow> bool" where
  "unit_ok R w u \<longleftrightarrow> unit_version u < 2 ^ 16 \<and> unit_line_range u \<noteq> 0
     \<and> first_special u < 256
     \<and> list_all (\<lambda>d. d \<noteq> [] \<and> 0 \<notin> set d) (unit_dirs u)
     \<and> list_all (\<lambda>(name, d, t, l). name \<noteq> [] \<and> 0 \<notin> set name \<and> d < 2 ^ 64 \<and> t < 2 ^ 64 \<and> l < 2 ^ 64) (unit_files u)
     \<and> list_all (op_ok R u) (unit_program u)
     \<and> length (unit_body R w u) < (if w then 2 ^ 64 else 0xffffffff)"

section \<open>Instructions are read\<close>

text \<open>What the header says of a unit\<close>

definition describes :: "LineInfoHeader \<Rightarrow> line_unit \<Rightarrow> bool" where
  "describes h u \<longleftrightarrow> min_insn_length h = unit_min_insn u \<and> default_is_stmt h = unit_default_stmt u
     \<and> line_base h = unit_line_base u \<and> line_range h = unit_line_range u
     \<and> opcode_base h = of_nat (first_special u)
     \<and> std_opcode_lengths h = Some (0 # unit_op_lengths u @ [0])
     \<and> unit_line_range u \<noteq> 0 \<and> first_special u < 256"

lemma index_of_simps:
  "i < 2 ^ 64 \<Longrightarrow> index_of base (base + of_nat i) = i"
  "Suc i < 2 ^ 64 \<Longrightarrow> index_of base (base + of_nat i + 1) = Suc i"
  "Suc (i + j) < 2 ^ 64 \<Longrightarrow> index_of base (base + of_nat i + 1 + of_nat j) = Suc (i + j)"
proof -
  have n: "unat (of_nat n :: u64) = n" if "n < 2 ^ 64" for n
    using that by (simp add: unat_of_nat)
  show "i < 2 ^ 64 \<Longrightarrow> index_of base (base + of_nat i) = i" using n [of i] by (simp add: index_of_def)
  have "base + of_nat i + 1 - base = of_nat (Suc i)" by simp
  then show "Suc i < 2 ^ 64 \<Longrightarrow> index_of base (base + of_nat i + 1) = Suc i"
    using n [of "Suc i"] by (simp only: index_of_def)
  have "base + of_nat i + 1 + of_nat j - base = of_nat (Suc (i + j))" by simp
  then show "Suc (i + j) < 2 ^ 64 \<Longrightarrow> index_of base (base + of_nat i + 1 + of_nat j) = Suc (i + j)"
    using n [of "Suc (i + j)"] by (simp only: index_of_def)
qed

lemma index_of_add:
  assumes "index_of base s = q" "q + k < 2 ^ 64"
  shows "index_of base (s + of_nat k) = q + k"
proof -
  have "s - base = of_nat q" using assms(1) by (auto simp: index_of_def)
  then have "s + of_nat k - base = of_nat (q + k)" by (simp add: algebra_simps)
  then show ?thesis using assms(2) by (simp only: index_of_def) (simp add: unat_of_nat del: of_nat_add)
qed

lemma standard_opcode:
  assumes "describes h u" "c < first_special u"
  shows "\<not> opcode_base h \<le> of_nat c"
  using assms by (auto simp: describes_def word_le_nat_alt unat_of_nat)

lemma standard_opcodes:
  assumes "describes h u"
  shows "\<not> opcode_base h \<le> 0" "1 < first_special u \<Longrightarrow> \<not> opcode_base h \<le> 1"
    "2 < first_special u \<Longrightarrow> \<not> opcode_base h \<le> 2" "3 < first_special u \<Longrightarrow> \<not> opcode_base h \<le> 3"
    "4 < first_special u \<Longrightarrow> \<not> opcode_base h \<le> 4" "5 < first_special u \<Longrightarrow> \<not> opcode_base h \<le> 5"
    "6 < first_special u \<Longrightarrow> \<not> opcode_base h \<le> 6" "7 < first_special u \<Longrightarrow> \<not> opcode_base h \<le> 7"
    "8 < first_special u \<Longrightarrow> \<not> opcode_base h \<le> 8" "9 < first_special u \<Longrightarrow> \<not> opcode_base h \<le> 9"
  using standard_opcode [OF assms, of 0] standard_opcode [OF assms, of 1] standard_opcode [OF assms, of 2]
    standard_opcode [OF assms, of 3] standard_opcode [OF assms, of 4] standard_opcode [OF assms, of 5]
    standard_opcode [OF assms, of 6] standard_opcode [OF assms, of 7] standard_opcode [OF assms, of 8]
    standard_opcode [OF assms, of 9]
  by (simp_all add: first_special_def)

lemma described:
  assumes "describes h u"
  shows "unat (opcode_base h) = first_special u" "opcode_base h = of_nat (first_special u)"
    "line_range h = unit_line_range u" "line_base h = unit_line_base u"
    "min_insn_length h = unit_min_insn u" "unit_line_range u \<noteq> 0"
    "std_opcode_lengths h = Some (0 # unit_op_lengths u @ [0])"
    "default_is_stmt h = unit_default_stmt u"
  using assms by (auto simp: describes_def unat_of_nat)

lemma skip_operands_read:
  assumes "index_of base start = q" "at mem q (concat (map uleb ns))" "list_all (\<lambda>n. n < 2 ^ 64) ns"
    "length mem < 2 ^ 64"
  shows "skip_operands base mem start (length ns) = Inr (of_nat (length (concat (map uleb ns))))"
  using assms
proof (induction ns arbitrary: start q)
  case (Cons n ns)
  have at: "at mem q (uleb n)" "at mem (q + length (uleb n)) (concat (map uleb ns))"
    using Cons.prems(2) by (simp_all add: at_append)
  have "index_of base (start + of_nat (length (uleb n))) = q + length (uleb n)"
    using Cons.prems(1,4) at_bound [OF at(1)] by (intro index_of_add) simp_all
  from Cons.IH [OF this at(2)] Cons.prems read_uleb [OF at(1)] show ?case by simp
qed simp

lemma instruction_at:
  assumes "at mem p (c # bs)" "length mem < 2 ^ 64"
  shows "ReadOneByte mem (index_of base (base + of_nat p)) = Inr c"
    "index_of base (base + of_nat p + 1) = Suc p" "at mem (Suc p) bs"
  using assms at_bound [OF assms(1)] by (simp_all add: index_of_simps at_Cons read_one)

lemma extended_at:
  assumes "at mem p (extended (c # bs))" "length mem < 2 ^ 64" "k = length (uleb (Suc (length bs)))"
  shows "ReadOneByte mem (index_of base (base + of_nat p)) = Inr 0"
    "ReadUnsignedLEB128 mem (index_of base (base + of_nat p + 1)) = Inr (of_nat (Suc (length bs)), k)"
    "ReadOneByte mem (index_of base (base + of_nat p + 1 + of_nat k)) = Inr c"
    "at mem (index_of base (base + of_nat p + 1 + of_nat k + 1)) bs"
proof -
  have a: "at mem p (0 # uleb (Suc (length bs)) @ c # bs)" using assms(1) by (simp add: extended_def)
  note i = instruction_at [OF a assms(2)]
  have at: "at mem (Suc p) (uleb (Suc (length bs)))" "at mem (Suc p + k) (c # bs)"
    using i(3) assms(3) by (simp_all add: at_append)
  have le: "Suc p + k + Suc (length bs) \<le> length mem" using at_bound [OF at(2)] by simp
  then have s: "Suc (length bs) < 2 ^ 64" "Suc (p + k) < 2 ^ 64" using assms(2) by linarith+
  show "ReadOneByte mem (index_of base (base + of_nat p)) = Inr 0" by (rule i)
  show "ReadUnsignedLEB128 mem (index_of base (base + of_nat p + 1)) = Inr (of_nat (Suc (length bs)), k)"
    unfolding i(2) using read_uleb [OF at(1) s(1)] assms(3) by simp
  have q: "index_of base (base + of_nat p + 1 + of_nat k) = Suc (p + k)" using s(2) by (rule index_of_simps)
  then show "ReadOneByte mem (index_of base (base + of_nat p + 1 + of_nat k)) = Inr c"
    using at(2) by (simp add: at_Cons read_one)
  have "index_of base (base + of_nat p + 1 + of_nat k + of_nat 1) = Suc (p + k) + 1"
    using q le assms(2) by (intro index_of_add) simp_all
  then show "at mem (index_of base (base + of_nat p + 1 + of_nat k + 1)) bs"
    using at(2) by (simp add: at_Cons)
qed

lemma length_extended:
  "(of_nat (length (extended (c # bs))) :: u64) = 1 + (of_nat (length (uleb (Suc (length bs)))) + of_nat (Suc (length bs)))"
  by (simp add: extended_def)

lemma narrow:
  "ucast (of_int i :: u64) = (of_int i :: u32)" "ucast (of_nat n :: u64) = (of_nat n :: u32)"
  by (intro bit_word_eqI; auto simp: bit_simps)+

lemma widen: "n < 2 ^ 16 \<Longrightarrow> ucast (of_nat n :: u16) = (of_nat n :: u64)"
  by (rule word_unat_eq_iff [THEN iffD2]) (simp add: unsigned_ucast_eq unat_of_nat take_bit_nat_eq_self)

lemma op_read:
  assumes h: "describes h u" and R: "reader_set R" and i: "op_ok R u i" "at mem p (op_code R u i)"
    and m: "length mem < 2 ^ 64"
  shows "ProcessOneOpcode base mem R has_handler h (base + of_nat p) lsm pc None
    = Inr (adds_row i, op_step u i lsm, of_nat (length (op_code R u i)), None, [])"
proof (cases i)
  case (Special k)
  have k: "first_special u + k < 256" using i(1) Special by simp
  note b = described [OF h]
  have o: "(of_nat (first_special u + k) :: byte) \<ge> opcode_base h"
    using k b(1) by (simp add: word_le_nat_alt unat_of_nat del: of_nat_add)
  have d: "of_nat (first_special u + k) - opcode_base h = of_nat k" using b(2) by simp
  have u: "unat (of_nat k :: byte) = k" using k by (simp add: unat_of_nat)
  have c: "at mem p [of_nat (first_special u + k)]" using i(2) Special by simp
  show ?thesis
    using instruction_at(1,2) [OF c m, where base = base] instruction_at(3) [OF c m] o d u b Special
    by (simp add: ProcessOneOpcode_def Let_def passes_to_def ac_simps del: of_nat_add)
next
  case (AdvancePC n)
  then have c: "at mem p (2 # uleb n)" and n: "n < 2 ^ 64" "2 < first_special u" using i by simp_all
  show ?thesis
    using instruction_at(1,2) [OF c m, where base = base] instruction_at(3) [OF c m] read_uleb [of mem "Suc p" n] n(1) standard_opcodes(3) [OF h n(2)] AdvancePC h
    by (simp add: ProcessOneOpcode_def Let_def passes_to_def describes_def mult.commute)
next
  case (AdvanceLine n)
  then have c: "at mem p (3 # sleb n)" and n: "- (2 ^ 63) \<le> n" "n < 2 ^ 63" "3 < first_special u" using i by simp_all
  show ?thesis
    using instruction_at(1,2) [OF c m, where base = base] instruction_at(3) [OF c m] read_sleb [of mem "Suc p" n] n(1,2) standard_opcodes(4) [OF h n(3)] AdvanceLine
    by (simp add: narrow ProcessOneOpcode_def Let_def)
next
  case (SetFile n)
  then have c: "at mem p (4 # uleb n)" and n: "n < 2 ^ 64" "4 < first_special u" using i by simp_all
  show ?thesis
    using instruction_at(1,2) [OF c m, where base = base] instruction_at(3) [OF c m] read_uleb [of mem "Suc p" n] n(1) standard_opcodes(5) [OF h n(2)] SetFile
    by (simp add: narrow ProcessOneOpcode_def Let_def)
next
  case (SetColumn n)
  then have c: "at mem p (5 # uleb n)" and n: "n < 2 ^ 64" "5 < first_special u" using i by simp_all
  show ?thesis
    using instruction_at(1,2) [OF c m, where base = base] instruction_at(3) [OF c m] read_uleb [of mem "Suc p" n] n(1) standard_opcodes(6) [OF h n(2)] SetColumn
    by (simp add: narrow ProcessOneOpcode_def Let_def)
next
  case ConstAddPC
  then have c: "at mem p (8 # [])" and n: "8 < first_special u" using i by simp_all
  note b = described [OF h]
  have "255 - int (first_special u) = int (255 - first_special u)"
    using h by (simp add: describes_def of_nat_diff)
  then have e: "int (unat (min_insn_length h)) * ((255 - int (unat (opcode_base h))) div int (unat (line_range h)))
      = int ((255 - first_special u) div unat (unit_line_range u) * unat (unit_min_insn u))"
    unfolding b(1) by (simp add: b zdiv_int del: of_nat_diff)
  show ?thesis
    using instruction_at(1,2) [OF c m, where base = base] instruction_at(3) [OF c m] standard_opcodes(9) [OF h n] ConstAddPC b(6)
    by (simp only: ProcessOneOpcode_def Let_def passes_to_def e read_then_def) (simp add: b(3))
next
  case (FixedAdvancePC n)
  then have c: "at mem p (9 # num_bytes R 2 n)" and n: "n < 2 ^ 16" "9 < first_special u" using i by simp_all
  show ?thesis
    using instruction_at(1,2) [OF c m, where base = base] instruction_at(3) [OF c m] read_num_bytes(1) [of mem "Suc p" R n] n(1) standard_opcodes(10) [OF h n(2)] FixedAdvancePC
    by (simp add: widen ProcessOneOpcode_def Let_def passes_to_def)
next
  case EndSequence
  then have c: "at mem p (extended (1 # []))" using i(2) by simp
  show ?thesis
    using extended_at [OF c m refl, where base = base] standard_opcodes(1) [OF h] EndSequence
    by (simp add: ProcessOneOpcode_def Let_def length_extended)
next
  case (SetAddress n)
  then have c: "at mem p (extended (2 # num_bytes R (unat (address_size R)) n))" and n: "n < 256 ^ unat (address_size R)"
    using i by simp_all
  show ?thesis
    using extended_at [OF c m refl, where base = base] read_address [OF R _ n] standard_opcodes(1) [OF h] SetAddress
    by (simp add: ProcessOneOpcode_def Let_def length_extended)
next
  case (UnknownStandard c ns)
  then have c: "at mem p (of_nat c # concat (map uleb ns))" and n: "10 \<le> c" "c < first_special u"
    "list_all (\<lambda>n. n < 2 ^ 64) ns" "length ns = unat (unit_op_lengths u ! (c - 1))" using i by simp_all
  note a = instruction_at(1,2) [OF c m, where base = base] instruction_at(3) [OF c m] and b = described [OF h]
  have u: "unat (of_nat c :: byte) = c" using n(1,2) h by (simp add: describes_def unat_of_nat)
  have o: "\<not> opcode_base h \<le> (of_nat c :: byte)" using u n(2) b(1) by (simp add: word_le_nat_alt)
  have ne: "(of_nat c :: byte) \<noteq> of_nat k" if "k < 10" for k
  proof
    assume "(of_nat c :: byte) = of_nat k"
    then have "c = unat (of_nat k :: byte)" using u by simp
    then show False using n(1) that by (simp add: unat_of_nat)
  qed
  have len: "(0 # unit_op_lengths u @ [0]) ! c = unit_op_lengths u ! (c - 1)"
    using n(1,2) by (auto simp: nth_Cons nth_append first_special_def split: nat.splits)
  show ?thesis
    using a skip_operands_read [OF a(2,3) n(3) m] o u ne [of 0] ne [of 1] ne [of 2] ne [of 3] ne [of 4] ne [of 5]
      ne [of 6] ne [of 7] ne [of 8] ne [of 9] len n(4) b(7) UnknownStandard
    by (simp add: ProcessOneOpcode_def Let_def)
next
  case (UnknownExtended c bs)
  then have c: "at mem p (extended (c # bs))" and n: "c \<noteq> 1" "c \<noteq> 2" "c \<noteq> 3" using i by simp_all
  show ?thesis
    using extended_at [OF c m refl, where base = base] standard_opcodes(1) [OF h] UnknownExtended n
    by (simp add: ProcessOneOpcode_def Let_def length_extended)
qed (use standard_opcodes [OF h] i instruction_at(1,2) [OF _ m, where p = p and base = base] in
     \<open>auto simp: ProcessOneOpcode_def Let_def\<close>)

section \<open>Programs are run\<close>

lemma unat_address:
  assumes "unat (base :: u64) + n < 2 ^ 64"
  shows "unat (base + of_nat n) = unat base + n"
proof -
  have "unat (of_nat n :: u64) = n" using assms by (simp add: unat_of_nat)
  then show ?thesis using assms by (simp add: unat_word_ariths)
qed

lemma address_less:
  fixes base :: u64
  assumes "unat base + q < 2 ^ 64" "p \<le> q"
  shows "base + of_nat p < base + of_nat q \<longleftrightarrow> p < q" "base + of_nat p \<le> base + of_nat q"
proof -
  have "unat (base + of_nat p) = unat base + p" "unat (base + of_nat q) = unat base + q"
    by (rule unat_address, use assms in linarith)+
  then show "base + of_nat p < base + of_nat q \<longleftrightarrow> p < q" "base + of_nat p \<le> base + of_nat q"
    using assms(2) by (simp_all add: word_less_nat_alt word_le_nat_alt)
qed

text \<open>The lines of the rows that follow a pending line\<close>

definition pend :: "LineStateMachine \<Rightarrow> pending_line" where
  "pend r = \<lparr>pending_address = address r, pending_file_num = file_num r, pending_line_num = line_num r,
     pending_column_num = column_num r\<rparr>"

fun lines_from :: "pending_line option \<Rightarrow> LineStateMachine list \<Rightarrow> line_event list" where
  "lines_from (Some q) (s # rs) =
     AddLine (pending_address q) (address s - pending_address q) (pending_file_num q) (pending_line_num q)
       (pending_column_num q) # lines_of (s # rs)"
| "lines_from _ rs = lines_of rs"

lemma add_row_lines:
  "add_row d True s pending = (s', pending', evs) \<Longrightarrow>
    s' = (if end_sequence s then LSM_Reset d else s) \<and> evs @ lines_from pending' rs = lines_from pending (s # rs)"
  by (cases rs; cases pending) (auto simp: add_row_def Let_def split: if_splits)

lemma run_program:
  assumes "describes h u" "reader_set R" "list_all (op_ok R u) is"
    "at mem p (concat (map (op_code R u) is))" "q = p + length (concat (map (op_code R u) is))"
    "unat base + length mem < 2 ^ 64"
  shows "lines_loop base mem R h (base + of_nat q) (base + of_nat p) lsm pending evs
    = Some (Inr (evs @ lines_from pending (rows_of u is lsm)))"
  using assms(3-5)
proof (induction "is" arbitrary: p lsm pending evs)
  case Nil
  then show ?case by (subst lines_loop.simps) (cases pending; simp)
next
  case (Cons i "is")
  let ?c = "op_code R u i"
  have at: "at mem p ?c" "at mem (p + length ?c) (concat (map (op_code R u) is))"
    and ok: "op_ok R u i" "list_all (op_ok R u) is"
    using Cons.prems(1,2) by (simp_all add: at_append)
  have ne: "?c \<noteq> []" by (cases i) (auto simp: extended_def uleb.simps)
  have q: "q \<le> length mem" using at_bound [OF Cons.prems(2)] Cons.prems(3) by simp
  have less: "base + of_nat p < base + of_nat q"
    using address_less(1) [of base q p] q assms(6) Cons.prems(3) ne by auto
  have m: "length mem < 2 ^ 64" using assms(6) by linarith
  note op = op_read [OF assms(1,2) ok(1) at(1) m]
  have next_p: "base + of_nat p + of_nat (length ?c) = base + of_nat (p + length ?c)" by simp
  have q': "q = p + length ?c + length (concat (map (op_code R u) is))" using Cons.prems(3) by simp
  note IH = Cons.IH [OF ok(2) at(2) q']
  show ?case
  proof (cases "adds_row i")
    case True
    obtain s' pending' evs' where a: "add_row (default_is_stmt h) True (op_step u i lsm) pending = (s', pending', evs')"
      by (cases "add_row (default_is_stmt h) True (op_step u i lsm) pending")
    show ?thesis
      unfolding lines_loop.simps [of base mem R h "base + of_nat q" "base + of_nat p"]
      using less op True a IH add_row_lines [OF a] described(8) [OF assms(1)]
      by (simp add: next_p Let_def del: of_nat_add)
  next
    case False
    show ?thesis
      unfolding lines_loop.simps [of base mem R h "base + of_nat q" "base + of_nat p"]
      using less op False IH by (simp add: next_p Let_def add_row_def del: of_nat_add)
  qed
qed

section \<open>The header is read\<close>

lemma read_lengths_at:
  "at mem p ns \<Longrightarrow> i + length ns = limit \<Longrightarrow> read_lengths mem i limit p = Inr (ns, p + length ns)"
proof (induction ns arbitrary: i p)
  case (Cons n ns)
  then show ?case
    by (subst read_lengths.simps) (simp add: at_Cons read_one)
qed (subst read_lengths.simps, simp)

lemma byte_there: "at mem p (b # bs) \<Longrightarrow> p < length mem \<and> mem ! p = b"
  by (simp add: at_Cons)

lemma read_dirs_at:
  assumes "at mem p (concat (map (\<lambda>d. d @ [0]) ds) @ [0])" "list_all (\<lambda>d. d \<noteq> [] \<and> 0 \<notin> set d) ds"
  shows "read_dirs mem p (of_nat k) = Inr (map (\<lambda>(i, d). DefineDir d (of_nat i)) (number_from k ds),
    p + length (concat (map (\<lambda>d. d @ [0]) ds)))"
  using assms
proof (induction ds arbitrary: p k)
  case Nil
  then show ?case by (subst read_dirs.simps) (simp add: byte_there)
next
  case (Cons d ds)
  have at: "at mem p (d @ [0])" "at mem (p + length (d @ [0])) (concat (map (\<lambda>d. d @ [0]) ds) @ [0])"
    and d: "d \<noteq> []" "0 \<notin> set d"
    using Cons.prems at_append [of mem p "d @ [0]" "concat (map (\<lambda>d. d @ [0]) ds) @ [0]"] by simp_all
  obtain b bs where b: "d = b # bs" "b \<noteq> 0" using d by (cases d) auto
  have "p < length mem" "mem ! p \<noteq> 0" using byte_there [of mem p b "bs @ [0]"] at(1) b by auto
  then show ?case
    using Cons.IH [OF at(2), of "k + 1"] Cons.prems(2) c_string_at [OF at(1) d(2)]
    by (subst read_dirs.simps) (simp add: add.commute)
qed

lemma read_file_at:
  assumes "at mem p (file_entry (name, d, t, l))" "0 \<notin> set name" "d < 2 ^ 64" "t < 2 ^ 64" "l < 2 ^ 64"
  shows "read_file mem p = Inr (name, of_nat d, of_nat t, of_nat l, p + length (file_entry (name, d, t, l)))"
proof -
  let ?q = "p + length (name @ [0])"
  have at: "at mem p (name @ [0])" "at mem ?q (uleb d)" "at mem (?q + length (uleb d)) (uleb t)"
    "at mem (?q + length (uleb d) + length (uleb t)) (uleb l)"
    using assms(1) by (simp_all add: file_entry_def at_append at_Cons at_bound)
  show ?thesis
    using c_string_at [OF at(1) assms(2)] read_uleb [OF at(2) assms(3)] read_uleb [OF at(3) assms(4)]
      read_uleb [OF at(4) assms(5)]
    by (simp add: read_file_def Let_def file_entry_def)
qed

lemma read_files_at:
  assumes "at mem p (concat (map file_entry fs) @ [0])"
    "list_all (\<lambda>(name, d, t, l). name \<noteq> [] \<and> 0 \<notin> set name \<and> d < 2 ^ 64 \<and> t < 2 ^ 64 \<and> l < 2 ^ 64) fs"
  shows "read_files mem p (of_nat k)
    = Inr (map (\<lambda>(i, name, d, t, l). DefineFile name (of_nat i) (of_nat d) (of_nat t) (of_nat l)) (number_from k fs),
        p + length (concat (map file_entry fs)))"
  using assms
proof (induction fs arbitrary: p k)
  case Nil
  then show ?case by (subst read_files.simps) (simp add: byte_there)
next
  case (Cons f fs)
  obtain name d t l where f: "f = (name, d, t, l)" by (cases f)
  have at: "at mem p (file_entry f)" "at mem (p + length (file_entry f)) (concat (map file_entry fs) @ [0])"
    and ok: "name \<noteq> []" "0 \<notin> set name" "d < 2 ^ 64" "t < 2 ^ 64" "l < 2 ^ 64"
    using Cons.prems f by (simp_all add: at_append add.assoc)
  obtain b bs where b: "name = b # bs" "b \<noteq> 0" using ok(1,2) by (cases name) auto
  have "p < length mem" "mem ! p \<noteq> 0"
    using byte_there [of mem p b "bs @ 0 # uleb d @ uleb t @ uleb l"] at(1) b f by (auto simp: file_entry_def)
  then show ?case
    using Cons.IH [OF at(2), of "k + 1"] Cons.prems(2) read_file_at [OF at(1) [unfolded f] ok(2-5)] f
    by (subst read_files.simps) (simp add: add.commute narrow)
qed

lemma read_initial_length:
  assumes "at mem 0 ((if w then num_bytes R 4 0xffffffff else []) @ num_bytes R (offset_bytes w) n)"
    "n < (if w then 2 ^ 64 else 0xffffffff)"
  shows "\<exists>R'. ReadInitialLength mem 0 R = Inr (of_nat n, if w then 12 else 4, R')
    \<and> endian R' = endian R \<and> address_size R' = address_size R \<and> address_reader R' = address_reader R
    \<and> offset_size R' = (if w then 8 else 4)
    \<and> offset_reader R' = Some (if w then EightBytes else FourBytes)"
proof (cases w)
  case True
  have at: "at mem 0 (num_bytes R 4 0xffffffff)" "at mem 4 (num_bytes R 8 n)"
    using assms(1) True by (simp_all add: at_append offset_bytes_def)
  let ?R = "R\<lparr>offset_size := 8, offset_reader := Some EightBytes\<rparr>"
  have "at mem 4 (num_bytes ?R 8 n)" using at(2) by (simp add: num_bytes_def byte_order_def)
  then show ?thesis
    using read_num_bytes(2) [OF at(1)] read_num_bytes(3) [of mem 4 ?R n] assms(2) True
    by (simp add: ReadInitialLength_def Let_def SetOffsetSize_def assert_read_def ReadOffset_def ReadWith_def)
next
  case False
  then have at: "at mem 0 (num_bytes R 4 n)" and n: "n < 0xffffffff" using assms by (simp_all add: offset_bytes_def)
  have "(of_nat n :: u64) \<noteq> 0xffffffff"
  proof
    assume "(of_nat n :: u64) = 0xffffffff"
    then have "unat (of_nat n :: u64) = 0xffffffff" by simp
    then show False using n by (simp add: unat_of_nat)
  qed
  then show ?thesis
    using read_num_bytes(2) [OF at] n False
    by (simp add: ReadInitialLength_def Let_def SetOffsetSize_def assert_read_def)
qed

lemma num_bytes_endian: "endian R' = endian R \<Longrightarrow> num_bytes R' k n = num_bytes R k n"
  by (simp add: num_bytes_def byte_order_def)

lemma op_code_endian:
  "endian R' = endian R \<Longrightarrow> address_size R' = address_size R \<Longrightarrow> op_code R' u i = op_code R u i"
  by (cases i) (simp_all add: num_bytes_endian [of R' R])

lemma op_ok_endian: "address_size R' = address_size R \<Longrightarrow> op_ok R' u i = op_ok R u i"
  by (cases i) simp_all

text \<open>Where the parts of a unit are\<close>

lemma unit_parts:
  assumes "mem = unit_bytes R w u @ rest" "s = (if w then 12 else 4)" "t = s + 2 + offset_bytes w"
  shows "at mem 0 ((if w then num_bytes R 4 0xffffffff else []) @ num_bytes R (offset_bytes w) (length (unit_body R w u)))"
    "at mem s (num_bytes R 2 (unit_version u))"
    "at mem (s + 2) (num_bytes R (offset_bytes w) (length (unit_tables u)))"
    "at mem t (unit_tables u)" "at mem (t + length (unit_tables u)) (unit_code R u)"
    "length (unit_bytes R w u) = s + length (unit_body R w u)"
    "length (unit_bytes R w u) = t + length (unit_tables u) + length (unit_code R u)"
proof -
  let ?pre = "(if w then num_bytes R 4 0xffffffff else []) @ num_bytes R (offset_bytes w) (length (unit_body R w u))"
  have len: "length ?pre = s" using assms(2) by (simp add: offset_bytes_def)
  have "at mem 0 (unit_bytes R w u)" unfolding assms(1) using at_self [of "[]" "unit_bytes R w u" rest] by simp
  then have "at mem 0 (?pre @ unit_body R w u)" by (simp only: unit_bytes_def append_assoc)
  then have "at mem 0 ?pre" "at mem s (unit_body R w u)"
    unfolding at_append [of mem 0 ?pre] len by simp_all
  then show "at mem 0 ?pre" "at mem s (num_bytes R 2 (unit_version u))"
    "at mem (s + 2) (num_bytes R (offset_bytes w) (length (unit_tables u)))"
    "at mem t (unit_tables u)" "at mem (t + length (unit_tables u)) (unit_code R u)"
    by (simp_all add: unit_body_def at_append assms(3))
  have "unit_bytes R w u = ?pre @ unit_body R w u" by (simp only: unit_bytes_def append_assoc)
  then show "length (unit_bytes R w u) = s + length (unit_body R w u)" using len by simp
  then show "length (unit_bytes R w u) = t + length (unit_tables u) + length (unit_code R u)"
    by (simp add: unit_body_def assms(3))
qed

text \<open>Where the parts of the tables are\<close>

lemma table_parts:
  assumes "at mem t (unit_tables u)" "a = t + 5 + length (unit_op_lengths u)"
    "b = a + length (concat (map (\<lambda>d. d @ [0]) (unit_dirs u)))"
    "c = b + 1 + length (concat (map file_entry (unit_files u)))"
  shows "ReadOneByte mem t = Inr (unit_min_insn u)"
    "ReadOneByte mem (t + 1) = Inr (if unit_default_stmt u then 1 else 0)"
    "ReadOneByte mem (t + 2) = Inr (unit_line_base u)" "ReadOneByte mem (t + 3) = Inr (unit_line_range u)"
    "ReadOneByte mem (t + 4) = Inr (of_nat (first_special u))"
    "at mem (t + 5) (unit_op_lengths u)"
    "at mem a (concat (map (\<lambda>d. d @ [0]) (unit_dirs u)) @ [0])"
    "at mem (b + 1) (concat (map file_entry (unit_files u)) @ [0])"
    "t + length (unit_tables u) = c + 1"
proof -
  let ?h = "[unit_min_insn u, if unit_default_stmt u then 1 else 0, unit_line_base u, unit_line_range u,
    of_nat (first_special u)]"
  have at: "at mem t ?h" "at mem (t + 5) (unit_op_lengths u)"
    "at mem a (concat (map (\<lambda>d. d @ [0]) (unit_dirs u)) @ [0])"
    "at mem (b + 1) (concat (map file_entry (unit_files u)) @ [0])"
  proof -
    define hs where "hs = ?h"
    define ds where "ds = concat (map (\<lambda>d. d @ [0 :: byte]) (unit_dirs u)) @ [0]"
    define fs where "fs = concat (map file_entry (unit_files u)) @ [0]"
    have eq: "unit_tables u = hs @ unit_op_lengths u @ ds @ fs" by (simp add: unit_tables_def hs_def ds_def fs_def)
    have "length hs = 5" "b + 1 = a + length ds" using assms(3) by (simp_all add: hs_def ds_def)
    then show "at mem t hs" "at mem (t + 5) (unit_op_lengths u)" "at mem a ds" "at mem (b + 1) fs"
      using assms(1,2) unfolding eq by (simp_all add: at_append ac_simps)
  qed
  then show "at mem (t + 5) (unit_op_lengths u)" "at mem a (concat (map (\<lambda>d. d @ [0]) (unit_dirs u)) @ [0])"
    "at mem (b + 1) (concat (map file_entry (unit_files u)) @ [0])" by simp_all
  show "ReadOneByte mem t = Inr (unit_min_insn u)"
    "ReadOneByte mem (t + 1) = Inr (if unit_default_stmt u then 1 else 0)"
    "ReadOneByte mem (t + 2) = Inr (unit_line_base u)" "ReadOneByte mem (t + 3) = Inr (unit_line_range u)"
    "ReadOneByte mem (t + 4) = Inr (of_nat (first_special u))"
    using read_nth [OF at(1), of 0] read_nth [OF at(1), of 1] read_nth [OF at(1), of 2] read_nth [OF at(1), of 3]
      read_nth [OF at(1), of 4] by simp_all
  show "t + length (unit_tables u) = c + 1" using assms(2-4) by (simp add: unit_tables_def)
qed

lemma ReadHeader_unit:
  assumes ok: "unit_ok R w u" and R: "reader_set R" and mem: "mem = unit_bytes R w u @ rest"
    and fits: "unat base + length mem < 2 ^ 64"
  shows "\<exists>h R'. ReadHeader base mem (of_nat (length mem)) R
      = Inr (h, length (unit_bytes R w u) - length (unit_code R u), unit_tables_events u, R')
    \<and> describes h u \<and> total_length h = of_nat (length (unit_body R w u)) \<and> reader_set R'
    \<and> endian R' = endian R \<and> address_size R' = address_size R \<and> offset_size R' = (if w then 8 else 4)"
proof -
  define s where "s = (if w then 12 else 4 :: nat)"
  define t where "t = s + 2 + offset_bytes w"
  define a where "a = t + 5 + length (unit_op_lengths u)"
  define b where "b = a + length (concat (map (\<lambda>d. d @ [0]) (unit_dirs u)))"
  define c where "c = b + 1 + length (concat (map file_entry (unit_files u)))"
  note parts = unit_parts [OF mem s_def t_def]
  note tables = table_parts [OF parts(4) a_def b_def c_def]
  have n: "length (unit_body R w u) < (if w then 2 ^ 64 else 0xffffffff)" and v: "unit_version u < 256 ^ 2"
    using ok by (simp_all add: unit_ok_def)
  obtain R' where init: "ReadInitialLength mem 0 R = Inr (of_nat (length (unit_body R w u)), s, R')"
    and R': "endian R' = endian R" "address_size R' = address_size R" "address_reader R' = address_reader R"
      "offset_size R' = (if w then 8 else 4)" "offset_reader R' = Some (if w then EightBytes else FourBytes)"
    using read_initial_length [OF parts(1) n] by (auto simp: s_def)
  have l: "length (unit_tables u) < 256 ^ offset_bytes w"
    using n by (auto simp: unit_body_def offset_bytes_def split: if_splits)
  have off: "ReadOffset R' mem (s + 2) = Inr (of_nat (length (unit_tables u)))"
    using parts(3) l num_bytes_endian [OF R'(1)] read_num_bytes(2,3) [of mem "s + 2" R']
    by (auto simp: ReadOffset_def ReadWith_def R'(5) offset_bytes_def split: if_splits)
  have version: "ReadTwoBytes R' mem s = Inr (of_nat (unit_version u))"
    using parts(2) v num_bytes_endian [OF R'(1)] by (simp add: read_num_bytes)
  have inside: "base + of_nat s + of_nat (length (unit_body R w u)) \<le> base + of_nat (length mem)"
  proof -
    have le: "s + length (unit_body R w u) \<le> length mem" using parts(6) by (simp add: mem)
    then have "base + of_nat (s + length (unit_body R w u)) \<le> base + of_nat (length mem)"
      using fits by (intro address_less(2))
    then show ?thesis by (simp add: add.assoc)
  qed
  have sp: "first_special u < 256" using ok by (simp add: unit_ok_def)
  have fs: "unat (of_nat (first_special u) :: byte) = first_special u" using sp by (simp add: unat_of_nat)
  have lengths: "read_lengths mem 1 (unat (of_nat (first_special u) :: byte)) (t + 5) = Inr (unit_op_lengths u, a)"
    using read_lengths_at [OF tables(6), of 1 "first_special u"] unfolding fs
    by (simp add: first_special_def a_def)
  have dirs: "read_dirs mem a 1 = Inr (map (\<lambda>(i, d). DefineDir d (of_nat i)) (number_from 1 (unit_dirs u)), b)"
    using read_dirs_at [OF tables(7), of 1] ok by (simp add: unit_ok_def b_def)
  have files: "read_files mem (b + 1) 1 = Inr (map (\<lambda>(i, name, d, t, l).
      DefineFile name (of_nat i) (of_nat d) (of_nat t) (of_nat l)) (number_from 1 (unit_files u)), c)"
    using read_files_at [OF tables(8), of 1] ok by (simp add: unit_ok_def c_def)
  have as: "address_size R' \<noteq> 0" using R R'(2) by (auto simp: reader_set_def)
  have s2: "s + 2 + unat (offset_size R') = t" by (simp add: t_def R'(4) offset_bytes_def)
  have all: "take (unat (of_nat (first_special u) :: byte) + 1) (0 # unit_op_lengths u @ [0]) = 0 # unit_op_lengths u @ [0]"
    unfolding fs by (simp add: first_special_def)
  have behind: "c + 1 = length (unit_bytes R w u) - length (unit_code R u)" using parts(7) tables(9) by simp
  show ?thesis
    unfolding ReadHeader_def Let_def init then_read_simps prod.case version off s2 assert_read_def
      tables(1-5) lengths dirs files all
    using inside as R R' ok behind sp
    by (simp add: unit_tables_events_def describes_def unit_ok_def reader_set_def)
qed

section \<open>Units are read\<close>

text \<open>
  C24. A unit of \<open>.debug_line\<close> in the layout of DWARF 2 and 3 (\<open>unit_ok\<close>) is read completely, when its
  program has no \<open>DW_LNE_define_file\<close> (which is misread, C25): for all directories and files, both offset
  sizes, both byte orders, both address sizes, every \<open>opcode_base\<close>, and any sequence of the other
  instructions that \<open>opcode_base\<close> allows, opcodes the reader does not know included, \<open>Start\<close> terminates,
  returns the length of the unit, and tells the handler of the directories, the files, and of a line from
  each row of the program to the next row of its sequence.  The version in the unit is not looked at; the
  header of DWARF 4, which has one more byte, is misread (\<open>version_4_header_misread\<close>).
\<close>

theorem line_unit_read:
  assumes "unit_ok R w u" "reader_set R" "unat base + length (unit_bytes R w u @ rest) < 2 ^ 64"
  shows "LineInfo_Start base (unit_bytes R w u @ rest) (of_nat (length (unit_bytes R w u @ rest))) R
    = Some (Inr (of_nat (length (unit_bytes R w u)),
        unit_tables_events u @ lines_of (rows_of u (unit_program u) (LSM_Reset (unit_default_stmt u)))))"
proof -
  define mem where "mem = unit_bytes R w u @ rest"
  define s where "s = (if w then 12 else 4 :: nat)"
  define t where "t = s + 2 + offset_bytes w"
  define q where "q = length (unit_bytes R w u)"
  define p where "p = q - length (unit_code R u)"
  have fits: "unat base + length mem < 2 ^ 64" using assms(3) by (simp add: mem_def)
  obtain h R' where h: "ReadHeader base mem (of_nat (length mem)) R = Inr (h, p, unit_tables_events u, R')"
    "describes h u" "total_length h = of_nat (length (unit_body R w u))" "reader_set R'"
    "endian R' = endian R" "address_size R' = address_size R" "offset_size R' = (if w then 8 else 4)"
    using ReadHeader_unit [OF assms(1,2) mem_def fits] by (auto simp: p_def q_def)
  note parts = unit_parts [OF mem_def s_def t_def]
  have code: "concat (map (op_code R' u) (unit_program u)) = unit_code R u"
    unfolding unit_code_def op_code_endian [OF h(5,6), abs_def] ..
  have ok: "list_all (op_ok R' u) (unit_program u)"
    using assms(1) unfolding unit_ok_def op_ok_endian [OF h(6), abs_def] by blast
  have "t + length (unit_tables u) = p" "q = p + length (unit_code R u)" using parts(7) by (simp_all add: p_def q_def)
  then have run: "lines_loop base mem R' h (base + of_nat q) (base + of_nat p) (LSM_Reset (default_is_stmt h)) None evs
      = Some (Inr (evs @ lines_of (rows_of u (unit_program u) (LSM_Reset (default_is_stmt h)))))" for evs
    using run_program [OF h(2,4) ok, of mem p q base "LSM_Reset (default_is_stmt h)" None] parts(5) fits
    by (simp add: code)
  have "(if offset_size R' = 8 then base + 12 else base + 4) = base + of_nat s" using h(7) by (simp add: s_def)
  then have stop: "(if offset_size R' = 8 then base + 12 else base + 4) + total_length h = base + of_nat q"
    using h(3) parts(6) by (simp add: q_def)
  show ?thesis
    unfolding mem_def [symmetric] LineInfo_Start_def h(1) sum.case prod.case Let_def stop run
    using described(8) [OF h(2)] by (simp add: q_def)
qed

definition sample_unit :: line_unit where
  "sample_unit = \<lparr>unit_version = 2, unit_min_insn = 4, unit_default_stmt = True, unit_line_base = - 3,
     unit_line_range = 12, unit_op_lengths = [0, 1, 1, 1, 1, 0, 0, 0, 1, 2], unit_dirs = [[47, 97]],
     unit_files = [([98, 46, 99], 1, 0, 300)],
     unit_program = [SetAddress 0x10000, AdvanceLine 9, Special 3, SetColumn 7, UnknownStandard 10 [5, 1000],
       Special 29, AdvanceLine (- 2), FixedAdvancePC 400, Copy, UnknownExtended 0x80 [1, 2], ConstAddPC,
       AdvancePC 3, EndSequence, SetAddress 64, SetFile 2, Copy, AdvancePC 200, EndSequence]\<rparr>"

definition big_endian_reader :: ByteReader where
  "big_endian_reader = reader_32\<lparr>endian := ENDIANNESS_BIG\<rparr>"

lemma line_unit_read_witness:
  "unit_ok big_endian_reader True sample_unit
    \<and> LineInfo_Start 4096 (unit_bytes big_endian_reader True sample_unit @ [0])
        (of_nat (length (unit_bytes big_endian_reader True sample_unit @ [0]))) big_endian_reader
      = Some (Inr (100, [DefineDir [47, 97] 1, DefineFile [98, 46, 99] 1 1 0 300,
          AddLine 0x10000 8 1 10 0, AddLine 0x10008 400 1 12 7, AddLine 0x10198 92 1 10 7,
          AddLine 64 800 2 1 0]))"
proof -
  let ?u = "unit_bytes big_endian_reader True sample_unit"
  have ok: "unit_ok big_endian_reader True sample_unit" by code_simp
  have R: "reader_set big_endian_reader" by code_simp
  have len: "length ?u = 100" by code_simp
  then have fits: "unat (4096 :: u64) + length (?u @ [0]) < 2 ^ 64" by simp
  have evs: "unit_tables_events sample_unit
      @ lines_of (rows_of sample_unit (unit_program sample_unit) (LSM_Reset (unit_default_stmt sample_unit)))
    = [DefineDir [47, 97] 1, DefineFile [98, 46, 99] 1 1 0 300,
       AddLine 0x10000 8 1 10 0, AddLine 0x10008 400 1 12 7, AddLine 0x10198 92 1 10 7, AddLine 64 800 2 1 0]"
    by code_simp
  show ?thesis using ok line_unit_read [OF ok R fits] unfolding len evs by simp
qed

section \<open>Units that are misread\<close>

text \<open>
  A header of DWARF 4 has the maximum number of operations per instruction behind the length of an
  instruction.  The reader takes it for \<open>default_is_stmt\<close>, and every field behind it for the next one.
\<close>

lemma version_4_header_misread:
  assumes "ReadHeader base mem n R = Inr (h, q, evs, R')" "ReadInitialLength mem 0 R = Inr (len, s, R')"
    and "at mem (s + 2 + unat (offset_size R'))
      [min_insn, max_ops, default_stmt, line_base', line_range', opcode_base']"
  shows "min_insn_length h = min_insn \<and> (default_is_stmt h \<longleftrightarrow> max_ops \<noteq> 0) \<and> line_base h = default_stmt
    \<and> line_range h = line_base' \<and> opcode_base h = line_range'"
  using assms(1,2) read_nth [OF assms(3), of 0] read_nth [OF assms(3), of 1] read_nth [OF assms(3), of 2]
    read_nth [OF assms(3), of 3] read_nth [OF assms(3), of 4]
  by (auto simp: ReadHeader_def Let_def then_read_def assert_read_def add.assoc split: sum.splits if_splits)

section \<open>Units that are not as DWARF says\<close>

lemma stuck_instruction:
  assumes "ProcessOneOpcode base mem R True h p s (- 1) None = Inr (False, s, 0, None, [])" "p < stop"
  shows "lines_loop base mem R h stop p s pending evs = None"
proof -
  have *: "\<not> (base', mem', R', h', stop', p', s') = (base, mem, R, h, stop, p, s)"
    if "lines_loop base' mem' R' h' stop' p' s' pending' evs' = Some y"
    for base' mem' R' h' stop' p' s' pending' evs' y
    using that
  proof (induction rule: lines_loop.raw_induct [rotated 1, consumes 1])
    case (1 f base' mem' R' h' stop' p' s' pending' evs' y)
    show ?case
    proof
      assume "(base', mem', R', h', stop', p', s') = (base, mem, R, h, stop, p, s)"
      then have "f base mem R h stop p s pending' evs' = Some y" using 1(2) assms by (auto simp: add_row_def)
      from 1(1) [OF this] show False by simp
    qed
  qed
  show ?thesis
  proof (cases "lines_loop base mem R h stop p s pending evs")
    case (Some y)
    from * [OF this] show ?thesis by simp
  qed
qed

text \<open>
  The bytes of a unit without directories and files, with a given value of \<open>line_range\<close>; the length of
  its extended instruction is \<open>2\<^sup>6\<^sup>4 - 11\<close>, so that the length with the opcode and the length itself is 0.
\<close>

definition crafted_unit :: "byte \<Rightarrow> byte list \<Rightarrow> byte list" where
  "crafted_unit range_byte code =
     num_bytes big_endian_reader 4 (22 + length code) @ num_bytes big_endian_reader 2 2 @ num_bytes big_endian_reader 4 16
     @ [1, 1, 0, range_byte, 10, 0, 1, 1, 1, 1, 0, 0, 0, 1, 0, 0] @ code"

definition stuck_code :: "byte list" where
  "stuck_code = 0 # uleb (2 ^ 64 - 11) @ [0x80]"

definition crafted_header :: "byte \<Rightarrow> u64 \<Rightarrow> LineInfoHeader" where
  "crafted_header range_byte n = \<lparr>total_length = n, version = 2, prologue_length = 16, min_insn_length = 1,
     default_is_stmt = True, line_base = 0, line_range = range_byte, opcode_base = 10,
     std_opcode_lengths = Some [0, 0, 1, 1, 1, 1, 0, 0, 0, 1, 0]\<rparr>"

definition crafted_reader :: ByteReader where
  "crafted_reader = big_endian_reader\<lparr>offset_reader := Some FourBytes, offset_size := 4\<rparr>"

lemma crafted_start:
  "ReadHeader 4096 mem m big_endian_reader = Inr (crafted_header r n, 26, [], crafted_reader) \<Longrightarrow>
    LineInfo_Start 4096 mem m big_endian_reader =
    (case lines_loop 4096 mem crafted_reader (crafted_header r n) (4100 + n) 4122 (LSM_Reset True) None [] of
       None \<Rightarrow> None
     | Some (Inl e) \<Rightarrow> Some (Inl e)
     | Some (Inr evs) \<Rightarrow> Some (Inr (4 + n, evs)))"
  by (simp add: LineInfo_Start_def crafted_header_def crafted_reader_def Let_def split: option.splits sum.splits)

lemma crafted_division:
  assumes "ReadHeader 4096 mem m big_endian_reader = Inr (crafted_header r 23, 26, [], crafted_reader)"
    "ProcessOneOpcode 4096 mem crafted_reader True (crafted_header r 23) 4122 (LSM_Reset True) (- 1) None
      = Inl DivisionByZero"
  shows "LineInfo_Start 4096 mem m big_endian_reader = Some (Inl DivisionByZero)"
  unfolding crafted_start [OF assms(1)] lines_loop.simps [of 4096 mem _ _ _ 4122] using assms(2) by simp

lemma stuck_code_read:
  "ProcessOneOpcode 4096 (crafted_unit 12 stuck_code) crafted_reader True (crafted_header 12 34) 4122 s (- 1) None
    = Inr (False, s, 0, None, [])"
proof -
  let ?mem = "crafted_unit 12 stuck_code" and ?n = "2 ^ 64 - 11 :: nat"
  have len: "length (uleb ?n) = 10" by code_simp
  have "at ?mem 26 stuck_code"
    using at_self [of "take 26 ?mem" stuck_code "[]"] by (simp add: crafted_unit_def)
  then have at: "at ?mem 26 (0 # uleb ?n @ [0x80])" by (simp only: stuck_code_def)
  have m: "length ?mem < 2 ^ 64" using len by (simp add: crafted_unit_def stuck_code_def)
  have i: "ReadOneByte ?mem (index_of 4096 4122) = Inr 0" "index_of 4096 4123 = 27"
    "at ?mem 27 (uleb ?n @ [0x80])"
    using instruction_at(1,2) [OF at m, of 4096] instruction_at(3) [OF at m] by simp_all
  have r: "ReadUnsignedLEB128 ?mem 27 = Inr (of_nat ?n, 10)"
    using i(3) read_uleb [of ?mem 27 ?n] len by (simp add: at_append)
  have "at ?mem 37 [0x80]" using i(3) len by (simp add: at_append)
  then have o: "ReadOneByte ?mem 37 = Inr 0x80" by (rule read_one)
  have "index_of 4096 (4123 + of_nat 10) = 37" by (simp add: index_of_def)
  then show ?thesis
    using i(1,2) r o by (simp add: ProcessOneOpcode_def Let_def crafted_header_def)
qed

text \<open>
  C26. The reader trusts the unit.  A unit with \<open>line_range\<close> 0 makes its first special opcode divide by
  zero, and so does \<open>DW_LNS_const_add_pc\<close>; and an extended instruction whose length is chosen so that
  the sum with its opcode wraps around to 0 is read again and again: \<open>Start\<close> does not return.
\<close>

theorem line_reader_trusts:
  "LineInfo_Start 4096 (crafted_unit 0 [20]) 27 big_endian_reader = Some (Inl DivisionByZero)
   \<and> LineInfo_Start 4096 (crafted_unit 0 [8]) 27 big_endian_reader = Some (Inl DivisionByZero)
   \<and> LineInfo_Start 4096 (crafted_unit 12 stuck_code) 38 big_endian_reader = None"
proof (intro conjI)
  have "ReadHeader 4096 (crafted_unit 0 [20]) 27 big_endian_reader = Inr (crafted_header 0 23, 26, [], crafted_reader)"
    by code_simp
  moreover have "ProcessOneOpcode 4096 (crafted_unit 0 [20]) crafted_reader True (crafted_header 0 23) 4122
      (LSM_Reset True) (- 1) None = Inl DivisionByZero"
    by code_simp
  ultimately show "LineInfo_Start 4096 (crafted_unit 0 [20]) 27 big_endian_reader = Some (Inl DivisionByZero)"
    by (rule crafted_division)
next
  have "ReadHeader 4096 (crafted_unit 0 [8]) 27 big_endian_reader = Inr (crafted_header 0 23, 26, [], crafted_reader)"
    by code_simp
  moreover have "ProcessOneOpcode 4096 (crafted_unit 0 [8]) crafted_reader True (crafted_header 0 23) 4122
      (LSM_Reset True) (- 1) None = Inl DivisionByZero"
    by code_simp
  ultimately show "LineInfo_Start 4096 (crafted_unit 0 [8]) 27 big_endian_reader = Some (Inl DivisionByZero)"
    by (rule crafted_division)
next
  have h: "ReadHeader 4096 (crafted_unit 12 stuck_code) 38 big_endian_reader
      = Inr (crafted_header 12 34, 26, [], crafted_reader)"
    by code_simp
  show "LineInfo_Start 4096 (crafted_unit 12 stuck_code) 38 big_endian_reader = None"
    unfolding crafted_start [OF h] using stuck_instruction [OF stuck_code_read, of "4100 + 34"] by simp
qed

text \<open>
  C25. \<open>DW_LNE_define_file\<close> is not read as DWARF says: the pointer is not advanced between the three
  numbers behind the name, so the handler is told that the directory, the time and the length of the
  file are all the first number, and the lengths of these reads are counted once more in the length of
  the instruction, so the program goes on behind the next instruction.
\<close>

theorem define_file_misread:
  assumes "opcode_base h \<noteq> 0" "length mem < 2 ^ 64"
    "at mem p (extended (3 # name @ 0 # uleb d @ uleb t @ uleb l))" "0 \<notin> set name" "d < 2 ^ 64"
  shows "ProcessOneOpcode base mem R has_handler h (base + of_nat p) lsm pc None
    = Inr (False, lsm,
        of_nat (length (extended (3 # name @ 0 # uleb d @ uleb t @ uleb l))) + 3 * of_nat (length (uleb d)), None,
        if has_handler then [DefineFile name (- 1) (of_nat d) (of_nat d) (of_nat d)] else [])"
proof -
  define q where "q = base + of_nat p + 1 + of_nat (length (uleb (Suc (length (name @ 0 # uleb d @ uleb t @ uleb l))))) + 1"
  note e = extended_at [OF assms(3,2) refl, of base, folded q_def]
  have at: "at mem (index_of base q) (name @ [0])" "at mem (index_of base q + length (name @ [0])) (uleb d)"
    using e(4) by (simp_all add: at_append at_Cons at_bound)
  have "index_of base (q + of_nat (length (name @ [0]))) = index_of base q + length (name @ [0])"
    using at_bound [OF at(1)] assms(2) by (intro index_of_add) simp_all
  then have r: "ReadUnsignedLEB128 mem (index_of base (q + (of_nat (length name) + 1)))
      = Inr (of_nat d, length (uleb d))"
    using read_uleb [OF at(2) assms(5)] by (simp add: add.commute)
  have "define_file base mem has_handler q
      = Inr (if has_handler then [DefineFile name (- 1) (of_nat d) (of_nat d) (of_nat d)] else [],
          3 * of_nat (length (uleb d)))"
    using c_string_at [OF at(1) assms(4)] r by (simp add: define_file_def Let_def narrow)
  then show ?thesis
    using e(1-3) assms(1) unfolding length_extended
    by (simp add: ProcessOneOpcode_def Let_def q_def)
qed

lemma define_file_misread_witness:
  "ProcessOneOpcode 4096 (extended (3 # [97] @ 0 # uleb 1 @ uleb 2 @ uleb 3)) big_endian_reader True (crafted_header 12 34)
      4096 (LSM_Reset True) 0 None
    = Inr (False, LSM_Reset True, 11, None, [DefineFile [97] (- 1) 1 1 1])
    \<and> length (extended (3 # [97] @ 0 # uleb 1 @ uleb 2 @ uleb 3)) = 8"
proof -
  have len: "length (extended (3 # [97] @ 0 # uleb 1 @ uleb 2 @ uleb 3)) = 8" "length (uleb 1) = 1" by code_simp+
  show ?thesis
    using define_file_misread [of "crafted_header 12 34" "extended (3 # [97] @ 0 # uleb 1 @ uleb 2 @ uleb 3)" 0
        "[97]" 1 2 3 4096 big_endian_reader True "LSM_Reset True" 0] len
    by (simp add: crafted_header_def at_def)
qed

end
