(* ===== verification/Static_Maps.thy ===== *)
theory Static_Maps
  imports Source_Line_Resolver "HOL-Library.Monad_Syntax"
begin

text \<open>
  \<open>src/app/breakpad/src/processor/static_map-inl.h\<close>, \<open>static_map_iterator-inl.h\<close>,
  \<open>static_range_map-inl.h\<close>, \<open>static_address_map-inl.h\<close> and \<open>static_contained_range_map-inl.h\<close>: the
  containers of the processor as they are read from a chunk of memory.

  \<^item> Memory is the list \<open>mem\<close> of its bytes, as characters; a pointer is an index.  A read outside of it,
    or through a null pointer, is \<open>None\<close>.  Numbers are stored with their least significant byte first.
  \<^item> A key type is its size and what its bytes mean.
  \<^item> A map is what its constructor remembers of the memory; an iterator is a map and an index.
\<close>

section \<open>Memory\<close>

primrec chars_num :: "string \<Rightarrow> nat" where
  "chars_num [] = 0"
| "chars_num (c # cs) = of_char c + 256 * chars_num cs"

definition read_num :: "string \<Rightarrow> nat \<Rightarrow> nat \<Rightarrow> nat option" where
  "read_num mem p k = (if p + k \<le> length mem then Some (chars_num (take k (drop p mem))) else None)"

definition read_u64 :: "string \<Rightarrow> nat \<Rightarrow> u64 option" where
  "read_u64 mem p = map_option of_nat (read_num mem p 8)"

definition read_u32 :: "string \<Rightarrow> nat \<Rightarrow> 32 word option" where
  "read_u32 mem p = map_option of_nat (read_num mem p 4)"

definition read_i32 :: "string \<Rightarrow> nat \<Rightarrow> int option" where
  "read_i32 mem p = map_option sint (read_u32 mem p)"

text \<open>A C string\<close>

definition read_string :: "string \<Rightarrow> nat \<Rightarrow> string option" where
  "read_string mem p =
     (if NUL \<in> set (drop p mem) then Some (takeWhile (\<lambda>c. c \<noteq> NUL) (drop p mem)) else None)"

record 'k key_type =
  key_size :: nat
  key_value :: "nat \<Rightarrow> 'k"

definition addr_key :: "u64 key_type" where
  "addr_key = \<lparr>key_size = 8, key_value = of_nat\<rparr>"

definition int_key :: "int key_type" where
  "int_key = \<lparr>key_size = 4, key_value = (\<lambda>n. sint (of_nat n :: 32 word))\<rparr>"

definition compare_keys :: "'k::linorder \<Rightarrow> 'k \<Rightarrow> int" where
  "compare_keys k1 k2 = (if k1 < k2 then - 1 else if k1 = k2 then 0 else 1)"

section \<open>StaticMap and its iterators\<close>

record static_map =
  raw_data :: nat
  num_nodes :: int
  offsets_ptr :: nat
  keys_ptr :: int

text \<open>\<open>1 + num_nodes_\<close> is an \<open>int\<close>.\<close>

definition new_StaticMap :: "string \<Rightarrow> nat \<Rightarrow> static_map option" where
  "new_StaticMap mem raw = do {
     n \<leftarrow> read_i32 mem raw;
     if n = 2 ^ 31 - 1 then None
     else Some \<lparr>raw_data = raw, num_nodes = n, offsets_ptr = raw + 4, keys_ptr = int raw + (1 + n) * 4\<rparr>
   }"

definition key_at :: "'k key_type \<Rightarrow> string \<Rightarrow> static_map \<Rightarrow> int \<Rightarrow> 'k option" where
  "key_at kt mem m i =
     (let p = keys_ptr m + i * int (key_size kt) in
      if p < 0 then None else map_option (key_value kt) (read_num mem (nat p) (key_size kt)))"

definition GetKeyAtIndex :: "'k key_type \<Rightarrow> string \<Rightarrow> static_map \<Rightarrow> int \<Rightarrow> 'k option" where
  "GetKeyAtIndex kt mem m i = (if i < 0 \<or> i \<ge> num_nodes m then Some (key_value kt 0) else key_at kt mem m i)"

record static_iterator =
  it_map :: static_map
  it_index :: int

definition IteratorAtIndex :: "string \<Rightarrow> static_map \<Rightarrow> int \<Rightarrow> static_iterator option" where
  "IteratorAtIndex mem m i = map_option (\<lambda>s. \<lparr>it_map = s, it_index = i\<rparr>) (new_StaticMap mem (raw_data m))"

definition SM_begin :: "string \<Rightarrow> static_map \<Rightarrow> static_iterator option" where
  "SM_begin mem m = IteratorAtIndex mem m 0"

definition SM_end :: "string \<Rightarrow> static_map \<Rightarrow> static_iterator option" where
  "SM_end mem m = IteratorAtIndex mem m (num_nodes m)"

definition same_iterator :: "static_iterator \<Rightarrow> static_iterator \<Rightarrow> bool" where
  "same_iterator x y \<longleftrightarrow> raw_data (it_map x) = raw_data (it_map y) \<and> it_index x = it_index y"

definition IsValid :: "static_iterator \<Rightarrow> bool" where
  "IsValid x \<longleftrightarrow> \<not> (it_index x < 0 \<or> it_index x > num_nodes (it_map x))"

definition it_next :: "static_iterator \<Rightarrow> static_iterator" where
  "it_next x =
     (if \<not> IsValid x then x
      else if it_index x + 1 > num_nodes (it_map x) then x\<lparr>it_index := num_nodes (it_map x)\<rparr>
      else x\<lparr>it_index := it_index x + 1\<rparr>)"

definition it_prev :: "static_iterator \<Rightarrow> static_iterator" where
  "it_prev x =
     (if \<not> IsValid x then x
      else if it_index x - 1 < 0 then x\<lparr>it_index := 0\<rparr> else x\<lparr>it_index := it_index x - 1\<rparr>)"

definition GetKey :: "'k key_type \<Rightarrow> string \<Rightarrow> static_iterator \<Rightarrow> 'k option" where
  "GetKey kt mem x = (if \<not> IsValid x then None else key_at kt mem (it_map x) (it_index x))"

definition GetValueRawPtr :: "string \<Rightarrow> static_iterator \<Rightarrow> nat option" where
  "GetValueRawPtr mem x =
     (if \<not> IsValid x then None
      else map_option (\<lambda>n. raw_data (it_map x) + n)
        (read_num mem (offsets_ptr (it_map x) + 4 * nat (it_index x)) 4))"

text \<open>
  The binary search that \<open>find\<close>, \<open>lower_bound\<close> and \<open>upper_bound\<close> share: whether the key was found, and
  \<open>middle\<close> or \<open>begin\<close>.
\<close>

function binary_search ::
  "'k::linorder key_type \<Rightarrow> string \<Rightarrow> static_map \<Rightarrow> 'k \<Rightarrow> int \<Rightarrow> int \<Rightarrow> (bool \<times> int) option"
where
  "binary_search kt mem m key lo hi =
     (if lo < hi then
        let middle = lo + (hi - lo) div 2 in
        case GetKeyAtIndex kt mem m middle of
          None \<Rightarrow> None
        | Some k \<Rightarrow>
            if compare_keys key k = 0 then Some (True, middle)
            else if compare_keys key k < 0 then binary_search kt mem m key lo middle
            else binary_search kt mem m key (middle + 1) hi
      else Some (False, lo))"
  by pat_completeness auto
termination by (relation "measure (\<lambda>(_, _, _, _, lo, hi). nat (hi - lo))") auto

declare binary_search.simps [simp del]

definition SM_find :: "'k::linorder key_type \<Rightarrow> string \<Rightarrow> static_map \<Rightarrow> 'k \<Rightarrow> static_iterator option" where
  "SM_find kt mem m key = do {
     (found, i) \<leftarrow> binary_search kt mem m key 0 (num_nodes m);
     if found then IteratorAtIndex mem m i else SM_end mem m
   }"

definition SM_lower_bound ::
  "'k::linorder key_type \<Rightarrow> string \<Rightarrow> static_map \<Rightarrow> 'k \<Rightarrow> static_iterator option"
where
  "SM_lower_bound kt mem m key = do {
     (found, i) \<leftarrow> binary_search kt mem m key 0 (num_nodes m);
     IteratorAtIndex mem m i
   }"

definition SM_upper_bound ::
  "'k::linorder key_type \<Rightarrow> string \<Rightarrow> static_map \<Rightarrow> 'k \<Rightarrow> static_iterator option"
where
  "SM_upper_bound kt mem m key = do {
     (found, i) \<leftarrow> binary_search kt mem m key 0 (num_nodes m);
     IteratorAtIndex mem m (if found then i + 1 else i)
   }"

text \<open>The loop of \<open>ValidateInMemoryStructure\<close>; it runs over the number of nodes as the map has it.\<close>

function validate_nodes :: "'k::linorder key_type \<Rightarrow> string \<Rightarrow> static_map \<Rightarrow> int \<Rightarrow> bool option" where
  "validate_nodes kt mem m i =
     (if i < num_nodes m then do {
        this_offset \<leftarrow> read_num mem (offsets_ptr m + 4 * nat i) 4;
        last_offset \<leftarrow> read_num mem (offsets_ptr m + 4 * nat (i - 1)) 4;
        if this_offset \<le> last_offset then Some False
        else do {
          this_key \<leftarrow> GetKeyAtIndex kt mem m i;
          last_key \<leftarrow> GetKeyAtIndex kt mem m (i - 1);
          if compare_keys this_key last_key \<le> 0 then Some False
          else validate_nodes kt mem m (i + 1)
        }
      }
      else Some True)"
  by pat_completeness auto
termination by (relation "measure (\<lambda>(_, _, m, i). nat (num_nodes m - i))") auto

declare validate_nodes.simps [simp del]

text \<open>
  \<open>first_offset\<close> is computed with \<open>size_t\<close>: a factor of \<open>num_nodes_ + 1\<close> that is not negative here.
\<close>

definition ValidateInMemoryStructure :: "'k::linorder key_type \<Rightarrow> string \<Rightarrow> static_map \<Rightarrow> bool option" where
  "ValidateInMemoryStructure kt mem m = do {
     n \<leftarrow> read_i32 mem (raw_data m);
     if n < 0 then Some False
     else do {
       first_ok \<leftarrow>
         (if num_nodes m \<noteq> 0 then
            let first_offset = 4 * (num_nodes m + 1) + int (key_size kt) * num_nodes m in
            if first_offset > 0xffffffff then Some False
            else map_option (\<lambda>offset. int offset = first_offset) (read_num mem (offsets_ptr m) 4)
          else Some True);
       if \<not> first_ok then Some False else validate_nodes kt mem m 1
     }
   }"

section \<open>StaticRangeMap and StaticAddressMap\<close>

text \<open>What a lookup hands out: the pointer to the entry, base and size; \<open>None\<close> if it returns false\<close>

type_synonym static_found = "(nat \<times> u64 \<times> u64) option"

definition static_range :: "string \<Rightarrow> static_iterator \<Rightarrow> nat \<Rightarrow> u64 \<Rightarrow> static_found option" where
  "static_range mem x rg base = do {
     key \<leftarrow> GetKey addr_key mem x;
     Some (Some (rg + 8, base, key - base + 1))
   }"

definition SRM_RetrieveRange :: "string \<Rightarrow> static_map \<Rightarrow> u64 \<Rightarrow> static_found option" where
  "SRM_RetrieveRange mem m address = do {
     x \<leftarrow> SM_lower_bound addr_key mem m address;
     e \<leftarrow> SM_end mem m;
     if same_iterator x e then Some None
     else do {
       rg \<leftarrow> GetValueRawPtr mem x;
       base \<leftarrow> read_u64 mem rg;
       if address < base then Some None else static_range mem x rg base
     }
   }"

definition SRM_RetrieveNearestRange :: "string \<Rightarrow> static_map \<Rightarrow> u64 \<Rightarrow> static_found option" where
  "SRM_RetrieveNearestRange mem m address = do {
     found \<leftarrow> SRM_RetrieveRange mem m address;
     if found \<noteq> None then Some found
     else do {
       x \<leftarrow> SM_upper_bound addr_key mem m address;
       b \<leftarrow> SM_begin mem m;
       if same_iterator x b then Some None
       else do {
         rg \<leftarrow> GetValueRawPtr mem (it_prev x);
         base \<leftarrow> read_u64 mem rg;
         static_range mem (it_prev x) rg base
       }
     }
   }"

definition SRM_RetrieveRangeAtIndex :: "string \<Rightarrow> static_map \<Rightarrow> int \<Rightarrow> static_found option" where
  "SRM_RetrieveRangeAtIndex mem m index =
     (if index \<ge> num_nodes m then Some None
      else do {
        x \<leftarrow> IteratorAtIndex mem m index;
        rg \<leftarrow> GetValueRawPtr mem x;
        base \<leftarrow> read_u64 mem rg;
        static_range mem x rg base
      })"

text \<open>The pointer to the entry and its address\<close>

definition SAM_Retrieve :: "string \<Rightarrow> static_map \<Rightarrow> u64 \<Rightarrow> (nat \<times> u64) option option" where
  "SAM_Retrieve mem m address = do {
     x \<leftarrow> SM_upper_bound addr_key mem m address;
     b \<leftarrow> SM_begin mem m;
     if same_iterator x b then Some None
     else do {
       entry \<leftarrow> GetValueRawPtr mem (it_prev x);
       key \<leftarrow> GetKey addr_key mem (it_prev x);
       Some (Some (entry, key))
     }
   }"

section \<open>StaticContainedRangeMap\<close>

record static_crange =
  sc_base :: u64
  sc_entry :: "nat option"
  sc_map :: static_map

definition new_StaticContainedRangeMap :: "string \<Rightarrow> nat \<Rightarrow> static_crange option" where
  "new_StaticContainedRangeMap mem p = do {
     base \<leftarrow> read_u64 mem p;
     entry_size \<leftarrow> read_num mem (p + 8) 4;
     m \<leftarrow> new_StaticMap mem (p + 12 + entry_size);
     Some \<lparr>sc_base = base, sc_entry = (if entry_size = 0 then None else Some (p + 12)), sc_map = m\<rparr>
   }"

text \<open>
  The pointer to the entry, which may be null.  Offsets that lead back to the node make the search
  run forever, which is \<open>None\<close>.
\<close>

partial_function (option) SCRM_RetrieveRange ::
  "string \<Rightarrow> static_crange \<Rightarrow> u64 \<Rightarrow> nat option option option"
where
  "SCRM_RetrieveRange mem t address = do {
     x \<leftarrow> SM_lower_bound addr_key mem (sc_map t) address;
     e \<leftarrow> SM_end mem (sc_map t);
     if same_iterator x e then Some None
     else do {
       memory_child \<leftarrow> GetValueRawPtr mem x;
       child_map \<leftarrow> new_StaticContainedRangeMap mem memory_child;
       if address < sc_base child_map then Some None
       else do {
         found \<leftarrow> SCRM_RetrieveRange mem child_map address;
         Some (case found of None \<Rightarrow> Some (sc_entry child_map) | Some entry \<Rightarrow> Some entry)
       }
     }
   }"

end
