(* ===== verification/Map_Serializers.thy ===== *)
theory Map_Serializers
  imports Static_Maps
begin

text \<open>
  \<open>src/app/breakpad/src/processor/simple_serializer.h\<close>, \<open>simple_serializer-inl.h\<close> and
  \<open>map_serializers-inl.h\<close>: what the processor writes into memory for \<open>Static_Maps\<close> to read.

  \<^item> \<open>Write\<close> takes an object, the pointer \<open>dest\<close> and the memory, and returns the memory and the pointer
    behind what it wrote, or \<open>None\<close> if it leaves the memory.  A map is written with three pointers, to
    the offsets, the keys and the values.
  \<^item> A serializer of a \<open>linked_ptr\<close> that is not null is the serializer of its object; the null pointer
    that is the entry of a root is a flag of \<open>CR_Write\<close>.
  \<^item> The locale \<open>serializer\<close> is the contract: \<open>SizeOf\<close> is the number of characters that \<open>Write\<close> replaces,
    and \<open>Write\<close> needs no more room.
\<close>

section \<open>Writing\<close>

type_synonym 'a writer = "'a \<Rightarrow> nat \<Rightarrow> string \<Rightarrow> (string \<times> nat) option"

definition write_chars :: "string writer" where
  "write_chars s dest mem =
     (if dest + length s \<le> length mem
      then Some (take dest mem @ s @ drop (dest + length s) mem, dest + length s) else None)"

primrec num_chars :: "nat \<Rightarrow> nat \<Rightarrow> string" where
  "num_chars 0 n = []"
| "num_chars (Suc k) n = char_of n # num_chars k (n div 256)"

definition write_num :: "nat \<Rightarrow> nat writer" where
  "write_num k n = write_chars (num_chars k n)"

definition write_u64 :: "u64 writer" where
  "write_u64 x = write_num 8 (unat x)"

definition write_u32 :: "32 word writer" where
  "write_u32 x = write_num 4 (unat x)"

definition write_i32 :: "int writer" where
  "write_i32 i = write_u32 (word_of_int i)"

definition write_bool :: "bool writer" where
  "write_bool b = write_chars [char_of (if b then 255 else 0 :: nat)]"

definition String_SizeOf :: "string \<Rightarrow> nat" where
  "String_SizeOf s = length s + 1"

definition String_Write :: "string writer" where
  "String_Write s dest mem =
     map_option (\<lambda>(mem, _). (mem, dest + String_SizeOf s))
       (write_chars (takeWhile (\<lambda>c. c \<noteq> NUL) s @ [NUL]) dest mem)"

section \<open>Maps\<close>

text \<open>The loop over the nodes, with the pointers to the next offset, key and value\<close>

fun write_nodes ::
  "'k writer \<Rightarrow> 'v writer \<Rightarrow> ('k \<times> 'v) list \<Rightarrow> nat \<Rightarrow> nat \<Rightarrow> nat \<Rightarrow> nat \<Rightarrow> string \<Rightarrow> (string \<times> nat) option"
where
  "write_nodes kw vw [] start offsets key_address dest mem = Some (mem, dest)"
| "write_nodes kw vw ((k, v) # m) start offsets key_address dest mem = do {
     (mem, offsets) \<leftarrow> write_num 4 (dest - start) offsets mem;
     (mem, key_address) \<leftarrow> kw k key_address mem;
     (mem, dest) \<leftarrow> vw v dest mem;
     write_nodes kw vw m start offsets key_address dest mem
   }"

lemma write_nodes_cong [fundef_cong]:
  "m = m' \<Longrightarrow> (\<And>k v dest mem. (k, v) \<in> set m' \<Longrightarrow> vw v dest mem = vw' v dest mem) \<Longrightarrow>
    write_nodes kw vw m start offsets key_address dest mem = write_nodes kw vw' m' start offsets key_address dest mem"
proof (induction m arbitrary: m' offsets key_address dest mem)
  case (Cons p m)
  obtain k v where "p = (k, v)" by (cases p)
  moreover have "m' = (k, v) # m" using Cons.prems(1) calculation by simp
  moreover have "vw v dest mem = vw' v dest mem" for dest mem by (rule Cons.prems(2) [of k]) (simp add: calculation(2))
  moreover have "write_nodes kw vw m start offsets key_address dest mem
      = write_nodes kw vw' m start offsets key_address dest mem" for offsets key_address dest mem
    by (rule Cons.IH) (auto intro: Cons.prems(2) simp: calculation(2))
  ultimately show ?case by simp
qed simp

definition StdMap_SizeOf :: "('k \<Rightarrow> nat) \<Rightarrow> ('v \<Rightarrow> nat) \<Rightarrow> ('k, 'v) std_map \<Rightarrow> nat" where
  "StdMap_SizeOf ks vs m = (1 + length m) * 4 + sum_list (map (\<lambda>p. ks (fst p) + vs (snd p)) m)"

definition StdMap_Write :: "nat \<Rightarrow> 'k writer \<Rightarrow> 'v writer \<Rightarrow> ('k, 'v) std_map writer" where
  "StdMap_Write key_sz kw vw m start mem = do {
     (mem, dest) \<leftarrow> write_num 4 (length m) start mem;
     let offsets = dest;
     let key_address = offsets + 4 * length m;
     write_nodes kw vw m start offsets key_address (key_address + key_sz * length m) mem
   }"

definition RangeMap_SizeOf :: "('e \<Rightarrow> nat) \<Rightarrow> (u64, 'e) RangeMap \<Rightarrow> nat" where
  "RangeMap_SizeOf es s = StdMap_SizeOf (\<lambda>_. 8) (\<lambda>r. 8 + es (rng_entry r)) (rm_map s)"

definition Range_Write :: "'e writer \<Rightarrow> (u64, 'e) range_rec writer" where
  "Range_Write ew r dest mem = do {
     (mem, dest) \<leftarrow> write_u64 (rng_base r) dest mem;
     ew (rng_entry r) dest mem
   }"

definition RangeMap_Write :: "'e writer \<Rightarrow> (u64, 'e) RangeMap writer" where
  "RangeMap_Write ew s = StdMap_Write 8 write_u64 (Range_Write ew) (rm_map s)"

text \<open>\<open>null\<close> tells whether the entry is a null pointer.\<close>

function CR_SizeOf :: "('e \<Rightarrow> nat) \<Rightarrow> bool \<Rightarrow> (u64, 'e) crange \<Rightarrow> nat" where
  "CR_SizeOf es null (CRange b e m) =
     8 + (if null then 0 else es e) + 4 + 4 + length m * 4
     + sum_list (map (\<lambda>p. 8 + CR_SizeOf es False (snd p)) m)"
  by pat_completeness auto
termination by (relation "measure (\<lambda>(_, _, t). size t)") (auto intro: child_size [simplified])

function CR_Write :: "('e \<Rightarrow> nat) \<Rightarrow> 'e writer \<Rightarrow> bool \<Rightarrow> (u64, 'e) crange writer" where
  "CR_Write es ew null (CRange b e m) dest mem = do {
     (mem, dest) \<leftarrow> write_u64 b dest mem;
     (mem, dest) \<leftarrow> write_num 4 (if null then 0 else es e) dest mem;
     (mem, map_address) \<leftarrow> (if null then Some (mem, dest) else ew e dest mem);
     (mem, dest) \<leftarrow> write_num 4 (length m) map_address mem;
     let offsets = dest;
     let key_address = offsets + 4 * length m;
     write_nodes write_u64 (\<lambda>t. CR_Write es ew False t) m map_address offsets key_address
       (key_address + 8 * length m) mem
   }"
  by pat_completeness auto
termination
  by (relation "measure (\<lambda>(_, _, _, t, _). size t)") (auto dest: child_size)

declare CR_SizeOf.simps [simp del] CR_Write.simps [simp del]

section \<open>Records\<close>

definition Line_SizeOf :: "Line \<Rightarrow> nat" where
  "Line_SizeOf l = 8 + 8 + 4 + 4"

definition Line_Write :: "Line writer" where
  "Line_Write l dest mem = do {
     (mem, dest) \<leftarrow> write_u64 (line_address l) dest mem;
     (mem, dest) \<leftarrow> write_u64 (line_size l) dest mem;
     (mem, dest) \<leftarrow> write_i32 (source_file_id l) dest mem;
     write_i32 (line_number l) dest mem
   }"

definition PublicSymbol_SizeOf :: "PublicSymbol \<Rightarrow> nat" where
  "PublicSymbol_SizeOf s = String_SizeOf (symbol_name s) + 8 + 4"

definition PublicSymbol_Write :: "PublicSymbol writer" where
  "PublicSymbol_Write s dest mem = do {
     (mem, dest) \<leftarrow> String_Write (symbol_name s) dest mem;
     (mem, dest) \<leftarrow> write_u64 (symbol_address s) dest mem;
     write_i32 (symbol_parameter_size s) dest mem
   }"

definition WFI_SizeOf :: "WindowsFrameInfo \<Rightarrow> nat" where
  "WFI_SizeOf w = 4 + 4 + 4 + 4 + 4 + 4 + 4 + 4 + 1 + String_SizeOf (program_string w)"

definition WFI_Write :: "WindowsFrameInfo writer" where
  "WFI_Write w dest mem = do {
     (mem, dest) \<leftarrow> write_i32 (wf_type w) dest mem;
     (mem, dest) \<leftarrow> write_i32 (wf_valid w) dest mem;
     (mem, dest) \<leftarrow> write_u32 (prolog_size w) dest mem;
     (mem, dest) \<leftarrow> write_u32 (epilog_size w) dest mem;
     (mem, dest) \<leftarrow> write_u32 (wf_parameter_size w) dest mem;
     (mem, dest) \<leftarrow> write_u32 (saved_register_size w) dest mem;
     (mem, dest) \<leftarrow> write_u32 (local_size w) dest mem;
     (mem, dest) \<leftarrow> write_u32 (max_stack_size w) dest mem;
     (mem, dest) \<leftarrow> write_bool (allocates_base_pointer w) dest mem;
     String_Write (program_string w) dest mem
   }"

definition Function_SizeOf :: "Function \<Rightarrow> nat" where
  "Function_SizeOf f = String_SizeOf (func_name f) + 8 + 8 + 4 + RangeMap_SizeOf Line_SizeOf (func_lines f)"

definition Function_Write :: "Function writer" where
  "Function_Write f dest mem = do {
     (mem, dest) \<leftarrow> String_Write (func_name f) dest mem;
     (mem, dest) \<leftarrow> write_u64 (func_address f) dest mem;
     (mem, dest) \<leftarrow> write_u64 (func_size f) dest mem;
     (mem, dest) \<leftarrow> write_i32 (func_parameter_size f) dest mem;
     RangeMap_Write Line_Write (func_lines f) dest mem
   }"

section \<open>Modules\<close>

text \<open>\<open>module_serializer.cc\<close>.  A function is serialized where the map of functions points to it.\<close>

definition kNumberMaps :: nat where "kNumberMaps = 5 + STACK_INFO_LAST"

definition map_sizes :: "Module \<Rightarrow> nat list" where
  "map_sizes m =
     [StdMap_SizeOf (\<lambda>_. 4) String_SizeOf (file_map m),
      RangeMap_SizeOf (\<lambda>i. Function_SizeOf (func_store m ! i)) (function_map m),
      StdMap_SizeOf (\<lambda>_. 8) PublicSymbol_SizeOf (public_symbols m)]
     @ map (\<lambda>i. CR_SizeOf WFI_SizeOf True (windows_frame_info m ! i)) [0..<STACK_INFO_LAST]
     @ [RangeMap_SizeOf String_SizeOf (cfi_initial_rules m),
        StdMap_SizeOf (\<lambda>_. 8) String_SizeOf (cfi_delta_rules m)]"

definition Module_SizeOf :: "Module \<Rightarrow> nat" where
  "Module_SizeOf m = 1 + kNumberMaps * 4 + sum_list (map_sizes m) + 1"

fun write_list :: "'a writer \<Rightarrow> 'a list writer" where
  "write_list w [] dest mem = Some (mem, dest)"
| "write_list w (x # xs) dest mem = do {
     (mem, dest) \<leftarrow> w x dest mem;
     write_list w xs dest mem
   }"

definition Module_Write :: "Module writer" where
  "Module_Write m dest mem = do {
     (mem, dest) \<leftarrow> write_bool (is_corrupt m) dest mem;
     (mem, dest) \<leftarrow> write_list (write_num 4) (map_sizes m) dest mem;
     (mem, dest) \<leftarrow> StdMap_Write 4 write_i32 String_Write (file_map m) dest mem;
     (mem, dest) \<leftarrow> RangeMap_Write (\<lambda>i. Function_Write (func_store m ! i)) (function_map m) dest mem;
     (mem, dest) \<leftarrow> StdMap_Write 8 write_u64 PublicSymbol_Write (public_symbols m) dest mem;
     (mem, dest) \<leftarrow> write_list (\<lambda>i. CR_Write WFI_SizeOf WFI_Write True (windows_frame_info m ! i))
       [0..<STACK_INFO_LAST] dest mem;
     (mem, dest) \<leftarrow> RangeMap_Write String_Write (cfi_initial_rules m) dest mem;
     (mem, dest) \<leftarrow> StdMap_Write 8 write_u64 String_Write (cfi_delta_rules m) dest mem;
     write_chars [NUL] dest mem
   }"

text \<open>\<open>fresh n\<close> is the memory that \<open>new char[n]\<close> returns.\<close>

definition Serialize_Module :: "(nat \<Rightarrow> string) \<Rightarrow> Module \<Rightarrow> string option" where
  "Serialize_Module fresh m =
     map_option fst (Module_Write m 0 (fresh (Module_SizeOf m mod 2 ^ 32)))"

definition SerializeSymbolFileData :: "(nat \<Rightarrow> string) \<Rightarrow> string \<Rightarrow> string option run" where
  "SerializeSymbolFileData fresh symbol_data =
     (case LoadMapFromMemory (symbol_data @ [NUL]) new_Module of
        Done (ok, m) \<Rightarrow> Done (if \<not> ok then None else Serialize_Module fresh m)
      | Overread \<Rightarrow> Overread
      | NoReturn \<Rightarrow> NoReturn)"

end
