(* ===== verification/Map_Layout.thy ===== *)
theory Map_Layout
  imports Map_Serializers
begin

text \<open>
  What the serializers write: for each the characters of an object, as one text, and the contract
  \<open>serializer\<close>, which every serializer of \<open>Map_Serializers\<close> fulfils.
\<close>

section \<open>The contract\<close>

text \<open>A piece of a serializer replaces as many characters as it emits, at \<open>dest\<close>, and nothing else.\<close>

definition emits :: "(nat \<Rightarrow> string \<Rightarrow> (string \<times> nat) option) \<Rightarrow> string \<Rightarrow> bool" where
  "emits f s \<longleftrightarrow> (\<forall>pre old post. length old = length s \<longrightarrow>
     f (length pre) (pre @ old @ post) = Some (pre @ s @ post, length pre + length s))"

lemma emitsD:
  "emits f s \<Longrightarrow> length old = length s \<Longrightarrow> p = length pre \<Longrightarrow>
    f p (pre @ old @ post) = Some (pre @ s @ post, p + length s)"
  by (simp add: emits_def)

lemma emits_bind:
  assumes "emits f s" "emits g t"
  shows "emits (\<lambda>dest mem. do { (mem, dest) \<leftarrow> f dest mem; g dest mem }) (s @ t)"
  unfolding emits_def
proof (intro allI impI)
  fix pre old post :: string
  assume len: "length old = length (s @ t)"
  have old: "pre @ old @ post = pre @ take (length s) old @ drop (length s) old @ post" by simp
  have "f (length pre) (pre @ take (length s) old @ drop (length s) old @ post)
      = Some (pre @ s @ drop (length s) old @ post, length pre + length s)"
    using len by (intro emitsD [OF assms(1)]) simp_all
  moreover have "g (length (pre @ s)) ((pre @ s) @ drop (length s) old @ post)
      = Some ((pre @ s) @ t @ post, length (pre @ s) + length t)"
    using len by (intro emitsD [OF assms(2)]) simp_all
  ultimately show "do { (mem, dest) \<leftarrow> f (length pre) (pre @ old @ post); g dest mem }
      = Some (pre @ (s @ t) @ post, length pre + length (s @ t))"
    unfolding old by simp
qed

lemma emits_nothing: "emits (\<lambda>dest mem. Some (mem, dest)) []"
  by (simp add: emits_def)

locale serializer =
  fixes ok :: "'a \<Rightarrow> bool"
    and SizeOf :: "'a \<Rightarrow> nat"
    and Write :: "'a writer"
    and chars :: "'a \<Rightarrow> string"
  assumes size_chars: "ok x \<Longrightarrow> SizeOf x = length (chars x)"
    and write_emits: "ok x \<Longrightarrow> emits (Write x) (chars x)"
begin

lemma write_fresh:
  assumes "ok x" "length mem = SizeOf x"
  shows "Write x 0 mem = Some (chars x, SizeOf x)"
  using emitsD [OF write_emits [OF assms(1)], of mem 0 "[]" "[]"] size_chars [OF assms(1)] assms(2) by simp

end

section \<open>Numbers and strings\<close>

lemma length_num_chars [simp]: "length (num_chars k n) = k"
  by (induction k arbitrary: n) simp_all

lemma emits_chars: "emits (write_chars s) s"
  by (simp add: emits_def write_chars_def)

lemma emits_num: "emits (write_num k n) (num_chars k n)"
  unfolding write_num_def by (rule emits_chars)

definition u64_chars :: "u64 \<Rightarrow> string" where "u64_chars x = num_chars 8 (unat x)"
definition u32_chars :: "32 word \<Rightarrow> string" where "u32_chars x = num_chars 4 (unat x)"
definition i32_chars :: "int \<Rightarrow> string" where "i32_chars i = u32_chars (word_of_int i)"
definition bool_chars :: "bool \<Rightarrow> string" where "bool_chars b = [char_of (if b then 255 else 0 :: nat)]"
definition string_chars :: "string \<Rightarrow> string" where "string_chars s = s @ [NUL]"

lemma length_number_chars [simp]:
  "length (u64_chars x) = 8" "length (u32_chars y) = 4" "length (i32_chars i) = 4" "length (bool_chars b) = 1"
  by (simp_all add: u64_chars_def u32_chars_def i32_chars_def bool_chars_def)

lemma emits_numbers:
  "emits (write_u64 x) (u64_chars x)" "emits (write_u32 y) (u32_chars y)" "emits (write_i32 i) (i32_chars i)"
  "emits (write_bool b) (bool_chars b)"
  unfolding write_u64_def write_u32_def write_i32_def write_bool_def u64_chars_def u32_chars_def i32_chars_def
    bool_chars_def
  by (rule emits_num emits_chars)+

definition no_nul :: "string \<Rightarrow> bool" where "no_nul s \<longleftrightarrow> NUL \<notin> set s"

lemma emits_string:
  assumes "no_nul s"
  shows "emits (String_Write s) (string_chars s)"
  unfolding emits_def
proof (intro allI impI)
  fix pre old post :: string
  assume "length old = length (string_chars s)"
  from emitsD [OF emits_chars this refl, of pre post]
  have "write_chars (s @ [NUL]) (length pre) (pre @ old @ post)
      = Some (pre @ string_chars s @ post, length pre + length (string_chars s))"
    by (simp add: string_chars_def)
  moreover have "takeWhile (\<lambda>c. c \<noteq> NUL) s = s" using assms by (auto simp: no_nul_def takeWhile_eq_all_conv)
  ultimately show "String_Write s (length pre) (pre @ old @ post)
      = Some (pre @ string_chars s @ post, length pre + length (string_chars s))"
    by (simp only: String_Write_def) (simp add: String_SizeOf_def string_chars_def)
qed

interpretation string_ser: serializer no_nul String_SizeOf String_Write string_chars
proof
  show "String_SizeOf x = length (string_chars x)" for x by (simp add: String_SizeOf_def string_chars_def)
qed (rule emits_string)

section \<open>Maps\<close>

text \<open>Where values begin that follow one another\<close>

fun offsets_from :: "nat \<Rightarrow> string list \<Rightarrow> nat list" where
  "offsets_from d [] = []"
| "offsets_from d (s # ss) = d # offsets_from (d + length s) ss"

lemma length_offsets_from [simp]: "length (offsets_from d ss) = length ss"
  by (induction ss arbitrary: d) simp_all

definition offsets_chars :: "nat \<Rightarrow> string list \<Rightarrow> string" where
  "offsets_chars d ss = concat (map (num_chars 4) (offsets_from d ss))"

lemma length_offsets_chars [simp]: "length (offsets_chars d ss) = 4 * length ss"
  unfolding offsets_chars_def by (induction ss arbitrary: d) simp_all

lemma write_nodes_emits:
  assumes "\<And>k v. (k, v) \<in> set m \<Longrightarrow> emits (kw k) (kc k) \<and> length (kc k) = z \<and> emits (vw v) (vc v)"
    "length os = 4 * length m" "length ks = z * length m" "length vs = length (concat (map (\<lambda>p. vc (snd p)) m))"
    "start \<le> length A + length os + length B + length ks + length C"
  shows "write_nodes kw vw m start (length A) (length A + length os + length B)
      (length A + length os + length B + length ks + length C) (A @ os @ B @ ks @ C @ vs @ D)
    = Some (A @ offsets_chars (length A + length os + length B + length ks + length C - start) (map (\<lambda>p. vc (snd p)) m)
        @ B @ concat (map (\<lambda>p. kc (fst p)) m) @ C @ concat (map (\<lambda>p. vc (snd p)) m) @ D,
        length A + length os + length B + length ks + length C + length (concat (map (\<lambda>p. vc (snd p)) m)))"
  using assms
proof (induction m arbitrary: A os B ks C vs)
  case (Cons p m)
  obtain k v where p: "p = (k, v)" by (cases p)
  have e: "emits (kw k) (kc k)" "length (kc k) = z" "emits (vw v) (vc v)" using Cons.prems(1) [of k v] p by simp_all
  let ?d = "length A + length os + length B + length ks + length C"
  obtain o0 os' where os: "os = o0 @ os'" "length o0 = 4" "length os' = 4 * length m"
    using Cons.prems(2) by (intro that [of "take 4 os" "drop 4 os"]) simp_all
  obtain k0 ks' where ks: "ks = k0 @ ks'" "length k0 = z" "length ks' = z * length m"
    using Cons.prems(3) by (intro that [of "take z ks" "drop z ks"]) simp_all
  obtain v0 vs' where vs: "vs = v0 @ vs'" "length v0 = length (vc v)"
    "length vs' = length (concat (map (\<lambda>p. vc (snd p)) m))"
    using Cons.prems(4) p by (intro that [of "take (length (vc v)) vs" "drop (length (vc v)) vs"]) simp_all
  let ?o = "num_chars 4 (?d - start)"
  have 1: "write_num 4 (?d - start) (length A) (A @ os @ B @ ks @ C @ vs @ D)
      = Some (A @ ?o @ os' @ B @ ks @ C @ vs @ D, length A + 4)"
    using emitsD [OF emits_num [of 4 "?d - start"], of o0 "length A" A "os' @ B @ ks @ C @ vs @ D"] os by simp
  have 2: "kw k (length A + length os + length B) (A @ ?o @ os' @ B @ ks @ C @ vs @ D)
      = Some (A @ ?o @ os' @ B @ kc k @ ks' @ C @ vs @ D, length A + length os + length B + z)"
    using emitsD [OF e(1), of k0 "length A + length os + length B" "A @ ?o @ os' @ B" "ks' @ C @ vs @ D"] os ks e(2)
    by simp
  have 3: "vw v ?d (A @ ?o @ os' @ B @ kc k @ ks' @ C @ vs @ D)
      = Some (A @ ?o @ os' @ B @ kc k @ ks' @ C @ vc v @ vs' @ D, ?d + length (vc v))"
    using emitsD [OF e(3), of v0 ?d "A @ ?o @ os' @ B @ kc k @ ks' @ C" "vs' @ D"] os ks vs e(2) by simp
  have IH: "write_nodes kw vw m start (length (A @ ?o)) (length (A @ ?o) + length os' + length (B @ kc k))
      (length (A @ ?o) + length os' + length (B @ kc k) + length ks' + length (C @ vc v))
      ((A @ ?o) @ os' @ (B @ kc k) @ ks' @ (C @ vc v) @ vs' @ D)
    = Some ((A @ ?o) @ offsets_chars (length (A @ ?o) + length os' + length (B @ kc k) + length ks'
          + length (C @ vc v) - start) (map (\<lambda>p. vc (snd p)) m)
        @ (B @ kc k) @ concat (map (\<lambda>p. kc (fst p)) m) @ (C @ vc v) @ concat (map (\<lambda>p. vc (snd p)) m) @ D,
        length (A @ ?o) + length os' + length (B @ kc k) + length ks' + length (C @ vc v)
          + length (concat (map (\<lambda>p. vc (snd p)) m)))"
    using Cons.prems(1,5) os ks vs e(2) by (intro Cons.IH) auto
  have pos: "length (A @ ?o) = length A + 4"
    "length (A @ ?o) + length os' + length (B @ kc k) = length A + length os + length B + z"
    "length (A @ ?o) + length os' + length (B @ kc k) + length ks' + length (C @ vc v) = ?d + length (vc v)"
    using os ks vs e(2) by simp_all
  have off: "offsets_chars (?d - start) (map (\<lambda>p. vc (snd p)) (p # m))
      = ?o @ offsets_chars (?d + length (vc v) - start) (map (\<lambda>p. vc (snd p)) m)"
    using Cons.prems(5) p by (simp add: offsets_chars_def)
  show ?case
    using IH [unfolded pos(3), unfolded pos(2), unfolded pos(1)]
    unfolding p off [unfolded p] write_nodes.simps 1 Option.bind.simps prod.case 2 3
    by simp
qed (simp add: offsets_chars_def)

definition map_chars :: "nat \<Rightarrow> ('k \<Rightarrow> string) \<Rightarrow> ('v \<Rightarrow> string) \<Rightarrow> ('k, 'v) std_map \<Rightarrow> string" where
  "map_chars z kc vc m =
     num_chars 4 (length m) @ offsets_chars (4 + 4 * length m + z * length m) (map (\<lambda>p. vc (snd p)) m)
     @ concat (map (\<lambda>p. kc (fst p)) m) @ concat (map (\<lambda>p. vc (snd p)) m)"

lemma map_chars_cong [fundef_cong]:
  assumes "m = m'" "\<And>k v. (k, v) \<in> set m' \<Longrightarrow> vc v = vc' v"
  shows "map_chars z kc vc m = map_chars z kc vc' m'"
proof -
  have vals: "map (\<lambda>p. vc (snd p)) m' = map (\<lambda>p. vc' (snd p)) m'" using assms(2) by auto
  show ?thesis unfolding map_chars_def assms(1) vals ..
qed

lemma length_concat_same: "(\<And>x. x \<in> set xs \<Longrightarrow> length (f x) = z) \<Longrightarrow> length (concat (map f xs)) = z * length xs"
  by (induction xs) simp_all

lemma length_map_chars:
  assumes "\<And>k v. (k, v) \<in> set m \<Longrightarrow> length (kc k) = z"
  shows "length (map_chars z kc vc m)
    = 4 + 4 * length m + z * length m + length (concat (map (\<lambda>p. vc (snd p)) m))"
proof -
  have "length (concat (map (\<lambda>p. kc (fst p)) m)) = z * length m"
    using assms by (intro length_concat_same) auto
  then show ?thesis by (simp add: map_chars_def)
qed

lemma StdMap_emits:
  assumes "\<And>k v. (k, v) \<in> set m \<Longrightarrow> emits (kw k) (kc k) \<and> length (kc k) = z \<and> emits (vw v) (vc v)"
  shows "emits (StdMap_Write z kw vw m) (map_chars z kc vc m)"
  unfolding emits_def
proof (intro allI impI)
  fix pre old post :: string
  let ?n = "length m" and ?v = "length (concat (map (\<lambda>p. vc (snd p)) m))"
  assume "length old = length (map_chars z kc vc m)"
  then have len: "length old = 4 + 4 * ?n + z * ?n + ?v" using assms by (simp add: length_map_chars)
  have keys: "length (concat (map (\<lambda>p. kc (fst p)) m)) = z * ?n"
    using assms by (intro length_concat_same) auto
  define n0 where "n0 = take 4 old"
  define os where "os = take (4 * ?n) (drop 4 old)"
  define ks where "ks = take (z * ?n) (drop (4 + 4 * ?n) old)"
  define vs where "vs = drop (4 + 4 * ?n + z * ?n) old"
  have parts: "old = n0 @ os @ ks @ vs"
    unfolding n0_def os_def ks_def vs_def by (metis append_take_drop_id drop_drop add.commute)
  have lens: "length n0 = 4" "length os = 4 * ?n" "length ks = z * ?n" "length vs = ?v"
    using len by (simp_all add: n0_def os_def ks_def vs_def)
  have "write_num 4 ?n (length pre) (pre @ old @ post)
      = Some (pre @ num_chars 4 ?n @ os @ ks @ vs @ post, length pre + 4)"
    using emitsD [OF emits_num [of 4 ?n], of n0 "length pre" pre "os @ ks @ vs @ post"] lens parts by simp
  then show "StdMap_Write z kw vw m (length pre) (pre @ old @ post)
      = Some (pre @ map_chars z kc vc m @ post, length pre + length (map_chars z kc vc m))"
    using write_nodes_emits [of m kw kc z vw vc os ks vs "length pre" "pre @ num_chars 4 ?n" "[]" "[]" post,
        OF assms] lens len parts keys
    by (simp add: StdMap_Write_def Let_def map_chars_def ac_simps)
qed

lemma serializer_map:
  assumes "serializer kok ks kw kc" "serializer vok vs vw vc" "\<And>k. kok k \<Longrightarrow> length (kc k) = z"
  shows "serializer (\<lambda>m. \<forall>p\<in>set m. kok (fst p) \<and> vok (snd p)) (StdMap_SizeOf ks vs) (StdMap_Write z kw vw)
    (map_chars z kc vc)"
proof
  fix m :: "('a \<times> 'b) list" assume ok: "\<forall>p\<in>set m. kok (fst p) \<and> vok (snd p)"
  then show "emits (StdMap_Write z kw vw m) (map_chars z kc vc m)"
    using serializer.write_emits [OF assms(1)] serializer.write_emits [OF assms(2)] assms(3)
    by (intro StdMap_emits) force
  have "sum_list (map (\<lambda>p. ks (fst p) + vs (snd p)) m) = z * length m + length (concat (map (\<lambda>p. vc (snd p)) m))"
    using ok serializer.size_chars [OF assms(1)] serializer.size_chars [OF assms(2)] assms(3)
    by (induction m) auto
  moreover have "length (map_chars z kc vc m) = 4 + 4 * length m + z * length m
      + length (concat (map (\<lambda>p. vc (snd p)) m))"
    using ok assms(3) by (intro length_map_chars) force
  ultimately show "StdMap_SizeOf ks vs m = length (map_chars z kc vc m)" by (simp add: StdMap_SizeOf_def)
qed

lemma serializer_then:
  assumes "serializer ok s w c" "serializer ok' s' w' c'"
  shows "serializer (\<lambda>x. ok (f x) \<and> ok' (g x)) (\<lambda>x. s (f x) + s' (g x))
    (\<lambda>x dest mem. do { (mem, dest) \<leftarrow> w (f x) dest mem; w' (g x) dest mem }) (\<lambda>x. c (f x) @ c' (g x))"
  using serializer.size_chars [OF assms(1)] serializer.size_chars [OF assms(2)]
    emits_bind [OF serializer.write_emits [OF assms(1)] serializer.write_emits [OF assms(2)]]
  by unfold_locales auto

lemma serializer_of: "serializer ok s w c \<Longrightarrow> serializer (\<lambda>x. ok (f x)) (\<lambda>x. s (f x)) (\<lambda>x. w (f x)) (\<lambda>x. c (f x))"
  by (auto simp: serializer_def)

interpretation u64_ser: serializer "\<lambda>_. True" "\<lambda>_. 8" write_u64 u64_chars
  by unfold_locales (simp_all add: emits_numbers)

interpretation u32_ser: serializer "\<lambda>_. True" "\<lambda>_. 4" write_u32 u32_chars
  by unfold_locales (simp_all add: emits_numbers)

interpretation i32_ser: serializer "\<lambda>_. True" "\<lambda>_. 4" write_i32 i32_chars
  by unfold_locales (simp_all add: emits_numbers)

interpretation bool_ser: serializer "\<lambda>_. True" "\<lambda>_. 1" write_bool bool_chars
  by unfold_locales (simp_all add: emits_numbers)

section \<open>Range maps\<close>

definition range_chars :: "('e \<Rightarrow> string) \<Rightarrow> (u64, 'e) range_rec \<Rightarrow> string" where
  "range_chars ec r = u64_chars (rng_base r) @ ec (rng_entry r)"

definition range_map_chars :: "('e \<Rightarrow> string) \<Rightarrow> (u64, 'e) RangeMap \<Rightarrow> string" where
  "range_map_chars ec s = map_chars 8 u64_chars (range_chars ec) (rm_map s)"

definition entries_ok :: "('e \<Rightarrow> bool) \<Rightarrow> (u64, 'e) RangeMap \<Rightarrow> bool" where
  "entries_ok ok s \<longleftrightarrow> (\<forall>p\<in>set (rm_map s). ok (rng_entry (snd p)))"

lemma serializer_ranges:
  assumes "serializer ok es ew ec"
  shows "serializer (entries_ok ok) (RangeMap_SizeOf es) (RangeMap_Write ew) (range_map_chars ec)"
proof -
  have "serializer (\<lambda>r. True \<and> ok (rng_entry r)) (\<lambda>r. 8 + es (rng_entry r))
      (\<lambda>r dest mem. do { (mem, dest) \<leftarrow> write_u64 (rng_base r) dest mem; ew (rng_entry r) dest mem })
      (\<lambda>r. u64_chars (rng_base r) @ ec (rng_entry r))"
    by (rule serializer_then [OF u64_ser.serializer_axioms assms])
  then have "serializer (\<lambda>r. ok (rng_entry r)) (\<lambda>r. 8 + es (rng_entry r)) (Range_Write ew) (range_chars ec)"
    by (simp add: Range_Write_def [abs_def] range_chars_def [abs_def])
  from serializer_of [OF serializer_map [OF u64_ser.serializer_axioms this, of 8], of rm_map]
  show ?thesis
    by (simp add: entries_ok_def [abs_def] RangeMap_SizeOf_def [abs_def] RangeMap_Write_def [abs_def]
        range_map_chars_def [abs_def])
qed

function cr_chars :: "('e \<Rightarrow> string) \<Rightarrow> bool \<Rightarrow> (u64, 'e) crange \<Rightarrow> string" where
  "cr_chars ec null (CRange b e m) =
     u64_chars b @ num_chars 4 (if null then 0 else length (ec e)) @ (if null then [] else ec e)
     @ map_chars 8 u64_chars (\<lambda>t. cr_chars ec False t) m"
  by pat_completeness auto
termination by (relation "measure (\<lambda>(_, _, t). size t)") (auto dest: child_size)

declare cr_chars.simps [simp del]

definition cr_ok :: "('e \<Rightarrow> bool) \<Rightarrow> bool \<Rightarrow> (u64, 'e) crange \<Rightarrow> bool" where
  "cr_ok ok null t \<longleftrightarrow> (null \<or> ok (cr_entry t)) \<and> (\<forall>x\<in>ranges_of t. ok (snd (snd x)))"

lemma cr_ok_child: "cr_ok ok null (CRange b e m) \<Longrightarrow> p \<in> set m \<Longrightarrow> cr_ok ok False (snd p)"
  unfolding cr_ok_def ranges_of.simps by (metis (no_types, lifting) UN_iff insert_iff snd_conv)

lemma CR_emits:
  assumes "serializer ok es ew ec" "cr_ok ok null t"
  shows "emits (CR_Write es ew null t) (cr_chars ec null t)" "CR_SizeOf es null t = length (cr_chars ec null t)"
proof -
  have "emits (CR_Write es ew null t) (cr_chars ec null t) \<and> CR_SizeOf es null t = length (cr_chars ec null t)"
    using assms(2)
  proof (induction t arbitrary: null rule: ranges_of.induct)
    case (1 b e m)
    let ?vw = "\<lambda>t. CR_Write es ew False t" and ?vc = "\<lambda>t. cr_chars ec False t"
    have IH: "emits (?vw (snd p)) (?vc (snd p)) \<and> CR_SizeOf es False (snd p) = length (?vc (snd p))"
      if "p \<in> set m" for p
      using "1.IH" [OF that cr_ok_child [OF "1.prems" that]] .
    have entry: "null \<or> es e = length (ec e) \<and> emits (ew e) (ec e)"
      using "1.prems" serializer.size_chars [OF assms(1)] serializer.write_emits [OF assms(1)]
      by (auto simp: cr_ok_def)
    have maps: "emits (StdMap_Write 8 write_u64 ?vw m) (map_chars 8 u64_chars ?vc m)"
      using IH by (intro StdMap_emits) (force simp: emits_numbers)
    have "emits (\<lambda>dest mem. if null then Some (mem, dest) else ew e dest mem) (if null then [] else ec e)"
      using entry by (cases null) (simp_all add: emits_nothing)
    from emits_bind [OF emits_numbers(1) emits_bind [OF emits_num emits_bind [OF this maps]], of b 4
        "if null then 0 else es e"]
    have "emits (CR_Write es ew null (CRange b e m)) (cr_chars ec null (CRange b e m))"
      using entry by (cases null) (simp_all add: CR_Write.simps [abs_def] cr_chars.simps StdMap_Write_def [abs_def] Let_def)
    moreover have "sum_list (map (\<lambda>p. 8 + CR_SizeOf es False (snd p)) m)
        = 8 * length m + length (concat (map (\<lambda>p. ?vc (snd p)) m))"
      using IH by (induction m) auto
    then have "CR_SizeOf es null (CRange b e m) = length (cr_chars ec null (CRange b e m))"
      using entry by (auto simp: CR_SizeOf.simps cr_chars.simps length_map_chars)
    ultimately show ?case ..
  qed
  then show "emits (CR_Write es ew null t) (cr_chars ec null t)" "CR_SizeOf es null t = length (cr_chars ec null t)"
    by simp_all
qed

section \<open>Records\<close>

definition line_chars :: "Line \<Rightarrow> string" where
  "line_chars l = u64_chars (line_address l) @ u64_chars (line_size l) @ i32_chars (source_file_id l)
     @ i32_chars (line_number l)"

definition symbol_chars :: "PublicSymbol \<Rightarrow> string" where
  "symbol_chars s = string_chars (symbol_name s) @ u64_chars (symbol_address s) @ i32_chars (symbol_parameter_size s)"

definition wfi_chars :: "WindowsFrameInfo \<Rightarrow> string" where
  "wfi_chars w = i32_chars (wf_type w) @ i32_chars (wf_valid w) @ u32_chars (prolog_size w) @ u32_chars (epilog_size w)
     @ u32_chars (wf_parameter_size w) @ u32_chars (saved_register_size w) @ u32_chars (local_size w)
     @ u32_chars (max_stack_size w) @ bool_chars (allocates_base_pointer w) @ string_chars (program_string w)"

definition function_chars :: "Function \<Rightarrow> string" where
  "function_chars f = string_chars (func_name f) @ u64_chars (func_address f) @ u64_chars (func_size f)
     @ i32_chars (func_parameter_size f) @ range_map_chars line_chars (func_lines f)"

interpretation line_ser: serializer "\<lambda>_. True" Line_SizeOf Line_Write line_chars
proof
  fix l :: Line
  show "Line_SizeOf l = length (line_chars l)" by (simp add: Line_SizeOf_def line_chars_def)
  show "emits (Line_Write l) (line_chars l)"
    unfolding Line_Write_def [abs_def] line_chars_def by (intro emits_bind emits_numbers)
qed

interpretation line_map_ser: serializer "entries_ok (\<lambda>_. True)" "RangeMap_SizeOf Line_SizeOf"
  "RangeMap_Write Line_Write" "range_map_chars line_chars"
  by (rule serializer_ranges [OF line_ser.serializer_axioms])

interpretation symbol_ser: serializer "\<lambda>s. no_nul (symbol_name s)" PublicSymbol_SizeOf PublicSymbol_Write symbol_chars
proof
  fix s :: PublicSymbol
  assume ok: "no_nul (symbol_name s)"
  show "PublicSymbol_SizeOf s = length (symbol_chars s)"
    by (simp add: PublicSymbol_SizeOf_def symbol_chars_def String_SizeOf_def string_chars_def)
  show "emits (PublicSymbol_Write s) (symbol_chars s)"
    unfolding PublicSymbol_Write_def [abs_def] symbol_chars_def by (intro emits_bind emits_numbers emits_string ok)
qed

interpretation wfi_ser: serializer "\<lambda>w. no_nul (program_string w)" WFI_SizeOf WFI_Write wfi_chars
proof
  fix w :: WindowsFrameInfo
  assume ok: "no_nul (program_string w)"
  show "WFI_SizeOf w = length (wfi_chars w)"
    by (simp add: WFI_SizeOf_def wfi_chars_def String_SizeOf_def string_chars_def)
  show "emits (WFI_Write w) (wfi_chars w)"
    unfolding WFI_Write_def [abs_def] wfi_chars_def by (intro emits_bind emits_numbers emits_string ok)
qed

interpretation function_ser: serializer "\<lambda>f. no_nul (func_name f)" Function_SizeOf Function_Write function_chars
proof
  fix f :: Function
  assume ok: "no_nul (func_name f)"
  have "entries_ok (\<lambda>_. True) (func_lines f)" by (simp add: entries_ok_def)
  note lines = line_map_ser.size_chars [OF this] line_map_ser.write_emits [OF this]
  show "Function_SizeOf f = length (function_chars f)"
    using lines(1) by (simp add: Function_SizeOf_def function_chars_def String_SizeOf_def string_chars_def)
  show "emits (Function_Write f) (function_chars f)"
    unfolding Function_Write_def [abs_def] function_chars_def
    by (intro emits_bind emits_numbers emits_string ok lines(2))
qed

section \<open>Modules\<close>

text \<open>The strings of a module are C strings.\<close>

definition texts_ok :: "Module \<Rightarrow> bool" where
  "texts_ok m \<longleftrightarrow> (\<forall>p\<in>set (file_map m). no_nul (snd p))
     \<and> entries_ok (\<lambda>i. no_nul (func_name (func_store m ! i))) (function_map m)
     \<and> (\<forall>p\<in>set (public_symbols m). no_nul (symbol_name (snd p)))
     \<and> (\<forall>t\<in>set (windows_frame_info m). cr_ok (\<lambda>w. no_nul (program_string w)) True t)
     \<and> entries_ok no_nul (cfi_initial_rules m)
     \<and> (\<forall>p\<in>set (cfi_delta_rules m). no_nul (snd p))
     \<and> length (windows_frame_info m) = STACK_INFO_LAST"

definition map_texts :: "Module \<Rightarrow> string list" where
  "map_texts m =
     [map_chars 4 i32_chars string_chars (file_map m),
      range_map_chars (\<lambda>i. function_chars (func_store m ! i)) (function_map m),
      map_chars 8 u64_chars symbol_chars (public_symbols m)]
     @ map (\<lambda>i. cr_chars wfi_chars True (windows_frame_info m ! i)) [0..<STACK_INFO_LAST]
     @ [range_map_chars string_chars (cfi_initial_rules m),
        map_chars 8 u64_chars string_chars (cfi_delta_rules m)]"

definition module_chars :: "Module \<Rightarrow> string" where
  "module_chars m = bool_chars (is_corrupt m) @ concat (map (num_chars 4) (map_sizes m)) @ concat (map_texts m) @ [NUL]"

lemma emits_list:
  assumes "\<And>x. x \<in> set xs \<Longrightarrow> emits (w x) (c x)"
  shows "emits (write_list w xs) (concat (map c xs))"
  using assms
proof (induction xs)
  case (Cons x xs)
  have "emits (\<lambda>dest mem. do { (mem, dest) \<leftarrow> w x dest mem; write_list w xs dest mem }) (c x @ concat (map c xs))"
    by (intro emits_bind Cons.prems Cons.IH) (simp_all add: Cons.prems)
  moreover have "(\<lambda>dest mem. do { (mem, dest) \<leftarrow> w x dest mem; write_list w xs dest mem }) = write_list w (x # xs)"
    by (intro ext) simp
  ultimately show ?case by simp
next
  case Nil
  have "write_list w [] = (\<lambda>dest mem. Some (mem, dest))" by (intro ext) simp
  then show ?case by (simp add: emits_nothing)
qed

lemma cr_ser:
  "serializer ok es ew ec \<Longrightarrow>
    serializer (cr_ok ok null) (CR_SizeOf es null) (CR_Write es ew null) (cr_chars ec null)"
  using CR_emits by unfold_locales blast+

lemma files_ser: "serializer (\<lambda>m. \<forall>p\<in>set m. True \<and> no_nul (snd p)) (StdMap_SizeOf (\<lambda>_. 4) String_SizeOf)
    (StdMap_Write 4 write_i32 String_Write) (map_chars 4 i32_chars string_chars)"
  by (rule serializer_map [OF i32_ser.serializer_axioms string_ser.serializer_axioms]) simp

lemma functions_ser: "serializer (entries_ok (\<lambda>i. no_nul (func_name (store ! i)))) (RangeMap_SizeOf (\<lambda>i. Function_SizeOf (store ! i)))
    (RangeMap_Write (\<lambda>i. Function_Write (store ! i))) (range_map_chars (\<lambda>i. function_chars (store ! i)))"
  by (rule serializer_ranges [OF serializer_of [OF function_ser.serializer_axioms]])

lemma symbols_ser: "serializer (\<lambda>m. \<forall>p\<in>set m. True \<and> no_nul (symbol_name (snd p))) (StdMap_SizeOf (\<lambda>_. 8) PublicSymbol_SizeOf)
    (StdMap_Write 8 write_u64 PublicSymbol_Write) (map_chars 8 u64_chars symbol_chars)"
  by (rule serializer_map [OF u64_ser.serializer_axioms symbol_ser.serializer_axioms]) simp

lemma wfis_ser: "serializer (cr_ok (\<lambda>w. no_nul (program_string w)) True) (CR_SizeOf WFI_SizeOf True)
    (CR_Write WFI_SizeOf WFI_Write True) (cr_chars wfi_chars True)"
  by (rule cr_ser [OF wfi_ser.serializer_axioms])

lemma inits_ser: "serializer (entries_ok no_nul) (RangeMap_SizeOf String_SizeOf) (RangeMap_Write String_Write)
    (range_map_chars string_chars)"
  by (rule serializer_ranges [OF string_ser.serializer_axioms])

lemma deltas_ser: "serializer (\<lambda>m. \<forall>p\<in>set m. True \<and> no_nul (snd p)) (StdMap_SizeOf (\<lambda>_. 8) String_SizeOf)
    (StdMap_Write 8 write_u64 String_Write) (map_chars 8 u64_chars string_chars)"
  by (rule serializer_map [OF u64_ser.serializer_axioms string_ser.serializer_axioms]) simp

lemmas module_sers = files_ser functions_ser symbols_ser wfis_ser inits_ser deltas_ser

lemma texts_okD:
  assumes "texts_ok m"
  shows "\<forall>p\<in>set (file_map m). True \<and> no_nul (snd p)"
    "entries_ok (\<lambda>i. no_nul (func_name (func_store m ! i))) (function_map m)"
    "\<forall>p\<in>set (public_symbols m). True \<and> no_nul (symbol_name (snd p))"
    "i < STACK_INFO_LAST \<Longrightarrow> cr_ok (\<lambda>w. no_nul (program_string w)) True (windows_frame_info m ! i)"
    "entries_ok no_nul (cfi_initial_rules m)" "\<forall>p\<in>set (cfi_delta_rules m). True \<and> no_nul (snd p)"
  using assms by (auto simp: texts_ok_def)

lemma map_sizes_texts:
  assumes "texts_ok m"
  shows "map_sizes m = map length (map_texts m)"
  using texts_okD [OF assms] module_sers [THEN serializer.size_chars] by (simp add: map_sizes_def map_texts_def)

lemma length_map_texts: "length (map_texts m) = kNumberMaps"
  by (simp add: map_texts_def kNumberMaps_def)

interpretation module_ser: serializer texts_ok Module_SizeOf Module_Write module_chars
proof
  fix m :: Module
  assume texts: "texts_ok m"
  note ok = texts_okD [OF texts]
  have "length (concat (map (num_chars 4) (map_sizes m))) = 4 * kNumberMaps"
    using length_concat_same [of "map_sizes m" "num_chars 4" 4] by (simp add: map_sizes_texts [OF texts] length_map_texts)
  moreover have "sum_list (map_sizes m) = length (concat (map_texts m))"
    by (simp add: map_sizes_texts [OF texts] length_concat)
  ultimately show "Module_SizeOf m = length (module_chars m)"
    by (simp add: Module_SizeOf_def module_chars_def)
  have wfis: "emits (CR_Write WFI_SizeOf WFI_Write True (windows_frame_info m ! i))
      (cr_chars wfi_chars True (windows_frame_info m ! i))" if "i \<in> set [0..<STACK_INFO_LAST]" for i
    using serializer.write_emits [OF wfis_ser ok(4)] that by simp
  have "emits (Module_Write m) (bool_chars (is_corrupt m) @ concat (map (num_chars 4) (map_sizes m))
      @ map_chars 4 i32_chars string_chars (file_map m)
      @ range_map_chars (\<lambda>i. function_chars (func_store m ! i)) (function_map m)
      @ map_chars 8 u64_chars symbol_chars (public_symbols m)
      @ concat (map (\<lambda>i. cr_chars wfi_chars True (windows_frame_info m ! i)) [0..<STACK_INFO_LAST])
      @ range_map_chars string_chars (cfi_initial_rules m)
      @ map_chars 8 u64_chars string_chars (cfi_delta_rules m) @ [NUL])"
    unfolding Module_Write_def [abs_def]
    by (intro emits_bind emits_numbers emits_chars emits_list emits_num wfis ok
        module_sers [THEN serializer.write_emits])
  then show "emits (Module_Write m) (module_chars m)" by (simp add: module_chars_def map_texts_def)
qed

end
