(* ===== verification/Static_Map_Reads.thy ===== *)
theory Static_Map_Reads
  imports LZO_Prelude Map_Layout
begin

text \<open>
  The static containers of \<open>Static_Maps\<close> on memory that holds_map what the serializers wrote (\<open>at\<close>): each
  lookup finds what the lookup in the container that was serialized finds.
\<close>

section \<open>Numbers and strings\<close>

lemma chars_num_chars: "chars_num (num_chars k n) = n mod 256 ^ k"
proof (induction k arbitrary: n)
  case (Suc k)
  have "of_char (char_of n :: char) = n mod 256" by simp
  then show ?case using Suc.IH [of "n div 256"] by (simp add: mod_mult2_eq mult.commute)
qed simp

lemma read_num_at: "at mem p (num_chars k n) \<Longrightarrow> n < 256 ^ k \<Longrightarrow> read_num mem p k = Some n"
  using at_take [of mem p "num_chars k n"] at_bound [of mem p "num_chars k n"]
  by (simp add: read_num_def chars_num_chars)

lemma read_u64_at: "at mem p (u64_chars x) \<Longrightarrow> read_u64 mem p = Some x"
proof -
  have "unat x < 256 ^ 8" using unsigned_less [of x, where ?'a = nat] by simp
  then show "at mem p (u64_chars x) \<Longrightarrow> read_u64 mem p = Some x"
    by (simp add: read_u64_def u64_chars_def read_num_at)
qed

lemma read_u32_at: "at mem p (u32_chars x) \<Longrightarrow> read_u32 mem p = Some x"
proof -
  have "unat x < 256 ^ 4" using unsigned_less [of x, where ?'a = nat] by simp
  then show "at mem p (u32_chars x) \<Longrightarrow> read_u32 mem p = Some x"
    by (simp add: read_u32_def u32_chars_def read_num_at)
qed

definition in_int :: "int \<Rightarrow> bool" where "in_int i \<longleftrightarrow> - (2 ^ 31) \<le> i \<and> i < 2 ^ 31"

lemma sint_of_int: "in_int i \<Longrightarrow> sint (word_of_int i :: 32 word) = i"
  unfolding in_int_def by (subst sint_sbintrunc') (simp add: signed_take_bit_int_eq_self)

lemma read_i32_at: "at mem p (i32_chars i) \<Longrightarrow> in_int i \<Longrightarrow> read_i32 mem p = Some i"
  by (simp add: read_i32_def i32_chars_def read_u32_at sint_of_int)

lemma read_string_at:
  assumes "at mem p (string_chars s)" "no_nul s"
  shows "read_string mem p = Some s"
proof -
  have d: "drop p mem = s @ NUL # drop (p + length (s @ [NUL])) mem"
    using at_take [OF assms(1)] unfolding string_chars_def
    by (metis append.assoc append_Cons append_Nil append_take_drop_id drop_drop add.commute)
  have "takeWhile (\<lambda>c. c \<noteq> NUL) (drop p mem) = s"
    unfolding d using assms(2) by (subst takeWhile_append2) (auto simp: no_nul_def)
  then show ?thesis by (simp add: read_string_def d)
qed

section \<open>A serialized map\<close>

definition the_map :: "nat \<Rightarrow> nat \<Rightarrow> static_map" where
  "the_map raw n = \<lparr>raw_data = raw, num_nodes = int n, offsets_ptr = raw + 4, keys_ptr = int raw + (1 + int n) * 4\<rparr>"

definition holds_map ::
  "'k key_type \<Rightarrow> ('v \<Rightarrow> string) \<Rightarrow> string \<Rightarrow> nat \<Rightarrow> ('k, 'v) std_map \<Rightarrow> bool"
where
  "holds_map kt vc mem raw m \<longleftrightarrow> new_StaticMap mem raw = Some (the_map raw (length m))
     \<and> (\<forall>i<length m. key_at kt mem (the_map raw (length m)) (int i) = Some (fst (m ! i))
          \<and> (\<exists>q. read_num mem (raw + 4 + 4 * i) 4 = Some q \<and> at mem (raw + q) (vc (snd (m ! i)))))"

lemma holds_mapD:
  assumes "holds_map kt vc mem raw m"
  shows "new_StaticMap mem raw = Some (the_map raw (length m))"
    "i < length m \<Longrightarrow> key_at kt mem (the_map raw (length m)) (int i) = Some (fst (m ! i))"
    "i < length m \<Longrightarrow> \<exists>q. read_num mem (raw + 4 + 4 * i) 4 = Some q \<and> at mem (raw + q) (vc (snd (m ! i)))"
  using assms by (simp_all add: holds_map_def)

lemma at_concat:
  assumes "at mem p (concat (map f xs))" "i < length xs"
  shows "at mem (p + length (concat (map f (take i xs)))) (f (xs ! i))"
  using assms
proof (induction xs arbitrary: p i)
  case (Cons x xs)
  have "at mem p (f x)" "at mem (p + length (f x)) (concat (map f xs))" using Cons.prems(1) by (simp_all add: at_append)
  then show ?case using Cons.IH [of "p + length (f x)" "i - 1"] Cons.prems(2) by (cases i) (simp_all add: add.assoc)
qed simp

lemma at_concat_same:
  assumes "at mem p (concat (map f xs))" "i < length xs" "\<And>x. x \<in> set xs \<Longrightarrow> length (f x) = z"
  shows "at mem (p + z * i) (f (xs ! i))"
proof -
  have "length (concat (map f (take i xs))) = z * i"
    using assms(2) length_concat_same [of "take i xs" f z] assms(3) by (auto dest: in_set_takeD)
  then show ?thesis using at_concat [OF assms(1,2)] by simp
qed

lemma offsets_from_nth:
  "i < length ss \<Longrightarrow> offsets_from d ss ! i = d + length (concat (take i ss))"
proof (induction ss arbitrary: d i)
  case (Cons s ss)
  then show ?case by (cases i) auto
qed simp

lemma serialized_offsets:
  assumes at: "at mem raw (map_chars z kc vc m)" and small: "length mem < 2 ^ 32"
    and keys: "\<And>k v. (k, v) \<in> set m \<Longrightarrow> length (kc k) = z" and i: "i < length m"
  shows "read_num mem (raw + 4 + 4 * i) 4
      = Some (4 + 4 * length m + z * length m + length (concat (map (\<lambda>p. vc (snd p)) (take i m))))"
    "at mem (raw + (4 + 4 * length m + z * length m + length (concat (map (\<lambda>p. vc (snd p)) (take i m)))))
       (vc (snd (m ! i)))"
proof -
  let ?n = "length m" and ?vs = "map (\<lambda>p. vc (snd p)) m"
  let ?d = "4 + 4 * ?n + z * ?n"
  let ?q = "?d + length (concat (map (\<lambda>p. vc (snd p)) (take i m)))"
  have "length (concat (map (\<lambda>p. kc (fst p)) m)) = z * ?n"
    using keys by (intro length_concat_same) auto
  then have parts: "at mem (raw + 4) (concat (map (num_chars 4) (offsets_from ?d ?vs)))" "at mem (raw + ?d) (concat ?vs)"
    using at by (simp_all add: map_chars_def at_append offsets_chars_def [symmetric] add.assoc)
  have v: "at mem (raw + ?q) (vc (snd (m ! i)))"
    using at_concat [of mem "raw + ?d" "\<lambda>x. x" ?vs i] parts(2) i by (simp add: add.assoc take_map)
  then show "at mem (raw + ?q) (vc (snd (m ! i)))" .
  have "at mem (raw + 4 + 4 * i) (num_chars 4 (offsets_from ?d ?vs ! i))"
    using at_concat_same [OF parts(1), of i 4] i by simp
  then have o: "at mem (raw + 4 + 4 * i) (num_chars 4 ?q)" using i by (simp add: offsets_from_nth take_map)
  have "?q < 2 ^ 32" using at_bound [OF v] small by linarith
  then show "read_num mem (raw + 4 + 4 * i) 4 = Some ?q" by (intro read_num_at [OF o]) simp
qed

lemma serialized_holds:
  assumes at: "at mem raw (map_chars z kc vc m)" and small: "length mem < 2 ^ 32"
    and z: "z = key_size kt"
    and keys: "\<And>k v. (k, v) \<in> set m \<Longrightarrow> length (kc k) = z \<and> key_value kt (chars_num (kc k)) = k"
  shows "holds_map kt vc mem raw m"
proof -
  let ?n = "length m" and ?vs = "map (\<lambda>p. vc (snd p)) m"
  let ?d = "4 + 4 * ?n + z * ?n"
  have klen: "length (concat (map (\<lambda>p. kc (fst p)) m)) = z * ?n"
    using keys by (intro length_concat_same) auto
  have parts: "at mem raw (num_chars 4 ?n)" "at mem (raw + 4) (concat (map (num_chars 4) (offsets_from ?d ?vs)))"
    "at mem (raw + 4 + 4 * ?n) (concat (map (\<lambda>p. kc (fst p)) m))"
    "at mem (raw + ?d) (concat ?vs)"
    using at klen by (simp_all add: map_chars_def at_append offsets_chars_def [symmetric] add.assoc)
  have n: "?n < 2 ^ 30" using at_bound [OF parts(2)] small
    by (simp add: length_concat_same [where z = 4])
  have start: "new_StaticMap mem raw = Some (the_map raw ?n)"
  proof -
    have "read_num mem raw 4 = Some ?n" using parts(1) n by (intro read_num_at) simp_all
    moreover have "sint (of_nat ?n :: 32 word) = int ?n"
      using n sint_of_int [of "int ?n"] by (simp add: in_int_def)
    ultimately show ?thesis using n by (simp add: new_StaticMap_def read_i32_def read_u32_def the_map_def)
  qed
  have key: "key_at kt mem (the_map raw ?n) (int i) = Some (fst (m ! i))" if i: "i < ?n" for i
  proof -
    let ?p = "raw + 4 + 4 * ?n + z * i"
    have k: "length (kc (fst (m ! i))) = z" "key_value kt (chars_num (kc (fst (m ! i)))) = fst (m ! i)"
      using keys [of "fst (m ! i)" "snd (m ! i)"] i by simp_all
    have "at mem ?p (kc (fst (m ! i)))"
      using at_concat_same [OF parts(3) i, of z] keys by auto
    then have "read_num mem ?p z = Some (chars_num (kc (fst (m ! i))))"
      using at_take [of mem ?p "kc (fst (m ! i))"] at_bound [of mem ?p "kc (fst (m ! i))"] k(1)
      by (simp add: read_num_def)
    moreover have "keys_ptr (the_map raw ?n) + int i * int z = int ?p"
      by (simp add: the_map_def algebra_simps)
    ultimately show ?thesis
      using k(2) unfolding key_at_def Let_def z [symmetric] by (simp only: nat_int of_nat_less_0_iff if_False option.map)
  qed
  have val: "\<exists>q. read_num mem (raw + 4 + 4 * i) 4 = Some q \<and> at mem (raw + q) (vc (snd (m ! i)))" if i: "i < ?n" for i
    using serialized_offsets [OF at small _ i] keys by blast
  show ?thesis unfolding holds_map_def using start key val by simp
qed

section \<open>Binary search\<close>

definition below :: "('k::linorder, 'v) std_map \<Rightarrow> 'k \<Rightarrow> nat" where
  "below m k = length (takeWhile (\<lambda>p. fst p < k) m)"

lemma map_ok_nth: "map_ok m \<Longrightarrow> i < j \<Longrightarrow> j < length m \<Longrightarrow> fst (m ! i) < fst (m ! j)"
  using sorted_wrt_nth_less [of "(<)" "map fst m" i j] by (simp add: map_ok_def)

lemma below_eq:
  assumes "map_ok m" "b \<le> length m" "\<And>i. i < b \<Longrightarrow> fst (m ! i) < k" "\<And>i. b \<le> i \<Longrightarrow> i < length m \<Longrightarrow> k \<le> fst (m ! i)"
  shows "below m k = b"
proof -
  have "takeWhile (\<lambda>p. fst p < k) m = take b m"
  proof (rule takeWhile_eq_take_P_nth)
    show "fst (m ! i) < k" if "i < b" "i < length m" for i using that assms(3) by simp
    show "\<not> fst (m ! b) < k" if "b < length m" using that assms(4) [of b] by (simp add: not_less)
  qed
  then show ?thesis using assms(2) by (simp add: below_def)
qed

lemma binary_search_finds:
  assumes h: "holds_map kt vc mem raw m" and m: "map_ok m"
    and "0 \<le> lo" "lo \<le> hi" "hi \<le> int (length m)"
    and "\<And>i. int i < lo \<Longrightarrow> fst (m ! i) < key" "\<And>i. hi \<le> int i \<Longrightarrow> i < length m \<Longrightarrow> key < fst (m ! i)"
  shows "\<exists>found. binary_search kt mem (the_map raw (length m)) key lo hi = Some (found, int (below m key))
    \<and> (found \<longleftrightarrow> below m key < length m \<and> fst (m ! below m key) = key)"
  using assms(3-)
proof (induction "nat (hi - lo)" arbitrary: lo hi rule: less_induct)
  case less
  show ?case
  proof (cases "lo < hi")
    case False
    then have eq: "hi = lo" using less.prems(2) by simp
    have b: "below m key = nat lo"
    proof (rule below_eq [OF m])
      show "fst (m ! i) < key" if "i < nat lo" for i using that less.prems(4) [of i] by linarith
      show "key \<le> fst (m ! i)" if "nat lo \<le> i" "i < length m" for i
        using less.prems(5) [of i] that eq by (simp add: nat_le_iff)
    qed (use less.prems(3) eq in simp)
    have "\<not> (below m key < length m \<and> fst (m ! below m key) = key)"
      using less.prems(1) less.prems(5) [of "nat lo"] eq b by auto
    then show ?thesis
      using False b less.prems(1) by (subst binary_search.simps) auto
  next
    case True
    define mid where "mid = lo + (hi - lo) div 2"
    have mid: "lo \<le> mid" "mid < hi" using True by (auto simp: mid_def)
    then have i: "nat mid < length m" "0 \<le> mid" "mid < int (length m)" using less.prems(1,3) by linarith+
    have "int (nat mid) = mid" using i(2) by simp
    then have get: "GetKeyAtIndex kt mem (the_map raw (length m)) mid = Some (fst (m ! nat mid))"
      using holds_mapD(2) [OF h i(1)] i by (simp add: GetKeyAtIndex_def the_map_def)
    have step: "binary_search kt mem (the_map raw (length m)) key lo hi =
      (if key = fst (m ! nat mid) then Some (True, mid)
       else if key < fst (m ! nat mid) then binary_search kt mem (the_map raw (length m)) key lo mid
       else binary_search kt mem (the_map raw (length m)) key (mid + 1) hi)"
      using True get by (subst binary_search.simps) (simp add: mid_def [symmetric] Let_def compare_keys_def)
    have up: "fst (m ! nat mid) < fst (m ! j)" if "mid < int j" "j < length m" for j
      using map_ok_nth [OF m, of "nat mid" j] that i by linarith
    have down: "fst (m ! j) < fst (m ! nat mid)" if "int j < mid" for j
      using map_ok_nth [OF m, of j "nat mid"] that i by linarith
    consider "key = fst (m ! nat mid)" | "key < fst (m ! nat mid)" | "fst (m ! nat mid) < key" by fastforce
    then show ?thesis
    proof cases
      case 1
      have "below m key = nat mid"
      proof (rule below_eq [OF m])
        show "fst (m ! j) < key" if "j < nat mid" for j using down [of j] that 1 by simp
        show "key \<le> fst (m ! j)" if "nat mid \<le> j" "j < length m" for j
        proof (cases "nat mid = j")
          case False
          then have "mid < int j" using that(1) i(2) by linarith
          from up [OF this that(2)] show ?thesis using 1 by simp
        qed (use 1 in simp)
      qed (use i in simp)
      then show ?thesis using step 1 i by auto
    next
      case 2
      have "key < fst (m ! j)" if "mid \<le> int j" "j < length m" for j
      proof (cases "mid = int j")
        case True
        then show ?thesis using 2 by simp
      next
        case False
        then show ?thesis using up [of j] that 2 by auto
      qed
      then have "\<exists>found. binary_search kt mem (the_map raw (length m)) key lo mid = Some (found, int (below m key))
          \<and> (found \<longleftrightarrow> below m key < length m \<and> fst (m ! below m key) = key)"
        using less.prems mid i by (intro less.hyps) auto
      then show ?thesis using step 2 by auto
    next
      case 3
      have "fst (m ! j) < key" if "int j < mid + 1" for j
      proof (cases "mid = int j")
        case True
        then show ?thesis using 3 by simp
      next
        case False
        then have "fst (m ! j) < fst (m ! nat mid)" using down [of j] that by linarith
        then show ?thesis using 3 by simp
      qed
      then have "\<exists>found. binary_search kt mem (the_map raw (length m)) key (mid + 1) hi = Some (found, int (below m key))
          \<and> (found \<longleftrightarrow> below m key < length m \<and> fst (m ! below m key) = key)"
        using less.prems mid i by (intro less.hyps) auto
      then show ?thesis using step 3 by auto
    qed
  qed
qed

section \<open>Iterators\<close>

definition iter :: "nat \<Rightarrow> nat \<Rightarrow> nat \<Rightarrow> static_iterator" where
  "iter raw n i = \<lparr>it_map = the_map raw n, it_index = int i\<rparr>"

definition upto :: "('k::linorder, 'v) std_map \<Rightarrow> 'k \<Rightarrow> nat" where
  "upto m k = length (takeWhile (\<lambda>p. fst p \<le> k) m)"

lemma bound_drop: "lower_bound m k = drop (below m k) m" "upper_bound m k = drop (upto m k) m"
  by (simp_all add: lower_bound_def upper_bound_def below_def upto_def dropWhile_eq_drop)

lemma below_le: "below m k \<le> length m" "upto m k \<le> length m"
  by (simp_all add: below_def upto_def length_takeWhile_le)

lemma upto_below:
  assumes "map_ok m"
  shows "upto m k = (if below m k < length m \<and> fst (m ! below m k) = k then below m k + 1 else below m k)"
proof -
  let ?b = "below m k"
  have lt: "fst (m ! i) < k" if "i < ?b" for i
    using nth_mem [of i "takeWhile (\<lambda>p. fst p < k) m"] that set_takeWhileD
    by (fastforce simp: below_def takeWhile_nth)
  have ge: "k \<le> fst (m ! ?b)" if "?b < length m"
    using nth_length_takeWhile [of "\<lambda>p. fst p < k" m] that by (simp add: below_def not_less)
  let ?u = "if ?b < length m \<and> fst (m ! ?b) = k then ?b + 1 else ?b"
  have "takeWhile (\<lambda>p. fst p \<le> k) m = take ?u m"
  proof (rule takeWhile_eq_take_P_nth)
    show "fst (m ! i) \<le> k" if "i < ?u" "i < length m" for i
      using that lt [of i] by (cases "i = ?b") (auto split: if_splits)
    show "\<not> fst (m ! ?u) \<le> k" if "?u < length m"
      using that ge map_ok_nth [OF assms, of ?b "?b + 1"] by (auto split: if_splits)
  qed
  then show ?thesis using below_le(1) [of m k] by (auto simp: upto_def)
qed


lemma IteratorAtIndex_holds:
  "holds_map kt vc mem raw m \<Longrightarrow> IteratorAtIndex mem (the_map raw (length m)) (int i) = Some (iter raw (length m) i)"
  by (simp add: IteratorAtIndex_def holds_mapD(1) iter_def) (simp add: the_map_def holds_mapD(1))

lemma bounds_hold:
  assumes "holds_map kt vc mem raw m" "map_ok m"
  shows "SM_begin mem (the_map raw (length m)) = Some (iter raw (length m) 0)"
    "SM_end mem (the_map raw (length m)) = Some (iter raw (length m) (length m))"
    "SM_lower_bound kt mem (the_map raw (length m)) k = Some (iter raw (length m) (below m k))"
    "SM_upper_bound kt mem (the_map raw (length m)) k = Some (iter raw (length m) (upto m k))"
    "SM_find kt mem (the_map raw (length m)) k = Some (iter raw (length m)
       (if below m k < length m \<and> fst (m ! below m k) = k then below m k else length m))"
proof -
  let ?M = "the_map raw (length m)"
  have num: "num_nodes ?M = int (length m)" by (simp add: the_map_def)
  note at_index = IteratorAtIndex_holds [OF assms(1)]
  from binary_search_finds [OF assms, of 0 "int (length m)" k] obtain found where
    s: "binary_search kt mem ?M k 0 (int (length m)) = Some (found, int (below m k))"
    "found \<longleftrightarrow> below m k < length m \<and> fst (m ! below m k) = k"
    by auto
  show "SM_begin mem ?M = Some (iter raw (length m) 0)" using at_index [of 0] by (simp add: SM_begin_def)
  show e: "SM_end mem ?M = Some (iter raw (length m) (length m))" using at_index by (simp add: SM_end_def num)
  show "SM_lower_bound kt mem ?M k = Some (iter raw (length m) (below m k))"
    using s at_index by (simp add: SM_lower_bound_def num)
  show "SM_upper_bound kt mem ?M k = Some (iter raw (length m) (upto m k))"
    using s at_index [of "below m k"] at_index [of "below m k + 1"]
    by (simp add: SM_upper_bound_def num upto_below [OF assms(2)] add.commute)
  show "SM_find kt mem ?M k = Some (iter raw (length m)
      (if below m k < length m \<and> fst (m ! below m k) = k then below m k else length m))"
    using s at_index e by (simp add: SM_find_def num)
qed

lemma same_iter [simp]: "same_iterator (iter raw n i) (iter raw n j) \<longleftrightarrow> i = j"
  by (simp add: same_iterator_def iter_def)

lemma it_prev_iter: "i \<le> n \<Longrightarrow> it_prev (iter raw n i) = iter raw n (i - 1)"
  by (auto simp: it_prev_def iter_def IsValid_def the_map_def)

lemma iter_reads:
  assumes "holds_map kt vc mem raw m" "i < length m"
  shows "GetKey kt mem (iter raw (length m) i) = Some (fst (m ! i))"
    "\<exists>p. GetValueRawPtr mem (iter raw (length m) i) = Some p \<and> at mem p (vc (snd (m ! i)))"
proof -
  have "IsValid (iter raw (length m) i)" using assms(2) by (simp add: IsValid_def iter_def the_map_def)
  then show "GetKey kt mem (iter raw (length m) i) = Some (fst (m ! i))"
    "\<exists>p. GetValueRawPtr mem (iter raw (length m) i) = Some p \<and> at mem p (vc (snd (m ! i)))"
    using holds_mapD(2,3) [OF assms(1,2)] by (auto simp: GetKey_def GetValueRawPtr_def iter_def the_map_def)
qed

section \<open>Range maps and address maps\<close>

text \<open>A static lookup finds the same range as the lookup, and a pointer to its entry.\<close>

fun found_same :: "('e \<Rightarrow> string) \<Rightarrow> string \<Rightarrow> (64, 'e) found option \<Rightarrow> static_found option \<Rightarrow> bool" where
  "found_same ec mem None f \<longleftrightarrow> f = Some None"
| "found_same ec mem (Some (e, b, d, z)) f \<longleftrightarrow> (\<exists>p. f = Some (Some (p, b, z)) \<and> at mem p (ec e))"

lemma range_at:
  assumes "at mem p (range_chars ec r)"
  shows "read_u64 mem p = Some (rng_base r)" "at mem (p + 8) (ec (rng_entry r))"
  using assms by (simp_all add: range_chars_def at_append read_u64_at)

lemma static_range_same:
  assumes "holds_map addr_key (range_chars ec) mem raw m" "i < length m"
  shows "\<exists>p. GetValueRawPtr mem (iter raw (length m) i) = Some p \<and> read_u64 mem p = Some (rng_base (snd (m ! i)))
    \<and> found_same ec mem (Some (range_out (fst (m ! i)) (snd (m ! i))))
        (static_range mem (iter raw (length m) i) p (rng_base (snd (m ! i))))"
  using iter_reads [OF assms] range_at by (fastforce simp: static_range_def range_out_def)

lemma RetrieveRange_at:
  "RetrieveRange m a = (if below m a < length m
     then let (high, r) = m ! below m a in if a < rng_base r then None else Some (range_out high r) else None)"
  by (cases "below m a < length m")
    (auto simp: RetrieveRange_def bound_drop Cons_nth_drop_Suc [symmetric] split: prod.splits)

lemma SRM_RetrieveRange_same:
  assumes "holds_map addr_key (range_chars ec) mem raw m" "map_ok m"
  shows "found_same ec mem (RetrieveRange m a) (SRM_RetrieveRange mem (the_map raw (length m)) a)"
proof (cases "below m a < length m")
  case True
  then show ?thesis
    using bounds_hold [OF assms] static_range_same [OF assms(1) True]
    by (auto simp: SRM_RetrieveRange_def RetrieveRange_at case_prod_beta)
next
  case False
  then have "below m a = length m" using below_le(1) [of m a] by simp
  then show ?thesis using bounds_hold [OF assms] by (simp add: SRM_RetrieveRange_def RetrieveRange_at)
qed

lemma prev_at: "upto m a \<noteq> 0 \<Longrightarrow> hd (map_prev m (upper_bound m a)) = m ! (upto m a - 1)"
  using below_le(2) [of m a] by (simp add: bound_drop map_prev_def hd_drop_conv_nth)

lemma upper_begin: "upper_bound m a = m \<longleftrightarrow> upto m a = 0"
  using below_le(2) [of m a] by (auto simp: bound_drop dest: arg_cong [of _ _ length])

lemma SRM_RetrieveNearestRange_same:
  assumes "holds_map addr_key (range_chars ec) mem raw m" "map_ok m"
  shows "found_same ec mem (RetrieveNearestRange m a) (SRM_RetrieveNearestRange mem (the_map raw (length m)) a)"
proof (cases "RetrieveRange m a")
  case (Some x)
  then show ?thesis
    using SRM_RetrieveRange_same [OF assms, of a]
    by (cases x) (auto simp: RetrieveNearestRange_def SRM_RetrieveNearestRange_def)
next
  case None
  then have none: "SRM_RetrieveRange mem (the_map raw (length m)) a = Some None"
    using SRM_RetrieveRange_same [OF assms, of a] by simp
  show ?thesis
  proof (cases "upto m a = 0")
    case True
    then show ?thesis
      using None none bounds_hold [OF assms]
      by (simp add: RetrieveNearestRange_def SRM_RetrieveNearestRange_def upper_begin)
  next
    case False
    then have i: "upto m a - 1 < length m" using below_le(2) [of m a] by simp
    have prev: "it_prev (iter raw (length m) (upto m a)) = iter raw (length m) (upto m a - 1)"
      using below_le(2) [of m a] by (rule it_prev_iter)
    show ?thesis
      using False None none bounds_hold [OF assms] static_range_same [OF assms(1) i] prev
      by (auto simp: RetrieveNearestRange_def SRM_RetrieveNearestRange_def upper_begin prev_at case_prod_beta Let_def)
  qed
qed

lemma SAM_Retrieve_same:
  assumes "holds_map addr_key ec mem raw m" "map_ok m"
  shows "case AM_Retrieve m a of
      None \<Rightarrow> SAM_Retrieve mem (the_map raw (length m)) a = Some None
    | Some (e, k) \<Rightarrow> \<exists>p. SAM_Retrieve mem (the_map raw (length m)) a = Some (Some (p, k)) \<and> at mem p (ec e)"
proof (cases "upto m a = 0")
  case True
  then show ?thesis
    using bounds_hold [OF assms] by (simp add: AM_Retrieve_def SAM_Retrieve_def upper_begin)
next
  case False
  then have i: "upto m a - 1 < length m" using below_le(2) [of m a] by simp
  have prev: "it_prev (iter raw (length m) (upto m a)) = iter raw (length m) (upto m a - 1)"
    using below_le(2) [of m a] by (rule it_prev_iter)
  show ?thesis
    using False bounds_hold [OF assms] iter_reads [OF assms(1) i] prev
    by (auto simp: AM_Retrieve_def SAM_Retrieve_def upper_begin prev_at case_prod_beta Let_def)
qed

lemma addr_keys: "length (u64_chars k) = key_size addr_key \<and> key_value addr_key (chars_num (u64_chars k)) = k"
proof -
  have "unat k < 256 ^ 8" using unsigned_less [of k, where ?'a = nat] by simp
  then show ?thesis by (simp add: addr_key_def u64_chars_def chars_num_chars)
qed

lemma addr_map_holds:
  "at mem raw (map_chars 8 u64_chars vc m) \<Longrightarrow> length mem < 2 ^ 32 \<Longrightarrow> holds_map addr_key vc mem raw m"
  using addr_keys by (intro serialized_holds [of mem raw 8 u64_chars]) (auto simp: addr_key_def)

section \<open>Contained range maps\<close>

definition the_crange :: "('e \<Rightarrow> string) \<Rightarrow> bool \<Rightarrow> nat \<Rightarrow> (u64, 'e) crange \<Rightarrow> static_crange" where
  "the_crange ec null p t =
     (let n = (if null then 0 else length (ec (cr_entry t))) in
      \<lparr>sc_base = cr_base t, sc_entry = (if n = 0 then None else Some (p + 12)),
       sc_map = the_map (p + 12 + n) (length (cr_map t))\<rparr>)"

lemma crange_at:
  assumes "at mem p (cr_chars ec null t)" "length mem < 2 ^ 32"
  shows "new_StaticContainedRangeMap mem p = Some (the_crange ec null p t)"
    "\<not> null \<Longrightarrow> at mem (p + 12) (ec (cr_entry t))"
    "holds_map addr_key (cr_chars ec False) mem (raw_data (sc_map (the_crange ec null p t))) (cr_map t)"
proof -
  obtain b e m where t: "t = CRange b e m" by (cases t)
  let ?n = "if null then 0 else length (ec e)"
  have at: "at mem p (u64_chars b)" "at mem (p + 8) (num_chars 4 ?n)" "\<not> null \<Longrightarrow> at mem (p + 12) (ec e)"
    "at mem (p + 12 + ?n) (map_chars 8 u64_chars (cr_chars ec False) m)"
    using assms(1) unfolding t cr_chars.simps by (cases null; simp add: at_append add.assoc)+
  have "?n < 2 ^ 32" using at_bound [OF at(4)] assms(2) by simp
  then have n: "read_num mem (p + 8) 4 = Some ?n" using at(2) by (intro read_num_at) simp_all
  have h: "holds_map addr_key (cr_chars ec False) mem (p + 12 + ?n) m"
    using at(4) assms(2) by (rule addr_map_holds)
  show "new_StaticContainedRangeMap mem p = Some (the_crange ec null p t)"
    using n read_u64_at [OF at(1)] holds_mapD(1) [OF h]
    by (simp add: new_StaticContainedRangeMap_def the_crange_def t Let_def)
  show "\<not> null \<Longrightarrow> at mem (p + 12) (ec (cr_entry t))" using at(3) by (simp add: t)
  show "holds_map addr_key (cr_chars ec False) mem (raw_data (sc_map (the_crange ec null p t))) (cr_map t)"
    using h by (cases null) (simp_all add: the_crange_def t the_map_def Let_def)
qed

lemma CR_Retrieve_at:
  "CR_RetrieveRange (CRange b e m) a = (if below m a < length m
     then let child = snd (m ! below m a) in
       if a < cr_base child then None
       else (case CR_RetrieveRange child a of None \<Rightarrow> Some (cr_entry child) | Some x \<Rightarrow> Some x)
     else None)"
  by (cases "below m a < length m")
    (auto simp: CR_RetrieveRange.simps bound_drop Cons_nth_drop_Suc [symmetric] split: prod.splits)

lemma SCRM_RetrieveRange_same:
  assumes "at mem p (cr_chars ec null t)" "tree_ok t" "length mem < 2 ^ 32" "\<And>e. ec e \<noteq> []"
  shows "case CR_RetrieveRange t a of
      None \<Rightarrow> SCRM_RetrieveRange mem (the_crange ec null p t) a = Some None
    | Some e \<Rightarrow> \<exists>q. SCRM_RetrieveRange mem (the_crange ec null p t) a = Some (Some (Some q)) \<and> at mem q (ec e)"
  using assms(1,2)
proof (induction t arbitrary: p null rule: ranges_of.induct)
  case (1 b e m)
  let ?T = "the_crange ec null p (CRange b e m)"
  define raw where "raw = raw_data (sc_map ?T)"
  have M: "sc_map ?T = the_map raw (length m)" by (simp add: the_crange_def raw_def the_map_def Let_def)
  have h: "holds_map addr_key (cr_chars ec False) mem raw m"
    using crange_at(3) [OF "1.prems"(1) assms(3)] by (simp add: raw_def)
  have m: "map_ok m" using "1.prems"(2) by (simp add: tree_ok.simps)
  note bounds = bounds_hold [OF h m]
  show ?case
  proof (cases "below m a < length m")
    case False
    then have "below m a = length m" using below_le(1) [of m a] by simp
    then show ?thesis
      using bounds False by (simp add: CR_Retrieve_at SCRM_RetrieveRange.simps [of mem ?T] M)
  next
    case True
    define c where "c = snd (m ! below m a)"
    have in_m: "m ! below m a \<in> set m" using True by simp
    obtain q where q: "GetValueRawPtr mem (iter raw (length m) (below m a)) = Some q" "at mem q (cr_chars ec False c)"
      using iter_reads(2) [OF h True] by (auto simp: c_def)
    note child = crange_at [OF q(2) assms(3)]
    have entry: "sc_entry (the_crange ec False q c) = Some (q + 12)" "sc_base (the_crange ec False q c) = cr_base c"
      using assms(4) by (simp_all add: the_crange_def Let_def)
    have step: "SCRM_RetrieveRange mem ?T a =
        (if a < cr_base c then Some None
         else do {
           found \<leftarrow> SCRM_RetrieveRange mem (the_crange ec False q c) a;
           Some (case found of None \<Rightarrow> Some (sc_entry (the_crange ec False q c)) | Some entry \<Rightarrow> Some entry)
         })"
      using bounds True q(1) child(1) entry(2) by (simp add: SCRM_RetrieveRange.simps [of mem ?T] M)
    have "tree_ok c" using "1.prems"(2) in_m by (auto simp: c_def tree_ok.simps)
    then have IH: "case CR_RetrieveRange c a of
        None \<Rightarrow> SCRM_RetrieveRange mem (the_crange ec False q c) a = Some None
      | Some e \<Rightarrow> \<exists>r. SCRM_RetrieveRange mem (the_crange ec False q c) a = Some (Some (Some r)) \<and> at mem r (ec e)"
      using "1.IH" [OF in_m, folded c_def, OF q(2)] by simp
    show ?thesis
      using IH child(2) True unfolding step entry(1) CR_Retrieve_at c_def [symmetric] Let_def
      by (cases "CR_RetrieveRange c a") auto
  qed
qed

section \<open>Validation\<close>

lemma validate_nodes_serialized:
  assumes at: "at mem raw (map_chars z kc vc m)" and small: "length mem < 2 ^ 32" and z: "z = key_size kt"
    and keys: "\<And>k v. (k, v) \<in> set m \<Longrightarrow> length (kc k) = z \<and> key_value kt (chars_num (kc k)) = k"
    and m: "map_ok m" and vals: "\<And>k v. (k, v) \<in> set m \<Longrightarrow> vc v \<noteq> []"
    and "1 \<le> i" "i \<le> max 1 (length m)"
  shows "validate_nodes kt mem (the_map raw (length m)) (int i) = Some True"
  using assms(7,8)
proof (induction "length m - i" arbitrary: i rule: less_induct)
  case less
  show ?case
  proof (cases "i < length m")
    case False
    then show ?thesis by (subst validate_nodes.simps) (simp add: the_map_def)
  next
    case True
    let ?M = "the_map raw (length m)"
    let ?o = "\<lambda>i. 4 + 4 * length m + z * length m + length (concat (map (\<lambda>p. vc (snd p)) (take i m)))"
    have h: "holds_map kt vc mem raw m" by (rule serialized_holds [OF at small z keys])
    have key: "GetKeyAtIndex kt mem ?M (int j) = Some (fst (m ! j))" if "j < length m" for j
      using holds_mapD(2) [OF h that] that by (simp add: GetKeyAtIndex_def the_map_def)
    have off: "read_num mem (offsets_ptr ?M + 4 * j) 4 = Some (?o j)" if "j < length m" for j
      using serialized_offsets(1) [OF at small _ that] keys by (simp add: the_map_def)
    obtain j where j: "i = Suc j" using less.prems(1) by (cases i) auto
    have "take i m = take j m @ [m ! j]" using True j by (simp add: take_Suc_conv_app_nth)
    moreover have "vc (snd (m ! j)) \<noteq> []" using vals [of "fst (m ! j)" "snd (m ! j)"] True j by simp
    ultimately have lt: "\<not> ?o i \<le> ?o j" by simp
    have less_key: "fst (m ! j) < fst (m ! i)" using map_ok_nth [OF m, of j i] True j by simp
    have IH: "validate_nodes kt mem ?M (int (Suc i)) = Some True"
      using True by (intro less.hyps) simp_all
    have e: "int i - 1 = int j" "int i + 1 = int (Suc i)" and jm: "j < length m" using True j by simp_all
    have "num_nodes ?M = int (length m)" by (simp add: the_map_def)
    then have "validate_nodes kt mem ?M (int i) = validate_nodes kt mem ?M (int (Suc i))"
      using True off [OF True] off [of j] key [OF True] key [of j] lt less_key jm
      unfolding validate_nodes.simps [of kt mem ?M "int i"] e nat_int by (auto simp: compare_keys_def)
    then show ?thesis using IH by simp
  qed
qed

lemma validates_serialized:
  assumes at: "at mem raw (map_chars z kc vc m)" and small: "length mem < 2 ^ 32" and z: "z = key_size kt"
    and keys: "\<And>k v. (k, v) \<in> set m \<Longrightarrow> length (kc k) = z \<and> key_value kt (chars_num (kc k)) = k"
    and m: "map_ok m" and vals: "\<And>k v. (k, v) \<in> set m \<Longrightarrow> vc v \<noteq> []"
  shows "ValidateInMemoryStructure kt mem (the_map raw (length m)) = Some True"
proof -
  let ?M = "the_map raw (length m)"
  have h: "holds_map kt vc mem raw m" by (rule serialized_holds [OF at small z keys])
  have "read_i32 mem raw = Some (int (length m))"
    using holds_mapD(1) [OF h] by (auto simp: new_StaticMap_def the_map_def split: Option.bind_splits if_splits)
  moreover have "\<exists>n. read_num mem (raw + 4) 4 = Some n \<and> int n = 4 * (int (length m) + 1) + int z * int (length m)
      \<and> \<not> 4 * (int (length m) + 1) + int z * int (length m) > 0xffffffff"
    if "m \<noteq> []"
  proof -
    let ?F = "4 + 4 * length m + z * length m"
    have i: "0 < length m" using that by simp
    from serialized_offsets [OF at small _ i] keys
    have r: "read_num mem (raw + 4) 4 = Some ?F" and v: "at mem (raw + ?F) (vc (snd (m ! 0)))" by simp_all
    have "?F < 2 ^ 32" using at_bound [OF v] small by linarith
    then have "?F \<le> 0xffffffff" by simp
    then have "int ?F \<le> 0xffffffff" by (metis of_nat_le_iff of_nat_numeral)
    moreover have "int ?F = 4 * (int (length m) + 1) + int z * int (length m)" by (simp add: algebra_simps)
    ultimately show ?thesis using r by (intro exI [of _ ?F]) linarith
  qed
  moreover have "validate_nodes kt mem ?M 1 = Some True"
    using validate_nodes_serialized [OF assms, where i = 1] by simp
  ultimately show ?thesis
    by (cases "m = []") (auto simp: ValidateInMemoryStructure_def the_map_def z [symmetric] Let_def)
qed

end
