(* ===== verification/Fast_Resolver.thy ===== *)
theory Fast_Resolver
  imports Static_Maps
begin

text \<open>
  \<open>src/app/breakpad/src/processor/fast_source_line_resolver.cc\<close> and \<open>fast_source_line_resolver_types.h\<close>:
  a module whose maps stay in the chunk of memory \<open>mem\<close> it was loaded from, the format of
  \<open>Map_Serializers\<close>.  Nothing is copied when the module is loaded; a lookup reads what it needs.  A
  read outside of the memory is \<open>None\<close>.
\<close>

section \<open>Records\<close>

definition Line_CopyFrom :: "string \<Rightarrow> nat \<Rightarrow> Line option" where
  "Line_CopyFrom mem raw = do {
     address \<leftarrow> read_u64 mem raw;
     sz \<leftarrow> read_u64 mem (raw + 8);
     file \<leftarrow> read_i32 mem (raw + 2 * 8);
     number \<leftarrow> read_i32 mem (raw + 2 * 8 + 4);
     Some \<lparr>line_address = address, line_size = sz, source_file_id = file, line_number = number\<rparr>
   }"

record FastFunction =
  ff_name :: string
  ff_address :: u64
  ff_size :: u64
  ff_parameter_size :: int
  ff_lines :: static_map

definition Function_CopyFrom :: "string \<Rightarrow> nat \<Rightarrow> FastFunction option" where
  "Function_CopyFrom mem raw = do {
     name \<leftarrow> read_string mem raw;
     let name_size = length name + 1;
     address \<leftarrow> read_u64 mem (raw + name_size);
     sz \<leftarrow> read_u64 mem (raw + name_size + 8);
     param \<leftarrow> read_i32 mem (raw + name_size + 2 * 8);
     ls \<leftarrow> new_StaticMap mem (raw + name_size + 2 * 8 + 4);
     Some \<lparr>ff_name = name, ff_address = address, ff_size = sz, ff_parameter_size = param, ff_lines = ls\<rparr>
   }"

definition PublicSymbol_CopyFrom :: "string \<Rightarrow> nat \<Rightarrow> PublicSymbol option" where
  "PublicSymbol_CopyFrom mem raw = do {
     name \<leftarrow> read_string mem raw;
     let name_size = length name + 1;
     address \<leftarrow> read_u64 mem (raw + name_size);
     param \<leftarrow> read_i32 mem (raw + name_size + 8);
     Some \<lparr>symbol_name = name, symbol_address = address, symbol_parameter_size = param\<rparr>
   }"

text \<open>The constructor of \<open>WindowsFrameInfo\<close> that \<open>CopyWFI\<close> calls sets \<open>valid\<close> to \<open>VALID_ALL\<close>.\<close>

definition CopyWFI :: "string \<Rightarrow> nat \<Rightarrow> WindowsFrameInfo option" where
  "CopyWFI mem raw = do {
     type \<leftarrow> read_i32 mem raw;
     let para = raw + 2 * 4;
     prolog \<leftarrow> read_u32 mem para;
     epilog \<leftarrow> read_u32 mem (para + 4);
     param \<leftarrow> read_u32 mem (para + 2 * 4);
     saved \<leftarrow> read_u32 mem (para + 3 * 4);
     locals \<leftarrow> read_u32 mem (para + 4 * 4);
     max_stack \<leftarrow> read_u32 mem (para + 5 * 4);
     boolean \<leftarrow> read_num mem (para + 6 * 4) 1;
     program \<leftarrow> read_string mem (para + 6 * 4 + 1);
     Some \<lparr>wf_type = type, wf_valid = VALID_ALL, prolog_size = prolog, epilog_size = epilog,
       wf_parameter_size = param, saved_register_size = saved, local_size = locals, max_stack_size = max_stack,
       allocates_base_pointer = (boolean \<noteq> 0), program_string = program\<rparr>
   }"

section \<open>Modules\<close>

record FastModule =
  fm_files :: static_map
  fm_functions :: static_map
  fm_public_symbols :: static_map
  fm_is_corrupt :: bool
  fm_windows_frame_info :: "static_crange list"
  fm_cfi_initial_rules :: static_map
  fm_cfi_delta_rules :: static_map

text \<open>The array \<open>offsets\<close>, from an index on; it is computed with 32 bits.\<close>

fun map_offsets :: "string \<Rightarrow> nat \<Rightarrow> nat \<Rightarrow> 32 word \<Rightarrow> 32 word list option" where
  "map_offsets mem map_sizes 0 offset = Some []"
| "map_offsets mem map_sizes (Suc n) offset = do {
     sz \<leftarrow> (if n = 0 then Some 0 else read_u32 mem map_sizes);
     rest \<leftarrow> map_offsets mem (map_sizes + 4) n (offset + sz);
     Some (offset # rest)
   }"

fun load_all :: "(nat \<Rightarrow> 'a option) \<Rightarrow> nat list \<Rightarrow> 'a list option" where
  "load_all f [] = Some []"
| "load_all f (p # ps) = do {
     x \<leftarrow> f p;
     xs \<leftarrow> load_all f ps;
     Some (x # xs)
   }"

text \<open>A null buffer is not loaded (the inner \<open>None\<close>).\<close>

definition Fast_LoadMapFromMemory :: "string option \<Rightarrow> FastModule option option" where
  "Fast_LoadMapFromMemory memory_buffer =
     (case memory_buffer of
        None \<Rightarrow> Some None
      | Some mem \<Rightarrow> do {
          corrupt \<leftarrow> read_num mem 0 1;
          let mem_buffer = 1;
          offsets \<leftarrow> map_offsets mem mem_buffer (5 + STACK_INFO_LAST) (of_nat ((5 + STACK_INFO_LAST) * 4));
          let p = map (\<lambda>offset. mem_buffer + unat offset) offsets;
          files \<leftarrow> new_StaticMap mem (p ! 0);
          functions \<leftarrow> new_StaticMap mem (p ! 1);
          symbols \<leftarrow> new_StaticMap mem (p ! 2);
          infos \<leftarrow> load_all (new_StaticContainedRangeMap mem) (map (\<lambda>i. p ! (3 + i)) [0..<STACK_INFO_LAST]);
          initial_rules \<leftarrow> new_StaticMap mem (p ! (3 + STACK_INFO_LAST));
          delta_rules \<leftarrow> new_StaticMap mem (p ! (4 + STACK_INFO_LAST));
          Some (Some \<lparr>fm_files = files, fm_functions = functions, fm_public_symbols = symbols,
            fm_is_corrupt = (corrupt \<noteq> 0), fm_windows_frame_info = infos,
            fm_cfi_initial_rules = initial_rules, fm_cfi_delta_rules = delta_rules\<rparr>)
        })"

section \<open>Lookups\<close>

text \<open>The file of a line and its numbers\<close>

definition fast_line :: "u64 \<Rightarrow> string \<Rightarrow> FastModule \<Rightarrow> nat \<Rightarrow> u64 \<Rightarrow> StackFrame \<Rightarrow> StackFrame option" where
  "fast_line base mem m line_ptr line_base frame = do {
     l \<leftarrow> Line_CopyFrom mem line_ptr;
     x \<leftarrow> SM_find int_key mem (fm_files m) (source_file_id l);
     e \<leftarrow> SM_end mem (fm_files m);
     frame \<leftarrow>
       (if \<not> same_iterator x e then do {
          p \<leftarrow> GetValueRawPtr mem x;
          name \<leftarrow> read_string mem p;
          Some (frame\<lparr>source_file_name := name\<rparr>)
        }
        else Some frame);
     Some (frame\<lparr>source_line := line_number l, source_line_base := base + line_base\<rparr>)
   }"

text \<open>The public symbol, if there is no function or the symbol is above its base\<close>

definition fast_symbol :: "string \<Rightarrow> FastModule \<Rightarrow> u64 \<Rightarrow> static_found \<Rightarrow> (PublicSymbol \<times> u64) option option" where
  "fast_symbol mem m address func = do {
     found \<leftarrow> SAM_Retrieve mem (fm_public_symbols m) address;
     case found of
       None \<Rightarrow> Some None
     | Some (symbol_ptr, public_address) \<Rightarrow>
         if (case func of None \<Rightarrow> True | Some (_, fbase, _) \<Rightarrow> public_address > fbase)
         then map_option (\<lambda>symbol. Some (symbol, public_address)) (PublicSymbol_CopyFrom mem symbol_ptr)
         else Some None
   }"

definition within_function :: "u64 \<Rightarrow> static_found \<Rightarrow> bool" where
  "within_function address func =
     (case func of None \<Rightarrow> False | Some (_, b, z) \<Rightarrow> address \<ge> b \<and> address - b < z)"

definition Fast_LookupAddress :: "u64 \<Rightarrow> string \<Rightarrow> FastModule \<Rightarrow> StackFrame \<Rightarrow> StackFrame option" where
  "Fast_LookupAddress base mem m frame = (
     let address = instruction frame - base in do {
     func \<leftarrow> SRM_RetrieveNearestRange mem (fm_functions m) address;
     if within_function address func then do {
       (func_ptr, fbase, _) \<leftarrow> func;
       f \<leftarrow> Function_CopyFrom mem func_ptr;
       let frame = frame\<lparr>function_name := ff_name f, function_base := base + fbase\<rparr>;
       found \<leftarrow> SRM_RetrieveRange mem (ff_lines f) address;
       case found of
         None \<Rightarrow> Some frame
       | Some (line_ptr, line_base, _) \<Rightarrow> fast_line base mem m line_ptr line_base frame
     }
     else do {
       symbol \<leftarrow> fast_symbol mem m address func;
       case symbol of
         None \<Rightarrow> Some frame
       | Some (symbol, public_address) \<Rightarrow>
           Some (frame\<lparr>function_name := symbol_name symbol, function_base := base + public_address\<rparr>)
     }
   })"

text \<open>
  As in the basic resolver, the parameter size of a public symbol is put into \<open>result\<close>, but what is
  returned is \<open>NULL\<close>.
\<close>

definition Fast_FindWindowsFrameInfo :: "u64 \<Rightarrow> string \<Rightarrow> FastModule \<Rightarrow> StackFrame \<Rightarrow> WindowsFrameInfo option option"
where
  "Fast_FindWindowsFrameInfo base mem m frame = (
     let address = instruction frame - base in do {
     found \<leftarrow> SCRM_RetrieveRange mem (fm_windows_frame_info m ! STACK_INFO_FRAME_DATA) address;
     found \<leftarrow> (if found \<noteq> None then Some found
       else SCRM_RetrieveRange mem (fm_windows_frame_info m ! STACK_INFO_FPO) address);
     case found of
       Some frame_info_ptr \<Rightarrow> do {
         p \<leftarrow> frame_info_ptr;
         info \<leftarrow> CopyWFI mem p;
         Some (Some (WFI_CopyFrom info new_WindowsFrameInfo))
       }
     | None \<Rightarrow> do {
         func \<leftarrow> SRM_RetrieveNearestRange mem (fm_functions m) address;
         if within_function address func then do {
           (func_ptr, _, _) \<leftarrow> func;
           f \<leftarrow> Function_CopyFrom mem func_ptr;
           Some (Some (new_WindowsFrameInfo\<lparr>wf_parameter_size := word_of_int (ff_parameter_size f),
             wf_valid := VALID_PARAMETER_SIZE\<rparr>))
         }
         else do {
           _ \<leftarrow> fast_symbol mem m address func;
           Some None
         }
       }
   })"

partial_function (option) static_deltas ::
  "string \<Rightarrow> static_map \<Rightarrow> static_iterator \<Rightarrow> u64 \<Rightarrow> CFIFrameInfo \<Rightarrow> CFIFrameInfo option"
where
  "static_deltas mem m delta address rules = do {
     e \<leftarrow> SM_end mem m;
     if same_iterator delta e then Some rules
     else do {
       key \<leftarrow> GetKey addr_key mem delta;
       if \<not> key \<le> address then Some rules
       else do {
         p \<leftarrow> GetValueRawPtr mem delta;
         text_of \<leftarrow> read_string mem p;
         static_deltas mem m (it_next delta) address (snd (CFI_Parse CFIFrameInfoParseHandler text_of rules))
       }
     }
   }"

definition Fast_FindCFIFrameInfo :: "u64 \<Rightarrow> string \<Rightarrow> FastModule \<Rightarrow> StackFrame \<Rightarrow> CFIFrameInfo option option" where
  "Fast_FindCFIFrameInfo base mem m frame = (
     let address = instruction frame - base in do {
     found \<leftarrow> SRM_RetrieveRange mem (fm_cfi_initial_rules m) address;
     case found of
       None \<Rightarrow> Some None
     | Some (initial_ptr, initial_base, _) \<Rightarrow> do {
         initial_rules \<leftarrow> read_string mem initial_ptr;
         let (ok, rules) = CFI_Parse CFIFrameInfoParseHandler initial_rules new_CFIFrameInfo;
         if \<not> ok then Some None
         else do {
           delta \<leftarrow> SM_lower_bound addr_key mem (fm_cfi_delta_rules m) initial_base;
           rules \<leftarrow> static_deltas mem (fm_cfi_delta_rules m) delta address rules;
           Some (Some rules)
         }
       }
   })"

end
