(* ===== verification/Fast_Equivalence.thy ===== *)
theory Fast_Equivalence
  imports Static_Map_Reads Fast_Resolver Resolver_Invariant
begin

text \<open>
  A module of \<open>Source_Line_Resolver\<close> that is serialized and loaded into a module of \<open>Fast_Resolver\<close> is
  looked up with the same results.
\<close>

section \<open>Records\<close>

definition line_ints :: "Line \<Rightarrow> bool" where
  "line_ints l \<longleftrightarrow> in_int (source_file_id l) \<and> in_int (line_number l)"

definition lines_ints :: "Function \<Rightarrow> bool" where
  "lines_ints f \<longleftrightarrow> (\<forall>p\<in>set (rm_map (func_lines f)). line_ints (rng_entry (snd p)))"

lemma length_string_chars [simp]: "length (string_chars s) = Suc (length s)"
  by (simp add: string_chars_def)

lemma Line_read:
  assumes "at mem p (line_chars l)" "line_ints l"
  shows "Line_CopyFrom mem p = Some l"
proof -
  have at: "at mem p (u64_chars (line_address l))" "at mem (p + 8) (u64_chars (line_size l))"
    "at mem (p + 16) (i32_chars (source_file_id l))" "at mem (p + 20) (i32_chars (line_number l))"
    using assms(1) by (simp_all add: line_chars_def at_append ac_simps)
  show ?thesis
    using read_u64_at [OF at(1)] read_u64_at [OF at(2)] read_i32_at [OF at(3)] read_i32_at [OF at(4)] assms(2)
    by (simp add: Line_CopyFrom_def line_ints_def ac_simps)
qed

lemma PublicSymbol_read:
  assumes "at mem p (symbol_chars s)" "no_nul (symbol_name s)" "in_int (symbol_parameter_size s)"
  shows "PublicSymbol_CopyFrom mem p = Some s"
proof -
  let ?q = "p + (length (symbol_name s) + 1)"
  have at: "at mem p (string_chars (symbol_name s))" "at mem ?q (u64_chars (symbol_address s))"
    "at mem (?q + 8) (i32_chars (symbol_parameter_size s))"
    using assms(1) by (simp_all add: symbol_chars_def at_append ac_simps)
  show ?thesis
    unfolding PublicSymbol_CopyFrom_def
    using read_string_at [OF at(1) assms(2)] read_u64_at [OF at(2)] read_i32_at [OF at(3) assms(3)]
    by (simp add: Let_def ac_simps)
qed

lemma read_bool_at:
  assumes "at mem p (bool_chars b)"
  shows "\<exists>n. read_num mem p 1 = Some n \<and> (n \<noteq> 0 \<longleftrightarrow> b)"
proof -
  have "bool_chars b = num_chars 1 (if b then 255 else 0)" by (simp add: bool_chars_def)
  then have "read_num mem p 1 = Some (if b then 255 else 0)" using assms by (intro read_num_at) simp_all
  then show ?thesis by simp
qed

lemma CopyWFI_read:
  assumes "at mem p (wfi_chars w)" "no_nul (program_string w)" "in_int (wf_type w)" "wf_valid w = VALID_ALL"
  shows "CopyWFI mem p = Some w"
proof -
  have at: "at mem p (i32_chars (wf_type w))" "at mem (p + 8) (u32_chars (prolog_size w))"
    "at mem (p + 12) (u32_chars (epilog_size w))" "at mem (p + 16) (u32_chars (wf_parameter_size w))"
    "at mem (p + 20) (u32_chars (saved_register_size w))" "at mem (p + 24) (u32_chars (local_size w))"
    "at mem (p + 28) (u32_chars (max_stack_size w))" "at mem (p + 32) (bool_chars (allocates_base_pointer w))"
    "at mem (p + 33) (string_chars (program_string w))"
    using assms(1) by (simp_all add: wfi_chars_def at_append ac_simps)
  obtain n where n: "read_num mem (p + 32) 1 = Some n" "n \<noteq> 0 \<longleftrightarrow> allocates_base_pointer w"
    using read_bool_at [OF at(8)] by blast
  show ?thesis
    unfolding CopyWFI_def
    using read_i32_at [OF at(1) assms(3)] at(2-7) [THEN read_u32_at] n read_string_at [OF at(9) assms(2)] assms(4)
    by (simp add: Let_def ac_simps)
qed

text \<open>A map is stored in the memory.\<close>

definition static_is ::
  "'k key_type \<Rightarrow> ('v \<Rightarrow> string) \<Rightarrow> string \<Rightarrow> static_map \<Rightarrow> ('k, 'v) std_map \<Rightarrow> bool"
where
  "static_is kt vc mem M m \<longleftrightarrow> (\<exists>raw. M = the_map raw (length m) \<and> holds_map kt vc mem raw m)"

lemma Function_read:
  assumes "at mem p (function_chars f)" "no_nul (func_name f)" "in_int (func_parameter_size f)" "length mem < 2 ^ 32"
  shows "\<exists>g. Function_CopyFrom mem p = Some g \<and> ff_name g = func_name f
    \<and> ff_parameter_size g = func_parameter_size f
    \<and> static_is addr_key (range_chars line_chars) mem (ff_lines g) (rm_map (func_lines f))"
proof -
  let ?q = "p + (length (func_name f) + 1)" and ?m = "rm_map (func_lines f)"
  have at: "at mem p (string_chars (func_name f))" "at mem ?q (u64_chars (func_address f))"
    "at mem (?q + 8) (u64_chars (func_size f))" "at mem (?q + 16) (i32_chars (func_parameter_size f))"
    "at mem (?q + 20) (map_chars 8 u64_chars (range_chars line_chars) ?m)"
    using assms(1) by (simp_all add: function_chars_def at_append range_map_chars_def ac_simps)
  have h: "holds_map addr_key (range_chars line_chars) mem (?q + 20) ?m"
    using at(5) assms(4) by (rule addr_map_holds)
  have "new_StaticMap mem (?q + 20) = Some (the_map (?q + 20) (length ?m))" by (rule holds_mapD(1) [OF h])
  then have "Function_CopyFrom mem p = Some \<lparr>ff_name = func_name f, ff_address = func_address f,
      ff_size = func_size f, ff_parameter_size = func_parameter_size f, ff_lines = the_map (?q + 20) (length ?m)\<rparr>"
    using read_string_at [OF at(1) assms(2)] read_u64_at [OF at(2)] read_u64_at [OF at(3)]
      read_i32_at [OF at(4) assms(3)]
    by (simp add: Function_CopyFrom_def Let_def ac_simps)
  then show ?thesis using h by (auto simp: static_is_def)
qed

section \<open>Maps\<close>

lemma static_nearest_found:
  "static_is addr_key (range_chars ec) mem M m \<Longrightarrow> map_ok m \<Longrightarrow>
    found_same ec mem (RetrieveNearestRange m a) (SRM_RetrieveNearestRange mem M a)"
  by (auto simp: static_is_def intro: SRM_RetrieveNearestRange_same)

lemma static_range_found:
  "static_is addr_key (range_chars ec) mem M m \<Longrightarrow> map_ok m \<Longrightarrow>
    found_same ec mem (RetrieveRange m a) (SRM_RetrieveRange mem M a)"
  by (auto simp: static_is_def intro: SRM_RetrieveRange_same)

lemma int_keys: "in_int k \<Longrightarrow> length (i32_chars k) = key_size int_key \<and> key_value int_key (chars_num (i32_chars k)) = k"
proof -
  have "unat (word_of_int k :: 32 word) < 256 ^ 4" using unsigned_less [of "word_of_int k :: 32 word", where ?'a = nat] by simp
  then show "in_int k \<Longrightarrow> ?thesis"
    by (simp add: int_key_def i32_chars_def u32_chars_def chars_num_chars sint_of_int)
qed

lemma int_map_holds:
  assumes "at mem raw (map_chars 4 i32_chars vc m)" "length mem < 2 ^ 32" "\<forall>p\<in>set m. in_int (fst p)"
  shows "holds_map int_key vc mem raw m"
  using int_keys assms by (intro serialized_holds [of mem raw 4 i32_chars]) (auto simp: int_key_def)

lemma found_entry:
  "RetrieveRange m a = Some (e, x) \<Longrightarrow> \<exists>p\<in>set m. e = rng_entry (snd p)"
  "RetrieveNearestRange m a = Some (e, x) \<Longrightarrow> \<exists>p\<in>set m. e = rng_entry (snd p)"
proof -
  show r: "RetrieveRange m a = Some (e, x) \<Longrightarrow> \<exists>p\<in>set m. e = rng_entry (snd p)" for e x
    by (auto simp: RetrieveRange_at range_out_def case_prod_beta split: if_splits intro: nth_mem)
  assume n: "RetrieveNearestRange m a = Some (e, x)"
  show "\<exists>p\<in>set m. e = rng_entry (snd p)"
  proof (cases "RetrieveRange m a")
    case None
    then have "upto m a \<noteq> 0" "e = rng_entry (snd (m ! (upto m a - 1)))"
      using n by (auto simp: RetrieveNearestRange_def upper_begin prev_at range_out_def case_prod_beta Let_def split: if_splits)
    moreover have "upto m a - 1 < length m" using below_le(2) [of m a] calculation(1) by simp
    ultimately show ?thesis by (auto intro: nth_mem)
  next
    case (Some y)
    then have "RetrieveRange m a = Some (e, x)" using n by (simp add: RetrieveNearestRange_def)
    then show ?thesis by (rule r)
  qed
qed

lemma CR_entry: "CR_RetrieveRange t a = Some e \<Longrightarrow> \<exists>x\<in>ranges_of t. snd (snd x) = e"
proof (induction t arbitrary: e rule: ranges_of.induct)
  case (1 b e0 m)
  let ?p = "m ! below m a"
  have p: "?p \<in> set m" using "1.prems" by (auto simp: CR_Retrieve_at split: if_splits)
  then have sub: "insert (cr_base (snd ?p), fst ?p, cr_entry (snd ?p)) (ranges_of (snd ?p)) \<subseteq> ranges_of (CRange b e0 m)"
    unfolding ranges_of.simps by blast
  have "e = cr_entry (snd ?p) \<or> CR_RetrieveRange (snd ?p) a = Some e"
    using "1.prems" by (auto simp: CR_Retrieve_at Let_def split: if_splits option.splits)
  then show ?case
  proof
    assume "e = cr_entry (snd ?p)"
    then show ?thesis using sub by (intro bexI [of _ "(cr_base (snd ?p), fst ?p, cr_entry (snd ?p))"]) auto
  next
    assume "CR_RetrieveRange (snd ?p) a = Some e"
    from "1.IH" [OF p this] sub show ?thesis by blast
  qed
qed

section \<open>Modules\<close>

definition infos_is :: "string \<Rightarrow> static_crange list \<Rightarrow> (u64, WindowsFrameInfo) crange list \<Rightarrow> bool" where
  "infos_is mem ss ts \<longleftrightarrow> length ss = length ts
     \<and> (\<forall>i<length ts. \<exists>p. ss ! i = the_crange wfi_chars True p (ts ! i) \<and> at mem p (cr_chars wfi_chars True (ts ! i)))"

text \<open>The module \<open>fm\<close>, with its maps in memory, has the contents of \<open>m\<close>.\<close>

definition fast_of :: "string \<Rightarrow> FastModule \<Rightarrow> Module \<Rightarrow> bool" where
  "fast_of mem fm m \<longleftrightarrow> static_is int_key string_chars mem (fm_files fm) (file_map m)
     \<and> static_is addr_key (range_chars (\<lambda>i. function_chars (func_store m ! i))) mem (fm_functions fm) (rm_map (function_map m))
     \<and> static_is addr_key symbol_chars mem (fm_public_symbols fm) (public_symbols m)
     \<and> fm_is_corrupt fm = is_corrupt m
     \<and> infos_is mem (fm_windows_frame_info fm) (windows_frame_info m)
     \<and> static_is addr_key (range_chars string_chars) mem (fm_cfi_initial_rules fm) (rm_map (cfi_initial_rules m))
     \<and> static_is addr_key string_chars mem (fm_cfi_delta_rules fm) (cfi_delta_rules m)"

text \<open>The numbers of a module fit their types.\<close>

definition info_ints :: "WindowsFrameInfo \<Rightarrow> bool" where
  "info_ints w \<longleftrightarrow> in_int (wf_type w) \<and> wf_valid w = VALID_ALL"

definition ints_ok :: "Module \<Rightarrow> bool" where
  "ints_ok m \<longleftrightarrow> (\<forall>p\<in>set (file_map m). in_int (fst p))
     \<and> (\<forall>f\<in>set (func_store m). in_int (func_parameter_size f) \<and> lines_ints f)
     \<and> (\<forall>p\<in>set (public_symbols m). in_int (symbol_parameter_size (snd p)))
     \<and> (\<forall>t\<in>set (windows_frame_info m). cr_ok info_ints True t)"

section \<open>Loading\<close>

fun sums_from :: "nat \<Rightarrow> nat list \<Rightarrow> nat list" where
  "sums_from d [] = []"
| "sums_from d (n # ns) = d # sums_from (d + n) ns"

lemma sums_from_nth: "i < length ns \<Longrightarrow> sums_from d ns ! i = d + sum_list (take i ns)"
proof (induction ns arbitrary: d i)
  case (Cons n ns)
  then show ?case by (cases i) auto
qed simp

lemma length_sums_from [simp]: "length (sums_from d ns) = length ns"
  by (induction ns arbitrary: d) simp_all

lemma map_offsets_at:
  assumes "at mem p (concat (map (num_chars 4) ns))" "\<forall>n\<in>set ns. n < 2 ^ 32"
  shows "map_offsets mem p (length ns) (of_nat d) = Some (map of_nat (sums_from d ns))"
  using assms
proof (induction ns arbitrary: p d)
  case (Cons n ns)
  have at: "at mem p (num_chars 4 n)" "at mem (p + 4) (concat (map (num_chars 4) ns))"
    using Cons.prems(1) by (simp_all add: at_append)
  have "read_u32 mem p = Some (of_nat n)"
    using read_num_at [OF at(1)] Cons.prems(2) by (simp add: read_u32_def)
  moreover have rest: "map_offsets mem (p + 4) (length ns) (of_nat d + of_nat n) = Some (map of_nat (sums_from (d + n) ns))"
    using Cons.IH [OF at(2), of "d + n"] Cons.prems(2) by (simp only: of_nat_add) simp
  ultimately show ?case
    by (cases "ns = []") (simp, simp only: length_Cons map_offsets.simps length_0_conv if_False
      Option.bind.simps sums_from.simps list.map)
qed simp

lemma load_all_map: "(\<And>x. x \<in> set xs \<Longrightarrow> f x = Some (g x)) \<Longrightarrow> load_all f xs = Some (map g xs)"
  by (induction xs) simp_all

lemma unat_of_nat_small: "n < 2 ^ 32 \<Longrightarrow> unat (of_nat n :: 32 word) = n"
  by (simp add: unat_of_nat)

lemma module_parts:
  assumes at: "at mem 0 (module_chars m)" and texts: "texts_ok m" and small: "length mem < 2 ^ 32"
  shows "\<exists>ps. map_offsets mem 1 (5 + STACK_INFO_LAST) (of_nat ((5 + STACK_INFO_LAST) * 4)) = Some ps
    \<and> length ps = kNumberMaps \<and> (\<forall>i<kNumberMaps. at mem (1 + unat (ps ! i)) (map_texts m ! i))"
proof -
  let ?ns = "map_sizes m" and ?ts = "map_texts m"
  have ns: "?ns = map length ?ts" by (rule map_sizes_texts [OF texts])
  have n: "length ?ns = 5 + STACK_INFO_LAST" by (simp add: ns length_map_texts kNumberMaps_def)
  have "length (concat (map (num_chars 4) ?ns)) = (5 + STACK_INFO_LAST) * 4"
    using length_concat_same [of ?ns "num_chars 4" 4] by (simp add: n)
  then have parts: "at mem 1 (concat (map (num_chars 4) ?ns))" "at mem (1 + (5 + STACK_INFO_LAST) * 4) (concat ?ts)"
    using at by (simp_all add: module_chars_def at_append)
  have t: "at mem (1 + (5 + STACK_INFO_LAST) * 4 + length (concat (take i ?ts))) (?ts ! i)" if "i < length ?ts" for i
    using at_concat [of mem _ "\<lambda>x. x" ?ts i] parts(2) that by simp
  have pos: "(5 + STACK_INFO_LAST) * 4 + length (concat (take i ?ts)) + length (?ts ! i) < 2 ^ 32"
    if "i < length ?ts" for i
    using at_bound [OF t [OF that]] small by linarith
  have "\<forall>x\<in>set ?ns. x < 2 ^ 32"
    using pos by (force simp: ns in_set_conv_nth)
  from map_offsets_at [OF parts(1) this, of "(5 + STACK_INFO_LAST) * 4"]
  have "map_offsets mem 1 (5 + STACK_INFO_LAST) (of_nat ((5 + STACK_INFO_LAST) * 4))
      = Some (map of_nat (sums_from ((5 + STACK_INFO_LAST) * 4) ?ns))"
    by (simp only: n)
  moreover have "at mem (1 + unat ((map of_nat (sums_from ((5 + STACK_INFO_LAST) * 4) ?ns) :: 32 word list) ! i)) (?ts ! i)"
    if "i < kNumberMaps" for i
  proof -
    have i: "i < length ?ts" "i < length ?ns" using that by (simp_all add: length_map_texts ns)
    have "sums_from ((5 + STACK_INFO_LAST) * 4) ?ns ! i = (5 + STACK_INFO_LAST) * 4 + length (concat (take i ?ts))"
      using i(2) by (simp only: sums_from_nth) (simp add: ns take_map length_concat)
    moreover have "(5 + STACK_INFO_LAST) * 4 + length (concat (take i ?ts)) < 2 ^ 32" using pos [OF i(1)] by linarith
    ultimately have "unat ((map of_nat (sums_from ((5 + STACK_INFO_LAST) * 4) ?ns) :: 32 word list) ! i)
        = (5 + STACK_INFO_LAST) * 4 + length (concat (take i ?ts))"
      using i(2) by (simp only: length_sums_from nth_map unat_of_nat_small)
    then show ?thesis using t [OF i(1)] by (simp add: add.assoc)
  qed
  ultimately show ?thesis using n by (auto simp: kNumberMaps_def)
qed

lemma load_module:
  assumes at: "at mem 0 (module_chars m)" and texts: "texts_ok m" and ints: "ints_ok m" and small: "length mem < 2 ^ 32"
  shows "\<exists>fm. Fast_LoadMapFromMemory (Some mem) = Some (Some fm) \<and> fast_of mem fm m"
proof -
  obtain ps where offs: "map_offsets mem 1 (5 + STACK_INFO_LAST) (of_nat ((5 + STACK_INFO_LAST) * 4)) = Some ps"
    and len: "length ps = kNumberMaps" and t: "\<And>i. i < kNumberMaps \<Longrightarrow> at mem (1 + unat (ps ! i)) (map_texts m ! i)"
    using module_parts [OF at texts small] by blast
  define p where "p = map (\<lambda>offset. 1 + unat offset) ps"
  have p: "at mem (p ! i) (map_texts m ! i)" if "i < kNumberMaps" for i
    using t [OF that] that len by (simp add: p_def)
  let ?w = "\<lambda>i. windows_frame_info m ! i"
  have m0: "at mem (p ! 0) (map_chars 4 i32_chars string_chars (file_map m))"
    and m1: "at mem (p ! 1) (map_chars 8 u64_chars (range_chars (\<lambda>i. function_chars (func_store m ! i))) (rm_map (function_map m)))"
    and m2: "at mem (p ! 2) (map_chars 8 u64_chars symbol_chars (public_symbols m))"
    and m8: "at mem (p ! (3 + STACK_INFO_LAST)) (map_chars 8 u64_chars (range_chars string_chars) (rm_map (cfi_initial_rules m)))"
    and m9: "at mem (p ! (4 + STACK_INFO_LAST)) (map_chars 8 u64_chars string_chars (cfi_delta_rules m))"
    using p [of 0] p [of 1] p [of 2] p [of "3 + STACK_INFO_LAST"] p [of "4 + STACK_INFO_LAST"]
    by (simp_all add: map_texts_def range_map_chars_def kNumberMaps_def nth_append)
  have w: "at mem (p ! (3 + i)) (cr_chars wfi_chars True (?w i))" if "i < STACK_INFO_LAST" for i
    using p [of "3 + i"] that by (simp add: map_texts_def kNumberMaps_def nth_append)
  have h0: "holds_map int_key string_chars mem (p ! 0) (file_map m)"
    using int_map_holds [OF m0 small] ints by (simp add: ints_ok_def)
  note h1 = addr_map_holds [OF m1 small] and h2 = addr_map_holds [OF m2 small]
    and h8 = addr_map_holds [OF m8 small] and h9 = addr_map_holds [OF m9 small]
  have "at mem 0 (bool_chars (is_corrupt m))" using at by (simp add: module_chars_def at_append)
  then obtain c where c: "read_num mem 0 1 = Some c" "c \<noteq> 0 \<longleftrightarrow> is_corrupt m" using read_bool_at by blast
  have infos: "load_all (new_StaticContainedRangeMap mem) (map (\<lambda>i. p ! (3 + i)) [0..<STACK_INFO_LAST])
      = Some (map (\<lambda>i. the_crange wfi_chars True (p ! (3 + i)) (?w i)) [0..<STACK_INFO_LAST])"
  proof -
    have *: "load_all (new_StaticContainedRangeMap mem) (map (\<lambda>i. p ! (3 + i)) xs)
        = Some (map (\<lambda>i. the_crange wfi_chars True (p ! (3 + i)) (?w i)) xs)" if "set xs \<subseteq> {..<STACK_INFO_LAST}" for xs
      using that by (induction xs) (simp_all add: crange_at(1) [OF w small])
    show ?thesis by (rule *) auto
  qed
  let ?fm = "\<lparr>fm_files = the_map (p ! 0) (length (file_map m)),
    fm_functions = the_map (p ! 1) (length (rm_map (function_map m))),
    fm_public_symbols = the_map (p ! 2) (length (public_symbols m)), fm_is_corrupt = (c \<noteq> 0),
    fm_windows_frame_info = map (\<lambda>i. the_crange wfi_chars True (p ! (3 + i)) (?w i)) [0..<STACK_INFO_LAST],
    fm_cfi_initial_rules = the_map (p ! (3 + STACK_INFO_LAST)) (length (rm_map (cfi_initial_rules m))),
    fm_cfi_delta_rules = the_map (p ! (4 + STACK_INFO_LAST)) (length (cfi_delta_rules m))\<rparr>"
  have "Fast_LoadMapFromMemory (Some mem) = Some (Some ?fm)"
    unfolding Fast_LoadMapFromMemory_def option.case Let_def c(1) offs Option.bind.simps p_def [symmetric]
      holds_mapD(1) [OF h0] holds_mapD(1) [OF h1] holds_mapD(1) [OF h2] holds_mapD(1) [OF h8] holds_mapD(1) [OF h9]
      infos ..
  moreover have "length (windows_frame_info m) = STACK_INFO_LAST" using texts by (simp add: texts_ok_def)
  then have "fast_of mem ?fm m"
    using h0 h1 h2 h8 h9 w c(2) by (auto simp: fast_of_def static_is_def infos_is_def)
  ultimately show ?thesis by blast
qed

section \<open>Lookups\<close>

lemma map_find_below:
  "map_find m k = (if below m k < length m \<and> fst (m ! below m k) = k then drop (below m k) m else [])"
  by (auto simp: map_find_def bound_drop hd_drop_conv_nth Let_def)

lemma fast_line_same:
  assumes fm: "fast_of mem fm m" and ok: "module_ok m" and texts: "texts_ok m"
    and at: "at mem p (line_chars l)" and ints: "line_ints l"
  shows "fast_line base mem fm p lb frame = Some
    ((case map_find (file_map m) (source_file_id l) of
        [] \<Rightarrow> frame
      | (_, name) # _ \<Rightarrow> frame\<lparr>source_file_name := name\<rparr>)
     \<lparr>source_line := line_number l, source_line_base := base + lb\<rparr>)"
proof -
  let ?m = "file_map m"
  let ?b = "below ?m (source_file_id l)"
  obtain raw where M: "fm_files fm = the_map raw (length ?m)" "holds_map int_key string_chars mem raw ?m"
    using fm by (auto simp: fast_of_def static_is_def)
  have m: "map_ok ?m" using ok by (simp add: module_ok_def)
  note reads = Line_read [OF at ints] bounds_hold [OF M(2) m]
  show ?thesis
  proof (cases "?b < length ?m \<and> fst (?m ! ?b) = source_file_id l")
    case True
    then have b: "?b < length ?m" by simp
    obtain k name where e: "?m ! ?b = (k, name)" by (cases "?m ! ?b")
    obtain q where q: "GetValueRawPtr mem (iter raw (length ?m) ?b) = Some q" "at mem q (string_chars name)"
      using iter_reads(2) [OF M(2) b] e by auto
    have "no_nul name" using texts nth_mem [OF b] e by (auto simp: texts_ok_def)
    then have "read_string mem q = Some name" by (rule read_string_at [OF q(2)])
    moreover have "map_find ?m (source_file_id l) = (k, name) # drop (Suc ?b) ?m"
      using True e by (simp add: map_find_below Cons_nth_drop_Suc [OF b, symmetric])
    ultimately show ?thesis using True b q(1) reads by (simp add: fast_line_def M(1))
  next
    case False
    then have "map_find ?m (source_file_id l) = []" by (simp add: map_find_below)
    then show ?thesis using False reads by (auto simp: fast_line_def M(1))
  qed
qed

lemma fast_symbol_same:
  assumes fm: "fast_of mem fm m" and ok: "module_ok m" and texts: "texts_ok m" and ints: "ints_ok m"
  shows "fast_symbol mem fm a func = Some (case AM_Retrieve (public_symbols m) a of
      None \<Rightarrow> None
    | Some (symbol, public_address) \<Rightarrow>
        if (case func of None \<Rightarrow> True | Some (_, fbase, _) \<Rightarrow> public_address > fbase)
        then Some (symbol, public_address) else None)"
proof -
  let ?m = "public_symbols m"
  obtain raw where M: "fm_public_symbols fm = the_map raw (length ?m)" "holds_map addr_key symbol_chars mem raw ?m"
    using fm by (auto simp: fast_of_def static_is_def)
  have m: "map_ok ?m" using ok by (simp add: module_ok_def)
  note found = SAM_Retrieve_same [OF M(2) m, of a]
  show ?thesis
  proof (cases "AM_Retrieve ?m a")
    case None
    then show ?thesis using found by (simp add: fast_symbol_def M(1))
  next
    case (Some x)
    obtain s k where x: "x = (s, k)" by (cases x)
    obtain p where p: "SAM_Retrieve mem (the_map raw (length ?m)) a = Some (Some (p, k))" "at mem p (symbol_chars s)"
      using found Some x by auto
    have "\<exists>q\<in>set ?m. s = snd q"
      using Some x below_le(2) [of ?m a]
      by (auto simp: AM_Retrieve_def upper_begin prev_at case_prod_beta Let_def intro!: nth_mem split: if_splits)
    then have "no_nul (symbol_name s)" "in_int (symbol_parameter_size s)"
      using texts ints by (auto simp: texts_ok_def ints_ok_def)
    then have "PublicSymbol_CopyFrom mem p = Some s" by (rule PublicSymbol_read [OF p(2)])
    then show ?thesis using Some x p(1) by (simp add: fast_symbol_def M(1))
  qed
qed

lemma function_same:
  assumes fm: "fast_of mem fm m" and ok: "module_ok m" and texts: "texts_ok m" and ints: "ints_ok m"
    and small: "length mem < 2 ^ 32"
  shows "case RetrieveNearestRange (rm_map (function_map m)) a of
      None \<Rightarrow> SRM_RetrieveNearestRange mem (fm_functions fm) a = Some None
    | Some (i, b, d, z) \<Rightarrow> \<exists>p g. SRM_RetrieveNearestRange mem (fm_functions fm) a = Some (Some (p, b, z))
        \<and> Function_CopyFrom mem p = Some g \<and> ff_name g = func_name (func_store m ! i)
        \<and> ff_parameter_size g = func_parameter_size (func_store m ! i)
        \<and> static_is addr_key (range_chars line_chars) mem (ff_lines g) (rm_map (func_lines (func_store m ! i)))
        \<and> i < length (func_store m)"
proof -
  let ?F = "rm_map (function_map m)"
  have F: "static_is addr_key (range_chars (\<lambda>i. function_chars (func_store m ! i))) mem (fm_functions fm) ?F"
    using fm by (simp add: fast_of_def)
  have m: "map_ok ?F" using ok by (simp add: module_ok_def functions_ok_def placed_def ranges_ok_def)
  note found = static_nearest_found [OF F m, of a]
  show ?thesis
  proof (cases "RetrieveNearestRange ?F a")
    case None
    then show ?thesis using found by simp
  next
    case (Some x)
    obtain i b d z where x: "x = (i, b, d, z)" by (cases x)
    obtain p where p: "SRM_RetrieveNearestRange mem (fm_functions fm) a = Some (Some (p, b, z))"
      "at mem p (function_chars (func_store m ! i))"
      using found Some x by auto
    obtain q where q: "q \<in> set ?F" "i = rng_entry (snd q)" using found_entry(2) [OF Some [unfolded x]] by blast
    have i: "i < length (func_store m)" using ok q by (auto simp: module_ok_def functions_ok_def)
    have "no_nul (func_name (func_store m ! i))" using texts q by (auto simp: texts_ok_def entries_ok_def)
    moreover have "in_int (func_parameter_size (func_store m ! i))" using ints nth_mem [OF i] by (auto simp: ints_ok_def)
    ultimately show ?thesis
      using Function_read [OF p(2) _ _ small] p(1) i Some x by auto
  qed
qed

lemma Fast_LookupAddress_same:
  assumes fm: "fast_of mem fm m" and ok: "module_ok m" and texts: "texts_ok m" and ints: "ints_ok m"
    and small: "length mem < 2 ^ 32"
  shows "Fast_LookupAddress base mem fm frame = Some (LookupAddress base m frame)"
proof -
  define a where "a = instruction frame - base"
  note symbol = fast_symbol_same [OF fm ok texts ints]
  note func = function_same [OF fm ok texts ints small, of a]
  show ?thesis
  proof (cases "RetrieveNearestRange (rm_map (function_map m)) a")
    case None
    then show ?thesis
      using func symbol [of a None]
      by (auto simp: Fast_LookupAddress_def LookupAddress_def a_def [symmetric] within_function_def Let_def
          split: option.splits)
  next
    case (Some x)
    obtain i b d z where x: "x = (i, b, d, z)" by (cases x)
    obtain p g where p: "SRM_RetrieveNearestRange mem (fm_functions fm) a = Some (Some (p, b, z))"
      and g: "Function_CopyFrom mem p = Some g" "ff_name g = func_name (func_store m ! i)"
      and lines: "static_is addr_key (range_chars line_chars) mem (ff_lines g) (rm_map (func_lines (func_store m ! i)))"
      and i: "i < length (func_store m)"
      using func Some x by auto
    show ?thesis
    proof (cases "a \<ge> b \<and> a - b < z")
      case False
      then show ?thesis
        using Some x p symbol [of a "Some (p, b, z)"]
        by (auto simp: Fast_LookupAddress_def LookupAddress_def a_def [symmetric] within_function_def Let_def
            split: option.splits)
    next
      case True
      let ?ls = "rm_map (func_lines (func_store m ! i))"
      have ls: "map_ok ?ls" using ok nth_mem [OF i] by (auto simp: module_ok_def functions_ok_def placed_def ranges_ok_def)
      note found = static_range_found [OF lines ls, of a]
      show ?thesis
      proof (cases "RetrieveRange ?ls a")
        case None
        then show ?thesis
          using found True Some x p g
          by (simp add: Fast_LookupAddress_def LookupAddress_def a_def [symmetric] within_function_def Let_def)
      next
        case (Some y)
        obtain l lb ld lz where y: "y = (l, lb, ld, lz)" by (cases y)
        obtain q where q: "SRM_RetrieveRange mem (ff_lines g) a = Some (Some (q, lb, lz))" "at mem q (line_chars l)"
          using found Some y by auto
        have "line_ints l"
          using found_entry(1) [OF Some [unfolded y]] ints nth_mem [OF i] by (auto simp: ints_ok_def lines_ints_def)
        from fast_line_same [OF fm ok texts q(2) this]
        show ?thesis
          using q(1) Some y True \<open>RetrieveNearestRange (rm_map (function_map m)) a = Some x\<close> x p g
          by (simp add: Fast_LookupAddress_def LookupAddress_def a_def [symmetric] within_function_def Let_def)
      qed
    qed
  qed
qed

lemma windows_same:
  assumes fm: "fast_of mem fm m" and ok: "module_ok m" and texts: "texts_ok m" and ints: "ints_ok m"
    and small: "length mem < 2 ^ 32" and i: "i < STACK_INFO_LAST"
  shows "case CR_RetrieveRange (windows_frame_info m ! i) a of
      None \<Rightarrow> SCRM_RetrieveRange mem (fm_windows_frame_info fm ! i) a = Some None
    | Some w \<Rightarrow> \<exists>q. SCRM_RetrieveRange mem (fm_windows_frame_info fm ! i) a = Some (Some (Some q))
        \<and> CopyWFI mem q = Some w"
proof -
  let ?t = "windows_frame_info m ! i"
  have len: "i < length (windows_frame_info m)" using i ok by (simp add: module_ok_def)
  then obtain p where p: "fm_windows_frame_info fm ! i = the_crange wfi_chars True p ?t" "at mem p (cr_chars wfi_chars True ?t)"
    using fm by (auto simp: fast_of_def infos_is_def)
  have t: "tree_ok ?t" "cr_ok info_ints True ?t" "cr_ok (\<lambda>w. no_nul (program_string w)) True ?t"
    using nth_mem [OF len] ok texts ints by (auto simp: module_ok_def texts_ok_def ints_ok_def)
  have ne: "wfi_chars w \<noteq> []" for w by (simp add: wfi_chars_def string_chars_def)
  note found = SCRM_RetrieveRange_same [OF p(2) t(1) small ne, of a]
  show ?thesis
  proof (cases "CR_RetrieveRange ?t a")
    case None
    then show ?thesis using found p(1) by simp
  next
    case (Some w)
    obtain q where q: "SCRM_RetrieveRange mem (fm_windows_frame_info fm ! i) a = Some (Some (Some q))" "at mem q (wfi_chars w)"
      using found Some p(1) by auto
    have "info_ints w" "no_nul (program_string w)"
      using CR_entry [OF Some] t(2,3) by (auto simp: cr_ok_def)
    then have "CopyWFI mem q = Some w" using CopyWFI_read [OF q(2)] by (simp add: info_ints_def)
    then show ?thesis using q(1) Some by simp
  qed
qed

lemma Fast_FindWindowsFrameInfo_same:
  assumes fm: "fast_of mem fm m" and ok: "module_ok m" and texts: "texts_ok m" and ints: "ints_ok m"
    and small: "length mem < 2 ^ 32"
  shows "Fast_FindWindowsFrameInfo base mem fm frame = Some (FindWindowsFrameInfo base m frame)"
proof -
  define a where "a = instruction frame - base"
  note windows = windows_same [OF fm ok texts ints small, where a = a]
  note data = windows [of STACK_INFO_FRAME_DATA] and fpo = windows [of STACK_INFO_FPO]
  note defs = Fast_FindWindowsFrameInfo_def FindWindowsFrameInfo_def a_def [symmetric] Let_def
  have types: "STACK_INFO_FRAME_DATA < STACK_INFO_LAST" "STACK_INFO_FPO < STACK_INFO_LAST"
    by (simp_all add: STACK_INFO_FRAME_DATA_def STACK_INFO_FPO_def STACK_INFO_LAST_def)
  show ?thesis
  proof (cases "CR_RetrieveRange (windows_frame_info m ! STACK_INFO_FRAME_DATA) a")
    case (Some w)
    then show ?thesis using data [OF types(1)] by (auto simp: defs)
  next
    case none: None
    show ?thesis
    proof (cases "CR_RetrieveRange (windows_frame_info m ! STACK_INFO_FPO) a")
      case (Some w)
      then show ?thesis using none data [OF types(1)] fpo [OF types(2)] by (auto simp: defs)
    next
      case None
      note symbol = fast_symbol_same [OF fm ok texts ints, of a]
      show ?thesis
        using none None data [OF types(1)] fpo [OF types(2)] function_same [OF fm ok texts ints small, of a]
        by (cases "RetrieveNearestRange (rm_map (function_map m)) a") (auto simp: defs within_function_def symbol)
    qed
  qed
qed

lemma it_next_iter: "i < n \<Longrightarrow> it_next (iter raw n i) = iter raw n (Suc i)"
  by (simp add: it_next_def iter_def IsValid_def the_map_def)

lemma static_deltas_same:
  assumes h: "holds_map addr_key string_chars mem raw ds" and m: "map_ok ds" and texts: "\<forall>p\<in>set ds. no_nul (snd p)"
    and "i \<le> length ds"
  shows "static_deltas mem (the_map raw (length ds)) (iter raw (length ds) i) a rules
    = Some (apply_deltas (drop i ds) a rules)"
  using assms(4)
proof (induction "length ds - i" arbitrary: i rules)
  case 0
  then show ?case using bounds_hold(2) [OF h m] by (simp add: static_deltas.simps)
next
  case (Suc n)
  then have i: "i < length ds" by simp
  obtain k t where e: "ds ! i = (k, t)" by (cases "ds ! i")
  have d: "drop i ds = (k, t) # drop (Suc i) ds" using Cons_nth_drop_Suc [OF i] e by simp
  obtain p where p: "GetValueRawPtr mem (iter raw (length ds) i) = Some p" "at mem p (string_chars t)"
    using iter_reads(2) [OF h i] e by auto
  have "no_nul t" using texts nth_mem [OF i] e by auto
  then have t: "read_string mem p = Some t" by (rule read_string_at [OF p(2)])
  have "static_deltas mem (the_map raw (length ds)) (iter raw (length ds) (Suc i)) a rs
      = Some (apply_deltas (drop (Suc i) ds) a rs)" for rs
    using Suc by (intro Suc.hyps) simp_all
  then show ?case
    using i bounds_hold(2) [OF h m] iter_reads(1) [OF h i] e p(1) t
    by (subst static_deltas.simps) (simp add: d it_next_iter)
qed

lemma Fast_FindCFIFrameInfo_same:
  assumes fm: "fast_of mem fm m" and ok: "module_ok m" and texts: "texts_ok m"
  shows "Fast_FindCFIFrameInfo base mem fm frame = Some (FindCFIFrameInfo base m frame)"
proof -
  define a where "a = instruction frame - base"
  let ?I = "rm_map (cfi_initial_rules m)" and ?D = "cfi_delta_rules m"
  note defs = Fast_FindCFIFrameInfo_def FindCFIFrameInfo_def a_def [symmetric] Let_def
  have I: "static_is addr_key (range_chars string_chars) mem (fm_cfi_initial_rules fm) ?I"
    using fm by (simp add: fast_of_def)
  obtain raw where D: "fm_cfi_delta_rules fm = the_map raw (length ?D)" "holds_map addr_key string_chars mem raw ?D"
    using fm by (auto simp: fast_of_def static_is_def)
  have ms: "map_ok ?I" "map_ok ?D" using ok by (simp_all add: module_ok_def ranges_ok_def)
  have dt: "\<forall>p\<in>set ?D. no_nul (snd p)" using texts by (simp add: texts_ok_def)
  note found = static_range_found [OF I ms(1), of a]
  show ?thesis
  proof (cases "RetrieveRange ?I a")
    case None
    then show ?thesis using found by (simp add: defs)
  next
    case (Some x)
    obtain t b d z where x: "x = (t, b, d, z)" by (cases x)
    obtain p where p: "SRM_RetrieveRange mem (fm_cfi_initial_rules fm) a = Some (Some (p, b, z))" "at mem p (string_chars t)"
      using found Some x by auto
    have "no_nul t" using found_entry(1) [OF Some [unfolded x]] texts by (auto simp: texts_ok_def entries_ok_def)
    then have t: "read_string mem p = Some t" by (rule read_string_at [OF p(2)])
    have "static_deltas mem (the_map raw (length ?D)) (iter raw (length ?D) (below ?D b)) a rules
        = Some (apply_deltas (lower_bound ?D b) a rules)" for rules
      using static_deltas_same [OF D(2) ms(2) dt below_le(1)] by (simp add: bound_drop)
    then show ?thesis
      using Some x p(1) t bounds_hold(3) [OF D(2) ms(2), of b]
      by (simp add: defs D(1) split: prod.split)
  qed
qed

end
