(* ===== verification/Loaded_Modules.thy ===== *)
theory Loaded_Modules
  imports Fast_Equivalence
begin

text \<open>
  What the symbol loader puts into a module can be serialized: its texts are C strings and its numbers
  fit their types (\<open>contents_ok\<close>).
\<close>

section \<open>Texts\<close>

lemma set_dropWhile_subset: "set (dropWhile P xs) \<subseteq> set xs"
  using set_dropWhileD by fastforce

lemma set_tl_subset: "set (tl xs) \<subseteq> set xs"
  by (cases xs) auto

lemma strtok_r_chars:
  assumes "strtok_r delims t = Some (token, rest)"
  shows "set token \<subseteq> set t" "set rest \<subseteq> set t"
proof -
  let ?d = "dropWhile (\<lambda>c. c \<in> delims) t"
  have d: "set ?d \<subseteq> set t" by (rule set_dropWhile_subset)
  have e: "token = takeWhile (\<lambda>c. c \<notin> delims) ?d" "rest = tl (dropWhile (\<lambda>c. c \<notin> delims) ?d)"
    using assms by (simp_all add: strtok_r_def Let_def split: if_splits)
  show "set token \<subseteq> set t" using d set_takeWhileD [of _ "\<lambda>c. c \<notin> delims" ?d] unfolding e(1) by blast
  show "set rest \<subseteq> set t"
    unfolding e(2) by (rule order_trans [OF set_tl_subset order_trans [OF set_dropWhile_subset d]])
qed

lemma strtok_r_no_nul: "strtok_r delims t = Some (token, rest) \<Longrightarrow> no_nul t \<Longrightarrow> no_nul token \<and> no_nul rest"
  using strtok_r_chars [of delims t token rest] unfolding no_nul_def by blast

lemma tokenize_loop_no_nul:
  "tokenize_loop separators remaining x toks = (remaining', text', toks') \<Longrightarrow>
    (\<forall>token line. x = Some (token, line) \<longrightarrow> no_nul token \<and> no_nul line) \<Longrightarrow> \<forall>u\<in>set toks. no_nul u \<Longrightarrow>
    no_nul text' \<and> (\<forall>u\<in>set toks'. no_nul u)"
proof (induction separators remaining x toks rule: tokenize_loop.induct)
  case (1 separators remaining toks)
  then show ?case by (simp add: tokenize_loop.simps no_nul_def)
next
  case (2 separators remaining token line toks)
  show ?case
  proof (cases "remaining - 1 > 0")
    case True
    define x where "x = (if remaining - 1 > 1 then strtok_r separators line else Some (token, line))"
    have "no_nul token" "no_nul line" using 2(3) by simp_all
    then have "\<forall>token line. x = Some (token, line) \<longrightarrow> no_nul token \<and> no_nul line" "\<forall>u\<in>set (toks @ [token]). no_nul u"
      using strtok_r_no_nul [of separators line] 2(4) by (auto simp: x_def split: if_splits)
    moreover have "tokenize_loop separators (remaining - 1) x (toks @ [token]) = (remaining', text', toks')"
      using 2(2) True by (simp add: tokenize_loop.simps(2) Let_def x_def)
    ultimately show ?thesis using 2(1) [OF refl True, folded x_def] by blast
  next
    case False
    then show ?thesis using 2(2-) by (simp add: tokenize_loop.simps(2) Let_def)
  qed
qed

lemma Tokenize_no_nul:
  assumes "Tokenize line separators n = Some toks" "no_nul line" "i < n"
  shows "no_nul (toks ! i)"
proof -
  obtain remaining text' toks' where l: "tokenize_loop separators (int n) (strtok_r separators line) [] = (remaining, text', toks')"
    by (metis prod.collapse)
  have ok: "no_nul text'" "\<forall>u\<in>set toks'. no_nul u"
    using tokenize_loop_no_nul [OF l] strtok_r_no_nul assms(2) by auto
  have "(\<forall>u\<in>set toks. no_nul u) \<and> length toks = n"
    using assms(1) ok strtok_r_no_nul [of eols text'] by (auto simp: Tokenize_def l Let_def split: if_splits option.splits)
  then show ?thesis using assms(3) by simp
qed

lemma no_nul_drop: "no_nul t \<Longrightarrow> no_nul (drop n t)"
  by (auto simp: no_nul_def dest: in_set_dropD)

lemma to_int_in_int [simp]: "in_int (to_int x)"
proof -
  have "- (2 ^ 31) \<le> sint (word_of_int x :: 32 word)" "sint (word_of_int x :: 32 word) < 2 ^ 31"
    using sint_greater_eq [of "word_of_int x :: 32 word"] sint_less [of "word_of_int x :: 32 word"] by simp_all
  then show ?thesis by (simp add: in_int_def to_int_def)
qed

section \<open>The contents of a module\<close>

definition info_ok :: "WindowsFrameInfo \<Rightarrow> bool" where
  "info_ok w \<longleftrightarrow> info_ints w \<and> no_nul (program_string w)"

definition func_ok :: "Function \<Rightarrow> bool" where
  "func_ok f \<longleftrightarrow> no_nul (func_name f) \<and> in_int (func_parameter_size f) \<and> lines_ints f"

definition contents_ok :: "Module \<Rightarrow> bool" where
  "contents_ok m \<longleftrightarrow> (\<forall>p\<in>set (file_map m). in_int (fst p) \<and> no_nul (snd p))
     \<and> (\<forall>f\<in>set (func_store m). func_ok f)
     \<and> (\<forall>p\<in>set (public_symbols m). in_int (symbol_parameter_size (snd p)) \<and> no_nul (symbol_name (snd p)))
     \<and> (\<forall>t\<in>set (windows_frame_info m). \<forall>x\<in>ranges_of t. info_ok (snd (snd x)))
     \<and> entries_ok no_nul (cfi_initial_rules m)
     \<and> (\<forall>p\<in>set (cfi_delta_rules m). no_nul (snd p))"

lemma contents_texts: "module_ok m \<Longrightarrow> contents_ok m \<Longrightarrow> texts_ok m"
  by (auto simp: contents_ok_def texts_ok_def module_ok_def functions_ok_def entries_ok_def cr_ok_def info_ok_def func_ok_def
      dest!: subsetD)

lemma contents_ints: "contents_ok m \<Longrightarrow> ints_ok m"
  by (auto simp: contents_ok_def ints_ok_def cr_ok_def info_ok_def func_ok_def)

lemma new_contents: "contents_ok new_Module"
  by (auto simp: contents_ok_def new_Module_def entries_ok_def new_RangeMap_def new_ContainedRangeMap_def ranges_of.simps)

section \<open>Every record keeps it\<close>

lemma set_map_insert_subset: "set (map_insert k v m) \<subseteq> insert (k, v) (set m)"
  by (induction k v m rule: map_insert.induct) auto

lemma StoreRange_entries:
  assumes "\<not> enable_shrink_down s" "ranges_ok (rm_map s)" "StoreRange b len e s = Some (ok, s')"
    "entries_ok P s" "P e"
  shows "entries_ok P s'"
  using StoreRange_plain [OF assms(1,2), of b len e] assms(3-) by (auto simp: entries_ok_def mk_Range_def)

lemma ParseFile_contents:
  assumes "contents_ok m" "no_nul line" shows "contents_ok (snd (ParseFile line m))"
proof (cases "SPH_ParseFile line")
  case (Some x)
  obtain index name where x: "x = (index, name)" by (cases x)
  have "no_nul name"
    using Some x Tokenize_no_nul [of "drop 5 line" kWhitespace 2] no_nul_drop [OF assms(2)]
    by (auto simp: SPH_ParseFile_def split: option.splits)
  then have "\<forall>p\<in>set (map_insert (to_int index) name (file_map m)). in_int (fst p) \<and> no_nul (snd p)"
    using set_map_insert_subset [of "to_int index" name "file_map m"] assms(1) by (fastforce simp: contents_ok_def)
  then show ?thesis using Some x assms(1) by (simp add: ParseFile_def contents_ok_def)
qed (simp add: ParseFile_def assms)

lemma ParsePublicSymbol_contents:
  assumes "module_ok m" "contents_ok m" "no_nul line" shows "contents_ok (snd (ParsePublicSymbol line m))"
proof (cases "SPH_ParsePublicSymbol line")
  case (Some x)
  obtain address param name where x: "x = (address, param, name)" by (cases x)
  let ?s = "\<lparr>symbol_name = name, symbol_address = address, symbol_parameter_size = to_int param\<rparr>"
  have "no_nul name"
    using Some x Tokenize_no_nul [of "drop 7 line" kWhitespace 3] no_nul_drop [OF assms(3)]
    by (auto simp: SPH_ParsePublicSymbol_def split: option.splits)
  then have ins: "\<forall>p\<in>set (map_insert address ?s (public_symbols m)). in_int (symbol_parameter_size (snd p)) \<and> no_nul (symbol_name (snd p))"
    using set_map_insert_subset [of address ?s "public_symbols m"] assms(2) by (fastforce simp: contents_ok_def)
  have "map_ok (public_symbols m)" using assms(1) by (simp add: module_ok_def)
  from AM_Store_outcome [OF this, of address ?s] show ?thesis
    using Some x assms(2) ins by (auto simp: ParsePublicSymbol_def contents_ok_def)
qed (simp add: ParsePublicSymbol_def assms)

lemma ParseCFIFrameInfo_contents:
  assumes "module_ok m" "contents_ok m" "no_nul t" "ParseCFIFrameInfo t m = Done (ok, m')"
  shows "contents_ok m'"
proof -
  have cfi: "\<not> enable_shrink_down (cfi_initial_rules m)" "ranges_ok (rm_map (cfi_initial_rules m))"
    using assms(1) by (simp_all add: module_ok_def)
  have inits: "entries_ok no_nul (cfi_initial_rules m)" using assms(2) by (simp add: contents_ok_def)
  have init: "contents_ok (m\<lparr>cfi_initial_rules := r\<rparr>)"
    if "StoreRange b len e (cfi_initial_rules m) = Some (ok', r)" "no_nul e" for b len e r ok'
    using StoreRange_entries [OF cfi that(1) inits that(2)] assms(2) by (simp add: contents_ok_def)
  have delta: "contents_ok (m\<lparr>cfi_delta_rules := map_assign a d (cfi_delta_rules m)\<rparr>)" if "no_nul d" for a d
    using set_map_insert_subset [of a d "map_erase a (cfi_delta_rules m)"] assms(2) that
    by (fastforce simp: contents_ok_def map_assign_def set_map_erase)
  note tokens = strtok_r_no_nul [of kWhitespace] strtok_r_no_nul [of eols]
  show ?thesis
    using assms(2-4) unfolding ParseCFIFrameInfo_def
    by (auto split: option.splits prod.splits if_splits dest!: tokens intro: init delta)
qed

lemma ParseFromString_contents:
  assumes "ParseFromString t = Some (info, type, rva, len)" "no_nul t" shows "info_ok info"
proof -
  obtain toks where "Tokenize t kWhitespace 11 = Some toks" using assms(1) by (auto simp: ParseFromString_def split: option.splits)
  from Tokenize_no_nul [OF this assms(2), of 10] show ?thesis
    using \<open>Tokenize t kWhitespace 11 = Some toks\<close> assms(1)
    by (auto simp: ParseFromString_def info_ok_def info_ints_def Let_def no_nul_def split: if_splits)
qed

definition opt_no_nul :: "string option \<Rightarrow> bool" where
  "opt_no_nul b \<longleftrightarrow> (case b of None \<Rightarrow> True | Some t \<Rightarrow> no_nul t)"

lemma no_nul_tl_dropWhile: "no_nul t \<Longrightarrow> no_nul (tl (dropWhile P t))"
  using set_tl_subset [of "dropWhile P t"] set_dropWhile_subset [of P t] by (auto simp: no_nul_def)

lemma windows_contents:
  assumes "module_ok m" "contents_ok m" "info_ok info" "type < STACK_INFO_LAST"
  shows "contents_ok (m\<lparr>windows_frame_info := (windows_frame_info m)
    [type := snd (CR_StoreRange rva len info (windows_frame_info m ! type))]\<rparr>)"
proof -
  let ?t = "windows_frame_info m ! type"
  let ?t' = "snd (CR_StoreRange rva len info ?t)"
  have i: "type < length (windows_frame_info m)" using assms(1,4) by (simp add: module_ok_def)
  then have t: "?t \<in> set (windows_frame_info m)" by simp
  then have "tree_ok ?t" "\<forall>x\<in>ranges_of ?t. info_ok (snd (snd x))"
    using assms(1,2) by (auto simp: module_ok_def contents_ok_def)
  then have "\<forall>x\<in>ranges_of ?t'. info_ok (snd (snd x))"
    using CR_StoreRange_outcome [of ?t len rva info] assms(3) by (auto split: if_splits)
  then have "\<forall>t\<in>set ((windows_frame_info m)[type := ?t']). \<forall>x\<in>ranges_of t. info_ok (snd (snd x))"
    using assms(2) set_update_subset_insert [of "windows_frame_info m" type ?t'] by (fastforce simp: contents_ok_def)
  then show ?thesis using assms(2) by (simp add: contents_ok_def)
qed

lemma ParseStackInfo_contents:
  assumes "module_ok m" "contents_ok m" "no_nul line" "opt_no_nul behind"
    "ParseStackInfo line behind m = Done (ok, m', was_cut)"
  shows "contents_ok m'"
proof -
  define p where "p = dropWhile (\<lambda>c. c = CHR '' '') (drop 6 line)"
  define rest where "rest = (if dropWhile (\<lambda>c. c \<notin> kWhitespace) p = [] then behind
    else Some (tl (dropWhile (\<lambda>c. c \<notin> kWhitespace) p)))"
  note unfold = ParseStackInfo_def [of line behind m, folded p_def, unfolded Let_def, folded rest_def]
  have p: "no_nul p"
    using no_nul_drop [OF assms(3), of 6] set_dropWhile_subset [of "\<lambda>c. c = CHR '' ''" "drop 6 line"]
    unfolding p_def no_nul_def by blast
  have rest: "no_nul t" if "rest = Some t" for t
    using that p assms(4) no_nul_tl_dropWhile by (auto simp: rest_def opt_no_nul_def split: if_splits)
  have win: "contents_ok (m\<lparr>windows_frame_info := (windows_frame_info m)
      [type := snd (CR_StoreRange rva len info (windows_frame_info m ! type))]\<rparr>)"
    if "rest = Some t" "ParseFromString t = Some (info, type, rva, len)" for t info type rva len
    using that by (intro windows_contents [OF assms(1,2)] ParseFromString_contents ParseFromString_type rest)
  have cfi: "contents_ok m2" if "rest = Some t" "ParseCFIFrameInfo t m = Done (ok2, m2)" for t ok2 m2
    using ParseCFIFrameInfo_contents [OF assms(1,2) rest [OF that(1)] that(2)] .
  show ?thesis
    using assms(2,5) unfolding unfold
    by (auto split: if_splits option.splits run.splits prod.splits intro: win cfi)
qed

lemma parse_record_contents:
  assumes ok: "module_ok m" "contents_ok m" "cur_ok cur m" and line: "no_nul line" "opt_no_nul behind"
    and parsed: "parse_record line behind cur m = Done (ok, cur', m', was_cut)"
  shows "contents_ok m'"
proof -
  have file_case: "contents_ok m2" if "ParseFile line m = (ok2, m2)" for ok2 m2
    using ParseFile_contents [OF ok(2) line(1)] that by (metis snd_conv)
  have symbol: "contents_ok m2" if "ParsePublicSymbol line m = (ok2, m2)" for ok2 m2
    using ParsePublicSymbol_contents [OF ok(1,2) line(1)] that by (metis snd_conv)
  have fn: "contents_ok (m\<lparr>function_map := fs, func_store := func_store m @ [f]\<rparr>)"
    if "ParseFunction line = Some f" for f fs
  proof -
    have "no_nul (func_name f)" "in_int (func_parameter_size f)" "rm_map (func_lines f) = []"
      using that Tokenize_no_nul [of "drop 5 line" kWhitespace 4 _ 3] no_nul_drop [OF line(1)]
      by (auto simp: ParseFunction_def SPH_ParseFunction_def new_RangeMap_def split: option.splits)
    then show ?thesis using ok(2) by (auto simp: contents_ok_def func_ok_def lines_ints_def)
  qed
  have source: "contents_ok (m\<lparr>func_store := (func_store m)[i := (func_store m ! i)\<lparr>func_lines := ls\<rparr>]\<rparr>)"
    if "cur = Some i" "ParseLine line = Some l" and s: "StoreRange (line_address l) (line_size l) l (func_lines (func_store m ! i)) = Some (ok2, ls)"
    for i l ls ok2
  proof -
    let ?f = "func_store m ! i"
    have "i < length (func_store m)" using ok(3) that(1) by (simp add: cur_ok_def)
    then have f: "?f \<in> set (func_store m)" by simp
    then have lines: "\<not> enable_shrink_down (func_lines ?f)" "ranges_ok (rm_map (func_lines ?f))" "func_ok ?f"
      using ok(1,2) by (auto simp: module_ok_def functions_ok_def placed_def contents_ok_def)
    have "line_ints l" using that(2) by (auto simp: ParseLine_def line_ints_def)
    then have "entries_ok line_ints ls"
      using StoreRange_entries [OF lines(1,2) s, of line_ints] lines(3) by (simp add: entries_ok_def func_ok_def lines_ints_def)
    then have "func_ok (?f\<lparr>func_lines := ls\<rparr>)" using lines(3) by (simp add: func_ok_def entries_ok_def lines_ints_def)
    then have "\<forall>g\<in>set ((func_store m)[i := ?f\<lparr>func_lines := ls\<rparr>]). func_ok g"
      using ok(2) set_update_subset_insert [of "func_store m" i "?f\<lparr>func_lines := ls\<rparr>"] by (fastforce simp: contents_ok_def)
    then show ?thesis using ok(2) by (simp add: contents_ok_def)
  qed
  show ?thesis
    using parsed ok(2) unfolding parse_record_def
    by (auto split: if_splits option.splits run.splits prod.splits
        intro: file_case symbol fn source ParseStackInfo_contents [OF ok(1,2) line])
qed

section \<open>Loading\<close>

lemma cut_token_no_nul: "no_nul t \<Longrightarrow> no_nul (cut_token delims t)"
  using set_takeWhileD [of _ "\<lambda>c. c \<in> delims" t] strtok_r_no_nul [of delims t]
  by (auto simp: cut_token_def no_nul_def split: option.split)

lemma cut_text_no_nul:
  assumes "no_nul t" "opt_no_nul behind"
  shows "no_nul (fst (cut_text t behind))" "opt_no_nul (snd (cut_text t behind))"
  using assms cut_token_no_nul strtok_r_no_nul [of kWhitespace t]
  by (auto simp: cut_text_def opt_no_nul_def split: option.splits)

lemma load_lines_contents:
  assumes "module_ok m" "cur_ok cur m" "contents_ok m" "no_nul t" "opt_no_nul behind"
    "load_lines t behind cur n m = Done (n', m')"
  shows "contents_ok m'"
  using assms
proof (induction t arbitrary: behind cur n m rule: measure_induct_rule [of length])
  case (less t)
  show ?case
  proof (cases "strtok_r eols t")
    case None
    then show ?thesis using less.prems(3,6) by (simp add: load_lines.simps [of t])
  next
    case (Some x)
    obtain line rest where x: "x = (line, rest)" by (cases x)
    define at_end where "at_end = (dropWhile (\<lambda>c. c \<notin> eols) (dropWhile (\<lambda>c. c \<in> eols) t) = [])"
    let ?b = "if at_end then behind else Some rest"
    note step = load_lines.simps [of t behind cur n m, folded at_end_def, unfolded Some x option.case prod.case Let_def]
    have nn: "no_nul line" "no_nul rest" using strtok_r_no_nul [OF Some [unfolded x] less.prems(4)] by simp_all
    then have b: "opt_no_nul ?b" using less.prems(5) by (simp add: opt_no_nul_def)
    obtain ok cur' m2 was_cut where y: "parse_record line ?b cur m = Done (ok, cur', m2, was_cut)"
      using less.prems(6) step by (cases "parse_record line ?b cur m") auto
    have m2: "module_ok m2" "cur_ok cur' m2"
      using parse_record_ok [OF less.prems(1,2), where line = line and behind = ?b] by (simp_all add: y)
    have c2: "contents_ok m2" by (rule parse_record_contents [OF less.prems(1,3,2) nn(1) b y])
    have shorter: "length rest < length t" by (rule strtok_r_shorter [OF Some [unfolded x]])
    note rec = less.IH [OF shorter m2 c2 nn(2) less.prems(5)]
      less.IH [OF le_less_trans [OF length_cut_text shorter] m2 c2 cut_text_no_nul [OF nn(2) less.prems(5)]]
    show ?thesis
      using less.prems(6) c2 rec unfolding step y run.case prod.case by (auto split: if_splits)
  qed
qed

lemma LoadMapFromMemory_contents:
  assumes "module_ok m" "contents_ok m" "LoadMapFromMemory buffer m = Done (ok, m')"
  shows "contents_ok m'"
proof (cases "buffer = []")
  case True
  then show ?thesis using assms by (simp add: LoadMapFromMemory_def)
next
  case False
  let ?text = "map (\<lambda>c. if c = NUL then CHR ''_'' else c) (buffer_text buffer)"
  let ?behind = "if length (butlast buffer @ [NUL]) - length (buffer_text buffer) > 1 then Some [] else None"
  define n where "n = (if NUL \<in> set (buffer_text buffer) then 1 else 0 :: nat)"
  have step: "LoadMapFromMemory buffer m = (case load_lines ?text ?behind None n m of
        Done (num_errors, m) \<Rightarrow> Done (True, m\<lparr>is_corrupt := (num_errors > 0)\<rparr>)
      | Overread \<Rightarrow> Overread
      | NoReturn \<Rightarrow> NoReturn)"
    using False unfolding LoadMapFromMemory_def Let_def buffer_text_body n_def by simp
  obtain k m2 where l: "load_lines ?text ?behind None n m = Done (k, m2)" "m' = m2\<lparr>is_corrupt := (k > 0)\<rparr>"
    using assms(3) unfolding step by (cases "load_lines ?text ?behind None n m") auto
  have "contents_ok m2"
    by (rule load_lines_contents [OF assms(1) _ assms(2) _ _ l(1)]) (auto simp: cur_ok_def no_nul_def opt_no_nul_def)
  then show ?thesis by (simp add: l(2) contents_ok_def)
qed

end
