(* ===== verification/Fast_Modules.thy ===== *)
theory Fast_Modules
  imports Map_Serializers Fast_Resolver
begin

text \<open>
  \<open>SourceLineResolverBase\<close> with the modules of \<open>FastSourceLineResolver\<close>
  (\<open>src/app/breakpad/src/processor/source_line_resolver_base.cc\<close>, \<open>fast_source_line_resolver.cc\<close>), and
  the conversion of the modules of a basic resolver (\<open>module_serializer.cc\<close>).

  \<^item> A module is kept with the memory that its maps point into.  \<open>ShouldDeleteMemoryBufferAfterLoadModule\<close>
    is false, so the resolver also keeps the buffers that it has allocated.
  \<^item> As in the basic resolver, the maps and the set are keyed by C strings (\<open>CompareString\<close>).
  \<^item> \<open>None\<close> is a read outside of the memory of a module.
\<close>

section \<open>The resolver\<close>

record FastResolver =
  fast_modules :: "(string, string \<times> FastModule) std_map"
  fast_corrupt :: "string set"
  memory_buffers :: "(string, string) std_map"

definition new_FastResolver :: FastResolver where
  "new_FastResolver = \<lparr>fast_modules = [], fast_corrupt = {}, memory_buffers = []\<rparr>"

text \<open>A null buffer is not loaded, and fails the assertion that its module is corrupt.\<close>

definition FR_LoadModuleUsingMemoryBuffer ::
  "string option \<Rightarrow> string option \<Rightarrow> FastResolver \<Rightarrow> (bool \<times> FastResolver) option"
where
  "FR_LoadModuleUsingMemoryBuffer code_module memory_buffer r =
     (case code_module of
        None \<Rightarrow> Some (False, r)
      | Some code_file \<Rightarrow>
          if map_find (fast_modules r) (c_str code_file) \<noteq> [] then Some (False, r)
          else do {
            loaded \<leftarrow> Fast_LoadMapFromMemory memory_buffer;
            m \<leftarrow> loaded;
            mem \<leftarrow> memory_buffer;
            Some (True, r\<lparr>fast_modules := map_insert (c_str code_file) (mem, m) (fast_modules r),
              fast_corrupt := (if fm_is_corrupt m then insert (c_str code_file) (fast_corrupt r) else fast_corrupt r)\<rparr>)
          })"

text \<open>The buffer is kept if the module was loaded.\<close>

definition load_and_keep ::
  "string option \<Rightarrow> string \<Rightarrow> string \<Rightarrow> FastResolver \<Rightarrow> (bool \<times> FastResolver) option"
where
  "load_and_keep code_module code_file memory_buffer r = do {
     (load_result, r) \<leftarrow> FR_LoadModuleUsingMemoryBuffer code_module (Some memory_buffer) r;
     Some (load_result,
       if load_result then r\<lparr>memory_buffers := map_insert (c_str code_file) memory_buffer (memory_buffers r)\<rparr> else r)
   }"

definition FR_LoadModuleUsingMapBuffer ::
  "string option \<Rightarrow> string \<Rightarrow> FastResolver \<Rightarrow> (bool \<times> FastResolver) option"
where
  "FR_LoadModuleUsingMapBuffer code_module map_buffer r =
     (case code_module of
        None \<Rightarrow> Some (False, r)
      | Some code_file \<Rightarrow>
          if map_find (fast_modules r) (c_str code_file) \<noteq> [] then Some (False, r)
          else load_and_keep code_module code_file (map_buffer @ [NUL]) r)"

text \<open>\<open>symbol_data\<close> is what \<open>ReadSymbolFile\<close> reads from the file, \<open>None\<close> if it fails.\<close>

definition FR_LoadModule :: "string option \<Rightarrow> string option \<Rightarrow> FastResolver \<Rightarrow> (bool \<times> FastResolver) option" where
  "FR_LoadModule code_module symbol_data r =
     (case code_module of
        None \<Rightarrow> Some (False, r)
      | Some code_file \<Rightarrow>
          if map_find (fast_modules r) (c_str code_file) \<noteq> [] then Some (False, r)
          else
            (case symbol_data of
               None \<Rightarrow> Some (False, r)
             | Some contents \<Rightarrow> load_and_keep code_module code_file (contents @ [NUL]) r))"

definition FR_UnloadModule :: "string option \<Rightarrow> FastResolver \<Rightarrow> FastResolver" where
  "FR_UnloadModule code_module r =
     (case code_module of
        None \<Rightarrow> r
      | Some code_file \<Rightarrow>
          let r = (if map_find (fast_modules r) (c_str code_file) \<noteq> []
                then r\<lparr>fast_corrupt := fast_corrupt r - {c_str code_file},
                  fast_modules := map_erase (c_str code_file) (fast_modules r)\<rparr>
                else r) in
          r\<lparr>memory_buffers := map_erase (c_str code_file) (memory_buffers r)\<rparr>)"

definition FR_HasModule :: "string option \<Rightarrow> FastResolver \<Rightarrow> bool" where
  "FR_HasModule code_module r =
     (case code_module of None \<Rightarrow> False | Some code_file \<Rightarrow> map_find (fast_modules r) (c_str code_file) \<noteq> [])"

definition FR_IsModuleCorrupt :: "string option \<Rightarrow> FastResolver \<Rightarrow> bool" where
  "FR_IsModuleCorrupt code_module r =
     (case code_module of None \<Rightarrow> False | Some code_file \<Rightarrow> c_str code_file \<in> fast_corrupt r)"

text \<open>The module of a frame is the name of its file and its base address.\<close>

definition with_fast_module ::
  "(string \<times> u64) option \<Rightarrow> FastResolver \<Rightarrow> 'a \<Rightarrow> (u64 \<Rightarrow> string \<Rightarrow> FastModule \<Rightarrow> 'a option) \<Rightarrow> 'a option"
where
  "with_fast_module frame_module r none f =
     (case frame_module of
        None \<Rightarrow> Some none
      | Some (code_file, base) \<Rightarrow>
          (case map_find (fast_modules r) (c_str code_file) of
             [] \<Rightarrow> Some none
           | (_, mem, m) # _ \<Rightarrow> f base mem m))"

definition FR_FillSourceLineInfo :: "(string \<times> u64) option \<Rightarrow> FastResolver \<Rightarrow> StackFrame \<Rightarrow> StackFrame option" where
  "FR_FillSourceLineInfo frame_module r frame =
     with_fast_module frame_module r frame (\<lambda>base mem m. Fast_LookupAddress base mem m frame)"

definition FR_FindWindowsFrameInfo ::
  "(string \<times> u64) option \<Rightarrow> FastResolver \<Rightarrow> StackFrame \<Rightarrow> WindowsFrameInfo option option"
where
  "FR_FindWindowsFrameInfo frame_module r frame =
     with_fast_module frame_module r None (\<lambda>base mem m. Fast_FindWindowsFrameInfo base mem m frame)"

definition FR_FindCFIFrameInfo ::
  "(string \<times> u64) option \<Rightarrow> FastResolver \<Rightarrow> StackFrame \<Rightarrow> CFIFrameInfo option option"
where
  "FR_FindCFIFrameInfo frame_module r frame =
     with_fast_module frame_module r None (\<lambda>base mem m. Fast_FindCFIFrameInfo base mem m frame)"

section \<open>Conversion\<close>

text \<open>\<open>fresh n\<close> is the memory that \<open>new char[n]\<close> returns.\<close>

definition SerializeModuleAndLoadIntoFastResolver ::
  "(nat \<Rightarrow> string) \<Rightarrow> string \<times> Module \<Rightarrow> FastResolver \<Rightarrow> (bool \<times> FastResolver) option"
where
  "SerializeModuleAndLoadIntoFastResolver fresh iter fast_resolver = do {
     symbol_data \<leftarrow> Serialize_Module fresh (snd iter);
     FR_LoadModuleUsingMapBuffer (Some (fst iter)) symbol_data fast_resolver
   }"

fun convert_modules ::
  "(nat \<Rightarrow> string) \<Rightarrow> (string \<times> Module) list \<Rightarrow> FastResolver \<Rightarrow> FastResolver option"
where
  "convert_modules fresh [] fast_resolver = Some fast_resolver"
| "convert_modules fresh (p # ps) fast_resolver = do {
     (_, fast_resolver) \<leftarrow> SerializeModuleAndLoadIntoFastResolver fresh p fast_resolver;
     convert_modules fresh ps fast_resolver
   }"

text \<open>A resolver that is \<open>None\<close> is a null pointer.\<close>

definition ConvertAllModules ::
  "(nat \<Rightarrow> string) \<Rightarrow> Resolver option \<Rightarrow> FastResolver option \<Rightarrow> FastResolver option option"
where
  "ConvertAllModules fresh basic_resolver fast_resolver =
     (case (basic_resolver, fast_resolver) of
        (Some basic, Some fast) \<Rightarrow> map_option Some (convert_modules fresh (modules basic) fast)
      | _ \<Rightarrow> Some fast_resolver)"

definition ConvertOneModule ::
  "(nat \<Rightarrow> string) \<Rightarrow> string \<Rightarrow> Resolver option \<Rightarrow> FastResolver option \<Rightarrow> (bool \<times> FastResolver option) option"
where
  "ConvertOneModule fresh moduleid basic_resolver fast_resolver =
     (case (basic_resolver, fast_resolver) of
        (Some basic, Some fast) \<Rightarrow>
          (case map_find (modules basic) (c_str moduleid) of
             [] \<Rightarrow> Some (False, fast_resolver)
           | p # _ \<Rightarrow>
               map_option (\<lambda>(ok, fast). (ok, Some fast)) (SerializeModuleAndLoadIntoFastResolver fresh p fast))
      | _ \<Rightarrow> Some (False, fast_resolver))"

end
