(* ===== verification/Fast_Contracts.thy ===== *)
theory Fast_Contracts
  imports Loaded_Modules Fast_Modules Resolver_Contracts
begin

text \<open>
  The properties of the static maps and of the fast resolver: a map is read back as it was serialized, a
  symbol file is resolved from its serialized form as from its module, and a whole resolver that is
  converted answers as before.
\<close>

section \<open>Properties\<close>

lemma at_whole [simp]: "at s 0 s"
  by (simp add: at_def)

lemma serialized_module:
  assumes "module_ok m" "contents_ok m" "Module_SizeOf m < 2 ^ 32" "\<And>n. length (fresh n) = n"
  shows "\<exists>mem fm. Serialize_Module fresh m = Some mem \<and> Fast_LoadMapFromMemory (Some mem) = Some (Some fm)
    \<and> (fm_is_corrupt fm \<longleftrightarrow> is_corrupt m)
    \<and> (\<forall>base frame. Fast_LookupAddress base mem fm frame = Some (LookupAddress base m frame)
        \<and> Fast_FindWindowsFrameInfo base mem fm frame = Some (FindWindowsFrameInfo base m frame)
        \<and> Fast_FindCFIFrameInfo base mem fm frame = Some (FindCFIFrameInfo base m frame))"
proof -
  note texts = contents_texts [OF assms(1,2)] and ints = contents_ints [OF assms(2)]
  have "Module_Write m 0 (fresh (Module_SizeOf m)) = Some (module_chars m, Module_SizeOf m)"
    by (rule module_ser.write_fresh [OF texts assms(4)])
  then have s: "Serialize_Module fresh m = Some (module_chars m)" using assms(3) by (simp add: Serialize_Module_def)
  have small: "length (module_chars m) < 2 ^ 32" using module_ser.size_chars [OF texts] assms(3) by simp
  from load_module [OF at_whole texts ints small] obtain fm where
    l: "Fast_LoadMapFromMemory (Some (module_chars m)) = Some (Some fm)" and fm: "fast_of (module_chars m) fm m"
    by blast
  then have "fm_is_corrupt fm \<longleftrightarrow> is_corrupt m" by (simp add: fast_of_def)
  then show ?thesis
    using s l Fast_LookupAddress_same [OF fm assms(1) texts ints small] Fast_FindCFIFrameInfo_same [OF fm assms(1) texts]
      Fast_FindWindowsFrameInfo_same [OF fm assms(1) texts ints small] by blast
qed

section \<open>Converted resolvers\<close>

text \<open>The fast resolver has the modules \<open>ms\<close>, serialized.\<close>

definition mirrored :: "FastResolver \<Rightarrow> string \<Rightarrow> Module \<Rightarrow> bool" where
  "mirrored f name m \<longleftrightarrow>
     (\<exists>mem fm. (name, mem, fm) \<in> set (fast_modules f) \<and> length mem < 2 ^ 32 \<and> fast_of mem fm m)"

definition mirrors :: "FastResolver \<Rightarrow> (string \<times> Module) list \<Rightarrow> bool" where
  "mirrors f ms \<longleftrightarrow> map_ok (fast_modules f) \<and> fst ` set (fast_modules f) = fst ` set ms
     \<and> fast_corrupt f = {name. \<exists>m. (name, m) \<in> set ms \<and> is_corrupt m}
     \<and> (\<forall>(name, m)\<in>set ms. mirrored f name m)"

definition can_serialize :: "Module \<Rightarrow> bool" where
  "can_serialize m \<longleftrightarrow> module_ok m \<and> contents_ok m \<and> Module_SizeOf m + 1 < 2 ^ 32"

lemma convert_step:
  assumes f: "mirrors f ms" and fresh_name: "name \<notin> fst ` set ms" "NUL \<notin> set name" and m: "can_serialize m" and fresh: "\<And>n. length (fresh n) = n"
  shows "\<exists>f'. SerializeModuleAndLoadIntoFastResolver fresh (name, m) f = Some (True, f') \<and> mirrors f' (ms @ [(name, m)])"
proof -
  have ok: "module_ok m" "contents_ok m" "Module_SizeOf m + 1 < 2 ^ 32" using m by (simp_all add: can_serialize_def)
  note texts = contents_texts [OF ok(1,2)] and ints = contents_ints [OF ok(2)]
  let ?mem = "module_chars m @ [NUL]"
  have "Module_Write m 0 (fresh (Module_SizeOf m)) = Some (module_chars m, Module_SizeOf m)"
    by (rule module_ser.write_fresh [OF texts fresh])
  then have s: "Serialize_Module fresh m = Some (module_chars m)" using ok(3) by (simp add: Serialize_Module_def)
  have small: "length ?mem < 2 ^ 32" using module_ser.size_chars [OF texts] ok(3) by simp
  have "at ?mem 0 (module_chars m)" by (simp add: at_def)
  from load_module [OF this texts ints small] obtain fm where
    l: "Fast_LoadMapFromMemory (Some ?mem) = Some (Some fm)" and fm: "fast_of ?mem fm m" by blast
  have corrupt: "fm_is_corrupt fm \<longleftrightarrow> is_corrupt m" using fm by (simp add: fast_of_def)
  have maps: "map_ok (fast_modules f)" "name \<notin> fst ` set (fast_modules f)" using f fresh_name(1) by (simp_all add: mirrors_def)
  then have find: "map_find (fast_modules f) name = []" using map_find_at [of "fast_modules f" name] by blast
  let ?f = "f\<lparr>fast_modules := map_insert name (?mem, fm) (fast_modules f),
    fast_corrupt := (if is_corrupt m then insert name (fast_corrupt f) else fast_corrupt f),
    memory_buffers := map_insert name ?mem (memory_buffers f)\<rparr>"
  have run: "SerializeModuleAndLoadIntoFastResolver fresh (name, m) f = Some (True, ?f)"
    by (simp add: c_str_plain [OF fresh_name(2)] SerializeModuleAndLoadIntoFastResolver_def s FR_LoadModuleUsingMapBuffer_def find load_and_keep_def
        FR_LoadModuleUsingMemoryBuffer_def l corrupt)
  have set: "set (fast_modules ?f) = insert (name, ?mem, fm) (set (fast_modules f))"
    using set_map_insert [OF maps(2)] by simp
  have "mirrored ?f name m" using fm small unfolding mirrored_def set by blast
  moreover have "mirrored ?f name' m'" if "mirrored f name' m'" for name' m'
    using that unfolding mirrored_def set by blast
  moreover have "fst ` set (fast_modules ?f) = insert name (fst ` set (fast_modules f))" unfolding set by simp
  moreover have "map_ok (fast_modules ?f)" using maps(1) by (simp add: map_ok_insert)
  ultimately have "mirrors ?f (ms @ [(name, m)])"
    using f unfolding mirrors_def by auto
  then show ?thesis using run by blast
qed

lemma convert_modules_mirrors:
  assumes "mirrors f ms" "distinct (map fst (ms @ ps))" "\<forall>(name, m)\<in>set ps. NUL \<notin> set name \<and> can_serialize m" "\<And>n. length (fresh n) = n"
  shows "\<exists>f'. convert_modules fresh ps f = Some f' \<and> mirrors f' (ms @ ps)"
  using assms
proof (induction ps arbitrary: f ms)
  case (Cons p ps)
  obtain name m where p: "p = (name, m)" by (cases p)
  obtain f1 where f1: "SerializeModuleAndLoadIntoFastResolver fresh (name, m) f = Some (True, f1)" "mirrors f1 (ms @ [(name, m)])"
    using convert_step [of f ms name m fresh] Cons.prems p by auto
  have "\<exists>f'. convert_modules fresh ps f1 = Some f' \<and> mirrors f' ((ms @ [(name, m)]) @ ps)"
    using Cons.prems p by (intro Cons.IH f1(2)) auto
  then show ?case using f1(1) p by auto
qed simp

lemma map_find_some: "map_ok m \<Longrightarrow> (k, v) \<in> set m \<Longrightarrow> \<exists>rest. map_find m k = (k, v) # rest"
  using lower_bound_at [of m k v k] by (auto simp: map_find_def Let_def)

lemma map_find_none: "map_ok m \<Longrightarrow> k \<notin> fst ` set m \<Longrightarrow> map_find m k = []"
  using map_find_at [of m k] by blast

lemma with_mirrored:
  assumes f: "mirrors f (modules r)" and r: "resolver_ok r" "\<forall>(name, m)\<in>set (modules r). can_serialize m"
    and same: "\<And>mem fm m base. fast_of mem fm m \<Longrightarrow> module_ok m \<Longrightarrow> texts_ok m \<Longrightarrow> ints_ok m \<Longrightarrow> length mem < 2 ^ 32
      \<Longrightarrow> F base mem fm = Some (G base m)"
  shows "with_fast_module frame_module f none F = Some (with_module frame_module r none G)"
proof (cases frame_module)
  case (Some x)
  obtain code_file base where x: "x = (code_file, base)" by (cases x)
  let ?name = "c_str code_file"
  have ms: "map_ok (modules r)" "map_ok (fast_modules f)" using f r(1) by (simp_all add: resolver_ok_def mirrors_def)
  show ?thesis
  proof (cases "?name \<in> fst ` set (modules r)")
    case True
    then obtain m where m: "(?name, m) \<in> set (modules r)" by auto
    then obtain mem fm where fm: "(?name, mem, fm) \<in> set (fast_modules f)" "length mem < 2 ^ 32" "fast_of mem fm m"
      using f by (fastforce simp: mirrors_def mirrored_def)
    have ok: "module_ok m" "contents_ok m" using r(2) m by (auto simp: can_serialize_def)
    have "F base mem fm = Some (G base m)"
      by (rule same [OF fm(3) ok(1) contents_texts [OF ok] contents_ints [OF ok(2)] fm(2)])
    then show ?thesis
      using map_find_some [OF ms(1) m] map_find_some [OF ms(2) fm(1)] Some x by (auto simp: with_fast_module_def with_module_def)
  next
    case False
    then have "?name \<notin> fst ` set (fast_modules f)" using f by (simp add: mirrors_def)
    then show ?thesis
      using map_find_none [OF ms(1) False] map_find_none [OF ms(2)] Some x by (simp add: with_fast_module_def with_module_def)
  qed
qed (simp add: with_fast_module_def with_module_def)

text \<open>The modules of a resolver have contents that can be serialized.\<close>

lemma resolver_step_contents:
  assumes "resolver_step r r'" "resolver_ok r" "\<forall>name m. map_of (modules r) name = Some m \<longrightarrow> contents_ok m"
  shows "\<forall>name m. map_of (modules r') name = Some m \<longrightarrow> contents_ok m"
proof -
  have load: "\<forall>name m. map_of (modules r') name = Some m \<longrightarrow> contents_ok m"
    if "LoadModuleUsingMemoryBuffer cm buffer r = Done (ok, r')" for cm buffer ok
    using load_memory_outcome [OF assms(2) that] assms(3) LoadMapFromMemory_contents [OF new_Module_ok new_contents, of buffer]
    by (auto split: if_splits)
  show ?thesis
    using assms(1)
  proof cases
    case (load_file cm symbol_data ok)
    then show ?thesis using load assms(3) by (auto simp: load_file_memory split: option.splits)
  next
    case (load_map cm map_buffer ok)
    then show ?thesis using load by (simp add: load_map_memory)
  next
    case (load_memory cm memory_buffer ok)
    then show ?thesis using load by blast
  next
    case (unload cm)
    then show ?thesis
      using assms(3) unload_outcome(2) [OF assms(2)] by (cases cm) (auto simp: UnloadModule_def split: if_splits)
  qed
qed

lemma resolver_reachable_contents:
  assumes "resolver_step\<^sup>*\<^sup>* new_Resolver r"
  shows "\<forall>name m. map_of (modules r) name = Some m \<longrightarrow> contents_ok m"
  using assms
proof (induction rule: rtranclp_induct)
  case base
  then show ?case by (simp add: new_Resolver_def)
next
  case (step r r')
  then show ?case using resolver_step_contents resolver_reachable_ok by blast
qed

text \<open>
  C22. A symbol file that is loaded, serialized (\<open>fresh\<close> is the new memory, of any contents) and given to
  the fast resolver as its memory: the module loads without a copy, and every lookup of an address, of
  Windows frame information and of CFI rules in it reads inside the memory, ends, and returns what the
  basic resolver returns on the module itself.  The size of the serialized module must fit 32 bits.
\<close>
theorem fast_resolver_agrees:
  assumes "LoadMapFromMemory (symbol_data @ [NUL]) new_Module = Done (True, m)"
    and "Module_SizeOf m < 2 ^ 32" and "\<And>n. length (fresh n) = n"
  shows "\<exists>mem fm. SerializeSymbolFileData fresh symbol_data = Done (Some mem)
    \<and> Fast_LoadMapFromMemory (Some mem) = Some (Some fm)
    \<and> (fm_is_corrupt fm \<longleftrightarrow> is_corrupt m)
    \<and> (\<forall>base frame. Fast_LookupAddress base mem fm frame = Some (LookupAddress base m frame)
        \<and> Fast_FindWindowsFrameInfo base mem fm frame = Some (FindWindowsFrameInfo base m frame)
        \<and> Fast_FindCFIFrameInfo base mem fm frame = Some (FindCFIFrameInfo base m frame))"
proof -
  have m: "module_ok m" using LoadMapFromMemory_ok [OF new_Module_ok, of "symbol_data @ [NUL]"] by (simp add: assms(1))
  have c: "contents_ok m" by (rule LoadMapFromMemory_contents [OF new_Module_ok new_contents assms(1)])
  from serialized_module [where fresh = fresh, OF m c assms(2,3)] show ?thesis
    by (simp add: SerializeSymbolFileData_def assms(1))
qed

theorem fast_resolver_agrees_witness:
  "\<exists>mem fm. SerializeSymbolFileData (\<lambda>n. replicate n NUL) sample_symbols = Done (Some mem)
    \<and> Fast_LoadMapFromMemory (Some mem) = Some (Some fm)
    \<and> Fast_LookupAddress 0x400000 mem fm (frame_at 0x401004)
      = Some \<lparr>instruction = 0x401004, function_name = ''main'', function_base = 0x401000,
          source_file_name = ''a.c'', source_line = 12, source_line_base = 0x401000\<rparr>"
proof -
  have "Module_SizeOf sample_module < 2 ^ 32" by code_simp
  moreover have "LookupAddress 0x400000 sample_module (frame_at 0x401004)
      = \<lparr>instruction = 0x401004, function_name = ''main'', function_base = 0x401000,
          source_file_name = ''a.c'', source_line = 12, source_line_base = 0x401000\<rparr>" by code_simp
  ultimately show ?thesis
    using fast_resolver_agrees [OF sample_loads, of "\<lambda>n. replicate n NUL"] by force
qed

text \<open>
  C21. A basic resolver, after any loads and unloads, is converted into an empty fast resolver: the
  conversion succeeds, the fast resolver has the same modules and calls the same ones corrupt, and it
  answers every frame, in whatever module, as the basic resolver does.  Each serialized module, with the
  NUL behind it, must fit 32 bits.
\<close>
theorem converted_resolver_agrees:
  assumes "resolver_step\<^sup>*\<^sup>* new_Resolver r"
    and "\<And>name m. map_of (modules r) name = Some m \<Longrightarrow> Module_SizeOf m + 1 < 2 ^ 32"
    and "\<And>n. length (fresh n) = n"
  shows "\<exists>f. ConvertAllModules fresh (Some r) (Some new_FastResolver) = Some (Some f)
    \<and> (\<forall>cm. FR_HasModule cm f = HasModule cm r
        \<and> FR_IsModuleCorrupt cm f = IsModuleCorrupt cm r)
    \<and> (\<forall>frame_module frame. FR_FillSourceLineInfo frame_module f frame = Some (FillSourceLineInfo frame_module r frame)
        \<and> FR_FindWindowsFrameInfo frame_module f frame = Some (SLR_FindWindowsFrameInfo frame_module r frame)
        \<and> FR_FindCFIFrameInfo frame_module f frame = Some (SLR_FindCFIFrameInfo frame_module r frame))"
proof -
  have ok: "resolver_ok r" by (rule resolver_reachable_ok [OF assms(1)])
  then have ms: "map_ok (modules r)" by (simp add: resolver_ok_def)
  have can: "\<forall>(name, m)\<in>set (modules r). can_serialize m"
    using ok assms(2) resolver_reachable_contents [OF assms(1)] map_ok_distinct [OF ms]
    by (fastforce simp: resolver_ok_def can_serialize_def dest: map_of_is_SomeI)
  have "mirrors new_FastResolver []" by (simp add: mirrors_def new_FastResolver_def)
  moreover have "\<forall>(name, m)\<in>set (modules r). NUL \<notin> set name \<and> can_serialize m"
    using can ok by (force simp: resolver_ok_def)
  ultimately obtain f where
    f: "convert_modules fresh (modules r) new_FastResolver = Some f" "mirrors f (modules r)"
    using convert_modules_mirrors [where fresh = fresh, of new_FastResolver "[]" "modules r"] assms(3) map_ok_distinct [OF ms]
    by auto
  have keys: "fst ` set (fast_modules f) = fst ` set (modules r)" "map_ok (fast_modules f)"
    using f(2) by (simp_all add: mirrors_def)
  have "FR_HasModule cm f = HasModule cm r
      \<and> FR_IsModuleCorrupt cm f = IsModuleCorrupt cm r" for cm
    using map_find_at [OF ms] map_find_at [OF keys(2)] keys(1) f(2) ok
    by (cases cm)
      (simp_all add: FR_HasModule_def HasModule_def FR_IsModuleCorrupt_def IsModuleCorrupt_def mirrors_def resolver_ok_def)
  moreover have "FR_FillSourceLineInfo frame_module f frame = Some (FillSourceLineInfo frame_module r frame)
      \<and> FR_FindWindowsFrameInfo frame_module f frame = Some (SLR_FindWindowsFrameInfo frame_module r frame)
      \<and> FR_FindCFIFrameInfo frame_module f frame = Some (SLR_FindCFIFrameInfo frame_module r frame)" for frame_module frame
    unfolding FR_FillSourceLineInfo_def FillSourceLineInfo_def FR_FindWindowsFrameInfo_def SLR_FindWindowsFrameInfo_def
      FR_FindCFIFrameInfo_def SLR_FindCFIFrameInfo_def
    by (intro conjI with_mirrored [OF f(2) ok can] Fast_LookupAddress_same Fast_FindWindowsFrameInfo_same
        Fast_FindCFIFrameInfo_same)
  moreover have "ConvertAllModules fresh (Some r) (Some new_FastResolver) = Some (Some f)"
    by (simp add: ConvertAllModules_def f(1))
  ultimately show ?thesis by blast
qed

theorem converted_resolver_agrees_witness:
  "\<exists>f. ConvertAllModules (\<lambda>n. replicate n NUL) (Some \<lparr>modules = [(''a'', sample_module)], corrupt_modules = {}\<rparr>)
      (Some new_FastResolver) = Some (Some f)
    \<and> FR_FindCFIFrameInfo (Some (''a'', 0x400000)) f (frame_at 0x401004) = Some (Some (SetCFARule ''$esp 8 +'' new_CFIFrameInfo))
    \<and> FR_FillSourceLineInfo (Some (''b'', 0x400000)) f (frame_at 0x401004) = Some (frame_at 0x401004)"
proof -
  let ?r = "\<lparr>modules = [(''a'', sample_module)], corrupt_modules = {}\<rparr>"
  have "Module_SizeOf sample_module + 1 < 2 ^ 32" by code_simp
  then have size: "Module_SizeOf m + 1 < 2 ^ 32" if "map_of (modules ?r) name = Some m" for name m
    using that by (simp split: if_splits)
  have "FindCFIFrameInfo 0x400000 sample_module (frame_at 0x401004) = Some (SetCFARule ''$esp 8 +'' new_CFIFrameInfo)"
    by code_simp
  then have "SLR_FindCFIFrameInfo (Some (''a'', 0x400000)) ?r (frame_at 0x401004) = Some (SetCFARule ''$esp 8 +'' new_CFIFrameInfo)"
    by (simp add: SLR_FindCFIFrameInfo_def with_module_def map_find_def lower_bound_def c_str_def)
  moreover have "FillSourceLineInfo (Some (''b'', 0x400000)) ?r (frame_at 0x401004) = frame_at 0x401004"
    by (simp add: FillSourceLineInfo_def with_module_def map_find_def lower_bound_def c_str_def)
  ultimately show ?thesis
    using converted_resolver_agrees [where fresh = "\<lambda>n. replicate n NUL", OF sample_reachable [of "''a''"]] size
    by (fastforce simp: c_str_plain)
qed

text \<open>
  C23. A map from addresses to strings that is serialized and read back: the static map passes its own
  check of the structure, holds as many nodes, and \<open>find\<close> finds a key exactly if the map has it, with
  the same string.
\<close>
theorem static_map_roundtrip:
  assumes "map_ok m" and "\<And>k s. (k, s) \<in> set m \<Longrightarrow> NUL \<notin> set s"
    and "length mem0 = StdMap_SizeOf (\<lambda>_. 8) String_SizeOf m" and "length mem0 < 2 ^ 32"
  shows "\<exists>mem M. StdMap_Write 8 write_u64 String_Write m 0 mem0 = Some (mem, length mem0)
    \<and> new_StaticMap mem 0 = Some M \<and> num_nodes M = int (length m)
    \<and> ValidateInMemoryStructure addr_key mem M = Some True
    \<and> (\<forall>k. \<exists>x e. SM_find addr_key mem M k = Some x \<and> SM_end mem M = Some e
        \<and> (case map_of m k of
             None \<Rightarrow> same_iterator x e
           | Some s \<Rightarrow> \<not> same_iterator x e \<and> (\<exists>p. GetValueRawPtr mem x = Some p \<and> read_string mem p = Some s)))"
proof -
  let ?mem = "map_chars 8 u64_chars string_chars m" and ?M = "the_map 0 (length m)"
  have texts: "\<forall>p\<in>set m. True \<and> no_nul (snd p)" using assms(2) by (auto simp: no_nul_def)
  have w: "StdMap_Write 8 write_u64 String_Write m 0 mem0 = Some (?mem, length mem0)"
    using serializer.write_fresh [OF deltas_ser texts assms(3)] assms(3) by simp
  have small: "length ?mem < 2 ^ 32" using serializer.size_chars [OF deltas_ser texts] assms(3,4) by simp
  have h: "holds_map addr_key string_chars ?mem 0 m" by (rule addr_map_holds [OF at_whole small])
  have v: "ValidateInMemoryStructure addr_key ?mem ?M = Some True"
    using addr_keys by (intro validates_serialized [OF at_whole small _ _ assms(1)]) (auto simp: string_chars_def addr_key_def)
  note bounds = bounds_hold [OF h assms(1)]
  have "case map_of m k of
      None \<Rightarrow> same_iterator x (iter 0 (length m) (length m))
    | Some s \<Rightarrow> \<not> same_iterator x (iter 0 (length m) (length m))
        \<and> (\<exists>p. GetValueRawPtr ?mem x = Some p \<and> read_string ?mem p = Some s)"
    if x: "SM_find addr_key ?mem ?M k = Some x" for k x
  proof (cases "below m k < length m \<and> fst (m ! below m k) = k")
    case True
    then have b: "below m k < length m" "(k, snd (m ! below m k)) \<in> set m"
      by (auto simp: in_set_conv_nth prod_eq_iff intro!: exI [of _ "below m k"])
    then have "map_of m k = Some (snd (m ! below m k))" using map_ok_distinct [OF assms(1)] by simp
    moreover have "no_nul (snd (m ! below m k))" using texts b(1) by simp
    ultimately show ?thesis
      using iter_reads(2) [OF h b(1)] read_string_at x True bounds(5) [of k] by fastforce
  next
    case False
    have "k \<notin> fst ` set m"
    proof
      assume "k \<in> fst ` set m"
      then obtain v where "(k, v) \<in> set m" by auto
      from lower_bound_at [OF assms(1) this] obtain rest where "drop (below m k) m = (k, v) # rest"
        by (auto simp: bound_drop)
      then show False using False by (metis Cons_nth_drop_Suc drop_eq_Nil fst_conv list.distinct(1) list.inject not_le)
    qed
    then have "map_of m k = None" by (simp add: map_of_eq_None_iff)
    then show ?thesis using x False bounds(5) [of k] by auto
  qed
  then show ?thesis
    using w v holds_mapD(1) [OF h] bounds
    by (intro exI [of _ ?mem] exI [of _ ?M]) (auto simp: the_map_def)
qed

theorem static_map_roundtrip_witness:
  "\<exists>mem M. StdMap_Write 8 write_u64 String_Write [(1, ''a''), (5, ''bc'')] 0 (replicate 33 NUL) = Some (mem, 33)
    \<and> new_StaticMap mem 0 = Some M \<and> ValidateInMemoryStructure addr_key mem M = Some True"
  using static_map_roundtrip [of "[(1 :: u64, ''a''), (5, ''bc'')]" "replicate 33 NUL"]
  by (force simp: map_ok_def StdMap_SizeOf_def String_SizeOf_def)

end
