(* ===== verification/Code_Modules.thy ===== *)
theory Code_Modules
  imports Source_Line_Resolver
begin

text \<open>
  \<open>src/app/breakpad/src/processor/basic_code_module.h\<close> and \<open>basic_code_modules.cc\<close>: the code modules of
  a process by address, and \<open>MinidumpMemoryRegion\<close> of \<open>minidump.cc\<close>, a piece of its memory.

  A pointer to a code module is the module; the modules of one map are apart, so that equal modules are
  the same object.
\<close>

section \<open>Code modules\<close>

record CodeModule =
  base_address :: u64
  module_size :: u64
  shrink_down_delta :: u64
  code_file :: string
  code_ident :: string
  debug_file :: string
  debug_identifier :: string
  version :: string
  is_unloaded :: bool

text \<open>
  The interface \<open>CodeModules\<close>, as the constructor of \<open>BasicCodeModules\<close> uses it: whether modules may be
  shrunk, the main module, and the modules by index
\<close>

record CodeModules =
  module_shrink_enabled :: bool
  main_module :: "CodeModule option"
  module_list :: "CodeModule list"

record BasicCodeModules =
  main_address :: u64
  bcm_map :: "(u64, CodeModule) RangeMap"
  shrunk_range_modules :: "CodeModule list"

definition new_BasicCodeModules :: BasicCodeModules where
  "new_BasicCodeModules = \<lparr>main_address = 0, bcm_map = new_RangeMap, shrunk_range_modules = []\<rparr>"

text \<open>A module that does not fit is left out; \<open>None\<close> is a store that does not return.\<close>

fun store_modules :: "CodeModule list \<Rightarrow> (u64, CodeModule) RangeMap \<Rightarrow> (u64, CodeModule) RangeMap option" where
  "store_modules [] s = Some s"
| "store_modules (m # ms) s =
     (case StoreRange (base_address m) (module_size m) m s of
        None \<Rightarrow> None
      | Some (_, s) \<Rightarrow> store_modules ms s)"

text \<open>The module at the end of each module, if its range was shrunk\<close>

definition shrunk_modules :: "(u64, CodeModule) RangeMap \<Rightarrow> CodeModule list \<Rightarrow> CodeModule list" where
  "shrunk_modules s ms = concat (map (\<lambda>m.
     case RetrieveRange (rm_map s) (base_address m + module_size m - 1) of
       None \<Rightarrow> []
     | Some (found, _, delta, _) \<Rightarrow> if delta > 0 then [found\<lparr>shrink_down_delta := delta\<rparr>] else []) ms)"

definition copy_BasicCodeModules :: "CodeModules \<Rightarrow> BasicCodeModules option" where
  "copy_BasicCodeModules that =
     (case store_modules (module_list that) (SetEnableShrinkDown (module_shrink_enabled that) new_RangeMap) of
        None \<Rightarrow> None
      | Some s \<Rightarrow>
          Some \<lparr>main_address = (case main_module that of None \<Rightarrow> 0 | Some m \<Rightarrow> base_address m), bcm_map = s,
            shrunk_range_modules = shrunk_modules s (module_list that)\<rparr>)"

definition module_count :: "BasicCodeModules \<Rightarrow> int" where
  "module_count ms = GetCount (rm_map (bcm_map ms))"

definition GetModuleForAddress :: "BasicCodeModules \<Rightarrow> u64 \<Rightarrow> CodeModule option" where
  "GetModuleForAddress ms address = map_option fst (RetrieveRange (rm_map (bcm_map ms)) address)"

definition GetMainModule :: "BasicCodeModules \<Rightarrow> CodeModule option" where
  "GetMainModule ms = GetModuleForAddress ms (main_address ms)"

definition GetModuleAtSequence :: "BasicCodeModules \<Rightarrow> int \<Rightarrow> CodeModule option" where
  "GetModuleAtSequence ms sequence = map_option fst (RetrieveRangeAtIndex (rm_map (bcm_map ms)) sequence)"

definition GetModuleAtIndex :: "BasicCodeModules \<Rightarrow> int \<Rightarrow> CodeModule option" where
  "GetModuleAtIndex ms index = GetModuleAtSequence ms index"

section \<open>Memory\<close>

text \<open>
  The bytes of the region are read from the minidump when they are first needed, which may fail
  (\<open>region_readable\<close>).  A number is stored with its least significant byte first, or the other way
  around if the minidump is of the other byte order.
\<close>

record MinidumpMemoryRegion =
  region_valid :: bool
  start_of_memory_range :: u64
  region_bytes :: "8 word list"
  region_readable :: bool
  region_swap :: bool

definition region_size :: "MinidumpMemoryRegion \<Rightarrow> 32 word" where
  "region_size r = of_nat (length (region_bytes r))"

primrec bytes_value :: "8 word list \<Rightarrow> nat" where
  "bytes_value [] = 0"
| "bytes_value (b # bs) = unat b + 256 * bytes_value bs"

text \<open>The number of \<open>k\<close> bytes at an address, and the one of eight\<close>

definition GetMemoryAtAddressInternal :: "nat \<Rightarrow> MinidumpMemoryRegion \<Rightarrow> u64 \<Rightarrow> nat option" where
  "GetMemoryAtAddressInternal k r address =
     (if \<not> region_valid r then None
      else if address < start_of_memory_range r \<or> of_nat k > - 1 - address
        \<or> address + of_nat k > start_of_memory_range r + ucast (region_size r) then None
      else if \<not> region_readable r then None
      else
        let bytes = take k (drop (unat (address - start_of_memory_range r)) (region_bytes r)) in
        Some (bytes_value (if region_swap r then rev bytes else bytes)))"

definition GetMemoryAtAddress :: "MinidumpMemoryRegion \<Rightarrow> u64 \<Rightarrow> u64 option" where
  "GetMemoryAtAddress r address = map_option of_nat (GetMemoryAtAddressInternal 8 r address)"

text \<open>A number that is read lies in front of the end of the address space.\<close>

lemma GetMemory_end:
  assumes "GetMemoryAtAddress r a = Some v"
  shows "unat a + 8 < 2 ^ 64"
proof -
  have "\<not> (8 :: u64) > - 1 - a"
    using assms by (auto simp: GetMemoryAtAddress_def GetMemoryAtAddressInternal_def split: if_splits)
  then have "8 \<le> unat (- 1 - a)" by (simp add: not_less word_le_nat_alt)
  moreover have "unat (- 1 - a) = 2 ^ 64 - 1 - unat a"
    using unat_sub [OF word_order.extremum, of a] by (simp add: unsigned_minus_1_eq_mask mask_eq_exp_minus_1)
  ultimately show ?thesis by linarith
qed

end
