(* ===== verification/Frame_Symbolizer.thy ===== *)
theory Frame_Symbolizer
  imports Code_Modules "HOL-Library.Monad_Syntax"
begin

text \<open>
  \<open>src/app/breakpad/src/processor/stack_frame_symbolizer.cc\<close>: the symbolizer finds the module of a
  frame, fetches its symbols from a supplier when they are first needed, and has the resolver fill the
  frame.

  The supplier (\<open>SymbolSupplier\<close>, an interface whose implementation reads files) is a parameter, with a
  state of its own.  \<open>None\<close> is a call that does not return, because loading the symbols reads behind its
  buffer (\<open>Overread\<close>).
\<close>

datatype SymbolResult = NOT_FOUND | FOUND string | INTERRUPT

datatype SymbolizerResult = kNoError | kError | kInterrupt | kWarningCorruptSymbols

record 's SymbolSupplier =
  GetCStringSymbolData :: "CodeModule \<Rightarrow> 's \<Rightarrow> SymbolResult \<times> 's"
  FreeSymbolData :: "CodeModule \<Rightarrow> 's \<Rightarrow> 's"

text \<open>A null pointer is \<open>None\<close>; the supplier is its state.\<close>

record 's StackFrameSymbolizer =
  sfs_supplier :: "'s option"
  sfs_resolver :: "Resolver option"
  no_symbol_modules :: "string set"

definition returned :: "'a run \<Rightarrow> 'a option" where
  "returned r = (case r of Done x \<Rightarrow> Some x | Overread \<Rightarrow> None | NoReturn \<Rightarrow> None)"

text \<open>The module that holds an address, else the unloaded module that did\<close>

definition module_of_frame :: "BasicCodeModules option \<Rightarrow> BasicCodeModules option \<Rightarrow> u64 \<Rightarrow> CodeModule option" where
  "module_of_frame ms unloaded address =
     (let found = Option.bind ms (\<lambda>ms. GetModuleForAddress ms address) in
      if found = None then Option.bind unloaded (\<lambda>ms. GetModuleForAddress ms address) else found)"

text \<open>The frame in its module, filled, and whether the symbols of the module are corrupt\<close>

definition fill_frame :: "CodeModule \<Rightarrow> Resolver \<Rightarrow> StackFrame \<Rightarrow> SymbolizerResult \<times> StackFrame" where
  "fill_frame m r frame =
     (if IsModuleCorrupt (Some (code_file m)) r then kWarningCorruptSymbols else kNoError,
      FillSourceLineInfo (Some (code_file m, base_address m)) r frame)"

text \<open>The result, the frame and its module, and the symbolizer\<close>

definition SFS_FillSourceLineInfo ::
  "'s SymbolSupplier \<Rightarrow> BasicCodeModules option \<Rightarrow> BasicCodeModules option \<Rightarrow> StackFrame \<times> CodeModule option
    \<Rightarrow> 's StackFrameSymbolizer
    \<Rightarrow> (SymbolizerResult \<times> (StackFrame \<times> CodeModule option) \<times> 's StackFrameSymbolizer) option"
where
  "SFS_FillSourceLineInfo supply ms unloaded fr st =
     (let (frame, frame_module) = fr in
      case module_of_frame ms unloaded (instruction frame) of
        None \<Rightarrow> Some (kError, (frame, frame_module), st)
      | Some m \<Rightarrow>
          (case sfs_resolver st of
             None \<Rightarrow> Some (kError, (frame, Some m), st)
           | Some r \<Rightarrow>
               if code_file m \<in> no_symbol_modules st then Some (kError, (frame, Some m), st)
               else if HasModule (Some (code_file m)) r then
                 let (result, frame) = fill_frame m r frame in Some (result, (frame, Some m), st)
               else
                 case sfs_supplier st of
                   None \<Rightarrow> Some (kError, (frame, Some m), st)
                 | Some s \<Rightarrow>
                     let (symbol_result, s) = GetCStringSymbolData supply m s in
                     case symbol_result of
                       FOUND symbol_data \<Rightarrow> do {
                         (load_success, r) \<leftarrow>
                           returned (LoadModuleUsingMemoryBuffer (Some (code_file m)) symbol_data r);
                         let st = st\<lparr>sfs_supplier := Some (FreeSymbolData supply m s), sfs_resolver := Some r\<rparr>;
                         if load_success then
                           let (result, frame) = fill_frame m r frame in Some (result, (frame, Some m), st)
                         else
                           Some (kError, (frame, Some m),
                             st\<lparr>no_symbol_modules := insert (code_file m) (no_symbol_modules st)\<rparr>)
                       }
                     | NOT_FOUND \<Rightarrow>
                         Some (kError, (frame, Some m),
                           st\<lparr>sfs_supplier := Some s,
                             no_symbol_modules := insert (code_file m) (no_symbol_modules st)\<rparr>)
                     | INTERRUPT \<Rightarrow> Some (kInterrupt, (frame, Some m), st\<lparr>sfs_supplier := Some s\<rparr>)))"

definition SFS_FindCFIFrameInfo ::
  "StackFrame \<times> CodeModule option \<Rightarrow> 's StackFrameSymbolizer \<Rightarrow> CFIFrameInfo option"
where
  "SFS_FindCFIFrameInfo fr st =
     Option.bind (sfs_resolver st) (\<lambda>r.
       SLR_FindCFIFrameInfo (map_option (\<lambda>m. (code_file m, base_address m)) (snd fr)) r (fst fr))"

definition SFS_FindWindowsFrameInfo ::
  "StackFrame \<times> CodeModule option \<Rightarrow> 's StackFrameSymbolizer \<Rightarrow> WindowsFrameInfo option"
where
  "SFS_FindWindowsFrameInfo fr st =
     Option.bind (sfs_resolver st) (\<lambda>r.
       SLR_FindWindowsFrameInfo (map_option (\<lambda>m. (code_file m, base_address m)) (snd fr)) r (fst fr))"

definition SFS_Reset :: "'s StackFrameSymbolizer \<Rightarrow> 's StackFrameSymbolizer" where
  "SFS_Reset st = st\<lparr>no_symbol_modules := {}\<rparr>"

definition HasImplementation :: "'s StackFrameSymbolizer \<Rightarrow> bool" where
  "HasImplementation st \<longleftrightarrow> sfs_resolver st \<noteq> None \<and> sfs_supplier st \<noteq> None"

end
