(* ===== verification/Stackwalker.thy ===== *)
theory Stackwalker
  imports Frame_Symbolizer
begin

text \<open>
  \<open>src/app/breakpad/src/processor/stackwalker.cc\<close>, \<open>stackwalker.h\<close> and \<open>call_stack.cc\<close>: the walk from the
  frame of a context to its callers, for any architecture.

  \<^item> The frames of an architecture extend \<open>WalkFrame\<close> (as its subclasses extend \<open>StackFrame\<close>, here without
    what the resolver fills, which is \<open>frame_info\<close>).  \<open>GetContextFrame\<close> and \<open>GetCallerFrame\<close>, the virtual
    functions, are parameters of \<open>Walk\<close>.
  \<^item> \<open>CallStack::Clear\<close> deletes the frames and leaves the pointers to them in the vector: a frame that is
    \<open>None\<close> has been deleted.
  \<^item> \<open>None\<close> as a result is a call that does not return, as in \<open>Frame_Symbolizer\<close>, or that traps in a
    program of the symbol file.
\<close>

section \<open>Frames and stacks\<close>

datatype FrameTrust = FRAME_TRUST_NONE | FRAME_TRUST_SCAN | FRAME_TRUST_CFI_SCAN | FRAME_TRUST_FP
  | FRAME_TRUST_CFI | FRAME_TRUST_PREWALKED | FRAME_TRUST_CONTEXT

record WalkFrame =
  frame_info :: StackFrame
  frame_module :: "CodeModule option"
  trust :: FrameTrust

definition new_StackFrame :: StackFrame where
  "new_StackFrame = \<lparr>instruction = 0, function_name = [], function_base = 0, source_file_name = [],
     source_line = 0, source_line_base = 0\<rparr>"

definition new_WalkFrame :: WalkFrame where
  "new_WalkFrame = \<lparr>frame_info = new_StackFrame, frame_module = None, trust = FRAME_TRUST_NONE\<rparr>"

record 'f CallStack =
  frames_of :: "'f option list"
  stack_tid :: "32 word"

definition Clear :: "'f CallStack \<Rightarrow> 'f CallStack" where
  "Clear stack = stack\<lparr>frames_of := map (\<lambda>_. None) (frames_of stack), stack_tid := 0\<rparr>"

definition new_CallStack :: "'f CallStack" where
  "new_CallStack = Clear \<lparr>frames_of = [], stack_tid = 0\<rparr>"

section \<open>Stackwalker\<close>

text \<open>
  What a stackwalker is constructed with, the static limits, and the parameters of the model: the
  operations of the supplier and the extraction of numbers from a stream.  The symbolizer is a state of
  its own.
\<close>

record 's Stackwalker =
  os_short :: string
  sw_memory :: "MinidumpMemoryRegion option"
  sw_modules :: "BasicCodeModules option"
  unloaded_modules :: "BasicCodeModules option"
  max_frames :: "32 word"
  max_frames_scanned :: "32 word"
  sw_supplier :: "'s SymbolSupplier"
  extract_number :: "64 extractor"

definition kRASearchWords :: nat where "kRASearchWords = 40"

definition InsertSpecialAttentionModule :: "CodeModule option \<Rightarrow> CodeModule list \<Rightarrow> CodeModule list" where
  "InsertSpecialAttentionModule m ms =
     (case m of None \<Rightarrow> ms | Some m \<Rightarrow> if m \<in> set ms then ms else ms @ [m])"

definition InstructionAddressSeemsValid ::
  "'s Stackwalker \<Rightarrow> u64 \<Rightarrow> 's StackFrameSymbolizer \<Rightarrow> (bool \<times> 's StackFrameSymbolizer) option"
where
  "InstructionAddressSeemsValid w address st = do {
     (result, (frame, m), st) \<leftarrow> SFS_FillSourceLineInfo (sw_supplier w) (sw_modules w) (unloaded_modules w)
       (new_StackFrame\<lparr>instruction := address\<rparr>, None) st;
     Some
       (if m = None then (False, st)
        else if \<not> HasImplementation st then (True, st)
        else if result \<noteq> kNoError \<and> result \<noteq> kWarningCorruptSymbols then (True, st)
        else (function_name frame \<noteq> [], st))
   }"

text \<open>Whether a number found on the stack is taken for a return address\<close>

definition seems_return_address ::
  "'s Stackwalker \<Rightarrow> u64 \<Rightarrow> 's StackFrameSymbolizer \<Rightarrow> (bool \<times> 's StackFrameSymbolizer) option"
where
  "seems_return_address w ip st =
     (if Option.bind (sw_modules w) (\<lambda>ms. GetModuleForAddress ms ip) \<noteq> None
      then InstructionAddressSeemsValid w ip st else Some (False, st))"

text \<open>The loop, up to the last location; what it finds is the location and the number there.\<close>

function scan_loop ::
  "'s Stackwalker \<Rightarrow> MinidumpMemoryRegion \<Rightarrow> u64 \<Rightarrow> u64 \<Rightarrow> 's StackFrameSymbolizer
    \<Rightarrow> ((u64 \<times> u64) option \<times> 's StackFrameSymbolizer) option"
where
  "scan_loop w mem location last_location st =
     (if location \<le> last_location then
        case GetMemoryAtAddress mem location of
          None \<Rightarrow> Some (None, st)
        | Some ip \<Rightarrow>
            (case seems_return_address w ip st of
               None \<Rightarrow> None
             | Some (valid, st) \<Rightarrow>
                 if valid then Some (Some (location, ip), st)
                 else scan_loop w mem (location + 8) last_location st)
      else Some (None, st))"
  by pat_completeness auto
termination
proof (relation "measure (\<lambda>(w, mem, location, last_location, st). 2 ^ 64 - unat location)", goal_cases)
  case (2 w mem location last_location st ip x valid st')
  then have "unat location + 8 < 2 ^ 64" by (intro GetMemory_end)
  then have "unat (location + 8) = unat location + 8" by (simp add: unat_word_ariths)
  then show ?case using \<open>unat location + 8 < 2 ^ 64\<close> by simp
qed simp

declare scan_loop.simps [simp del]

definition ScanForReturnAddress ::
  "'s Stackwalker \<Rightarrow> MinidumpMemoryRegion \<Rightarrow> u64 \<Rightarrow> bool \<Rightarrow> 's StackFrameSymbolizer
    \<Rightarrow> ((u64 \<times> u64) option \<times> 's StackFrameSymbolizer) option"
where
  "ScanForReturnAddress w mem location_start is_context_frame st =
     (let search_words = (if is_context_frame then kRASearchWords * 4 else kRASearchWords) in
      scan_loop w mem location_start (location_start + of_nat search_words * 8) st)"

text \<open>The result of \<open>Walk\<close>: its flag, the stack, and the modules without symbols and with corrupt ones\<close>

type_synonym 'f walked = "bool \<times> 'f CallStack \<times> CodeModule list \<times> CodeModule list"

text \<open>The loop of \<open>Walk\<close>, from a frame on; \<open>caller\<close> is \<open>GetCallerFrame\<close>.\<close>

function walk_loop ::
  "'s Stackwalker
    \<Rightarrow> ('z WalkFrame_scheme CallStack \<Rightarrow> bool \<Rightarrow> 's StackFrameSymbolizer \<Rightarrow> ('z WalkFrame_scheme option \<times> 's StackFrameSymbolizer) option)
    \<Rightarrow> 'z WalkFrame_scheme option \<Rightarrow> 32 word \<Rightarrow> 'z WalkFrame_scheme CallStack \<Rightarrow> CodeModule list \<Rightarrow> CodeModule list
    \<Rightarrow> 's StackFrameSymbolizer \<Rightarrow> ('z WalkFrame_scheme walked \<times> 's StackFrameSymbolizer) option"
where
  "walk_loop w caller None scanned_frames stack without corrupt st = Some ((True, stack, without, corrupt), st)"
| "walk_loop w caller (Some frame) scanned_frames stack without corrupt st =
     (case SFS_FillSourceLineInfo (sw_supplier w) (sw_modules w) (unloaded_modules w)
             (frame_info frame, frame_module frame) st of
        None \<Rightarrow> None
      | Some (result, (info, m), st) \<Rightarrow>
          let frame = frame\<lparr>frame_info := info, frame_module := m\<rparr> in
          if result = kInterrupt then Some ((False, stack, without, corrupt), st)
          else
            let without = (if result = kError then InsertSpecialAttentionModule m without else without);
                corrupt = (if result = kWarningCorruptSymbols then InsertSpecialAttentionModule m corrupt
                  else corrupt);
                scanned_frames = (if trust frame \<in> {FRAME_TRUST_NONE, FRAME_TRUST_SCAN, FRAME_TRUST_CFI_SCAN}
                  then scanned_frames + 1 else scanned_frames);
                stack = stack\<lparr>frames_of := frames_of stack @ [Some frame]\<rparr> in
            if length (frames_of stack) > unat (max_frames w) then Some ((True, stack, without, corrupt), st)
            else
              case caller stack (scanned_frames < max_frames_scanned w) st of
                None \<Rightarrow> None
              | Some (frame, st) \<Rightarrow> walk_loop w caller frame scanned_frames stack without corrupt st)"
  by pat_completeness auto
termination
  by (relation "measure (\<lambda>(w, caller, frame, scanned, stack, _). Suc (unat (max_frames w)) - length (frames_of stack))")
    auto

declare walk_loop.simps [simp del]

definition Walk ::
  "'s Stackwalker \<Rightarrow> 'z WalkFrame_scheme option
    \<Rightarrow> ('z WalkFrame_scheme CallStack \<Rightarrow> bool \<Rightarrow> 's StackFrameSymbolizer \<Rightarrow> ('z WalkFrame_scheme option \<times> 's StackFrameSymbolizer) option)
    \<Rightarrow> 'z WalkFrame_scheme CallStack \<Rightarrow> CodeModule list \<Rightarrow> CodeModule list
    \<Rightarrow> 's StackFrameSymbolizer \<Rightarrow> ('z WalkFrame_scheme walked \<times> 's StackFrameSymbolizer) option"
where
  "Walk w context_frame caller stack without corrupt st =
     walk_loop w caller context_frame 0 (Clear stack) without corrupt st"

end
