(* ===== verification/Stackwalker_AMD64.thy ===== *)
theory Stackwalker_AMD64
  imports Stackwalker
begin

text \<open>
  \<open>src/app/breakpad/src/processor/stackwalker_amd64.cc\<close> and \<open>StackFrameAMD64\<close> of \<open>stack_frame_cpu.h\<close>: how
  the caller of a frame is found on x86-64, by the CFI rules of its module, by its frame pointer, or by
  a scan of the stack.
\<close>

section \<open>Registers\<close>

datatype amd64 = RAX | RDX | RCX | RBX | RSI | RDI | RBP | RSP | R8 | R9 | R10 | R11 | R12 | R13 | R14 | R15 | RIP

definition valid_bit :: "amd64 \<Rightarrow> 32 word" where
  "valid_bit r = (case r of
     RAX \<Rightarrow> 0x1 | RDX \<Rightarrow> 0x2 | RCX \<Rightarrow> 0x4 | RBX \<Rightarrow> 0x8 | RSI \<Rightarrow> 0x10 | RDI \<Rightarrow> 0x20 | RBP \<Rightarrow> 0x40 | RSP \<Rightarrow> 0x80
   | R8 \<Rightarrow> 0x100 | R9 \<Rightarrow> 0x200 | R10 \<Rightarrow> 0x400 | R11 \<Rightarrow> 0x800 | R12 \<Rightarrow> 0x1000 | R13 \<Rightarrow> 0x2000 | R14 \<Rightarrow> 0x4000
   | R15 \<Rightarrow> 0x8000 | RIP \<Rightarrow> 0x10000)"

definition CONTEXT_VALID_ALL :: "32 word" where "CONTEXT_VALID_ALL = - 1"

definition amd64_entry :: "string \<Rightarrow> string option \<Rightarrow> bool \<Rightarrow> amd64 \<Rightarrow> amd64 RegisterSet" where
  "amd64_entry name alternate saved r =
     \<lparr>reg_name = name, alternate_name = alternate, callee_saves = saved, validity_flag = valid_bit r,
      context_member = r\<rparr>"

definition cfi_register_map :: "amd64 RegisterSet list" where
  "cfi_register_map =
     [amd64_entry ''$rax'' None False RAX, amd64_entry ''$rdx'' None False RDX, amd64_entry ''$rcx'' None False RCX,
      amd64_entry ''$rbx'' None True RBX, amd64_entry ''$rsi'' None False RSI, amd64_entry ''$rdi'' None False RDI,
      amd64_entry ''$rbp'' None True RBP, amd64_entry ''$rsp'' (Some ''.cfa'') False RSP,
      amd64_entry ''$r8'' None False R8, amd64_entry ''$r9'' None False R9, amd64_entry ''$r10'' None False R10,
      amd64_entry ''$r11'' None False R11, amd64_entry ''$r12'' None True R12, amd64_entry ''$r13'' None True R13,
      amd64_entry ''$r14'' None True R14, amd64_entry ''$r15'' None True R15,
      amd64_entry ''$rip'' (Some ''.ra'') False RIP]"

record amd64_frame = WalkFrame +
  context_of :: "amd64 \<Rightarrow> u64"
  context_validity :: "32 word"

definition new_CpuFrame :: amd64_frame where
  "new_CpuFrame = \<lparr>frame_info = new_StackFrame, frame_module = None, trust = FRAME_TRUST_NONE,
     context_of = (\<lambda>_. 0), context_validity = 0\<rparr>"

section \<open>Frames\<close>

text \<open>A context that is null is \<open>None\<close>.\<close>

definition AMD64_GetContextFrame :: "(amd64 \<Rightarrow> u64) option \<Rightarrow> amd64_frame option" where
  "AMD64_GetContextFrame context =
     map_option (\<lambda>c. new_CpuFrame\<lparr>context_of := c, context_validity := CONTEXT_VALID_ALL,
         trust := FRAME_TRUST_CONTEXT, frame_info := new_StackFrame\<lparr>instruction := c RIP\<rparr>\<rparr>) context"

definition GetCallerByCFIFrameInfo ::
  "'s Stackwalker \<Rightarrow> MinidumpMemoryRegion \<Rightarrow> amd64_frame \<Rightarrow> CFIFrameInfo \<Rightarrow> amd64_frame option evaluated"
where
  "GetCallerByCFIFrameInfo w mem last_frame cfi_frame_info =
     (case FindCallerRegisters (extract_number w) cfi_register_map (GetMemoryAtAddress mem) cfi_frame_info
             (context_of last_frame) (context_validity last_frame) of
        Trap \<Rightarrow> Trap
      | Returns ok None \<Rightarrow> Returns ok None
      | Returns ok (Some (context, validity)) \<Rightarrow>
          let essentials = valid_bit RIP OR valid_bit RSP in
          if validity AND essentials \<noteq> essentials then Returns ok None
          else Returns ok (Some (new_CpuFrame\<lparr>context_of := context, context_validity := validity,
            trust := FRAME_TRUST_CFI\<rparr>)))"

definition IsEndOfStack :: "u64 \<Rightarrow> u64 \<Rightarrow> u64 \<Rightarrow> bool" where
  "IsEndOfStack caller_rip caller_rsp callee_rsp \<longleftrightarrow> caller_rip = 0 \<or> caller_rsp < callee_rsp"

definition is_non_canonical :: "u64 \<Rightarrow> bool" where
  "is_non_canonical ptr \<longleftrightarrow> ptr > 0x7FFFFFFFFFFF \<and> ptr < 0xFFFF800000000000"

definition GetCallerByFramePointerRecovery :: "MinidumpMemoryRegion \<Rightarrow> amd64_frame \<Rightarrow> amd64_frame option" where
  "GetCallerByFramePointerRecovery mem last_frame =
     (let last_rsp = context_of last_frame RSP; last_rbp = context_of last_frame RBP in
      if last_rbp mod 8 \<noteq> 0 then None
      else
        case (GetMemoryAtAddress mem (last_rbp + 8), GetMemoryAtAddress mem last_rbp) of
          (Some caller_rip, Some caller_rbp) \<Rightarrow>
            let caller_rsp = last_rbp + 16 in
            if is_non_canonical caller_rip then None
            else if IsEndOfStack caller_rip caller_rsp last_rsp \<or> caller_rbp < last_rbp then None
            else if GetMemoryAtAddress mem caller_rbp = None then None
            else Some (new_CpuFrame\<lparr>trust := FRAME_TRUST_FP,
              context_of := (context_of last_frame)(RIP := caller_rip, RSP := caller_rsp, RBP := caller_rbp),
              context_validity := valid_bit RIP OR valid_bit RSP OR valid_bit RBP\<rparr>)
        | _ \<Rightarrow> None)"

text \<open>The frame pointer that a scanned frame gets, if any\<close>

definition scanned_rbp :: "MinidumpMemoryRegion \<Rightarrow> amd64_frame \<Rightarrow> u64 \<Rightarrow> u64 option" where
  "scanned_rbp mem last_frame caller_rip_address =
     (let last_rbp = context_of last_frame RBP in
      if context_validity last_frame AND valid_bit RBP \<noteq> 0 then
        if caller_rip_address - 8 = last_rbp then
          case GetMemoryAtAddress mem last_rbp of
            Some caller_rbp \<Rightarrow> if caller_rbp > caller_rip_address then Some caller_rbp else None
          | None \<Rightarrow> None
        else if last_rbp \<ge> caller_rip_address + 8 then Some last_rbp else None
      else None)"

definition GetCallerByStackScan ::
  "'s Stackwalker \<Rightarrow> MinidumpMemoryRegion \<Rightarrow> amd64_frame \<Rightarrow> bool \<Rightarrow> 's StackFrameSymbolizer
    \<Rightarrow> (amd64_frame option \<times> 's StackFrameSymbolizer) option"
where
  "GetCallerByStackScan w mem last_frame is_context_frame st = do {
     (found, st) \<leftarrow> ScanForReturnAddress w mem (context_of last_frame RSP) is_context_frame st;
     case found of
       None \<Rightarrow> Some (None, st)
     | Some (caller_rip_address, caller_rip) \<Rightarrow>
         let context = (context_of last_frame)(RIP := caller_rip, RSP := caller_rip_address + 8);
             frame = new_CpuFrame\<lparr>trust := FRAME_TRUST_SCAN, context_of := context,
               context_validity := valid_bit RIP OR valid_bit RSP\<rparr> in
         Some (Some (case scanned_rbp mem last_frame caller_rip_address of
             None \<Rightarrow> frame
           | Some rbp \<Rightarrow> frame\<lparr>context_of := context(RBP := rbp),
               context_validity := context_validity frame OR valid_bit RBP\<rparr>), st)
   }"

text \<open>By CFI, else by the frame pointer, else by a scan\<close>

definition find_caller ::
  "'s Stackwalker \<Rightarrow> MinidumpMemoryRegion \<Rightarrow> amd64_frame \<Rightarrow> bool \<Rightarrow> bool \<Rightarrow> 's StackFrameSymbolizer
    \<Rightarrow> (amd64_frame option \<times> 's StackFrameSymbolizer) option"
where
  "find_caller w mem last_frame is_context_frame stack_scan_allowed st = do {
     new_frame \<leftarrow>
       (case SFS_FindCFIFrameInfo (frame_info last_frame, frame_module last_frame) st of
          None \<Rightarrow> Some None
        | Some cfi_frame_info \<Rightarrow>
            (case GetCallerByCFIFrameInfo w mem last_frame cfi_frame_info of
               Trap \<Rightarrow> None
             | Returns _ frame \<Rightarrow> Some frame));
     let new_frame = (if new_frame = None then GetCallerByFramePointerRecovery mem last_frame else new_frame);
     if stack_scan_allowed \<and> new_frame = None then GetCallerByStackScan w mem last_frame is_context_frame st
     else Some (new_frame, st)
   }"

definition nacl_mask :: "amd64_frame \<Rightarrow> amd64_frame" where
  "nacl_mask frame =
     (let low = (\<lambda>x :: u64. ucast (ucast x :: 32 word)) in
      frame\<lparr>context_of := (context_of frame)(RIP := low (context_of frame RIP), RSP := low (context_of frame RSP),
        RBP := low (context_of frame RBP))\<rparr>)"

text \<open>The last frame is read; it has not been deleted when \<open>Walk\<close> calls this.\<close>

definition AMD64_GetCallerFrame ::
  "'s Stackwalker \<Rightarrow> amd64_frame CallStack \<Rightarrow> bool \<Rightarrow> 's StackFrameSymbolizer
    \<Rightarrow> (amd64_frame option \<times> 's StackFrameSymbolizer) option"
where
  "AMD64_GetCallerFrame w stack stack_scan_allowed st =
     (case sw_memory w of
        None \<Rightarrow> Some (None, st)
      | Some mem \<Rightarrow>
          if frames_of stack = [] then None
          else
            case last (frames_of stack) of
              None \<Rightarrow> None
            | Some last_frame \<Rightarrow> do {
                (new_frame, st) \<leftarrow>
                  find_caller w mem last_frame (length (frames_of stack) = 1) stack_scan_allowed st;
                Some
                  (case new_frame of
                     None \<Rightarrow> (None, st)
                   | Some frame \<Rightarrow>
                       let frame = (if os_short w = ''nacl'' then nacl_mask frame else frame) in
                       if IsEndOfStack (context_of frame RIP) (context_of frame RSP) (context_of last_frame RSP)
                       then (None, st)
                       else (Some (frame\<lparr>frame_info :=
                         (frame_info frame)\<lparr>instruction := context_of frame RIP - 1\<rparr>\<rparr>), st))
              })"

text \<open>\<open>Walk\<close> of a \<open>StackwalkerAMD64\<close>\<close>

definition AMD64_Walk ::
  "'s Stackwalker \<Rightarrow> (amd64 \<Rightarrow> u64) option \<Rightarrow> amd64_frame CallStack \<Rightarrow> CodeModule list \<Rightarrow> CodeModule list
    \<Rightarrow> 's StackFrameSymbolizer \<Rightarrow> (amd64_frame walked \<times> 's StackFrameSymbolizer) option"
where
  "AMD64_Walk w context = Walk w (AMD64_GetContextFrame context) (AMD64_GetCallerFrame w)"

end
