(* ===== verification/Symbolizer_States.thy ===== *)
theory Symbolizer_States
  imports Frame_Symbolizer Resolver_Contracts
begin

text \<open>
  The symbolizer over its uses: what filling a frame does to the state of a module in it (symbols loaded,
  known to have none, or neither), to the frame, and to a supplier that records what it is asked.
\<close>

section \<open>The symbolizer keeps the place of a frame\<close>

lemma FillSourceLineInfo_instruction [simp]:
  "instruction (FillSourceLineInfo fm r frame) = instruction frame"
  by (auto simp: FillSourceLineInfo_def with_module_def LookupAddress_def Let_def split: option.split list.split)

lemma SFS_FillSourceLineInfo_place:
  assumes "SFS_FillSourceLineInfo supply ms unloaded (frame, m) st = Some (result, (frame', m'), st')"
  shows "instruction frame' = instruction frame
    \<and> (m' = module_of_frame ms unloaded (instruction frame)
      \<or> module_of_frame ms unloaded (instruction frame) = None \<and> m' = m)"
  using assms
  by (auto simp: SFS_FillSourceLineInfo_def fill_frame_def Let_def bind_eq_Some_conv
      split: option.splits if_splits prod.splits SymbolResult.splits)

lemma fill_without_resolver:
  assumes "sfs_resolver st = None"
  shows "\<exists>m. SFS_FillSourceLineInfo supply ms unloaded (frame, m0) st = Some (kError, (frame, m), st)"
  using assms by (auto simp: SFS_FillSourceLineInfo_def Let_def split: option.split)

section \<open>The state of a module\<close>

text \<open>
  The resolver has symbols under the name, and the symbolizer does not hold the name for one without:
  \<open>no_symbol_modules_\<close> compares whole names, so it can hold a name whose C string is in the resolver.
\<close>

definition loaded :: "'s StackFrameSymbolizer \<Rightarrow> string \<Rightarrow> bool" where
  "loaded st name \<longleftrightarrow> name \<notin> no_symbol_modules st \<and> (\<exists>r. sfs_resolver st = Some r \<and> HasModule (Some name) r)"

definition corrupt_in :: "'s StackFrameSymbolizer \<Rightarrow> string \<Rightarrow> bool" where
  "corrupt_in st name \<longleftrightarrow> name \<notin> no_symbol_modules st
     \<and> (\<exists>r. sfs_resolver st = Some r \<and> IsModuleCorrupt (Some name) r)"

text \<open>The symbolizer has all it will ever have of the module.\<close>

definition settled :: "'s StackFrameSymbolizer \<Rightarrow> string \<Rightarrow> bool" where
  "settled st name \<longleftrightarrow> loaded st name \<or> name \<in> no_symbol_modules st \<or> \<not> HasImplementation st"

definition sfs_ok :: "'s StackFrameSymbolizer \<Rightarrow> bool" where
  "sfs_ok st \<longleftrightarrow> (\<forall>r. sfs_resolver st = Some r \<longrightarrow> resolver_ok r)"

definition keeps :: "'s StackFrameSymbolizer \<Rightarrow> 's StackFrameSymbolizer \<Rightarrow> bool" where
  "keeps st st' \<longleftrightarrow> (sfs_ok st \<longrightarrow> sfs_ok st' \<and> (\<forall>name. settled st name \<longrightarrow>
     settled st' name \<and> loaded st' name = loaded st name \<and> corrupt_in st' name = corrupt_in st name))"

lemma keeps_refl [simp]: "keeps st st"
  by (simp add: keeps_def)

lemma keeps_trans: "keeps st st' \<Longrightarrow> keeps st' st'' \<Longrightarrow> keeps st st''"
  by (auto simp: keeps_def)

lemma HasModule_map_of: "resolver_ok r \<Longrightarrow> HasModule (Some name) r \<longleftrightarrow> c_str name \<in> dom (map_of (modules r))"
  using map_find_at [of "modules r" "c_str name"] by (simp add: HasModule_def resolver_ok_def dom_map_of_conv_image_fst)

lemma IsModuleCorrupt_map_of:
  "resolver_ok r \<Longrightarrow> IsModuleCorrupt (Some name) r \<longleftrightarrow> (\<exists>m. map_of (modules r) (c_str name) = Some m \<and> is_corrupt m)"
  using map_ok_distinct [of "modules r"] by (auto simp: IsModuleCorrupt_def resolver_ok_def)

lemma HasModule_c_str: "c_str a = c_str b \<Longrightarrow> HasModule (Some a) r = HasModule (Some b) r"
  by (simp add: HasModule_def)

section \<open>What filling a frame does\<close>

lemma fill_cases:
  assumes "SFS_FillSourceLineInfo supply ms unloaded (frame, m0) st = Some (result, (frame', m), st')" "sfs_ok st"
  obtains (no_module) "module_of_frame ms unloaded (instruction frame) = None" "result = kError" "st' = st"
  | (known) md where "m = Some md" "settled st (code_file md)" "st' = st"
      "result = kError \<longleftrightarrow> \<not> loaded st (code_file md)" "result = kWarningCorruptSymbols \<longleftrightarrow> corrupt_in st (code_file md)" "result \<noteq> kInterrupt"
  | (asked) md s s1 where "m = Some md" "\<not> settled st (code_file md)" "sfs_supplier st = Some s"
      "GetCStringSymbolData supply md s = (NOT_FOUND, s1)" "result = kError"
      "st' = st\<lparr>sfs_supplier := Some s1, no_symbol_modules := insert (code_file md) (no_symbol_modules st)\<rparr>"
  | (interrupted) md s s1 where "m = Some md" "\<not> settled st (code_file md)" "sfs_supplier st = Some s"
      "GetCStringSymbolData supply md s = (INTERRUPT, s1)" "result = kInterrupt" "st' = st\<lparr>sfs_supplier := Some s1\<rparr>"
  | (answered) md s symbols s1 r r' where "m = Some md" "\<not> settled st (code_file md)" "sfs_supplier st = Some s"
      "GetCStringSymbolData supply md s = (FOUND symbols, s1)" "sfs_resolver st = Some r"
      "LoadModuleUsingMemoryBuffer (Some (code_file md)) symbols r = Done (True, r')"
      "result = (if IsModuleCorrupt (Some (code_file md)) r' then kWarningCorruptSymbols else kNoError)"
      "st' = st\<lparr>sfs_supplier := Some (FreeSymbolData supply md s1), sfs_resolver := Some r'\<rparr>"
proof (cases "module_of_frame ms unloaded (instruction frame)")
  case None
  then show thesis using assms(1) by (intro no_module) (auto simp: SFS_FillSourceLineInfo_def)
next
  case (Some md)
  note fill = assms(1) [unfolded SFS_FillSourceLineInfo_def prod.case Let_def Some option.case]
  show thesis
  proof (cases "sfs_resolver st")
    case None
    then show thesis
      using fill by (intro known [of md]) (auto simp: settled_def HasImplementation_def loaded_def corrupt_in_def)
  next
    case r: (Some r)
    have ok: "resolver_ok r" using assms(2) r by (simp add: sfs_ok_def)
    have corrupt: "IsModuleCorrupt (Some n) r \<Longrightarrow> HasModule (Some n) r" for n
      by (auto simp: IsModuleCorrupt_map_of [OF ok] HasModule_map_of [OF ok])
    consider (no_symbols) "code_file md \<in> no_symbol_modules st"
      | (has) "code_file md \<notin> no_symbol_modules st" "HasModule (Some (code_file md)) r"
      | (new) "code_file md \<notin> no_symbol_modules st" "\<not> HasModule (Some (code_file md)) r" by blast
    then show thesis
    proof cases
      case no_symbols
      then have "\<not> loaded st (code_file md)" by (simp add: loaded_def)
      then show thesis
        using no_symbols fill r corrupt by (intro known [of md]) (auto simp: settled_def loaded_def corrupt_in_def)
    next
      case has
      then show thesis
        using fill r by (intro known [of md]) (auto simp: settled_def loaded_def corrupt_in_def fill_frame_def split: if_splits)
    next
      case new
      show thesis
      proof (cases "sfs_supplier st")
        case None
        then show thesis
          using new fill r corrupt
          by (intro known [of md]) (auto simp: settled_def HasImplementation_def loaded_def corrupt_in_def)
      next
        case s: (Some s)
        have fresh: "\<not> settled st (code_file md)"
          using new r s by (simp add: settled_def HasImplementation_def loaded_def)
        obtain symbol_result s1 where get: "GetCStringSymbolData supply md s = (symbol_result, s1)" by fastforce
        show thesis
        proof (cases symbol_result)
          case NOT_FOUND
          then show thesis using fill new r s get by (intro asked [of md s s1] fresh) auto
        next
          case INTERRUPT
          then show thesis using fill new r s get by (intro interrupted [of md s s1] fresh) auto
        next
          case (FOUND symbols)
          then obtain ok' r' where load: "LoadModuleUsingMemoryBuffer (Some (code_file md)) symbols r = Done (ok', r')"
            using fill new r s get by (auto simp: returned_def split: run.splits)
          have "ok'" using load_memory_outcome [OF ok load] new(2) by auto
          then show thesis
            using fill new r s get FOUND load
            by (intro answered [of md s symbols s1 r r'] fresh) (auto simp: returned_def fill_frame_def)
        qed
      qed
    qed
  qed
qed

lemma load_changes:
  assumes "resolver_ok r" "LoadModuleUsingMemoryBuffer (Some name) symbols r = Done (True, r')"
  shows "resolver_ok r'" "HasModule (Some n) r' \<longleftrightarrow> c_str n = c_str name \<or> HasModule (Some n) r"
    and "c_str n \<noteq> c_str name \<Longrightarrow> IsModuleCorrupt (Some n) r' = IsModuleCorrupt (Some n) r"
proof -
  obtain m where ok: "resolver_ok r'" and m: "map_of (modules r') = (map_of (modules r))(c_str name \<mapsto> m)"
    using load_memory_outcome [OF assms] by auto
  show "resolver_ok r'" by (rule ok)
  show "HasModule (Some n) r' \<longleftrightarrow> c_str n = c_str name \<or> HasModule (Some n) r"
    by (auto simp: HasModule_map_of [OF ok] HasModule_map_of [OF assms(1)] m)
  show "IsModuleCorrupt (Some n) r' = IsModuleCorrupt (Some n) r" if "c_str n \<noteq> c_str name"
    using that by (simp add: IsModuleCorrupt_map_of [OF ok] IsModuleCorrupt_map_of [OF assms(1)] m)
qed

lemma fill_keeps:
  assumes "SFS_FillSourceLineInfo supply ms unloaded (frame, m0) st = Some (result, (frame', m), st')"
  shows "keeps st st'"
proof (cases "sfs_ok st")
  case True
  from assms True show ?thesis
  proof (cases rule: fill_cases)
    case (answered md s symbols s1 r r')
    have "resolver_ok r" using True answered(5) by (simp add: sfs_ok_def)
    note changes = load_changes [OF this answered(6)]
    have "settled st' n \<and> loaded st' n = loaded st n \<and> corrupt_in st' n = corrupt_in st n" if "settled st n" for n
    proof (cases "n \<in> no_symbol_modules st")
      case False
      then have "HasModule (Some n) r" "\<not> HasModule (Some (code_file md)) r"
        using answered(2,3,5) that by (auto simp: settled_def HasImplementation_def loaded_def)
      then have "c_str n \<noteq> c_str (code_file md)" using HasModule_c_str [of n "code_file md" r] by blast
      then show ?thesis
        using answered(3,5,8) that changes(2) [of n] changes(3) [of n]
        by (auto simp: settled_def HasImplementation_def loaded_def corrupt_in_def)
    qed (simp add: settled_def loaded_def corrupt_in_def answered(8))
    moreover have "sfs_ok st'"
      using changes(1) by (simp add: sfs_ok_def answered(8))
    ultimately show ?thesis by (simp add: keeps_def)
  qed (use True in \<open>auto simp: keeps_def sfs_ok_def settled_def HasImplementation_def loaded_def corrupt_in_def\<close>)
qed (simp add: keeps_def)

lemma fill_reports:
  assumes "SFS_FillSourceLineInfo supply ms unloaded (frame, m0) st = Some (result, (frame', m), st')"
    and "sfs_ok st" "result \<noteq> kInterrupt"
  shows "case module_of_frame ms unloaded (instruction frame) of
      None \<Rightarrow> result = kError \<and> m = m0
    | Some md \<Rightarrow> m = Some md \<and> settled st' (code_file md)
        \<and> (result = kError \<longleftrightarrow> \<not> loaded st' (code_file md))
        \<and> (result = kWarningCorruptSymbols \<longleftrightarrow> corrupt_in st' (code_file md))"
proof (cases "module_of_frame ms unloaded (instruction frame)")
  case None
  then show ?thesis using assms(1) by (auto simp: SFS_FillSourceLineInfo_def)
next
  case (Some md)
  then have m: "m = Some md" using SFS_FillSourceLineInfo_place [OF assms(1)] by simp
  from assms(1,2) have "settled st' (code_file md)
        \<and> (result = kError \<longleftrightarrow> \<not> loaded st' (code_file md))
        \<and> (result = kWarningCorruptSymbols \<longleftrightarrow> corrupt_in st' (code_file md))"
  proof (cases rule: fill_cases)
    case (answered md' s symbols s1 r r')
    have "resolver_ok r" using assms(2) answered(5) by (simp add: sfs_ok_def)
    from load_changes(2) [OF this answered(6), of "code_file md"] show ?thesis
      using answered m by (auto simp: settled_def loaded_def corrupt_in_def)
  next
    case (asked md' s s1)
    have "\<not> IsModuleCorrupt (Some (code_file md)) r" if "sfs_resolver st = Some r" for r
      using that asked(1,2) m assms(2) IsModuleCorrupt_map_of [of r "code_file md"] HasModule_map_of [of r "code_file md"]
      by (auto simp: sfs_ok_def settled_def loaded_def)
    then show ?thesis
      using asked m assms(2) by (auto simp: settled_def loaded_def corrupt_in_def sfs_ok_def)
  qed (use m Some assms(3) in auto)
  then show ?thesis using m Some by simp
qed

section \<open>Sequences of uses\<close>

text \<open>Frames are filled, with the modules of one process.\<close>

inductive fills :: "'s SymbolSupplier \<Rightarrow> BasicCodeModules option \<Rightarrow> BasicCodeModules option
    \<Rightarrow> 's StackFrameSymbolizer \<Rightarrow> 's StackFrameSymbolizer \<Rightarrow> bool"
  for sup ms unloaded where
  fill: "SFS_FillSourceLineInfo sup ms unloaded fr st = Some (result, fr', st') \<Longrightarrow> fills sup ms unloaded st st'"

lemma fills_keeps:
  assumes "(fills supply ms unloaded)\<^sup>*\<^sup>* st st'"
  shows "keeps st st'"
  using assms
proof (induction rule: rtranclp_induct)
  case (step st1 st2)
  from step.hyps(2) have "keeps st1 st2"
  proof cases
    case (fill fr result fr')
    then show ?thesis by (cases fr; cases fr') (auto intro: fill_keeps)
  qed
  with step.IH show ?case by (rule keeps_trans)
qed simp

lemma fills_present:
  assumes "(fills supply ms unloaded)\<^sup>*\<^sup>* st st'"
  shows "(sfs_resolver st' = None) = (sfs_resolver st = None)" "(sfs_supplier st' = None) = (sfs_supplier st = None)"
proof -
  have "(sfs_resolver st' = None) = (sfs_resolver st = None) \<and> (sfs_supplier st' = None) = (sfs_supplier st = None)"
    using assms
  proof (induction rule: rtranclp_induct)
    case (step st1 st2)
    from step.hyps(2) have "(sfs_resolver st2 = None) = (sfs_resolver st1 = None)
        \<and> (sfs_supplier st2 = None) = (sfs_supplier st1 = None)"
      by cases (auto simp: SFS_FillSourceLineInfo_def Let_def bind_eq_Some_conv fill_frame_def
          split: option.splits if_splits prod.splits SymbolResult.splits)
    with step.IH show ?case by simp
  qed simp
  then show "(sfs_resolver st' = None) = (sfs_resolver st = None)" "(sfs_supplier st' = None) = (sfs_supplier st = None)"
    by blast+
qed

text \<open>
  When no name has a NUL, as is so for files, the modules without symbols and those of the resolver stay
  apart.
\<close>

definition plain_modules :: "BasicCodeModules option \<Rightarrow> BasicCodeModules option \<Rightarrow> bool" where
  "plain_modules ms unloaded \<longleftrightarrow>
     (\<forall>address md. module_of_frame ms unloaded address = Some md \<longrightarrow> NUL \<notin> set (code_file md))"

definition apart :: "'s StackFrameSymbolizer \<Rightarrow> bool" where
  "apart st \<longleftrightarrow> (\<forall>name\<in>no_symbol_modules st. NUL \<notin> set name
     \<and> (\<forall>r. sfs_resolver st = Some r \<longrightarrow> \<not> HasModule (Some name) r))"

lemma fill_apart:
  assumes "SFS_FillSourceLineInfo supply ms unloaded (frame, m0) st = Some (result, (frame', m), st')"
    and "sfs_ok st" "plain_modules ms unloaded" "apart st"
  shows "apart st'"
proof -
  have plain: "NUL \<notin> set (code_file md)" if "m = Some md" "result = kError \<longrightarrow> st' \<noteq> st" for md
  proof -
    have "result = kError \<and> st' = st" if "module_of_frame ms unloaded (instruction frame) = None"
      using assms(1) that by (simp add: SFS_FillSourceLineInfo_def)
    then have "module_of_frame ms unloaded (instruction frame) \<noteq> None" using that(2) by blast
    then show ?thesis
      using SFS_FillSourceLineInfo_place [OF assms(1)] assms(3) that(1) by (auto simp: plain_modules_def)
  qed
  from assms(1,2) show ?thesis
  proof (cases rule: fill_cases)
    case (answered md s symbols s1 r r')
    have r: "resolver_ok r" using assms(2) answered(5) by (simp add: sfs_ok_def)
    have md: "NUL \<notin> set (code_file md)" using plain [OF answered(1)] answered(7) by simp
    have "\<not> HasModule (Some name) r'" if "name \<in> no_symbol_modules st" for name
    proof -
      have name: "NUL \<notin> set name" "\<not> HasModule (Some name) r"
        using assms(4) that answered(5) by (auto simp: apart_def)
      have "name \<noteq> code_file md" using answered(2) that by (auto simp: settled_def)
      then show ?thesis
        using load_changes(2) [OF r answered(6), of name] name(2) by (simp add: c_str_plain [OF name(1)] c_str_plain [OF md])
    qed
    then show ?thesis using assms(4) by (simp add: apart_def answered(8))
  next
    case (asked md s s1)
    have "no_symbol_modules st' \<noteq> no_symbol_modules st" using asked(2,6) by (auto simp: settled_def)
    then have "st' \<noteq> st" by auto
    then have "NUL \<notin> set (code_file md)" using plain [OF asked(1)] by simp
    then show ?thesis
      using assms(4) asked(2,3) by (auto simp: apart_def asked(6) settled_def loaded_def HasImplementation_def)
  qed (use assms(4) in \<open>auto simp: apart_def\<close>)
qed

lemma fills_apart:
  assumes "(fills supply ms unloaded)\<^sup>*\<^sup>* st st'" "sfs_ok st" "plain_modules ms unloaded" "apart st"
  shows "apart st'"
  using assms(1)
proof (induction rule: rtranclp_induct)
  case (step st1 st2)
  have ok: "sfs_ok st1" using fills_keeps [OF step.hyps(1)] assms(2) by (simp add: keeps_def)
  from step.hyps(2) show ?case
  proof cases
    case (fill fr result fr')
    then show ?thesis using fill_apart [OF _ ok assms(3) step.IH] by (cases fr; cases fr') auto
  qed
qed (rule assms(4))

section \<open>The modules that a supplier is asked for\<close>

text \<open>A supplier that records the modules it is asked for, with its answers, the latest first\<close>

definition logging :: "'s SymbolSupplier \<Rightarrow> ('s \<times> (string \<times> SymbolResult) list) SymbolSupplier" where
  "logging supply =
     \<lparr>GetCStringSymbolData = (\<lambda>m (s, log).
        let (r, s') = GetCStringSymbolData supply m s in (r, (s', (code_file m, r) # log))),
      FreeSymbolData = (\<lambda>m (s, log). (FreeSymbolData supply m s, log))\<rparr>"

text \<open>A module is asked for again only if the supplier was interrupted each time before.\<close>

definition asks_ok :: "(string \<times> SymbolResult) list \<Rightarrow> bool" where
  "asks_ok log \<longleftrightarrow> sorted_wrt (\<lambda>later earlier. fst later = fst earlier \<longrightarrow> snd earlier = INTERRUPT) log"

definition answer_kept :: "'s StackFrameSymbolizer \<Rightarrow> string \<times> SymbolResult \<Rightarrow> bool" where
  "answer_kept st ask = (case snd ask of
     FOUND _ \<Rightarrow> loaded st (fst ask) | NOT_FOUND \<Rightarrow> fst ask \<in> no_symbol_modules st | INTERRUPT \<Rightarrow> True)"

definition well_asked ::
  "('s \<times> (string \<times> SymbolResult) list) StackFrameSymbolizer
    \<Rightarrow> ('s \<times> (string \<times> SymbolResult) list) StackFrameSymbolizer \<Rightarrow> bool"
where
  "well_asked st st' \<longleftrightarrow> (\<forall>s log. sfs_supplier st' = Some (s, log) \<longrightarrow> asks_ok log
     \<and> (\<forall>ask\<in>set log. \<not> settled st (fst ask) \<and> answer_kept st' ask))"

lemma answer_settles: "answer_kept st ask \<Longrightarrow> \<not> settled st (fst ask) \<Longrightarrow> snd ask = INTERRUPT"
  by (auto simp: answer_kept_def settled_def split: SymbolResult.splits)

lemma answer_kept_fill:
  assumes "SFS_FillSourceLineInfo supply ms unloaded (frame, m0) st1 = Some (result, (frame', m), st2)" "sfs_ok st1"
    and "answer_kept st1 ask"
  shows "answer_kept st2 ask"
proof -
  have "loaded st2 name" if "loaded st1 name" for name
    using fill_keeps [OF assms(1)] assms(2) that by (auto simp: keeps_def settled_def)
  moreover from assms(1,2) have "no_symbol_modules st1 \<subseteq> no_symbol_modules st2"
    by (cases rule: fill_cases) auto
  ultimately show ?thesis using assms(3) by (auto simp: answer_kept_def split: SymbolResult.splits)
qed

lemma fill_well_asked:
  assumes fill: "SFS_FillSourceLineInfo (logging supply) ms unloaded (frame, m0) st1 = Some (result, (frame', m), st2)"
    and asked_before: "well_asked st st1" "keeps st st1" "sfs_ok st"
  shows "well_asked st st2"
proof -
  have ok: "sfs_ok st1" using asked_before(2,3) by (simp add: keeps_def)
  have "well_asked st st2"
    if st1: "sfs_supplier st1 = Some (s, log)" and md: "\<not> settled st1 (code_file md)"
      and st2: "sfs_supplier st2 = Some (s', (code_file md, a) # log)" and new: "answer_kept st2 (code_file md, a)"
    for md s log s' a
  proof -
    have log: "asks_ok log" "\<forall>ask\<in>set log. \<not> settled st (fst ask) \<and> answer_kept st1 ask"
      using asked_before(1) st1 by (simp_all add: well_asked_def)
    have "\<not> settled st (code_file md)" using asked_before(2,3) md by (auto simp: keeps_def)
    moreover have "\<forall>ask\<in>set log. code_file md = fst ask \<longrightarrow> snd ask = INTERRUPT"
      using log(2) md answer_settles by fastforce
    moreover have "\<forall>ask\<in>set log. answer_kept st2 ask" using log(2) answer_kept_fill [OF fill ok] by blast
    ultimately show ?thesis using log new by (auto simp: well_asked_def st2 asks_ok_def)
  qed
  note ask = this
  from fill ok show ?thesis
  proof (cases rule: fill_cases)
    case (answered md p symbols p1 r r')
    obtain s log where p: "p = (s, log)" by (cases p)
    have "resolver_ok r" using ok answered(5) by (simp add: sfs_ok_def)
    from load_changes(2) [OF this answered(6), of "code_file md"]
    have "answer_kept st2 (code_file md, FOUND symbols)"
      using answered(2) by (simp add: answer_kept_def loaded_def settled_def answered(8))
    moreover obtain s' where "sfs_supplier st2 = Some (s', (code_file md, FOUND symbols) # log)"
      using answered(4,8) by (auto simp: p logging_def split: prod.splits)
    ultimately show ?thesis by (intro ask [OF answered(3) [unfolded p] answered(2)])
  next
    case (asked md p p1)
    obtain s log where p: "p = (s, log)" by (cases p)
    obtain s' where "sfs_supplier st2 = Some (s', (code_file md, NOT_FOUND) # log)"
      using asked(4,6) by (auto simp: p logging_def split: prod.splits)
    then show ?thesis
      by (rule ask [OF asked(3) [unfolded p] asked(2)]) (simp add: answer_kept_def asked(6))
  next
    case (interrupted md p p1)
    obtain s log where p: "p = (s, log)" by (cases p)
    obtain s' where "sfs_supplier st2 = Some (s', (code_file md, INTERRUPT) # log)"
      using interrupted(4,6) by (auto simp: p logging_def split: prod.splits)
    then show ?thesis
      by (rule ask [OF interrupted(3) [unfolded p] interrupted(2)]) (simp add: answer_kept_def interrupted(6))
  qed (use asked_before(1) in simp_all)
qed

lemma fills_well_asked:
  assumes "(fills (logging supply) ms unloaded)\<^sup>*\<^sup>* st st'" "sfs_ok st" "well_asked st st"
  shows "well_asked st st'"
  using assms(1)
proof (induction rule: rtranclp_induct)
  case (step st1 st2)
  from step.hyps(2) show ?case
  proof cases
    case (fill fr result fr')
    then show ?thesis
      using fill_well_asked [OF _ step.IH fills_keeps [OF step.hyps(1)] assms(2)] by (cases fr; cases fr') auto
  qed
qed (rule assms(3))

lemma asks_distinct: "asks_ok log \<Longrightarrow> \<forall>ask\<in>set log. snd ask \<noteq> INTERRUPT \<Longrightarrow> distinct (map fst log)"
  by (induction log) (auto simp: asks_ok_def)

end
