(* ===== verification/Walk_Interface.thy ===== *)
theory Walk_Interface
  imports Stackwalker Symbolizer_States
begin

text \<open>
  The walk for every architecture.  \<open>Walk\<close> relies on two virtual functions; what it needs of the second,
  \<open>GetCallerFrame\<close>, is the locale \<open>cpu_walker\<close>, in which the contracts of a walk are proved once.
\<close>

text \<open>A use of the symbolizer by a walker: a frame is filled with the walker's supplier and modules.\<close>

abbreviation uses :: "'s Stackwalker \<Rightarrow> 's StackFrameSymbolizer \<Rightarrow> 's StackFrameSymbolizer \<Rightarrow> bool" where
  "uses w \<equiv> fills (sw_supplier w) (sw_modules w) (unloaded_modules w)"

section \<open>Scanning\<close>

lemma seems_return_address_module:
  assumes "seems_return_address w ip st = Some (True, st')"
  shows "\<exists>ms. sw_modules w = Some ms \<and> GetModuleForAddress ms ip \<noteq> None"
  using assms by (auto simp: seems_return_address_def bind_eq_Some_conv split: if_splits)

lemma scan_loop_found:
  assumes "scan_loop w mem location last_location st = Some (Some (found, ip), st')"
  shows "GetMemoryAtAddress mem found = Some ip \<and> location \<le> found \<and> found \<le> last_location
    \<and> (\<exists>ms. sw_modules w = Some ms \<and> GetModuleForAddress ms ip \<noteq> None)"
  using assms
proof (induction w mem location last_location st rule: scan_loop.induct)
  case (1 w mem location last_location st)
  show ?case
  proof (cases "location \<le> last_location")
    case True
    obtain v where v: "GetMemoryAtAddress mem location = Some v"
      using "1.prems" True by (auto simp: scan_loop.simps [of w mem location] split: option.splits)
    obtain valid st1 where s: "seems_return_address w v st = Some (valid, st1)"
      using "1.prems" True v by (auto simp: scan_loop.simps [of w mem location] split: option.splits)
    show ?thesis
    proof (cases valid)
      case True
      then show ?thesis
        using "1.prems" \<open>location \<le> last_location\<close> v s seems_return_address_module [of w v st st1]
        by (simp add: scan_loop.simps [of w mem location])
    next
      case False
      have "unat location + 8 < 2 ^ 64" by (rule GetMemory_end [OF v])
      then have up: "location \<le> location + 8"
        by (simp add: word_le_nat_alt unat_word_ariths)
      have "scan_loop w mem (location + 8) last_location st1 = Some (Some (found, ip), st')"
        using "1.prems" True v s False \<open>location \<le> last_location\<close> by (simp add: scan_loop.simps [of w mem location])
      from "1.IH" [OF \<open>location \<le> last_location\<close> v s refl False this] up show ?thesis by auto
    qed
  next
    case False
    then show ?thesis using "1.prems" by (simp add: scan_loop.simps [of w mem location])
  qed
qed

lemma seems_fills:
  assumes "seems_return_address w ip st = Some (valid, st')"
  shows "(uses w)\<^sup>*\<^sup>* st st'"
  using assms
  by (fastforce simp: seems_return_address_def InstructionAddressSeemsValid_def bind_eq_Some_conv
      split: if_splits intro: fills.intros)

lemma scan_fills:
  assumes "scan_loop w mem location last_location st = Some (found, st')"
  shows "(uses w)\<^sup>*\<^sup>* st st'"
  using assms
proof (induction w mem location last_location st rule: scan_loop.induct)
  case (1 w mem location last_location st)
  show ?case
  proof (cases "location \<le> last_location \<and> GetMemoryAtAddress mem location \<noteq> None")
    case True
    then obtain ip where ip: "location \<le> last_location" "GetMemoryAtAddress mem location = Some ip" by auto
    obtain valid st1 where s: "seems_return_address w ip st = Some (valid, st1)"
      using "1.prems" ip by (auto simp: scan_loop.simps [of w mem location] split: option.splits)
    show ?thesis
    proof (cases valid)
      case True
      then show ?thesis using "1.prems" ip s seems_fills [OF s] by (simp add: scan_loop.simps [of w mem location])
    next
      case False
      then have "(uses w)\<^sup>*\<^sup>* st1 st'"
        using "1.IH" [OF ip s refl False] "1.prems" ip s by (simp add: scan_loop.simps [of w mem location])
      with seems_fills [OF s] show ?thesis by (rule rtranclp_trans)
    qed
  next
    case False
    then show ?thesis using "1.prems" by (auto simp: scan_loop.simps [of w mem location] split: if_splits)
  qed
qed

section \<open>The loop\<close>

lemma walk_loop_push:
  assumes "SFS_FillSourceLineInfo (sw_supplier w) (sw_modules w) (unloaded_modules w)
        (frame_info f, frame_module f) st = Some (result, (info, m), st1)" "result \<noteq> kInterrupt"
    and "g = f\<lparr>frame_info := info, frame_module := m\<rparr>"
    and "n' = (if trust g \<in> {FRAME_TRUST_NONE, FRAME_TRUST_SCAN, FRAME_TRUST_CFI_SCAN} then n + 1 else n)"
    and "stack1 = stack\<lparr>frames_of := frames_of stack @ [Some g]\<rparr>"
    and "wo = (if result = kError then InsertSpecialAttentionModule m without else without)"
    and "co = (if result = kWarningCorruptSymbols then InsertSpecialAttentionModule m corrupt else corrupt)"
  shows "walk_loop w caller (Some f) n stack without corrupt st =
      (if length (frames_of stack1) > unat (max_frames w) then Some ((True, stack1, wo, co), st1)
       else case caller stack1 (n' < max_frames_scanned w) st1 of None \<Rightarrow> None
         | Some (frame, st) \<Rightarrow> walk_loop w caller frame n' stack1 wo co st)"
  unfolding walk_loop.simps(2) assms(1) option.case prod.case Let_def assms(3-7) if_not_P [OF assms(2)] ..

text \<open>
  The rule for the loop: \<open>I\<close> holds whenever the loop is entered, with the frame it is entered with, and \<open>Q\<close>
  of what is returned.
\<close>

lemma walk_loop_rule:
  assumes "walk_loop w caller frame n stack wo co st = Some ((ok, stack', wo', co'), st')"
    and "I frame n stack wo co st"
    and none: "\<And>n stack wo co st. I None n stack wo co st \<Longrightarrow> Q True stack wo co st"
    and interrupted: "\<And>f n stack wo co st info m st1.
      I (Some f) n stack wo co st
      \<Longrightarrow> SFS_FillSourceLineInfo (sw_supplier w) (sw_modules w) (unloaded_modules w)
            (frame_info f, frame_module f) st = Some (kInterrupt, (info, m), st1)
      \<Longrightarrow> Q False stack wo co st1"
    and pushed: "\<And>f n stack wo co st result info m st1 g n1 stack1 wo1 co1.
      I (Some f) n stack wo co st
      \<Longrightarrow> SFS_FillSourceLineInfo (sw_supplier w) (sw_modules w) (unloaded_modules w)
            (frame_info f, frame_module f) st = Some (result, (info, m), st1)
      \<Longrightarrow> result \<noteq> kInterrupt \<Longrightarrow> g = f\<lparr>frame_info := info, frame_module := m\<rparr>
      \<Longrightarrow> n1 = (if trust g \<in> {FRAME_TRUST_NONE, FRAME_TRUST_SCAN, FRAME_TRUST_CFI_SCAN} then n + 1 else n)
      \<Longrightarrow> stack1 = stack\<lparr>frames_of := frames_of stack @ [Some g]\<rparr>
      \<Longrightarrow> wo1 = (if result = kError then InsertSpecialAttentionModule m wo else wo)
      \<Longrightarrow> co1 = (if result = kWarningCorruptSymbols then InsertSpecialAttentionModule m co else co)
      \<Longrightarrow> (length (frames_of stack1) > unat (max_frames w) \<longrightarrow> Q True stack1 wo1 co1 st1)
        \<and> (\<forall>frame' st2. length (frames_of stack1) \<le> unat (max_frames w)
            \<longrightarrow> caller stack1 (n1 < max_frames_scanned w) st1 = Some (frame', st2)
            \<longrightarrow> I frame' n1 stack1 wo1 co1 st2)"
  shows "Q ok stack' wo' co' st'"
  using assms(1,2)
proof (induction "Suc (unat (max_frames w)) - length (frames_of stack)"
    arbitrary: frame n stack wo co st rule: less_induct)
  case less
  show ?case
  proof (cases frame)
    case None
    then show ?thesis using less.prems none by (auto simp: walk_loop.simps)
  next
    case (Some f)
    obtain result info m st1 where fill: "SFS_FillSourceLineInfo (sw_supplier w) (sw_modules w) (unloaded_modules w)
        (frame_info f, frame_module f) st = Some (result, (info, m), st1)"
      using less.prems(1) by (auto simp: Some walk_loop.simps split: option.splits)
    show ?thesis
    proof (cases "result = kInterrupt")
      case True
      then show ?thesis
        using less.prems fill interrupted [of f n stack wo co st info m st1] by (auto simp: Some walk_loop.simps)
    next
      case False
      define g where "g = f\<lparr>frame_info := info, frame_module := m\<rparr>"
      define n1 where "n1 = (if trust g \<in> {FRAME_TRUST_NONE, FRAME_TRUST_SCAN, FRAME_TRUST_CFI_SCAN} then n + 1 else n)"
      define stack1 where "stack1 = stack\<lparr>frames_of := frames_of stack @ [Some g]\<rparr>"
      define wo1 where "wo1 = (if result = kError then InsertSpecialAttentionModule m wo else wo)"
      define co1 where "co1 = (if result = kWarningCorruptSymbols then InsertSpecialAttentionModule m co else co)"
      note run = walk_loop_push [OF fill False g_def n1_def stack1_def wo1_def co1_def, of caller,
          folded Some, unfolded less.prems(1)]
      note step = pushed [OF less.prems(2) [unfolded Some] fill False g_def n1_def stack1_def wo1_def co1_def]
      show ?thesis
      proof (cases "length (frames_of stack1) > unat (max_frames w)")
        case True
        then show ?thesis using run step by simp
      next
        case shorter: False
        then obtain frame2 st2 where "caller stack1 (n1 < max_frames_scanned w) st1 = Some (frame2, st2)"
          "walk_loop w caller frame2 n1 stack1 wo1 co1 st2 = Some ((ok, stack', wo', co'), st')"
          using run by (auto split: option.splits)
        moreover have "Suc (unat (max_frames w)) - length (frames_of stack1) < Suc (unat (max_frames w)) - length (frames_of stack)"
          using shorter by (simp add: stack1_def)
        ultimately show ?thesis using less.hyps [of stack1 frame2] step shorter by auto
      qed
    qed
  qed
qed

section \<open>The modules that a walk reports\<close>

definition modules_in :: "'z WalkFrame_scheme CallStack \<Rightarrow> CodeModule set" where
  "modules_in stack = {md. \<exists>f. Some f \<in> set (frames_of stack) \<and> frame_module f = Some md}"

definition reported :: "'s StackFrameSymbolizer \<Rightarrow> 'z WalkFrame_scheme CallStack \<Rightarrow> CodeModule list \<Rightarrow> CodeModule list \<Rightarrow> bool" where
  "reported st stack wo co \<longleftrightarrow> sfs_ok st \<and> distinct wo \<and> distinct co
     \<and> (\<forall>md\<in>modules_in stack. settled st (code_file md))
     \<and> set wo = {md \<in> modules_in stack. \<not> loaded st (code_file md)}
     \<and> set co = {md \<in> modules_in stack. corrupt_in st (code_file md)}"

lemma reported_keeps: "reported st stack wo co \<Longrightarrow> keeps st st' \<Longrightarrow> reported st' stack wo co"
  by (auto simp: reported_def keeps_def)

lemma InsertSpecialAttentionModule_set:
  "set (InsertSpecialAttentionModule m ms) = set_option m \<union> set ms"
  "distinct ms \<Longrightarrow> distinct (InsertSpecialAttentionModule m ms)"
  by (auto simp: InsertSpecialAttentionModule_def split: option.split)

lemma reported_push:
  assumes "reported st stack wo co" "frame_module f = None"
    and fill: "SFS_FillSourceLineInfo (sw_supplier w) (sw_modules w) (unloaded_modules w)
            (frame_info f, frame_module f) st = Some (result, (info, m), st1)"
    and "result \<noteq> kInterrupt" "g = f\<lparr>frame_info := info, frame_module := m\<rparr>"
  shows "reported st1 (stack\<lparr>frames_of := frames_of stack @ [Some g]\<rparr>)
    (if result = kError then InsertSpecialAttentionModule m wo else wo)
    (if result = kWarningCorruptSymbols then InsertSpecialAttentionModule m co else co)"
proof -
  have before: "reported st1 stack wo co" by (rule reported_keeps [OF assms(1) fill_keeps [OF fill]])
  have "modules_in (stack\<lparr>frames_of := frames_of stack @ [Some g]\<rparr>) = set_option m \<union> modules_in stack"
    by (auto simp: modules_in_def assms(5))
  moreover have "\<forall>md\<in>set_option m. settled st1 (code_file md) \<and> (result = kError \<longleftrightarrow> \<not> loaded st1 (code_file md))
      \<and> (result = kWarningCorruptSymbols \<longleftrightarrow> corrupt_in st1 (code_file md))"
    using fill_reports [OF fill _ assms(4)] assms(1,2) by (auto simp: reported_def split: option.splits)
  ultimately show ?thesis
    using before unfolding reported_def by (auto simp: InsertSpecialAttentionModule_set)
qed

section \<open>The contract of GetCallerFrame\<close>

text \<open>A frame as the symbolizer leaves it: only what is recorded of its place has changed.\<close>

definition symbolized :: "'z WalkFrame_scheme \<Rightarrow> 'z WalkFrame_scheme \<Rightarrow> bool" where
  "symbolized f g \<longleftrightarrow> (\<exists>info m. g = f\<lparr>frame_info := info, frame_module := m\<rparr>
     \<and> instruction info = instruction (frame_info f))"

lemma symbolized_module: "symbolized f (f\<lparr>frame_info := frame_info f, frame_module := m\<rparr>)"
  unfolding symbolized_def by (intro exI conjI) (rule refl)+

definition scans :: "'z WalkFrame_scheme list \<Rightarrow> nat" where
  "scans fs = length (filter (\<lambda>f. trust f = FRAME_TRUST_SCAN) fs)"

text \<open>The frames of a walk that starts with the frame \<open>cf\<close> of the context\<close>

definition walk_ok ::
  "'s Stackwalker \<Rightarrow> ('z WalkFrame_scheme \<Rightarrow> 'z WalkFrame_scheme \<Rightarrow> bool) \<Rightarrow> 'z WalkFrame_scheme option
    \<Rightarrow> 'z WalkFrame_scheme list \<Rightarrow> bool"
where
  "walk_ok w is_caller cf fs \<longleftrightarrow> successively is_caller fs
     \<and> (fs \<noteq> [] \<longrightarrow> (\<exists>f. cf = Some f \<and> symbolized f (hd fs)))
     \<and> length fs \<le> Suc (unat (max_frames w)) \<and> scans fs \<le> unat (max_frames_scanned w)
     \<and> (\<forall>f\<in>set fs. frame_module f
         = module_of_frame (sw_modules w) (unloaded_modules w) (instruction (frame_info f)))"

text \<open>
  The caller is recovered from the last frame and the symbolizer as it is then, in a way that filling the
  caller does not change; it is trusted for the way it was found, which is a scan only if that is allowed;
  and the symbolizer is only used.  \<open>called_in\<close>: so recovered, at some point of a walk.
\<close>

definition called_in ::
  "'s Stackwalker \<Rightarrow> ('s StackFrameSymbolizer \<Rightarrow> 'z WalkFrame_scheme \<Rightarrow> 'z WalkFrame_scheme \<Rightarrow> bool)
    \<Rightarrow> 's StackFrameSymbolizer \<Rightarrow> 's StackFrameSymbolizer \<Rightarrow> 'z WalkFrame_scheme \<Rightarrow> 'z WalkFrame_scheme \<Rightarrow> bool"
where
  "called_in w is_caller st st' callee f \<longleftrightarrow>
     (\<exists>st1. (uses w)\<^sup>*\<^sup>* st st1 \<and> (uses w)\<^sup>*\<^sup>* st1 st' \<and> is_caller st1 callee f)"

lemma called_in_later: "called_in w is_caller st st1 callee f \<Longrightarrow> (uses w)\<^sup>*\<^sup>* st1 st2 \<Longrightarrow> called_in w is_caller st st2 callee f"
  unfolding called_in_def by (meson rtranclp_trans)

lemma walk_ok_mono: "walk_ok w r cf fs \<Longrightarrow> (\<And>f g. r f g \<Longrightarrow> r' f g) \<Longrightarrow> walk_ok w r' cf fs"
  unfolding walk_ok_def using successively_mono [of r fs r'] by blast

locale cpu_walker =
  fixes w :: "'s Stackwalker"
    and caller :: "'z WalkFrame_scheme CallStack \<Rightarrow> bool \<Rightarrow> 's StackFrameSymbolizer
      \<Rightarrow> ('z WalkFrame_scheme option \<times> 's StackFrameSymbolizer) option"
    and is_caller :: "'s StackFrameSymbolizer \<Rightarrow> 'z WalkFrame_scheme \<Rightarrow> 'z WalkFrame_scheme \<Rightarrow> bool"
  assumes caller_sound: "caller stack allowed st = Some (Some f, st') \<Longrightarrow> frames_of stack = fs @ [Some callee]
      \<Longrightarrow> is_caller st callee f \<and> frame_module f = None \<and> (allowed \<or> trust f \<noteq> FRAME_TRUST_SCAN)"
    and caller_trust: "is_caller st callee f \<Longrightarrow> trust f \<notin> {FRAME_TRUST_NONE, FRAME_TRUST_CFI_SCAN, FRAME_TRUST_CONTEXT}"
    and caller_filled: "is_caller st callee f \<Longrightarrow> symbolized f g \<Longrightarrow> is_caller st callee g"
    and caller_asks: "caller stack allowed st = Some (r, st') \<Longrightarrow> (uses w)\<^sup>*\<^sup>* st st'"
begin

text \<open>A walk that has got from the symbolizer \<open>st0\<close> to \<open>st\<close>\<close>

abbreviation called :: "'s StackFrameSymbolizer \<Rightarrow> 's StackFrameSymbolizer \<Rightarrow> 'z WalkFrame_scheme \<Rightarrow> 'z WalkFrame_scheme \<Rightarrow> bool" where
  "called st0 st \<equiv> called_in w is_caller st0 st"

lemma called_trust: "called st0 st callee f \<Longrightarrow> trust f \<notin> {FRAME_TRUST_NONE, FRAME_TRUST_CFI_SCAN, FRAME_TRUST_CONTEXT}"
  unfolding called_in_def using caller_trust by blast

lemma called_filled: "called st0 st callee f \<Longrightarrow> symbolized f g \<Longrightarrow> called st0 st callee g"
  unfolding called_in_def using caller_filled by blast

definition next_ok :: "'s StackFrameSymbolizer \<Rightarrow> 's StackFrameSymbolizer \<Rightarrow> 'z WalkFrame_scheme option
    \<Rightarrow> 'z WalkFrame_scheme list \<Rightarrow> bool \<Rightarrow> 'z WalkFrame_scheme \<Rightarrow> bool" where
  "next_ok st0 st cf fs allowed f \<longleftrightarrow> frame_module f = None \<and>
     (if fs = [] then cf = Some f \<and> trust f = FRAME_TRUST_CONTEXT
      else called st0 st (last fs) f \<and> (allowed \<or> trust f \<noteq> FRAME_TRUST_SCAN))"

lemma next_dubious:
  assumes "next_ok st0 st cf fs allowed f"
  shows "trust f \<in> {FRAME_TRUST_NONE, FRAME_TRUST_SCAN, FRAME_TRUST_CFI_SCAN} \<longleftrightarrow> trust f = FRAME_TRUST_SCAN"
  using assms called_trust [of st0 st "last fs" f] by (auto simp: next_ok_def split: if_splits)

lemma walk_ok_push:
  assumes "walk_ok w (called st0 st) cf fs" "next_ok st0 st cf fs (n < max_frames_scanned w) f" "symbolized f g"
    and "unat n = scans fs" "length fs \<le> unat (max_frames w)"
    and "frame_module g = module_of_frame (sw_modules w) (unloaded_modules w) (instruction (frame_info g))"
    and "n' = (if trust g \<in> {FRAME_TRUST_NONE, FRAME_TRUST_SCAN, FRAME_TRUST_CFI_SCAN} then n + 1 else n)"
  shows "walk_ok w (called st0 st) cf (fs @ [g])" "unat n' = scans (fs @ [g])"
proof -
  have g: "trust g = trust f" using assms(3) by (auto simp: symbolized_def)
  have scan: "fs \<noteq> [] \<and> n < max_frames_scanned w" if "trust g = FRAME_TRUST_SCAN"
    using assms(2) that by (auto simp: next_ok_def g split: if_splits)
  have n': "n' = (if trust g = FRAME_TRUST_SCAN then n + 1 else n)"
    using next_dubious [OF assms(2)] by (simp only: assms(7) g)
  have "unat (n + 1) = unat n + 1" if "n < max_frames_scanned w"
  proof -
    have "unat n < unat (max_frames_scanned w)" using that by (simp add: word_less_nat_alt)
    moreover have "unat (max_frames_scanned w) < 2 ^ 32" using unsigned_less [of "max_frames_scanned w"] by simp
    ultimately show ?thesis by (simp add: unat_word_ariths)
  qed
  then show count: "unat n' = scans (fs @ [g])"
    using scan assms(4) by (simp add: n' scans_def)
  have "scans (fs @ [g]) \<le> unat (max_frames_scanned w)"
    using scan assms(1,4) by (auto simp: scans_def walk_ok_def word_less_nat_alt)
  moreover have "called st0 st (last fs) g" if "fs \<noteq> []"
    using assms(2,3) that called_filled by (auto simp: next_ok_def)
  ultimately show "walk_ok w (called st0 st) cf (fs @ [g])"
    using assms(1,2,3,5,6) unfolding walk_ok_def
    by (auto simp: successively_append_iff next_ok_def hd_append split: if_splits)
qed

definition entered :: "'s StackFrameSymbolizer \<Rightarrow> nat \<Rightarrow> 'z WalkFrame_scheme option \<Rightarrow> 'z WalkFrame_scheme list
    \<Rightarrow> 'z WalkFrame_scheme option \<Rightarrow> 32 word \<Rightarrow> 'z WalkFrame_scheme CallStack \<Rightarrow> 's StackFrameSymbolizer \<Rightarrow> bool" where
  "entered st0 k cf fs frame n stack st \<longleftrightarrow> (uses w)\<^sup>*\<^sup>* st0 st
     \<and> frames_of stack = replicate k None @ map Some fs \<and> walk_ok w (called st0 st) cf fs \<and> unat n = scans fs
     \<and> (case frame of None \<Rightarrow> fs \<noteq> [] \<or> cf = None
        | Some f \<Rightarrow> next_ok st0 st cf fs (n < max_frames_scanned w) f \<and> length fs \<le> unat (max_frames w))"

lemma entered_push:
  assumes "entered st0 k cf fs (Some f) n stack st"
    and "SFS_FillSourceLineInfo (sw_supplier w) (sw_modules w) (unloaded_modules w)
        (frame_info f, frame_module f) st = Some (result, (info, m), st1)"
    and "g = f\<lparr>frame_info := info, frame_module := m\<rparr>"
    and "n1 = (if trust g \<in> {FRAME_TRUST_NONE, FRAME_TRUST_SCAN, FRAME_TRUST_CFI_SCAN} then n + 1 else n)"
    and "stack1 = stack\<lparr>frames_of := frames_of stack @ [Some g]\<rparr>"
  shows "frames_of stack1 = replicate k None @ map Some (fs @ [g])" "walk_ok w (called st0 st1) cf (fs @ [g])"
    and "length (frames_of stack1) \<le> unat (max_frames w)
      \<Longrightarrow> caller stack1 (n1 < max_frames_scanned w) st1 = Some (frame', st2)
      \<Longrightarrow> entered st0 k cf (fs @ [g]) frame' n1 stack1 st2"
proof -
  have f: "next_ok st0 st cf fs (n < max_frames_scanned w) f" "length fs \<le> unat (max_frames w)"
    "walk_ok w (called st0 st) cf fs" "unat n = scans fs" "(uses w)\<^sup>*\<^sup>* st0 st"
    using assms(1) by (simp_all add: entered_def)
  have use: "uses w st st1" using assms(2) by (rule fills.intros)
  have "instruction info = instruction (frame_info f)"
    "m = module_of_frame (sw_modules w) (unloaded_modules w) (instruction (frame_info f))"
    using SFS_FillSourceLineInfo_place [OF assms(2)] f(1) by (auto simp: next_ok_def)
  then have "symbolized f g" "frame_module g = module_of_frame (sw_modules w) (unloaded_modules w) (instruction (frame_info g))"
    by (auto simp: assms(3) symbolized_def)
  note push = walk_ok_push [OF f(3,1) this(1) f(4,2) this(2) assms(4)]
  show frames1: "frames_of stack1 = replicate k None @ map Some (fs @ [g])"
    using assms(1) by (simp add: assms(5) entered_def)
  have st01: "(uses w)\<^sup>*\<^sup>* st0 st1" using f(5) use by (rule rtranclp.rtrancl_into_rtrancl)
  show ok1: "walk_ok w (called st0 st1) cf (fs @ [g])"
    using called_in_later [OF _ r_into_rtranclp [of "uses w", OF use]] by (intro walk_ok_mono [OF push(1)])
  show "entered st0 k cf (fs @ [g]) frame' n1 stack1 st2"
    if short: "length (frames_of stack1) \<le> unat (max_frames w)"
      and call: "caller stack1 (n1 < max_frames_scanned w) st1 = Some (frame', st2)"
  proof -
    have st12: "(uses w)\<^sup>*\<^sup>* st1 st2" by (rule caller_asks [OF call])
    have st02: "(uses w)\<^sup>*\<^sup>* st0 st2" by (rule rtranclp_trans [OF st01 st12])
    have ok2: "walk_ok w (called st0 st2) cf (fs @ [g])"
      using called_in_later [OF _ st12] by (intro walk_ok_mono [OF ok1])
    show ?thesis
    proof (cases frame')
      case None
      then show ?thesis using frames1 push(2) ok2 st02 by (simp add: entered_def)
    next
      case (Some f2)
      have "is_caller st1 g f2 \<and> frame_module f2 = None \<and> (n1 < max_frames_scanned w \<or> trust f2 \<noteq> FRAME_TRUST_SCAN)"
        using caller_sound [OF call [unfolded Some], of "replicate k None @ map Some fs" g] frames1 by simp
      moreover from this have "called st0 st2 g f2" using st01 st12 by (auto simp: called_in_def)
      ultimately show ?thesis using frames1 push(2) ok2 st02 short by (simp add: entered_def Some next_ok_def)
    qed
  qed
qed

lemma frames_of_walk:
  assumes "Walk w cf caller stack without corrupt st = Some ((ok, stack', without', corrupt'), st')"
    and "\<forall>f. cf = Some f \<longrightarrow> trust f = FRAME_TRUST_CONTEXT \<and> frame_module f = None"
  shows "\<exists>fs. frames_of stack' = map (\<lambda>_. None) (frames_of stack) @ map Some fs
    \<and> walk_ok w (called st st') cf fs \<and> (fs = [] \<longrightarrow> cf = None \<or> \<not> ok)"
proof -
  let ?k = "length (frames_of stack)"
  have "entered st ?k cf [] cf 0 (Clear stack) st"
    using assms(2) by (auto simp: entered_def Clear_def map_replicate_const walk_ok_def scans_def next_ok_def split: option.split)
  then have "\<exists>fs. frames_of stack' = replicate ?k None @ map Some fs \<and> walk_ok w (called st st') cf fs \<and> (fs = [] \<longrightarrow> cf = None \<or> \<not> ok)"
  proof (intro walk_loop_rule [OF assms(1) [unfolded Walk_def],
        where I = "\<lambda>frame n stack _ _ st1. \<exists>fs. entered st ?k cf fs frame n stack st1"
        and Q = "\<lambda>ok stack _ _ st1. \<exists>fs. frames_of stack = replicate ?k None @ map Some fs \<and> walk_ok w (called st st1) cf fs
          \<and> (fs = [] \<longrightarrow> cf = None \<or> \<not> ok)"], goal_cases)
    case 1
    then show ?case by blast
  next
    case 2
    then show ?case by (auto simp: entered_def)
  next
    case (3 f n stack wo co st2 info m st1)
    then obtain fs where fs: "entered st ?k cf fs (Some f) n stack st2" by blast
    have use: "uses w st2 st1" using 3(3) by (rule fills.intros)
    have "walk_ok w (called st st2) cf fs" using fs by (simp add: entered_def)
    then have "walk_ok w (called st st1) cf fs"
      using called_in_later [OF _ r_into_rtranclp [of "uses w", OF use]] by (rule walk_ok_mono)
    then show ?case using fs by (auto simp: entered_def)
  next
    case (4 f n stack wo co st2 result info m st1 g n1 stack1 wo1 co1)
    then obtain fs where "entered st ?k cf fs (Some f) n stack st2" by blast
    from entered_push [OF this 4(3,5-7)] show ?case by blast
  qed
  then show ?thesis by (simp add: map_replicate_const)
qed

lemma walk_fills:
  assumes "Walk w cf caller stack wo co st = Some ((ok, stack', wo', co'), st')"
  shows "(uses w)\<^sup>*\<^sup>* st st'"
proof (rule walk_loop_rule [OF assms [unfolded Walk_def], where I = "\<lambda>_ _ _ _ _ st1. (uses w)\<^sup>*\<^sup>* st st1"
      and Q = "\<lambda>_ _ _ _ st1. (uses w)\<^sup>*\<^sup>* st st1"], goal_cases)
  case (3 f n stack wo co st2 info m st1)
  then show ?case by (meson fills.intros rtranclp.rtrancl_into_rtrancl)
next
  case (4 f n stack wo co st2 result info m st1 g n1 stack1 wo1 co1)
  then have "(uses w)\<^sup>*\<^sup>* st st1" by (meson fills.intros rtranclp.rtrancl_into_rtrancl)
  then show ?case using caller_asks rtranclp_trans by metis
qed simp_all

lemma walk_reports:
  assumes "Walk w cf caller stack [] [] st = Some ((ok, stack', wo', co'), st')" "sfs_ok st"
    and "\<forall>f. cf = Some f \<longrightarrow> frame_module f = None"
  shows "reported st' stack' wo' co'"
proof (rule walk_loop_rule [OF assms(1) [unfolded Walk_def], where Q = "\<lambda>_ stack wo co st. reported st stack wo co"
      and I = "\<lambda>frame n stack wo co st. reported st stack wo co \<and> (\<forall>f. frame = Some f \<longrightarrow> frame_module f = None)"],
      goal_cases)
  case 1
  then show ?case using assms(2,3) by (auto simp: reported_def modules_in_def Clear_def)
next
  case (3 f n stack wo co st info m st1)
  then show ?case using reported_keeps fill_keeps by metis
next
  case (4 f n stack wo co st result info m st1 g n1 stack1 wo1 co1)
  then have pushed: "reported st1 stack1 wo1 co1"
    using reported_push [of st stack wo co f w result info m st1 g] by simp
  show ?case
  proof (intro conjI impI allI)
    fix frame' st2
    assume call: "caller stack1 (n1 < max_frames_scanned w) st1 = Some (frame', st2)"
    show "reported st2 stack1 wo1 co1"
      by (rule reported_keeps [OF pushed fills_keeps [OF caller_asks [OF call]]])
    show "frame_module f2 = None" if "frame' = Some f2" for f2
      using caller_sound [OF call [unfolded that], of "frames_of stack" g] by (simp add: 4(6))
  qed (rule pushed)
qed simp

end

end
