(* ===== verification/Stack_Walk.thy ===== *)
theory Stack_Walk
  imports Stackwalker_AMD64 Walk_Interface
begin

text \<open>
  The walk of an x86-64 stack as an instance of \<open>cpu_walker\<close>: every frame is a caller of the one in front
  of it, recovered by the method that its trust names.  And: a chain of frame pointers is followed to its
  end.
\<close>

section \<open>Callers\<close>

text \<open>The rules that the symbolizer finds for a frame, in the frame's own module\<close>

definition rules_for :: "'s StackFrameSymbolizer \<Rightarrow> amd64_frame \<Rightarrow> CFIFrameInfo option" where
  "rules_for st callee = SFS_FindCFIFrameInfo (frame_info callee, frame_module callee) st"

text \<open>There are none, or they do not give a caller.\<close>

definition rules_fail ::
  "'s Stackwalker \<Rightarrow> MinidumpMemoryRegion \<Rightarrow> 's StackFrameSymbolizer \<Rightarrow> amd64_frame \<Rightarrow> bool"
where
  "rules_fail w mem st callee \<longleftrightarrow>
     (\<forall>rules. rules_for st callee = Some rules \<longrightarrow> (\<exists>ok. GetCallerByCFIFrameInfo w mem callee rules = Returns ok None))"

text \<open>
  A caller of a frame, recovered by the method that its trust names, with the symbolizer as it is then:
  from the rules for the frame; when they fail, from two words at the frame pointer; and when these do not
  give a caller either, from a word of the stack that is an address in a module
\<close>

definition recovered_by ::
  "'s Stackwalker \<Rightarrow> MinidumpMemoryRegion \<Rightarrow> 's StackFrameSymbolizer \<Rightarrow> amd64_frame \<Rightarrow> amd64_frame \<Rightarrow> bool"
where
  "recovered_by w mem st callee caller =
     (let reg = context_of caller; last = context_of callee in
      case trust caller of
        FRAME_TRUST_CFI \<Rightarrow>
          (\<exists>rules. rules_for st callee = Some rules
            \<and> FindCallerRegisters (extract_number w) cfi_register_map (GetMemoryAtAddress mem) rules
              last (context_validity callee) = Returns True (Some (reg, context_validity caller)))
      | FRAME_TRUST_FP \<Rightarrow>
          rules_fail w mem st callee
          \<and> last RBP mod 8 = 0 \<and> GetMemoryAtAddress mem (last RBP) = Some (reg RBP)
          \<and> GetMemoryAtAddress mem (last RBP + 8) = Some (reg RIP) \<and> reg RSP = last RBP + 16
          \<and> last RBP \<le> reg RBP \<and> \<not> is_non_canonical (reg RIP)
      | FRAME_TRUST_SCAN \<Rightarrow>
          rules_fail w mem st callee \<and> GetCallerByFramePointerRecovery mem callee = None
          \<and> (\<exists>location ms. GetMemoryAtAddress mem location = Some (reg RIP) \<and> last RSP \<le> location
            \<and> reg RSP = location + 8 \<and> sw_modules w = Some ms \<and> GetModuleForAddress ms (reg RIP) \<noteq> None)
      | _ \<Rightarrow> False)"

definition plain_frame :: "amd64_frame \<Rightarrow> bool" where
  "plain_frame f \<longleftrightarrow> frame_info f = new_StackFrame \<and> frame_module f = None
     \<and> context_validity f AND (valid_bit RIP OR valid_bit RSP) = valid_bit RIP OR valid_bit RSP"

lemma new_CpuFrame_simps [simp]:
  "frame_info new_CpuFrame = new_StackFrame" "frame_module new_CpuFrame = None"
  by (simp_all add: new_CpuFrame_def)

lemma cfi_caller:
  assumes "GetCallerByCFIFrameInfo w mem callee rules = Returns ok (Some caller)" "rules_for st callee = Some rules"
  shows "trust caller = FRAME_TRUST_CFI \<and> recovered_by w mem st callee caller \<and> plain_frame caller"
proof (cases "FindCallerRegisters (extract_number w) cfi_register_map (GetMemoryAtAddress mem) rules
      (context_of callee) (context_validity callee)")
  case (Returns ok' r)
  then obtain reg validity where r: "r = Some (reg, validity)"
    using assms(1) by (cases r) (auto simp: GetCallerByCFIFrameInfo_def)
  then have "ok'" using Returns
    by (auto simp: FindCallerRegisters_def split: evaluated.splits bool.splits)
  then show ?thesis
    using assms Returns r
    by (auto simp: GetCallerByCFIFrameInfo_def recovered_by_def plain_frame_def Let_def split: if_splits)
next
  case Trap
  then show ?thesis using assms(1) by (simp add: GetCallerByCFIFrameInfo_def)
qed

lemma fp_caller:
  assumes "GetCallerByFramePointerRecovery mem callee = Some caller" "rules_fail w mem st callee"
  shows "trust caller = FRAME_TRUST_FP \<and> recovered_by w mem st callee caller \<and> plain_frame caller"
  using assms
  by (auto simp: GetCallerByFramePointerRecovery_def recovered_by_def plain_frame_def Let_def not_less valid_bit_def
      split: if_splits option.splits del: mod_0_imp_dvd)

lemma scan_caller:
  assumes "GetCallerByStackScan w mem callee is_context st = Some (Some caller, st')" "rules_fail w mem st callee"
    and "GetCallerByFramePointerRecovery mem callee = None"
  shows "trust caller = FRAME_TRUST_SCAN \<and> recovered_by w mem st callee caller \<and> plain_frame caller"
proof -
  obtain found ip st1 where s: "ScanForReturnAddress w mem (context_of callee RSP) is_context st
      = Some (Some (found, ip), st1)"
    using assms(1) by (auto simp: GetCallerByStackScan_def bind_eq_Some_conv split: option.splits)
  have "GetMemoryAtAddress mem found = Some ip \<and> context_of callee RSP \<le> found
      \<and> (\<exists>ms. sw_modules w = Some ms \<and> GetModuleForAddress ms ip \<noteq> None)"
    using scan_loop_found [OF s [unfolded ScanForReturnAddress_def Let_def]] by blast
  then show ?thesis
    using assms s
    by (auto simp: GetCallerByStackScan_def recovered_by_def plain_frame_def valid_bit_def Let_def split: option.splits)
qed

lemma find_caller_cases:
  assumes "find_caller w mem callee is_context allowed st = Some (Some caller, st')"
  shows "recovered_by w mem st callee caller \<and> plain_frame caller
    \<and> (allowed \<or> trust caller \<noteq> FRAME_TRUST_SCAN)"
proof -
  consider (cfi) rules ok where "rules_for st callee = Some rules"
      "GetCallerByCFIFrameInfo w mem callee rules = Returns ok (Some caller)"
    | (fp) "rules_fail w mem st callee" "GetCallerByFramePointerRecovery mem callee = Some caller"
    | (scan) "allowed" "rules_fail w mem st callee" "GetCallerByFramePointerRecovery mem callee = None"
      "GetCallerByStackScan w mem callee is_context st = Some (Some caller, st')"
    using assms
    by (auto simp: find_caller_def rules_for_def rules_fail_def Let_def bind_eq_Some_conv
        split: option.splits evaluated.splits if_splits)
  then show ?thesis
  proof cases
    case cfi
    then show ?thesis using cfi_caller [OF cfi(2,1)] by simp
  next
    case fp
    then show ?thesis using fp_caller [OF fp(2,1)] by simp
  next
    case scan
    then show ?thesis using scan_caller [OF scan(4,2,3)] by simp
  qed
qed

section \<open>The walk\<close>

text \<open>
  A caller on the stack: it was recovered as above, and on a Native Client system cut to 32 bits; its
  stack pointer is not below the one of its callee, and its instruction is the one in front of its return
  address.
\<close>

definition caller_frame :: "'s Stackwalker \<Rightarrow> 's StackFrameSymbolizer \<Rightarrow> amd64_frame \<Rightarrow> amd64_frame \<Rightarrow> bool" where
  "caller_frame w st callee caller \<longleftrightarrow>
     (\<exists>mem f. sw_memory w = Some mem \<and> recovered_by w mem st callee f
       \<and> trust caller = trust f \<and> context_validity caller = context_validity f
       \<and> context_of caller = context_of (if os_short w = ''nacl'' then nacl_mask f else f))
     \<and> context_validity caller AND (valid_bit RIP OR valid_bit RSP) = valid_bit RIP OR valid_bit RSP
     \<and> context_of caller RIP \<noteq> 0 \<and> context_of callee RSP \<le> context_of caller RSP
     \<and> instruction (frame_info caller) = context_of caller RIP - 1"

lemma recovered_trust: "recovered_by w mem st callee caller \<Longrightarrow> trust caller \<in> {FRAME_TRUST_CFI, FRAME_TRUST_FP, FRAME_TRUST_SCAN}"
  by (auto simp: recovered_by_def Let_def split: FrameTrust.splits)

lemma caller_frame_filled:
  assumes "caller_frame w st callee f" "symbolized f g"
  shows "caller_frame w st callee g"
proof -
  have g: "trust g = trust f" "context_of g = context_of f" "context_validity g = context_validity f"
    "instruction (frame_info g) = instruction (frame_info f)"
    using assms(2) by (auto simp: symbolized_def)
  then show ?thesis using assms(1) by (simp add: caller_frame_def)
qed

lemma GetCallerFrame_caller:
  assumes "AMD64_GetCallerFrame w stack allowed st = Some (Some caller, st')"
    and "frames_of stack = fs @ [Some callee]"
  shows "caller_frame w st callee caller \<and> frame_module caller = None \<and> (allowed \<or> trust caller \<noteq> FRAME_TRUST_SCAN)"
proof -
  obtain mem where mem: "sw_memory w = Some mem"
    using assms(1) by (auto simp: AMD64_GetCallerFrame_def split: option.splits)
  obtain new where new:
    "find_caller w mem callee (length (frames_of stack) = 1) allowed st = Some (Some new, st')"
    "\<not> IsEndOfStack (context_of caller RIP) (context_of caller RSP) (context_of callee RSP)"
    "caller = (let f = (if os_short w = ''nacl'' then nacl_mask new else new) in
      f\<lparr>frame_info := (frame_info f)\<lparr>instruction := context_of f RIP - 1\<rparr>\<rparr>)"
    using assms mem
    by (fastforce simp: AMD64_GetCallerFrame_def bind_eq_Some_conv Let_def split: option.splits if_splits)
  note rec = find_caller_cases [OF new(1)]
  have "trust caller = trust new" "frame_module caller = frame_module new"
    "context_validity caller = context_validity new"
    "instruction (frame_info caller) = context_of caller RIP - 1"
    "context_of caller = context_of (if os_short w = ''nacl'' then nacl_mask new else new)"
    by (simp_all add: new(3) Let_def nacl_mask_def)
  then show ?thesis
    using rec new(2) mem by (auto simp: caller_frame_def plain_frame_def IsEndOfStack_def not_less)
qed

lemma caller_fills:
  assumes "AMD64_GetCallerFrame w stack allowed st = Some (frame, st')"
  shows "(uses w)\<^sup>*\<^sup>* st st'"
proof -
  have "(uses w)\<^sup>*\<^sup>* st st1"
    if "find_caller w mem f is_context allowed st = Some (new, st1)" for mem f is_context new st1
    using that
    by (auto simp: find_caller_def GetCallerByStackScan_def ScanForReturnAddress_def Let_def bind_eq_Some_conv
        split: if_splits option.splits dest: scan_fills)
  then show ?thesis
    using assms
    by (fastforce simp: AMD64_GetCallerFrame_def bind_eq_Some_conv Let_def split: option.splits if_splits)
qed

interpretation amd64: cpu_walker w "AMD64_GetCallerFrame w" "caller_frame w" for w :: "'s Stackwalker"
proof
  show "caller_frame w st callee f \<and> frame_module f = None \<and> (allowed \<or> trust f \<noteq> FRAME_TRUST_SCAN)"
    if "AMD64_GetCallerFrame w stack allowed st = Some (Some f, st')" "frames_of stack = fs @ [Some callee]"
    for stack allowed st f st' fs callee
    by (rule GetCallerFrame_caller [OF that])
  show "trust f \<notin> {FRAME_TRUST_NONE, FRAME_TRUST_CFI_SCAN, FRAME_TRUST_CONTEXT}" if "caller_frame w st callee f" for st callee f
    using that recovered_trust by (fastforce simp: caller_frame_def)
qed (rule caller_frame_filled caller_fills; assumption)+

section \<open>Chains of frame pointers\<close>

text \<open>
  A chain: at each frame pointer the one of the caller, and behind it the return address.  It ends where
  no caller can be recovered.
\<close>

fun fp_chain :: "MinidumpMemoryRegion \<Rightarrow> u64 \<Rightarrow> (u64 \<times> u64) list \<Rightarrow> bool" where
  "fp_chain mem rbp [] \<longleftrightarrow>
     (GetMemoryAtAddress mem (rbp + 8) \<noteq> None \<longrightarrow> GetMemoryAtAddress mem (rbp + 8) = Some 0
       \<or> (\<exists>up. GetMemoryAtAddress mem rbp = Some up \<and> up < rbp))"
| "fp_chain mem rbp ((rip, up) # fs) \<longleftrightarrow>
     rbp mod 8 = 0 \<and> GetMemoryAtAddress mem (rbp + 8) = Some rip \<and> GetMemoryAtAddress mem rbp = Some up
     \<and> rip \<noteq> 0 \<and> \<not> is_non_canonical rip \<and> rbp \<le> up \<and> GetMemoryAtAddress mem up \<noteq> None \<and> fp_chain mem up fs"

text \<open>The frames of the callers: how they are found, and their instruction, stack and frame pointers\<close>

fun fp_callers :: "u64 \<Rightarrow> (u64 \<times> u64) list \<Rightarrow> (FrameTrust \<times> u64 \<times> u64 \<times> u64) list" where
  "fp_callers rbp [] = []"
| "fp_callers rbp ((rip, up) # fs) = (FRAME_TRUST_FP, rip, rbp + 16, up) # fp_callers up fs"

definition frame_view :: "amd64_frame \<Rightarrow> FrameTrust \<times> u64 \<times> u64 \<times> u64" where
  "frame_view f = (trust f, context_of f RIP, context_of f RSP, context_of f RBP)"

lemma fp_end:
  assumes "fp_chain mem (context_of f RBP) []"
  shows "GetCallerByFramePointerRecovery mem f = None"
  using assms
  by (auto simp: GetCallerByFramePointerRecovery_def IsEndOfStack_def Let_def split: option.splits)

lemma fp_step:
  assumes "fp_chain mem (context_of f RBP) ((rip, up) # fs)" "context_of f RSP \<le> context_of f RBP + 16"
  shows "\<exists>g. GetCallerByFramePointerRecovery mem f = Some g \<and> trust g = FRAME_TRUST_FP
    \<and> context_of g RIP = rip \<and> context_of g RSP = context_of f RBP + 16 \<and> context_of g RBP = up
    \<and> (fs \<noteq> [] \<longrightarrow> context_of f RBP + 16 \<le> up + 16)"
proof -
  have chain: "context_of f RBP \<le> up" "GetMemoryAtAddress mem up \<noteq> None" "fp_chain mem up fs"
    using assms(1) by simp_all
  have "context_of f RBP + 16 \<le> up + 16" if more: "fs \<noteq> []"
  proof -
    obtain v u where "GetMemoryAtAddress mem up = Some v" "GetMemoryAtAddress mem (up + 8) = Some u"
      using chain(2,3) more by (cases fs) auto
    note ends = this [THEN GetMemory_end]
    have "unat (up + 8) = unat up + 8" using ends(1) by (simp add: unat_word_ariths)
    then have "unat (up + 16) = unat up + 16" using ends(2) by (simp add: unat_word_ariths)
    moreover have "unat (context_of f RBP) \<le> unat up" using chain(1) by (simp add: word_le_nat_alt)
    ultimately show ?thesis by (simp add: word_le_nat_alt unat_word_ariths)
  qed
  then show ?thesis
    using assms by (auto simp: GetCallerByFramePointerRecovery_def IsEndOfStack_def Let_def del: mod_0_imp_dvd)
qed

lemma scan_loop_without_modules:
  assumes "sw_modules w = None"
  shows "scan_loop w mem location last_location st = Some (None, st)"
  using assms
proof (induction w mem location last_location st rule: scan_loop.induct)
  case (1 w mem location last_location st)
  have none: "seems_return_address w ip st = Some (False, st)" for ip
    using "1.prems" by (simp add: seems_return_address_def)
  show ?case
  proof (cases "GetMemoryAtAddress mem location")
    case None
    then show ?thesis by (simp add: scan_loop.simps [of w mem location])
  next
    case (Some ip)
    then show ?thesis
      using "1.IH" [OF _ Some none refl _ "1.prems"] none by (simp add: scan_loop.simps [of w mem location])
  qed
qed

lemma find_caller_fp:
  assumes "sfs_resolver st = None" "allowed \<longrightarrow> sw_modules w = None"
  shows "find_caller w mem f is_context allowed st = Some (GetCallerByFramePointerRecovery mem f, st)"
  using assms
  by (auto simp: find_caller_def SFS_FindCFIFrameInfo_def GetCallerByStackScan_def ScanForReturnAddress_def
      scan_loop_without_modules Let_def)

lemma fp_caller_frame:
  assumes "sw_memory w = Some mem" "os_short w \<noteq> ''nacl''" "sfs_resolver st = None"
    and "allowed \<longrightarrow> sw_modules w = None" "frames_of stack = fs @ [Some f]"
  shows "AMD64_GetCallerFrame w stack allowed st =
    Some (case GetCallerByFramePointerRecovery mem f of
        None \<Rightarrow> (None, st)
      | Some g \<Rightarrow>
          if IsEndOfStack (context_of g RIP) (context_of g RSP) (context_of f RSP) then (None, st)
          else (Some (g\<lparr>frame_info := (frame_info g)\<lparr>instruction := context_of g RIP - 1\<rparr>\<rparr>), st))"
  using assms by (simp add: AMD64_GetCallerFrame_def find_caller_fp split: option.split)

lemma fp_walk:
  assumes "sw_memory w = Some mem" "os_short w \<noteq> ''nacl''" "sfs_resolver st = None"
    and "sw_modules w = None \<or> max_frames_scanned w = 0"
    and "fp_chain mem (context_of f RBP) fs" "fs \<noteq> [] \<longrightarrow> context_of f RSP \<le> context_of f RBP + 16"
    and "length (frames_of stack) + Suc (length fs) \<le> unat (max_frames w)"
  shows "\<exists>gs without'. walk_loop w (AMD64_GetCallerFrame w) (Some f) n stack without corrupt st
      = Some ((True, stack\<lparr>frames_of := frames_of stack @ map Some gs\<rparr>, without', corrupt), st)
    \<and> map frame_view gs = frame_view f # fp_callers (context_of f RBP) fs"
  using assms(5-)
proof (induction fs arbitrary: f n stack without)
  case Nil
  obtain m where fill: "SFS_FillSourceLineInfo (sw_supplier w) (sw_modules w) (unloaded_modules w)
      (frame_info f, frame_module f) st = Some (kError, (frame_info f, m), st)"
    using fill_without_resolver [OF assms(3)] by blast
  define g where "g = f\<lparr>frame_info := frame_info f, frame_module := m\<rparr>"
  have g: "fp_chain mem (context_of g RBP) []" "frame_view g = frame_view f"
    using Nil by (simp_all add: g_def frame_view_def)
  have "AMD64_GetCallerFrame w (stack\<lparr>frames_of := frames_of stack @ [Some g]\<rparr>) allowed st = Some (None, st)"
    if "allowed \<longrightarrow> sw_modules w = None" for allowed
    using fp_caller_frame [OF assms(1-3) that, of _ "frames_of stack" g] fp_end [OF g(1)] by simp
  moreover have "n' < max_frames_scanned w \<longrightarrow> sw_modules w = None" for n'
    using assms(4) by auto
  ultimately show ?case
    unfolding walk_loop_push [OF fill _ g_def refl refl refl refl, simplified]
    using Nil.prems(3) g(2) by (intro exI [of _ "[g]"]) (simp add: walk_loop.simps)
next
  case (Cons r fs)
  obtain rip up where r: "r = (rip, up)" by (cases r)
  obtain m where fill: "SFS_FillSourceLineInfo (sw_supplier w) (sw_modules w) (unloaded_modules w)
      (frame_info f, frame_module f) st = Some (kError, (frame_info f, m), st)"
    using fill_without_resolver [OF assms(3)] by blast
  define g where "g = f\<lparr>frame_info := frame_info f, frame_module := m\<rparr>"
  have g: "fp_chain mem (context_of g RBP) ((rip, up) # fs)" "context_of g RSP \<le> context_of g RBP + 16"
    "frame_view g = frame_view f" "context_of g RBP = context_of f RBP"
    using Cons.prems by (simp_all add: g_def frame_view_def r)
  obtain h where h: "GetCallerByFramePointerRecovery mem g = Some h" "trust h = FRAME_TRUST_FP"
    "context_of h RIP = rip" "context_of h RSP = context_of g RBP + 16" "context_of h RBP = up"
    "fs \<noteq> [] \<longrightarrow> context_of g RBP + 16 \<le> up + 16"
    using fp_step [OF g(1,2)] by blast
  define h' where "h' = h\<lparr>frame_info := (frame_info h)\<lparr>instruction := context_of h RIP - 1\<rparr>\<rparr>"
  have "\<not> IsEndOfStack (context_of h RIP) (context_of h RSP) (context_of g RSP)"
    using g(1,2) by (simp add: IsEndOfStack_def h(3,4) not_less)
  then have call: "AMD64_GetCallerFrame w (stack\<lparr>frames_of := frames_of stack @ [Some g]\<rparr>) allowed st = Some (Some h', st)"
    if "allowed \<longrightarrow> sw_modules w = None" for allowed
    using fp_caller_frame [OF assms(1-3) that, of _ "frames_of stack" g] h(1) by (simp add: h'_def)
  have allowed: "n' < max_frames_scanned w \<longrightarrow> sw_modules w = None" for n'
    using assms(4) by auto
  define n' where "n' = (if trust g \<in> {FRAME_TRUST_NONE, FRAME_TRUST_SCAN, FRAME_TRUST_CFI_SCAN} then n + 1 else n)"
  define wo where "wo = InsertSpecialAttentionModule m without"
  have step: "walk_loop w (AMD64_GetCallerFrame w) (Some f) n stack without corrupt st =
      walk_loop w (AMD64_GetCallerFrame w) (Some h') n' (stack\<lparr>frames_of := frames_of stack @ [Some g]\<rparr>) wo corrupt st"
    unfolding walk_loop_push [OF fill _ g_def n'_def refl refl refl, simplified]
    using Cons.prems(3) call [OF allowed] by (simp add: wo_def)
  let ?stack = "stack\<lparr>frames_of := frames_of stack @ [Some g]\<rparr>"
  have "\<exists>gs wo'. walk_loop w (AMD64_GetCallerFrame w) (Some h') n' ?stack wo corrupt st
      = Some ((True, ?stack\<lparr>frames_of := frames_of ?stack @ map Some gs\<rparr>, wo', corrupt), st)
    \<and> map frame_view gs = frame_view h' # fp_callers (context_of h' RBP) fs"
    using g(1) h(3-6) Cons.prems(3) by (intro Cons.IH) (simp_all add: h'_def)
  then obtain gs wo' where "walk_loop w (AMD64_GetCallerFrame w) (Some h') n' ?stack wo corrupt st
      = Some ((True, ?stack\<lparr>frames_of := frames_of ?stack @ map Some gs\<rparr>, wo', corrupt), st)"
    "map frame_view gs = frame_view h' # fp_callers (context_of h' RBP) fs"
    by (elim exE conjE) (rule that)
  moreover have "frame_view h' = (FRAME_TRUST_FP, rip, context_of f RBP + 16, up)" "context_of h' RBP = up"
    using h by (simp_all add: frame_view_def h'_def g(4))
  ultimately show ?case
    using step g(3) by (intro exI [of _ "g # gs"] exI [of _ wo']) (simp add: r)
qed

lemma fp_walk_new:
  assumes "sw_memory w = Some mem" "os_short w \<noteq> ''nacl''" "sfs_resolver st = None"
    and "sw_modules w = None \<or> max_frames_scanned w = 0"
    and "fp_chain mem (c RBP) chain" "chain \<noteq> [] \<longrightarrow> c RSP \<le> c RBP + 16" "length chain < unat (max_frames w)"
  shows "\<exists>fs without'. AMD64_Walk w (Some c) new_CallStack without corrupt st
      = Some ((True, \<lparr>frames_of = map Some fs, stack_tid = 0\<rparr>, without', corrupt), st)
    \<and> map frame_view fs = (FRAME_TRUST_CONTEXT, c RIP, c RSP, c RBP) # fp_callers (c RBP) chain"
proof -
  let ?f = "new_CpuFrame\<lparr>context_of := c, context_validity := CONTEXT_VALID_ALL,
      trust := FRAME_TRUST_CONTEXT, frame_info := new_StackFrame\<lparr>instruction := c RIP\<rparr>\<rparr>"
  have stack: "Clear new_CallStack = \<lparr>frames_of = [], stack_tid = 0\<rparr>"
    by (simp add: Clear_def new_CallStack_def)
  show ?thesis
    using fp_walk [OF assms(1-4), of ?f chain "Clear new_CallStack" 0 without corrupt] assms(5-)
    by (simp add: AMD64_Walk_def Walk_def AMD64_GetContextFrame_def stack frame_view_def [of ?f])
qed

section \<open>Frames recovered by rules\<close>

lemma amd64_registers_ok: "registers_ok cfi_register_map"
  by (simp add: registers_ok_def cfi_register_map_def amd64_entry_def valid_bit_def)

end
