(* ===== verification/Stack_Walk_Contracts.thy ===== *)
theory Stack_Walk_Contracts
  imports Stack_Walk
begin

text \<open>
  The contracts of the walk of an x86-64 stack, and the walk of a small stack, which shows that each can be
  met.
\<close>

section \<open>Contracts\<close>

text \<open>
  C12. What a walk leaves in the stack, whatever was in it: the pointers to the old frames, which
  \<open>CallStack::Clear\<close> has deleted, and behind them the frames of the walk.  The first of these is the one of
  the context; every other one is the caller of the frame in front of it, recovered (\<open>recovered_by\<close>) by the
  method its trust names: from the very rules that the symbolizer, as it was at that point of the walk,
  found for that frame in the frame's own module; or, these giving no caller, from two words at the frame
  pointer; or, these giving none either, from a word of the stack that is an address in a module.  Its
  stack pointer is not below that of its callee; on a Native Client system it is what was so recovered,
  cut to 32 bits.  There are at most \<open>max_frames_\<close> + 1 frames, at most \<open>max_frames_scanned_\<close> of them scanned,
  and each carries its module.
\<close>
theorem stack_walk_sound:
  assumes "AMD64_Walk w cpu stack without corrupt st = Some ((ok, stack', without', corrupt'), st')"
  shows "\<exists>fs. frames_of stack' = map (\<lambda>_. None) (frames_of stack) @ map Some fs
    \<and> (fs = [] \<longrightarrow> cpu = None \<or> \<not> ok)
    \<and> (fs \<noteq> [] \<longrightarrow> trust (hd fs) = FRAME_TRUST_CONTEXT \<and> cpu = Some (context_of (hd fs))
        \<and> instruction (frame_info (hd fs)) = context_of (hd fs) RIP)
    \<and> successively (called_in w (caller_frame w) st st') fs
    \<and> length fs \<le> Suc (unat (max_frames w)) \<and> scans fs \<le> unat (max_frames_scanned w)
    \<and> (\<forall>f\<in>set fs. frame_module f
        = module_of_frame (sw_modules w) (unloaded_modules w) (instruction (frame_info f)))"
proof -
  have "\<forall>f. AMD64_GetContextFrame cpu = Some f \<longrightarrow> trust f = FRAME_TRUST_CONTEXT \<and> frame_module f = None"
    by (auto simp: AMD64_GetContextFrame_def)
  then obtain fs where fs: "frames_of stack' = map (\<lambda>_. None) (frames_of stack) @ map Some fs"
    "walk_ok w (called_in w (caller_frame w) st st') (AMD64_GetContextFrame cpu) fs" "fs = [] \<longrightarrow> AMD64_GetContextFrame cpu = None \<or> \<not> ok"
    using amd64.frames_of_walk [OF assms [unfolded AMD64_Walk_def]] by blast
  then show ?thesis
    by (intro exI [of _ fs]) (auto simp: walk_ok_def AMD64_GetContextFrame_def symbolized_def)
qed

text \<open>
  C13. A stack whose frames are linked by frame pointers is walked to its end: without a resolver, and
  without a scan (because there are no modules, or it is not allowed), the walk returns the frame of the
  context and then the callers of the chain, in order, each with its return address, the stack pointer
  above it and the saved frame pointer; and the symbolizer is as it was.
\<close>
theorem frame_pointers_walked:
  assumes "sw_memory w = Some mem" "os_short w \<noteq> ''nacl''" "sfs_resolver st = None"
    and "sw_modules w = None \<or> max_frames_scanned w = 0"
    and "fp_chain mem (c RBP) chain" "chain \<noteq> [] \<longrightarrow> c RSP \<le> c RBP + 16" "length chain < unat (max_frames w)"
  shows "\<exists>fs without'. AMD64_Walk w (Some c) new_CallStack without corrupt st
      = Some ((True, \<lparr>frames_of = map Some fs, stack_tid = 0\<rparr>, without', corrupt), st)
    \<and> map frame_view fs = (FRAME_TRUST_CONTEXT, c RIP, c RSP, c RBP) # fp_callers (c RBP) chain"
  by (rule fp_walk_new [OF assms])


text \<open>
  C14. A frame whose module has CFI rules, on a system other than Native Client (where the caller is then
  cut to 32 bits): when the rules stand for expressions with values in the frame, and numbers are extracted
  from a stream as the standard says (\<open>extracts\<close>), \<open>GetCallerFrame\<close> gives the caller they describe, with no
  need of a scan.  Its instruction pointer is the
  return address, its stack pointer the call frame address, a register with a rule has the value of the
  rule, a callee-saved register without one is as in the callee, and exactly these registers are valid.
\<close>
theorem cfi_caller_recovered:
  assumes "sw_memory w = Some mem" "os_short w \<noteq> ''nacl''" "extracts (extract_number w)"
    and "frames_of stack = fs @ [Some callee]"
    and "SFS_FindCFIFrameInfo (frame_info callee, frame_module callee) st = Some (cfi_rules ecfa era regs)"
    and "expr_ok ecfa" "expr_ok era" "fst ` set regs \<inter> {''$rsp'', ''$rip''} = {}"
    and "registers = callee_map cfi_register_map (context_of callee) (context_validity callee)"
    and "eval (Some (GetMemoryAtAddress mem)) registers ecfa = Some cfa"
    and "eval (Some (GetMemoryAtAddress mem)) (registers(''.cfa'' \<mapsto> cfa)) era = Some ra"
    and "\<forall>(n, e)\<in>set regs. expr_ok e
      \<and> eval (Some (GetMemoryAtAddress mem)) (registers(''.cfa'' \<mapsto> cfa)) e = Some (val n)"
    and "ra \<noteq> 0" "context_of callee RSP \<le> cfa"
  shows "\<exists>caller. AMD64_GetCallerFrame w stack allowed st = Some (Some caller, st)
    \<and> trust caller = FRAME_TRUST_CFI \<and> instruction (frame_info caller) = ra - 1
    \<and> context_of caller RIP = ra \<and> context_of caller RSP = cfa
    \<and> (\<forall>r\<in>set cfi_register_map. context_member r \<notin> {RIP, RSP} \<longrightarrow>
        (let ruled = reg_name r \<in> fst ` set regs;
             kept = callee_saves r \<and> context_validity callee AND validity_flag r \<noteq> 0 in
         (context_validity caller AND validity_flag r \<noteq> 0 \<longleftrightarrow> ruled \<or> kept)
         \<and> (ruled \<longrightarrow> context_of caller (context_member r) = val (reg_name r))
         \<and> (\<not> ruled \<and> kept \<longrightarrow> context_of caller (context_member r) = context_of callee (context_member r))))"
proof -
  let ?rec = "recovered cfa ra (fst ` set regs) val"
  obtain reg validity where c: "caller_context cfi_register_map (context_of callee) (context_validity callee) ?rec
      = (reg, validity)" by fastforce
  note values_of = assms(3) amd64_registers_ok assms(6,7,9-12) c
  note run = cfi_walker_values(1) [OF values_of] and vals = cfi_walker_values(2) [OF values_of]
  define caller where "caller = new_CpuFrame\<lparr>context_of := reg, context_validity := validity, trust := FRAME_TRUST_CFI,
      frame_info := new_StackFrame\<lparr>instruction := reg RIP - 1\<rparr>\<rparr>"
  have names: "''$rip'' \<notin> fst ` set regs" "''$rsp'' \<notin> fst ` set regs" using assms(8) by auto
  have "amd64_entry ''$rip'' (Some ''.ra'') False RIP \<in> set cfi_register_map"
    "amd64_entry ''$rsp'' (Some ''.cfa'') False RSP \<in> set cfi_register_map"
    by (simp_all add: cfi_register_map_def)
  from this [THEN vals]
  have ends: "reg RIP = ra" "reg RSP = cfa" "validity AND valid_bit RIP = valid_bit RIP" "validity AND valid_bit RSP = valid_bit RSP"
    using names by (simp_all add: amd64_entry_def caller_value_def recovered_def)
  then have "validity AND (valid_bit RIP OR valid_bit RSP) = valid_bit RIP OR valid_bit RSP"
    by (simp add: word_ao_dist2)
  then have "GetCallerByCFIFrameInfo w mem callee (cfi_rules ecfa era regs)
      = Returns True (Some (new_CpuFrame\<lparr>context_of := reg, context_validity := validity, trust := FRAME_TRUST_CFI\<rparr>))"
    by (simp add: GetCallerByCFIFrameInfo_def run Let_def)
  then have "AMD64_GetCallerFrame w stack allowed st = Some (Some caller, st)"
    using assms(1,2,4,5,13,14) ends
    by (simp add: AMD64_GetCallerFrame_def find_caller_def Let_def IsEndOfStack_def caller_def not_less)
  moreover have "let ruled = reg_name r \<in> fst ` set regs;
             kept = callee_saves r \<and> context_validity callee AND validity_flag r \<noteq> 0 in
         (validity AND validity_flag r \<noteq> 0 \<longleftrightarrow> ruled \<or> kept)
         \<and> (ruled \<longrightarrow> reg (context_member r) = val (reg_name r))
         \<and> (\<not> ruled \<and> kept \<longrightarrow> reg (context_member r) = context_of callee (context_member r))"
    if r: "r \<in> set cfi_register_map" "context_member r \<notin> {RIP, RSP}" for r
  proof -
    have "alternate_name r = None \<and> reg_name r \<notin> {''.cfa'', ''.ra''} \<and> validity_flag r \<noteq> 0"
      using r by (auto simp: cfi_register_map_def amd64_entry_def valid_bit_def)
    then show ?thesis
      using vals [OF r(1)] by (auto simp: caller_value_def recovered_def Let_def split: if_splits)
  qed
  ultimately show ?thesis using ends(1,2) by (intro exI [of _ caller]) (simp add: caller_def)
qed

section \<open>A stack\<close>

definition chain_memory :: MinidumpMemoryRegion where
  "chain_memory = \<lparr>region_valid = True, start_of_memory_range = 0x7000,
     region_bytes = [0x10, 0x70, 0, 0, 0, 0, 0, 0, 0x34, 0x12, 0x40, 0, 0, 0, 0, 0] @ replicate 16 0,
     region_readable = True, region_swap = False\<rparr>"

lemma chain_memory_words:
  "GetMemoryAtAddress chain_memory 0x7000 = Some 0x7010" "GetMemoryAtAddress chain_memory 0x7008 = Some 0x401234"
  "GetMemoryAtAddress chain_memory 0x7010 = Some 0" "GetMemoryAtAddress chain_memory 0x7018 = Some 0"
  by code_simp+

definition no_symbols :: "unit SymbolSupplier" where
  "no_symbols = \<lparr>GetCStringSymbolData = (\<lambda>_ s. (NOT_FOUND, s)), FreeSymbolData = (\<lambda>_ s. s)\<rparr>"

definition sample_walker :: "unit Stackwalker" where
  "sample_walker = \<lparr>os_short = ''linux'', sw_memory = Some chain_memory, sw_modules = None, unloaded_modules = None,
     max_frames = 1024, max_frames_scanned = 1024, sw_supplier = no_symbols, extract_number = extract_unsigned\<rparr>"

definition sample_cpu :: "amd64 \<Rightarrow> u64" where
  "sample_cpu r = (case r of RIP \<Rightarrow> 0x401004 | RSP \<Rightarrow> 0x7000 | _ \<Rightarrow> 0x7000)"

definition cfi_module :: Module where
  "cfi_module = new_Module\<lparr>cfi_initial_rules :=
     new_RangeMap\<lparr>rm_map := [(0x103F, mk_Range 0x1000 0 ''.cfa: $rsp 16 + .ra: .cfa 8 - ^ $rbp: .cfa 16 - ^'')]\<rparr>\<rparr>"

definition module_a :: CodeModule where
  "module_a = \<lparr>base_address = 0x400000, module_size = 0x10000, shrink_down_delta = 0, code_file = ''a'',
     code_ident = [], debug_file = ''a'', debug_identifier = [], version = [], is_unloaded = False\<rparr>"

definition cfi_symbolizer :: "unit StackFrameSymbolizer" where
  "cfi_symbolizer = \<lparr>sfs_supplier = None,
     sfs_resolver = Some \<lparr>modules = [(''a'', cfi_module)], corrupt_modules = {}\<rparr>, no_symbol_modules = {}\<rparr>"

lemma cfi_symbolizer_rules:
  "SFS_FindCFIFrameInfo (frame_at 0x401004, Some module_a) cfi_symbolizer
    = Some (cfi_rules (Bin BINARY_OP_ADD (Var ''$rsp'') (Lit 16)) (Deref (Bin BINARY_OP_SUBTRACT (Var ''.cfa'') (Lit (8 :: 64 word))))
        [(''$rbp'', Deref (Bin BINARY_OP_SUBTRACT (Var ''.cfa'') (Lit 16)))])"
  by code_simp

definition bare_symbolizer :: "unit StackFrameSymbolizer" where
  "bare_symbolizer = \<lparr>sfs_supplier = None, sfs_resolver = None, no_symbol_modules = {}\<rparr>"

lemma sample_chain: "fp_chain chain_memory 0x7000 [(0x401234, 0x7010)]"
  using chain_memory_words by (simp add: is_non_canonical_def)

lemma sample_walk:
  "\<exists>fs without'. AMD64_Walk sample_walker (Some sample_cpu) new_CallStack [] [] bare_symbolizer
      = Some ((True, \<lparr>frames_of = map Some fs, stack_tid = 0\<rparr>, without', []), bare_symbolizer)
    \<and> map frame_view fs = [(FRAME_TRUST_CONTEXT, 0x401004, 0x7000, 0x7000), (FRAME_TRUST_FP, 0x401234, 0x7010, 0x7010)]"
  using fp_walk_new [of sample_walker chain_memory bare_symbolizer sample_cpu "[(0x401234, 0x7010)]" "[]" "[]"] sample_chain
  by (simp add: sample_walker_def bare_symbolizer_def sample_cpu_def)

theorem stack_walk_sound_witness:
  "\<exists>fs. scans fs = 0 \<and> length fs = 2
    \<and> successively (called_in sample_walker (caller_frame sample_walker) bare_symbolizer bare_symbolizer) fs"
proof -
  obtain gs without' where walk: "AMD64_Walk sample_walker (Some sample_cpu) new_CallStack [] [] bare_symbolizer
      = Some ((True, \<lparr>frames_of = map Some gs, stack_tid = 0\<rparr>, without', []), bare_symbolizer)"
    "map frame_view gs = [(FRAME_TRUST_CONTEXT, 0x401004, 0x7000, 0x7000), (FRAME_TRUST_FP, 0x401234, 0x7010, 0x7010)]"
    using sample_walk by (elim exE conjE) (rule that)
  have "scans gs = 0" "length gs = 2"
    using walk(2) by (auto simp: scans_def frame_view_def)
  moreover have "successively (called_in sample_walker (caller_frame sample_walker) bare_symbolizer bare_symbolizer) gs"
    using stack_walk_sound [OF walk(1)]
    by (auto simp: new_CallStack_def Clear_def inj_map_eq_map)
  ultimately show ?thesis by blast
qed

theorem frame_pointers_walked_witness:
  "\<exists>fs without'. AMD64_Walk sample_walker (Some sample_cpu) new_CallStack [] [] bare_symbolizer
      = Some ((True, \<lparr>frames_of = map Some fs, stack_tid = 0\<rparr>, without', []), bare_symbolizer)
    \<and> map frame_view fs = [(FRAME_TRUST_CONTEXT, 0x401004, 0x7000, 0x7000), (FRAME_TRUST_FP, 0x401234, 0x7010, 0x7010)]"
  using frame_pointers_walked [of sample_walker chain_memory bare_symbolizer sample_cpu "[(0x401234, 0x7010)]" "[]" "[]"] sample_chain
  by (simp add: sample_walker_def bare_symbolizer_def sample_cpu_def)

definition cfi_callee :: amd64_frame where
  "cfi_callee = new_CpuFrame\<lparr>frame_info := frame_at 0x401004, frame_module := Some module_a, trust := FRAME_TRUST_CONTEXT,
     context_of := sample_cpu, context_validity := CONTEXT_VALID_ALL\<rparr>"

theorem cfi_caller_recovered_witness:
  "\<exists>caller. AMD64_GetCallerFrame sample_walker \<lparr>frames_of = [Some cfi_callee], stack_tid = 0\<rparr> False cfi_symbolizer
      = Some (Some caller, cfi_symbolizer)
    \<and> trust caller = FRAME_TRUST_CFI \<and> context_of caller RIP = 0x401234 \<and> context_of caller RSP = 0x7010
    \<and> context_of caller RBP = 0x7010 \<and> context_of caller R12 = 0x7000 \<and> context_validity caller AND valid_bit RAX = 0"
proof -
  let ?regs = "callee_map cfi_register_map (context_of cfi_callee) (context_validity cfi_callee)"
  let ?cfa = "Bin BINARY_OP_ADD (Var ''$rsp'') (Lit (16 :: 64 word))"
  let ?ra = "Deref (Bin BINARY_OP_SUBTRACT (Var ''.cfa'') (Lit (8 :: 64 word)))"
  let ?rbp = "Deref (Bin BINARY_OP_SUBTRACT (Var ''.cfa'') (Lit (16 :: 64 word)))"
  have evals: "eval (Some (GetMemoryAtAddress chain_memory)) ?regs ?cfa = Some 0x7010"
    "eval (Some (GetMemoryAtAddress chain_memory)) (?regs(''.cfa'' \<mapsto> 0x7010)) ?ra = Some 0x401234"
    "eval (Some (GetMemoryAtAddress chain_memory)) (?regs(''.cfa'' \<mapsto> 0x7010)) ?rbp = Some 0x7010"
    by code_simp+
  have exprs: "expr_ok ?cfa" "expr_ok ?ra" "expr_ok ?rbp" by code_simp+
  have w: "sw_memory sample_walker = Some chain_memory" "os_short sample_walker \<noteq> ''nacl''"
    "extracts (extract_number sample_walker)" "frames_of \<lparr>frames_of = [Some cfi_callee], stack_tid = 0\<rparr> = [] @ [Some cfi_callee]"
    "SFS_FindCFIFrameInfo (frame_info cfi_callee, frame_module cfi_callee) cfi_symbolizer
      = Some (cfi_rules ?cfa ?ra [(''$rbp'', ?rbp)])"
    using cfi_symbolizer_rules by (simp_all add: sample_walker_def extract_unsigned_extracts cfi_callee_def)
  have "\<exists>caller. AMD64_GetCallerFrame sample_walker \<lparr>frames_of = [Some cfi_callee], stack_tid = 0\<rparr> False cfi_symbolizer
      = Some (Some caller, cfi_symbolizer)
    \<and> trust caller = FRAME_TRUST_CFI \<and> instruction (frame_info caller) = 0x401234 - 1
    \<and> context_of caller RIP = 0x401234 \<and> context_of caller RSP = 0x7010
    \<and> (\<forall>r\<in>set cfi_register_map. context_member r \<notin> {RIP, RSP} \<longrightarrow>
        (let ruled = reg_name r \<in> fst ` set [(''$rbp'', ?rbp)];
             kept = callee_saves r \<and> context_validity cfi_callee AND validity_flag r \<noteq> 0 in
         (context_validity caller AND validity_flag r \<noteq> 0 \<longleftrightarrow> ruled \<or> kept)
         \<and> (ruled \<longrightarrow> context_of caller (context_member r) = (\<lambda>_. 0x7010) (reg_name r))
         \<and> (\<not> ruled \<and> kept \<longrightarrow> context_of caller (context_member r) = context_of cfi_callee (context_member r))))"
    by (rule cfi_caller_recovered [OF w exprs(1,2) _ refl evals(1,2)])
      (use exprs(3) evals(3) in \<open>auto simp: cfi_callee_def sample_cpu_def\<close>)
  then show ?thesis
    by (auto simp: cfi_register_map_def amd64_entry_def Let_def cfi_callee_def sample_cpu_def valid_bit_def CONTEXT_VALID_ALL_def)
qed

end
