(* ===== verification/Symbolizer_Contracts.thy ===== *)
theory Symbolizer_Contracts
  imports Stack_Walk_Contracts
begin

text \<open>
  The symbolizer during a walk of an x86-64 stack: which modules the walk reports as being without symbols
  or with corrupt ones, and which modules a supplier is asked for.
\<close>

section \<open>Contracts\<close>

text \<open>
  C15. What \<open>Walk\<close> reports: after a walk, interrupted or not, \<open>modules_without_symbols\<close> holds, without
  duplicates, exactly the modules of the stack's frames for which the resolver has no symbols or the
  symbolizer has recorded that there are none, and \<open>modules_with_corrupt_symbols\<close> exactly the others whose
  symbols are corrupt.  When no name has a NUL (the resolver compares C strings, the symbolizer whole
  names), and the symbolizer starts with no record of a name that is in the resolver, these are exactly the
  modules without symbols in the resolver and those with corrupt ones.
\<close>
theorem walk_reports_modules:
  assumes "AMD64_Walk w cpu stack [] [] st = Some ((ok, stack', without, corrupt), st')"
    and "sfs_resolver st = Some r" "resolver_step\<^sup>*\<^sup>* new_Resolver r"
  shows "\<exists>r'. sfs_resolver st' = Some r' \<and> distinct without \<and> distinct corrupt
    \<and> set without = {md \<in> modules_in stack'.
        \<not> HasModule (Some (code_file md)) r' \<or> code_file md \<in> no_symbol_modules st'}
    \<and> set corrupt = {md \<in> modules_in stack'.
        IsModuleCorrupt (Some (code_file md)) r' \<and> code_file md \<notin> no_symbol_modules st'}
    \<and> (plain_modules (sw_modules w) (unloaded_modules w)
        \<and> (\<forall>name\<in>no_symbol_modules st. NUL \<notin> set name \<and> \<not> HasModule (Some name) r) \<longrightarrow>
         set without = {md \<in> modules_in stack'. \<not> HasModule (Some (code_file md)) r'}
         \<and> set corrupt = {md \<in> modules_in stack'. IsModuleCorrupt (Some (code_file md)) r'})"
proof -
  have ok: "sfs_ok st" using assms(2,3) resolver_reachable_ok by (simp add: sfs_ok_def)
  moreover have "\<forall>f. AMD64_GetContextFrame cpu = Some f \<longrightarrow> frame_module f = None"
    by (auto simp: AMD64_GetContextFrame_def)
  ultimately have rep: "reported st' stack' without corrupt"
    by (intro amd64.walk_reports [OF assms(1) [unfolded AMD64_Walk_def]])
  note uses = amd64.walk_fills [OF assms(1) [unfolded AMD64_Walk_def]]
  obtain r' where r': "sfs_resolver st' = Some r'" using fills_present(1) [OF uses] assms(2) by auto
  have "resolver_ok r'" using fills_keeps [OF uses] ok r' by (simp add: keeps_def sfs_ok_def)
  then have corrupt: "HasModule (Some name) r'" if "IsModuleCorrupt (Some name) r'" for name
    using that by (auto simp: IsModuleCorrupt_map_of HasModule_map_of)
  have "\<not> HasModule (Some name) r'"
    if "plain_modules (sw_modules w) (unloaded_modules w)" "name \<in> no_symbol_modules st'"
      "\<forall>name\<in>no_symbol_modules st. NUL \<notin> set name \<and> \<not> HasModule (Some name) r" for name
    using fills_apart [OF uses ok that(1)] that(2,3) assms(2) r' by (auto simp: apart_def)
  then show ?thesis
    using rep r' corrupt by (intro exI [of _ r'] conjI impI) (auto simp: reported_def loaded_def corrupt_in_def)
qed

text \<open>
  C16. Which modules a walk asks the supplier for: none that had symbols in the resolver before it or was
  recorded as having none, and none twice, except one for which the supplier was interrupted each time
  before.  The answers are kept:
  after the walk a module whose symbols were found is in the resolver, and one without symbols is recorded
  as such.  So without an interruption every module is asked for at most once.
\<close>
theorem symbols_asked_until_answered:
  assumes "AMD64_Walk w cpu stack without corrupt st = Some (result, st')" "sw_supplier w = logging supply"
    and "sfs_resolver st = Some r" "resolver_step\<^sup>*\<^sup>* new_Resolver r"
    and "sfs_supplier st = Some (s, [])"
  shows "\<exists>r' s' log. sfs_resolver st' = Some r' \<and> sfs_supplier st' = Some (s', log)
    \<and> sorted_wrt (\<lambda>later earlier. fst later = fst earlier \<longrightarrow> snd earlier = INTERRUPT) log
    \<and> (\<forall>(name, answer)\<in>set log. \<not> HasModule (Some name) r \<and> name \<notin> no_symbol_modules st
        \<and> (case answer of FOUND _ \<Rightarrow> HasModule (Some name) r' | NOT_FOUND \<Rightarrow> name \<in> no_symbol_modules st' | INTERRUPT \<Rightarrow> True))
    \<and> (INTERRUPT \<notin> snd ` set log \<longrightarrow> distinct (map fst log))"
proof -
  obtain ok stack' wo co where result: "result = (ok, stack', wo, co)" by (cases result)
  have fills: "(fills (logging supply) (sw_modules w) (unloaded_modules w))\<^sup>*\<^sup>* st st'"
    using amd64.walk_fills [OF assms(1) [unfolded AMD64_Walk_def result]] by (simp add: assms(2))
  have "sfs_ok st" "well_asked st st"
    using assms(3-5) resolver_reachable_ok by (auto simp: sfs_ok_def well_asked_def asks_ok_def)
  then have asked: "well_asked st st'" by (rule fills_well_asked [OF fills])
  obtain r' s' log where st': "sfs_resolver st' = Some r'" "sfs_supplier st' = Some (s', log)"
    using fills_present [OF fills] assms(3,5) by auto
  then have "asks_ok log" "\<forall>ask\<in>set log. \<not> settled st (fst ask) \<and> answer_kept st' ask"
    using asked by (auto simp: well_asked_def)
  moreover from this(1) have "INTERRUPT \<notin> snd ` set log \<longrightarrow> distinct (map fst log)"
    by (intro impI asks_distinct) (metis image_eqI)+
  ultimately show ?thesis
    using assms(3) st' by (intro exI [of _ r'] exI [of _ s'] exI [of _ log])
      (auto simp: asks_ok_def settled_def loaded_def answer_kept_def split: SymbolResult.splits)
qed

text \<open>
  An interruption in a scan does not end the walk: the address is taken for a return address, and the
  frame made from it is filled by asking for the same symbols again.
\<close>

lemma interrupted_scan_goes_on:
  assumes "SFS_FillSourceLineInfo (sw_supplier w) (sw_modules w) (unloaded_modules w)
      (new_StackFrame\<lparr>instruction := address\<rparr>, None) st = Some (kInterrupt, (frame, m), st')"
  shows "InstructionAddressSeemsValid w address st = Some (True, st')"
proof -
  have "m \<noteq> None" using assms
    by (auto simp: SFS_FillSourceLineInfo_def fill_frame_def Let_def bind_eq_Some_conv
        split: option.splits if_splits prod.splits SymbolResult.splits) metis
  then show ?thesis using assms by (auto simp: InstructionAddressSeemsValid_def)
qed

section \<open>A walk with symbols\<close>

definition modules_a :: BasicCodeModules where
  "modules_a = \<lparr>main_address = 0x400000, bcm_map = new_RangeMap\<lparr>rm_map := [(0x40FFFF, mk_Range 0x400000 0 module_a)]\<rparr>,
     shrunk_range_modules = []\<rparr>"

lemma modules_a_stored:
  "copy_BasicCodeModules \<lparr>module_shrink_enabled = False, main_module = Some module_a, module_list = [module_a]\<rparr> = Some modules_a"
  by code_simp

definition symbols_of_a :: "unit SymbolSupplier" where
  "symbols_of_a = \<lparr>GetCStringSymbolData = (\<lambda>m s. (if code_file m = ''a'' then FOUND (sample_symbols @ [NUL]) else NOT_FOUND, s)),
     FreeSymbolData = (\<lambda>_ s. s)\<rparr>"

definition walker_without_stack :: "'s SymbolSupplier \<Rightarrow> 's Stackwalker" where
  "walker_without_stack supply = \<lparr>os_short = ''linux'', sw_memory = None, sw_modules = Some modules_a,
     unloaded_modules = None, max_frames = 1024, max_frames_scanned = 1024, sw_supplier = supply,
     extract_number = extract_unsigned\<rparr>"

lemma one_frame_walk:
  assumes "SFS_FillSourceLineInfo supply (Some modules_a) None (new_StackFrame\<lparr>instruction := 0x401004\<rparr>, None) st
    = Some (result, (info, m), st')" "result \<noteq> kInterrupt"
  shows "\<exists>stack. AMD64_Walk (walker_without_stack supply) (Some sample_cpu) new_CallStack [] [] st
      = Some ((True, stack, if result = kError then InsertSpecialAttentionModule m [] else [],
          if result = kWarningCorruptSymbols then InsertSpecialAttentionModule m [] else []), st')
    \<and> modules_in stack = set_option m"
  using assms
  by (cases m) (simp_all add: AMD64_Walk_def Walk_def AMD64_GetContextFrame_def walk_loop.simps sample_cpu_def
      walker_without_stack_def AMD64_GetCallerFrame_def new_CallStack_def Clear_def modules_in_def
      InsertSpecialAttentionModule_def)

lemma file_of_a: "code_file module_a = ''a''"
  by (simp add: module_a_def)

lemma load_a: "LoadModuleUsingMemoryBuffer (Some ''a'') (sample_symbols @ [NUL]) new_Resolver
    = Done (True, \<lparr>modules = [(''a'', sample_module)], corrupt_modules = {}\<rparr>)"
  using sample_load [of "''a''"] by (simp add: load_map_memory c_str_plain [of "''a''"])

lemma new_Resolver_empty: "\<not> HasModule (Some name) new_Resolver"
  by (simp add: HasModule_def new_Resolver_def map_find_def lower_bound_def)

lemma plain_a: "plain_modules (Some modules_a) None"
  by (auto simp: plain_modules_def module_of_frame_def modules_a_def GetModuleForAddress_def RetrieveRange_def
      lower_bound_def range_out_def mk_Range_def
      module_a_def split: if_splits option.splits)

lemma module_at: "module_of_frame (Some modules_a) None 0x401004 = Some module_a"
  by code_simp

definition fresh_symbolizer :: "'s \<Rightarrow> 's StackFrameSymbolizer" where
  "fresh_symbolizer s = \<lparr>sfs_supplier = Some s, sfs_resolver = Some new_Resolver, no_symbol_modules = {}\<rparr>"

theorem walk_reports_modules_witness:
  "\<exists>stack st. AMD64_Walk (walker_without_stack no_symbols) (Some sample_cpu) new_CallStack [] [] (fresh_symbolizer ())
      = Some ((True, stack, [module_a], []), st)
    \<and> modules_in stack = {module_a} \<and> (\<exists>r. sfs_resolver st = Some r \<and> \<not> HasModule (Some ''a'') r)"
proof -
  have "SFS_FillSourceLineInfo no_symbols (Some modules_a) None (new_StackFrame\<lparr>instruction := 0x401004\<rparr>, None) (fresh_symbolizer ())
    = Some (kError, (new_StackFrame\<lparr>instruction := 0x401004\<rparr>, Some module_a), (fresh_symbolizer ())\<lparr>no_symbol_modules := {''a''}\<rparr>)"
    by (simp add: SFS_FillSourceLineInfo_def module_at fresh_symbolizer_def no_symbols_def new_Resolver_empty file_of_a)
  from one_frame_walk [OF this] obtain stack where walk:
    "AMD64_Walk (walker_without_stack no_symbols) (Some sample_cpu) new_CallStack [] [] (fresh_symbolizer ())
      = Some ((True, stack, [module_a], []), (fresh_symbolizer ())\<lparr>no_symbol_modules := {''a''}\<rparr>)"
    "modules_in stack = {module_a}"
    by (auto simp: InsertSpecialAttentionModule_def)
  let ?st = "(fresh_symbolizer ())\<lparr>no_symbol_modules := {''a''}\<rparr>"
  let ?plain = "plain_modules (sw_modules (walker_without_stack no_symbols)) (unloaded_modules (walker_without_stack no_symbols))
        \<and> (\<forall>name\<in>no_symbol_modules (fresh_symbolizer ()). NUL \<notin> set name \<and> \<not> HasModule (Some name) new_Resolver)"
  have "\<exists>r'. sfs_resolver ?st = Some r' \<and> distinct [module_a] \<and> distinct ([] :: CodeModule list)
    \<and> set [module_a] = {md \<in> modules_in stack. \<not> HasModule (Some (code_file md)) r' \<or> code_file md \<in> no_symbol_modules ?st}
    \<and> set [] = {md \<in> modules_in stack. IsModuleCorrupt (Some (code_file md)) r' \<and> code_file md \<notin> no_symbol_modules ?st}
    \<and> (?plain \<longrightarrow> set [module_a] = {md \<in> modules_in stack. \<not> HasModule (Some (code_file md)) r'}
        \<and> set [] = {md \<in> modules_in stack. IsModuleCorrupt (Some (code_file md)) r'})"
    by (rule walk_reports_modules [OF walk(1), of new_Resolver]) (simp_all add: fresh_symbolizer_def)
  then obtain r where r: "sfs_resolver ?st = Some r"
    "?plain \<longrightarrow> set [module_a] = {md \<in> modules_in stack. \<not> HasModule (Some (code_file md)) r}
        \<and> set [] = {md \<in> modules_in stack. IsModuleCorrupt (Some (code_file md)) r}"
    by (elim exE conjE) (rule that)
  have "?plain" using plain_a by (simp add: walker_without_stack_def fresh_symbolizer_def)
  with r(2) have "set [module_a] = {md \<in> modules_in stack. \<not> HasModule (Some (code_file md)) r}" by blast
  then have "module_a \<in> {md \<in> modules_in stack. \<not> HasModule (Some (code_file md)) r}"
    by (metis list.set_intros(1))
  then have "\<not> HasModule (Some ''a'') r" by (simp add: file_of_a)
  with walk r(1) show ?thesis by blast
qed

theorem symbols_asked_until_answered_witness:
  "\<exists>result st r. AMD64_Walk (walker_without_stack (logging symbols_of_a)) (Some sample_cpu) new_CallStack [] [] (fresh_symbolizer ((), []))
      = Some (result, st)
    \<and> sfs_supplier st = Some ((), [(''a'', FOUND (sample_symbols @ [NUL]))]) \<and> sfs_resolver st = Some r \<and> HasModule (Some ''a'') r"
proof -
  let ?fresh = "fresh_symbolizer ((), [] :: (string \<times> SymbolResult) list)"
  let ?log = "[(''a'', FOUND (sample_symbols @ [NUL]))]"
  let ?st = "\<lparr>sfs_supplier = Some ((), ?log), sfs_resolver = Some \<lparr>modules = [(''a'', sample_module)], corrupt_modules = {}\<rparr>,
      no_symbol_modules = {}\<rparr>"
  have "\<exists>info. SFS_FillSourceLineInfo (logging symbols_of_a) (Some modules_a) None (new_StackFrame\<lparr>instruction := 0x401004\<rparr>, None)
      (fresh_symbolizer ((), [])) = Some (kNoError, (info, Some module_a), ?st)"
    by (simp add: SFS_FillSourceLineInfo_def module_at fresh_symbolizer_def symbols_of_a_def logging_def new_Resolver_empty
        file_of_a fill_frame_def IsModuleCorrupt_def load_a returned_def)
  then obtain info where "SFS_FillSourceLineInfo (logging symbols_of_a) (Some modules_a) None (new_StackFrame\<lparr>instruction := 0x401004\<rparr>, None)
      (fresh_symbolizer ((), [])) = Some (kNoError, (info, Some module_a), ?st)" by (elim exE) (rule that)
  from one_frame_walk [OF this] obtain stack where walk:
    "AMD64_Walk (walker_without_stack (logging symbols_of_a)) (Some sample_cpu) new_CallStack [] [] (fresh_symbolizer ((), []))
      = Some ((True, stack, [], []), ?st)" by auto
  have "\<exists>r' s' log. sfs_resolver ?st = Some r' \<and> sfs_supplier ?st = Some (s', log)
    \<and> sorted_wrt (\<lambda>later earlier. fst later = fst earlier \<longrightarrow> snd earlier = INTERRUPT) log
    \<and> (\<forall>(name, answer)\<in>set log. \<not> HasModule (Some name) new_Resolver \<and> name \<notin> no_symbol_modules ?fresh
        \<and> (case answer of FOUND _ \<Rightarrow> HasModule (Some name) r' | NOT_FOUND \<Rightarrow> name \<in> no_symbol_modules ?st | INTERRUPT \<Rightarrow> True))
    \<and> (INTERRUPT \<notin> snd ` set log \<longrightarrow> distinct (map fst log))"
    by (rule symbols_asked_until_answered [OF walk]) (simp_all add: fresh_symbolizer_def walker_without_stack_def)
  with walk show ?thesis by auto
qed

end
