(* ===== verification/Stackwalker_ARM64.thy ===== *)
theory Stackwalker_ARM64
  imports Stackwalker
begin

text \<open>
  \<open>src/app/breakpad/src/processor/stackwalker_arm64.cc\<close> and \<open>StackFrameARM64\<close> of \<open>stack_frame_cpu.h\<close>: how
  the caller of a frame is found on AArch64, by the CFI rules of its module, by its frame pointer and link
  register, or by a scan of the stack.

  A context is its 33 registers, by number; the other fields, which are only copied, are left out.
\<close>

section \<open>Registers\<close>

definition REG_FP :: nat where "REG_FP = 29"
definition REG_LR :: nat where "REG_LR = 30"
definition REG_SP :: nat where "REG_SP = 31"
definition REG_PC :: nat where "REG_PC = 32"

definition RegisterValidFlag :: "nat \<Rightarrow> u64" where
  "RegisterValidFlag n = push_bit n 1"

definition arm64_register_names :: "string list" where
  "arm64_register_names =
     [''x0'', ''x1'', ''x2'', ''x3'', ''x4'', ''x5'', ''x6'', ''x7'',
      ''x8'', ''x9'', ''x10'', ''x11'', ''x12'', ''x13'', ''x14'', ''x15'',
      ''x16'', ''x17'', ''x18'', ''x19'', ''x20'', ''x21'', ''x22'', ''x23'',
      ''x24'', ''x25'', ''x26'', ''x27'', ''x28'', ''x29'', ''x30'', ''sp'', ''pc'']"

record arm64_frame = WalkFrame +
  iregs :: "nat \<Rightarrow> u64"
  iregs_validity :: u64

definition new_arm64_frame :: arm64_frame where
  "new_arm64_frame = \<lparr>frame_info = new_StackFrame, frame_module = None, trust = FRAME_TRUST_NONE,
     iregs = (\<lambda>_. 0), iregs_validity = 0\<rparr>"

section \<open>Frames\<close>

text \<open>\<open>validity\<close> is \<open>context_frame_validity_\<close>, all ones unless a test sets it.\<close>

definition ARM64_GetContextFrame :: "u64 \<Rightarrow> (nat \<Rightarrow> u64) option \<Rightarrow> arm64_frame option" where
  "ARM64_GetContextFrame validity context =
     map_option (\<lambda>c. new_arm64_frame\<lparr>iregs := c, iregs_validity := validity, trust := FRAME_TRUST_CONTEXT,
         frame_info := new_StackFrame\<lparr>instruction := c REG_PC\<rparr>\<rparr>) context"

definition arm64_callee_registers :: "arm64_frame \<Rightarrow> 64 dictionary" where
  "arm64_callee_registers last_frame =
     foldl (\<lambda>m i. if iregs_validity last_frame AND RegisterValidFlag i \<noteq> 0
         then m(arm64_register_names ! i \<mapsto> iregs last_frame i) else m)
       Map.empty [0..<length arm64_register_names]"

text \<open>One register of the caller: recovered, or callee-saves and assumed unchanged\<close>

definition arm64_write_register ::
  "arm64_frame \<Rightarrow> 64 dictionary \<Rightarrow> (nat \<Rightarrow> u64) \<times> u64 \<Rightarrow> nat \<Rightarrow> (nat \<Rightarrow> u64) \<times> u64"
where
  "arm64_write_register last_frame caller_registers = (\<lambda>(regs, validity) i.
     case caller_registers (arm64_register_names ! i) of
       Some v \<Rightarrow> (regs(i := v), validity OR RegisterValidFlag i)
     | None \<Rightarrow>
         if 19 \<le> i \<and> i \<le> 29 \<and> iregs_validity last_frame AND RegisterValidFlag i \<noteq> 0
         then (regs(i := iregs last_frame i), validity OR RegisterValidFlag i)
         else (regs, validity))"

text \<open>The program counter from \<open>.ra\<close>, and the stack pointer from \<open>.cfa\<close>, if they are still missing\<close>

definition arm64_write_missing ::
  "64 dictionary \<Rightarrow> nat \<Rightarrow> string \<Rightarrow> (nat \<Rightarrow> u64) \<times> u64 \<Rightarrow> (nat \<Rightarrow> u64) \<times> u64"
where
  "arm64_write_missing caller_registers i name = (\<lambda>(regs, validity).
     if validity AND RegisterValidFlag i = 0 then
       case caller_registers name of
         Some v \<Rightarrow> (regs(i := v), validity OR RegisterValidFlag i)
       | None \<Rightarrow> (regs, validity)
     else (regs, validity))"

definition arm64_caller_registers :: "arm64_frame \<Rightarrow> 64 dictionary \<Rightarrow> (nat \<Rightarrow> u64) \<times> u64" where
  "arm64_caller_registers last_frame caller_registers =
     arm64_write_missing caller_registers REG_SP ''.cfa''
       (arm64_write_missing caller_registers REG_PC ''.ra''
         (foldl (arm64_write_register last_frame caller_registers) (\<lambda>_. 0, 0)
           [0..<length arm64_register_names]))"

definition ARM64_GetCallerByCFIFrameInfo ::
  "'s Stackwalker \<Rightarrow> MinidumpMemoryRegion \<Rightarrow> arm64_frame \<Rightarrow> CFIFrameInfo \<Rightarrow> arm64_frame option evaluated"
where
  "ARM64_GetCallerByCFIFrameInfo w mem last_frame cfi_frame_info =
     (case FindCallerRegs (extract_number w) (GetMemoryAtAddress mem) (arm64_callee_registers last_frame)
             cfi_frame_info Map.empty of
        Trap \<Rightarrow> Trap
      | Returns False _ \<Rightarrow> Returns False None
      | Returns True caller_registers \<Rightarrow>
          let (regs, validity) = arm64_caller_registers last_frame caller_registers;
              essentials = RegisterValidFlag REG_SP OR RegisterValidFlag REG_PC in
          if validity AND essentials \<noteq> essentials then Returns True None
          else Returns True (Some (new_arm64_frame\<lparr>iregs := regs, iregs_validity := validity,
            trust := FRAME_TRUST_CFI\<rparr>)))"

definition ARM64_GetCallerByStackScan ::
  "'s Stackwalker \<Rightarrow> MinidumpMemoryRegion \<Rightarrow> arm64_frame \<Rightarrow> bool \<Rightarrow> 's StackFrameSymbolizer
    \<Rightarrow> (arm64_frame option \<times> 's StackFrameSymbolizer) option"
where
  "ARM64_GetCallerByStackScan w mem last_frame is_context_frame st = do {
     (found, st) \<leftarrow> ScanForReturnAddress w mem (iregs last_frame REG_SP) is_context_frame st;
     case found of
       None \<Rightarrow> Some (None, st)
     | Some (location, caller_pc) \<Rightarrow>
         Some (Some (new_arm64_frame\<lparr>trust := FRAME_TRUST_SCAN,
           iregs := (iregs last_frame)(REG_PC := caller_pc, REG_SP := location + 8),
           iregs_validity := RegisterValidFlag REG_PC OR RegisterValidFlag REG_SP\<rparr>), st)
   }"

text \<open>A frame pointer of zero is not followed: then only the link register gives the caller.\<close>

definition GetCallerByFramePointer :: "MinidumpMemoryRegion \<Rightarrow> arm64_frame \<Rightarrow> arm64_frame option" where
  "GetCallerByFramePointer mem last_frame =
     (let last_fp = iregs last_frame REG_FP;
          frame = (\<lambda>caller_fp caller_lr caller_sp. new_arm64_frame\<lparr>trust := FRAME_TRUST_FP,
            iregs := (iregs last_frame)(REG_FP := caller_fp, REG_SP := caller_sp,
              REG_PC := iregs last_frame REG_LR, REG_LR := caller_lr),
            iregs_validity := RegisterValidFlag REG_PC OR RegisterValidFlag REG_LR OR RegisterValidFlag REG_FP
              OR RegisterValidFlag REG_SP\<rparr>) in
      if last_fp = 0 then Some (frame 0 0 (iregs last_frame REG_SP))
      else
        case (GetMemoryAtAddress mem last_fp, GetMemoryAtAddress mem (last_fp + 8)) of
          (Some caller_fp, Some caller_lr) \<Rightarrow> Some (frame caller_fp caller_lr (last_fp + 16))
        | _ \<Rightarrow> None)"

text \<open>By CFI, else by the frame pointer, else by a scan\<close>

definition arm64_find_caller ::
  "'s Stackwalker \<Rightarrow> MinidumpMemoryRegion \<Rightarrow> arm64_frame \<Rightarrow> bool \<Rightarrow> bool \<Rightarrow> 's StackFrameSymbolizer
    \<Rightarrow> (arm64_frame option \<times> 's StackFrameSymbolizer) option"
where
  "arm64_find_caller w mem last_frame is_context_frame stack_scan_allowed st = do {
     frame \<leftarrow>
       (case SFS_FindCFIFrameInfo (frame_info last_frame, frame_module last_frame) st of
          None \<Rightarrow> Some None
        | Some cfi_frame_info \<Rightarrow>
            (case ARM64_GetCallerByCFIFrameInfo w mem last_frame cfi_frame_info of
               Trap \<Rightarrow> None
             | Returns _ frame \<Rightarrow> Some frame));
     let frame = (if frame = None then GetCallerByFramePointer mem last_frame else frame);
     if stack_scan_allowed \<and> frame = None then ARM64_GetCallerByStackScan w mem last_frame is_context_frame st
     else Some (frame, st)
   }"

definition ARM64_GetCallerFrame ::
  "'s Stackwalker \<Rightarrow> arm64_frame CallStack \<Rightarrow> bool \<Rightarrow> 's StackFrameSymbolizer
    \<Rightarrow> (arm64_frame option \<times> 's StackFrameSymbolizer) option"
where
  "ARM64_GetCallerFrame w stack stack_scan_allowed st =
     (case sw_memory w of
        None \<Rightarrow> Some (None, st)
      | Some mem \<Rightarrow>
          if frames_of stack = [] then None
          else
            case last (frames_of stack) of
              None \<Rightarrow> None
            | Some last_frame \<Rightarrow> do {
                (frame, st) \<leftarrow>
                  arm64_find_caller w mem last_frame (length (frames_of stack) = 1) stack_scan_allowed st;
                Some
                  (case frame of
                     None \<Rightarrow> (None, st)
                   | Some frame \<Rightarrow>
                       if iregs frame REG_PC = 0 then (None, st)
                       else if iregs frame REG_SP < iregs last_frame REG_SP then (None, st)
                       else (Some (frame\<lparr>frame_info :=
                         (frame_info frame)\<lparr>instruction := iregs frame REG_PC - 4\<rparr>\<rparr>), st))
              })"

text \<open>\<open>Walk\<close> of a \<open>StackwalkerARM64\<close>\<close>

definition ARM64_Walk ::
  "'s Stackwalker \<Rightarrow> u64 \<Rightarrow> (nat \<Rightarrow> u64) option \<Rightarrow> arm64_frame CallStack \<Rightarrow> CodeModule list \<Rightarrow> CodeModule list
    \<Rightarrow> 's StackFrameSymbolizer \<Rightarrow> (arm64_frame walked \<times> 's StackFrameSymbolizer) option"
where
  "ARM64_Walk w validity context = Walk w (ARM64_GetContextFrame validity context) (ARM64_GetCallerFrame w)"

end
