(* ===== verification/Stackwalker_PPC.thy ===== *)
theory Stackwalker_PPC
  imports Stackwalker
begin

text \<open>
  \<open>src/app/breakpad/src/processor/stackwalker_ppc.cc\<close>, \<open>stackwalker_ppc64.cc\<close> and \<open>stackwalker_sparc.cc\<close>:
  the architectures on which every frame points to the frame of its caller, so that a caller is found by
  reading memory, without symbols and without a scan.

  A context is the registers that the walkers use; the others are only copied.
\<close>

section \<open>Memory\<close>

definition GetMemoryAtAddress32 :: "MinidumpMemoryRegion \<Rightarrow> u64 \<Rightarrow> 32 word option" where
  "GetMemoryAtAddress32 r address = map_option of_nat (GetMemoryAtAddressInternal 4 r address)"

definition GetBase :: "MinidumpMemoryRegion \<Rightarrow> u64" where
  "GetBase r = (if region_valid r then start_of_memory_range r else - 1)"

definition GetSize :: "MinidumpMemoryRegion \<Rightarrow> 32 word" where
  "GetSize r = (if region_valid r then region_size r else 0)"

section \<open>The last frame\<close>

text \<open>What each \<open>GetCallerFrame\<close> does with the last frame of the stack, if there is memory\<close>

definition from_last_frame ::
  "'s Stackwalker \<Rightarrow> 'f CallStack \<Rightarrow> (MinidumpMemoryRegion \<Rightarrow> 'f \<Rightarrow> 'f option) \<Rightarrow> 's StackFrameSymbolizer
    \<Rightarrow> ('f option \<times> 's StackFrameSymbolizer) option"
where
  "from_last_frame w stack recover st =
     (case sw_memory w of
        None \<Rightarrow> Some (None, st)
      | Some mem \<Rightarrow>
          if frames_of stack = [] then None
          else case last (frames_of stack) of None \<Rightarrow> None | Some last_frame \<Rightarrow> Some (recover mem last_frame, st))"

section \<open>PowerPC\<close>

record ppc_frame = WalkFrame +
  ppc_srr0 :: "32 word"
  ppc_gpr :: "nat \<Rightarrow> 32 word"
  ppc_validity :: "32 word"

definition VALID_SRR0 :: "32 word" where "VALID_SRR0 = 1"
definition VALID_GPR1 :: "32 word" where "VALID_GPR1 = 2"

text \<open>The constructor: memory that a 32-bit process cannot have is not used.\<close>

definition new_StackwalkerPPC :: "'s Stackwalker \<Rightarrow> 's Stackwalker" where
  "new_StackwalkerPPC w =
     (case sw_memory w of
        None \<Rightarrow> w
      | Some mem \<Rightarrow>
          if GetBase mem + ucast (GetSize mem) - 1 > 0xFFFFFFFF then w\<lparr>sw_memory := None\<rparr> else w)"

definition PPC_GetContextFrame :: "(32 word \<times> (nat \<Rightarrow> 32 word)) option \<Rightarrow> ppc_frame option" where
  "PPC_GetContextFrame context =
     map_option (\<lambda>(srr0, gpr). \<lparr>frame_info = new_StackFrame\<lparr>instruction := ucast srr0\<rparr>, frame_module = None,
         trust = FRAME_TRUST_CONTEXT, ppc_srr0 = srr0, ppc_gpr = gpr, ppc_validity = - 1\<rparr>) context"

definition ppc_recover :: "MinidumpMemoryRegion \<Rightarrow> ppc_frame \<Rightarrow> ppc_frame option" where
  "ppc_recover mem last_frame =
     (case GetMemoryAtAddress32 mem (ucast (ppc_gpr last_frame 1)) of
        None \<Rightarrow> None
      | Some stack_pointer \<Rightarrow>
          if stack_pointer \<le> ppc_gpr last_frame 1 then None
          else
            case GetMemoryAtAddress32 mem (ucast (stack_pointer + 8)) of
              None \<Rightarrow> None
            | Some instr \<Rightarrow>
                if instr \<le> 1 then None
                else Some \<lparr>frame_info = new_StackFrame\<lparr>instruction := ucast (instr - 4)\<rparr>, frame_module = None,
                  trust = FRAME_TRUST_FP, ppc_srr0 = instr, ppc_gpr = (ppc_gpr last_frame)(1 := stack_pointer),
                  ppc_validity = VALID_SRR0 OR VALID_GPR1\<rparr>)"

definition PPC_GetCallerFrame ::
  "'s Stackwalker \<Rightarrow> ppc_frame CallStack \<Rightarrow> bool \<Rightarrow> 's StackFrameSymbolizer
    \<Rightarrow> (ppc_frame option \<times> 's StackFrameSymbolizer) option"
where
  "PPC_GetCallerFrame w stack stack_scan_allowed st = from_last_frame w stack ppc_recover st"

definition PPC_Walk ::
  "'s Stackwalker \<Rightarrow> (32 word \<times> (nat \<Rightarrow> 32 word)) option \<Rightarrow> ppc_frame CallStack \<Rightarrow> CodeModule list
    \<Rightarrow> CodeModule list \<Rightarrow> 's StackFrameSymbolizer \<Rightarrow> (ppc_frame walked \<times> 's StackFrameSymbolizer) option"
where
  "PPC_Walk w context =
     (let w = new_StackwalkerPPC w in Walk w (PPC_GetContextFrame context) (PPC_GetCallerFrame w))"

section \<open>64-bit PowerPC\<close>

record ppc64_frame = WalkFrame +
  ppc64_srr0 :: u64
  ppc64_gpr :: "nat \<Rightarrow> u64"
  ppc64_validity :: "32 word"

definition PPC64_GetContextFrame :: "(u64 \<times> (nat \<Rightarrow> u64)) option \<Rightarrow> ppc64_frame option" where
  "PPC64_GetContextFrame context =
     map_option (\<lambda>(srr0, gpr). \<lparr>frame_info = new_StackFrame\<lparr>instruction := srr0\<rparr>, frame_module = None,
         trust = FRAME_TRUST_CONTEXT, ppc64_srr0 = srr0, ppc64_gpr = gpr, ppc64_validity = - 1\<rparr>) context"

definition ppc64_recover :: "MinidumpMemoryRegion \<Rightarrow> ppc64_frame \<Rightarrow> ppc64_frame option" where
  "ppc64_recover mem last_frame =
     (case GetMemoryAtAddress mem (ppc64_gpr last_frame 1) of
        None \<Rightarrow> None
      | Some stack_pointer \<Rightarrow>
          if stack_pointer \<le> ppc64_gpr last_frame 1 then None
          else
            case GetMemoryAtAddress mem (stack_pointer + 16) of
              None \<Rightarrow> None
            | Some instr \<Rightarrow>
                if instr \<le> 1 then None
                else Some \<lparr>frame_info = new_StackFrame\<lparr>instruction := instr - 8\<rparr>, frame_module = None,
                  trust = FRAME_TRUST_FP, ppc64_srr0 = instr, ppc64_gpr = (ppc64_gpr last_frame)(1 := stack_pointer),
                  ppc64_validity = VALID_SRR0 OR VALID_GPR1\<rparr>)"

definition PPC64_GetCallerFrame ::
  "'s Stackwalker \<Rightarrow> ppc64_frame CallStack \<Rightarrow> bool \<Rightarrow> 's StackFrameSymbolizer
    \<Rightarrow> (ppc64_frame option \<times> 's StackFrameSymbolizer) option"
where
  "PPC64_GetCallerFrame w stack stack_scan_allowed st = from_last_frame w stack ppc64_recover st"

definition PPC64_Walk ::
  "'s Stackwalker \<Rightarrow> (u64 \<times> (nat \<Rightarrow> u64)) option \<Rightarrow> ppc64_frame CallStack \<Rightarrow> CodeModule list
    \<Rightarrow> CodeModule list \<Rightarrow> 's StackFrameSymbolizer \<Rightarrow> (ppc64_frame walked \<times> 's StackFrameSymbolizer) option"
where
  "PPC64_Walk w context = Walk w (PPC64_GetContextFrame context) (PPC64_GetCallerFrame w)"

section \<open>SPARC\<close>

text \<open>The stack pointer is register 14, the frame pointer register 30.\<close>

record sparc_frame = WalkFrame +
  sparc_pc :: u64
  g_r :: "nat \<Rightarrow> u64"
  sparc_validity :: "32 word"

definition SPARC_VALID :: "32 word" where "SPARC_VALID = 1 OR 2 OR 4"

definition SPARC_GetContextFrame :: "(u64 \<times> (nat \<Rightarrow> u64)) option \<Rightarrow> sparc_frame option" where
  "SPARC_GetContextFrame context =
     map_option (\<lambda>(pc, r). \<lparr>frame_info = new_StackFrame\<lparr>instruction := pc\<rparr>, frame_module = None,
         trust = FRAME_TRUST_CONTEXT, sparc_pc = pc, g_r = r, sparc_validity = - 1\<rparr>) context"

definition sparc_recover :: "MinidumpMemoryRegion \<Rightarrow> sparc_frame \<Rightarrow> sparc_frame option" where
  "sparc_recover mem last_frame =
     (let stack_pointer = g_r last_frame 30 in
      if stack_pointer \<le> g_r last_frame 14 then None
      else
        case GetMemoryAtAddress32 mem (stack_pointer + 60) of
          None \<Rightarrow> None
        | Some instr \<Rightarrow>
            if instr \<le> 1 then None
            else
              case GetMemoryAtAddress32 mem (stack_pointer + 56) of
                None \<Rightarrow> None
              | Some stack_base \<Rightarrow>
                  if stack_base \<le> 1 then None
                  else Some \<lparr>frame_info = new_StackFrame\<lparr>instruction := ucast instr\<rparr>, frame_module = None,
                    trust = FRAME_TRUST_FP, sparc_pc = ucast (instr + 8),
                    g_r = (g_r last_frame)(14 := stack_pointer, 30 := ucast stack_base), sparc_validity = SPARC_VALID\<rparr>)"

definition SPARC_GetCallerFrame ::
  "'s Stackwalker \<Rightarrow> sparc_frame CallStack \<Rightarrow> bool \<Rightarrow> 's StackFrameSymbolizer
    \<Rightarrow> (sparc_frame option \<times> 's StackFrameSymbolizer) option"
where
  "SPARC_GetCallerFrame w stack stack_scan_allowed st = from_last_frame w stack sparc_recover st"

definition SPARC_Walk ::
  "'s Stackwalker \<Rightarrow> (u64 \<times> (nat \<Rightarrow> u64)) option \<Rightarrow> sparc_frame CallStack \<Rightarrow> CodeModule list
    \<Rightarrow> CodeModule list \<Rightarrow> 's StackFrameSymbolizer \<Rightarrow> (sparc_frame walked \<times> 's StackFrameSymbolizer) option"
where
  "SPARC_Walk w context = Walk w (SPARC_GetContextFrame context) (SPARC_GetCallerFrame w)"

end
