(* ===== verification/Other_Walks.thy ===== *)
theory Other_Walks
  imports Stackwalker_ARM64 Stackwalker_PPC Walk_Interface
begin

text \<open>
  The walkers of AArch64, PowerPC and SPARC as instances of \<open>cpu_walker\<close>.  The last three find a caller by
  reading memory only (locale \<open>frame_reader\<close>), so that without a resolver a walk is determined by the
  memory.
\<close>

section \<open>AArch64\<close>

text \<open>The rules for a frame, in its own module: there are none, or they do not give a caller.\<close>

definition arm64_rules_fail ::
  "'s Stackwalker \<Rightarrow> MinidumpMemoryRegion \<Rightarrow> 's StackFrameSymbolizer \<Rightarrow> arm64_frame \<Rightarrow> bool"
where
  "arm64_rules_fail w mem st callee \<longleftrightarrow>
     (\<forall>rules. SFS_FindCFIFrameInfo (frame_info callee, frame_module callee) st = Some rules
        \<longrightarrow> (\<exists>ok. ARM64_GetCallerByCFIFrameInfo w mem callee rules = Returns ok None))"

text \<open>A caller, recovered by the method that its trust names, with the symbolizer as it is then\<close>

definition arm64_recovered_by ::
  "'s Stackwalker \<Rightarrow> MinidumpMemoryRegion \<Rightarrow> 's StackFrameSymbolizer \<Rightarrow> arm64_frame \<Rightarrow> arm64_frame \<Rightarrow> bool"
where
  "arm64_recovered_by w mem st callee caller =
     (let reg = iregs caller; last = iregs callee in
      case trust caller of
        FRAME_TRUST_CFI \<Rightarrow>
          (\<exists>rules values. SFS_FindCFIFrameInfo (frame_info callee, frame_module callee) st = Some rules
            \<and> FindCallerRegs (extract_number w) (GetMemoryAtAddress mem) (arm64_callee_registers callee)
              rules Map.empty = Returns True values
            \<and> arm64_caller_registers callee values = (reg, iregs_validity caller))
      | FRAME_TRUST_FP \<Rightarrow>
          arm64_rules_fail w mem st callee \<and> reg REG_PC = last REG_LR
          \<and> (if last REG_FP = 0 then reg REG_SP = last REG_SP \<and> reg REG_FP = 0 \<and> reg REG_LR = 0
             else reg REG_SP = last REG_FP + 16 \<and> GetMemoryAtAddress mem (last REG_FP) = Some (reg REG_FP)
               \<and> GetMemoryAtAddress mem (last REG_FP + 8) = Some (reg REG_LR))
      | FRAME_TRUST_SCAN \<Rightarrow>
          arm64_rules_fail w mem st callee \<and> GetCallerByFramePointer mem callee = None
          \<and> (\<exists>location ms. GetMemoryAtAddress mem location = Some (reg REG_PC) \<and> last REG_SP \<le> location
            \<and> reg REG_SP = location + 8 \<and> sw_modules w = Some ms \<and> GetModuleForAddress ms (reg REG_PC) \<noteq> None)
      | _ \<Rightarrow> False)"

definition arm64_caller :: "'s Stackwalker \<Rightarrow> 's StackFrameSymbolizer \<Rightarrow> arm64_frame \<Rightarrow> arm64_frame \<Rightarrow> bool" where
  "arm64_caller w st callee caller \<longleftrightarrow>
     (\<exists>mem. sw_memory w = Some mem \<and> arm64_recovered_by w mem st callee caller)
     \<and> iregs_validity caller AND (RegisterValidFlag REG_SP OR RegisterValidFlag REG_PC)
         = RegisterValidFlag REG_SP OR RegisterValidFlag REG_PC
     \<and> iregs caller REG_PC \<noteq> 0 \<and> iregs callee REG_SP \<le> iregs caller REG_SP
     \<and> instruction (frame_info caller) = iregs caller REG_PC - 4"

lemma arm64_recovered_cong:
  assumes "trust f = trust g" "iregs f = iregs g" "iregs_validity f = iregs_validity g"
  shows "arm64_recovered_by w mem st callee f = arm64_recovered_by w mem st callee g"
  using assms by (cases "trust g") (simp_all add: arm64_recovered_by_def Let_def)

definition arm64_plain :: "arm64_frame \<Rightarrow> bool" where
  "arm64_plain f \<longleftrightarrow> frame_info f = new_StackFrame \<and> frame_module f = None
     \<and> iregs_validity f AND (RegisterValidFlag REG_SP OR RegisterValidFlag REG_PC)
         = RegisterValidFlag REG_SP OR RegisterValidFlag REG_PC"

lemmas reg_numbers = REG_FP_def REG_LR_def REG_SP_def REG_PC_def

lemma arm64_cfi_caller:
  assumes "ARM64_GetCallerByCFIFrameInfo w mem callee rules = Returns ok (Some caller)"
    and "SFS_FindCFIFrameInfo (frame_info callee, frame_module callee) st = Some rules"
  shows "trust caller = FRAME_TRUST_CFI \<and> arm64_recovered_by w mem st callee caller \<and> arm64_plain caller"
  using assms
  by (auto simp: ARM64_GetCallerByCFIFrameInfo_def arm64_recovered_by_def arm64_plain_def new_arm64_frame_def Let_def
      split: evaluated.splits bool.splits prod.splits if_splits)

lemma arm64_fp_caller:
  assumes "GetCallerByFramePointer mem callee = Some caller" "arm64_rules_fail w mem st callee"
  shows "trust caller = FRAME_TRUST_FP \<and> arm64_recovered_by w mem st callee caller \<and> arm64_plain caller"
  using assms
  by (auto simp: GetCallerByFramePointer_def arm64_recovered_by_def arm64_plain_def new_arm64_frame_def Let_def
      reg_numbers RegisterValidFlag_def split: option.splits if_splits)

lemma arm64_scan_caller:
  assumes "ARM64_GetCallerByStackScan w mem callee is_context st = Some (Some caller, st')"
    and "arm64_rules_fail w mem st callee" "GetCallerByFramePointer mem callee = None"
  shows "trust caller = FRAME_TRUST_SCAN \<and> arm64_recovered_by w mem st callee caller \<and> arm64_plain caller"
proof -
  obtain found pc st1 where s: "ScanForReturnAddress w mem (iregs callee REG_SP) is_context st
      = Some (Some (found, pc), st1)"
    using assms(1) by (auto simp: ARM64_GetCallerByStackScan_def bind_eq_Some_conv split: option.splits)
  have "GetMemoryAtAddress mem found = Some pc \<and> iregs callee REG_SP \<le> found
      \<and> (\<exists>ms. sw_modules w = Some ms \<and> GetModuleForAddress ms pc \<noteq> None)"
    using scan_loop_found [OF s [unfolded ScanForReturnAddress_def Let_def]] by blast
  then show ?thesis
    using assms s
    by (auto simp: ARM64_GetCallerByStackScan_def arm64_recovered_by_def arm64_plain_def new_arm64_frame_def Let_def
        reg_numbers RegisterValidFlag_def)
qed

lemma arm64_find_caller_cases:
  assumes "arm64_find_caller w mem callee is_context allowed st = Some (Some caller, st')"
  shows "arm64_recovered_by w mem st callee caller \<and> arm64_plain caller
    \<and> (allowed \<or> trust caller \<noteq> FRAME_TRUST_SCAN)"
proof -
  consider (cfi) rules ok where "SFS_FindCFIFrameInfo (frame_info callee, frame_module callee) st = Some rules"
      "ARM64_GetCallerByCFIFrameInfo w mem callee rules = Returns ok (Some caller)"
    | (fp) "arm64_rules_fail w mem st callee" "GetCallerByFramePointer mem callee = Some caller"
    | (scan) "allowed" "arm64_rules_fail w mem st callee" "GetCallerByFramePointer mem callee = None"
      "ARM64_GetCallerByStackScan w mem callee is_context st = Some (Some caller, st')"
    using assms
    by (auto simp: arm64_find_caller_def arm64_rules_fail_def Let_def bind_eq_Some_conv
        split: option.splits evaluated.splits if_splits)
  then show ?thesis
  proof cases
    case cfi
    then show ?thesis using arm64_cfi_caller [OF cfi(2,1)] by simp
  next
    case fp
    then show ?thesis using arm64_fp_caller [OF fp(2,1)] by simp
  next
    case scan
    then show ?thesis using arm64_scan_caller [OF scan(4,2,3)] by simp
  qed
qed

lemma arm64_caller_sound:
  assumes "ARM64_GetCallerFrame w stack allowed st = Some (Some caller, st')"
    and "frames_of stack = fs @ [Some callee]"
  shows "arm64_caller w st callee caller \<and> frame_module caller = None \<and> (allowed \<or> trust caller \<noteq> FRAME_TRUST_SCAN)"
proof -
  obtain mem new where mem: "sw_memory w = Some mem"
    and new: "arm64_find_caller w mem callee (length (frames_of stack) = 1) allowed st = Some (Some new, st')"
    "iregs new REG_PC \<noteq> 0" "\<not> iregs new REG_SP < iregs callee REG_SP"
    "caller = new\<lparr>frame_info := (frame_info new)\<lparr>instruction := iregs new REG_PC - 4\<rparr>\<rparr>"
    using assms
    by (fastforce simp: ARM64_GetCallerFrame_def bind_eq_Some_conv Let_def split: option.splits if_splits)
  have "arm64_recovered_by w mem st callee caller = arm64_recovered_by w mem st callee new"
    by (intro arm64_recovered_cong) (simp_all add: new(4))
  then show ?thesis
    using arm64_find_caller_cases [OF new(1)] new(2,3) mem
    by (auto simp: arm64_caller_def arm64_plain_def new(4) not_less)
qed

lemma arm64_caller_fills:
  assumes "ARM64_GetCallerFrame w stack allowed st = Some (frame, st')"
  shows "(uses w)\<^sup>*\<^sup>* st st'"
proof -
  have "(uses w)\<^sup>*\<^sup>* st st1"
    if "arm64_find_caller w mem f is_context allowed st = Some (new, st1)" for mem f is_context new st1
    using that
    by (auto simp: arm64_find_caller_def ARM64_GetCallerByStackScan_def ScanForReturnAddress_def Let_def bind_eq_Some_conv
        split: if_splits option.splits dest: scan_fills)
  then show ?thesis
    using assms
    by (fastforce simp: ARM64_GetCallerFrame_def bind_eq_Some_conv Let_def split: option.splits if_splits)
qed

interpretation arm64: cpu_walker w "ARM64_GetCallerFrame w" "arm64_caller w" for w :: "'s Stackwalker"
proof
  show "arm64_caller w st callee f \<and> frame_module f = None \<and> (allowed \<or> trust f \<noteq> FRAME_TRUST_SCAN)"
    if "ARM64_GetCallerFrame w stack allowed st = Some (Some f, st')" "frames_of stack = fs @ [Some callee]"
    for stack allowed st f st' fs callee
    by (rule arm64_caller_sound [OF that])
  show "trust f \<notin> {FRAME_TRUST_NONE, FRAME_TRUST_CFI_SCAN, FRAME_TRUST_CONTEXT}" if "arm64_caller w st callee f" for st callee f
    using that by (auto simp: arm64_caller_def arm64_recovered_by_def Let_def split: FrameTrust.splits)
  show "arm64_caller w st callee g" if "arm64_caller w st callee f" "symbolized f g" for st callee f g
  proof -
    have g: "trust g = trust f" "iregs g = iregs f" "iregs_validity g = iregs_validity f"
      "instruction (frame_info g) = instruction (frame_info f)"
      using that(2) by (auto simp: symbolized_def)
    have "arm64_recovered_by w mem st callee g = arm64_recovered_by w mem st callee f" for mem
      by (rule arm64_recovered_cong [OF g(1-3)])
    then show ?thesis using that(1) by (simp add: arm64_caller_def g)
  qed
qed (rule arm64_caller_fills)

section \<open>Architectures without a scan\<close>

text \<open>The frames that a recovery function gives, from the first one on, at most \<open>k\<close> callers\<close>

primrec callers :: "('f \<Rightarrow> 'f option) \<Rightarrow> nat \<Rightarrow> 'f \<Rightarrow> 'f list" where
  "callers recover 0 f = [f]"
| "callers recover (Suc k) f = f # (case recover f of None \<Rightarrow> [] | Some g \<Rightarrow> callers recover k g)"

lemma from_last_frame_read:
  assumes "from_last_frame w stack recover st = Some (Some f, st')" "frames_of stack = fs @ [Some callee]"
  shows "st' = st \<and> (\<exists>mem. sw_memory w = Some mem \<and> recover mem callee = Some f)"
  using assms by (auto simp: from_last_frame_def split: option.splits)

locale frame_reader = cpu_walker w caller is_caller
  for w :: "'s Stackwalker"
    and caller :: "'z WalkFrame_scheme CallStack \<Rightarrow> bool \<Rightarrow> 's StackFrameSymbolizer
      \<Rightarrow> ('z WalkFrame_scheme option \<times> 's StackFrameSymbolizer) option"
    and is_caller :: "'s StackFrameSymbolizer \<Rightarrow> 'z WalkFrame_scheme \<Rightarrow> 'z WalkFrame_scheme \<Rightarrow> bool" +
  fixes recover :: "MinidumpMemoryRegion \<Rightarrow> 'z WalkFrame_scheme \<Rightarrow> 'z WalkFrame_scheme option"
  assumes caller_reads: "caller stack allowed st = from_last_frame w stack recover st"
    and recover_filled: "symbolized f g \<Longrightarrow> recover mem g = recover mem f"
begin

text \<open>Without a resolver the walk is the frames that are read, one after the other.\<close>

lemma walk_loop_reads:
  assumes "sw_memory w = Some mem" "sfs_resolver st = None"
    and "length (frames_of stack) + k = unat (max_frames w)"
  shows "\<exists>fs without'. walk_loop w caller (Some f) n stack without corrupt st
      = Some ((True, stack\<lparr>frames_of := frames_of stack @ map Some fs\<rparr>, without', corrupt), st)
    \<and> list_all2 symbolized (callers (recover mem) k f) fs"
  using assms(3)
proof (induction k arbitrary: f n stack without)
  case 0
  obtain m where fill: "SFS_FillSourceLineInfo (sw_supplier w) (sw_modules w) (unloaded_modules w)
      (frame_info f, frame_module f) st = Some (kError, (frame_info f, m), st)"
    using fill_without_resolver [OF assms(2)] by blast
  define g where "g = f\<lparr>frame_info := frame_info f, frame_module := m\<rparr>"
  have "symbolized f g" unfolding g_def by (rule symbolized_module)
  then show ?case
    unfolding walk_loop_push [OF fill _ g_def refl refl refl refl, simplified]
    using 0 by (intro exI [of _ "[g]"]) simp
next
  case (Suc k)
  obtain m where fill: "SFS_FillSourceLineInfo (sw_supplier w) (sw_modules w) (unloaded_modules w)
      (frame_info f, frame_module f) st = Some (kError, (frame_info f, m), st)"
    using fill_without_resolver [OF assms(2)] by blast
  define g where "g = f\<lparr>frame_info := frame_info f, frame_module := m\<rparr>"
  let ?stack = "stack\<lparr>frames_of := frames_of stack @ [Some g]\<rparr>"
  have g: "symbolized f g" unfolding g_def by (rule symbolized_module)
  have call: "caller ?stack allowed st = Some (recover mem f, st)" for allowed
    using recover_filled [OF g, of mem] by (simp add: caller_reads from_last_frame_def assms(1))
  define n' where "n' = (if trust g \<in> {FRAME_TRUST_NONE, FRAME_TRUST_SCAN, FRAME_TRUST_CFI_SCAN} then n + 1 else n)"
  have step: "walk_loop w caller (Some f) n stack without corrupt st =
      walk_loop w caller (recover mem f) n' ?stack (InsertSpecialAttentionModule m without) corrupt st"
    unfolding walk_loop_push [OF fill _ g_def n'_def refl refl refl, simplified]
    using Suc.prems by (simp add: call)
  show ?case
  proof (cases "recover mem f")
    case None
    then show ?thesis
      unfolding step using g by (intro exI [of _ "[g]"]) (simp add: walk_loop.simps)
  next
    case (Some h)
    have "\<exists>fs without'. walk_loop w caller (Some h) n' ?stack (InsertSpecialAttentionModule m without) corrupt st
      = Some ((True, ?stack\<lparr>frames_of := frames_of ?stack @ map Some fs\<rparr>, without', corrupt), st)
      \<and> list_all2 symbolized (callers (recover mem) k h) fs"
      using Suc.prems by (intro Suc.IH) simp
    then obtain fs without' where fs: "walk_loop w caller (Some h) n' ?stack (InsertSpecialAttentionModule m without) corrupt st
      = Some ((True, ?stack\<lparr>frames_of := frames_of ?stack @ map Some fs\<rparr>, without', corrupt), st)"
      "list_all2 symbolized (callers (recover mem) k h) fs"
      by (elim exE conjE) (rule that)
    show ?thesis
      unfolding step Some using fs g by (intro exI [of _ "g # fs"] exI [of _ without']) (simp add: Some)
  qed
qed

lemma walk_reads:
  assumes "sw_memory w = Some mem" "sfs_resolver st = None"
  shows "\<exists>fs without'. Walk w (Some f) caller new_CallStack without corrupt st
      = Some ((True, \<lparr>frames_of = map Some fs, stack_tid = 0\<rparr>, without', corrupt), st)
    \<and> list_all2 symbolized (callers (recover mem) (unat (max_frames w)) f) fs"
  using walk_loop_reads [OF assms, of "Clear new_CallStack" "unat (max_frames w)" f 0 without corrupt]
  by (simp add: Walk_def Clear_def new_CallStack_def)

end

definition ppc_caller :: "'s Stackwalker \<Rightarrow> ppc_frame \<Rightarrow> ppc_frame \<Rightarrow> bool" where
  "ppc_caller w callee caller \<longleftrightarrow> trust caller = FRAME_TRUST_FP
     \<and> (\<exists>mem. sw_memory w = Some mem
         \<and> GetMemoryAtAddress32 mem (ucast (ppc_gpr callee 1)) = Some (ppc_gpr caller 1)
         \<and> GetMemoryAtAddress32 mem (ucast (ppc_gpr caller 1 + 8)) = Some (ppc_srr0 caller))
     \<and> ppc_gpr callee 1 < ppc_gpr caller 1 \<and> 1 < ppc_srr0 caller
     \<and> instruction (frame_info caller) = ucast (ppc_srr0 caller - 4)"

definition ppc64_caller :: "'s Stackwalker \<Rightarrow> ppc64_frame \<Rightarrow> ppc64_frame \<Rightarrow> bool" where
  "ppc64_caller w callee caller \<longleftrightarrow> trust caller = FRAME_TRUST_FP
     \<and> (\<exists>mem. sw_memory w = Some mem \<and> GetMemoryAtAddress mem (ppc64_gpr callee 1) = Some (ppc64_gpr caller 1)
         \<and> GetMemoryAtAddress mem (ppc64_gpr caller 1 + 16) = Some (ppc64_srr0 caller))
     \<and> ppc64_gpr callee 1 < ppc64_gpr caller 1 \<and> 1 < ppc64_srr0 caller
     \<and> instruction (frame_info caller) = ppc64_srr0 caller - 8"

definition sparc_caller :: "'s Stackwalker \<Rightarrow> sparc_frame \<Rightarrow> sparc_frame \<Rightarrow> bool" where
  "sparc_caller w callee caller \<longleftrightarrow> trust caller = FRAME_TRUST_FP
     \<and> (\<exists>mem instr base. sw_memory w = Some mem \<and> GetMemoryAtAddress32 mem (g_r callee 30 + 60) = Some instr
         \<and> GetMemoryAtAddress32 mem (g_r callee 30 + 56) = Some base \<and> 1 < instr \<and> 1 < base
         \<and> g_r caller 30 = ucast base \<and> sparc_pc caller = ucast (instr + 8)
         \<and> instruction (frame_info caller) = ucast instr)
     \<and> g_r caller 14 = g_r callee 30 \<and> g_r callee 14 < g_r caller 14"

lemma ppc_recover_caller:
  assumes "ppc_recover mem callee = Some f" "sw_memory w = Some mem"
  shows "ppc_caller w callee f \<and> frame_module f = None \<and> trust f = FRAME_TRUST_FP"
  using assms
  by (auto simp: ppc_recover_def ppc_caller_def not_le split: option.splits if_splits)

lemma ppc64_recover_caller:
  assumes "ppc64_recover mem callee = Some f" "sw_memory w = Some mem"
  shows "ppc64_caller w callee f \<and> frame_module f = None \<and> trust f = FRAME_TRUST_FP"
  using assms
  by (auto simp: ppc64_recover_def ppc64_caller_def not_le split: option.splits if_splits)

lemma sparc_recover_caller:
  assumes "sparc_recover mem callee = Some f" "sw_memory w = Some mem"
  shows "sparc_caller w callee f \<and> frame_module f = None \<and> trust f = FRAME_TRUST_FP"
  using assms
  by (auto simp: sparc_recover_def sparc_caller_def not_le Let_def split: option.splits if_splits)

interpretation ppc: frame_reader w "PPC_GetCallerFrame w" "\<lambda>_. ppc_caller w" ppc_recover for w :: "'s Stackwalker"
proof
  show "ppc_caller w callee f \<and> frame_module f = None \<and> (allowed \<or> trust f \<noteq> FRAME_TRUST_SCAN)"
    if "PPC_GetCallerFrame w stack allowed st = Some (Some f, st')" "frames_of stack = fs @ [Some callee]"
    for stack allowed st f st' fs callee
    using from_last_frame_read [OF that [unfolded PPC_GetCallerFrame_def]] ppc_recover_caller by fastforce
qed (auto simp: ppc_caller_def symbolized_def PPC_GetCallerFrame_def ppc_recover_def from_last_frame_def split: option.splits if_splits)

interpretation ppc64: frame_reader w "PPC64_GetCallerFrame w" "\<lambda>_. ppc64_caller w" ppc64_recover for w :: "'s Stackwalker"
proof
  show "ppc64_caller w callee f \<and> frame_module f = None \<and> (allowed \<or> trust f \<noteq> FRAME_TRUST_SCAN)"
    if "PPC64_GetCallerFrame w stack allowed st = Some (Some f, st')" "frames_of stack = fs @ [Some callee]"
    for stack allowed st f st' fs callee
    using from_last_frame_read [OF that [unfolded PPC64_GetCallerFrame_def]] ppc64_recover_caller by fastforce
qed (auto simp: ppc64_caller_def symbolized_def PPC64_GetCallerFrame_def ppc64_recover_def from_last_frame_def split: option.splits if_splits)

interpretation sparc: frame_reader w "SPARC_GetCallerFrame w" "\<lambda>_. sparc_caller w" sparc_recover for w :: "'s Stackwalker"
proof
  show "sparc_caller w callee f \<and> frame_module f = None \<and> (allowed \<or> trust f \<noteq> FRAME_TRUST_SCAN)"
    if "SPARC_GetCallerFrame w stack allowed st = Some (Some f, st')" "frames_of stack = fs @ [Some callee]"
    for stack allowed st f st' fs callee
    using from_last_frame_read [OF that [unfolded SPARC_GetCallerFrame_def]] sparc_recover_caller by fastforce
qed (auto simp: sparc_caller_def symbolized_def SPARC_GetCallerFrame_def sparc_recover_def from_last_frame_def Let_def split: option.splits if_splits)

section \<open>Back chains\<close>

text \<open>
  A chain of frames on 64-bit PowerPC: at each stack pointer the one of the caller, and behind that the
  return address into the caller.  It ends where no caller can be read.
\<close>

fun back_chain :: "MinidumpMemoryRegion \<Rightarrow> u64 \<Rightarrow> (u64 \<times> u64) list \<Rightarrow> bool" where
  "back_chain mem sp [] \<longleftrightarrow>
     (case GetMemoryAtAddress mem sp of
        None \<Rightarrow> True
      | Some up \<Rightarrow> up \<le> sp \<or> (case GetMemoryAtAddress mem (up + 16) of None \<Rightarrow> True | Some ra \<Rightarrow> ra \<le> 1))"
| "back_chain mem sp ((ra, up) # fs) \<longleftrightarrow>
     GetMemoryAtAddress mem sp = Some up \<and> sp < up \<and> GetMemoryAtAddress mem (up + 16) = Some ra \<and> 1 < ra
     \<and> back_chain mem up fs"

text \<open>How a frame was found, its return address (or program counter), stack pointer and instruction\<close>

definition ppc64_view :: "ppc64_frame \<Rightarrow> FrameTrust \<times> u64 \<times> u64 \<times> u64" where
  "ppc64_view f = (trust f, ppc64_srr0 f, ppc64_gpr f 1, instruction (frame_info f))"

lemma ppc64_chain_callers:
  assumes "back_chain mem (ppc64_gpr f 1) chain" "length chain \<le> k"
  shows "map ppc64_view (callers (ppc64_recover mem) k f)
    = ppc64_view f # map (\<lambda>(ra, up). (FRAME_TRUST_FP, ra, up, ra - 8)) chain"
  using assms
proof (induction chain arbitrary: f k)
  case Nil
  then have "ppc64_recover mem f = None"
    by (auto simp: ppc64_recover_def not_le split: option.splits)
  then show ?case by (cases k) simp_all
next
  case (Cons r chain)
  obtain ra up where r: "r = (ra, up)" by (cases r)
  obtain j where k: "k = Suc j" "length chain \<le> j" using Cons.prems(2) by (cases k) auto
  obtain g where g: "ppc64_recover mem f = Some g" "ppc64_view g = (FRAME_TRUST_FP, ra, up, ra - 8)"
    "ppc64_gpr g 1 = up"
    using Cons.prems(1) by (auto simp: r ppc64_recover_def ppc64_view_def new_StackFrame_def not_le)
  then show ?case using Cons.IH [of g j] Cons.prems(1) k by (simp add: r)
qed

lemma ppc64_view_filled: "list_all2 symbolized fs gs \<Longrightarrow> map ppc64_view gs = map ppc64_view fs"
  by (induction rule: list_all2_induct) (auto simp: symbolized_def ppc64_view_def)

section \<open>Contracts\<close>

text \<open>
  C17. What a walk of an AArch64 stack leaves in the call stack: behind the deleted frames that were in it,
  the frame of the context and then the callers, each recovered from the one in front of it (by the very
  rules that the symbolizer, as it was at that point of the walk, found for that frame; when these give no
  caller, by the link register and the frame pointer; when these give none either, by a scan), with a
  stack pointer that does not go down and an instruction four bytes in front of the return address, within
  the limits on frames and scans.
\<close>
theorem arm64_walk_sound:
  assumes "ARM64_Walk w validity cpu stack without corrupt st = Some ((ok, stack', without', corrupt'), st')"
  shows "\<exists>fs. frames_of stack' = map (\<lambda>_. None) (frames_of stack) @ map Some fs
    \<and> (fs = [] \<longrightarrow> cpu = None \<or> \<not> ok)
    \<and> (fs \<noteq> [] \<longrightarrow> trust (hd fs) = FRAME_TRUST_CONTEXT \<and> cpu = Some (iregs (hd fs))
        \<and> iregs_validity (hd fs) = validity \<and> instruction (frame_info (hd fs)) = iregs (hd fs) REG_PC)
    \<and> successively (called_in w (arm64_caller w) st st') fs
    \<and> length fs \<le> Suc (unat (max_frames w)) \<and> scans fs \<le> unat (max_frames_scanned w)
    \<and> (\<forall>f\<in>set fs. frame_module f
        = module_of_frame (sw_modules w) (unloaded_modules w) (instruction (frame_info f)))"
proof -
  have "\<forall>f. ARM64_GetContextFrame validity cpu = Some f \<longrightarrow> trust f = FRAME_TRUST_CONTEXT \<and> frame_module f = None"
    by (auto simp: ARM64_GetContextFrame_def new_arm64_frame_def)
  then obtain fs where fs: "frames_of stack' = map (\<lambda>_. None) (frames_of stack) @ map Some fs"
    "walk_ok w (called_in w (arm64_caller w) st st') (ARM64_GetContextFrame validity cpu) fs" "fs = [] \<longrightarrow> ARM64_GetContextFrame validity cpu = None \<or> \<not> ok"
    using arm64.frames_of_walk [OF assms [unfolded ARM64_Walk_def]] by blast
  then show ?thesis
    by (intro exI [of _ fs]) (auto simp: walk_ok_def ARM64_GetContextFrame_def symbolized_def)
qed

text \<open>
  C18. A stack of 64-bit PowerPC is walked to the end of its chain of stack pointers: without a resolver the
  walk returns the frame of the context and then every caller of the chain, in order, with its return
  address and stack pointer.  The return address is read 16 bytes above the stack pointer of the caller,
  where the ABI saves the link register; the comments in \<open>stackwalker_ppc64.h\<close> and \<open>stackwalker_ppc64.cc\<close>,
  taken over from 32-bit PowerPC, say 8.  The instruction of a caller is eight bytes in front of the return
  address, although instructions have four: it is the one in front of the call.
\<close>
theorem ppc64_chain_walked:
  assumes "sw_memory w = Some mem" "sfs_resolver st = None"
    and "back_chain mem (gpr 1) chain" "length chain \<le> unat (max_frames w)"
  shows "\<exists>fs without'. PPC64_Walk w (Some (pc, gpr)) new_CallStack without corrupt st
      = Some ((True, \<lparr>frames_of = map Some fs, stack_tid = 0\<rparr>, without', corrupt), st)
    \<and> map ppc64_view fs = (FRAME_TRUST_CONTEXT, pc, gpr 1, pc)
        # map (\<lambda>(ra, up). (FRAME_TRUST_FP, ra, up, ra - 8)) chain"
proof -
  let ?f = "\<lparr>frame_info = new_StackFrame\<lparr>instruction := pc\<rparr>, frame_module = None,
         trust = FRAME_TRUST_CONTEXT, ppc64_srr0 = pc, ppc64_gpr = gpr, ppc64_validity = - 1\<rparr>"
  have "map ppc64_view (callers (ppc64_recover mem) (unat (max_frames w)) ?f)
      = (FRAME_TRUST_CONTEXT, pc, gpr 1, pc) # map (\<lambda>(ra, up). (FRAME_TRUST_FP, ra, up, ra - 8)) chain"
    using ppc64_chain_callers [of mem ?f chain] assms(3,4) by (simp add: ppc64_view_def)
  then show ?thesis
    using ppc64.walk_reads [OF assms(1,2), of ?f without corrupt] ppc64_view_filled
    by (fastforce simp: PPC64_Walk_def PPC64_GetContextFrame_def)
qed

section \<open>Small stacks\<close>

definition word_bytes :: "nat \<Rightarrow> 8 word list" where
  "word_bytes n = map (\<lambda>i. of_nat (n div 256 ^ i)) [0..<8]"

text \<open>A region at \<open>0x7000\<close> with the given numbers\<close>

definition stack_of :: "nat list \<Rightarrow> MinidumpMemoryRegion" where
  "stack_of ns = \<lparr>region_valid = True, start_of_memory_range = 0x7000, region_bytes = concat (map word_bytes ns),
     region_readable = True, region_swap = False\<rparr>"

definition walker_of :: "nat list \<Rightarrow> unit Stackwalker" where
  "walker_of ns = \<lparr>os_short = ''linux'', sw_memory = Some (stack_of ns), sw_modules = None, unloaded_modules = None,
     max_frames = 1024, max_frames_scanned = 1024,
     sw_supplier = \<lparr>GetCStringSymbolData = (\<lambda>_ s. (NOT_FOUND, s)), FreeSymbolData = (\<lambda>_ s. s)\<rparr>,
     extract_number = extract_unsigned\<rparr>"

definition no_resolver :: "unit StackFrameSymbolizer" where
  "no_resolver = \<lparr>sfs_supplier = None, sfs_resolver = None, no_symbol_modules = {}\<rparr>"

lemma ppc64_sample_chain: "back_chain (stack_of [0x7008, 0, 0, 0x401000]) 0x7000 [(0x401000, 0x7008)]"
  by code_simp

theorem ppc64_chain_walked_witness:
  "\<exists>fs without'. PPC64_Walk (walker_of [0x7008, 0, 0, 0x401000]) (Some (0x400000, \<lambda>_. 0x7000)) new_CallStack [] [] no_resolver
      = Some ((True, \<lparr>frames_of = map Some fs, stack_tid = 0\<rparr>, without', []), no_resolver)
    \<and> map ppc64_view fs = [(FRAME_TRUST_CONTEXT, 0x400000, 0x7000, 0x400000), (FRAME_TRUST_FP, 0x401000, 0x7008, 0x400FF8)]"
  using ppc64_chain_walked [of "walker_of [0x7008, 0, 0, 0x401000]" "stack_of [0x7008, 0, 0, 0x401000]" no_resolver
      "\<lambda>_. 0x7000" "[(0x401000, 0x7008)]" "0x400000" "[]" "[]"] ppc64_sample_chain
  by (simp add: walker_of_def no_resolver_def)

definition arm64_context :: "nat \<Rightarrow> u64" where
  "arm64_context r = (if r = REG_LR then 0x401000 else if r = REG_SP then 0x7000 else if r = REG_PC then 0x400000 else 0)"

lemma arm64_sample_walk:
  "\<exists>stack without. ARM64_Walk (walker_of []) (- 1) (Some arm64_context) new_CallStack [] [] no_resolver
      = Some ((True, stack, without, []), no_resolver)
    \<and> (\<exists>f g. frames_of stack = [Some f, Some g] \<and> iregs g REG_PC = 0x401000)"
  by (simp add: ARM64_Walk_def Walk_def ARM64_GetContextFrame_def walk_loop.simps SFS_FillSourceLineInfo_def
      module_of_frame_def walker_of_def no_resolver_def ARM64_GetCallerFrame_def arm64_find_caller_def
      SFS_FindCFIFrameInfo_def GetCallerByFramePointer_def arm64_context_def reg_numbers new_CallStack_def Clear_def
      new_arm64_frame_def InsertSpecialAttentionModule_def)
theorem arm64_walk_sound_witness:
  "\<exists>f g. successively (called_in (walker_of []) (arm64_caller (walker_of [])) no_resolver no_resolver) [f, g] \<and> trust f = FRAME_TRUST_CONTEXT
    \<and> iregs f = arm64_context \<and> iregs g REG_PC = 0x401000"
proof -
  obtain stack without f g where walk:
    "ARM64_Walk (walker_of []) (- 1) (Some arm64_context) new_CallStack [] [] no_resolver
      = Some ((True, stack, without, []), no_resolver)"
    "frames_of stack = [Some f, Some g]" "iregs g REG_PC = 0x401000"
    using arm64_sample_walk by (elim exE conjE) (rule that)
  have "successively (called_in (walker_of []) (arm64_caller (walker_of [])) no_resolver no_resolver) [f, g] \<and> trust f = FRAME_TRUST_CONTEXT \<and> iregs f = arm64_context"
    using arm64_walk_sound [OF walk(1)] by (auto simp: walk(2) new_CallStack_def Clear_def)
  with walk(3) show ?thesis by blast
qed

end
