(* ===== verification/Spec2Isabelle.thy ===== *)
theory Spec2Isabelle
  imports LZO1X_Roundtrip LZO1_Roundtrip Convert_UTF_Contracts Address_Lookup Cpu_Set Line_Reader Byte_Reader Postfix_Evaluator Contained_Range_Map Resolver_Contracts Symbol_Roundtrip Line_Programs Fast_Contracts Symbolizer_Contracts Other_Walks
begin

text \<open>
  The repository is an Android VPN client.  Its user interface is Java, its VPN engine a git
  submodule (openvpn) that the repository does not contain; the C and C++ code it does contain is the
  LZO compression library (\<open>src/app/lzo\<close>), with which the engine compresses the packets, and the
  crash reporter breakpad (\<open>src/app/breakpad\<close>): a client that writes a minidump when the process
  crashes, and a processor that reads minidumps and symbol files.  This development models the core
  of both.

  \<^bold>\<open>LZO.\<close>  A block compressor turns a source into a stream of codes for literals and for copies of
  earlier bytes, with a hash dictionary of earlier positions; a decompressor is a control-flow graph
  over such a stream.  Compressor and decompressor share nothing but the format.

  \<^item> \<open>LZO_Prelude\<close>: integer types, bit arithmetic as arithmetic (collection \<open>bits\<close>), the list lemmas
    on an LZ77 copy.
  \<^item> \<open>LZO_Machine\<close>: the machine of the decompressors: buffers, pointers, the tests of
    \<open>src/app/lzo/src/lzo1_d.ch\<close>, results (\<open>Return\<close>, \<open>Run\<close>, \<open>Fault\<close>), and the rules by which memory
    safety (\<open>wp\<close>), progress (\<open>prog\<close>) and agreement of two builds (\<open>agree\<close>) go through a block.
  \<^item> \<open>LZO_Memops\<close>: the unaligned accessors, \<open>lzo_memcpy\<close>, \<open>lzo_memmove\<close>, \<open>lzo_memcmp\<close> and
    \<open>lzo_memset\<close> of \<open>minilzo.c\<close>.
  \<^item> \<open>LZO1X_Decompress\<close>: \<open>lzo1x_decompress\<close>, \<open>lzo1x_decompress_safe\<close> and the LZO1Y and LZO1Z
    instances of the template, one definition for each label.  \<open>LZO1X_Safety\<close>: the bounds invariant
    \<open>x_inv\<close>, and the equivalences of tested and untested build and of the two copy loops.
  \<^item> \<open>LZO1X_Compress\<close>: \<open>lzo1x_1_compress\<close> and its \<open>do_compress\<close> (LZO1X-1 and LZO1Y-1).
    \<open>LZO1X_Matchlen\<close>: the three ways to extend a match meet one specification (locale
    \<open>match_extension\<close>).  \<open>LZO_Stream\<close>: how a run of the decompressor composes along a stream of codes.
    \<open>LZO1X_Roundtrip\<close>: the invariant of the compressor's output, and the two codecs as
    interpretations of the locale \<open>block_codec\<close> of \<open>LZO_Codec\<close>.
  \<^item> \<open>LZO_Dict\<close>, \<open>LZO1_Codec\<close>, \<open>LZO1_Roundtrip\<close>: the dictionary macros of \<open>lzo_dict.h\<close> and the codec of
    \<open>lzo1.c\<close>, also an interpretation of \<open>block_codec\<close>.

  \<^bold>\<open>breakpad, common code.\<close>

  \<^item> \<open>Convert_UTF\<close>: the converters of \<open>common/convert_UTF.c\<close>, with which names in dumps are converted, every
    read and write of them checked against the end of its buffer.  \<open>Convert_UTF_Correct\<close> and \<open>Convert_UTF_Contracts\<close>: they convert well-formed text, stay in their
    buffers, and what they accept (locales \<open>transcoder\<close>, \<open>bounded_step\<close>, \<open>validating_step\<close>,
    \<open>strict_transcoder\<close>, each interpreted for the converters).
  \<^item> \<open>Byte_Reader\<close>: \<open>common/dwarf/bytereader\<close>: LEB128, fixed-size and encoded-pointer readers.
  \<^item> \<open>Line_Info\<close>: \<open>LineInfo\<close> of \<open>common/dwarf/dwarf2reader.cc\<close>, the reader of \<open>.debug_line\<close>.
    \<open>Line_Programs\<close>: units of DWARF 2 and 3 as data, their bytes, and that the reader reports what they
    mean; what it misreads (\<open>DW_LNE_define_file\<close>, the header of DWARF 4); and units that it does not
    withstand.
  \<^item> \<open>Symbol_Writer\<close>: \<open>common/module.cc\<close>, the symbols of a module and the symbol file that \<open>Write\<close> writes
    of them.

  \<^bold>\<open>breakpad, client.\<close>  The crash handler runs in a process whose heap and C library cannot be trusted,
  so it brings its own functions.

  \<^item> \<open>Libc_Support\<close>: \<open>common/linux/linux_libc_support.cc\<close>.  \<open>Cpu_Set\<close> and \<open>Line_Reader\<close>:
    \<open>client/linux/minidump_writer/cpu_set.h\<close>, which parses with the functions of \<open>Libc_Support\<close>, and
    \<open>line_reader.h\<close>.

  \<^bold>\<open>breakpad, processor.\<close>  Symbol files are loaded into maps from addresses to modules, functions, lines
  and unwinding programs.

  \<^item> \<open>Std_Map\<close>: \<open>std::map\<close> as a sorted list.  \<open>Range_Map\<close> and \<open>Address_Lookup\<close>: \<open>RangeMap\<close> and
    \<open>AddressMap\<close>; \<open>Contained_Range_Map\<close>: \<open>ContainedRangeMap\<close>, a tree of nested ranges.  All three are
    interpretations of the locale \<open>recording_store\<close>, the contract of a sequence of stores.
  \<^item> \<open>Postfix_Evaluator\<close>: \<open>postfix_evaluator-inl.h\<close>, against a compiler for expressions.
  \<^item> \<open>Symbol_Text\<close> and \<open>Symbol_Records\<close>: \<open>tokenize.cc\<close>, the functions of the C library that scan tokens
    and numbers, \<open>windows_frame_info.h\<close>, \<open>source_line_resolver_base_types.h\<close> and \<open>SymbolParseHelper\<close>: the
    records of a symbol file, from a line of text to a structure.
  \<^item> \<open>Cfi_Frame_Info\<close>: \<open>cfi_frame_info.h\<close>, \<open>.cc\<close> and \<open>-inl.h\<close>: rules for the registers of a caller, their
    text, and the stack walker that applies them with \<open>Postfix_Evaluator\<close>.
  \<^item> \<open>Source_Line_Resolver\<close>: \<open>basic_source_line_resolver.cc\<close> and \<open>source_line_resolver_base.cc\<close>, which tie
    these together: \<open>LoadMapFromMemory\<close> stores each record of a symbol file in the maps of a \<open>Module\<close>,
    and the lookups read them.  \<open>Resolver_Invariant\<close>: every record keeps \<open>module_ok\<close>, the invariant of
    the maps, and loading returns.  \<open>Resolver_Contracts\<close>: what a lookup finds, and the resolver as a map
    from code files to modules under the steps of its clients (\<open>resolver_step\<close>).  The keys of this map
    are C strings (\<open>CompareString\<close>): names are cut at a NUL by \<open>c_str\<close>, here and in the fast resolver.
    \<open>Symbol_Roundtrip\<close>: a symbol file of \<open>Symbol_Writer\<close> is loaded without an error, and a lookup in it
    finds the function, the line and the public symbol the writer knew.
  \<^item> \<open>Static_Maps\<close>: \<open>static_map.h\<close>, \<open>static_range_map.h\<close>, \<open>static_address_map.h\<close> and
    \<open>static_contained_range_map.h\<close>, the same maps read in place from a chunk of memory.
    \<open>Map_Serializers\<close>: \<open>simple_serializer.h\<close>, \<open>map_serializers-inl.h\<close> and \<open>module_serializer.cc\<close>, which
    write them.  \<open>Map_Layout\<close>: every serializer emits the text of its object and fills the size it
    announces (locale \<open>serializer\<close>, interpreted for each of them).  \<open>Static_Map_Reads\<close>: each lookup in a
    static map on that text finds what the map finds.
  \<^item> \<open>Fast_Resolver\<close> and \<open>Fast_Modules\<close>: \<open>fast_source_line_resolver.cc\<close>, its lookups in serialized
    modules, its modules and their buffers, and the conversion of a basic resolver.
    \<open>Fast_Equivalence\<close>: a serialized module is looked up as the module itself.  \<open>Loaded_Modules\<close>: what the
    loader stores can be serialized (\<open>contents_ok\<close>).  \<open>Fast_Contracts\<close>: the fast resolver refines the
    basic one.
  \<^item> \<open>Code_Modules\<close>: \<open>basic_code_modules.cc\<close>, the modules of a process by address, and the memory regions
    of \<open>minidump.cc\<close>.  \<open>Frame_Symbolizer\<close>: \<open>stack_frame_symbolizer.cc\<close>, which fetches symbols when a
    frame needs them.  \<open>Stackwalker\<close>: \<open>stackwalker.cc\<close> and \<open>call_stack.cc\<close>, from the context of a crash to
    its stack of frames.  \<open>Stackwalker_AMD64\<close>, \<open>Stackwalker_ARM64\<close>, \<open>Stackwalker_PPC\<close>: the walkers of
    x86-64 and AArch64 (by CFI rules of \<open>Cfi_Frame_Info\<close>, frame pointers or a scan) and of PowerPC, 64-bit
    PowerPC and SPARC (by frame pointers), in the files named after the architectures.
    \<open>Symbolizer_States\<close>: what the symbolizer does over a sequence of uses, and a supplier that records what
    it is asked and what it answers, interruptions included (\<open>logging\<close>).  \<open>Walk_Interface\<close>: a rule for
    the loop of \<open>Walk\<close> (\<open>walk_loop_rule\<close>), and the locale \<open>cpu_walker\<close>, the contract of the virtual
    function \<open>GetCallerFrame\<close>, in which the frames of a walk, its reports and its uses of the symbolizer
    are described once: each frame is the caller of the one before with the symbolizer as it was when the
    walk recovered it (\<open>called_in\<close>); it is interpreted for each walker in \<open>Stack_Walk\<close> and \<open>Other_Walks\<close>, for those that
    only read memory through the locale \<open>frame_reader\<close>, which extends it.  \<open>Stack_Walk_Contracts\<close>,
    \<open>Symbolizer_Contracts\<close> and \<open>Other_Walks\<close> hold the contracts.

  \<^bold>\<open>Correspondence.\<close>  A pointer into a buffer is an index into the list that models it, or the list from
  there on; an access outside the buffer is a value (\<open>Fault\<close>, \<open>None\<close>, \<open>Inl\<close> an error), and a list of the
  model is indexed only behind a test, or where an invariant keeps the index in it.  Integers
  have the width of the LP64 build: words where they can wrap, natural numbers where a bound on the
  size of objects keeps them small (\<open>MAX_OBJECT\<close>, the largest object C allows).  C++ templates are
  polymorphic definitions.  System calls, streams and the memory of another process are parameters; of
  the extraction of a number from a stream, \<open>extracts\<close> states what the standard says of a token (white
  space is skipped, the longest run of digits is read and fails if it overflows), and \<open>extract_unsigned\<close> is
  a function that meets it.  Where the language leaves a result undefined and the compilers wrap around
  (the negation in the sign extension of \<open>ReadSignedLEB128\<close>), the model wraps around and says so.

  \<^bold>\<open>Termination.\<close>  The decompressors and compressors are total: each block of a decompressor moves the
  read pointer forward or is one of finitely many steps between such moves, each iteration of a
  compressor moves its position.  Loops whose text bounds nothing are \<open>partial_function (option)\<close>, and
  that they return is a theorem: the recursion of \<open>StoreRangeInternal\<close>, the loop of \<open>ParseSysFile\<close>
  over a range of processors (which does not end for one input), \<open>GetNextLine\<close>, the loop of
  \<open>ReadLines\<close> on units of DWARF 2 and 3 that define no file in the program (it does not end on some others), and the search
  in nested static maps and the walk over static CFI rules, on memory that was serialized.  No
  definition uses fuel.

  \<^bold>\<open>Not modelled.\<close>  Of LZO: the slow compressors (LZO1X-999 and its relatives), the codecs LZO1A to
  LZO1C, LZO1F and LZO2A, the optimizer, checksums, the assembly versions, test drivers and examples;
  of LZO1X, the builds with a pointer dictionary, with wide literal copies, or with a preset dictionary
  (\<open>COPY_DICT\<close>).  Of breakpad: code that reads and writes files, processes and sockets (writers of
  minidumps, exception handlers, upload tools, dumpers of ELF, Mach-O and PDB files), the minidump
  parser (except for its memory regions), the stack walkers of 32-bit x86, ARM and MIPS, the readers of
  DWARF compilation units and call frame information (the byte reader and the line number reader are
  modelled), tables of names of exceptions, and the vendored disassembler.  These are left out because
  they are input and output around formats, because they are tables, or because they repeat, with other
  registers and heuristics, what is modelled: \<open>components\<close> of the manifest says which.
\<close>

section \<open>Compressing and decompressing a block\<close>

text \<open>
  C1. Round trip of LZO1X-1: for every source that fits in memory, \<open>lzo1x_1_compress\<close> returns
  \<open>LZO_E_OK\<close> without touching memory outside its source, and \<open>lzo1x_decompress_safe\<close>, given a
  buffer of at least the original size, returns \<open>LZO_E_OK\<close> and exactly the source.
\<close>

theorem lzo1x_roundtrip:
  assumes "length src \<le> MAX_OBJECT" and "length src \<le> cap"
  shows "\<exists>out. lzo1x_1_compress c addr src = Some (LZO_E_OK, out) \<and>
           lzo1x_decompress_safe out cap = Some (LZO_E_OK, src)"
  by (rule lzo1x.round_trip [OF assms]) blast

lemma lzo1x_roundtrip_witness:
  "\<exists>out. lzo1x_1_compress UNALIGNED64 4096 (replicate 40 65) = Some (LZO_E_OK, out) \<and>
     lzo1x_decompress_safe out 40 = Some (LZO_E_OK, replicate 40 65)"
  by (rule lzo1x_roundtrip) (simp_all add: MAX_OBJECT_def)

text \<open>
  C3. Round trip of LZO1Y-1 (the same template with the LZO1Y match codes).
\<close>

theorem lzo1y_roundtrip:
  assumes "length src \<le> MAX_OBJECT" and "length src \<le> cap"
  shows "\<exists>out. lzo1y_1_compress c addr src = Some (LZO_E_OK, out) \<and>
           lzo1y_decompress_safe out cap = Some (LZO_E_OK, src)"
  by (rule lzo1y.round_trip [OF assms]) blast

lemma lzo1y_roundtrip_witness:
  "\<exists>out. lzo1y_1_compress NO_UNALIGNED 4096 (replicate 40 65) = Some (LZO_E_OK, out) \<and>
     lzo1y_decompress_safe out 64 = Some (LZO_E_OK, replicate 40 65)"
  by (rule lzo1y_roundtrip) (simp_all add: MAX_OBJECT_def)

text \<open>
  C5. Expansion bound: the compressed block is never longer than
  \<open>in_len + in_len / 16 + 64 + 3\<close> bytes, the output size the documentation asks callers for; in
  fact four bytes on top of \<open>in_len / 16\<close> suffice.
\<close>

theorem lzo1x_output_bound:
  assumes "length src \<le> MAX_OBJECT"
  shows "\<exists>out. lzo1x_1_compress c addr src = Some (LZO_E_OK, out) \<and>
           length out \<le> length src + length src div 16 + 4 \<and>
           length out \<le> x_worst (length src)"
proof -
  obtain out where "x_1_compress c LZO1X addr src = Some (LZO_E_OK, out)"
    "length out \<le> length src + length src div 16 + 4"
    by (rule x_codec [of LZO1X src, OF _ assms]) auto
  then show ?thesis
    by (simp add: lzo1x_1_compress_def x_worst_def)
qed

lemma lzo1x_output_bound_witness:
  "\<exists>out. lzo1x_1_compress UNALIGNED32 0 [1, 2, 3] = Some (LZO_E_OK, out) \<and>
     length out \<le> 7 \<and> length out \<le> 70"
  using lzo1x_output_bound [of "[1, 2, 3]" UNALIGNED32 0] by (simp add: MAX_OBJECT_def x_worst_def)

text \<open>
  C4. The untested \<open>lzo1x_decompress\<close> is safe on what the compressor produced: it never leaves its
  buffers and restores the source.  When other bytes follow the compressed block both
  decompressors restore the source and return \<open>LZO_E_INPUT_NOT_CONSUMED\<close>.
\<close>

theorem lzo1x_decompress_compressed:
  assumes "length src \<le> MAX_OBJECT" and "length src \<le> cap"
    and "lzo1x_1_compress c addr src = Some (LZO_E_OK, out)"
  shows "lzo1x_decompress (out @ rest) cap =
           Some (if rest = [] then LZO_E_OK else LZO_E_INPUT_NOT_CONSUMED, src)
         \<and> lzo1x_decompress_safe (out @ rest) cap =
           Some (if rest = [] then LZO_E_OK else LZO_E_INPUT_NOT_CONSUMED, src)"
proof -
  obtain out' where out': "x_1_compress c LZO1X addr src = Some (LZO_E_OK, out')"
    "\<And>debug tested rest cap. length src \<le> cap \<Longrightarrow>
       x_decompress LZO1X debug tested (out' @ rest) cap =
         Some (if rest = [] then LZO_E_OK else LZO_E_INPUT_NOT_CONSUMED, src)"
    by (rule x_codec [of LZO1X src, OF _ assms(1)]) auto
  then have "out' = out"
    using assms(3) by (simp add: lzo1x_1_compress_def)
  with out'(2) assms(2) show ?thesis
    by (simp only: lzo1x_decompress_def lzo1x_decompress_safe_def simp_thms)
qed

lemma lzo1x_decompress_compressed_witness:
  "lzo1x_decompress ([20, 1, 2, 3, 17, 0, 0] @ [9]) 3 = Some (LZO_E_INPUT_NOT_CONSUMED, [1, 2, 3])"
proof -
  have "lzo1x_1_compress NO_UNALIGNED 0 [1, 2, 3] = Some (LZO_E_OK, [20, 1, 2, 3, 17, 0, 0])"
    by code_simp
  from lzo1x_decompress_compressed [OF _ _ this, of 3 "[9]"] show ?thesis
    by (simp add: MAX_OBJECT_def)
qed

text \<open>
  C7. The compressed stream does not depend on the build: with and without unaligned 32-bit or
  64-bit access the compressor emits the same bytes.
\<close>

theorem lzo1x_compress_build_independent:
  "lzo1x_1_compress c addr src = lzo1x_1_compress c' addr src"
  unfolding lzo1x_1_compress_def by (rule x_1_compress_build)

end
